(* ===== verification/Prelude.thy ===== *)
theory Prelude
  imports Main "HOL-Library.Word" "HOL-Library.Multiset"
begin

text \<open>
  What the components share: machine types, the outcomes of an operation that may
  stop the process or never return, and the generic facts on lists and words that
  the component proofs rest on.

  A C pointer is an \<open>addr\<close>, a 64-bit word, with \<open>0\<close> for \<open>NULL\<close>. A Fil-C pointer is
  a \<open>zptr\<close>: the address and the bounds its capability carries, which \<open>zgetlower\<close>
  and \<open>zgetupper\<close> read. An intrusive chain of structs (a \<open>next\<close> field from a head
  pointer to \<open>NULL\<close>) is the list of the addresses on it, head first; the two doubly
  linked lists of the sources keep their link fields (theory \<open>Dll\<close>).
\<close>

unbundle bit_operations_syntax

type_synonym addr = "64 word"
type_synonym u32 = "32 word"
type_synonym u64 = "64 word"

text \<open>The process stops in \<open>filc_async_fatal\<close>, or a wait never ends (its fuel runs out).\<close>

datatype abort = Fatal string | No_Return

type_synonym 'a outcome = "abort + 'a"

definition res_bind :: "'a outcome \<Rightarrow> ('a \<Rightarrow> 'b outcome) \<Rightarrow> 'b outcome" where
  "res_bind m f = (case m of Inl e \<Rightarrow> Inl e | Inr x \<Rightarrow> f x)"

lemma res_bind_simps [simp]:
  "res_bind (Inl e) f = Inl e"
  "res_bind (Inr x) f = f x"
  by (simp_all add: res_bind_def)

lemma res_bind_Inr [simp]:
  "(res_bind m f = Inr y) = (\<exists>x. m = Inr x \<and> f x = Inr y)"
  by (cases m) (simp_all add: res_bind_def)

lemma res_bind_Inl:
  "(res_bind m f = Inl e) = (m = Inl e \<or> (\<exists>x. m = Inr x \<and> f x = Inl e))"
  by (cases m) (simp_all add: res_bind_def)

text \<open>
  \<open>alloc_or_die\<close>: the list is what the installed allocator will answer to the caller's
  requests, in order; \<open>NULL\<close>, or no answer left, stops the process.
\<close>

definition alloc_or_die :: "addr list \<Rightarrow> (addr \<times> addr list) outcome" where
  "alloc_or_die answers =
    (case answers of
       [] \<Rightarrow> Inl (Fatal ''out of memory'')
     | p # rest \<Rightarrow> if p = 0 then Inl (Fatal ''out of memory'') else Inr (p, rest))"

lemma alloc_or_die_Inr [simp]:
  "(alloc_or_die answers = Inr (p, rest)) = (answers = p # rest \<and> p \<noteq> 0)"
  by (auto simp: alloc_or_die_def split: list.splits if_splits)

lemma alloc_or_die_Inl: "alloc_or_die answers = Inl e \<Longrightarrow> e = Fatal ''out of memory''"
  by (auto simp: alloc_or_die_def split: list.splits if_splits)

record zptr =
  zaddr :: addr
  zlower :: addr
  zupper :: addr

definition null_ptr :: zptr where
  "null_ptr = \<lparr>zaddr = 0, zlower = 0, zupper = 0\<rparr>"

text \<open>Two objects given by their bounds overlap.\<close>

definition overlaps :: "addr \<Rightarrow> addr \<Rightarrow> addr \<Rightarrow> addr \<Rightarrow> bool" where
  "overlaps lower upper lower' upper' \<longleftrightarrow> lower < upper' \<and> lower' < upper"

section \<open>Lists\<close>

lemma length_filter_remove1:
  "x \<in> set xs \<Longrightarrow>
   length (filter P (remove1 x xs)) = length (filter P xs) - (if P x then 1 else 0)"
proof (induction xs)
  case (Cons y ys)
  then show ?case
    using length_pos_if_in_set [of x "filter P ys"] by auto
qed simp

lemma find_None_filter: "(List.find P xs = None) = (filter P xs = [])"
  by (induction xs) auto

lemma find_Some_mem: "List.find P xs = Some x \<Longrightarrow> x \<in> set xs \<and> P x"
  by (induction xs) (auto split: if_splits)

lemma find_Some_iff_ex: "(\<exists>x. List.find P xs = Some x) = (\<exists>x\<in>set xs. P x)"
  by (induction xs) auto

lemma length_filter_pos: "(0 < length (filter P xs)) = (\<exists>x\<in>set xs. P x)"
  by (induction xs) auto

section \<open>Words\<close>

lemma of_nat_pred_word: "0 < n \<Longrightarrow> (of_nat (n - Suc 0) :: 'a::len word) = of_nat n - 1"
  by (cases n) simp_all

lemma of_nat_word_eq_0:
  "n < 2 ^ LENGTH('a::len) \<Longrightarrow> ((of_nat n :: 'a word) = 0) = (n = 0)"
  by (simp add: word_unat_eq_iff unat_of_nat take_bit_nat_eq_self)

end
