(* ===== verification/Hashing.thy ===== *)
theory Hashing
  imports Prelude
begin

text \<open>
  Multiplicative hashing (\<open>hash_bits\<close>), which places handles, dependency locks and
  pending marks in their tables, and the fact every table rests on: the top bits of a
  product are an index into a table of that many bits.
\<close>

definition hash_bits :: "u64 \<Rightarrow> nat \<Rightarrow> nat" where
  "hash_bits key bits = unat (drop_bit (64 - bits) (key * 0x9E3779B97F4A7C15))"

lemma unat_drop_bit_bound:
  fixes w :: "'a::len word"
  assumes "bits \<le> LENGTH('a)"
  shows "unat (drop_bit (LENGTH('a) - bits) w) < 2 ^ bits"
proof -
  have "unat (drop_bit (LENGTH('a) - bits) w) = unat w div 2 ^ (LENGTH('a) - bits)"
    by (subst unat_drop_bit_eq) (rule drop_bit_eq_div)
  also have "\<dots> < 2 ^ bits"
  proof (rule less_mult_imp_div_less)
    have "unat w < 2 ^ LENGTH('a)" by simp
    also have "\<dots> = 2 ^ bits * 2 ^ (LENGTH('a) - bits)"
      using assms by (simp flip: power_add)
    finally show "unat w < 2 ^ bits * 2 ^ (LENGTH('a) - bits)" .
  qed
  finally show ?thesis .
qed

lemma hash_bits_bound [simp]: "bits \<le> 64 \<Longrightarrow> hash_bits key bits < 2 ^ bits"
  using unat_drop_bit_bound [where 'a = 64, of bits "key * 0x9E3779B97F4A7C15"]
  by (simp add: hash_bits_def)

end
