(* ===== verification/Dll.thy ===== *)
theory Dll
  imports Prelude
begin

text \<open>
  The doubly linked list of the sources, at the level of its link fields: the running
  tasks of the framework and the calls in flight of the io_uring runtime are both
  chained by \<open>newer\<close> and \<open>older\<close> between \<open>g_oldest\<close> and \<open>g_newest\<close>. The list a state
  represents is given by following the links both ways, and the locale
  \<open>age_ordered_list\<close> is what the two users rely on.
\<close>

record dll =
  newer :: "addr \<Rightarrow> addr"
  older :: "addr \<Rightarrow> addr"
  newest :: addr
  oldest :: addr

definition dll_empty :: dll where
  "dll_empty = \<lparr>newer = (\<lambda>_. 0), older = (\<lambda>_. 0), newest = 0, oldest = 0\<rparr>"

definition dll_add :: "addr \<Rightarrow> dll \<Rightarrow> dll" where
  "dll_add t d =
    (let d1 = d\<lparr>newer := (newer d)(t := 0), older := (older d)(t := newest d)\<rparr>;
         d2 = (if newest d \<noteq> 0
               then d1\<lparr>newer := (newer d1)(newest d := t)\<rparr>
               else d1\<lparr>oldest := t\<rparr>)
     in d2\<lparr>newest := t\<rparr>)"

definition dll_remove :: "addr \<Rightarrow> dll \<Rightarrow> dll" where
  "dll_remove t d =
    (let d1 = (if newer d t \<noteq> 0
               then d\<lparr>older := (older d)(newer d t := older d t)\<rparr>
               else d\<lparr>newest := older d t\<rparr>)
     in if older d1 t \<noteq> 0
        then d1\<lparr>newer := (newer d1)(older d1 t := newer d1 t)\<rparr>
        else d1\<lparr>oldest := newer d1 t\<rparr>)"

text \<open>Following one link field from \<open>p\<close> visits \<open>xs\<close> and stops at \<open>q\<close>.\<close>

fun seg :: "(addr \<Rightarrow> addr) \<Rightarrow> addr \<Rightarrow> addr list \<Rightarrow> addr \<Rightarrow> bool" where
  "seg f p [] q = (p = q)"
| "seg f p (x # xs) q = (p = x \<and> x \<noteq> 0 \<and> seg f (f x) xs q)"

definition dll_repr :: "dll \<Rightarrow> addr list \<Rightarrow> bool" where
  "dll_repr d xs \<longleftrightarrow>
     seg (newer d) (oldest d) xs 0 \<and> seg (older d) (newest d) (rev xs) 0 \<and> distinct xs"

lemma seg_append [simp]:
  "seg f p (xs @ ys) q = (\<exists>r. seg f p xs r \<and> seg f r ys q)"
  by (induction xs arbitrary: p) auto

lemma seg_upd [simp]: "a \<notin> set xs \<Longrightarrow> seg (f(a := b)) p xs q = seg f p xs q"
  by (induction xs arbitrary: p) auto

lemma seg_nonnull: "seg f p xs q \<Longrightarrow> 0 \<notin> set xs"
  by (induction xs arbitrary: p) auto

lemma seg_end_unique: "seg f p xs q \<Longrightarrow> seg f p xs r \<Longrightarrow> q = r"
  by (induction xs arbitrary: p) auto

lemma seg_unique: "seg f p xs 0 \<Longrightarrow> seg f p ys 0 \<Longrightarrow> xs = ys"
proof (induction xs arbitrary: p ys)
  case Nil
  then show ?case by (cases ys) auto
next
  case (Cons x xs)
  then show ?case by (cases ys) auto
qed

lemma seg_retarget:
  "seg f p (xs @ [a]) q \<Longrightarrow> a \<notin> set xs \<Longrightarrow> seg (f(a := r)) p (xs @ [a]) r"
  by auto

lemma dll_repr_unique: "dll_repr d xs \<Longrightarrow> dll_repr d ys \<Longrightarrow> xs = ys"
  by (auto simp: dll_repr_def intro: seg_unique)

lemma dll_repr_nonnull: "dll_repr d xs \<Longrightarrow> 0 \<notin> set xs"
  by (auto simp: dll_repr_def dest: seg_nonnull)

lemma dll_repr_empty: "dll_repr dll_empty []"
  by (simp add: dll_repr_def dll_empty_def)

lemma dll_repr_newest_Nil: "dll_repr d [] \<Longrightarrow> newest d = 0 \<and> oldest d = 0"
  by (simp add: dll_repr_def)

lemma dll_repr_snoc:
  "dll_repr d (xs @ [x]) \<Longrightarrow> newest d = x \<and> newer d x = 0 \<and> x \<noteq> 0"
  by (auto simp: dll_repr_def)

lemma dll_repr_add:
  assumes repr: "dll_repr d xs" and t: "t \<noteq> 0" "t \<notin> set xs"
  shows "dll_repr (dll_add t d) (xs @ [t])"
proof (cases xs rule: rev_cases)
  case Nil
  with repr t show ?thesis
    by (simp add: dll_repr_def dll_add_def Let_def)
next
  case (snoc ys y)
  with repr t show ?thesis
    by (auto simp: dll_repr_def dll_add_def Let_def fun_upd_twist)
qed

lemma dll_repr_remove_split:
  assumes repr: "dll_repr d (xs @ t # ys)"
  shows "dll_repr (dll_remove t d) (xs @ ys)"
proof -
  have t: "t \<noteq> 0" "t \<notin> set xs" "t \<notin> set ys"
    using repr dll_repr_nonnull [OF repr] by (auto simp: dll_repr_def)
  show ?thesis
  proof (cases xs rule: rev_cases)
    case Nil
    with repr t show ?thesis
      by (cases ys) (auto simp: dll_repr_def dll_remove_def Let_def)
  next
    case (snoc as a)
    with repr t show ?thesis
      by (cases ys) (auto simp: dll_repr_def dll_remove_def Let_def)
  qed
qed

lemma dll_repr_remove:
  assumes "dll_repr d xs" and "t \<in> set xs"
  shows "dll_repr (dll_remove t d) (remove1 t xs)"
proof -
  obtain as bs where xs: "xs = as @ t # bs" and "t \<notin> set as"
    using split_list_first [OF assms(2)] by blast
  then have "remove1 t xs = as @ bs" by (simp add: remove1_append)
  with dll_repr_remove_split assms(1) xs show ?thesis by metis
qed

text \<open>
  A removed node keeps its own links, so a walk that stands on it still reaches the
  nodes after it.
\<close>

lemma dll_remove_walk:
  assumes repr: "dll_repr d (xs @ t # ys)"
  shows "seg (newer (dll_remove t d)) (newer (dll_remove t d) t) ys 0"
proof -
  have t: "t \<noteq> 0" "t \<notin> set xs" "t \<notin> set ys"
    using repr dll_repr_nonnull [OF repr] by (auto simp: dll_repr_def)
  show ?thesis
  proof (cases xs rule: rev_cases)
    case Nil
    with repr t show ?thesis
      by (cases ys) (auto simp: dll_repr_def dll_remove_def Let_def)
  next
    case (snoc as a)
    with repr t show ?thesis
      by (cases ys) (auto simp: dll_repr_def dll_remove_def Let_def)
  qed
qed

section \<open>What the users of the list rely on\<close>

locale age_ordered_list =
  fixes add :: "addr \<Rightarrow> 's \<Rightarrow> 's"
    and remove :: "addr \<Rightarrow> 's \<Rightarrow> 's"
    and repr :: "'s \<Rightarrow> addr list \<Rightarrow> bool"
  assumes repr_add: "repr s xs \<Longrightarrow> t \<noteq> 0 \<Longrightarrow> t \<notin> set xs \<Longrightarrow> repr (add t s) (xs @ [t])"
    and repr_remove: "repr s xs \<Longrightarrow> t \<in> set xs \<Longrightarrow> repr (remove t s) (remove1 t xs)"
    and repr_distinct: "repr s xs \<Longrightarrow> distinct xs"
begin

lemma remove_filter:
  "repr s xs \<Longrightarrow> t \<in> set xs \<Longrightarrow> repr (remove t s) (filter (\<lambda>x. x \<noteq> t) xs)"
  using repr_remove [of s xs t] repr_distinct [of s xs]
  by (simp add: distinct_remove1_removeAll removeAll_filter_not_eq eq_commute)

lemma add_then_remove:
  assumes "repr s xs" and "t \<noteq> 0" and "t \<notin> set xs"
  shows "repr (remove t (add t s)) xs"
proof -
  have "repr (remove t (add t s)) (remove1 t (xs @ [t]))"
    using assms by (intro repr_remove repr_add) auto
  with assms(3) show ?thesis by (simp add: remove1_append)
qed

lemma add_all:
  "repr s xs \<Longrightarrow> distinct (xs @ ts) \<Longrightarrow> 0 \<notin> set ts \<Longrightarrow> repr (fold add ts s) (xs @ ts)"
proof (induction ts arbitrary: s xs)
  case (Cons t ts)
  then have "repr (add t s) (xs @ [t])" by (intro repr_add) auto
  with Cons.IH [of "add t s" "xs @ [t]"] Cons.prems show ?case by auto
qed simp

end

interpretation link_list: age_ordered_list dll_add dll_remove dll_repr
proof
  show "\<And>s xs t. dll_repr s xs \<Longrightarrow> t \<noteq> 0 \<Longrightarrow> t \<notin> set xs \<Longrightarrow> dll_repr (dll_add t s) (xs @ [t])"
    by (rule dll_repr_add)
  show "\<And>s xs t. dll_repr s xs \<Longrightarrow> t \<in> set xs \<Longrightarrow> dll_repr (dll_remove t s) (remove1 t xs)"
    by (rule dll_repr_remove)
  show "\<And>s xs. dll_repr s xs \<Longrightarrow> distinct xs"
    by (simp add: dll_repr_def)
qed

end
