(* ===== verification/Tasks.thy ===== *)
theory Tasks
  imports Hashing Dll
begin

text \<open>
  Tasks (\<open>struct filc_async_task\<close>), the list of running tasks and the table of handles
  whose completion has not been delivered (\<open>filc_async.c\<close>, \<open>handles_grow\<close> to
  \<open>running_remove\<close>, \<open>task_start\<close>, and what \<open>filc_async_complete\<close> does to the task
  itself). The link fields \<open>newer\<close> and \<open>older\<close> are those of \<open>Dll\<close>, the chains of a
  task's marks and holds are in \<open>Marks\<close> and \<open>Locks\<close>.
\<close>

record dep_arg =
  a_kind :: u32
  a_dependency :: u32

text \<open>A runtime descriptor, by identity: none (\<open>NULL\<close>), the framework's own \<open>g_join_runtime\<close>,
  or a \<open>filc_async_runtime_<name>\<close> the program links, at its address.\<close>

datatype runtime_ref = No_Runtime | Join_Runtime | Linked addr

record filc_async_meta =
  m_name :: string
  m_nargs :: u32
  m_noped_args :: u32
  m_flags :: u32
  m_result :: u32
  m_opts :: "string list"
  m_runtime :: runtime_ref
  m_args :: "dep_arg list"

record filc_async_task =
  t_meta :: "filc_async_meta option"
  t_runtime :: runtime_ref
  t_staged_args :: addr
  t_runtime_data :: addr
  t_state :: "8 word"
  t_handled :: bool
  t_result :: u64

text \<open>\<open>staged\<close> is the memory of the staged argument cells, by the address of the array.\<close>

record task_table =
  tasks :: "addr \<Rightarrow> filc_async_task"
  running :: dll
  g_handles :: "(nat \<Rightarrow> addr list) option"
  g_handle_bits :: nat
  g_nhandles :: u64
  g_submitted :: u64
  g_completed :: u64
  g_failed :: u64
  staged :: "addr \<Rightarrow> zptr list"
  task_answers :: "addr list"
  table_answers :: "addr list"

definition upd_task :: "addr \<Rightarrow> (filc_async_task \<Rightarrow> filc_async_task) \<Rightarrow> task_table \<Rightarrow> task_table" where
  "upd_task t f T = T\<lparr>tasks := (tasks T)(t := f (tasks T t))\<rparr>"

section \<open>Handles not yet delivered\<close>

definition chain_push :: "nat \<Rightarrow> addr \<Rightarrow> (nat \<Rightarrow> addr list) \<Rightarrow> nat \<Rightarrow> addr list" where
  "chain_push bits t table =
     (let b = hash_bits t bits in table(b := t # table b))"

definition rehash :: "nat \<Rightarrow> nat \<Rightarrow> (nat \<Rightarrow> addr list) \<Rightarrow> nat \<Rightarrow> addr list" where
  "rehash bits old_bits old =
     fold (\<lambda>i. fold (chain_push bits) (old i)) [0..<2 ^ old_bits] (\<lambda>_. [])"

definition handles_grow :: "task_table \<Rightarrow> task_table outcome" where
  "handles_grow T =
    (let bits = (if g_handles T \<noteq> None then g_handle_bits T + 1 else 10) in
     res_bind (alloc_or_die (table_answers T))
       (\<lambda>(_, rest).
          Inr (T\<lparr>table_answers := rest,
                 g_handles := Some (case g_handles T of
                                      None \<Rightarrow> (\<lambda>_. [])
                                    | Some old \<Rightarrow> rehash bits (g_handle_bits T) old),
                 g_handle_bits := bits\<rparr>)))"

definition handle_add :: "addr \<Rightarrow> task_table \<Rightarrow> task_table outcome" where
  "handle_add t T =
     res_bind (if g_handles T = None \<or> 2 ^ g_handle_bits T \<le> unat (g_nhandles T)
               then handles_grow T else Inr T)
       (\<lambda>T1. Inr (upd_task t (\<lambda>k. k\<lparr>t_handled := True\<rparr>)
                   (T1\<lparr>g_handles := map_option (chain_push (g_handle_bits T1) t) (g_handles T1),
                       g_nhandles := g_nhandles T1 + 1\<rparr>)))"

definition find_task :: "task_table \<Rightarrow> addr \<Rightarrow> addr option" where
  "find_task T pending =
    (case g_handles T of
       None \<Rightarrow> None
     | Some table \<Rightarrow>
         List.find (\<lambda>t. t = pending) (table (hash_bits pending (g_handle_bits T))))"

definition retire_task :: "addr \<Rightarrow> task_table \<Rightarrow> task_table" where
  "retire_task t T =
    (if t_state (tasks T t) = 1 \<or> \<not> t_handled (tasks T t) then T
     else let b = hash_bits t (g_handle_bits T) in
       upd_task t (\<lambda>k. k\<lparr>t_handled := False\<rparr>)
         (T\<lparr>g_handles := map_option (\<lambda>table. table(b := remove1 t (table b))) (g_handles T),
            g_nhandles := g_nhandles T - 1\<rparr>))"

section \<open>Running tasks\<close>

definition running_add :: "addr \<Rightarrow> task_table \<Rightarrow> task_table" where
  "running_add t T = T\<lparr>running := dll_add t (running T)\<rparr>"

definition running_remove :: "addr \<Rightarrow> task_table \<Rightarrow> task_table" where
  "running_remove t T = T\<lparr>running := dll_remove t (running T)\<rparr>"

definition task_zero :: filc_async_task where
  "task_zero = \<lparr>t_meta = None, t_runtime = No_Runtime, t_staged_args = 0, t_runtime_data = 0,
                t_state = 0, t_handled = False, t_result = 0\<rparr>"

definition task_start ::
  "runtime_ref \<Rightarrow> filc_async_meta option \<Rightarrow> addr \<Rightarrow> task_table \<Rightarrow> (addr \<times> task_table) outcome" where
  "task_start rt meta staged_args T =
    (if rt = No_Runtime then Inl (Fatal ''a task has no runtime'')
     else res_bind (alloc_or_die (task_answers T))
       (\<lambda>(t, rest).
          let T1 = upd_task t (\<lambda>_. task_zero\<lparr>t_meta := meta, t_runtime := rt,
                       t_staged_args := staged_args, t_state := 1\<rparr>)
                     (T\<lparr>task_answers := rest\<rparr>)
          in res_bind (handle_add t (running_add t T1))
               (\<lambda>T2. Inr (t, if meta \<noteq> None then T2\<lparr>g_submitted := g_submitted T2 + 1\<rparr> else T2))))"

text \<open>The task's own part of \<open>filc_async_complete\<close>: result, state and counters, then, after
  its marks and locks are released, the running list and the staged cells.\<close>

definition task_finish :: "addr \<Rightarrow> u64 \<Rightarrow> task_table \<Rightarrow> task_table" where
  "task_finish t result T =
    (let T1 = upd_task t (\<lambda>k. k\<lparr>t_result := result,
                t_state := (if sint result < 0 then 2 else 0)\<rparr>) T
     in if t_meta (tasks T t) = None then T1
        else T1\<lparr>g_completed := g_completed T1 + 1,
                g_failed := (if sint result < 0 then g_failed T1 + 1 else g_failed T1)\<rparr>)"

definition staged_clear :: "filc_async_meta \<Rightarrow> zptr list \<Rightarrow> zptr list" where
  "staged_clear meta cells =
    (let n = unat (m_nargs meta * 16) div 16
     in replicate (min n (length cells)) null_ptr @ drop n cells)"

definition task_drop_args :: "addr \<Rightarrow> task_table \<Rightarrow> task_table" where
  "task_drop_args t T =
    (case t_meta (tasks T t) of
       None \<Rightarrow> T
     | Some meta \<Rightarrow>
         let a = t_staged_args (tasks T t) in
         if a = 0 then T
         else upd_task t (\<lambda>k. k\<lparr>t_staged_args := 0\<rparr>)
                (T\<lparr>staged := (staged T)(a := staged_clear meta (staged T a))\<rparr>))"

section \<open>The invariant\<close>

definition is_running :: "task_table \<Rightarrow> addr \<Rightarrow> bool" where
  "is_running T t \<longleftrightarrow> t_state (tasks T t) = 1"

definition handled :: "task_table \<Rightarrow> addr set" where
  "handled T = {t. t_handled (tasks T t)}"

definition table_ok :: "nat \<Rightarrow> (nat \<Rightarrow> addr list) \<Rightarrow> addr set \<Rightarrow> bool" where
  "table_ok bits table A \<longleftrightarrow>
     (\<forall>b. distinct (table b) \<and> (\<forall>t\<in>set (table b). hash_bits t bits = b)) \<and>
     A = {t. t \<in> set (table (hash_bits t bits))}"

definition handles_ok :: "task_table \<Rightarrow> bool" where
  "handles_ok T \<longleftrightarrow>
     0 \<notin> handled T \<and> g_nhandles T = of_nat (card (handled T)) \<and>
     (case g_handles T of
        None \<Rightarrow> handled T = {}
      | Some table \<Rightarrow> g_handle_bits T \<le> 64 \<and> table_ok (g_handle_bits T) table (handled T) \<and>
                      card (handled T) \<le> 2 ^ g_handle_bits T)"

definition running_ok :: "task_table \<Rightarrow> bool" where
  "running_ok T \<longleftrightarrow> (\<exists>ts. dll_repr (running T) ts \<and> set ts = {t. is_running T t})"

definition answers_ok :: "task_table \<Rightarrow> bool" where
  "answers_ok T \<longleftrightarrow> distinct (task_answers T) \<and>
     (\<forall>t\<in>set (task_answers T). \<not> is_running T t \<and> \<not> t_handled (tasks T t) \<and>
        t_runtime (tasks T t) = No_Runtime)"

text \<open>The counters, which wrap like the \<open>unsigned long\<close> they are: an annotated call that was
  submitted is completed or still running.\<close>

definition unfinished :: "task_table \<Rightarrow> addr set" where
  "unfinished T = {t. is_running T t \<and> t_meta (tasks T t) \<noteq> None}"

definition counts_ok :: "task_table \<Rightarrow> bool" where
  "counts_ok T \<longleftrightarrow> g_submitted T = g_completed T + of_nat (card (unfinished T))"

definition task_inv :: "task_table \<Rightarrow> bool" where
  "task_inv T \<longleftrightarrow> handles_ok T \<and> running_ok T \<and> answers_ok T \<and> counts_ok T"

section \<open>The table of handles\<close>

lemma upd_task_simps [simp]:
  "tasks (upd_task t f T) = (tasks T)(t := f (tasks T t))"
  "running (upd_task t f T) = running T" "g_handles (upd_task t f T) = g_handles T"
  "g_handle_bits (upd_task t f T) = g_handle_bits T" "g_nhandles (upd_task t f T) = g_nhandles T"
  "g_submitted (upd_task t f T) = g_submitted T" "g_completed (upd_task t f T) = g_completed T"
  "g_failed (upd_task t f T) = g_failed T" "staged (upd_task t f T) = staged T"
  "task_answers (upd_task t f T) = task_answers T" "table_answers (upd_task t f T) = table_answers T"
  by (simp_all add: upd_task_def)

lemma table_ok_empty: "table_ok bits (\<lambda>_. []) {}"
  by (simp add: table_ok_def)

lemma table_ok_push:
  "table_ok bits table A \<Longrightarrow> t \<notin> A \<Longrightarrow> table_ok bits (chain_push bits t table) (insert t A)"
  unfolding table_ok_def chain_push_def Let_def by (auto split: if_splits)

lemma table_ok_remove:
  "table_ok bits table A \<Longrightarrow>
   table_ok bits (table(hash_bits t bits := remove1 t (table (hash_bits t bits)))) (A - {t})"
  unfolding table_ok_def by auto

lemma table_ok_fold:
  "table_ok bits table A \<Longrightarrow> distinct ts \<Longrightarrow> set ts \<inter> A = {} \<Longrightarrow>
   table_ok bits (fold (chain_push bits) ts table) (A \<union> set ts)"
proof (induction ts arbitrary: table A)
  case (Cons t ts)
  have "table_ok bits (fold (chain_push bits) ts (chain_push bits t table)) (insert t A \<union> set ts)"
    using Cons.prems by (intro Cons.IH table_ok_push) auto
  then show ?case by simp
qed simp

lemma rehash_ok:
  assumes old: "table_ok obits old A" and obits: "obits \<le> 64"
  shows "table_ok bits (rehash bits obits old) A"
proof -
  let ?step = "\<lambda>i. fold (chain_push bits) (old i)"
  have part: "table_ok bits (fold ?step [0..<n] (\<lambda>_. [])) {t \<in> A. hash_bits t obits < n}" for n
  proof (induction n)
    case 0
    then show ?case by (simp add: table_ok_empty)
  next
    case (Suc n)
    have row: "distinct (old n)" "set (old n) = {t \<in> A. hash_bits t obits = n}"
      using old by (auto simp: table_ok_def)
    have "{t \<in> A. hash_bits t obits < n} \<union> set (old n) = {t \<in> A. hash_bits t obits < Suc n}"
      unfolding row(2) by auto
    moreover have "table_ok bits (?step n (fold ?step [0..<n] (\<lambda>_. [])))
        ({t \<in> A. hash_bits t obits < n} \<union> set (old n))"
      using Suc row by (intro table_ok_fold) auto
    ultimately show ?case by simp
  qed
  have "{t \<in> A. hash_bits t obits < 2 ^ obits} = A" using obits by auto
  with part [of "2 ^ obits"] show ?thesis by (simp add: rehash_def)
qed

lemma card_words: "card (UNIV :: addr set) = 2 ^ 64"
  by (simp add: card_word)

lemma card_not_all:
  fixes A :: "addr set"
  assumes "0 \<notin> A"
  shows "card A < 2 ^ 64"
proof -
  have "card A < card (UNIV :: addr set)"
    using assms by (intro psubset_card_mono) auto
  then show ?thesis unfolding card_words .
qed

lemma nhandles_card:
  assumes "handles_ok T"
  shows "unat (g_nhandles T) = card (handled T)"
  using assms card_not_all [of "handled T"]
  by (simp add: handles_ok_def unat_of_nat take_bit_nat_eq_self)

lemma find_task_eq:
  assumes "handles_ok T"
  shows "find_task T p = (if t_handled (tasks T p) then Some p else None)"
proof (cases "g_handles T")
  case None
  then show ?thesis using assms by (auto simp: handles_ok_def find_task_def handled_def)
next
  case (Some table)
  then have "p \<in> handled T \<longleftrightarrow> p \<in> set (table (hash_bits p (g_handle_bits T)))"
    using assms by (simp add: handles_ok_def table_ok_def)
  then have "t_handled (tasks T p) = (p \<in> set (table (hash_bits p (g_handle_bits T))))"
    by (simp add: handled_def)
  moreover have "List.find (\<lambda>t. t = p) xs = (if p \<in> set xs then Some p else None)" for xs
    by (induction xs) auto
  ultimately show ?thesis using Some by (simp add: find_task_def)
qed

lemma handles_grow_spec:
  assumes ok: "handles_ok T" and grow: "handles_grow T = Inr T'"
    and full: "g_handles T = None \<or> 2 ^ g_handle_bits T \<le> card (handled T)"
  shows "\<exists>p table rest. T' = T\<lparr>table_answers := rest, g_handles := Some table,
           g_handle_bits := g_handle_bits T'\<rparr> \<and> table_answers T = p # rest \<and>
           g_handle_bits T' \<le> 64 \<and> table_ok (g_handle_bits T') table (handled T) \<and>
           card (handled T) < 2 ^ g_handle_bits T'"
proof (cases "g_handles T")
  case None
  with ok have "handled T = {}" by (simp add: handles_ok_def)
  moreover from None grow obtain p rest where "table_answers T = p # rest"
      "T' = T\<lparr>table_answers := rest, g_handles := Some (\<lambda>_. []), g_handle_bits := 10\<rparr>"
    by (auto simp: handles_grow_def Let_def)
  ultimately show ?thesis
    by (intro exI [of _ p] exI [of _ "\<lambda>_. []"] exI [of _ rest]) (simp add: table_ok_empty)
next
  case (Some old)
  then have old: "g_handle_bits T \<le> 64" "table_ok (g_handle_bits T) old (handled T)"
      "card (handled T) \<le> 2 ^ g_handle_bits T" and z: "0 \<notin> handled T"
    using ok by (simp_all add: handles_ok_def)
  have "(2::nat) ^ g_handle_bits T < 2 ^ 64"
    using full Some card_not_all [OF z] by simp
  then have "g_handle_bits T < 64" by (rule power_less_imp_less_exp [rotated]) simp
  moreover have "card (handled T) < 2 ^ (g_handle_bits T + 1)"
    using old(3) by (simp add: le_less_trans)
  ultimately show ?thesis
    using Some grow rehash_ok [OF old(2,1), of "g_handle_bits T + 1"]
    by (auto simp: handles_grow_def Let_def)
qed

lemma handle_add_spec:
  assumes ok: "handles_ok T" and new: "\<not> t_handled (tasks T t)" "t \<noteq> 0"
    and add: "handle_add t T = Inr T'"
  shows "handles_ok T'" and "handled T' = insert t (handled T)"
    and "tasks T' = (tasks T)(t := (tasks T t)\<lparr>t_handled := True\<rparr>)"
    and "running T' = running T" and "task_answers T' = task_answers T"
    and "g_submitted T' = g_submitted T" and "g_completed T' = g_completed T"
    and "g_failed T' = g_failed T" and "staged T' = staged T"
proof -
  let ?full = "g_handles T = None \<or> 2 ^ g_handle_bits T \<le> unat (g_nhandles T)"
  obtain T1 where T1: "(if ?full then handles_grow T else Inr T) = Inr T1"
    and T': "T' = upd_task t (\<lambda>k. k\<lparr>t_handled := True\<rparr>)
                   (T1\<lparr>g_handles := map_option (chain_push (g_handle_bits T1) t) (g_handles T1),
                       g_nhandles := g_nhandles T1 + 1\<rparr>)"
    using add unfolding handle_add_def by auto
  have mid: "\<exists>table rest. T1 = T\<lparr>table_answers := rest, g_handles := Some table,
           g_handle_bits := g_handle_bits T1\<rparr> \<and> g_handle_bits T1 \<le> 64 \<and>
           table_ok (g_handle_bits T1) table (handled T) \<and> card (handled T) < 2 ^ g_handle_bits T1"
  proof (cases ?full)
    case True
    with T1 handles_grow_spec [OF ok, of T1] nhandles_card [OF ok] show ?thesis by auto
  next
    case False
    then obtain table where "g_handles T = Some table" by auto
    with False T1 ok nhandles_card [OF ok] show ?thesis
      by (intro exI [of _ table] exI [of _ "table_answers T"]) (simp add: handles_ok_def)
  qed
  then obtain table rest where t1: "T1 = T\<lparr>table_answers := rest, g_handles := Some table,
           g_handle_bits := g_handle_bits T1\<rparr>" and b: "g_handle_bits T1 \<le> 64"
    "table_ok (g_handle_bits T1) table (handled T)" "card (handled T) < 2 ^ g_handle_bits T1"
    by blast
  show tasks': "tasks T' = (tasks T)(t := (tasks T t)\<lparr>t_handled := True\<rparr>)"
    and "running T' = running T" and "task_answers T' = task_answers T"
    and "g_submitted T' = g_submitted T" and "g_completed T' = g_completed T"
    and "g_failed T' = g_failed T" and "staged T' = staged T"
    unfolding T' by (subst t1, simp)+
  show h': "handled T' = insert t (handled T)"
    by (auto simp: handled_def tasks')
  have bits': "g_handle_bits T' = g_handle_bits T1" by (simp add: T')
  have tab': "g_handles T' = Some (chain_push (g_handle_bits T1) t table)"
    unfolding T' by simp (subst t1, simp)
  have n': "g_nhandles T' = g_nhandles T + 1" unfolding T' by simp (subst t1, simp)
  have t: "t \<notin> handled T" using new by (simp add: handled_def)
  have "card (insert t (handled T)) = Suc (card (handled T))" using t by simp
  moreover have "0 \<notin> handled T" "g_nhandles T = of_nat (card (handled T))"
    using ok by (simp_all add: handles_ok_def)
  ultimately show "handles_ok T'"
    using b new(2) table_ok_push [OF b(2) t] by (simp add: handles_ok_def h' bits' tab' n')
qed

lemma retire_task_spec:
  assumes ok: "handles_ok T"
  shows "handles_ok (retire_task t T)"
    and "handled (retire_task t T) = (if is_running T t then handled T else handled T - {t})"
    and "\<And>x. is_running (retire_task t T) x = is_running T x"
    and "\<And>x. tasks (retire_task t T) x = (tasks T x)\<lparr>t_handled := x \<in> handled (retire_task t T)\<rparr>"
    and "running (retire_task t T) = running T" and "task_answers (retire_task t T) = task_answers T"
    and "g_submitted (retire_task t T) = g_submitted T" and "g_completed (retire_task t T) = g_completed T"
    and "g_failed (retire_task t T) = g_failed T"
proof -
  let ?R = "retire_task t T"
  show h: "handled ?R = (if is_running T t then handled T else handled T - {t})"
    by (auto simp: retire_task_def handled_def Let_def is_running_def)
  show "\<And>x. is_running ?R x = is_running T x"
    by (simp add: is_running_def retire_task_def Let_def)
  show "\<And>x. tasks ?R x = (tasks T x)\<lparr>t_handled := x \<in> handled ?R\<rparr>"
    unfolding h by (auto simp: handled_def retire_task_def Let_def is_running_def)
  show "running ?R = running T" "task_answers ?R = task_answers T"
    "g_submitted ?R = g_submitted T" "g_completed ?R = g_completed T" "g_failed ?R = g_failed T"
    by (simp_all add: retire_task_def Let_def)
  show "handles_ok ?R"
  proof (cases "is_running T t \<or> \<not> t_handled (tasks T t)")
    case True
    then have "?R = T" by (auto simp: retire_task_def is_running_def)
    with ok show ?thesis by simp
  next
    case False
    then have t: "t \<in> handled T" "\<not> is_running T t" by (auto simp: handled_def)
    then obtain table where tab: "g_handles T = Some table"
      using ok by (cases "g_handles T") (auto simp: handles_ok_def)
    have pos: "0 < card (handled T)" using t by (auto simp: card_gt_0_iff)
    have card: "card (handled T - {t}) = card (handled T) - 1" using t by simp
    have ntab: "g_handles ?R = Some (table(hash_bits t (g_handle_bits T) :=
         remove1 t (table (hash_bits t (g_handle_bits T)))))" "g_handle_bits ?R = g_handle_bits T"
        "g_nhandles ?R = g_nhandles T - 1"
      using False tab by (simp_all add: retire_task_def Let_def is_running_def)
    have le: "card (handled T) \<le> n \<Longrightarrow> card (handled T) - Suc 0 \<le> n" for n by simp
    show ?thesis
      using ok tab t pos le table_ok_remove [of "g_handle_bits T" table "handled T" t]
      by (simp add: handles_ok_def ntab h card of_nat_pred_word)
  qed
qed

section \<open>Starting and finishing a task\<close>

lemma task_invD:
  assumes "task_inv T"
  shows "handles_ok T" and "running_ok T" and "answers_ok T" and "counts_ok T"
  using assms by (simp_all add: task_inv_def)

interpretation running_list: age_ordered_list running_add running_remove
  "\<lambda>T. dll_repr (running T)"
proof
  show "dll_repr (running T) xs \<Longrightarrow> t \<noteq> 0 \<Longrightarrow> t \<notin> set xs \<Longrightarrow>
      dll_repr (running (running_add t T)) (xs @ [t])" for T :: task_table and xs t
    by (simp add: running_add_def dll_repr_add)
  show "dll_repr (running T) xs \<Longrightarrow> t \<in> set xs \<Longrightarrow>
      dll_repr (running (running_remove t T)) (remove1 t xs)" for T :: task_table and xs t
    by (simp add: running_remove_def dll_repr_remove)
  show "dll_repr (running T) xs \<Longrightarrow> distinct xs" for T :: task_table and xs
    by (rule link_list.repr_distinct)
qed

lemma running_nonnull: "running_ok T \<Longrightarrow> is_running T t \<Longrightarrow> t \<noteq> 0"
  unfolding running_ok_def using dll_repr_nonnull by blast

lemma running_simps [simp]:
  "tasks (running_add t T) = tasks T" "g_handles (running_add t T) = g_handles T"
  "g_handle_bits (running_add t T) = g_handle_bits T" "g_nhandles (running_add t T) = g_nhandles T"
  "g_submitted (running_add t T) = g_submitted T" "g_completed (running_add t T) = g_completed T"
  "task_answers (running_add t T) = task_answers T" "staged (running_add t T) = staged T"
  "g_failed (running_add t T) = g_failed T"
  "tasks (running_remove t T) = tasks T" "g_handles (running_remove t T) = g_handles T"
  "g_handle_bits (running_remove t T) = g_handle_bits T"
  "g_nhandles (running_remove t T) = g_nhandles T"
  "g_submitted (running_remove t T) = g_submitted T"
  "g_completed (running_remove t T) = g_completed T"
  "task_answers (running_remove t T) = task_answers T" "staged (running_remove t T) = staged T"
  "g_failed (running_remove t T) = g_failed T"
  by (simp_all add: running_add_def running_remove_def)

lemma handles_ok_cong:
  assumes "g_handles T' = g_handles T" "g_handle_bits T' = g_handle_bits T"
    "g_nhandles T' = g_nhandles T" "\<And>x. t_handled (tasks T' x) = t_handled (tasks T x)"
  shows "handles_ok T' = handles_ok T"
proof -
  have "handled T' = handled T" using assms(4) by (simp add: handled_def)
  with assms(1-3) show ?thesis by (cases "g_handles T") (simp_all add: handles_ok_def)
qed

text \<open>Publishing a new task: its fields, then the running list.\<close>

lemma running_publish:
  assumes run: "running_ok T" and new: "\<not> is_running T t" "t \<noteq> 0"
    and T': "tasks T' = (tasks T)(t := k)" "t_state k = 1"
      "running T' = dll_add t (running T)"
  shows "running_ok T'" and "is_running T' x = (is_running T x \<or> x = t)"
proof -
  show r: "is_running T' x = (is_running T x \<or> x = t)" for x
    by (simp add: is_running_def T')
  obtain ts where ts: "dll_repr (running T) ts" "set ts = {t. is_running T t}"
    using run by (auto simp: running_ok_def)
  have "dll_repr (running T') (ts @ [t])"
    using ts new unfolding T' by (intro dll_repr_add) auto
  then show "running_ok T'"
    unfolding running_ok_def r using ts(2) by (intro exI [of _ "ts @ [t]"]) auto
qed

lemma unfinished_publish:
  assumes new: "\<not> is_running T t" and T': "tasks T' = (tasks T)(t := k)" "t_state k = 1"
  shows "unfinished T' = (if t_meta k = None then unfinished T else insert t (unfinished T))"
    and "t \<notin> unfinished T"
  using new by (auto simp: unfinished_def is_running_def T')

definition task_new :: "runtime_ref \<Rightarrow> filc_async_meta option \<Rightarrow> addr \<Rightarrow> filc_async_task" where
  "task_new rt meta args =
     task_zero\<lparr>t_meta := meta, t_runtime := rt, t_staged_args := args, t_state := 1, t_handled := True\<rparr>"

lemma task_start_spec:
  assumes inv: "task_inv T" and start: "task_start rt meta args T = Inr (t, T')"
  shows "task_inv T'" and "task_answers T = t # task_answers T'" and "t \<noteq> 0" and "rt \<noteq> No_Runtime"
    and "tasks T' = (tasks T)(t := task_new rt meta args)"
    and "\<And>x. is_running T' x = (is_running T x \<or> x = t)" and "\<not> is_running T t"
    and "handled T' = insert t (handled T)" and "t \<notin> handled T" and "staged T' = staged T"
    and "g_completed T' = g_completed T" and "g_failed T' = g_failed T"
proof -
  note i = task_invD [OF inv]
  define T1 where "T1 = upd_task t (\<lambda>_. task_zero\<lparr>t_meta := meta, t_runtime := rt,
                       t_staged_args := args, t_state := 1\<rparr>)
                     (T\<lparr>task_answers := tl (task_answers T)\<rparr>)"
  obtain T2 where rt: "rt \<noteq> No_Runtime" and ans: "task_answers T = t # tl (task_answers T)" and t0: "t \<noteq> 0"
    and add: "handle_add t (running_add t T1) = Inr T2"
    and T': "T' = (if meta \<noteq> None then T2\<lparr>g_submitted := g_submitted T2 + 1\<rparr> else T2)"
    using start by (auto simp: task_start_def T1_def Let_def split: if_splits)
  show "t \<noteq> 0" "rt \<noteq> No_Runtime" by fact+
  have "t \<in> set (task_answers T)" by (subst ans) simp
  then have new: "\<not> is_running T t" "\<not> t_handled (tasks T t)" using i(3) by (auto simp: answers_ok_def)
  show "\<not> is_running T t" "t \<notin> handled T" using new by (auto simp: handled_def)
  have ok1: "handles_ok (running_add t T1)"
    using i(1) handles_ok_cong [of "running_add t T1" T] new
    by (simp add: T1_def task_zero_def)
  have f1: "\<not> t_handled (tasks (running_add t T1) t)" by (simp add: T1_def task_zero_def)
  note h = handle_add_spec [OF ok1 f1 t0 add]
  show tasks': "tasks T' = (tasks T)(t := task_new rt meta args)"
    using h(3) by (simp add: T' T1_def task_new_def task_zero_def)
  show "staged T' = staged T" "g_completed T' = g_completed T" "g_failed T' = g_failed T"
    using h by (simp_all add: T' T1_def)
  show "handled T' = insert t (handled T)"
    by (auto simp: handled_def tasks' task_new_def)
  show ans': "task_answers T = t # task_answers T'" using h(5) ans by (simp add: T' T1_def)
  have st: "t_state (task_new rt meta args) = 1" "t_meta (task_new rt meta args) = meta"
    by (simp_all add: task_new_def task_zero_def)
  have run': "running T' = dll_add t (running T)"
    using h(4) by (simp add: T' T1_def running_add_def)
  note r = running_publish [OF i(2) new(1) t0 tasks' st(1) run']
  show "is_running T' x = (is_running T x \<or> x = t)" for x by (rule r(2))
  have "handles_ok T'" using h(1) handles_ok_cong [of T' T2] by (simp add: T')
  moreover have "answers_ok T'"
    using i(3) ans' by (auto simp: answers_ok_def r(2) tasks')
  moreover have "counts_ok T'"
    using i(4) unfinished_publish [OF new(1) tasks' st(1)] h(6,7)
    by (auto simp: counts_ok_def st(2)) (auto simp: T' T1_def)
  ultimately show "task_inv T'" using r(1) by (simp add: task_inv_def)
qed

text \<open>The three task parts of \<open>filc_async_complete\<close> together.\<close>

definition task_done :: "addr \<Rightarrow> u64 \<Rightarrow> task_table \<Rightarrow> task_table" where
  "task_done t result T = task_drop_args t (running_remove t (task_finish t result T))"

lemma task_done_spec:
  assumes inv: "task_inv T" and run: "is_running T t"
  shows "task_inv (task_done t result T)"
    and "\<And>x. is_running (task_done t result T) x = (is_running T x \<and> x \<noteq> t)"
    and "\<And>x. x \<noteq> t \<Longrightarrow> tasks (task_done t result T) x = tasks T x"
    and "t_result (tasks (task_done t result T) t) = result"
    and "t_state (tasks (task_done t result T) t) = (if sint result < 0 then 2 else 0)"
    and "handled (task_done t result T) = handled T"
    and "task_answers (task_done t result T) = task_answers T"
    and "\<And>x. t_runtime (tasks (task_done t result T) x) = t_runtime (tasks T x)"
    and "t_runtime_data (tasks (task_done t result T) t) = t_runtime_data (tasks T t)"
proof -
  note i = task_invD [OF inv]
  let ?R = "task_done t result T"
  note defs = task_done_def task_drop_args_def task_finish_def Let_def
  show tasks': "\<And>x. x \<noteq> t \<Longrightarrow> tasks ?R x = tasks T x"
    by (simp add: defs split: option.splits)
  show "t_result (tasks ?R t) = result"
    and st: "t_state (tasks ?R t) = (if sint result < 0 then 2 else 0)"
    and "\<And>x. t_runtime (tasks ?R x) = t_runtime (tasks T x)"
    and "t_runtime_data (tasks ?R t) = t_runtime_data (tasks T t)"
    and ans: "task_answers ?R = task_answers T"
    by (simp_all add: defs split: option.splits)
  have hd: "t_handled (tasks ?R x) = t_handled (tasks T x)"
    and rt: "t_runtime (tasks ?R x) = t_runtime (tasks T x)"
    and mt: "t_meta (tasks ?R x) = t_meta (tasks T x)" for x
    by (simp_all add: defs split: option.splits)
  then show "handled ?R = handled T" by (simp add: handled_def)
  show run': "is_running ?R x = (is_running T x \<and> x \<noteq> t)" for x
    using tasks' [of x] st by (cases "x = t") (simp_all add: is_running_def)
  have "handles_ok ?R"
    using i(1) handles_ok_cong [of ?R T] hd by (simp add: defs split: option.splits)
  moreover have "running_ok ?R"
  proof -
    obtain ts where ts: "dll_repr (running T) ts" "set ts = {t. is_running T t}"
      using i(2) by (auto simp: running_ok_def)
    have "running ?R = dll_remove t (running T)"
      by (simp add: defs running_remove_def split: option.splits)
    moreover have "dll_repr (dll_remove t (running T)) (filter (\<lambda>x. x \<noteq> t) ts)"
      using ts run by (intro link_list.remove_filter) auto
    ultimately show ?thesis
      unfolding running_ok_def run' using ts(2) by (intro exI [of _ "filter (\<lambda>x. x \<noteq> t) ts"]) auto
  qed
  moreover have "answers_ok ?R"
    using i(3) by (simp add: answers_ok_def run' hd rt ans)
  moreover have "counts_ok ?R"
  proof -
    have un: "unfinished ?R = unfinished T - {t}" by (auto simp: unfinished_def run' mt)
    have sub: "g_submitted ?R = g_submitted T"
      and com: "g_completed ?R = (if t \<in> unfinished T then g_completed T + 1 else g_completed T)"
      using run by (simp_all add: defs unfinished_def split: option.splits)
    show ?thesis
    proof (cases "t \<in> unfinished T")
      case True
      then have "0 < card (unfinished T)" by (auto simp: card_gt_0_iff)
      with True i(4) show ?thesis
        by (simp add: counts_ok_def un sub com of_nat_pred_word)
    next
      case False
      with i(4) show ?thesis by (simp add: counts_ok_def un sub com)
    qed
  qed
  ultimately show "task_inv ?R" by (simp add: task_inv_def)
qed

lemma task_done_args:
  assumes "t_meta (tasks T t) = Some meta"
  shows "t_staged_args (tasks (task_done t result T) t) = 0"
    and "t_staged_args (tasks T t) \<noteq> 0 \<Longrightarrow>
      staged (task_done t result T) (t_staged_args (tasks T t)) =
      staged_clear meta (staged T (t_staged_args (tasks T t)))"
  using assms by (simp_all add: task_done_def task_drop_args_def task_finish_def Let_def)

lemma retire_task_inv:
  assumes inv: "task_inv T"
  shows "task_inv (retire_task t T)"
proof -
  note i = task_invD [OF inv] and r = retire_task_spec [OF task_invD(1) [OF inv], of t]
  have h: "t_handled (tasks (retire_task t T) x) \<Longrightarrow> t_handled (tasks T x)" for x
    using r(2) by (auto simp: handled_def split: if_splits)
  have "unfinished (retire_task t T) = unfinished T"
    by (simp add: unfinished_def r(3)) (simp add: r(4))
  then have "counts_ok (retire_task t T)" using i(4) r(7,8) by (simp add: counts_ok_def)
  moreover have "running_ok (retire_task t T)"
    using i(2) by (simp add: running_ok_def r(3,5))
  moreover have "answers_ok (retire_task t T)"
    using i(3) h by (auto simp: answers_ok_def r(3,6)) (simp add: r(4))
  ultimately show ?thesis using r(1) by (simp add: task_inv_def)
qed

end
