(* ===== verification/Locks.thy ===== *)
theory Locks
  imports Hashing
begin

text \<open>
  Dependency locks (\<open>filc_async.c\<close>, from \<open>struct filc_async_lock\<close> to
  \<open>locks_release\<close>). The table holds the lock and hold structs by address, the hash
  chains of the locks in use, the free list, and each task's chain of holds.
  \<open>lock_take\<close> runs under \<open>g_lock\<close> in two atomic parts with waits between them: it
  queues its request (\<open>lock_enqueue\<close>), waits while \<open>lock_blocked\<close>, and then becomes a
  holder (\<open>lock_grant\<close>). The loop itself, which polls the holder, is in \<open>Framework\<close>.
\<close>

definition FILC_ASYNC_DEP_READ :: u32 where "FILC_ASYNC_DEP_READ = 1"
definition FILC_ASYNC_DEP_WRITE :: u32 where "FILC_ASYNC_DEP_WRITE = 2"
definition FILC_ASYNC_DEP_POINTER :: u32 where "FILC_ASYNC_DEP_POINTER = 4"

record filc_async_lock =
  lk_value :: u64
  lk_space :: u32
  lk_holders :: "addr list"
  lk_waiters :: "addr list"
  lk_nholders :: u32
  lk_nwriters :: u32

record filc_async_hold =
  hd_task :: addr
  hd_lock :: addr
  hd_write :: bool

record lock_table =
  locks :: "addr \<Rightarrow> filc_async_lock"
  holds :: "addr \<Rightarrow> filc_async_hold"
  g_lock_buckets :: "nat \<Rightarrow> addr list"
  g_free_locks :: "addr list"
  task_holds :: "addr \<Rightarrow> addr list"
  lock_answers :: "addr list"
  hold_answers :: "addr list"

definition LOCK_BUCKET_BITS :: nat where "LOCK_BUCKET_BITS = 10"

definition lock_bucket :: "u64 \<Rightarrow> u32 \<Rightarrow> nat" where
  "lock_bucket value space = hash_bits (value XOR ucast space) LOCK_BUCKET_BITS"

definition upd_lock :: "addr \<Rightarrow> (filc_async_lock \<Rightarrow> filc_async_lock) \<Rightarrow> lock_table \<Rightarrow> lock_table" where
  "upd_lock l f L = L\<lparr>locks := (locks L)(l := f (locks L l))\<rparr>"

definition lock_new :: "u64 \<Rightarrow> u32 \<Rightarrow> filc_async_lock" where
  "lock_new value space =
     \<lparr>lk_value = value, lk_space = space, lk_holders = [], lk_waiters = [],
      lk_nholders = 0, lk_nwriters = 0\<rparr>"

definition lock_get :: "u64 \<Rightarrow> u32 \<Rightarrow> lock_table \<Rightarrow> (addr \<times> lock_table) outcome" where
  "lock_get value space L =
    (let bucket = lock_bucket value space in
     case List.find (\<lambda>l. lk_value (locks L l) = value \<and> lk_space (locks L l) = space)
            (g_lock_buckets L bucket) of
       Some l \<Rightarrow> Inr (l, L)
     | None \<Rightarrow>
         res_bind
           (case g_free_locks L of
              l # rest \<Rightarrow> Inr (l, L\<lparr>g_free_locks := rest\<rparr>)
            | [] \<Rightarrow> res_bind (alloc_or_die (lock_answers L))
                      (\<lambda>(l, rest). Inr (l, L\<lparr>lock_answers := rest\<rparr>)))
           (\<lambda>(l, L1).
              Inr (l, L1\<lparr>locks := (locks L1)(l := lock_new value space),
                         g_lock_buckets :=
                           (g_lock_buckets L1)(bucket := l # g_lock_buckets L1 bucket)\<rparr>)))"

definition lock_conflict :: "lock_table \<Rightarrow> addr \<Rightarrow> addr \<Rightarrow> bool \<Rightarrow> addr option" where
  "lock_conflict L l t write =
    (if (if write then lk_nholders (locks L l) = 0 else lk_nwriters (locks L l) = 0)
     then None
     else map_option (\<lambda>h. hd_task (holds L h))
            (List.find (\<lambda>h. hd_task (holds L h) \<noteq> t \<and> (write \<or> hd_write (holds L h)))
               (lk_holders (locks L l))))"

definition lock_enqueue ::
  "addr \<Rightarrow> u64 \<Rightarrow> u32 \<Rightarrow> bool \<Rightarrow> lock_table \<Rightarrow> (addr \<times> lock_table) outcome" where
  "lock_enqueue t value space write L =
     res_bind (lock_get value space L)
       (\<lambda>(l, L1). res_bind (alloc_or_die (hold_answers L1))
         (\<lambda>(h, rest).
            let L2 = L1\<lparr>hold_answers := rest,
                        holds := (holds L1)
                          (h := \<lparr>hd_task = t, hd_lock = l, hd_write = write\<rparr>)\<rparr>
            in Inr (h, upd_lock l (\<lambda>k. k\<lparr>lk_waiters := lk_waiters k @ [h]\<rparr>) L2)))"

definition queued_behind :: "lock_table \<Rightarrow> addr \<Rightarrow> bool" where
  "queued_behind L h =
     list_ex (\<lambda>w. hd_task (holds L w) \<noteq> hd_task (holds L h) \<and>
                  (hd_write (holds L h) \<or> hd_write (holds L w)))
       (takeWhile (\<lambda>w. w \<noteq> h) (lk_waiters (locks L (hd_lock (holds L h)))))"

definition lock_holder :: "lock_table \<Rightarrow> addr \<Rightarrow> addr option" where
  "lock_holder L h =
     lock_conflict L (hd_lock (holds L h)) (hd_task (holds L h)) (hd_write (holds L h))"

definition lock_blocked :: "lock_table \<Rightarrow> addr \<Rightarrow> bool" where
  "lock_blocked L h \<longleftrightarrow> lock_holder L h \<noteq> None \<or> queued_behind L h"

definition lock_grant :: "addr \<Rightarrow> lock_table \<Rightarrow> lock_table" where
  "lock_grant h L =
    (let l = hd_lock (holds L h); t = hd_task (holds L h);
         L1 = upd_lock l (\<lambda>k. k\<lparr>lk_waiters := remove1 h (lk_waiters k),
                               lk_holders := h # lk_holders k,
                               lk_nholders := lk_nholders k + 1,
                               lk_nwriters := (if hd_write (holds L h) then lk_nwriters k + 1
                                               else lk_nwriters k)\<rparr>) L
     in L1\<lparr>task_holds := (task_holds L1)(t := h # task_holds L1 t)\<rparr>)"

definition unhold :: "addr \<Rightarrow> lock_table \<Rightarrow> lock_table" where
  "unhold h L = upd_lock (hd_lock (holds L h))
     (\<lambda>k. k\<lparr>lk_holders := remove1 h (lk_holders k), lk_nholders := lk_nholders k - 1,
             lk_nwriters := (if hd_write (holds L h) then lk_nwriters k - 1
                             else lk_nwriters k)\<rparr>) L"

definition retire_lock :: "addr \<Rightarrow> lock_table \<Rightarrow> lock_table" where
  "retire_lock l L =
    (let bucket = lock_bucket (lk_value (locks L l)) (lk_space (locks L l)) in
     L\<lparr>g_lock_buckets := (g_lock_buckets L)(bucket := remove1 l (g_lock_buckets L bucket)),
       g_free_locks := l # g_free_locks L\<rparr>)"

definition release_hold :: "addr \<Rightarrow> lock_table \<Rightarrow> lock_table outcome" where
  "release_hold h L =
    (let l = hd_lock (holds L h); L1 = unhold h L; k = locks L1 l
     in if lk_holders k \<noteq> [] \<or> lk_waiters k \<noteq> [] then Inr L1
        else if lk_nholders k \<noteq> 0 \<or> lk_nwriters k \<noteq> 0
        then Inl (Fatal ''dependency lock counts out of step'')
        else Inr (retire_lock l L1))"

fun release_holds :: "addr list \<Rightarrow> lock_table \<Rightarrow> lock_table outcome" where
  "release_holds [] L = Inr L"
| "release_holds (h # hs) L = res_bind (release_hold h L) (release_holds hs)"

definition locks_release :: "addr \<Rightarrow> lock_table \<Rightarrow> lock_table outcome" where
  "locks_release t L =
     res_bind (release_holds (task_holds L t) L)
       (\<lambda>L1. Inr (L1\<lparr>task_holds := (task_holds L1)(t := [])\<rparr>))"

section \<open>The invariant\<close>

text \<open>The range of the counts of a lock, which are \<open>unsigned int\<close>.\<close>

definition count_range :: nat where "count_range = 2 ^ 32"

definition lock_live :: "lock_table \<Rightarrow> addr \<Rightarrow> bool" where
  "lock_live L l \<longleftrightarrow>
     l \<in> set (g_lock_buckets L (lock_bucket (lk_value (locks L l)) (lk_space (locks L l))))"

text \<open>The hash chains: every lock is on the chain of its key, once, and keys are unique.\<close>

definition chains_ok :: "lock_table \<Rightarrow> bool" where
  "chains_ok L \<longleftrightarrow>
     (\<forall>b. distinct (g_lock_buckets L b) \<and>
          (\<forall>l\<in>set (g_lock_buckets L b).
             lock_bucket (lk_value (locks L l)) (lk_space (locks L l)) = b)) \<and>
     (\<forall>l l'. lock_live L l \<longrightarrow> lock_live L l' \<longrightarrow>
             lk_value (locks L l) = lk_value (locks L l') \<longrightarrow>
             lk_space (locks L l) = lk_space (locks L l') \<longrightarrow> l = l')"

text \<open>No address is in use, free and still to be allocated at once.\<close>

definition stores_ok :: "lock_table \<Rightarrow> bool" where
  "stores_ok L \<longleftrightarrow>
     distinct (g_free_locks L @ lock_answers L) \<and> distinct (hold_answers L) \<and>
     (\<forall>l. lock_live L l \<longrightarrow> l \<notin> set (g_free_locks L @ lock_answers L) \<and>
          set (lk_holders (locks L l) @ lk_waiters (locks L l)) \<inter> set (hold_answers L) = {})"

text \<open>One lock in use: its requests point back at it, it has at least one, its counts are
  those of its holders, and two tasks hold it together only to read.\<close>

definition exclusive :: "lock_table \<Rightarrow> addr \<Rightarrow> bool" where
  "exclusive L l \<longleftrightarrow>
     (\<forall>h\<in>set (lk_holders (locks L l)). \<forall>h'\<in>set (lk_holders (locks L l)).
        hd_write (holds L h) \<longrightarrow> hd_task (holds L h') = hd_task (holds L h))"

definition lock_ok :: "lock_table \<Rightarrow> addr \<Rightarrow> bool" where
  "lock_ok L l \<longleftrightarrow>
     (let k = locks L l in
      distinct (lk_holders k @ lk_waiters k) \<and> lk_holders k @ lk_waiters k \<noteq> [] \<and>
      (\<forall>h\<in>set (lk_holders k) \<union> set (lk_waiters k). hd_lock (holds L h) = l) \<and>
      length (lk_holders k) + length (lk_waiters k) + length (hold_answers L) < count_range \<and>
      lk_nholders k = of_nat (length (lk_holders k)) \<and>
      lk_nwriters k = of_nat (length (filter (\<lambda>h. hd_write (holds L h)) (lk_holders k))) \<and>
      exclusive L l)"

definition lock_core :: "lock_table \<Rightarrow> bool" where
  "lock_core L \<longleftrightarrow> chains_ok L \<and> stores_ok L \<and> length (hold_answers L) < count_range \<and>
     (\<forall>l. lock_live L l \<longrightarrow> lock_ok L l)"

definition held :: "lock_table \<Rightarrow> addr \<Rightarrow> bool" where
  "held L h \<longleftrightarrow> lock_live L (hd_lock (holds L h)) \<and>
     h \<in> set (lk_holders (locks L (hd_lock (holds L h))))"

definition waiting :: "lock_table \<Rightarrow> addr \<Rightarrow> bool" where
  "waiting L h \<longleftrightarrow> lock_live L (hd_lock (holds L h)) \<and>
     h \<in> set (lk_waiters (locks L (hd_lock (holds L h))))"

definition lock_inv :: "lock_table \<Rightarrow> bool" where
  "lock_inv L \<longleftrightarrow> lock_core L \<and>
     (\<forall>t. distinct (task_holds L t) \<and>
          set (task_holds L t) = {h. held L h \<and> hd_task (holds L h) = t})"

section \<open>Helper lemmas\<close>

lemma upd_lock_simps [simp]:
  "locks (upd_lock l f L) = (locks L)(l := f (locks L l))"
  "holds (upd_lock l f L) = holds L"
  "g_lock_buckets (upd_lock l f L) = g_lock_buckets L"
  "g_free_locks (upd_lock l f L) = g_free_locks L"
  "task_holds (upd_lock l f L) = task_holds L"
  "lock_answers (upd_lock l f L) = lock_answers L"
  "hold_answers (upd_lock l f L) = hold_answers L"
  by (simp_all add: upd_lock_def)

lemma count_eq_0: "n < count_range \<Longrightarrow> ((of_nat n :: u32) = 0) = (n = 0)"
  by (rule of_nat_word_eq_0) (simp add: count_range_def)

lemma lock_okD:
  assumes "lock_ok L l"
  shows "distinct (lk_holders (locks L l) @ lk_waiters (locks L l))"
    and "\<And>h. h \<in> set (lk_holders (locks L l)) \<Longrightarrow> hd_lock (holds L h) = l"
    and "\<And>h. h \<in> set (lk_waiters (locks L l)) \<Longrightarrow> hd_lock (holds L h) = l"
    and "length (lk_holders (locks L l)) + length (lk_waiters (locks L l)) +
         length (hold_answers L) < count_range"
    and "lk_nholders (locks L l) = of_nat (length (lk_holders (locks L l)))"
    and "lk_nwriters (locks L l) =
         of_nat (length (filter (\<lambda>h. hd_write (holds L h)) (lk_holders (locks L l))))"
    and "exclusive L l"
  using assms unfolding lock_ok_def Let_def by blast+

lemma lock_conflict_None:
  assumes ok: "lock_ok L l"
  shows "(lock_conflict L l t write = None) =
         (\<forall>h\<in>set (lk_holders (locks L l)).
            hd_task (holds L h) = t \<or> \<not> write \<and> \<not> hd_write (holds L h))"
proof -
  let ?hs = "lk_holders (locks L l)"
  let ?ws = "filter (\<lambda>h. hd_write (holds L h)) ?hs"
  have hs: "length ?hs < count_range"
    using lock_okD(4) [OF ok] by linarith
  have ws: "length ?ws < count_range"
    using hs length_filter_le [of "\<lambda>h. hd_write (holds L h)" ?hs] by linarith
  have n: "(lk_nholders (locks L l) = 0) = (?hs = [])"
    using hs lock_okD(5) [OF ok] by (simp add: count_eq_0)
  have w: "(lk_nwriters (locks L l) = 0) = (\<forall>h\<in>set ?hs. \<not> hd_write (holds L h))"
    using ws lock_okD(6) [OF ok] by (simp add: count_eq_0 filter_empty_conv)
  show ?thesis
    using n w by (cases "write") (auto simp: lock_conflict_def find_None_iff)
qed

lemma lock_conflict_Some:
  "lock_conflict L l t write = Some u \<Longrightarrow>
   \<exists>h\<in>set (lk_holders (locks L l)). hd_task (holds L h) = u \<and> u \<noteq> t \<and> (write \<or> hd_write (holds L h))"
  by (auto simp: lock_conflict_def dest!: find_Some_mem split: if_splits)

lemma lock_liveD: "chains_ok L \<Longrightarrow> l \<in> set (g_lock_buckets L b) \<Longrightarrow> lock_live L l"
  by (auto simp: chains_ok_def lock_live_def)

lemma lock_get_cases:
  assumes core: "lock_core L" and get: "lock_get v sp L = Inr (l, L1)"
  obtains (found) "L1 = L" "lock_live L l"
      "lk_value (locks L l) = v" "lk_space (locks L l) = sp"
  | (fresh) "\<not> lock_live L l" "l \<noteq> 0 \<or> l \<in> set (g_free_locks L)"
      "locks L1 = (locks L)(l := lock_new v sp)"
      "g_lock_buckets L1 = (g_lock_buckets L)
         (lock_bucket v sp := l # g_lock_buckets L (lock_bucket v sp))"
      "holds L1 = holds L" "hold_answers L1 = hold_answers L" "task_holds L1 = task_holds L"
      "distinct (l # g_free_locks L1 @ lock_answers L1)"
      "set (g_free_locks L1 @ lock_answers L1) \<subseteq> set (g_free_locks L @ lock_answers L)"
      "\<And>l'. lock_live L l' \<Longrightarrow> lk_value (locks L l') = v \<Longrightarrow> lk_space (locks L l') \<noteq> sp"
proof -
  let ?P = "\<lambda>l. lk_value (locks L l) = v \<and> lk_space (locks L l) = sp"
  let ?chain = "g_lock_buckets L (lock_bucket v sp)"
  have chains: "chains_ok L" and stores: "stores_ok L"
    using core by (simp_all add: lock_core_def)
  show thesis
  proof (cases "List.find ?P ?chain")
    case (Some l0)
    then have "l0 \<in> set ?chain" "?P l0" by (auto dest: find_Some_mem)
    moreover have "l0 = l" "L1 = L" using get Some by (auto simp: lock_get_def Let_def)
    ultimately show thesis using found lock_liveD [OF chains] by auto
  next
    case None
    have nokey: "lk_space (locks L l') \<noteq> sp" if "lock_live L l'" "lk_value (locks L l') = v" for l'
      using that None by (auto simp: find_None_iff lock_live_def)
    show thesis
    proof (cases "g_free_locks L")
      case Nil
      then obtain rest where "lock_answers L = l # rest" "l \<noteq> 0"
        and "L1 = L\<lparr>lock_answers := rest, locks := (locks L)(l := lock_new v sp),
               g_lock_buckets := (g_lock_buckets L)(lock_bucket v sp := l # ?chain)\<rparr>"
        using get None by (auto simp: lock_get_def Let_def)
      then show thesis
        using fresh stores Nil nokey by (auto simp: stores_ok_def)
    next
      case (Cons l0 rest)
      then have "l0 = l"
        and "L1 = L\<lparr>g_free_locks := rest, locks := (locks L)(l := lock_new v sp),
               g_lock_buckets := (g_lock_buckets L)(lock_bucket v sp := l # ?chain)\<rparr>"
        using get None by (auto simp: lock_get_def Let_def)
      then show thesis
        using fresh stores Cons nokey by (auto simp: stores_ok_def)
    qed
  qed
qed

section \<open>How the parts of the invariant change\<close>

lemma lock_ok_frame:
  assumes ok: "lock_ok L l" and same: "locks L' l = locks L l"
    and holds: "\<And>h. h \<in> set (lk_holders (locks L l)) \<union> set (lk_waiters (locks L l)) \<Longrightarrow>
                  holds L' h = holds L h"
    and len: "length (hold_answers L') \<le> length (hold_answers L)"
  shows "lock_ok L' l"
proof -
  have "filter (\<lambda>h. hd_write (holds L' h)) (lk_holders (locks L l)) =
        filter (\<lambda>h. hd_write (holds L h)) (lk_holders (locks L l))"
    using holds by (intro filter_cong) auto
  moreover have "exclusive L' l"
    using lock_okD(7) [OF ok] holds unfolding exclusive_def same by (metis UnI1)
  ultimately show ?thesis
    using ok same holds len unfolding lock_ok_def Let_def by simp
qed

lemma lock_live_cong:
  assumes "g_lock_buckets L' = g_lock_buckets L"
    and "\<And>l. lk_value (locks L' l) = lk_value (locks L l)"
    and "\<And>l. lk_space (locks L' l) = lk_space (locks L l)"
  shows "lock_live L' l = lock_live L l"
  using assms by (simp add: lock_live_def)

lemma chains_ok_cong:
  assumes "g_lock_buckets L' = g_lock_buckets L"
    and "\<And>l. lk_value (locks L' l) = lk_value (locks L l)"
    and "\<And>l. lk_space (locks L' l) = lk_space (locks L l)"
  shows "chains_ok L' = chains_ok L"
  using assms lock_live_cong [OF assms] by (simp add: chains_ok_def)

lemma chains_ok_insert:
  assumes chains: "chains_ok L" and new: "\<not> lock_live L l"
    and locks': "locks L' = (locks L)(l := k)"
    and buckets': "g_lock_buckets L' = (g_lock_buckets L)
           (lock_bucket (lk_value k) (lk_space k) :=
              l # g_lock_buckets L (lock_bucket (lk_value k) (lk_space k)))"
    and nokey: "\<And>l'. lock_live L l' \<Longrightarrow> lk_value (locks L l') = lk_value k \<Longrightarrow>
                  lk_space (locks L l') \<noteq> lk_space k"
  shows "chains_ok L'" and "lock_live L' l' = (lock_live L l' \<or> l' = l)"
proof -
  have out: "l \<notin> set (g_lock_buckets L b)" for b
    using lock_liveD [OF chains] new by blast
  show live: "lock_live L' l' = (lock_live L l' \<or> l' = l)" for l'
    using out new by (auto simp: lock_live_def locks' buckets')
  show "chains_ok L'"
    unfolding chains_ok_def
  proof (intro conjI allI)
    fix b
    show "distinct (g_lock_buckets L' b)"
      using chains out by (simp add: chains_ok_def buckets')
    show "\<forall>l\<in>set (g_lock_buckets L' b). lock_bucket (lk_value (locks L' l)) (lk_space (locks L' l)) = b"
      using chains out by (auto simp: chains_ok_def locks' buckets')
  next
    fix m m'
    show "lock_live L' m \<longrightarrow> lock_live L' m' \<longrightarrow>
          lk_value (locks L' m) = lk_value (locks L' m') \<longrightarrow>
          lk_space (locks L' m) = lk_space (locks L' m') \<longrightarrow> m = m'"
      using chains nokey [of m] nokey [of m'] new
      by (auto simp: live locks' chains_ok_def)
  qed
qed

lemma chains_ok_delete:
  assumes chains: "chains_ok L" and l: "lock_live L l"
    and values': "\<And>l. lk_value (locks L' l) = lk_value (locks L l)"
      "\<And>l. lk_space (locks L' l) = lk_space (locks L l)"
    and buckets': "g_lock_buckets L' = (g_lock_buckets L)
           (lock_bucket (lk_value (locks L l)) (lk_space (locks L l)) :=
              remove1 l (g_lock_buckets L (lock_bucket (lk_value (locks L l)) (lk_space (locks L l)))))"
  shows "chains_ok L'" and "lock_live L' l' = (lock_live L l' \<and> l' \<noteq> l)"
proof -
  have dist: "distinct (g_lock_buckets L b)" for b
    using chains by (simp add: chains_ok_def)
  have key: "x \<in> set (g_lock_buckets L b) \<Longrightarrow>
             lock_bucket (lk_value (locks L x)) (lk_space (locks L x)) = b" for x b
    using chains by (simp add: chains_ok_def)
  show live: "lock_live L' l' = (lock_live L l' \<and> l' \<noteq> l)" for l'
    using dist by (auto simp: lock_live_def values' buckets')
  show "chains_ok L'"
    unfolding chains_ok_def
  proof (intro conjI allI)
    fix b
    show "distinct (g_lock_buckets L' b)"
      using dist by (simp add: buckets' distinct_remove1)
    show "\<forall>l\<in>set (g_lock_buckets L' b). lock_bucket (lk_value (locks L' l)) (lk_space (locks L' l)) = b"
      using key by (auto simp: values' buckets' dest: notin_set_remove1)
  next
    fix m m'
    show "lock_live L' m \<longrightarrow> lock_live L' m' \<longrightarrow>
          lk_value (locks L' m) = lk_value (locks L' m') \<longrightarrow>
          lk_space (locks L' m) = lk_space (locks L' m') \<longrightarrow> m = m'"
      using chains by (auto simp: live values' chains_ok_def)
  qed
qed

lemma lock_coreD:
  assumes "lock_core L"
  shows "chains_ok L" "stores_ok L" "length (hold_answers L) < count_range"
    and "\<And>l. lock_live L l \<Longrightarrow> lock_ok L l"
  using assms by (simp_all add: lock_core_def)

lemma lock_get_spec:
  assumes core: "lock_core L" and get: "lock_get v sp L = Inr (l, L1)"
  shows "chains_ok L1" and "\<And>l'. lock_live L1 l' = (lock_live L l' \<or> l' = l)"
    and "\<And>l'. l' \<noteq> l \<Longrightarrow> locks L1 l' = locks L l'"
    and "lk_value (locks L1 l) = v" and "lk_space (locks L1 l) = sp"
    and "holds L1 = holds L" and "hold_answers L1 = hold_answers L"
    and "task_holds L1 = task_holds L"
    and "(locks L1 l = locks L l \<and> lock_live L l) \<or> (locks L1 l = lock_new v sp \<and> \<not> lock_live L l)"
    and "distinct (g_free_locks L1 @ lock_answers L1)"
    and "\<And>l'. lock_live L1 l' \<Longrightarrow> l' \<notin> set (g_free_locks L1 @ lock_answers L1)"
proof -
  have "chains_ok L1 \<and> (\<forall>l'. lock_live L1 l' = (lock_live L l' \<or> l' = l)) \<and>
    (\<forall>l'. l' \<noteq> l \<longrightarrow> locks L1 l' = locks L l') \<and>
    lk_value (locks L1 l) = v \<and> lk_space (locks L1 l) = sp \<and>
    holds L1 = holds L \<and> hold_answers L1 = hold_answers L \<and> task_holds L1 = task_holds L \<and>
    ((locks L1 l = locks L l \<and> lock_live L l) \<or> (locks L1 l = lock_new v sp \<and> \<not> lock_live L l)) \<and>
    distinct (g_free_locks L1 @ lock_answers L1) \<and>
    (\<forall>l'. lock_live L1 l' \<longrightarrow> l' \<notin> set (g_free_locks L1 @ lock_answers L1))"
    using core get
  proof (cases rule: lock_get_cases)
    case found
    with lock_coreD(1,2) [OF core] show ?thesis by (auto simp: stores_ok_def)
  next
    case fresh
    have ins: "chains_ok L1" "\<And>l'. lock_live L1 l' = (lock_live L l' \<or> l' = l)"
      using chains_ok_insert [OF lock_coreD(1) [OF core] fresh(1), of L1 "lock_new v sp"] fresh
      by (auto simp: lock_new_def)
    moreover have "l' \<notin> set (g_free_locks L1 @ lock_answers L1)" if "lock_live L1 l'" for l'
      using that ins(2) fresh(8,9) lock_coreD(2) [OF core] by (auto simp: stores_ok_def)
    ultimately show ?thesis using fresh by (auto simp: lock_new_def)
  qed
  then show "chains_ok L1" and "\<And>l'. lock_live L1 l' = (lock_live L l' \<or> l' = l)"
    and "\<And>l'. l' \<noteq> l \<Longrightarrow> locks L1 l' = locks L l'"
    and "lk_value (locks L1 l) = v" and "lk_space (locks L1 l) = sp"
    and "holds L1 = holds L" and "hold_answers L1 = hold_answers L"
    and "task_holds L1 = task_holds L"
    and "(locks L1 l = locks L l \<and> lock_live L l) \<or> (locks L1 l = lock_new v sp \<and> \<not> lock_live L l)"
    and "distinct (g_free_locks L1 @ lock_answers L1)"
    and "\<And>l'. lock_live L1 l' \<Longrightarrow> l' \<notin> set (g_free_locks L1 @ lock_answers L1)"
    by blast+
qed

lemma lock_ok_enqueue:
  assumes ok: "lock_ok L l \<or> (locks L l = lock_new v sp \<and> length (hold_answers L) < count_range)"
    and h: "h \<notin> set (lk_holders (locks L l) @ lk_waiters (locks L l))"
    and ans: "hold_answers L = h # rest"
    and locks': "locks L' l = (locks L l)\<lparr>lk_waiters := lk_waiters (locks L l) @ [h]\<rparr>"
    and holds': "holds L' = (holds L)(h := \<lparr>hd_task = t, hd_lock = l, hd_write = wr\<rparr>)"
    and ans': "hold_answers L' = rest"
  shows "lock_ok L' l"
proof -
  let ?k = "locks L l"
  have base: "distinct (lk_holders ?k @ lk_waiters ?k)"
    "\<And>x. x \<in> set (lk_holders ?k) \<union> set (lk_waiters ?k) \<Longrightarrow> hd_lock (holds L x) = l"
    "length (lk_holders ?k) + length (lk_waiters ?k) + length (hold_answers L) < count_range"
    "lk_nholders ?k = of_nat (length (lk_holders ?k))"
    "lk_nwriters ?k = of_nat (length (filter (\<lambda>h. hd_write (holds L h)) (lk_holders ?k)))"
    "exclusive L l"
    using ok lock_okD [of L l] by (auto simp: lock_new_def exclusive_def)
  have same: "holds L' x = holds L x" if "x \<in> set (lk_holders ?k) \<union> set (lk_waiters ?k)" for x
    using that h holds' by auto
  have "filter (\<lambda>x. hd_write (holds L' x)) (lk_holders ?k) =
        filter (\<lambda>x. hd_write (holds L x)) (lk_holders ?k)"
    using same by (intro filter_cong) auto
  moreover have "exclusive L' l"
    using base(6) same unfolding exclusive_def locks' by (metis UnI1 filc_async_lock.select_convs(3) filc_async_lock.update_convs(4) filc_async_lock.cases)
  ultimately show ?thesis
    using base h same locks' holds' ans ans' unfolding lock_ok_def Let_def by auto
qed

section \<open>The operations keep the invariant\<close>

lemma lock_enqueue_split:
  assumes "lock_enqueue t v sp wr L = Inr (h, L')"
  obtains l L1 rest where "lock_get v sp L = Inr (l, L1)" "hold_answers L1 = h # rest"
    and "L' = upd_lock l (\<lambda>k. k\<lparr>lk_waiters := lk_waiters k @ [h]\<rparr>)
           (L1\<lparr>hold_answers := rest,
               holds := (holds L1)(h := \<lparr>hd_task = t, hd_lock = l, hd_write = wr\<rparr>)\<rparr>)"
  using assms by (auto simp: lock_enqueue_def Let_def split: prod.splits)

lemma lock_enqueue_spec:
  assumes core: "lock_core L" and enq: "lock_enqueue t v sp wr L = Inr (h, L')"
  shows "lock_core L'" and "waiting L' h"
    and "hd_task (holds L' h) = t" and "hd_write (holds L' h) = wr"
    and "lk_value (locks L' (hd_lock (holds L' h))) = v"
    and "lk_space (locks L' (hd_lock (holds L' h))) = sp"
    and "\<And>x. x \<noteq> h \<Longrightarrow> holds L' x = holds L x"
    and "\<And>x. held L' x = held L x" and "\<not> held L h" and "task_holds L' = task_holds L"
proof -
  obtain l L1 rest where get: "lock_get v sp L = Inr (l, L1)" and ans: "hold_answers L1 = h # rest"
    and L': "L' = upd_lock l (\<lambda>k. k\<lparr>lk_waiters := lk_waiters k @ [h]\<rparr>)
           (L1\<lparr>hold_answers := rest,
               holds := (holds L1)(h := \<lparr>hd_task = t, hd_lock = l, hd_write = wr\<rparr>)\<rparr>)"
    using enq by (rule lock_enqueue_split)
  note g = lock_get_spec [OF core get]
  have hansL: "hold_answers L = h # rest" using g(7) ans by simp
  have stores: "stores_ok L" by (rule lock_coreD(2) [OF core])
  have hout: "h \<notin> set (lk_holders (locks L1 x) @ lk_waiters (locks L1 x)) \<and>
      set (lk_holders (locks L1 x) @ lk_waiters (locks L1 x)) \<inter> set rest = {}"
    if "lock_live L1 x" for x
  proof (cases "lock_live L x")
    case True
    then have "locks L1 x = locks L x" using g(3) [of x] g(9) by (cases "x = l") auto
    with True stores hansL show ?thesis by (auto simp: stores_ok_def)
  next
    case False
    then have "x = l" "locks L1 l = lock_new v sp" using that g(2,9) by auto
    then show ?thesis by (simp add: lock_new_def)
  qed
  have live: "lock_live L' x = lock_live L1 x" for x
    by (rule lock_live_cong) (simp_all add: L')
  have llive: "lock_live L1 l" by (simp add: g(2))
  have chains: "chains_ok L'"
    using g(1) chains_ok_cong [of L' L1] by (simp add: L')
  have ok: "lock_ok L' x" if x: "lock_live L' x" for x
  proof (cases "x = l")
    case True
    have "lock_ok L1 l \<or> (locks L1 l = lock_new v sp \<and> length (hold_answers L1) < count_range)"
      using g(9) lock_ok_frame [of L l L1] lock_coreD(3,4) [OF core] g(6,7) by auto
    then have "lock_ok L' l"
      by (rule lock_ok_enqueue [OF _ conjunct1 [OF hout [OF llive]] ans]) (simp_all add: L')
    with True show ?thesis by simp
  next
    case False
    have Lx: "lock_live L x" using x live g(2) False by simp
    have "holds L' y = holds L y"
      if "y \<in> set (lk_holders (locks L x)) \<union> set (lk_waiters (locks L x))" for y
      using that hout [of x] x live g(3) [OF False] g(6) by (auto simp: L')
    moreover have "locks L' x = locks L x" using False g(3) by (simp add: L')
    ultimately show ?thesis
      using lock_ok_frame [OF lock_coreD(4) [OF core Lx]] hansL by (simp add: L')
  qed
  have "stores_ok L'"
    using g(10,11) hout stores hansL live
    by (auto simp: stores_ok_def L')
  then show "lock_core L'"
    using chains ok lock_coreD(3) [OF core] hansL by (simp add: lock_core_def L')
  show "waiting L' h" using live llive by (simp add: waiting_def L')
  show "hd_task (holds L' h) = t" "hd_write (holds L' h) = wr"
    "lk_value (locks L' (hd_lock (holds L' h))) = v"
    "lk_space (locks L' (hd_lock (holds L' h))) = sp"
    using g(4,5) by (simp_all add: L')
  show "holds L' x = holds L x" if "x \<noteq> h" for x using that g(6) by (simp add: L')
  show nh: "\<not> held L h"
    using stores hansL by (auto simp: held_def stores_ok_def)
  show "task_holds L' = task_holds L" using g(8) by (simp add: L')
  show "held L' x = held L x" for x
  proof (cases "x = h")
    case True
    have "h \<notin> set (lk_holders (locks L1 l))" using hout [OF llive] by simp
    with True nh show ?thesis by (simp add: held_def L')
  next
    case False
    let ?m = "hd_lock (holds L x)"
    have "lk_holders (locks L1 ?m) = (if lock_live L ?m then lk_holders (locks L ?m) else [])"
      if "lock_live L1 ?m"
      using that g(2,3,9) by (cases "?m = l") (auto simp: lock_new_def)
    moreover have "lock_live L ?m \<Longrightarrow> lock_live L1 ?m" by (simp add: g(2))
    ultimately show ?thesis
      using False live g(6) by (auto simp: held_def L' split: if_splits)
  qed
qed

lemma lock_grant_simps [simp]:
  "holds (lock_grant h L) = holds L"
  "g_lock_buckets (lock_grant h L) = g_lock_buckets L"
  "g_free_locks (lock_grant h L) = g_free_locks L"
  "lock_answers (lock_grant h L) = lock_answers L"
  "hold_answers (lock_grant h L) = hold_answers L"
  "lk_value (locks (lock_grant h L) l) = lk_value (locks L l)"
  "lk_space (locks (lock_grant h L) l) = lk_space (locks L l)"
  "l \<noteq> hd_lock (holds L h) \<Longrightarrow> locks (lock_grant h L) l = locks L l"
  by (simp_all add: lock_grant_def Let_def)

lemma lock_grant_lock:
  "locks (lock_grant h L) (hd_lock (holds L h)) =
     (locks L (hd_lock (holds L h)))
       \<lparr>lk_waiters := remove1 h (lk_waiters (locks L (hd_lock (holds L h)))),
        lk_holders := h # lk_holders (locks L (hd_lock (holds L h))),
        lk_nholders := lk_nholders (locks L (hd_lock (holds L h))) + 1,
        lk_nwriters := (if hd_write (holds L h) then lk_nwriters (locks L (hd_lock (holds L h))) + 1
                        else lk_nwriters (locks L (hd_lock (holds L h))))\<rparr>"
  by (simp add: lock_grant_def Let_def)

lemma lock_grant_live [simp]: "lock_live (lock_grant h L) l = lock_live L l"
  by (rule lock_live_cong) simp_all

lemma lock_grant_task_holds:
  "task_holds (lock_grant h L) = (task_holds L)
     (hd_task (holds L h) := h # task_holds L (hd_task (holds L h)))"
  by (simp add: lock_grant_def Let_def)

lemma exclusive_grant:
  assumes ok: "lock_ok L (hd_lock (holds L h))" and free: "lock_holder L h = None"
  shows "exclusive (lock_grant h L) (hd_lock (holds L h))"
proof -
  let ?l = "hd_lock (holds L h)"
  have others: "hd_task (holds L x) = hd_task (holds L h) \<or>
      \<not> hd_write (holds L h) \<and> \<not> hd_write (holds L x)"
    if "x \<in> set (lk_holders (locks L ?l))" for x
    using that free lock_conflict_None [OF ok] by (simp add: lock_holder_def)
  have "hd_task (holds L y) = hd_task (holds L x)"
    if "x \<in> set (lk_holders (locks L ?l))" "y \<in> set (lk_holders (locks L ?l))"
      "hd_write (holds L x)" for x y
    using that lock_okD(7) [OF ok] unfolding exclusive_def by blast
  note same = this
  have "hd_task (holds L y) = hd_task (holds L x)"
    if "x \<in> set (h # lk_holders (locks L ?l))" "y \<in> set (h # lk_holders (locks L ?l))"
      "hd_write (holds L x)" for x y
    using that others [of x] others [of y] same [of x y] by (cases "x = h"; cases "y = h"; simp)
  moreover have "lk_holders (locks (lock_grant h L) ?l) = h # lk_holders (locks L ?l)"
    by (simp add: lock_grant_lock)
  ultimately show ?thesis
    unfolding exclusive_def lock_grant_simps(1) by metis
qed

lemma lock_ok_grant:
  assumes l: "hd_lock (holds L h) = l" and ok: "lock_ok L l" and free: "lock_holder L h = None"
    and h: "h \<in> set (lk_waiters (locks L l))"
  shows "lock_ok (lock_grant h L) l"
proof -
  let ?k = "locks L l"
  have k': "locks (lock_grant h L) l = ?k\<lparr>lk_waiters := remove1 h (lk_waiters ?k),
      lk_holders := h # lk_holders ?k, lk_nholders := lk_nholders ?k + 1,
      lk_nwriters := (if hd_write (holds L h) then lk_nwriters ?k + 1 else lk_nwriters ?k)\<rparr>"
    using lock_grant_lock [of h L] by (simp only: l)
  have "distinct (h # lk_holders ?k @ remove1 h (lk_waiters ?k))"
    using lock_okD(1) [OF ok] h by auto
  moreover have "hd_lock (holds L x) = l"
    if "x \<in> set (h # lk_holders ?k) \<union> set (remove1 h (lk_waiters ?k))" for x
    using that lock_okD(2,3) [OF ok] l by (auto dest: notin_set_remove1)
  moreover have "length (h # lk_holders ?k) + length (remove1 h (lk_waiters ?k)) +
      length (hold_answers L) < count_range"
    using lock_okD(4) [OF ok] h length_pos_if_in_set [OF h]
    by (simp add: length_remove1 del: length_greater_0_conv)
  moreover have "exclusive (lock_grant h L) l"
    using exclusive_grant [of L h] ok free l by simp
  ultimately show ?thesis
    unfolding lock_ok_def Let_def
    using lock_okD(5,6) [OF ok] by (simp add: k' add.commute)
qed

lemma lock_grant_core:
  assumes core: "lock_core L" and wait: "waiting L h" and free: "lock_holder L h = None"
  shows "lock_core (lock_grant h L)"
proof -
  let ?L = "lock_grant h L" and ?l = "hd_lock (holds L h)"
  have live: "lock_live L ?l" and h: "h \<in> set (lk_waiters (locks L ?l))"
    using wait by (simp_all add: waiting_def)
  have "chains_ok ?L"
    using lock_coreD(1) [OF core] chains_ok_cong [of ?L L] by simp
  moreover have "stores_ok ?L"
  proof -
    have "set (lk_holders (locks ?L x) @ lk_waiters (locks ?L x)) \<subseteq>
          set (lk_holders (locks L x) @ lk_waiters (locks L x))" for x
      using h by (cases "x = ?l") (auto simp: lock_grant_lock dest: notin_set_remove1)
    with lock_coreD(2) [OF core] show ?thesis
      unfolding stores_ok_def by (simp (no_asm_use)) blast
  qed
  moreover have "lock_ok ?L x" if "lock_live ?L x" for x
  proof (cases "x = ?l")
    case True
    with lock_ok_grant [OF refl lock_coreD(4) [OF core live] free h] show ?thesis by simp
  next
    case False
    with lock_ok_frame [OF lock_coreD(4) [OF core], of x ?L] that show ?thesis by simp
  qed
  ultimately show ?thesis
    using lock_coreD(3) [OF core] by (simp add: lock_core_def)
qed

lemma lock_grant_held:
  assumes "waiting L h"
  shows "held (lock_grant h L) x = (held L x \<or> x = h)"
  using assms
  by (cases "hd_lock (holds L x) = hd_lock (holds L h)")
     (auto simp: held_def waiting_def lock_grant_lock)

text \<open>Releasing one hold.\<close>

lemma lock_ok_release:
  assumes ok: "lock_ok L l" and h: "h \<in> set (lk_holders (locks L l))"
    and locks': "locks L' l = (locks L l)
        \<lparr>lk_holders := remove1 h (lk_holders (locks L l)),
         lk_nholders := lk_nholders (locks L l) - 1,
         lk_nwriters := (if hd_write (holds L h) then lk_nwriters (locks L l) - 1
                         else lk_nwriters (locks L l))\<rparr>"
    and holds': "holds L' = holds L" and ans': "hold_answers L' = hold_answers L"
  shows "lk_nholders (locks L' l) = of_nat (length (lk_holders (locks L' l)))"
    and "lk_nwriters (locks L' l) =
         of_nat (length (filter (\<lambda>h. hd_write (holds L h)) (lk_holders (locks L' l))))"
    and "lk_holders (locks L' l) @ lk_waiters (locks L' l) \<noteq> [] \<Longrightarrow> lock_ok L' l"
proof -
  let ?k = "locks L l" and ?W = "\<lambda>h. hd_write (holds L h)"
  have sub: "set (remove1 h (lk_holders ?k)) \<subseteq> set (lk_holders ?k)"
    by (rule set_remove1_subset)
  have pos: "0 < length (lk_holders ?k)" by (rule length_pos_if_in_set [OF h])
  show n: "lk_nholders (locks L' l) = of_nat (length (lk_holders (locks L' l)))"
    using pos h lock_okD(5) [OF ok] by (simp add: locks' length_remove1 of_nat_pred_word)
  have "0 < length (filter ?W (lk_holders ?k))" if "?W h"
    using that h length_filter_pos [of ?W "lk_holders ?k"] by blast
  then show w: "lk_nwriters (locks L' l) = of_nat (length (filter ?W (lk_holders (locks L' l))))"
    using h lock_okD(6) [OF ok]
    by (auto simp: locks' length_filter_remove1 of_nat_pred_word simp del: length_greater_0_conv)
  have ex: "exclusive L' l"
    using lock_okD(7) [OF ok] sub unfolding exclusive_def locks' holds' by auto
  have dist: "distinct (remove1 h (lk_holders ?k) @ lk_waiters ?k)"
    using lock_okD(1) [OF ok] sub by (auto simp: distinct_remove1)
  show "lock_ok L' l" if "lk_holders (locks L' l) @ lk_waiters (locks L' l) \<noteq> []"
    unfolding lock_ok_def Let_def
  proof (intro conjI)
    show "distinct (lk_holders (locks L' l) @ lk_waiters (locks L' l))"
      using dist by (simp add: locks')
    show "\<forall>h\<in>set (lk_holders (locks L' l)) \<union> set (lk_waiters (locks L' l)).
            hd_lock (holds L' h) = l"
      using lock_okD(2,3) [OF ok] sub by (auto simp: locks' holds')
    show "length (lk_holders (locks L' l)) + length (lk_waiters (locks L' l)) +
            length (hold_answers L') < count_range"
      using lock_okD(4) [OF ok] h by (simp add: locks' ans' length_remove1)
    show "lk_nwriters (locks L' l) =
            of_nat (length (filter (\<lambda>h. hd_write (holds L' h)) (lk_holders (locks L' l))))"
      using w by (simp add: holds')
  qed (use that n ex in auto)
qed

lemma unhold_simps [simp]:
  "holds (unhold h L) = holds L" "g_lock_buckets (unhold h L) = g_lock_buckets L"
  "g_free_locks (unhold h L) = g_free_locks L" "task_holds (unhold h L) = task_holds L"
  "lock_answers (unhold h L) = lock_answers L" "hold_answers (unhold h L) = hold_answers L"
  "lk_value (locks (unhold h L) l) = lk_value (locks L l)"
  "lk_space (locks (unhold h L) l) = lk_space (locks L l)"
  "lk_waiters (locks (unhold h L) l) = lk_waiters (locks L l)"
  "l \<noteq> hd_lock (holds L h) \<Longrightarrow> locks (unhold h L) l = locks L l"
  "lk_holders (locks (unhold h L) (hd_lock (holds L h))) =
     remove1 h (lk_holders (locks L (hd_lock (holds L h))))"
  by (simp_all add: unhold_def)

lemma retire_lock_simps [simp]:
  "holds (retire_lock l L) = holds L" "locks (retire_lock l L) = locks L"
  "g_free_locks (retire_lock l L) = l # g_free_locks L"
  "task_holds (retire_lock l L) = task_holds L"
  "lock_answers (retire_lock l L) = lock_answers L"
  "hold_answers (retire_lock l L) = hold_answers L"
  by (simp_all add: retire_lock_def Let_def)

lemma unhold_live [simp]: "lock_live (unhold h L) l = lock_live L l"
  by (rule lock_live_cong) simp_all

lemma unhold_parts:
  assumes core: "lock_core L" and h: "held L h"
  shows "chains_ok (unhold h L)" and "stores_ok (unhold h L)"
    and "\<And>l. l \<noteq> hd_lock (holds L h) \<Longrightarrow> lock_live L l \<Longrightarrow> lock_ok (unhold h L) l"
proof -
  show "chains_ok (unhold h L)"
    using lock_coreD(1) [OF core] chains_ok_cong [of "unhold h L" L] by simp
  have "set (lk_holders (locks (unhold h L) x)) \<subseteq> set (lk_holders (locks L x))" for x
    using set_remove1_subset [of h "lk_holders (locks L x)"]
    by (cases "x = hd_lock (holds L h)") simp_all
  with lock_coreD(2) [OF core] show "stores_ok (unhold h L)"
    unfolding stores_ok_def by (simp (no_asm_use)) blast
  show "lock_ok (unhold h L) l" if "l \<noteq> hd_lock (holds L h)" "lock_live L l" for l
    using that lock_ok_frame [OF lock_coreD(4) [OF core], of l "unhold h L"] by simp
qed

lemma retire_lock_parts:
  assumes chains: "chains_ok L" and stores: "stores_ok L" and l: "lock_live L l"
  shows "chains_ok (retire_lock l L)" and "stores_ok (retire_lock l L)"
    and "\<And>l'. lock_live (retire_lock l L) l' = (lock_live L l' \<and> l' \<noteq> l)"
proof -
  show "chains_ok (retire_lock l L)"
    by (rule chains_ok_delete(1) [OF chains l]) (simp_all add: retire_lock_def Let_def)
  show live: "lock_live (retire_lock l L) l' = (lock_live L l' \<and> l' \<noteq> l)" for l'
    by (rule chains_ok_delete(2) [OF chains l]) (simp_all add: retire_lock_def Let_def)
  show "stores_ok (retire_lock l L)"
    using stores l by (auto simp: stores_ok_def live)
qed

lemma release_hold_spec:
  assumes core: "lock_core L" and h: "held L h"
  obtains L' where "release_hold h L = Inr L'" "lock_core L'" "holds L' = holds L"
    "task_holds L' = task_holds L" "\<And>x. held L' x = (held L x \<and> x \<noteq> h)"
    "\<And>x. waiting L' x = waiting L x"
proof -
  let ?l = "hd_lock (holds L h)" and ?L1 = "unhold h L"
  have live: "lock_live L ?l" and hin: "h \<in> set (lk_holders (locks L ?l))"
    using h by (simp_all add: held_def)
  have ok: "lock_ok L ?l" by (rule lock_coreD(4) [OF core live])
  note u = unhold_parts [OF core h]
  have dist: "distinct (lk_holders (locks L ?l))" using lock_okD(1) [OF ok] by simp
  have held1: "held ?L1 x = (held L x \<and> x \<noteq> h)" for x
    using dist by (cases "hd_lock (holds L x) = ?l") (auto simp: held_def)
  have waiting1: "waiting ?L1 x = waiting L x" for x by (simp add: waiting_def)
  note rel = lock_ok_release [OF ok hin, of ?L1]
  have k1: "locks ?L1 ?l = (locks L ?l)\<lparr>lk_holders := remove1 h (lk_holders (locks L ?l)),
      lk_nholders := lk_nholders (locks L ?l) - 1,
      lk_nwriters := (if hd_write (holds L h) then lk_nwriters (locks L ?l) - 1
                      else lk_nwriters (locks L ?l))\<rparr>"
    by (simp add: unhold_def)
  show thesis
  proof (cases "lk_holders (locks ?L1 ?l) \<noteq> [] \<or> lk_waiters (locks ?L1 ?l) \<noteq> []")
    case True
    have "lock_ok ?L1 x" if "lock_live ?L1 x" for x
      using that u(3) rel(3) [OF k1] True by (cases "x = ?l") auto
    then have "lock_core ?L1"
      using u lock_coreD(3) [OF core] by (simp add: lock_core_def)
    moreover have "release_hold h L = Inr ?L1"
      using True by (simp add: release_hold_def Let_def)
    ultimately show thesis using that held1 waiting1 by simp
  next
    case False
    let ?L2 = "retire_lock ?l ?L1"
    note r = retire_lock_parts [OF u(1,2), of ?l]
    have none: "lk_holders (locks ?L1 ?l) = []" "lk_waiters (locks L ?l) = []"
      using False by auto
    have "lk_nholders (locks ?L1 ?l) = 0" "lk_nwriters (locks ?L1 ?l) = 0"
      using rel(1,2) [OF k1] none(1) by simp_all
    then have rh: "release_hold h L = Inr ?L2"
      using False by (simp add: release_hold_def Let_def)
    have "lock_ok ?L2 x" if "lock_live ?L2 x" for x
    proof -
      have x: "lock_live L x" "x \<noteq> ?l" using that r(3) live by auto
      then show ?thesis using lock_ok_frame [OF u(3) [OF x(2,1)], of ?L2] by simp
    qed
    then have "lock_core ?L2"
      using r(1,2) live lock_coreD(3) [OF core] by (simp add: lock_core_def)
    moreover have "held ?L2 x = held ?L1 x" for x
      using none(1) live by (cases "hd_lock (holds L x) = ?l") (simp_all add: held_def r(3))
    moreover have "waiting ?L2 x = waiting ?L1 x" for x
      using none(2) live by (cases "hd_lock (holds L x) = ?l") (simp_all add: waiting_def r(3))
    ultimately show thesis using that rh held1 waiting1 by simp
  qed
qed

lemma release_holds_spec:
  assumes "lock_core L" and "distinct hs" and "\<And>h. h \<in> set hs \<Longrightarrow> held L h"
  shows "\<exists>L'. release_holds hs L = Inr L' \<and> lock_core L' \<and> holds L' = holds L \<and>
    task_holds L' = task_holds L \<and> (\<forall>x. held L' x = (held L x \<and> x \<notin> set hs)) \<and>
    (\<forall>x. waiting L' x = waiting L x)"
  using assms
proof (induction hs arbitrary: L)
  case (Cons h hs)
  obtain L1 where L1: "release_hold h L = Inr L1" "lock_core L1" "holds L1 = holds L"
    "task_holds L1 = task_holds L" "\<And>x. held L1 x = (held L x \<and> x \<noteq> h)"
    "\<And>x. waiting L1 x = waiting L x"
    using release_hold_spec [OF Cons.prems(1), of h] Cons.prems(3) by auto
  with Cons.IH [OF L1(2)] Cons.prems(2,3) show ?case by auto
qed simp

section \<open>The invariant of the table\<close>

lemma lock_invD:
  assumes "lock_inv L"
  shows "lock_core L" "\<And>t. distinct (task_holds L t)"
    "\<And>t. set (task_holds L t) = {h. held L h \<and> hd_task (holds L h) = t}"
  using assms by (simp_all add: lock_inv_def)

lemma lock_inv_enqueue:
  assumes inv: "lock_inv L" and enq: "lock_enqueue t v sp wr L = Inr (h, L')"
  shows "lock_inv L'"
proof -
  note e = lock_enqueue_spec [OF lock_invD(1) [OF inv] enq]
  have "{x. held L' x \<and> hd_task (holds L' x) = u} = {x. held L x \<and> hd_task (holds L x) = u}" for u
    using e(7,8,9) by metis
  with e(1,10) lock_invD(2,3) [OF inv] show ?thesis by (simp add: lock_inv_def)
qed

lemma lock_inv_grant:
  assumes inv: "lock_inv L" and wait: "waiting L h" and free: "lock_holder L h = None"
  shows "lock_inv (lock_grant h L)"
proof -
  have core: "lock_core L" by (rule lock_invD(1) [OF inv])
  have "\<not> held L h"
    using wait lock_okD(1) [OF lock_coreD(4) [OF core]] by (auto simp: held_def waiting_def)
  then have "distinct (task_holds (lock_grant h L) t) \<and>
      set (task_holds (lock_grant h L) t) =
      {x. held (lock_grant h L) x \<and> hd_task (holds (lock_grant h L) x) = t}" for t
    using lock_grant_held [OF wait] lock_invD(2,3) [OF inv]
    by (cases "t = hd_task (holds L h)") (auto simp: lock_grant_task_holds)
  with lock_grant_core [OF core wait free] show ?thesis by (simp add: lock_inv_def)
qed

lemma lock_core_task_holds:
  assumes core: "lock_core L"
  shows "lock_core (L\<lparr>task_holds := f\<rparr>)"
proof -
  let ?L = "L\<lparr>task_holds := f\<rparr>"
  have live: "lock_live ?L l = lock_live L l" for l by (simp add: lock_live_def)
  have "chains_ok ?L" using lock_coreD(1) [OF core] chains_ok_cong [of ?L L] by simp
  moreover have "stores_ok ?L" using lock_coreD(2) [OF core] by (simp add: stores_ok_def live)
  moreover have "lock_ok ?L l" if "lock_live ?L l" for l
    using that lock_ok_frame [OF lock_coreD(4) [OF core], of l ?L] by (simp add: live)
  ultimately show ?thesis using lock_coreD(3) [OF core] by (simp add: lock_core_def)
qed

lemma locks_release_spec:
  assumes inv: "lock_inv L"
  obtains L' where "locks_release t L = Inr L'" "lock_inv L'" "holds L' = holds L"
    "\<And>x. held L' x = (held L x \<and> hd_task (holds L x) \<noteq> t)"
    "\<And>x. waiting L' x = waiting L x"
proof -
  note i = lock_invD [OF inv]
  obtain L1 where L1: "release_holds (task_holds L t) L = Inr L1" "lock_core L1"
    "holds L1 = holds L" "task_holds L1 = task_holds L"
    "\<And>x. held L1 x = (held L x \<and> x \<notin> set (task_holds L t))"
    "\<And>x. waiting L1 x = waiting L x"
    using release_holds_spec [OF i(1,2), of t] i(3) by auto
  let ?L2 = "L1\<lparr>task_holds := (task_holds L1)(t := [])\<rparr>"
  have live: "lock_live ?L2 l = lock_live L1 l" for l by (simp add: lock_live_def)
  have held: "held ?L2 x = (held L x \<and> hd_task (holds L x) \<noteq> t)" for x
    using L1(3,5) i(3) by (auto simp: held_def live)
  have core: "lock_core ?L2"
    using L1(2) by (rule lock_core_task_holds)
  have "lock_inv ?L2"
    using core held L1(3,4) i(2,3) by (auto simp: lock_inv_def)
  moreover have "waiting ?L2 x = waiting L x" for x
    using L1(6) by (simp add: waiting_def live)
  ultimately show thesis using that held L1(1,3) by (simp add: locks_release_def)
qed

end
