(* ===== verification/Marks.thy ===== *)
theory Marks
  imports Hashing
begin

text \<open>
  Pending marks (\<open>filc_async.c\<close>, from \<open>struct filc_async_mark\<close> to \<open>mark_remove\<close>) and
  the pending flag of an object's header (\<open>zasync_set_pending\<close> of
  \<open>filc_async_native.c\<close>, whose compare-and-swap loop is the theory \<open>Native\<close>). The
  table holds the mark structs by address, the hash chains of the marks in use, the
  free list, each task's chain of marks, and the two header flags of the objects by
  their lower bound.
\<close>

datatype pending = PENDING_CLEAR | PENDING_SET | PENDING_READERS

record filc_async_mark =
  mk_buf :: zptr
  mk_lower :: addr
  mk_upper :: addr
  mk_generation :: u64
  mk_owner :: addr
  mk_write :: bool

record header =
  h_readonly :: bool
  h_pending :: bool

record mark_table =
  marks :: "addr \<Rightarrow> filc_async_mark"
  g_mark_buckets :: "nat \<Rightarrow> addr list"
  g_free_marks :: "addr list"
  task_marks :: "addr \<Rightarrow> addr list"
  g_resolver_set :: bool
  headers :: "addr \<Rightarrow> header"
  mark_answers :: "addr list"

fun pending_flag :: "pending \<Rightarrow> bool \<Rightarrow> bool" where
  "pending_flag PENDING_CLEAR readonly = False"
| "pending_flag PENDING_SET readonly = True"
| "pending_flag PENDING_READERS readonly = (\<not> readonly)"

definition zasync_set_pending :: "zptr \<Rightarrow> pending \<Rightarrow> mark_table \<Rightarrow> mark_table" where
  "zasync_set_pending buf p M =
    (let o1 = zlower buf in
     if o1 = 0 then M
     else M\<lparr>headers := (headers M)
              (o1 := (headers M o1)\<lparr>h_pending := pending_flag p (h_readonly (headers M o1))\<rparr>)\<rparr>)"

definition MARK_BUCKET_BITS :: nat where "MARK_BUCKET_BITS = 11"

definition mark_bucket :: "addr \<Rightarrow> nat" where
  "mark_bucket lower = hash_bits lower MARK_BUCKET_BITS"

definition mark_find :: "mark_table \<Rightarrow> addr \<Rightarrow> addr \<Rightarrow> addr option" where
  "mark_find M lower upper =
     List.find (\<lambda>m. overlaps lower upper (mk_lower (marks M m)) (mk_upper (marks M m)))
       (g_mark_buckets M (mark_bucket lower))"

definition writer_find :: "mark_table \<Rightarrow> addr \<Rightarrow> addr \<Rightarrow> addr option" where
  "writer_find M lower upper =
     List.find (\<lambda>m. overlaps lower upper (mk_lower (marks M m)) (mk_upper (marks M m)) \<and>
                    mk_write (marks M m))
       (g_mark_buckets M (mark_bucket lower))"

definition mark_find_other :: "addr list \<Rightarrow> mark_table \<Rightarrow> addr \<Rightarrow> addr \<Rightarrow> addr \<Rightarrow> addr option" where
  "mark_find_other active M lower upper t =
     List.find (\<lambda>m. overlaps lower upper (mk_lower (marks M m)) (mk_upper (marks M m)) \<and>
                    (t = 0 \<or> mk_owner (marks M m) \<noteq> t) \<and>
                    (mk_write (marks M m) \<or> mk_owner (marks M m) \<notin> set active))
       (g_mark_buckets M (mark_bucket lower))"

definition mark_owned :: "mark_table \<Rightarrow> addr \<Rightarrow> addr \<Rightarrow> addr option" where
  "mark_owned M lower t =
     List.find (\<lambda>m. mk_lower (marks M m) = lower \<and> mk_owner (marks M m) = t)
       (g_mark_buckets M (mark_bucket lower))"

definition upd_mark :: "addr \<Rightarrow> (filc_async_mark \<Rightarrow> filc_async_mark) \<Rightarrow> mark_table \<Rightarrow> mark_table" where
  "upd_mark m f M = M\<lparr>marks := (marks M)(m := f (marks M m))\<rparr>"

definition mark_make_write :: "addr \<Rightarrow> mark_table \<Rightarrow> mark_table" where
  "mark_make_write m M =
    (let k = marks M m in
     if mk_write k then M
     else let M1 = (if writer_find M (mk_lower k) (mk_upper k) = None
                    then zasync_set_pending (mk_buf k) PENDING_SET M else M)
          in upd_mark m (\<lambda>k. k\<lparr>mk_write := True\<rparr>) M1)"

definition mark_alloc :: "mark_table \<Rightarrow> (addr \<times> mark_table) outcome" where
  "mark_alloc M =
    (case g_free_marks M of
       m # rest \<Rightarrow> Inr (m, M\<lparr>g_free_marks := rest\<rparr>)
     | [] \<Rightarrow> res_bind (alloc_or_die (mark_answers M))
               (\<lambda>(m, rest). Inr (m, M\<lparr>mark_answers := rest\<rparr>)))"

definition mark_link :: "addr \<Rightarrow> zptr \<Rightarrow> addr \<Rightarrow> addr \<Rightarrow> addr \<Rightarrow> bool \<Rightarrow> mark_table \<Rightarrow> mark_table" where
  "mark_link m buf lower upper owner write M =
    (let M1 = upd_mark m (\<lambda>k. k\<lparr>mk_generation := mk_generation k + 1, mk_buf := buf,
                mk_lower := lower, mk_upper := upper, mk_owner := owner, mk_write := write\<rparr>) M;
         M2 = (if owner \<noteq> 0
               then M1\<lparr>task_marks := (task_marks M1)(owner := m # task_marks M1 owner)\<rparr>
               else M1);
         b = mark_bucket lower
     in M2\<lparr>g_mark_buckets := (g_mark_buckets M2)(b := m # g_mark_buckets M2 b)\<rparr>)"

definition mark_flagged :: "zptr \<Rightarrow> addr \<Rightarrow> addr \<Rightarrow> bool \<Rightarrow> mark_table \<Rightarrow> mark_table" where
  "mark_flagged buf lower upper write M =
    (let M1 = M\<lparr>g_resolver_set := True\<rparr> in
     if (if write then writer_find M1 lower upper = None else mark_find M1 lower upper = None)
     then zasync_set_pending buf (if write then PENDING_SET else PENDING_READERS) M1
     else M1)"

definition mark_add ::
  "zptr \<Rightarrow> addr \<Rightarrow> addr \<Rightarrow> addr \<Rightarrow> bool \<Rightarrow> mark_table \<Rightarrow> mark_table outcome" where
  "mark_add buf lower upper owner write M =
     res_bind (mark_alloc (mark_flagged buf lower upper write M))
       (\<lambda>(m, M1). if mk_generation (marks M1 m) = - 1
                  then Inl (Fatal ''pending mark generation overflow'')
                  else Inr (mark_link m buf lower upper owner write M1))"

definition mark_unlink :: "addr \<Rightarrow> mark_table \<Rightarrow> mark_table" where
  "mark_unlink m M =
    (let b = mark_bucket (mk_lower (marks M m)); t = mk_owner (marks M m);
         M1 = M\<lparr>g_mark_buckets := (g_mark_buckets M)(b := remove1 m (g_mark_buckets M b))\<rparr>
     in if t \<noteq> 0 then M1\<lparr>task_marks := (task_marks M1)(t := remove1 m (task_marks M1 t))\<rparr> else M1)"

definition mark_reflag :: "addr \<Rightarrow> mark_table \<Rightarrow> mark_table" where
  "mark_reflag m M =
    (let k = marks M m in
     if mark_find M (mk_lower k) (mk_upper k) = None
     then zasync_set_pending (mk_buf k) PENDING_CLEAR M
     else if mk_write k \<and> writer_find M (mk_lower k) (mk_upper k) = None
     then zasync_set_pending (mk_buf k) PENDING_READERS M
     else M)"

definition mark_remove :: "addr \<Rightarrow> mark_table \<Rightarrow> mark_table" where
  "mark_remove m M =
    (let M2 = mark_reflag m (mark_unlink m M);
         M3 = upd_mark m (\<lambda>k. k\<lparr>mk_buf := null_ptr, mk_owner := 0, mk_write := False\<rparr>) M2
     in M3\<lparr>g_free_marks := m # g_free_marks M3\<rparr>)"

text \<open>\<open>filc_async_complete\<close>'s loop over the marks of a task.\<close>

fun marks_remove :: "addr list \<Rightarrow> mark_table \<Rightarrow> mark_table" where
  "marks_remove [] M = M"
| "marks_remove (m # ms) M = marks_remove ms (mark_remove m M)"

section \<open>The invariant\<close>

text \<open>The live Fil-C objects: the upper bound by lower bound; they never overlap.\<close>

type_synonym objects = "addr \<rightharpoonup> addr"

definition objects_ok :: "objects \<Rightarrow> bool" where
  "objects_ok ob \<longleftrightarrow> ob 0 = None \<and> (\<forall>l u. ob l = Some u \<longrightarrow> l < u) \<and>
     (\<forall>l u l' u'. ob l = Some u \<longrightarrow> ob l' = Some u' \<longrightarrow> overlaps l u l' u' \<longrightarrow> l = l')"

definition mark_live :: "mark_table \<Rightarrow> addr \<Rightarrow> bool" where
  "mark_live M m \<longleftrightarrow> m \<in> set (g_mark_buckets M (mark_bucket (mk_lower (marks M m))))"

definition marked :: "mark_table \<Rightarrow> addr \<Rightarrow> bool" where
  "marked M lower \<longleftrightarrow> (\<exists>m. mark_live M m \<and> mk_lower (marks M m) = lower)"

definition written :: "mark_table \<Rightarrow> addr \<Rightarrow> bool" where
  "written M lower \<longleftrightarrow> (\<exists>m. mark_live M m \<and> mk_lower (marks M m) = lower \<and> mk_write (marks M m))"

definition mark_chains_ok :: "mark_table \<Rightarrow> bool" where
  "mark_chains_ok M \<longleftrightarrow>
     (\<forall>b. distinct (g_mark_buckets M b) \<and>
          (\<forall>m\<in>set (g_mark_buckets M b). mark_bucket (mk_lower (marks M m)) = b))"

definition mark_bounds_ok :: "objects \<Rightarrow> mark_table \<Rightarrow> bool" where
  "mark_bounds_ok ob M \<longleftrightarrow>
     (\<forall>m. mark_live M m \<longrightarrow> zaddr (mk_buf (marks M m)) \<noteq> 0 \<and>
          zlower (mk_buf (marks M m)) = mk_lower (marks M m) \<and>
          ob (mk_lower (marks M m)) = Some (mk_upper (marks M m)))"

definition mark_stores_ok :: "mark_table \<Rightarrow> bool" where
  "mark_stores_ok M \<longleftrightarrow>
     distinct (g_free_marks M @ mark_answers M) \<and>
     (\<forall>m. mark_live M m \<longrightarrow> m \<notin> set (g_free_marks M @ mark_answers M)) \<and>
     (\<forall>m. \<not> mark_live M m \<longrightarrow> zaddr (mk_buf (marks M m)) = 0)"

definition mark_owners_ok :: "mark_table \<Rightarrow> bool" where
  "mark_owners_ok M \<longleftrightarrow> task_marks M 0 = [] \<and>
     (\<forall>t. t \<noteq> 0 \<longrightarrow> distinct (task_marks M t) \<and>
          set (task_marks M t) = {m. mark_live M m \<and> mk_owner (marks M m) = t})"

text \<open>A task holds at most one mark on an object.\<close>

definition one_mark_each :: "mark_table \<Rightarrow> bool" where
  "one_mark_each M \<longleftrightarrow>
     (\<forall>m m'. mark_live M m \<longrightarrow> mark_live M m' \<longrightarrow> mk_owner (marks M m) \<noteq> 0 \<longrightarrow>
          mk_owner (marks M m) = mk_owner (marks M m') \<longrightarrow>
          mk_lower (marks M m) = mk_lower (marks M m') \<longrightarrow> m = m')"

text \<open>The header flag is set exactly while a call produces the object, or while a call reads
  an object the program could store into.\<close>

definition flags_ok :: "mark_table \<Rightarrow> bool" where
  "flags_ok M \<longleftrightarrow>
     (\<forall>lower. h_pending (headers M lower) =
        (written M lower \<or> marked M lower \<and> \<not> h_readonly (headers M lower)))"

definition mark_inv :: "objects \<Rightarrow> mark_table \<Rightarrow> bool" where
  "mark_inv ob M \<longleftrightarrow> objects_ok ob \<and> mark_chains_ok M \<and> mark_bounds_ok ob M \<and>
     mark_stores_ok M \<and> mark_owners_ok M \<and> one_mark_each M \<and> flags_ok M"

section \<open>Helper lemmas\<close>

lemma zasync_set_pending_simps [simp]:
  "marks (zasync_set_pending buf p M) = marks M"
  "g_mark_buckets (zasync_set_pending buf p M) = g_mark_buckets M"
  "g_free_marks (zasync_set_pending buf p M) = g_free_marks M"
  "task_marks (zasync_set_pending buf p M) = task_marks M"
  "mark_answers (zasync_set_pending buf p M) = mark_answers M"
  "h_readonly (headers (zasync_set_pending buf p M) l) = h_readonly (headers M l)"
  "l \<noteq> zlower buf \<Longrightarrow> headers (zasync_set_pending buf p M) l = headers M l"
  "zlower buf \<noteq> 0 \<Longrightarrow> h_pending (headers (zasync_set_pending buf p M) (zlower buf)) =
     pending_flag p (h_readonly (headers M (zlower buf)))"
  by (simp_all add: zasync_set_pending_def Let_def)

lemma upd_mark_simps [simp]:
  "marks (upd_mark m f M) = (marks M)(m := f (marks M m))"
  "g_mark_buckets (upd_mark m f M) = g_mark_buckets M"
  "g_free_marks (upd_mark m f M) = g_free_marks M"
  "task_marks (upd_mark m f M) = task_marks M"
  "headers (upd_mark m f M) = headers M"
  "mark_answers (upd_mark m f M) = mark_answers M"
  by (simp_all add: upd_mark_def)

lemma objects_okD:
  assumes "objects_ok ob"
  shows "ob l = Some u \<Longrightarrow> l < u" and "ob l = Some u \<Longrightarrow> l \<noteq> 0"
    and "ob l = Some u \<Longrightarrow> ob l' = Some u' \<Longrightarrow> overlaps l u l' u' = (l = l')"
proof -
  show lt: "\<And>l u. ob l = Some u \<Longrightarrow> l < u" using assms by (simp add: objects_ok_def)
  show "ob l = Some u \<Longrightarrow> l \<noteq> 0" using assms by (auto simp: objects_ok_def)
  show "ob l = Some u \<Longrightarrow> ob l' = Some u' \<Longrightarrow> overlaps l u l' u' = (l = l')"
    using assms lt [of l u] by (auto simp: objects_ok_def overlaps_def)
qed

lemma mark_liveD: "mark_chains_ok M \<Longrightarrow> m \<in> set (g_mark_buckets M b) \<Longrightarrow> mark_live M m"
  by (auto simp: mark_chains_ok_def mark_live_def)

lemma mark_chain_object:
  assumes ob: "objects_ok ob" "mark_chains_ok M" "mark_bounds_ok ob M" and u: "ob lower = Some upper"
  shows "(m \<in> set (g_mark_buckets M (mark_bucket lower)) \<and>
          overlaps lower upper (mk_lower (marks M m)) (mk_upper (marks M m))) =
         (mark_live M m \<and> mk_lower (marks M m) = lower)"
proof
  assume m: "m \<in> set (g_mark_buckets M (mark_bucket lower)) \<and>
          overlaps lower upper (mk_lower (marks M m)) (mk_upper (marks M m))"
  then have "mark_live M m" using mark_liveD [OF ob(2)] by blast
  with m ob(3) objects_okD(3) [OF ob(1) u] show "mark_live M m \<and> mk_lower (marks M m) = lower"
    by (auto simp: mark_bounds_ok_def)
next
  assume m: "mark_live M m \<and> mk_lower (marks M m) = lower"
  then have "mk_upper (marks M m) = upper" using ob(3) u by (auto simp: mark_bounds_ok_def)
  with m objects_okD(3) [OF ob(1) u u] show "m \<in> set (g_mark_buckets M (mark_bucket lower)) \<and>
          overlaps lower upper (mk_lower (marks M m)) (mk_upper (marks M m))"
    by (auto simp: mark_live_def)
qed

lemma mark_find_None:
  assumes "objects_ok ob" "mark_chains_ok M" "mark_bounds_ok ob M" "ob lower = Some upper"
  shows "(mark_find M lower upper = None) = (\<not> marked M lower)"
  using mark_chain_object [OF assms] by (auto simp: mark_find_def find_None_iff marked_def)

lemma writer_find_None:
  assumes "objects_ok ob" "mark_chains_ok M" "mark_bounds_ok ob M" "ob lower = Some upper"
  shows "(writer_find M lower upper = None) = (\<not> written M lower)"
  using mark_chain_object [OF assms] by (auto simp: writer_find_def find_None_iff written_def)

lemma mark_find_other_None:
  assumes "objects_ok ob" "mark_chains_ok M" "mark_bounds_ok ob M" "ob lower = Some upper"
  shows "(mark_find_other active M lower upper t = None) =
    (\<forall>m. mark_live M m \<and> mk_lower (marks M m) = lower \<longrightarrow>
       t \<noteq> 0 \<and> mk_owner (marks M m) = t \<or> \<not> mk_write (marks M m) \<and> mk_owner (marks M m) \<in> set active)"
  using mark_chain_object [OF assms] by (auto simp: mark_find_other_def find_None_iff)

lemma mark_find_other_Some:
  assumes "objects_ok ob" "mark_chains_ok M" "mark_bounds_ok ob M" "ob lower = Some upper"
    and "mark_find_other active M lower upper t = Some m"
  shows "mark_live M m \<and> mk_lower (marks M m) = lower \<and> (t = 0 \<or> mk_owner (marks M m) \<noteq> t) \<and>
         (mk_write (marks M m) \<or> mk_owner (marks M m) \<notin> set active)"
  using mark_chain_object [OF assms(1-4), of m] assms(5)
  by (auto simp: mark_find_other_def dest!: find_Some_mem)

lemma mark_owned_None:
  assumes "mark_chains_ok M"
  shows "(mark_owned M lower t = None) =
    (\<forall>m. mark_live M m \<and> mk_lower (marks M m) = lower \<longrightarrow> mk_owner (marks M m) \<noteq> t)"
  using mark_liveD [OF assms] by (auto simp: mark_owned_def find_None_iff mark_live_def)

lemma mark_owned_Some:
  assumes "mark_chains_ok M" and "mark_owned M lower t = Some m"
  shows "mark_live M m \<and> mk_lower (marks M m) = lower \<and> mk_owner (marks M m) = t"
  using assms mark_liveD [OF assms(1)] by (auto simp: mark_owned_def dest!: find_Some_mem)

lemma mark_invD:
  assumes "mark_inv ob M"
  shows "objects_ok ob" "mark_chains_ok M" "mark_bounds_ok ob M" "mark_stores_ok M"
    "mark_owners_ok M" "flags_ok M" "one_mark_each M"
  using assms by (simp_all add: mark_inv_def)

text \<open>Adding and removing an address on the chain of an object.\<close>

lemma mark_chain_insert:
  assumes chains: "mark_chains_ok M" and new: "\<not> mark_live M m"
    and marks': "marks M' = (marks M)(m := k)"
    and buckets': "g_mark_buckets M' = (g_mark_buckets M)
           (mark_bucket (mk_lower k) := m # g_mark_buckets M (mark_bucket (mk_lower k)))"
  shows "mark_chains_ok M'" and "mark_live M' x = (mark_live M x \<or> x = m)"
proof -
  have out: "m \<notin> set (g_mark_buckets M b)" for b
    using mark_liveD [OF chains] new by blast
  show "mark_chains_ok M'"
    using chains out unfolding mark_chains_ok_def by (auto simp: marks' buckets')
  show "mark_live M' x = (mark_live M x \<or> x = m)"
    using out new by (auto simp: mark_live_def marks' buckets')
qed

lemma mark_chain_delete:
  assumes chains: "mark_chains_ok M"
    and lower': "\<And>x. mk_lower (marks M' x) = mk_lower (marks M x)"
    and buckets': "g_mark_buckets M' = (g_mark_buckets M)
           (mark_bucket (mk_lower (marks M m)) :=
              remove1 m (g_mark_buckets M (mark_bucket (mk_lower (marks M m)))))"
  shows "mark_chains_ok M'" and "mark_live M' x = (mark_live M x \<and> x \<noteq> m)"
proof -
  have dist: "distinct (g_mark_buckets M b)" for b
    using chains by (simp add: mark_chains_ok_def)
  show "mark_chains_ok M'"
    using chains dist unfolding mark_chains_ok_def by (auto simp: lower' buckets')
  show "mark_live M' x = (mark_live M x \<and> x \<noteq> m)"
    using dist by (auto simp: mark_live_def lower' buckets')
qed

lemma mark_live_cong:
  "g_mark_buckets M' = g_mark_buckets M \<Longrightarrow> (\<And>x. mk_lower (marks M' x) = mk_lower (marks M x)) \<Longrightarrow>
   mark_live M' x = mark_live M x"
  by (simp add: mark_live_def)

lemma mark_chains_cong:
  "g_mark_buckets M' = g_mark_buckets M \<Longrightarrow> (\<And>x. mk_lower (marks M' x) = mk_lower (marks M x)) \<Longrightarrow>
   mark_chains_ok M' = mark_chains_ok M"
  by (simp add: mark_chains_ok_def)


section \<open>The operations keep the invariant\<close>

lemma mark_alloc_spec:
  assumes stores: "mark_stores_ok M" and al: "mark_alloc M = Inr (m, M')"
  shows "\<not> mark_live M m" and "marks M' = marks M" and "g_mark_buckets M' = g_mark_buckets M"
    and "task_marks M' = task_marks M" and "headers M' = headers M"
    and "distinct (m # g_free_marks M' @ mark_answers M')"
    and "set (g_free_marks M' @ mark_answers M') \<subseteq> set (g_free_marks M @ mark_answers M)"
proof -
  have "\<not> mark_live M m \<and> marks M' = marks M \<and> g_mark_buckets M' = g_mark_buckets M \<and>
    task_marks M' = task_marks M \<and> headers M' = headers M \<and>
    distinct (m # g_free_marks M' @ mark_answers M') \<and>
    set (g_free_marks M' @ mark_answers M') \<subseteq> set (g_free_marks M @ mark_answers M)"
  proof (cases "g_free_marks M")
    case Nil
    then obtain rest where "mark_answers M = m # rest" "M' = M\<lparr>mark_answers := rest\<rparr>"
      using al by (auto simp: mark_alloc_def)
    with Nil stores show ?thesis by (auto simp: mark_stores_ok_def)
  next
    case (Cons x rest)
    then have "x = m" "M' = M\<lparr>g_free_marks := rest\<rparr>" using al by (auto simp: mark_alloc_def)
    with Cons stores show ?thesis by (auto simp: mark_stores_ok_def)
  qed
  then show "\<not> mark_live M m" and "marks M' = marks M" and "g_mark_buckets M' = g_mark_buckets M"
    and "task_marks M' = task_marks M" and "headers M' = headers M"
    and "distinct (m # g_free_marks M' @ mark_answers M')"
    and "set (g_free_marks M' @ mark_answers M') \<subseteq> set (g_free_marks M @ mark_answers M)"
    by blast+
qed

lemma mark_link_simps [simp]:
  "marks (mark_link m buf lower upper owner wr M) = (marks M)
     (m := (marks M m)\<lparr>mk_generation := mk_generation (marks M m) + 1, mk_buf := buf,
             mk_lower := lower, mk_upper := upper, mk_owner := owner, mk_write := wr\<rparr>)"
  "g_mark_buckets (mark_link m buf lower upper owner wr M) = (g_mark_buckets M)
     (mark_bucket lower := m # g_mark_buckets M (mark_bucket lower))"
  "g_free_marks (mark_link m buf lower upper owner wr M) = g_free_marks M"
  "mark_answers (mark_link m buf lower upper owner wr M) = mark_answers M"
  "headers (mark_link m buf lower upper owner wr M) = headers M"
  "task_marks (mark_link m buf lower upper owner wr M) =
     (if owner \<noteq> 0 then (task_marks M)(owner := m # task_marks M owner) else task_marks M)"
  by (simp_all add: mark_link_def Let_def)

lemma mark_add_split:
  assumes "mark_add buf lower upper owner wr M = Inr M'"
  obtains m M3 where "mark_alloc (mark_flagged buf lower upper wr M) = Inr (m, M3)"
    and "mk_generation (marks M3 m) \<noteq> - 1" and "M' = mark_link m buf lower upper owner wr M3"
  using assms
  by (auto simp: mark_add_def mark_flagged_def Let_def split: prod.splits if_splits)

lemma mark_flagged_simps [simp]:
  "marks (mark_flagged buf lower upper wr M) = marks M"
  "g_mark_buckets (mark_flagged buf lower upper wr M) = g_mark_buckets M"
  "g_free_marks (mark_flagged buf lower upper wr M) = g_free_marks M"
  "task_marks (mark_flagged buf lower upper wr M) = task_marks M"
  "mark_answers (mark_flagged buf lower upper wr M) = mark_answers M"
  "h_readonly (headers (mark_flagged buf lower upper wr M) l) = h_readonly (headers M l)"
  "l \<noteq> zlower buf \<Longrightarrow> headers (mark_flagged buf lower upper wr M) l = headers M l"
  by (simp_all add: mark_flagged_def Let_def)

lemma find_resolver [simp]:
  "mark_find (M\<lparr>g_resolver_set := b\<rparr>) lower upper = mark_find M lower upper"
  "writer_find (M\<lparr>g_resolver_set := b\<rparr>) lower upper = writer_find M lower upper"
  by (simp_all add: mark_find_def writer_find_def)

lemma mark_flagged_pending:
  assumes inv: "mark_inv ob M" and buf: "zlower buf = lower" "ob lower = Some upper"
  shows "h_pending (headers (mark_flagged buf lower upper wr M) lower) =
    (written M lower \<or> wr \<or> \<not> h_readonly (headers M lower))"
proof -
  note i = mark_invD [OF inv]
  have l0: "zlower buf \<noteq> 0" using objects_okD(2) [OF i(1) buf(2)] buf(1) by simp
  have w: "written M lower \<Longrightarrow> marked M lower" by (auto simp: written_def marked_def)
  have fl: "h_pending (headers M lower) =
      (written M lower \<or> marked M lower \<and> \<not> h_readonly (headers M lower))"
    using i(6) by (simp add: flags_ok_def)
  have set': "h_pending (headers (zasync_set_pending buf p (M\<lparr>g_resolver_set := True\<rparr>)) lower) =
      pending_flag p (h_readonly (headers M lower))" for p
    using zasync_set_pending_simps(8) [OF l0, of p "M\<lparr>g_resolver_set := True\<rparr>"] by (simp add: buf(1))
  show ?thesis
    using mark_find_None [OF i(1-3) buf(2)] writer_find_None [OF i(1-3) buf(2)] fl w set'
    by (cases wr) (auto simp: mark_flagged_def Let_def)
qed

lemma mark_add_spec:
  assumes inv: "mark_inv ob M"
    and buf: "zaddr buf \<noteq> 0" "zlower buf = lower" "ob lower = Some upper"
    and one: "\<And>m. mark_live M m \<Longrightarrow> owner \<noteq> 0 \<Longrightarrow> mk_owner (marks M m) = owner \<Longrightarrow>
                mk_lower (marks M m) \<noteq> lower"
    and add: "mark_add buf lower upper owner wr M = Inr M'"
  obtains m where "\<not> mark_live M m" "mark_inv ob M'" "\<And>x. mark_live M' x = (mark_live M x \<or> x = m)"
    "\<And>x. x \<noteq> m \<Longrightarrow> marks M' x = marks M x"
    "marks M' m = \<lparr>mk_buf = buf, mk_lower = lower, mk_upper = upper,
       mk_generation = mk_generation (marks M m) + 1, mk_owner = owner, mk_write = wr\<rparr>"
    "\<And>l. h_readonly (headers M' l) = h_readonly (headers M l)"
    "mk_generation (marks M m) \<noteq> - 1"
proof -
  note i = mark_invD [OF inv]
  let ?F = "mark_flagged buf lower upper wr M"
  obtain m M3 where al: "mark_alloc ?F = Inr (m, M3)" and gen: "mk_generation (marks M3 m) \<noteq> - 1"
    and M': "M' = mark_link m buf lower upper owner wr M3"
    using add by (rule mark_add_split)
  have liveF: "mark_live ?F x = mark_live M x" for x by (rule mark_live_cong) simp_all
  have "mark_stores_ok ?F" using i(4) by (simp add: mark_stores_ok_def liveF)
  note a = mark_alloc_spec [OF this al]
  have new: "\<not> mark_live M m" using a(1) liveF by simp
  let ?k = "\<lparr>mk_buf = buf, mk_lower = lower, mk_upper = upper,
       mk_generation = mk_generation (marks M m) + 1, mk_owner = owner, mk_write = wr\<rparr>"
  have marks': "marks M' = (marks M)(m := ?k)" using a(2) by (cases "marks M m") (simp add: M')
  have "g_mark_buckets M' = (g_mark_buckets M)
      (mark_bucket (mk_lower ?k) := m # g_mark_buckets M (mark_bucket (mk_lower ?k)))"
    using a(3) by (simp add: M')
  note ch = mark_chain_insert [OF i(2) new marks' this]
  note live = ch(2)
  have bounds: "mark_bounds_ok ob M'"
    using i(3) buf by (auto simp: mark_bounds_ok_def live marks')
  have "set (g_free_marks M' @ mark_answers M') \<subseteq> set (g_free_marks M @ mark_answers M)"
    using a(7) by (simp add: M')
  moreover have "distinct (m # g_free_marks M' @ mark_answers M')" using a(6) by (simp add: M')
  ultimately have stores: "mark_stores_ok M'"
    using i(4) by (auto simp: mark_stores_ok_def live marks')
  have owners: "mark_owners_ok M'"
    unfolding mark_owners_ok_def
  proof (intro conjI allI impI)
    show "task_marks M' 0 = []" using i(5) a(4) by (simp add: M' mark_owners_ok_def)
    fix t :: addr assume t: "t \<noteq> 0"
    have old: "distinct (task_marks M t)"
      "set (task_marks M t) = {x. mark_live M x \<and> mk_owner (marks M x) = t}"
      using i(5) t by (simp_all add: mark_owners_ok_def)
    have tm: "task_marks M' t = (if owner = t then m # task_marks M t else task_marks M t)"
      using a(4) t by (auto simp: M')
    show "distinct (task_marks M' t)" using old new by (auto simp: tm)
    show "set (task_marks M' t) = {x. mark_live M' x \<and> mk_owner (marks M' x) = t}"
      unfolding live using old(2) new by (auto simp: tm marks')
  qed
  have uniq: "one_mark_each M'"
    unfolding one_mark_each_def
  proof (intro allI impI)
    fix x y assume xy: "mark_live M' x" "mark_live M' y" "mk_owner (marks M' x) \<noteq> 0"
      "mk_owner (marks M' x) = mk_owner (marks M' y)" "mk_lower (marks M' x) = mk_lower (marks M' y)"
    have m_only: "z = m" if "mark_live M' z" "mk_owner (marks M' z) = owner"
      "mk_lower (marks M' z) = lower" "owner \<noteq> 0" for z
      using that one [of z] by (cases "z = m") (simp_all add: live marks')
    show "x = y"
    proof (cases "x = m \<or> y = m")
      case True
      then have "mk_owner (marks M' x) = owner" "mk_lower (marks M' x) = lower"
        using xy(4,5) by (auto simp: marks')
      then show ?thesis using m_only [of x] m_only [of y] xy by simp
    next
      case False
      with xy i(7) show ?thesis unfolding one_mark_each_def live marks' by (metis fun_upd_other)
    qed
  qed
  have hd': "headers M' = headers ?F" using a(5) by (simp add: M')
  have "flags_ok M'"
    unfolding flags_ok_def
  proof
    fix l
    show "h_pending (headers M' l) =
        (written M' l \<or> marked M' l \<and> \<not> h_readonly (headers M' l))"
    proof (cases "l = lower")
      case True
      have "marked M' lower" "written M' lower = (written M lower \<or> wr)"
        using new by (auto simp: marked_def written_def live marks')
      with True show ?thesis
        using mark_flagged_pending [OF inv buf(2,3), of wr] by (auto simp: hd')
    next
      case False
      then have "marked M' l = marked M l" "written M' l = written M l"
        using new by (auto simp: marked_def written_def live marks')
      with False i(6) buf(2) show ?thesis by (simp add: flags_ok_def hd')
    qed
  qed
  then have "mark_inv ob M'" using i(1) ch(1) bounds stores owners uniq by (simp add: mark_inv_def)
  then show thesis
    using that [of m] new live marks' hd' gen a(2) by simp
qed


lemma mark_unlink_simps [simp]:
  "marks (mark_unlink m M) = marks M" "headers (mark_unlink m M) = headers M"
  "g_free_marks (mark_unlink m M) = g_free_marks M"
  "mark_answers (mark_unlink m M) = mark_answers M"
  "g_mark_buckets (mark_unlink m M) = (g_mark_buckets M)
     (mark_bucket (mk_lower (marks M m)) :=
        remove1 m (g_mark_buckets M (mark_bucket (mk_lower (marks M m)))))"
  "task_marks (mark_unlink m M) =
     (if mk_owner (marks M m) \<noteq> 0
      then (task_marks M)(mk_owner (marks M m) := remove1 m (task_marks M (mk_owner (marks M m))))
      else task_marks M)"
  by (simp_all add: mark_unlink_def Let_def)

lemma mark_unlink_parts:
  assumes inv: "mark_inv ob M"
  shows "mark_chains_ok (mark_unlink m M)" and "mark_bounds_ok ob (mark_unlink m M)"
    and "\<And>x. mark_live (mark_unlink m M) x = (mark_live M x \<and> x \<noteq> m)"
proof -
  note i = mark_invD [OF inv]
  note d = mark_chain_delete [OF i(2), of "mark_unlink m M" m]
  show "mark_chains_ok (mark_unlink m M)" by (rule d(1)) simp_all
  show live: "mark_live (mark_unlink m M) x = (mark_live M x \<and> x \<noteq> m)" for x
    by (rule d(2)) simp_all
  show "mark_bounds_ok ob (mark_unlink m M)"
    using i(3) by (simp add: mark_bounds_ok_def live)
qed

lemma mark_reflag_simps [simp]:
  "marks (mark_reflag m M) = marks M" "g_mark_buckets (mark_reflag m M) = g_mark_buckets M"
  "g_free_marks (mark_reflag m M) = g_free_marks M" "task_marks (mark_reflag m M) = task_marks M"
  "mark_answers (mark_reflag m M) = mark_answers M"
  "h_readonly (headers (mark_reflag m M) l) = h_readonly (headers M l)"
  "l \<noteq> zlower (mk_buf (marks M m)) \<Longrightarrow> headers (mark_reflag m M) l = headers M l"
  by (simp_all add: mark_reflag_def Let_def)

lemma mark_reflag_pending:
  assumes inv: "mark_inv ob M" and live: "mark_live M m"
  defines "U \<equiv> mark_unlink m M" and "l \<equiv> mk_lower (marks M m)"
  shows "h_pending (headers (mark_reflag m U) l) =
    (written U l \<or> marked U l \<and> \<not> h_readonly (headers M l))"
proof -
  note i = mark_invD [OF inv] and u = mark_unlink_parts [OF inv, of m]
  have ob: "ob l = Some (mk_upper (marks M m))" and zl: "zlower (mk_buf (marks M m)) = l"
    using i(3) live by (simp_all add: mark_bounds_ok_def l_def)
  have l0: "l \<noteq> 0" by (rule objects_okD(2) [OF i(1) ob])
  have set': "h_pending (headers (zasync_set_pending (mk_buf (marks M m)) p U) l) =
      pending_flag p (h_readonly (headers M l))" for p
    using zasync_set_pending_simps(8) [of "mk_buf (marks M m)" p U] l0 by (simp add: zl U_def)
  have fl: "h_pending (headers U l) = (written M l \<or> marked M l \<and> \<not> h_readonly (headers M l))"
    using i(6) by (simp add: flags_ok_def U_def)
  have mk: "marked M l" using live by (auto simp: marked_def l_def)
  have wr: "written M l = (written U l \<or> mk_write (marks M m))"
    using live u(3) by (auto simp: written_def l_def U_def)
  have wm: "written U l \<Longrightarrow> marked U l" by (auto simp: written_def marked_def)
  note f = mark_find_None [OF i(1) u(1,2) ob] writer_find_None [OF i(1) u(1,2) ob]
  show ?thesis
    using f set' fl mk wr wm unfolding U_def l_def
    by (auto simp: mark_reflag_def Let_def)
qed

lemma mark_remove_spec:
  assumes inv: "mark_inv ob M" and live: "mark_live M m"
  shows "mark_inv ob (mark_remove m M)"
    and "\<And>x. mark_live (mark_remove m M) x = (mark_live M x \<and> x \<noteq> m)"
    and "\<And>x. x \<noteq> m \<Longrightarrow> marks (mark_remove m M) x = marks M x"
    and "marks (mark_remove m M) m =
         (marks M m)\<lparr>mk_buf := null_ptr, mk_owner := 0, mk_write := False\<rparr>"
    and "\<And>l. h_readonly (headers (mark_remove m M) l) = h_readonly (headers M l)"
    and "\<And>t. task_marks (mark_remove m M) t =
         (if t = mk_owner (marks M m) then remove1 m (task_marks M t) else task_marks M t)"
proof -
  note i = mark_invD [OF inv]
  let ?U = "mark_unlink m M" and ?R = "mark_remove m M"
  note u = mark_unlink_parts [OF inv, of m]
  have marks': "marks ?R = (marks M)(m := (marks M m)\<lparr>mk_buf := null_ptr, mk_owner := 0, mk_write := False\<rparr>)"
    and buckets': "g_mark_buckets ?R = g_mark_buckets ?U"
    and hd': "headers ?R = headers (mark_reflag m ?U)"
    by (simp_all add: mark_remove_def Let_def)
  show "\<And>x. x \<noteq> m \<Longrightarrow> marks ?R x = marks M x"
    and "marks ?R m = (marks M m)\<lparr>mk_buf := null_ptr, mk_owner := 0, mk_write := False\<rparr>"
    and "\<And>l. h_readonly (headers ?R l) = h_readonly (headers M l)"
    by (simp_all add: marks' hd')
  show live': "mark_live ?R x = (mark_live M x \<and> x \<noteq> m)" for x
    using u(3) mark_live_cong [OF buckets', of x] by (simp add: marks')
  have zero: "task_marks M 0 = []" using i(5) by (simp add: mark_owners_ok_def)
  show tm: "task_marks ?R t =
      (if t = mk_owner (marks M m) then remove1 m (task_marks M t) else task_marks M t)" for t
    using zero by (simp add: mark_remove_def Let_def)
  have chains: "mark_chains_ok ?R"
    using u(1) mark_chains_cong [OF buckets'] by (simp add: marks')
  have bounds: "mark_bounds_ok ob ?R"
    using i(3) by (simp add: mark_bounds_ok_def live' marks')
  have stores: "mark_stores_ok ?R"
    using i(4) live by (auto simp: mark_stores_ok_def live' marks' null_ptr_def)
       (auto simp: mark_remove_def Let_def)
  have owners: "mark_owners_ok ?R"
    unfolding mark_owners_ok_def
  proof (intro conjI allI impI)
    show "task_marks ?R 0 = []" using zero by (simp add: tm)
    fix t :: addr assume t: "t \<noteq> 0"
    have old: "distinct (task_marks M t)"
      "set (task_marks M t) = {x. mark_live M x \<and> mk_owner (marks M x) = t}"
      using i(5) t by (simp_all add: mark_owners_ok_def)
    show "distinct (task_marks ?R t)" using old by (auto simp: tm)
    show "set (task_marks ?R t) = {x. mark_live ?R x \<and> mk_owner (marks ?R x) = t}"
    proof (cases "t = mk_owner (marks M m)")
      case True
      have "set (task_marks ?R t) = set (task_marks M t) - {m}"
        unfolding tm using True old(1) by simp
      also have "\<dots> = {x. mark_live ?R x \<and> mk_owner (marks ?R x) = t}"
        unfolding old(2) live' marks' by auto
      finally show ?thesis .
    next
      case False
      then have "set (task_marks ?R t) = {x. mark_live M x \<and> mk_owner (marks M x) = t}"
        using old(2) by (simp add: tm)
      then show ?thesis unfolding live' marks' using False t by auto
    qed
  qed
  have uniq: "one_mark_each ?R"
    using i(7) unfolding one_mark_each_def live' marks' by (metis fun_upd_other)
  have "flags_ok ?R"
    unfolding flags_ok_def
  proof
    fix l
    have same: "marked ?R l = marked ?U l" "written ?R l = written ?U l"
      by (auto simp: marked_def written_def live' u(3) marks' split: if_splits)
    show "h_pending (headers ?R l) = (written ?R l \<or> marked ?R l \<and> \<not> h_readonly (headers ?R l))"
    proof (cases "l = mk_lower (marks M m)")
      case True
      then show ?thesis using mark_reflag_pending [OF inv live] same by (simp add: hd')
    next
      case False
      then have "marked ?U l = marked M l" "written ?U l = written M l"
        by (auto simp: marked_def written_def u(3))
      moreover have "zlower (mk_buf (marks M m)) = mk_lower (marks M m)"
        using i(3) live by (simp add: mark_bounds_ok_def)
      ultimately show ?thesis using False i(6) same by (simp add: flags_ok_def hd')
    qed
  qed
  then show "mark_inv ob ?R"
    using i(1) chains bounds stores owners uniq by (simp add: mark_inv_def)
qed

lemma mark_make_write_spec:
  assumes inv: "mark_inv ob M" and live: "mark_live M m"
  shows "mark_inv ob (mark_make_write m M)"
    and "\<And>x. mark_live (mark_make_write m M) x = mark_live M x"
    and "marks (mark_make_write m M) = (marks M)(m := (marks M m)\<lparr>mk_write := True\<rparr>)"
    and "\<And>l. h_readonly (headers (mark_make_write m M) l) = h_readonly (headers M l)"
    and "task_marks (mark_make_write m M) = task_marks M"
proof -
  note i = mark_invD [OF inv]
  let ?R = "mark_make_write m M" and ?l = "mk_lower (marks M m)"
  have ob: "ob ?l = Some (mk_upper (marks M m))" and zl: "zlower (mk_buf (marks M m)) = ?l"
    using i(3) live by (simp_all add: mark_bounds_ok_def)
  have l0: "?l \<noteq> 0" by (rule objects_okD(2) [OF i(1) ob])
  show marks': "marks ?R = (marks M)(m := (marks M m)\<lparr>mk_write := True\<rparr>)"
    by (cases "mk_write (marks M m)") (auto simp: mark_make_write_def Let_def)
  have buckets': "g_mark_buckets ?R = g_mark_buckets M"
    by (simp add: mark_make_write_def Let_def)
  show live': "mark_live ?R x = mark_live M x" for x
    by (rule mark_live_cong) (simp_all add: buckets' marks')
  show ro: "\<And>l. h_readonly (headers ?R l) = h_readonly (headers M l)"
    by (simp add: mark_make_write_def Let_def)
  show tm: "task_marks ?R = task_marks M" by (simp add: mark_make_write_def Let_def)
  have own: "mk_owner (marks ?R x) = mk_owner (marks M x)" for x by (simp add: marks')
  have low: "mk_lower (marks ?R x) = mk_lower (marks M x)" for x by (simp add: marks')
  have "mark_chains_ok ?R"
    using i(2) mark_chains_cong [OF buckets'] by (simp add: marks')
  moreover have "mark_bounds_ok ob ?R"
    using i(3) by (simp add: mark_bounds_ok_def live' marks')
  moreover have "mark_stores_ok ?R"
  proof -
    have "g_free_marks ?R = g_free_marks M" "mark_answers ?R = mark_answers M"
      by (simp_all add: mark_make_write_def Let_def)
    with i(4) show ?thesis by (simp add: mark_stores_ok_def live' marks')
  qed
  moreover have "mark_owners_ok ?R"
    using i(5) by (simp add: mark_owners_ok_def live' own tm)
  moreover have "one_mark_each ?R"
    using i(7) unfolding one_mark_each_def live' own low .
  moreover have "flags_ok ?R"
    unfolding flags_ok_def
  proof
    fix l
    have mk: "marked ?R l = marked M l"
      by (simp add: marked_def live' low)
    have wr: "written ?R l = (written M l \<or> l = ?l)"
      using live by (auto simp: written_def live' marks')
    have fl: "h_pending (headers M l) =
        (written M l \<or> marked M l \<and> \<not> h_readonly (headers M l))"
      using i(6) by (simp add: flags_ok_def)
    show "h_pending (headers ?R l) = (written ?R l \<or> marked ?R l \<and> \<not> h_readonly (headers ?R l))"
    proof (cases "l = ?l")
      case True
      have "h_pending (headers ?R ?l)"
      proof (cases "mk_write (marks M m) \<or> written M ?l")
        case w: True
        then have "written M ?l" using live by (auto simp: written_def)
        with w True fl writer_find_None [OF i(1-3) ob] show ?thesis
          by (auto simp: mark_make_write_def Let_def)
      next
        case False
        with writer_find_None [OF i(1-3) ob] zasync_set_pending_simps(8) [of "mk_buf (marks M m)"] l0
        show ?thesis by (simp add: mark_make_write_def Let_def zl)
      qed
      with True wr show ?thesis by simp
    next
      case False
      then have "headers ?R l = headers M l"
        using zl by (simp add: mark_make_write_def Let_def)
      with False mk wr fl show ?thesis by simp
    qed
  qed
  ultimately show "mark_inv ob ?R" using i(1) by (simp add: mark_inv_def)
qed

lemma marks_remove_spec:
  assumes "mark_inv ob M" and "distinct ms" and "\<And>m. m \<in> set ms \<Longrightarrow> mark_live M m"
  shows "mark_inv ob (marks_remove ms M) \<and>
    (\<forall>x. mark_live (marks_remove ms M) x = (mark_live M x \<and> x \<notin> set ms)) \<and>
    (\<forall>x. x \<notin> set ms \<longrightarrow> marks (marks_remove ms M) x = marks M x) \<and>
    (\<forall>l. h_readonly (headers (marks_remove ms M) l) = h_readonly (headers M l)) \<and>
    (\<forall>x. x \<in> set ms \<longrightarrow> zaddr (mk_buf (marks (marks_remove ms M) x)) = 0)"
  using assms
proof (induction ms arbitrary: M)
  case (Cons m ms)
  note r = mark_remove_spec [OF Cons.prems(1) Cons.prems(3) [of m]]
  have "mark_inv ob (marks_remove ms (mark_remove m M)) \<and>
    (\<forall>x. mark_live (marks_remove ms (mark_remove m M)) x = (mark_live (mark_remove m M) x \<and> x \<notin> set ms)) \<and>
    (\<forall>x. x \<notin> set ms \<longrightarrow> marks (marks_remove ms (mark_remove m M)) x = marks (mark_remove m M) x) \<and>
    (\<forall>l. h_readonly (headers (marks_remove ms (mark_remove m M)) l) = h_readonly (headers (mark_remove m M) l)) \<and>
    (\<forall>x. x \<in> set ms \<longrightarrow> zaddr (mk_buf (marks (marks_remove ms (mark_remove m M)) x)) = 0)"
    using Cons.prems r(1,2) by (intro Cons.IH) auto
  with Cons.prems r show ?case by (auto simp: null_ptr_def)
qed simp

end
