(* ===== verification/Framework.thy ===== *)
theory Framework
  imports Tasks Locks Marks
begin

text \<open>
  The state \<open>g_lock\<close> guards in \<open>filc_async.c\<close> and the entry points that run as one atomic
  section under it: starting and completing a task, the marks a call or a runtime adds
  and resolves, and \<open>filc_async_wait_all\<close>. The entry points that wait, and so release
  \<open>g_lock\<close>, are in \<open>Waits\<close>.
\<close>

record join_entry =
  je_mark :: addr
  je_generation :: u64

text \<open>
  \<open>joins\<close> are the entries of the \<open>struct join_state\<close> objects by address; \<open>heap\<close> is the
  collector's live objects, \<open>gc_answers\<close> what \<open>zgc_aligned_alloc\<close> will answer, and \<open>arena\<close>
  the addresses of the allocator, which never frees, so the collector never answers them.
\<close>

record fw =
  tk :: task_table
  lk :: lock_table
  mk :: mark_table
  joins :: "addr \<Rightarrow> join_entry list"
  g_pending_resolves :: u64
  g_lock_waits :: u64
  g_hook_resolves :: u64
  heap :: objects
  gc_answers :: "zptr list"
  arena :: "addr set"

definition task_state :: "fw \<Rightarrow> addr \<Rightarrow> 8 word" where
  "task_state s t = t_state (tasks (tk s) t)"

text \<open>A task struct comes zeroed from the allocator, its chains of marks and holds too.\<close>

definition task_begin ::
  "runtime_ref \<Rightarrow> filc_async_meta option \<Rightarrow> addr \<Rightarrow> fw \<Rightarrow> (addr \<times> fw) outcome" where
  "task_begin rt meta staged_args s =
     res_bind (task_start rt meta staged_args (tk s))
       (\<lambda>(t, T). Inr (t, s\<lparr>tk := T,
            mk := (mk s)\<lparr>task_marks := (task_marks (mk s))(t := [])\<rparr>,
            lk := (lk s)\<lparr>task_holds := (task_holds (lk s))(t := [])\<rparr>\<rparr>))"

definition filc_async_begin :: "filc_async_meta option \<Rightarrow> addr \<Rightarrow> fw \<Rightarrow> (addr \<times> fw) outcome" where
  "filc_async_begin meta staged_args s =
    (case meta of
       None \<Rightarrow> Inl (Fatal ''filc_async_begin: no descriptor'')
     | Some m \<Rightarrow> task_begin (m_runtime m) (Some m) staged_args s)"

definition filc_async_task_new :: "runtime_ref \<Rightarrow> fw \<Rightarrow> (addr \<times> fw) outcome" where
  "filc_async_task_new rt s = task_begin rt None 0 s"

definition filc_async_complete :: "addr \<Rightarrow> u64 \<Rightarrow> fw \<Rightarrow> fw outcome" where
  "filc_async_complete t result s =
    (if t = 0 then Inr s
     else if task_state s t \<noteq> 1 then Inr s
     else
       let s1 = s\<lparr>tk := task_finish t result (tk s)\<rparr>;
           s2 = s1\<lparr>mk := marks_remove (task_marks (mk s1) t) (mk s1)\<rparr>
       in res_bind (locks_release t (lk s2))
            (\<lambda>L. let s3 = s2\<lparr>lk := L\<rparr>
                 in Inr (s3\<lparr>tk := task_drop_args t (running_remove t (tk s3))\<rparr>)))"

section \<open>Marks\<close>

text \<open>How \<open>filc_async_mark_pending\<close>, once nobody else owns the object, and
  \<open>filc_async_mark_shared\<close> make the object pending for \<open>t\<close>.\<close>

definition mark_own :: "addr \<Rightarrow> zptr \<Rightarrow> fw \<Rightarrow> fw outcome" where
  "mark_own t buf s =
    (case (if t \<noteq> 0 then mark_owned (mk s) (zlower buf) t else None) of
       Some own \<Rightarrow> Inr (s\<lparr>mk := mark_make_write own (mk s)\<rparr>)
     | None \<Rightarrow> res_bind (mark_add buf (zlower buf) (zupper buf) t True (mk s))
                 (\<lambda>M. Inr (s\<lparr>mk := M\<rparr>)))"

definition filc_async_mark_shared :: "addr \<Rightarrow> zptr \<Rightarrow> fw \<Rightarrow> fw outcome" where
  "filc_async_mark_shared t buf s =
    (if zaddr buf = 0 \<or> t = 0 then Inr s else mark_own t buf s)"

definition filc_async_mark_input :: "addr \<Rightarrow> zptr \<Rightarrow> fw \<Rightarrow> fw outcome" where
  "filc_async_mark_input t buf s =
    (if zaddr buf = 0 \<or> t = 0 then Inr s
     else if mark_owned (mk s) (zlower buf) t \<noteq> None then Inr s
     else res_bind (mark_add buf (zlower buf) (zupper buf) t False (mk s))
            (\<lambda>M. Inr (s\<lparr>mk := M\<rparr>)))"

definition remove_first :: "(filc_async_mark \<Rightarrow> bool) \<Rightarrow> addr \<Rightarrow> mark_table \<Rightarrow> mark_table" where
  "remove_first P lower M =
    (case List.find (\<lambda>m. mk_lower (marks M m) = lower \<and> P (marks M m))
            (g_mark_buckets M (mark_bucket lower)) of
       None \<Rightarrow> M
     | Some m \<Rightarrow> mark_remove m M)"

definition filc_async_mark_resolved :: "zptr \<Rightarrow> fw \<Rightarrow> fw" where
  "filc_async_mark_resolved buf s =
    (if zaddr buf = 0 then s
     else s\<lparr>mk := remove_first mk_write (zlower buf) (mk s)\<rparr>)"

definition filc_async_resolve_buffer :: "addr \<Rightarrow> zptr \<Rightarrow> fw \<Rightarrow> fw" where
  "filc_async_resolve_buffer t buf s =
    (if zaddr buf = 0 then s
     else s\<lparr>mk := remove_first (\<lambda>k. mk_owner k = t) (zlower buf) (mk s)\<rparr>)"

definition filc_async_is_pending :: "zptr \<Rightarrow> fw \<Rightarrow> bool" where
  "filc_async_is_pending buf s =
    (zaddr buf \<noteq> 0 \<and> writer_find (mk s) (zlower buf) (zupper buf) \<noteq> None)"

section \<open>Joining\<close>

definition join_entry_pending :: "fw \<Rightarrow> join_entry \<Rightarrow> bool" where
  "join_entry_pending s e \<longleftrightarrow>
     zaddr (mk_buf (marks (mk s) (je_mark e))) \<noteq> 0 \<and>
     mk_generation (marks (mk s) (je_mark e)) = je_generation e"

definition gc_alloc :: "fw \<Rightarrow> zptr \<times> fw" where
  "gc_alloc s =
    (case gc_answers s of
       [] \<Rightarrow> (null_ptr, s)
     | p # rest \<Rightarrow>
         (p, if zaddr p = 0 then s\<lparr>gc_answers := rest\<rparr>
             else s\<lparr>gc_answers := rest, heap := (heap s)(zlower p \<mapsto> zupper p)\<rparr>))"

definition gc_alloc_or_die :: "fw \<Rightarrow> (zptr \<times> fw) outcome" where
  "gc_alloc_or_die s =
    (let (p, s1) = gc_alloc s in
     if zaddr p = 0 then Inl (Fatal ''out of memory'') else Inr (p, s1))"

definition prov_alloc :: "fw \<Rightarrow> zptr \<times> fw" where
  "prov_alloc s = gc_alloc s"

text \<open>The write marks on the object of one input.\<close>

definition input_marks :: "mark_table \<Rightarrow> zptr \<Rightarrow> addr list" where
  "input_marks M p =
    (if zaddr p = 0 then []
     else filter (\<lambda>m. mk_lower (marks M m) = zlower p \<and> mk_write (marks M m))
            (g_mark_buckets M (mark_bucket (zlower p))))"

text \<open>The sizes of the C structs, from their fields: a pointer is 8 bytes in Fil-C C source (its
  capability is kept elsewhere), an entry is a pointer and a generation, and a join before its
  entries is the count.\<close>

definition SIZE_MAX :: nat where "SIZE_MAX = 2 ^ 64 - 1"
definition sizeof_pointer :: nat where "sizeof_pointer = 8"
definition sizeof_join_entry :: nat where "sizeof_join_entry = sizeof_pointer + 8"
definition sizeof_join_state :: nat where "sizeof_join_state = 8"

definition MAX_JOIN_ENTRIES :: nat where
  "MAX_JOIN_ENTRIES = (SIZE_MAX - sizeof_join_state) div sizeof_join_entry"

fun join_collect :: "mark_table \<Rightarrow> addr list \<Rightarrow> join_entry list \<Rightarrow> join_entry list" where
  "join_collect M [] es = es"
| "join_collect M (m # ms) es =
    (if \<exists>e\<in>set es. je_mark e = m then join_collect M ms es
     else join_collect M ms (es @ [\<lparr>je_mark = m, je_generation = mk_generation (marks M m)\<rparr>]))"

definition join_task :: "addr \<Rightarrow> filc_async_task" where
  "join_task data = task_zero\<lparr>t_runtime := Join_Runtime, t_runtime_data := data, t_state := 1\<rparr>"

text \<open>The part of \<open>filc_async_wait_all\<close> after the snapshot has entries: the join's storage,
  its task, the mark on the token, and the running list.\<close>

definition join_publish :: "zptr \<Rightarrow> addr list \<Rightarrow> fw \<Rightarrow> fw outcome" where
  "join_publish token ms s =
     res_bind (gc_alloc_or_die s) (\<lambda>(js, s1).
     res_bind (gc_alloc_or_die (s1\<lparr>joins := (joins s1)(zaddr js := join_collect (mk s1) ms [])\<rparr>))
       (\<lambda>(tp, s2).
        let t = zaddr tp;
            s3 = s2\<lparr>tk := upd_task t (\<lambda>_. join_task (zaddr js)) (tk s2),
                    mk := (mk s2)\<lparr>task_marks := (task_marks (mk s2))(t := [])\<rparr>,
                    lk := (lk s2)\<lparr>task_holds := (task_holds (lk s2))(t := [])\<rparr>\<rparr>
        in res_bind (mark_add token (zlower token) (zupper token) t True (mk s3))
             (\<lambda>M. Inr (s3\<lparr>mk := M, tk := running_add t (tk s3)\<rparr>))))"

definition filc_async_wait_all :: "zptr list option \<Rightarrow> u64 \<Rightarrow> fw \<Rightarrow> (zptr \<times> fw) outcome" where
  "filc_async_wait_all buffers n s =
    (if buffers = None \<and> n \<noteq> 0 \<or> SIZE_MAX div sizeof_pointer < unat n
     then Inl (Fatal ''wait_all: invalid input array'')
     else
       let snapshot = take (unat n) (the buffers) in
       res_bind (if n \<noteq> 0 then map_sum id snd (gc_alloc_or_die s) else Inr s)
         (\<lambda>s0. let (token, s1) = prov_alloc s0 in
            if zaddr token = 0 then Inl (Fatal ''out of memory'')
            else
              let ms = concat (map (input_marks (mk s1)) snapshot) in
              if MAX_JOIN_ENTRIES < length ms
              then Inl (Fatal ''wait_all: too many pending marks'')
              else if ms = [] then Inr (token, s1)
              else res_bind (join_publish token ms s1) (\<lambda>s2. Inr (token, s2))))"

end
