(* ===== verification/LockRuns.thy ===== *)
theory LockRuns
  imports Locks
begin

text \<open>
  What the dependency locks promise: the table seen as a readers-writer service (who
  holds which key in which mode) with the locale \<open>lock_service\<close> its users rely on, the
  runs of the table as sequences of atomic sections, and the properties of every run:
  exclusion, order of service, counts that never drift, no lost wake-up.
\<close>

section \<open>The lock table as a readers-writer service\<close>

text \<open>
  The contract: who holds which key in which mode, as a multiset per key. The detailed
  table implements it.
\<close>

definition key_lock :: "lock_table \<Rightarrow> u64 \<times> u32 \<Rightarrow> addr option" where
  "key_lock L = (\<lambda>(value, space).
     List.find (\<lambda>l. lk_value (locks L l) = value \<and> lk_space (locks L l) = space)
       (g_lock_buckets L (lock_bucket value space)))"

definition lock_view :: "lock_table \<Rightarrow> u64 \<times> u32 \<Rightarrow> (addr \<times> bool) multiset" where
  "lock_view L k =
    (case key_lock L k of
       None \<Rightarrow> {#}
     | Some l \<Rightarrow> image_mset (\<lambda>h. (hd_task (holds L h), hd_write (holds L h)))
                  (mset (lk_holders (locks L l))))"

definition hold_key :: "lock_table \<Rightarrow> addr \<Rightarrow> u64 \<times> u32" where
  "hold_key L h = (lk_value (locks L (hd_lock (holds L h))), lk_space (locks L (hd_lock (holds L h))))"

lemma key_lock_Some:
  assumes "chains_ok L"
  shows "(key_lock L (v, sp) = Some l) =
         (lock_live L l \<and> lk_value (locks L l) = v \<and> lk_space (locks L l) = sp)"
proof
  assume "key_lock L (v, sp) = Some l"
  then show "lock_live L l \<and> lk_value (locks L l) = v \<and> lk_space (locks L l) = sp"
    by (auto simp: key_lock_def lock_live_def dest!: find_Some_mem)
next
  assume l: "lock_live L l \<and> lk_value (locks L l) = v \<and> lk_space (locks L l) = sp"
  then obtain l' where l': "key_lock L (v, sp) = Some l'"
    by (cases "key_lock L (v, sp)") (auto simp: key_lock_def lock_live_def find_None_iff)
  then have "lock_live L l' \<and> lk_value (locks L l') = v \<and> lk_space (locks L l') = sp"
    by (auto simp: key_lock_def lock_live_def dest!: find_Some_mem)
  with l assms have "l' = l" unfolding chains_ok_def by metis
  with l' show "key_lock L (v, sp) = Some l" by simp
qed

lemma held_key_lock:
  assumes "lock_core L" and "held L h"
  shows "key_lock L (hold_key L h) = Some (hd_lock (holds L h))"
  unfolding hold_key_def
  using assms key_lock_Some [OF lock_coreD(1)] by (auto simp: held_def)

lemma lock_view_count:
  assumes inv: "lock_inv L"
  shows "lock_view L k = image_mset (\<lambda>h. (hd_task (holds L h), hd_write (holds L h)))
           (mset_set {h. held L h \<and> hold_key L h = k})"
proof -
  have core: "lock_core L" by (rule lock_invD(1) [OF inv])
  obtain v sp where k: "k = (v, sp)" by fastforce
  show ?thesis
  proof (cases "key_lock L k")
    case None
    then have none: "{h. held L h \<and> hold_key L h = k} = {}"
      using held_key_lock [OF core] by auto
    show ?thesis unfolding none using None by (simp add: lock_view_def)
  next
    case (Some l)
    then have l: "lock_live L l" "lk_value (locks L l) = v" "lk_space (locks L l) = sp"
      using key_lock_Some [OF lock_coreD(1) [OF core], of v sp] by (auto simp: k)
    note ok = lock_okD [OF lock_coreD(4) [OF core l(1)]]
    have "{h. held L h \<and> hold_key L h = k} = set (lk_holders (locks L l))" (is "?A = ?B")
    proof
      show "?B \<subseteq> ?A" using ok(2) l by (auto simp: held_def hold_key_def k)
      show "?A \<subseteq> ?B"
      proof
        fix h assume h: "h \<in> ?A"
        then have "key_lock L k = Some (hd_lock (holds L h))"
          using held_key_lock [OF core] by auto
        with Some h show "h \<in> ?B" by (auto simp: held_def)
      qed
    qed
    moreover have "mset_set (set (lk_holders (locks L l))) = mset (lk_holders (locks L l))"
      using ok(1) by (simp add: mset_set_set)
    ultimately show ?thesis using Some by (simp add: lock_view_def)
  qed
qed


lemma release_hold_keys:
  "release_hold h L = Inr L' \<Longrightarrow>
   lk_value (locks L' l) = lk_value (locks L l) \<and> lk_space (locks L' l) = lk_space (locks L l)"
  by (auto simp: release_hold_def Let_def split: if_splits)

lemma locks_release_keys:
  assumes "locks_release t L = Inr L'"
  shows "lk_value (locks L' l) = lk_value (locks L l)"
    and "lk_space (locks L' l) = lk_space (locks L l)"
proof -
  have "release_holds hs L = Inr L1 \<Longrightarrow>
    lk_value (locks L1 l) = lk_value (locks L l) \<and> lk_space (locks L1 l) = lk_space (locks L l)"
    for hs L L1
    by (induction hs arbitrary: L) (auto dest: release_hold_keys [of _ _ _ l])
  with assms show "lk_value (locks L' l) = lk_value (locks L l)"
    and "lk_space (locks L' l) = lk_space (locks L l)"
    by (auto simp: locks_release_def)
qed

lemma finite_held: 
  assumes "lock_inv L" shows "finite {h. held L h \<and> hold_key L h = k}"
proof -
  have core: "lock_core L" by (rule lock_invD(1) [OF assms])
  have "{h. held L h \<and> hold_key L h = k} \<subseteq>
        (case key_lock L k of None \<Rightarrow> {} | Some l \<Rightarrow> set (lk_holders (locks L l)))"
    using held_key_lock [OF core] by (auto simp: held_def)
  then show ?thesis by (rule finite_subset) (simp split: option.splits)
qed

lemma lock_view_release:
  assumes inv: "lock_inv L" and rel: "locks_release t L = Inr L'"
  shows "lock_view L' k = filter_mset (\<lambda>(u, w). u \<noteq> t) (lock_view L k)"
proof -
  obtain L2 where L2: "locks_release t L = Inr L2" "lock_inv L2" "holds L2 = holds L"
    "\<And>x. held L2 x = (held L x \<and> hd_task (holds L x) \<noteq> t)" "\<And>x. waiting L2 x = waiting L x"
    using locks_release_spec [OF inv, of t] by metis
  then have L': "L2 = L'" using rel by simp
  have "{h. held L' h \<and> hold_key L' h = k} =
        {h \<in> {h. held L h \<and> hold_key L h = k}. hd_task (holds L h) \<noteq> t}"
    using L2(3,4) locks_release_keys [OF rel] by (auto simp: L' hold_key_def)
  then show ?thesis
    using L2(2,3) finite_held [OF inv]
    by (simp add: lock_view_count [OF inv] lock_view_count [of L'] L' filter_mset_image_mset
        filter_mset_mset_set split_beta)
qed

lemma lock_view_compat:
  assumes inv: "lock_inv L" and t: "(t, True) \<in># lock_view L k" and u: "(u, w) \<in># lock_view L k"
  shows "u = t"
proof -
  have core: "lock_core L" by (rule lock_invD(1) [OF inv])
  obtain v sp where k: "k = (v, sp)" by fastforce
  obtain l where l: "key_lock L k = Some l"
    using t by (cases "key_lock L k") (auto simp: lock_view_def)
  then have "lock_live L l" using key_lock_Some [OF lock_coreD(1) [OF core]] by (auto simp: k)
  then have "exclusive L l" using lock_okD(7) lock_coreD(4) [OF core] by blast
  with t u l show ?thesis unfolding exclusive_def by (auto simp: lock_view_def)
qed

locale lock_service =
  fixes inv :: "'s \<Rightarrow> bool"
    and view :: "'s \<Rightarrow> 'k \<Rightarrow> (addr \<times> bool) multiset"
    and release :: "addr \<Rightarrow> 's \<Rightarrow> 's outcome"
  assumes view_compat: "inv s \<Longrightarrow> (t, True) \<in># view s k \<Longrightarrow> (u, w) \<in># view s k \<Longrightarrow> u = t"
    and release_total: "inv s \<Longrightarrow> \<exists>s'. release t s = Inr s' \<and> inv s'"
    and release_view: "inv s \<Longrightarrow> release t s = Inr s' \<Longrightarrow>
          view s' k = filter_mset (\<lambda>(u, w). u \<noteq> t) (view s k)"
begin

lemma shared_means_readers:
  "inv s \<Longrightarrow> (t, w) \<in># view s k \<Longrightarrow> (u, w') \<in># view s k \<Longrightarrow> t \<noteq> u \<Longrightarrow> \<not> w \<and> \<not> w'"
  using view_compat by metis

lemma release_of_writer_frees:
  assumes "inv s" and "(t, True) \<in># view s k" and "release t s = Inr s'"
  shows "view s' k = {#}"
proof -
  have "x \<notin># view s' k" for x
    using release_view [OF assms(1,3), of k] view_compat [OF assms(1,2), of "fst x" "snd x"] by auto
  then show ?thesis by (simp add: multiset_eq_iff not_in_iff)
qed

lemma release_leaves_nothing:
  assumes "inv s" and "release t s = Inr s'"
  shows "(t, w) \<notin># view s' k"
  using release_view [OF assms, of k] by auto

end

interpretation dep_locks: lock_service lock_inv lock_view locks_release
proof
  show "\<And>s t. lock_inv s \<Longrightarrow> \<exists>s'. locks_release t s = Inr s' \<and> lock_inv s'"
    using locks_release_spec by metis
qed (rule lock_view_compat lock_view_release; assumption)+

section \<open>Runs of the lock table\<close>

text \<open>
  The atomic sections any thread may run on the table: queue a request, become a holder
  once nothing blocks the request, release a completed task's locks.
\<close>

definition lock_table_init :: "addr list \<Rightarrow> addr list \<Rightarrow> lock_table" where
  "lock_table_init las has =
     \<lparr>locks = (\<lambda>_. lock_new 0 0), holds = (\<lambda>_. \<lparr>hd_task = 0, hd_lock = 0, hd_write = False\<rparr>),
      g_lock_buckets = (\<lambda>_. []), g_free_locks = [], task_holds = (\<lambda>_. []),
      lock_answers = las, hold_answers = has\<rparr>"

inductive lock_step :: "lock_table \<Rightarrow> lock_table \<Rightarrow> bool" where
  enqueue: "lock_enqueue t v sp wr L = Inr (h, L') \<Longrightarrow> lock_step L L'"
| grant: "waiting L h \<Longrightarrow> \<not> lock_blocked L h \<Longrightarrow> lock_step L (lock_grant h L)"
| release: "locks_release t L = Inr L' \<Longrightarrow> lock_step L L'"

inductive lock_reach :: "lock_table \<Rightarrow> bool" where
  init: "distinct las \<Longrightarrow> distinct has \<Longrightarrow> length has < count_range \<Longrightarrow>
         lock_reach (lock_table_init las has)"
| step: "lock_reach L \<Longrightarrow> lock_step L L' \<Longrightarrow> lock_reach L'"

lemma lock_inv_init:
  assumes "distinct las" "distinct has" "length has < count_range"
  shows "lock_inv (lock_table_init las has)"
proof -
  have "\<not> lock_live (lock_table_init las has) l" for l
    by (simp add: lock_live_def lock_table_init_def)
  with assms show ?thesis
    by (simp add: lock_inv_def lock_core_def chains_ok_def stores_ok_def held_def)
       (simp add: lock_table_init_def)
qed

lemma lock_step_inv:
  assumes "lock_step L L'" and "lock_inv L"
  shows "lock_inv L'"
  using assms
proof cases
  case (enqueue t v sp wr h)
  with assms(2) show ?thesis using lock_inv_enqueue by metis
next
  case (grant h)
  then show ?thesis using lock_inv_grant [OF assms(2)] by (simp add: lock_blocked_def)
next
  case (release t)
  then show ?thesis using dep_locks.release_total [OF assms(2), of t] by auto
qed

lemma lock_reach_inv: "lock_reach L \<Longrightarrow> lock_inv L"
  by (induction rule: lock_reach.induct) (auto intro: lock_inv_init lock_step_inv)

text \<open>Two requests of one lock, \<open>w\<close> queued before \<open>h\<close>, that cannot hold it together.\<close>

definition queued_before :: "lock_table \<Rightarrow> addr \<Rightarrow> addr \<Rightarrow> bool" where
  "queued_before L w h \<longleftrightarrow>
     waiting L w \<and> waiting L h \<and> hd_lock (holds L w) = hd_lock (holds L h) \<and>
     hd_task (holds L w) \<noteq> hd_task (holds L h) \<and> (hd_write (holds L w) \<or> hd_write (holds L h)) \<and>
     w \<in> set (takeWhile (\<lambda>x. x \<noteq> h) (lk_waiters (locks L (hd_lock (holds L h)))))"

lemma queued_before_blocked: "queued_before L w h \<Longrightarrow> lock_blocked L h"
  by (auto simp: queued_before_def lock_blocked_def queued_behind_def list_ex_iff)

lemma takeWhile_append_in: "h \<in> set xs \<Longrightarrow> takeWhile (\<lambda>x. x \<noteq> h) (xs @ ys) = takeWhile (\<lambda>x. x \<noteq> h) xs"
  by (induction xs) auto

lemma takeWhile_remove1:
  "w \<noteq> y \<Longrightarrow> h \<noteq> y \<Longrightarrow> w \<in> set (takeWhile (\<lambda>x. x \<noteq> h) xs) \<Longrightarrow>
   w \<in> set (takeWhile (\<lambda>x. x \<noteq> h) (remove1 y xs))"
  by (induction xs) (auto split: if_splits)

lemma waiting_not_answer: "lock_core L \<Longrightarrow> waiting L h \<Longrightarrow> h \<notin> set (hold_answers L)"
  using lock_coreD(2) by (fastforce simp: waiting_def stores_ok_def)

lemma lock_enqueue_waiters:
  assumes core: "lock_core L" and enq: "lock_enqueue t v sp wr L = Inr (h, L')"
  shows "hold_answers L = h # hold_answers L'"
    and "lock_live L m \<Longrightarrow> lock_live L' m"
    and "lock_live L m \<Longrightarrow> lk_waiters (locks L' m) = lk_waiters (locks L m) \<or>
           lk_waiters (locks L' m) = lk_waiters (locks L m) @ [h]"
    and "\<not> lock_live L m \<Longrightarrow> lock_live L' m \<Longrightarrow> lk_waiters (locks L' m) = [h]"
proof -
  obtain l L1 rest where get: "lock_get v sp L = Inr (l, L1)" and ans: "hold_answers L1 = h # rest"
    and L': "L' = upd_lock l (\<lambda>k. k\<lparr>lk_waiters := lk_waiters k @ [h]\<rparr>)
           (L1\<lparr>hold_answers := rest,
               holds := (holds L1)(h := \<lparr>hd_task = t, hd_lock = l, hd_write = wr\<rparr>)\<rparr>)"
    using enq by (rule lock_enqueue_split)
  note g = lock_get_spec [OF core get]
  have live: "lock_live L' x = lock_live L1 x" for x
    by (rule lock_live_cong) (simp_all add: L')
  show "hold_answers L = h # hold_answers L'" using g(7) ans by (simp add: L')
  show "lock_live L m \<Longrightarrow> lock_live L' m" by (simp add: live g(2))
  show "lock_live L m \<Longrightarrow> lk_waiters (locks L' m) = lk_waiters (locks L m) \<or>
           lk_waiters (locks L' m) = lk_waiters (locks L m) @ [h]"
    using g(3) [of m] g(9) by (cases "m = l") (auto simp: L')
  show "\<not> lock_live L m \<Longrightarrow> lock_live L' m \<Longrightarrow> lk_waiters (locks L' m) = [h]"
    using g(2,9) live by (auto simp: L' lock_new_def)
qed

lemma lock_enqueue_waiting:
  assumes core: "lock_core L" and enq: "lock_enqueue t v sp wr L = Inr (h, L')" and x: "x \<noteq> h"
  shows "waiting L' x = waiting L x"
  using lock_enqueue_waiters(2-4) [OF core enq, of "hd_lock (holds L x)"] x
    lock_enqueue_spec(7) [OF core enq x]
  by (cases "lock_live L (hd_lock (holds L x))") (auto simp: waiting_def)

lemma lock_grant_waiting:
  assumes core: "lock_core L" and wait: "waiting L h"
  shows "waiting (lock_grant h L) x = (waiting L x \<and> x \<noteq> h)"
proof (cases "hd_lock (holds L x) = hd_lock (holds L h)")
  case True
  have "distinct (lk_waiters (locks L (hd_lock (holds L h))))"
    using wait lock_okD(1) [OF lock_coreD(4) [OF core]] by (simp add: waiting_def)
  with True wait show ?thesis by (auto simp: waiting_def lock_grant_lock)
qed (auto simp: waiting_def)

lemma locks_release_frame:
  assumes "locks_release t L = Inr L'"
  shows "lk_waiters (locks L' l) = lk_waiters (locks L l)" and "hold_answers L' = hold_answers L"
proof -
  have "release_hold h L = Inr L1 \<Longrightarrow>
    lk_waiters (locks L1 l) = lk_waiters (locks L l) \<and> hold_answers L1 = hold_answers L" for h L L1
    by (auto simp: release_hold_def Let_def split: if_splits)
  then have "release_holds hs L = Inr L1 \<Longrightarrow>
    lk_waiters (locks L1 l) = lk_waiters (locks L l) \<and> hold_answers L1 = hold_answers L" for hs L L1
    by (induction hs arbitrary: L) auto
  with assms show "lk_waiters (locks L' l) = lk_waiters (locks L l)"
    and "hold_answers L' = hold_answers L"
    by (auto simp: locks_release_def)
qed

lemma lock_step_queue:
  assumes step: "lock_step L L'" and inv: "lock_inv L" and w: "w \<notin> set (hold_answers L)"
    and h: "h \<notin> set (hold_answers L)"
  shows "w \<notin> set (hold_answers L')" and "h \<notin> set (hold_answers L')"
    and "\<not> waiting L w \<Longrightarrow> \<not> waiting L' w"
    and "queued_before L w h \<Longrightarrow> queued_before L' w h \<or> \<not> waiting L' w"
    and "queued_before L w h \<Longrightarrow> \<not> held L' h"
proof -
  have core: "lock_core L" by (rule lock_invD(1) [OF inv])
  have nheld: "queued_before L w h \<Longrightarrow> \<not> held L h"
    using lock_okD(1) [OF lock_coreD(4) [OF core]] by (auto simp: queued_before_def waiting_def held_def)
  have "w \<notin> set (hold_answers L') \<and> h \<notin> set (hold_answers L') \<and>
    (\<not> waiting L w \<longrightarrow> \<not> waiting L' w) \<and>
    (queued_before L w h \<longrightarrow> (queued_before L' w h \<or> \<not> waiting L' w) \<and> \<not> held L' h)"
    using step
  proof cases
    case (enqueue t v sp wr x)
    note e = lock_enqueue_waiters [OF core enqueue] and s = lock_enqueue_spec [OF core enqueue]
    have ne: "w \<noteq> x" "h \<noteq> x" using e(1) w h by auto
    note wt = lock_enqueue_waiting [OF core enqueue ne(1)] lock_enqueue_waiting [OF core enqueue ne(2)]
    have "queued_before L' w h" if q: "queued_before L w h"
    proof -
      let ?ws = "lk_waiters (locks L (hd_lock (holds L h)))"
      have hin: "h \<in> set ?ws" and live: "lock_live L (hd_lock (holds L h))"
        using q by (auto simp: queued_before_def waiting_def)
      have "takeWhile (\<lambda>y. y \<noteq> h) (lk_waiters (locks L' (hd_lock (holds L h)))) =
            takeWhile (\<lambda>y. y \<noteq> h) ?ws"
        using e(3) [OF live] takeWhile_append_in [OF hin] by metis
      with q wt ne s(7) show ?thesis by (simp add: queued_before_def)
    qed
    with e(1) w h wt nheld s(8) show ?thesis by auto
  next
    case (grant x)
    note wt = lock_grant_waiting [OF core grant(2)]
    have "queued_before L' w h \<or> \<not> waiting L' w" and "x \<noteq> h" if q: "queued_before L w h"
    proof -
      show xh: "x \<noteq> h" using grant(3) queued_before_blocked [OF q] by auto
      show "queued_before L' w h \<or> \<not> waiting L' w"
      proof (cases "x = w")
        case False
        have "w \<in> set (takeWhile (\<lambda>y. y \<noteq> h) (lk_waiters (locks L' (hd_lock (holds L h)))))"
        proof (cases "hd_lock (holds L x) = hd_lock (holds L h)")
          case True
          then have "lk_waiters (locks L' (hd_lock (holds L h))) =
              remove1 x (lk_waiters (locks L (hd_lock (holds L h))))"
            using lock_grant_lock [of x L] by (simp add: grant(1))
          with q False xh show ?thesis by (simp add: queued_before_def takeWhile_remove1)
        qed (use q in \<open>simp add: grant(1) queued_before_def\<close>)
        with q False xh wt show ?thesis by (simp add: grant(1) queued_before_def)
      qed (use wt in \<open>simp add: grant(1)\<close>)
    qed
    then show ?thesis
      using w h wt nheld lock_grant_held [OF grant(2), of h] by (auto simp: grant(1))
  next
    case (release t)
    obtain L2 where L2: "locks_release t L = Inr L2" "holds L2 = holds L"
      "\<And>x. held L2 x = (held L x \<and> hd_task (holds L x) \<noteq> t)" "\<And>x. waiting L2 x = waiting L x"
      using locks_release_spec [OF inv, of t] by metis
    then have "L2 = L'" using release by simp
    with L2 locks_release_frame [OF release] w h nheld show ?thesis
      by (simp add: queued_before_def)
  qed
  then show "w \<notin> set (hold_answers L')" and "h \<notin> set (hold_answers L')"
    and "\<not> waiting L w \<Longrightarrow> \<not> waiting L' w"
    and "queued_before L w h \<Longrightarrow> queued_before L' w h \<or> \<not> waiting L' w"
    and "queued_before L w h \<Longrightarrow> \<not> held L' h"
    by auto
qed

lemma lock_steps_queue:
  assumes "lock_step\<^sup>*\<^sup>* L L'" and "lock_inv L" and "queued_before L w h"
  shows "lock_inv L' \<and> w \<notin> set (hold_answers L') \<and> h \<notin> set (hold_answers L') \<and>
         (queued_before L' w h \<and> \<not> held L' h \<or> \<not> waiting L' w)"
  using assms(1)
proof (induction rule: rtranclp_induct)
  case base
  have core: "lock_core L" by (rule lock_invD(1) [OF assms(2)])
  have "\<not> held L h"
    using assms(3) lock_okD(1) [OF lock_coreD(4) [OF core]]
    by (auto simp: queued_before_def waiting_def held_def)
  with assms(2,3) show ?case
    using waiting_not_answer [OF core] by (auto simp: queued_before_def)
next
  case (step L1 L2)
  then show ?case
    using lock_step_queue [OF step.hyps(2), of w h] lock_step_inv [OF step.hyps(2)] by blast
qed

text \<open>Runs as explicit sequences of atomic sections.\<close>

datatype lock_op = Enqueue addr u64 u32 bool | Grant addr | Release addr

fun lock_exec :: "lock_op \<Rightarrow> lock_table \<Rightarrow> lock_table outcome" where
  "lock_exec (Enqueue t v sp wr) L = res_bind (lock_enqueue t v sp wr L) (\<lambda>(h, L'). Inr L')"
| "lock_exec (Grant h) L =
     (if waiting L h \<and> \<not> lock_blocked L h then Inr (lock_grant h L) else Inl No_Return)"
| "lock_exec (Release t) L = locks_release t L"

fun lock_run :: "lock_op list \<Rightarrow> lock_table \<Rightarrow> lock_table outcome" where
  "lock_run [] L = Inr L"
| "lock_run (x # xs) L = res_bind (lock_exec x L) (lock_run xs)"

lemma lock_exec_step: "lock_exec x L = Inr L' \<Longrightarrow> lock_step L L'"
  by (cases x) (auto split: if_splits prod.splits intro: lock_step.intros)

lemma lock_run_reach: "lock_reach L \<Longrightarrow> lock_run xs L = Inr L' \<Longrightarrow> lock_reach L'"
  by (induction xs arbitrary: L) (auto dest: lock_exec_step intro: lock_reach.step)

lemma lock_run_steps: "lock_run xs L = Inr L' \<Longrightarrow> lock_step\<^sup>*\<^sup>* L L'"
  by (induction xs arbitrary: L) (auto dest!: lock_exec_step intro: converse_rtranclp_into_rtranclp)

definition lock_demo :: "lock_op list \<Rightarrow> lock_table" where
  "lock_demo xs = projr (lock_run xs (lock_table_init [0x1000, 0x1100] [0x2000, 0x2100, 0x2200]))"

definition two_readers :: lock_table where
  "two_readers = lock_demo [Enqueue 0x10 7 256 False, Grant 0x2000,
                            Enqueue 0x20 7 256 False, Grant 0x2100]"

definition writer_then_reader :: lock_table where
  "writer_then_reader = lock_demo [Enqueue 0x10 7 256 False, Grant 0x2000,
                                   Enqueue 0x20 7 256 True, Enqueue 0x30 7 256 False]"

lemmas lock_eval = lock_demo_def lock_table_init_def lock_enqueue_def lock_get_def lock_bucket_def
  hash_bits_def LOCK_BUCKET_BITS_def upd_lock_def lock_new_def lock_grant_def waiting_def
  lock_live_def lock_blocked_def lock_holder_def lock_conflict_def queued_behind_def
  alloc_or_die_def Let_def locks_release_def release_hold_def unhold_def retire_lock_def
  held_def hold_key_def
  queued_before_def two_readers_def writer_then_reader_def

lemma lock_demo_reach:
  assumes "\<not> isl (lock_run xs (lock_table_init [0x1000, 0x1100] [0x2000, 0x2100, 0x2200]))"
  shows "lock_reach (lock_demo xs)"
proof -
  have "lock_reach (lock_table_init [0x1000, 0x1100] [0x2000, 0x2100, 0x2200])"
    by (rule lock_reach.init) (simp_all add: count_range_def)
  then show ?thesis
    using assms by (auto simp: lock_demo_def intro: lock_run_reach split: sum.splits
        elim: sumE)
qed

section \<open>Properties\<close>

text \<open>
  C6. Exclusion: in every reachable state of the lock table, two different tasks that hold
  the same key (value and space) both hold it to read.
\<close>

theorem lock_exclusion:
  assumes "lock_reach L" and "held L h" and "held L h'" and "hold_key L h = hold_key L h'"
    and "hd_task (holds L h) \<noteq> hd_task (holds L h')"
  shows "\<not> hd_write (holds L h) \<and> \<not> hd_write (holds L h')"
proof -
  have core: "lock_core L" using lock_invD(1) lock_reach_inv assms(1) by blast
  have "hd_lock (holds L h) = hd_lock (holds L h')"
    using held_key_lock [OF core assms(2)] held_key_lock [OF core assms(3)] assms(4) by simp
  moreover have "exclusive L (hd_lock (holds L h))"
    using lock_okD(7) lock_coreD(4) [OF core] assms(2) by (simp add: held_def)
  ultimately show ?thesis
    using assms(2,3,5) unfolding exclusive_def held_def by metis
qed

lemma two_readers_reach: "lock_reach two_readers"
  unfolding two_readers_def by (rule lock_demo_reach) (simp add: lock_eval)

theorem lock_exclusion_witness:
  "\<not> hd_write (holds two_readers 0x2000) \<and> \<not> hd_write (holds two_readers 0x2100)"
  by (rule lock_exclusion [OF two_readers_reach]) (simp_all add: lock_eval)

text \<open>
  C8. Completing a task never trips the "dependency lock counts out of step" check: in
  every reachable state \<open>locks_release\<close> returns, takes exactly the task's holds out of
  the table, and leaves every other holder and every waiting request as it was.
\<close>

theorem locks_release_total:
  assumes "lock_reach L"
  shows "\<exists>L'. locks_release t L = Inr L' \<and> lock_reach L' \<and>
    (\<forall>h. held L' h \<longleftrightarrow> held L h \<and> hd_task (holds L h) \<noteq> t) \<and>
    (\<forall>h. waiting L' h \<longleftrightarrow> waiting L h) \<and>
    (\<forall>k. lock_view L' k = filter_mset (\<lambda>(u, w). u \<noteq> t) (lock_view L k))"
proof -
  have inv: "lock_inv L" by (rule lock_reach_inv [OF assms])
  obtain L' where L': "locks_release t L = Inr L'"
    "\<And>x. held L' x = (held L x \<and> hd_task (holds L x) \<noteq> t)" "\<And>x. waiting L' x = waiting L x"
    using locks_release_spec [OF inv, of t] by metis
  moreover have "lock_reach L'" using assms lock_step.release [OF L'(1)] by (rule lock_reach.step)
  moreover have "lock_view L' k = filter_mset (\<lambda>(u, w). u \<noteq> t) (lock_view L k)" for k
    by (rule dep_locks.release_view [OF inv L'(1)])
  ultimately show ?thesis by blast
qed

theorem locks_release_total_witness:
  "\<exists>L'. locks_release 0x10 two_readers = Inr L' \<and> \<not> held L' 0x2000 \<and> held L' 0x2100"
proof -
  have "held two_readers 0x2000 \<and> held two_readers 0x2100 \<and>
    hd_task (holds two_readers 0x2000) = 0x10 \<and> hd_task (holds two_readers 0x2100) = 0x20"
    by (simp add: lock_eval)
  with locks_release_total [OF two_readers_reach, of "0x10"] show ?thesis by auto
qed

text \<open>
  C13. The fast path of \<open>lock_conflict\<close> (the holder and writer counts) agrees with the walk
  over every holder: there is no conflict exactly when every holder is the asking task,
  or both it and the request only read.
\<close>

theorem lock_conflict_exact:
  assumes "lock_reach L" and "lock_live L l"
  shows "lock_conflict L l t wr = None \<longleftrightarrow>
         (\<forall>h\<in>set (lk_holders (locks L l)).
            hd_task (holds L h) = t \<or> \<not> wr \<and> \<not> hd_write (holds L h))"
  using lock_conflict_None lock_coreD(4) lock_invD(1) lock_reach_inv assms by blast

theorem lock_conflict_exact_witness:
  "lock_conflict two_readers 0x1000 0x10 True \<noteq> None \<and>
   lock_conflict two_readers 0x1000 0x10 False = None"
proof -
  have live: "lock_live two_readers 0x1000" by (simp add: lock_eval)
  have hs: "lk_holders (locks two_readers 0x1000) = [0x2100, 0x2000]"
    "hd_task (holds two_readers 0x2100) = 0x20" "\<not> hd_write (holds two_readers 0x2100)"
    "\<not> hd_write (holds two_readers 0x2000)"
    by (simp_all add: lock_eval)
  show ?thesis
    using lock_conflict_exact [OF two_readers_reach live, where t = "0x10" and wr = True]
      lock_conflict_exact [OF two_readers_reach live, where t = "0x10" and wr = False] hs by simp
qed

text \<open>
  C7. Requests are served in the order they arrived: while an earlier conflicting request
  of another task is still waiting, no sequence of atomic sections makes the later one a
  holder, so a stream of readers cannot keep a waiting writer out.
\<close>

theorem lock_no_overtaking:
  assumes "lock_reach L" and "queued_before L w h" and "lock_step\<^sup>*\<^sup>* L L'" and "held L' h"
  shows "\<not> waiting L' w"
  using lock_steps_queue [OF assms(3) lock_reach_inv [OF assms(1)] assms(2)] assms(4) by blast

lemma writer_then_reader_reach: "lock_reach writer_then_reader"
  unfolding writer_then_reader_def by (rule lock_demo_reach) (simp add: lock_eval)

theorem lock_no_overtaking_witness:
  "\<exists>L'. lock_step\<^sup>*\<^sup>* writer_then_reader L' \<and> held L' 0x2200 \<and> \<not> waiting L' 0x2100"
proof -
  let ?ops = "[Release 0x10, Grant 0x2100, Release 0x20, Grant 0x2200]"
  let ?L = "projr (lock_run ?ops writer_then_reader)"
  have run: "lock_run ?ops writer_then_reader = Inr ?L"
  proof -
    have "\<not> isl (lock_run ?ops writer_then_reader)" by (simp add: lock_eval)
    then show ?thesis by (cases "lock_run ?ops writer_then_reader") auto
  qed
  have "queued_before writer_then_reader 0x2100 0x2200" by (simp add: lock_eval)
  moreover have "held ?L 0x2200" by (simp add: lock_eval)
  ultimately show ?thesis
    using lock_no_overtaking [OF writer_then_reader_reach _ lock_run_steps [OF run]]
      lock_run_steps [OF run] by blast
qed

text \<open>
  No lost wake-up: when the only task that holds a lock completes, the oldest waiting
  request of that lock is no longer blocked.
\<close>

theorem lock_head_unblocked:
  assumes "lock_reach L" and "lock_live L l" and "lk_waiters (locks L l) = h # ws"
    and "\<forall>x\<in>set (lk_holders (locks L l)). hd_task (holds L x) = t"
    and "locks_release t L = Inr L'"
  shows "waiting L' h \<and> \<not> lock_blocked L' h"
proof -
  have inv: "lock_inv L" by (rule lock_reach_inv [OF assms(1)])
  have core: "lock_core L" by (rule lock_invD(1) [OF inv])
  note ok = lock_okD [OF lock_coreD(4) [OF core assms(2)]]
  obtain L2 where L2: "locks_release t L = Inr L2" "lock_inv L2" "holds L2 = holds L"
    "\<And>x. held L2 x = (held L x \<and> hd_task (holds L x) \<noteq> t)" "\<And>x. waiting L2 x = waiting L x"
    using locks_release_spec [OF inv, of t] by metis
  then have L': "L2 = L'" using assms(5) by simp
  have hl: "hd_lock (holds L h) = l" using ok(3) assms(3) by simp
  have wt: "waiting L' h" using L2(5) assms(2,3) hl by (simp add: L' waiting_def)
  then have live': "lock_live L' l" using L2(3) hl by (simp add: waiting_def L')
  have ok': "lock_ok L' l"
    using live' lock_coreD(4) [OF lock_invD(1) [OF L2(2)]] by (simp add: L')
  have "lk_holders (locks L' l) = []"
  proof (rule ccontr)
    assume "lk_holders (locks L' l) \<noteq> []"
    then obtain x where "x \<in> set (lk_holders (locks L' l))" by (cases "lk_holders (locks L' l)") auto
    then have "held L' x" "hd_lock (holds L x) = l"
      using live' lock_okD(2) [OF ok'] L2(3) by (auto simp: held_def L')
    then show False using L2(4) assms(4) by (auto simp: held_def L')
  qed
  then have "lock_holder L' h = None"
    using lock_conflict_None [OF ok'] hl L2(3) by (simp add: lock_holder_def L')
  moreover have "\<not> queued_behind L' h"
    using locks_release_frame(1) [OF assms(5)] assms(3) hl L2(3) by (simp add: queued_behind_def L')
  ultimately show ?thesis using wt by (simp add: lock_blocked_def)
qed

theorem lock_head_unblocked_witness:
  "\<exists>L'. locks_release 0x10 writer_then_reader = Inr L' \<and> waiting L' 0x2100 \<and>
        \<not> lock_blocked L' 0x2100"
proof -
  have f: "lock_live writer_then_reader 0x1000"
    "lk_waiters (locks writer_then_reader 0x1000) = [0x2100, 0x2200]"
    "\<forall>x\<in>set (lk_holders (locks writer_then_reader 0x1000)).
       hd_task (holds writer_then_reader x) = 0x10"
    by (simp_all add: lock_eval)
  obtain L' where "locks_release 0x10 writer_then_reader = Inr L'"
    using dep_locks.release_total [OF lock_reach_inv [OF writer_then_reader_reach]] by blast
  with lock_head_unblocked [OF writer_then_reader_reach f] show ?thesis by blast
qed

end
