(* ===== verification/FrameworkInv.thy ===== *)
theory FrameworkInv
  imports Framework LockRuns
begin

text \<open>
  The invariant of the framework's state and that every atomic section keeps it: each
  component's own invariant, every owner of a mark and every requester of a lock is a
  running task, and what the collector and the allocator hand out is not in use. The last
  section shows that a mark struct only moves on, which \<open>filc_async_wait_all\<close> relies on.
\<close>

definition fresh_object :: "objects \<Rightarrow> zptr \<Rightarrow> bool" where
  "fresh_object ob p \<longleftrightarrow> zaddr p = zlower p \<and> zlower p \<noteq> 0 \<and> zlower p < zupper p \<and>
     (\<forall>l u. ob l = Some u \<longrightarrow> \<not> overlaps (zlower p) (zupper p) l u)"

fun fresh_objects :: "objects \<Rightarrow> zptr list \<Rightarrow> bool" where
  "fresh_objects ob [] = True"
| "fresh_objects ob (p # ps) =
    (if zaddr p = 0 then fresh_objects ob ps
     else fresh_object ob p \<and> fresh_objects (ob(zlower p \<mapsto> zupper p)) ps)"

definition gc_ok :: "fw \<Rightarrow> bool" where
  "gc_ok s \<longleftrightarrow> fresh_objects (heap s) (gc_answers s) \<and>
     (\<forall>p\<in>set (gc_answers s). zaddr p \<noteq> 0 \<longrightarrow> zaddr p \<notin> arena s \<and>
        \<not> is_running (tk s) (zaddr p) \<and> t_runtime (tasks (tk s) (zaddr p)) = No_Runtime) \<and>
     set (task_answers (tk s)) \<subseteq> arena s \<and> handled (tk s) \<subseteq> arena s"

definition owners_running :: "fw \<Rightarrow> bool" where
  "owners_running s \<longleftrightarrow>
     (\<forall>m. mark_live (mk s) m \<longrightarrow> mk_owner (marks (mk s) m) \<noteq> 0 \<longrightarrow>
          is_running (tk s) (mk_owner (marks (mk s) m))) \<and>
     (\<forall>h. held (lk s) h \<or> waiting (lk s) h \<longrightarrow> is_running (tk s) (hd_task (holds (lk s) h)))"

definition is_join :: "fw \<Rightarrow> addr \<Rightarrow> bool" where
  "is_join s t \<longleftrightarrow> is_running (tk s) t \<and> t_runtime (tasks (tk s) t) = Join_Runtime"

definition no_request :: "fw \<Rightarrow> addr \<Rightarrow> bool" where
  "no_request s t \<longleftrightarrow> (\<forall>h. waiting (lk s) h \<longrightarrow> hd_task (holds (lk s) h) \<noteq> t)"

text \<open>The storage of a running join is live, and a join takes no locks.\<close>

definition joins_live :: "fw \<Rightarrow> bool" where
  "joins_live s \<longleftrightarrow> (\<forall>t. is_join s t \<longrightarrow>
     heap s (t_runtime_data (tasks (tk s) t)) \<noteq> None \<and> no_request s t)"

definition fw_inv :: "fw \<Rightarrow> bool" where
  "fw_inv s \<longleftrightarrow> task_inv (tk s) \<and> lock_inv (lk s) \<and> mark_inv (heap s) (mk s) \<and>
     owners_running s \<and> gc_ok s \<and> joins_live s"

lemma fw_invD:
  assumes "fw_inv s"
  shows "task_inv (tk s)" "lock_inv (lk s)" "mark_inv (heap s) (mk s)" "owners_running s"
    "gc_ok s" "joins_live s"
  using assms by (simp_all add: fw_inv_def)

lemma fw_invI:
  "task_inv (tk s) \<Longrightarrow> lock_inv (lk s) \<Longrightarrow> mark_inv (heap s) (mk s) \<Longrightarrow> owners_running s \<Longrightarrow>
   gc_ok s \<Longrightarrow> joins_live s \<Longrightarrow> fw_inv s"
  by (simp add: fw_inv_def)

text \<open>A task that is not running owns nothing.\<close>

lemma idle_owns_nothing:
  assumes inv: "fw_inv s" and idle: "\<not> is_running (tk s) t"
  shows "task_marks (mk s) t = []" and "task_holds (lk s) t = []"
    and "\<And>m. mark_live (mk s) m \<Longrightarrow> t \<noteq> 0 \<Longrightarrow> mk_owner (marks (mk s) m) \<noteq> t"
    and "\<And>h. held (lk s) h \<or> waiting (lk s) h \<Longrightarrow> hd_task (holds (lk s) h) \<noteq> t"
proof -
  note i = fw_invD [OF inv]
  show m: "\<And>m. mark_live (mk s) m \<Longrightarrow> t \<noteq> 0 \<Longrightarrow> mk_owner (marks (mk s) m) \<noteq> t"
    and h: "\<And>h. held (lk s) h \<or> waiting (lk s) h \<Longrightarrow> hd_task (holds (lk s) h) \<noteq> t"
    using i(4) idle by (auto simp: owners_running_def)
  have "set (task_marks (mk s) t) = {}"
    using mark_invD(5) [OF i(3)] m by (cases "t = 0") (auto simp: mark_owners_ok_def)
  then show "task_marks (mk s) t = []" by simp
  have "set (task_holds (lk s) t) = {}" using lock_invD(3) [OF i(2), of t] h by auto
  then show "task_holds (lk s) t = []" by simp
qed

lemma mark_table_frame [simp]: "M\<lparr>task_marks := (task_marks M)(t := task_marks M t)\<rparr> = M"
  by simp

lemma zeroed_chains:
  assumes "fw_inv s" and "\<not> is_running (tk s) t"
  shows "(mk s)\<lparr>task_marks := (task_marks (mk s))(t := [])\<rparr> = mk s"
    and "(lk s)\<lparr>task_holds := (task_holds (lk s))(t := [])\<rparr> = lk s"
  using idle_owns_nothing(1,2) [OF assms] by (simp_all add: fun_upd_idem)

lemma task_begin_spec:
  assumes inv: "fw_inv s" and beg: "task_begin rt meta args s = Inr (t, s')"
    and rt: "rt \<noteq> Join_Runtime"
  shows "fw_inv s'" and "\<exists>T. task_start rt meta args (tk s) = Inr (t, T) \<and> s' = s\<lparr>tk := T\<rparr>"
proof -
  note i = fw_invD [OF inv]
  obtain T where T: "task_start rt meta args (tk s) = Inr (t, T)"
    and s': "s' = s\<lparr>tk := T, mk := (mk s)\<lparr>task_marks := (task_marks (mk s))(t := [])\<rparr>,
            lk := (lk s)\<lparr>task_holds := (task_holds (lk s))(t := [])\<rparr>\<rparr>"
    using beg by (auto simp: task_begin_def)
  note st = task_start_spec [OF i(1) T]
  have eq: "s' = s\<lparr>tk := T\<rparr>" using zeroed_chains [OF inv st(7)] by (simp add: s')
  then show "\<exists>T. task_start rt meta args (tk s) = Inr (t, T) \<and> s' = s\<lparr>tk := T\<rparr>" using T by blast
  show "fw_inv s'"
  proof (rule fw_invI)
    show "task_inv (tk s')" "lock_inv (lk s')" "mark_inv (heap s') (mk s')"
      using i st(1) by (simp_all add: eq)
    show "owners_running s'" using i(4) by (simp add: owners_running_def eq st(6))
    show "gc_ok s'" using i(5) st(2) by (auto simp: gc_ok_def eq st(5,6,8))
    show "joins_live s'"
      using i(6) rt by (auto simp: joins_live_def is_join_def no_request_def eq st(5,6) task_new_def)
  qed
qed

lemma complete_spec:
  assumes inv: "fw_inv s" and run: "is_running (tk s) t"
    and ready: "no_request s t"
  obtains s' where "filc_async_complete t r s = Inr s'" and "fw_inv s'"
    and "tk s' = task_done t r (tk s)"
    and "mk s' = marks_remove (task_marks (mk s) t) (mk s)"
    and "\<And>x. mark_live (mk s') x = (mark_live (mk s) x \<and> mk_owner (marks (mk s) x) \<noteq> t)"
    and "\<And>x. mk_owner (marks (mk s) x) \<noteq> t \<Longrightarrow> mark_live (mk s) x \<Longrightarrow> marks (mk s') x = marks (mk s) x"
    and "\<And>x. held (lk s') x = (held (lk s) x \<and> hd_task (holds (lk s) x) \<noteq> t)"
    and "\<And>x. waiting (lk s') x = waiting (lk s) x" and "holds (lk s') = holds (lk s)"
    and "s' = s\<lparr>tk := tk s', mk := mk s', lk := lk s'\<rparr>"
proof -
  note i = fw_invD [OF inv]
  have t0: "t \<noteq> 0" by (rule running_nonnull [OF task_invD(2) [OF i(1)] run])
  obtain L where L: "locks_release t (lk s) = Inr L" "lock_inv L" "holds L = holds (lk s)"
    "\<And>x. held L x = (held (lk s) x \<and> hd_task (holds (lk s) x) \<noteq> t)"
    "\<And>x. waiting L x = waiting (lk s) x"
    using locks_release_spec [OF i(2)] by metis
  have own: "distinct (task_marks (mk s) t)"
    "\<And>m. m \<in> set (task_marks (mk s) t) \<longleftrightarrow> mark_live (mk s) m \<and> mk_owner (marks (mk s) m) = t"
    using mark_invD(5) [OF i(3)] t0 by (simp_all add: mark_owners_ok_def)
  note M = marks_remove_spec [OF i(3) own(1)]
  let ?M = "marks_remove (task_marks (mk s) t) (mk s)"
  have M: "mark_inv (heap s) ?M"
    and Ml: "\<And>x. mark_live ?M x = (mark_live (mk s) x \<and> mk_owner (marks (mk s) x) \<noteq> t)"
    and Mm: "\<And>x. mk_owner (marks (mk s) x) \<noteq> t \<Longrightarrow> marks ?M x = marks (mk s) x"
    using M own(2) by blast+
  define s' where "s' = s\<lparr>tk := task_done t r (tk s), mk := ?M, lk := L\<rparr>"
  have eq: "filc_async_complete t r s = Inr s'"
    using run t0 L(1)
    by (simp add: filc_async_complete_def task_state_def is_running_def Let_def task_done_def s'_def)
  note d = task_done_spec [OF i(1) run, where result = r]
  have "fw_inv s'"
  proof (rule fw_invI)
    show "task_inv (tk s')" "lock_inv (lk s')" "mark_inv (heap s') (mk s')"
      using d(1) L(2) M by (simp_all add: s'_def)
    show "owners_running s'"
      using i(4) ready by (auto simp: owners_running_def no_request_def s'_def d(2) Ml Mm L)
    show "gc_ok s'" using i(5) by (simp add: gc_ok_def s'_def d(2,6,7,8))
    show "joins_live s'"
      using i(6) by (auto simp: joins_live_def is_join_def no_request_def s'_def d(2,3) L)
  qed
  with that [of s'] eq Ml Mm L show thesis by (simp add: s'_def)
qed

lemma enqueue_inv:
  assumes inv: "fw_inv s" and run: "is_running (tk s) t" "\<not> is_join s t"
    and enq: "lock_enqueue t v sp wr (lk s) = Inr (h, L)"
  shows "fw_inv (s\<lparr>lk := L\<rparr>)"
proof -
  note i = fw_invD [OF inv]
  note core = lock_invD(1) [OF i(2)]
  note e = lock_enqueue_spec [OF core enq]
  have "is_running (tk s) (hd_task (holds L x))" if "held L x \<or> waiting L x" for x
  proof (cases "x = h")
    case True
    then show ?thesis using run(1) e(3) by simp
  next
    case False
    then show ?thesis
      using that i(4) e(7,8) lock_enqueue_waiting [OF core enq False]
      unfolding owners_running_def by metis
  qed
  moreover have "joins_live (s\<lparr>lk := L\<rparr>)"
    unfolding joins_live_def no_request_def
  proof (intro allI impI conjI)
    fix u x assume u: "is_join (s\<lparr>lk := L\<rparr>) u"
    then have u': "is_join s u" by (simp add: is_join_def)
    then show "heap (s\<lparr>lk := L\<rparr>) (t_runtime_data (tasks (tk (s\<lparr>lk := L\<rparr>)) u)) \<noteq> None"
      using i(6) by (simp add: joins_live_def)
    assume x: "waiting (lk (s\<lparr>lk := L\<rparr>)) x"
    show "hd_task (holds (lk (s\<lparr>lk := L\<rparr>)) x) \<noteq> u"
    proof (cases "x = h")
      case True
      then show ?thesis using e(3) run(2) u' by auto
    next
      case False
      then show ?thesis
        using x u' i(6) e(7) [OF False] lock_enqueue_waiting [OF core enq False]
        by (simp add: joins_live_def no_request_def)
    qed
  qed
  moreover have "lock_inv L" by (rule lock_inv_enqueue [OF i(2) enq])
  ultimately show ?thesis
    using i by (simp add: fw_inv_def owners_running_def gc_ok_def joins_live_def is_join_def no_request_def)
qed

lemma grant_inv:
  assumes inv: "fw_inv s" and wait: "waiting (lk s) h" and free: "\<not> lock_blocked (lk s) h"
  shows "fw_inv (s\<lparr>lk := lock_grant h (lk s)\<rparr>)"
proof -
  note i = fw_invD [OF inv]
  note core = lock_invD(1) [OF i(2)]
  have "holds (lock_grant h (lk s)) = holds (lk s)" by (simp add: lock_grant_def Let_def)
  moreover have "lock_inv (lock_grant h (lk s))"
    using free by (intro lock_inv_grant [OF i(2) wait]) (simp add: lock_blocked_def)
  ultimately show ?thesis
    using i wait lock_grant_held [OF wait] lock_grant_waiting [OF core wait]
    by (auto simp: fw_inv_def owners_running_def gc_ok_def joins_live_def is_join_def no_request_def)
qed

text \<open>A change of the marks alone keeps the framework's invariant when the marks' own
  invariant is kept and every owner runs.\<close>

lemma marks_inv:
  assumes "fw_inv s" and "mark_inv (heap s) M"
    and "\<And>m. mark_live M m \<Longrightarrow> mk_owner (marks M m) \<noteq> 0 \<Longrightarrow> is_running (tk s) (mk_owner (marks M m))"
  shows "fw_inv (s\<lparr>mk := M\<rparr>)"
  using assms by (simp add: fw_inv_def owners_running_def gc_ok_def joins_live_def is_join_def no_request_def)

lemma mark_remove_inv:
  assumes inv: "fw_inv s" and live: "mark_live (mk s) m"
  shows "fw_inv (s\<lparr>mk := mark_remove m (mk s)\<rparr>)"
proof -
  note i = fw_invD [OF inv] and r = mark_remove_spec [OF fw_invD(3) [OF inv] live]
  show ?thesis
    using i(4) by (intro marks_inv [OF inv r(1)]) (auto simp: r(2,3) owners_running_def)
qed

definition points_into :: "fw \<Rightarrow> zptr \<Rightarrow> bool" where
  "points_into s p \<longleftrightarrow> zaddr p \<noteq> 0 \<and> heap s (zlower p) = Some (zupper p)"

lemma mark_add_inv:
  assumes inv: "fw_inv s" and buf: "points_into s buf" and run: "t = 0 \<or> is_running (tk s) t"
    and none: "t \<noteq> 0 \<Longrightarrow> mark_owned (mk s) (zlower buf) t = None"
    and add: "mark_add buf (zlower buf) (zupper buf) t wr (mk s) = Inr M"
  obtains m where "\<not> mark_live (mk s) m" "fw_inv (s\<lparr>mk := M\<rparr>)"
    "\<And>x. mark_live M x = (mark_live (mk s) x \<or> x = m)"
    "\<And>x. x \<noteq> m \<Longrightarrow> marks M x = marks (mk s) x"
    "marks M m = \<lparr>mk_buf = buf, mk_lower = zlower buf, mk_upper = zupper buf,
       mk_generation = mk_generation (marks (mk s) m) + 1, mk_owner = t, mk_write = wr\<rparr>"
    "mk_generation (marks (mk s) m) \<noteq> - 1"
proof -
  note i = fw_invD [OF inv]
  have one: "mark_live (mk s) m \<Longrightarrow> t \<noteq> 0 \<Longrightarrow> mk_owner (marks (mk s) m) = t \<Longrightarrow>
      mk_lower (marks (mk s) m) \<noteq> zlower buf" for m
    using none mark_owned_None [OF mark_invD(2) [OF i(3)]] by blast
  have b: "zaddr buf \<noteq> 0" "heap s (zlower buf) = Some (zupper buf)"
    using buf by (simp_all add: points_into_def)
  show thesis
  proof (rule mark_add_spec [OF i(3) b(1) refl b(2) _ add])
    fix m assume m: "\<not> mark_live (mk s) m" "mark_inv (heap s) M"
      "\<And>x. mark_live M x = (mark_live (mk s) x \<or> x = m)"
      "\<And>x. x \<noteq> m \<Longrightarrow> marks M x = marks (mk s) x"
      "marks M m = \<lparr>mk_buf = buf, mk_lower = zlower buf, mk_upper = zupper buf,
         mk_generation = mk_generation (marks (mk s) m) + 1, mk_owner = t, mk_write = wr\<rparr>"
      "mk_generation (marks (mk s) m) \<noteq> - 1"
    have run': "is_running (tk s) (mk_owner (marks M x))"
      if "mark_live M x" "mk_owner (marks M x) \<noteq> 0" for x
      using that run i(4) m(3-5) by (cases "x = m") (auto simp: owners_running_def)
    show thesis by (rule that [OF m(1) marks_inv [OF inv m(2) run'] m(3-6)])
  qed (rule one)
qed

lemma mark_own_cases:
  assumes "mark_own t buf s = Inr s'"
  obtains (again) m where "t \<noteq> 0" "mark_owned (mk s) (zlower buf) t = Some m"
      "s' = s\<lparr>mk := mark_make_write m (mk s)\<rparr>"
    | (new) M where "t \<noteq> 0 \<Longrightarrow> mark_owned (mk s) (zlower buf) t = None"
      "mark_add buf (zlower buf) (zupper buf) t True (mk s) = Inr M" "s' = s\<lparr>mk := M\<rparr>"
  using assms by (auto simp: mark_own_def split: option.splits if_splits)

lemma mark_make_write_inv:
  assumes inv: "fw_inv s" and live: "mark_live (mk s) m"
  shows "fw_inv (s\<lparr>mk := mark_make_write m (mk s)\<rparr>)"
proof -
  note i = fw_invD [OF inv] and w = mark_make_write_spec [OF fw_invD(3) [OF inv] live]
  have "mk_owner (marks (mark_make_write m (mk s)) x) = mk_owner (marks (mk s) x)" for x
    by (simp add: w(3))
  then show ?thesis
    using i(4) by (intro marks_inv [OF inv w(1)]) (simp add: w(2) owners_running_def)
qed

lemma mark_own_inv:
  assumes inv: "fw_inv s" and buf: "points_into s buf" and run: "t = 0 \<or> is_running (tk s) t"
    and own: "mark_own t buf s = Inr s'"
  shows "fw_inv s'"
  using own
proof (cases rule: mark_own_cases)
  case (again m)
  then have "mark_live (mk s) m"
    using mark_owned_Some mark_invD(2) [OF fw_invD(3) [OF inv]] by blast
  with again mark_make_write_inv [OF inv] show ?thesis by simp
next
  case (new M)
  then show ?thesis using mark_add_inv [OF inv buf run new(1,2)] by blast
qed

lemma mark_shared_inv:
  assumes "fw_inv s" and "points_into s buf" and "is_running (tk s) t"
    and "filc_async_mark_shared t buf s = Inr s'"
  shows "fw_inv s'"
proof (cases "zaddr buf = 0 \<or> t = 0")
  case True
  then have "s' = s" using assms(4) by (auto simp: filc_async_mark_shared_def)
  then show ?thesis using assms(1) by simp
next
  case False
  then have "mark_own t buf s = Inr s'"
    using assms(4) by (simp add: filc_async_mark_shared_def split: if_splits)
  then show ?thesis by (rule mark_own_inv [OF assms(1,2) disjI2 [OF assms(3)]])
qed

lemma mark_input_cases:
  assumes "filc_async_mark_input t buf s = Inr s'"
  obtains (same) "s' = s"
    | (new) M where "mark_owned (mk s) (zlower buf) t = None"
      "mark_add buf (zlower buf) (zupper buf) t False (mk s) = Inr M" "s' = s\<lparr>mk := M\<rparr>"
proof (cases "zaddr buf = 0 \<or> t = 0 \<or> mark_owned (mk s) (zlower buf) t \<noteq> None")
  case True
  then have "filc_async_mark_input t buf s = Inr s" unfolding filc_async_mark_input_def by auto
  then show thesis using same assms by simp
next
  case False
  then show thesis using new assms unfolding filc_async_mark_input_def by auto
qed

lemma mark_input_inv:
  assumes "fw_inv s" and "points_into s buf" and "is_running (tk s) t"
    and "filc_async_mark_input t buf s = Inr s'"
  shows "fw_inv s'"
  using assms(4)
proof (cases rule: mark_input_cases)
  case same
  with assms(1) show ?thesis by simp
next
  case (new M)
  show ?thesis
    unfolding new(3) by (rule mark_add_inv [OF assms(1,2) disjI2 [OF assms(3)] new(1,2)])
qed

lemma remove_first_cases:
  assumes "mark_chains_ok M"
  obtains "remove_first P lower M = M" and
      "\<And>m. mark_live M m \<Longrightarrow> mk_lower (marks M m) = lower \<Longrightarrow> \<not> P (marks M m)"
    | m where "mark_live M m" "mk_lower (marks M m) = lower" "P (marks M m)"
      "remove_first P lower M = mark_remove m M"
proof (cases "List.find (\<lambda>m. mk_lower (marks M m) = lower \<and> P (marks M m))
            (g_mark_buckets M (mark_bucket lower))")
  case None
  with that(1) show thesis by (auto simp: remove_first_def find_None_iff mark_live_def)
next
  case (Some m)
  then have "m \<in> set (g_mark_buckets M (mark_bucket lower))" "mk_lower (marks M m) = lower"
      "P (marks M m)"
    by (auto dest: find_Some_mem)
  with that(2) [of m] Some show thesis by (simp add: remove_first_def mark_live_def)
qed

lemma remove_first_inv:
  assumes inv: "fw_inv s"
  shows "fw_inv (s\<lparr>mk := remove_first P lower (mk s)\<rparr>)"
  using mark_invD(2) [OF fw_invD(3) [OF inv]]
proof (cases rule: remove_first_cases [where P = P and lower = lower])
  case 1
  with inv show ?thesis by simp
next
  case (2 m)
  with mark_remove_inv [OF inv] show ?thesis by simp
qed

lemma resolve_inv:
  assumes "fw_inv s"
  shows "fw_inv (filc_async_mark_resolved buf s)" and "fw_inv (filc_async_resolve_buffer t buf s)"
  using assms remove_first_inv
  by (simp_all add: filc_async_mark_resolved_def filc_async_resolve_buffer_def)

section \<open>The collector's objects\<close>

lemma mark_inv_heap:
  assumes inv: "mark_inv ob M" and ok: "objects_ok ob'"
    and keep: "\<And>l u. marked M l \<Longrightarrow> ob l = Some u \<Longrightarrow> ob' l = Some u"
  shows "mark_inv ob' M"
proof -
  note i = mark_invD [OF inv]
  have "mark_bounds_ok ob' M"
    unfolding mark_bounds_ok_def
  proof (intro allI impI)
    fix m assume live: "mark_live M m"
    then have "marked M (mk_lower (marks M m))" by (auto simp: marked_def)
    with live i(3) keep show "zaddr (mk_buf (marks M m)) \<noteq> 0 \<and>
          zlower (mk_buf (marks M m)) = mk_lower (marks M m) \<and>
          ob' (mk_lower (marks M m)) = Some (mk_upper (marks M m))"
      by (simp add: mark_bounds_ok_def)
  qed
  with i ok show ?thesis by (simp add: mark_inv_def)
qed

lemma fresh_object_new: "objects_ok ob \<Longrightarrow> fresh_object ob p \<Longrightarrow> ob (zlower p) = None"
  by (cases "ob (zlower p)") (auto simp: fresh_object_def overlaps_def dest: objects_okD(1))

lemma overlaps_sym: "overlaps a b c d = overlaps c d a b"
  by (auto simp: overlaps_def)

lemma objects_ok_add:
  assumes ok: "objects_ok ob" and p: "fresh_object ob p"
  shows "objects_ok (ob(zlower p \<mapsto> zupper p))"
  using ok p overlaps_sym unfolding objects_ok_def fresh_object_def
  by (auto split: if_splits)

lemma fresh_objects_mem:
  "objects_ok ob \<Longrightarrow> fresh_objects ob ps \<Longrightarrow> p \<in> set ps \<Longrightarrow> zaddr p \<noteq> 0 \<Longrightarrow> fresh_object ob p"
proof (induction ps arbitrary: ob)
  case (Cons q ps)
  show ?case
  proof (cases "p = q \<or> zaddr q = 0")
    case True
    with Cons show ?thesis by (auto split: if_splits)
  next
    case False
    then have q: "fresh_object ob q" and rest: "fresh_objects (ob(zlower q \<mapsto> zupper q)) ps"
      and p: "p \<in> set ps"
      using Cons.prems by auto
    have "fresh_object (ob(zlower q \<mapsto> zupper q)) p"
      by (rule Cons.IH [OF objects_ok_add [OF Cons.prems(1) q] rest p Cons.prems(4)])
    with fresh_object_new [OF Cons.prems(1) q] show ?thesis
      unfolding fresh_object_def by (metis fun_upd_other option.distinct(1))
  qed
qed simp

lemma gc_alloc_or_dieE:
  assumes "gc_alloc_or_die s = Inr (p, s')"
  obtains rest where "gc_answers s = p # rest" "zaddr p \<noteq> 0"
    "s' = s\<lparr>gc_answers := rest, heap := (heap s)(zlower p \<mapsto> zupper p)\<rparr>"
  using assms
  by (auto simp: gc_alloc_or_die_def gc_alloc_def null_ptr_def split: list.splits if_splits)

lemma gc_alloc_inv:
  assumes inv: "fw_inv s" and al: "gc_alloc_or_die s = Inr (p, s')"
  shows "fw_inv s'" and "fresh_object (heap s) p" and "heap s (zlower p) = None"
    and "points_into s' p" and "\<not> is_running (tk s) (zaddr p)" and "zaddr p \<notin> arena s"
    and "tk s' = tk s" "mk s' = mk s" "lk s' = lk s" "joins s' = joins s" "arena s' = arena s"
    and "heap s' = (heap s)(zlower p \<mapsto> zupper p)"
    and "t_runtime (tasks (tk s) (zaddr p)) = No_Runtime"
proof -
  note i = fw_invD [OF inv]
  note ob = mark_invD(1) [OF i(3)]
  obtain rest where g: "gc_answers s = p # rest" "zaddr p \<noteq> 0"
    "s' = s\<lparr>gc_answers := rest, heap := (heap s)(zlower p \<mapsto> zupper p)\<rparr>"
    using al by (rule gc_alloc_or_dieE)
  show "tk s' = tk s" "mk s' = mk s" "lk s' = lk s" "joins s' = joins s" "arena s' = arena s"
    "heap s' = (heap s)(zlower p \<mapsto> zupper p)"
    by (simp_all add: g(3))
  show fresh: "fresh_object (heap s) p" and idle: "\<not> is_running (tk s) (zaddr p)"
    and "zaddr p \<notin> arena s" and "t_runtime (tasks (tk s) (zaddr p)) = No_Runtime"
    using i(5) g by (simp_all add: gc_ok_def)
  show new: "heap s (zlower p) = None" by (rule fresh_object_new [OF ob fresh])
  show "points_into s' p" using g by (simp add: points_into_def)
  show "fw_inv s'"
  proof (rule fw_invI)
    show "task_inv (tk s')" "lock_inv (lk s')" using i by (simp_all add: g(3))
    show "mark_inv (heap s') (mk s')"
      using new by (auto simp: g(3) intro!: mark_inv_heap [OF i(3) objects_ok_add [OF ob fresh]])
    show "owners_running s'" using i(4) by (simp add: owners_running_def g(3))
    show "gc_ok s'" using i(5) g by (auto simp: gc_ok_def)
    show "joins_live s'" using i(6) by (simp add: joins_live_def is_join_def no_request_def g(3))
  qed
qed

lemma joins_update_inv: "fw_inv s \<Longrightarrow> fw_inv (s\<lparr>joins := j\<rparr>)"
  by (simp add: fw_inv_def owners_running_def gc_ok_def joins_live_def is_join_def no_request_def)

text \<open>The join's task enters the running list.\<close>

lemma join_start_inv:
  assumes inv: "fw_inv s" and t: "\<not> is_running (tk s) t" "t \<notin> arena s" "t \<noteq> 0"
    and data: "heap s data \<noteq> None" and fresh: "\<And>p. p \<in> set (gc_answers s) \<Longrightarrow> zaddr p \<noteq> 0 \<Longrightarrow> zaddr p \<noteq> t"
  defines "s' \<equiv> s\<lparr>tk := running_add t (upd_task t (\<lambda>_. join_task data) (tk s))\<rparr>"
  shows "fw_inv s'" and "\<And>x. is_running (tk s') x = (is_running (tk s) x \<or> x = t)"
proof -
  note i = fw_invD [OF inv]
  note k = task_invD [OF i(1)]
  have tasks': "tasks (tk s') = (tasks (tk s))(t := join_task data)" by (simp add: s'_def)
  have st: "t_state (join_task data) = 1" "t_meta (join_task data) = None"
      "t_runtime_data (join_task data) = data" "\<not> t_handled (join_task data)"
    by (simp_all add: join_task_def task_zero_def)
  have run': "running (tk s') = dll_add t (running (tk s))" by (simp add: s'_def running_add_def)
  note r = running_publish [OF k(2) t(1,3) tasks' st(1) run']
  show "\<And>x. is_running (tk s') x = (is_running (tk s) x \<or> x = t)" by (rule r(2))
  have nh: "\<not> t_handled (tasks (tk s) t)" using i(5) t(2) by (auto simp: gc_ok_def handled_def)
  have h': "handled (tk s') = handled (tk s)" using nh st(4) by (auto simp: handled_def tasks')
  have "handles_ok (tk s')"
    using k(1) nh st(4) handles_ok_cong [of "tk s'" "tk s"] by (simp add: s'_def)
  moreover have "answers_ok (tk s')"
    using k(3) i(5) t(2) st(4) unfolding answers_ok_def r(2) tasks'
    by (auto simp: s'_def gc_ok_def)
  moreover have "counts_ok (tk s')"
    using k(4) unfinished_publish [OF t(1) tasks' st(1)] st(2) by (simp add: counts_ok_def s'_def)
  ultimately have "task_inv (tk s')" using r(1) by (simp add: task_inv_def)
  moreover have "owners_running s'" using i(4) unfolding owners_running_def r(2) by (simp add: s'_def)
  moreover have "gc_ok s'"
    using i(5) fresh unfolding gc_ok_def r(2) h' tasks' by (auto simp: s'_def)
  moreover have "joins_live s'"
    using i(6) data st(3) idle_owns_nothing(4) [OF inv t(1)]
    unfolding joins_live_def is_join_def no_request_def r(2) tasks' by (auto simp: s'_def)
  ultimately show "fw_inv s'" using i(2,3) by (simp add: fw_inv_def) (simp add: s'_def)
qed

definition join_of :: "fw \<Rightarrow> addr \<Rightarrow> join_entry list" where
  "join_of s t = joins s (t_runtime_data (tasks (tk s) t))"

lemma join_publish_spec:
  assumes inv: "fw_inv s" and token: "points_into s token"
    and pub: "join_publish token ms s = Inr s'"
  obtains t m where "fw_inv s'" "\<not> is_running (tk s) t" "t \<notin> arena s"
    "\<And>x. is_running (tk s') x = (is_running (tk s) x \<or> x = t)"
    "is_join s' t" "join_of s' t = join_collect (mk s) ms []"
    "\<And>x. x \<noteq> t \<Longrightarrow> tasks (tk s') x = tasks (tk s) x"
    "\<And>x. is_join s x \<Longrightarrow> join_of s' x = join_of s x"
    "\<not> mark_live (mk s) m" "\<And>x. mark_live (mk s') x = (mark_live (mk s) x \<or> x = m)"
    "\<And>x. x \<noteq> m \<Longrightarrow> marks (mk s') x = marks (mk s) x"
    "marks (mk s') m = \<lparr>mk_buf = token, mk_lower = zlower token, mk_upper = zupper token,
       mk_generation = mk_generation (marks (mk s) m) + 1, mk_owner = t, mk_write = True\<rparr>"
    "mk_generation (marks (mk s) m) \<noteq> - 1" "arena s' = arena s"
    "task_answers (tk s') = task_answers (tk s)" "lk s' = lk s"
    "t_runtime (tasks (tk s) t) = No_Runtime"
proof -
  obtain js s1 where a1: "gc_alloc_or_die s = Inr (js, s1)"
    and p1: "res_bind (gc_alloc_or_die (s1\<lparr>joins := (joins s1)(zaddr js := join_collect (mk s1) ms [])\<rparr>))
       (\<lambda>(tp, s2).
        let t = zaddr tp;
            s3 = s2\<lparr>tk := upd_task t (\<lambda>_. join_task (zaddr js)) (tk s2),
                    mk := (mk s2)\<lparr>task_marks := (task_marks (mk s2))(t := [])\<rparr>,
                    lk := (lk s2)\<lparr>task_holds := (task_holds (lk s2))(t := [])\<rparr>\<rparr>
        in res_bind (mark_add token (zlower token) (zupper token) t True (mk s3))
             (\<lambda>M. Inr (s3\<lparr>mk := M, tk := running_add t (tk s3)\<rparr>))) = Inr s'"
    using pub by (auto simp: join_publish_def)
  define u where "u = s1\<lparr>joins := (joins s1)(zaddr js := join_collect (mk s1) ms [])\<rparr>"
  note g1 = gc_alloc_inv [OF inv a1]
  have u: "fw_inv u" unfolding u_def by (rule joins_update_inv [OF g1(1)])
  obtain tp s2 where a2: "gc_alloc_or_die u = Inr (tp, s2)"
    and p2: "(let t = zaddr tp;
            s3 = s2\<lparr>tk := upd_task t (\<lambda>_. join_task (zaddr js)) (tk s2),
                    mk := (mk s2)\<lparr>task_marks := (task_marks (mk s2))(t := [])\<rparr>,
                    lk := (lk s2)\<lparr>task_holds := (task_holds (lk s2))(t := [])\<rparr>\<rparr>
        in res_bind (mark_add token (zlower token) (zupper token) t True (mk s3))
             (\<lambda>M. Inr (s3\<lparr>mk := M, tk := running_add t (tk s3)\<rparr>))) = Inr s'"
    using p1 unfolding u_def by auto
  note g2 = gc_alloc_inv [OF u a2]
  let ?t = "zaddr tp"
  have same: "tk s2 = tk s" "mk s2 = mk s" "lk s2 = lk s" "arena s2 = arena s"
    "joins s2 = (joins s)(zaddr js := join_collect (mk s) ms [])"
    "heap s2 = (heap s)(zlower js \<mapsto> zupper js, zlower tp \<mapsto> zupper tp)"
    "tk u = tk s" "arena u = arena s"
    by (simp_all add: g2(7-) g1(7-) u_def)
  have idle: "\<not> is_running (tk s2) ?t" "?t \<notin> arena s2" using g2(5,6) by (simp_all add: same)
  have jz: "zaddr js = zlower js" and tz: "zaddr tp = zlower tp" "?t \<noteq> 0"
    using g1(2) g2(2) by (auto simp: fresh_object_def)
  define s4 where "s4 = s2\<lparr>tk := running_add ?t (upd_task ?t (\<lambda>_. join_task (zaddr js)) (tk s2))\<rparr>"
  have ne: "zaddr p \<noteq> ?t" if "p \<in> set (gc_answers s2)" "zaddr p \<noteq> 0" for p
  proof -
    have "fresh_object (heap s2) p"
      using that fw_invD(3,5) [OF g2(1)] by (auto simp: gc_ok_def intro: fresh_objects_mem mark_invD(1))
    then have "heap s2 (zlower p) = None"
      using fresh_object_new mark_invD(1) [OF fw_invD(3) [OF g2(1)]] by blast
    moreover have "heap s2 (zlower tp) = Some (zupper tp)" by (simp add: same)
    ultimately show ?thesis using \<open>fresh_object (heap s2) p\<close> tz by (auto simp: fresh_object_def)
  qed
  have data: "heap s2 (zaddr js) \<noteq> None" by (simp add: same jz)
  note j = join_start_inv [OF g2(1) idle tz(2) data ne, folded s4_def]
  have tok: "points_into s4 token" using token g1(3) g2(3)
    by (auto simp: points_into_def s4_def same u_def g1(7-))
  have tk4: "tk s4 = running_add ?t (upd_task ?t (\<lambda>_. join_task (zaddr js)) (tk s))"
    by (simp add: s4_def same)
  have mk4: "mk s4 = mk s" by (simp add: s4_def same)
  obtain M where add: "mark_add token (zlower token) (zupper token) ?t True (mk s4) = Inr M"
    and s': "s' = s4\<lparr>mk := M\<rparr>"
    using p2 zeroed_chains [OF g2(1) idle(1)]
    by (auto simp: Let_def s4_def)
  have none: "mark_owned (mk s4) (zlower token) ?t = None"
    using idle_owns_nothing(3) [OF g2(1) idle(1)] mark_owned_None
      mark_invD(2) [OF fw_invD(3) [OF g2(1)]] tz(2) by (auto simp: mk4 same)
  have run4: "is_running (tk s4) ?t" by (simp add: j(2))
  show thesis
  proof (rule mark_add_inv [OF j(1) tok disjI2 [OF run4] none add])
    fix m assume m: "\<not> mark_live (mk s4) m" "fw_inv (s4\<lparr>mk := M\<rparr>)"
      "\<And>x. mark_live M x = (mark_live (mk s4) x \<or> x = m)"
      "\<And>x. x \<noteq> m \<Longrightarrow> marks M x = marks (mk s4) x"
      "marks M m = \<lparr>mk_buf = token, mk_lower = zlower token, mk_upper = zupper token,
         mk_generation = mk_generation (marks (mk s4) m) + 1, mk_owner = ?t, mk_write = True\<rparr>"
      "mk_generation (marks (mk s4) m) \<noteq> - 1"
    have js4: "joins s4 = (joins s)(zaddr js := join_collect (mk s) ms [])" by (simp add: s4_def same)
    have "join_of s' x = join_of s x" if x: "is_join s x" for x
    proof -
      have "x \<noteq> ?t" using x idle(1) by (auto simp: is_join_def same)
      moreover have "t_runtime_data (tasks (tk s) x) \<noteq> zaddr js"
        using x fw_invD(6) [OF inv] g1(3) jz by (auto simp: joins_live_def)
      ultimately show ?thesis by (simp add: join_of_def s' js4 tk4)
    qed
    moreover have "is_join s' ?t" using run4
      by (simp add: is_join_def s' tk4 join_task_def)
    moreover have "join_of s' ?t = join_collect (mk s) ms []"
      by (simp add: join_of_def s' js4 tk4 join_task_def)
    ultimately show thesis
      using m idle j(2) g2(13) by (intro that [of ?t m]) (simp_all add: s' mk4 tk4 same, simp_all add: s4_def same)
  qed
qed

lemma prov_alloc_gc: "prov_alloc s = (p, s') \<Longrightarrow> zaddr p \<noteq> 0 \<Longrightarrow> gc_alloc_or_die s = Inr (p, s')"
  by (simp add: prov_alloc_def gc_alloc_or_die_def)

lemma wait_all_cases:
  assumes "filc_async_wait_all bs n s = Inr (token, s')"
  obtains s0 s1 where "s0 = s \<or> (\<exists>p. gc_alloc_or_die s = Inr (p, s0))"
    "gc_alloc_or_die s0 = Inr (token, s1)"
    "concat (map (input_marks (mk s1)) (take (unat n) (the bs))) = [] \<and> s' = s1 \<or>
     join_publish token (concat (map (input_marks (mk s1)) (take (unat n) (the bs)))) s1 = Inr s'"
proof -
  let ?bad = "bs = None \<and> n \<noteq> 0 \<or> SIZE_MAX div sizeof_pointer < unat n"
  have "\<not> ?bad" using assms unfolding filc_async_wait_all_def by (auto split: if_splits)
  then obtain s0 where s0: "(if n \<noteq> 0 then map_sum id snd (gc_alloc_or_die s) else Inr s) = Inr s0"
    and p: "(let (token, s1) = prov_alloc s0 in
            if zaddr token = 0 then Inl (Fatal ''out of memory'')
            else
              let ms = concat (map (input_marks (mk s1)) (take (unat n) (the bs))) in
              if MAX_JOIN_ENTRIES < length ms
              then Inl (Fatal ''wait_all: too many pending marks'')
              else if ms = [] then Inr (token, s1)
              else res_bind (join_publish token ms s1) (\<lambda>s2. Inr (token, s2))) = Inr (token, s')"
    using assms unfolding filc_async_wait_all_def Let_def by auto
  have c: "s0 = s \<or> (\<exists>p. gc_alloc_or_die s = Inr (p, s0))"
    using s0 by (cases "gc_alloc_or_die s") (auto split: if_splits)
  obtain tok s1 where pa: "prov_alloc s0 = (tok, s1)" by fastforce
  then have "tok = token" "zaddr tok \<noteq> 0"
    using p by (auto simp: Let_def split: if_splits)
  with pa p prov_alloc_gc [of s0 tok s1] show thesis
    by (intro that [OF c, of s1]) (auto simp: Let_def split: if_splits)
qed

section \<open>Marks only move on\<close>

text \<open>Between two states a mark struct either was reused, which its generation shows, or it is
  the same mark and at most has been resolved.\<close>

definition mark_later :: "mark_table \<Rightarrow> mark_table \<Rightarrow> bool" where
  "mark_later M M' \<longleftrightarrow>
     (\<forall>m. mk_generation (marks M m) < mk_generation (marks M' m) \<or>
          mk_generation (marks M m) = mk_generation (marks M' m) \<and>
          (mark_live M' m \<longrightarrow> mark_live M m))"

lemma mark_later_refl [simp]: "mark_later M M"
  by (simp add: mark_later_def)

lemma mark_later_trans:
  assumes a: "mark_later M M1" and b: "mark_later M1 M2"
  shows "mark_later M M2"
  unfolding mark_later_def
proof
  fix m
  show "mk_generation (marks M m) < mk_generation (marks M2 m) \<or>
          mk_generation (marks M m) = mk_generation (marks M2 m) \<and>
          (mark_live M2 m \<longrightarrow> mark_live M m)"
    using a [unfolded mark_later_def, rule_format, of m] b [unfolded mark_later_def, rule_format, of m]
    by (elim disjE conjE) auto
qed

lemma generation_up:
  assumes "(g :: u64) \<noteq> - 1"
  shows "g < g + 1"
proof -
  have "1 + g \<noteq> 0" using assms by (simp add: add_eq_0_iff)
  then have "unat (1 + g) = Suc (unat g)" by (rule unatSuc)
  then show ?thesis by (simp add: word_less_nat_alt add.commute)
qed

lemma mark_later_add:
  assumes "\<And>x. mark_live M' x = (mark_live M x \<or> x = m)"
    and "\<And>x. x \<noteq> m \<Longrightarrow> marks M' x = marks M x"
    and "mk_generation (marks M' m) = mk_generation (marks M m) + 1"
    and "mk_generation (marks M m) \<noteq> - 1"
  shows "mark_later M M'"
  unfolding mark_later_def using assms generation_up by metis

lemma mark_later_same:
  assumes "\<And>x. mk_generation (marks M' x) = mk_generation (marks M x)"
    and "\<And>x. mark_live M' x \<Longrightarrow> mark_live M x"
  shows "mark_later M M'"
  unfolding mark_later_def using assms by metis

lemma mark_remove_later:
  assumes "mark_inv ob M" and "mark_live M m"
  shows "mark_later M (mark_remove m M)"
proof (rule mark_later_same)
  note r = mark_remove_spec [OF assms]
  show "mk_generation (marks (mark_remove m M) x) = mk_generation (marks M x)" for x
    using r(3) [of x] r(4) by (cases "x = m") simp_all
  show "mark_live (mark_remove m M) x \<Longrightarrow> mark_live M x" for x by (simp add: r(2))
qed

lemma marks_remove_later:
  "mark_inv ob M \<Longrightarrow> distinct ms \<Longrightarrow> (\<And>m. m \<in> set ms \<Longrightarrow> mark_live M m) \<Longrightarrow>
   mark_later M (marks_remove ms M)"
proof (induction ms arbitrary: M)
  case (Cons m ms)
  note r = mark_remove_spec [OF Cons.prems(1) Cons.prems(3) [of m]]
  have "mark_later (mark_remove m M) (marks_remove ms (mark_remove m M))"
    using Cons.prems r(1,2) by (intro Cons.IH) auto
  with mark_remove_later [OF Cons.prems(1), of m] Cons.prems(3) show ?case
    by (auto intro: mark_later_trans)
qed simp

lemma mark_make_write_later:
  assumes "mark_inv ob M" and "mark_live M m"
  shows "mark_later M (mark_make_write m M)"
  using mark_make_write_spec [OF assms] by (intro mark_later_same) simp_all

lemma mark_own_later:
  assumes inv: "fw_inv s" and buf: "points_into s buf" and run: "t = 0 \<or> is_running (tk s) t"
    and own: "mark_own t buf s = Inr s'"
  shows "mark_later (mk s) (mk s')"
  using own
proof (cases rule: mark_own_cases)
  case (again m)
  then have "mark_live (mk s) m"
    using mark_owned_Some mark_invD(2) [OF fw_invD(3) [OF inv]] by blast
  with again mark_make_write_later [OF fw_invD(3) [OF inv]] show ?thesis by simp
next
  case (new M)
  show ?thesis
  proof (rule mark_add_inv [OF inv buf run new(1,2)])
    fix m assume "\<And>x. mark_live M x = (mark_live (mk s) x \<or> x = m)"
      "\<And>x. x \<noteq> m \<Longrightarrow> marks M x = marks (mk s) x"
      "marks M m = \<lparr>mk_buf = buf, mk_lower = zlower buf, mk_upper = zupper buf,
         mk_generation = mk_generation (marks (mk s) m) + 1, mk_owner = t, mk_write = True\<rparr>"
      "mk_generation (marks (mk s) m) \<noteq> - 1"
    then show ?thesis using new(3) by (simp add: mark_later_add)
  qed
qed

lemma remove_first_later:
  assumes "mark_inv ob M"
  shows "mark_later M (remove_first P lower M)"
  using mark_invD(2) [OF assms]
  by (cases rule: remove_first_cases [where P = P and lower = lower])
     (simp_all add: mark_remove_later [OF assms])

end
