(* ===== verification/Steps.thy ===== *)
theory Steps
  imports FrameworkInv
begin

text \<open>
  The framework as a state machine. A step is one atomic section any thread runs under
  \<open>g_lock\<close>: the stubs' and the program's entry points, what a runtime calls, and what the
  collector does to the objects meanwhile. The guards are what the callers owe: a stub
  locks and marks only for a task of its own that has not completed, and a runtime
  completes a call after the stub handed it over. \<open>drop\<close> covers every removal of a mark
  (\<open>filc_async_mark_resolved\<close>, \<open>filc_async_resolve_buffer\<close>, a mark without an owner). The
  flag \<open>shr\<close> says whether runtimes add shared write marks.
\<close>

definition join_ready :: "fw \<Rightarrow> addr \<Rightarrow> bool" where
  "join_ready s t \<longleftrightarrow> (\<forall>e\<in>set (join_of s t). \<not> join_entry_pending s e)"

definition collected :: "objects \<Rightarrow> (addr \<Rightarrow> header) \<Rightarrow> zptr list \<Rightarrow> fw \<Rightarrow> fw" where
  "collected ob hs answers s =
     s\<lparr>heap := ob, mk := (mk s)\<lparr>headers := hs\<rparr>, gc_answers := answers\<rparr>"

definition collect_ok :: "objects \<Rightarrow> (addr \<Rightarrow> header) \<Rightarrow> zptr list \<Rightarrow> fw \<Rightarrow> bool" where
  "collect_ok ob hs answers s \<longleftrightarrow>
     objects_ok ob \<and>
     (\<forall>l. if marked (mk s) l then ob l = heap s l \<and> hs l = headers (mk s) l
          else \<not> h_pending (hs l)) \<and>
     gc_ok (collected ob hs answers s) \<and> joins_live (collected ob hs answers s)"

definition set_runtime_data :: "addr \<Rightarrow> addr \<Rightarrow> fw \<Rightarrow> fw" where
  "set_runtime_data t d s = s\<lparr>tk := upd_task t (\<lambda>k. k\<lparr>t_runtime_data := d\<rparr>) (tk s)\<rparr>"

inductive fw_step :: "bool \<Rightarrow> fw \<Rightarrow> fw \<Rightarrow> bool" for shr :: bool where
  begin_call: "m_runtime meta \<noteq> Join_Runtime \<Longrightarrow> filc_async_begin (Some meta) args s = Inr (t, s') \<Longrightarrow>
    fw_step shr s s'"
| task_new: "rt \<noteq> Join_Runtime \<Longrightarrow> filc_async_task_new rt s = Inr (t, s') \<Longrightarrow> fw_step shr s s'"
| enqueue: "is_running (tk s) t \<Longrightarrow> \<not> is_join s t \<Longrightarrow> lock_enqueue t v sp wr (lk s) = Inr (h, L) \<Longrightarrow>
    fw_step shr s (s\<lparr>lk := L\<rparr>)"
| grant: "waiting (lk s) h \<Longrightarrow> \<not> lock_blocked (lk s) h \<Longrightarrow>
    fw_step shr s (s\<lparr>lk := lock_grant h (lk s)\<rparr>)"
| own: "t = 0 \<or> is_running (tk s) t \<Longrightarrow> points_into s buf \<Longrightarrow>
    mark_find_other active (mk s) (zlower buf) (zupper buf) t = None \<Longrightarrow>
    mark_own t buf s = Inr s' \<Longrightarrow> fw_step shr s s'"
| shared: "shr \<Longrightarrow> is_running (tk s) t \<Longrightarrow> points_into s buf \<Longrightarrow>
    filc_async_mark_shared t buf s = Inr s' \<Longrightarrow> fw_step shr s s'"
| input: "is_running (tk s) t \<Longrightarrow> points_into s buf \<Longrightarrow>
    filc_async_mark_input t buf s = Inr s' \<Longrightarrow> fw_step shr s s'"
| drop: "mark_live (mk s) m \<Longrightarrow> fw_step shr s (s\<lparr>mk := mark_remove m (mk s)\<rparr>)"
| complete: "t_runtime (tasks (tk s) t) \<noteq> Join_Runtime \<Longrightarrow> no_request s t \<Longrightarrow>
    filc_async_complete t r s = Inr s' \<Longrightarrow> fw_step shr s s'"
| join_done: "is_join s t \<Longrightarrow> join_ready s t \<Longrightarrow> filc_async_complete t 0 s = Inr s' \<Longrightarrow> fw_step shr s s'"
| set_data: "\<not> is_join s t \<Longrightarrow> fw_step shr s (set_runtime_data t d s)"
| retire: "fw_step shr s (s\<lparr>tk := retire_task t (tk s)\<rparr>)"
| wait_all: "filc_async_wait_all bs n s = Inr (token, s') \<Longrightarrow> fw_step shr s s'"
| stage: "fw_step shr s (s\<lparr>tk := (tk s)\<lparr>staged := cells\<rparr>\<rparr>)"
| counters: "fw_step shr s (s\<lparr>g_pending_resolves := a, g_lock_waits := b, g_hook_resolves := c\<rparr>)"
| collect: "collect_ok ob hs answers s \<Longrightarrow> fw_step shr s (collected ob hs answers s)"

section \<open>Every step keeps the invariant\<close>

lemma set_data_inv:
  assumes inv: "fw_inv s" and t: "\<not> is_join s t"
  shows "fw_inv (set_runtime_data t d s)"
proof -
  note i = fw_invD [OF inv]
  let ?T = "upd_task t (\<lambda>k. k\<lparr>t_runtime_data := d\<rparr>) (tk s)"
  have run: "is_running ?T x = is_running (tk s) x" for x by (simp add: is_running_def)
  have h: "handled ?T = handled (tk s)" by (auto simp: handled_def)
  have u: "unfinished ?T = unfinished (tk s)" unfolding unfinished_def run by auto
  have "handles_ok ?T" using task_invD(1) [OF i(1)] handles_ok_cong [of ?T "tk s"] by simp
  then have "task_inv ?T"
    using i(1) by (auto simp: task_inv_def running_ok_def answers_ok_def counts_ok_def run u)
  moreover have "joins_live (set_runtime_data t d s)"
    using i(6) t unfolding joins_live_def is_join_def no_request_def set_runtime_data_def
    by (auto simp: run)
  moreover have "t_runtime (tasks ?T x) = t_runtime (tasks (tk s) x)" for x by simp
  ultimately show ?thesis
    using i by (auto simp: fw_inv_def owners_running_def gc_ok_def run h set_runtime_data_def
        simp del: upd_task_simps(1))
qed

lemma retire_inv:
  assumes inv: "fw_inv s"
  shows "fw_inv (s\<lparr>tk := retire_task t (tk s)\<rparr>)"
proof -
  note i = fw_invD [OF inv] and r = retire_task_spec [OF task_invD(1) [OF fw_invD(1) [OF inv]], of t]
  have "joins_live (s\<lparr>tk := retire_task t (tk s)\<rparr>)"
    using i(6) by (simp add: joins_live_def is_join_def no_request_def r(3)) (simp add: r(4))
  moreover have "gc_ok (s\<lparr>tk := retire_task t (tk s)\<rparr>)"
    using i(5) by (auto simp: gc_ok_def r(2,3,6)) (simp_all add: r(4))
  ultimately show ?thesis
    using i retire_task_inv [OF i(1)] by (simp add: fw_inv_def owners_running_def r(3))
qed

lemma stage_inv:
  assumes inv: "fw_inv s"
  shows "fw_inv (s\<lparr>tk := (tk s)\<lparr>staged := cells\<rparr>\<rparr>)"
proof -
  let ?T = "(tk s)\<lparr>staged := cells\<rparr>"
  note i = fw_invD [OF inv]
  have f: "is_running ?T = is_running (tk s)" "handled ?T = handled (tk s)"
    "unfinished ?T = unfinished (tk s)"
    by (simp_all add: is_running_def handled_def unfinished_def fun_eq_iff)
  have "handles_ok ?T" using task_invD(1) [OF i(1)] handles_ok_cong [of ?T "tk s"] by simp
  then have "task_inv ?T"
    using i(1) by (simp add: task_inv_def running_ok_def answers_ok_def counts_ok_def f)
  then show ?thesis
    using i by (simp add: fw_inv_def owners_running_def gc_ok_def joins_live_def is_join_def
      no_request_def f)
qed

lemma collect_inv:
  assumes inv: "fw_inv s" and ok: "collect_ok ob hs answers s"
  shows "fw_inv (collected ob hs answers s)"
proof -
  note i = fw_invD [OF inv] and m = mark_invD [OF fw_invD(3) [OF inv]]
  let ?M = "(mk s)\<lparr>headers := hs\<rparr>"
  have c: "objects_ok ob" "\<And>l. marked (mk s) l \<Longrightarrow> ob l = heap s l \<and> hs l = headers (mk s) l"
    "\<And>l. \<not> marked (mk s) l \<Longrightarrow> \<not> h_pending (hs l)"
    using ok by (auto simp: collect_ok_def split: if_splits)
  have live: "mark_live ?M = mark_live (mk s)" by (simp add: mark_live_def fun_eq_iff)
  then have wm: "written ?M = written (mk s)" "marked ?M = marked (mk s)"
    by (simp_all add: written_def marked_def fun_eq_iff)
  have wr: "written (mk s) l \<Longrightarrow> marked (mk s) l" for l by (auto simp: written_def marked_def)
  have "flags_ok ?M"
    unfolding flags_ok_def wm
  proof
    fix l
    have old: "h_pending (headers (mk s) l) =
        (written (mk s) l \<or> marked (mk s) l \<and> \<not> h_readonly (headers (mk s) l))"
      using m(6) by (simp add: flags_ok_def)
    show "h_pending (headers ?M l) = (written (mk s) l \<or> marked (mk s) l \<and> \<not> h_readonly (headers ?M l))"
      using old c(2,3) [of l] wr [of l] by (cases "marked (mk s) l") auto
  qed
  moreover have mm: "marks ?M = marks (mk s)" by simp
  have "one_mark_each ?M = one_mark_each (mk s)" unfolding one_mark_each_def live mm ..
  ultimately have "mark_inv (heap s) ?M"
    using m by (simp add: mark_inv_def mark_chains_ok_def mark_bounds_ok_def mark_stores_ok_def
        mark_owners_ok_def live)
  then have "mark_inv ob ?M"
    by (rule mark_inv_heap [OF _ c(1)]) (simp add: wm(2) c(2))
  then show ?thesis
    using i ok by (simp add: fw_inv_def collect_ok_def owners_running_def collected_def live)
qed

lemma wait_all_inv:
  assumes inv: "fw_inv s" and w: "filc_async_wait_all bs n s = Inr (token, s')"
  shows "fw_inv s'"
  using w
proof (rule wait_all_cases)
  fix s0 s1 assume a: "s0 = s \<or> (\<exists>p. gc_alloc_or_die s = Inr (p, s0))"
    and b: "gc_alloc_or_die s0 = Inr (token, s1)"
    and c: "concat (map (input_marks (mk s1)) (take (unat n) (the bs))) = [] \<and> s' = s1 \<or>
     join_publish token (concat (map (input_marks (mk s1)) (take (unat n) (the bs)))) s1 = Inr s'"
  have i0: "fw_inv s0" using a inv gc_alloc_inv(1) by blast
  note g = gc_alloc_inv [OF i0 b]
  from c show ?thesis using g(1,4) join_publish_spec by metis
qed

lemma complete_idle:
  "\<not> is_running (tk s) t \<Longrightarrow> filc_async_complete t r s = Inr s"
  by (simp add: filc_async_complete_def task_state_def is_running_def)

lemma complete_inv:
  assumes inv: "fw_inv s" and ready: "no_request s t" and c: "filc_async_complete t r s = Inr s'"
  shows "fw_inv s'"
proof (cases "is_running (tk s) t")
  case True
  show ?thesis by (rule complete_spec [OF inv True ready, of r]) (use c in auto)
next
  case False
  with c inv show ?thesis by (simp add: complete_idle)
qed

lemma complete_later:
  assumes inv: "fw_inv s" and ready: "no_request s t" and c: "filc_async_complete t r s = Inr s'"
  shows "mark_later (mk s) (mk s')"
proof (cases "is_running (tk s) t")
  case True
  note m = fw_invD(3) [OF inv]
  have "t \<noteq> 0" using True running_nonnull task_invD(2) [OF fw_invD(1) [OF inv]] by blast
  then have "distinct (task_marks (mk s) t)" "\<And>x. x \<in> set (task_marks (mk s) t) \<Longrightarrow> mark_live (mk s) x"
    using mark_invD(5) [OF m] by (auto simp: mark_owners_ok_def)
  then have l: "mark_later (mk s) (marks_remove (task_marks (mk s) t) (mk s))"
    by (rule marks_remove_later [OF m])
  show ?thesis by (rule complete_spec [OF inv True ready, of r]) (use c l in auto)
next
  case False
  with c show ?thesis by (simp add: complete_idle)
qed

lemma fw_step_inv:
  assumes "fw_step shr s s'" and "fw_inv s"
  shows "fw_inv s'"
  using assms
proof cases
  case (begin_call meta args t)
  then show ?thesis using task_begin_spec(1) [OF assms(2)] by (simp add: filc_async_begin_def)
next
  case (task_new rt t)
  then show ?thesis using task_begin_spec(1) [OF assms(2)] by (simp add: filc_async_task_new_def)
next
  case (enqueue t v sp wr h L)
  then show ?thesis using enqueue_inv [OF assms(2)] by simp
next
  case (grant h)
  then show ?thesis using grant_inv [OF assms(2)] by simp
next
  case (own t buf active)
  then show ?thesis using mark_own_inv [OF assms(2)] by blast
next
  case (shared t buf)
  then show ?thesis using mark_shared_inv [OF assms(2)] by blast
next
  case (input t buf)
  then show ?thesis using mark_input_inv [OF assms(2)] by blast
next
  case (drop m)
  then show ?thesis using mark_remove_inv [OF assms(2)] by simp
next
  case (complete t r)
  then show ?thesis using complete_inv [OF assms(2)] by blast
next
  case (join_done t)
  then show ?thesis
    using complete_inv [OF assms(2)] fw_invD(6) [OF assms(2)] by (auto simp: joins_live_def)
next
  case (set_data t d)
  then show ?thesis using set_data_inv [OF assms(2)] by simp
next
  case (retire t)
  then show ?thesis using retire_inv [OF assms(2)] by simp
next
  case (wait_all bs n token)
  then show ?thesis using wait_all_inv [OF assms(2)] by blast
next
  case (stage cells)
  then show ?thesis using stage_inv [OF assms(2)] by simp
next
  case (counters a b c)
  with assms(2) show ?thesis
    by (simp add: fw_inv_def owners_running_def gc_ok_def joins_live_def is_join_def no_request_def)
next
  case (collect ob hs answers)
  then show ?thesis using collect_inv [OF assms(2)] by simp
qed

section \<open>Reachable states\<close>

definition fw_start :: "addr list \<Rightarrow> addr list \<Rightarrow> addr list \<Rightarrow> addr list \<Rightarrow> addr list \<Rightarrow> zptr list \<Rightarrow>
    addr set \<Rightarrow> objects \<Rightarrow> (addr \<Rightarrow> bool) \<Rightarrow> fw" where
  "fw_start tas bas las has mas gcs ar ob ro =
     \<lparr>tk = \<lparr>tasks = (\<lambda>_. task_zero), running = dll_empty, g_handles = None, g_handle_bits = 0,
            g_nhandles = 0, g_submitted = 0, g_completed = 0, g_failed = 0,
            staged = (\<lambda>_. []), task_answers = tas, table_answers = bas\<rparr>,
      lk = lock_table_init las has,
      mk = \<lparr>marks = (\<lambda>_. \<lparr>mk_buf = null_ptr, mk_lower = 0, mk_upper = 0, mk_generation = 0,
                           mk_owner = 0, mk_write = False\<rparr>),
            g_mark_buckets = (\<lambda>_. []), g_free_marks = [], task_marks = (\<lambda>_. []),
            g_resolver_set = False, headers = (\<lambda>l. \<lparr>h_readonly = ro l, h_pending = False\<rparr>),
            mark_answers = mas\<rparr>,
      joins = (\<lambda>_. []), g_pending_resolves = 0, g_lock_waits = 0, g_hook_resolves = 0,
      heap = ob, gc_answers = gcs, arena = ar\<rparr>"

definition start_ok :: "addr list \<Rightarrow> addr list \<Rightarrow> addr list \<Rightarrow> addr list \<Rightarrow> zptr list \<Rightarrow>
    addr set \<Rightarrow> objects \<Rightarrow> bool" where
  "start_ok tas las has mas gcs ar ob \<longleftrightarrow>
     distinct tas \<and> set tas \<subseteq> ar \<and> distinct las \<and> distinct has \<and> length has < count_range \<and>
     distinct mas \<and> objects_ok ob \<and> fresh_objects ob gcs \<and>
     (\<forall>p\<in>set gcs. zaddr p \<noteq> 0 \<longrightarrow> zaddr p \<notin> ar)"

lemma fw_start_inv:
  assumes ok: "start_ok tas las has mas gcs ar ob"
  shows "fw_inv (fw_start tas bas las has mas gcs ar ob ro)"
proof (rule fw_invI)
  let ?s = "fw_start tas bas las has mas gcs ar ob ro"
  have nr: "\<not> is_running (tk ?s) t" for t by (simp add: is_running_def fw_start_def task_zero_def)
  have nh: "handled (tk ?s) = {}" by (simp add: handled_def fw_start_def task_zero_def)
  have un: "unfinished (tk ?s) = {}" using nr by (simp add: unfinished_def)
  have "running_ok (tk ?s)"
    using nr dll_repr_empty by (auto simp: running_ok_def fw_start_def)
  moreover have "handles_ok (tk ?s)" using nh by (simp add: handles_ok_def) (simp add: fw_start_def)
  moreover have "answers_ok (tk ?s)"
    using ok nr nh by (auto simp: answers_ok_def start_ok_def handled_def)
      (simp_all add: fw_start_def task_zero_def)
  moreover have "counts_ok (tk ?s)" using un by (simp add: counts_ok_def) (simp add: fw_start_def)
  ultimately show "task_inv (tk ?s)" by (simp add: task_inv_def)
  have lk0: "lk ?s = lock_table_init las has" by (simp add: fw_start_def)
  show "lock_inv (lk ?s)" unfolding lk0 using ok by (intro lock_inv_init) (simp_all add: start_ok_def)
  have nl: "\<not> mark_live (mk ?s) m" for m by (simp add: mark_live_def fw_start_def)
  then have nm: "\<not> marked (mk ?s) l" "\<not> written (mk ?s) l" for l by (auto simp: marked_def written_def)
  show "mark_inv (heap ?s) (mk ?s)"
    using ok nl nm
    by (simp add: mark_inv_def mark_chains_ok_def mark_bounds_ok_def mark_stores_ok_def
        mark_owners_ok_def one_mark_each_def flags_ok_def start_ok_def)
       (simp add: fw_start_def null_ptr_def)
  have "\<not> lock_live (lk ?s) l" for l by (simp add: lk0 lock_live_def lock_table_init_def)
  then show "owners_running ?s" using nl by (simp add: owners_running_def held_def waiting_def)
  show "gc_ok ?s"
    using ok nr nh by (simp add: gc_ok_def start_ok_def) (simp add: fw_start_def task_zero_def)
  show "joins_live ?s" using nr by (simp add: joins_live_def is_join_def)
qed

inductive fw_reach :: "bool \<Rightarrow> fw \<Rightarrow> bool" for shr :: bool where
  start: "start_ok tas las has mas gcs ar ob \<Longrightarrow> fw_reach shr (fw_start tas bas las has mas gcs ar ob ro)"
| step: "fw_reach shr s \<Longrightarrow> fw_step shr s s' \<Longrightarrow> fw_reach shr s'"

lemma fw_reach_inv: "fw_reach shr s \<Longrightarrow> fw_inv s"
  by (induction rule: fw_reach.induct) (auto intro: fw_start_inv fw_step_inv)

lemma fw_steps_inv: "(fw_step shr)\<^sup>*\<^sup>* s s' \<Longrightarrow> fw_inv s \<Longrightarrow> fw_inv s'"
  by (induction rule: rtranclp_induct) (auto intro: fw_step_inv)

lemma fw_steps_reach: "(fw_step shr)\<^sup>*\<^sup>* s s' \<Longrightarrow> fw_reach shr s \<Longrightarrow> fw_reach shr s'"
  by (induction rule: rtranclp_induct) (auto intro: fw_reach.step)

section \<open>What a step leaves alone\<close>

text \<open>A task that was started keeps its runtime, and once it has completed its state and
  result too. (Nobody reuses the struct of a task someone may still refer to.)\<close>

definition settled :: "fw \<Rightarrow> addr \<Rightarrow> bool" where
  "settled s t \<longleftrightarrow> t_runtime (tasks (tk s) t) \<noteq> No_Runtime \<and> \<not> is_running (tk s) t"

definition task_later :: "fw \<Rightarrow> fw \<Rightarrow> bool" where
  "task_later s s' \<longleftrightarrow>
     (\<forall>t. t_runtime (tasks (tk s) t) \<noteq> No_Runtime \<longrightarrow>
        t_runtime (tasks (tk s') t) = t_runtime (tasks (tk s) t) \<and>
        (\<not> is_running (tk s) t \<longrightarrow>
           t_result (tasks (tk s') t) = t_result (tasks (tk s) t) \<and>
           t_state (tasks (tk s') t) = t_state (tasks (tk s) t)))"

lemma task_laterD:
  assumes "task_later s s'" and "t_runtime (tasks (tk s) t) \<noteq> No_Runtime"
  shows "t_runtime (tasks (tk s') t) = t_runtime (tasks (tk s) t)"
    and "\<not> is_running (tk s) t \<Longrightarrow> t_result (tasks (tk s') t) = t_result (tasks (tk s) t) \<and>
           t_state (tasks (tk s') t) = t_state (tasks (tk s) t) \<and> \<not> is_running (tk s') t"
  using assms by (auto simp: task_later_def is_running_def)

lemma task_later_refl [simp]: "task_later s s"
  by (simp add: task_later_def)

lemma task_later_trans:
  assumes a: "task_later s s1" and b: "task_later s1 s2"
  shows "task_later s s2"
  unfolding task_later_def
proof (intro allI impI)
  fix t assume t: "t_runtime (tasks (tk s) t) \<noteq> No_Runtime"
  note a' = task_laterD [OF a t]
  have "t_runtime (tasks (tk s1) t) \<noteq> No_Runtime" using a'(1) t by simp
  note b' = task_laterD [OF b this]
  show "t_runtime (tasks (tk s2) t) = t_runtime (tasks (tk s) t) \<and>
        (\<not> is_running (tk s) t \<longrightarrow> t_result (tasks (tk s2) t) = t_result (tasks (tk s) t) \<and>
           t_state (tasks (tk s2) t) = t_state (tasks (tk s) t))"
    using a' b' by simp
qed

lemma task_later_same:
  "(\<And>t. t_runtime (tasks (tk s) t) \<noteq> No_Runtime \<Longrightarrow> tasks (tk s') t = tasks (tk s) t) \<Longrightarrow> task_later s s'"
  by (simp add: task_later_def)

lemma task_later_frame: "tk s' = tk s \<Longrightarrow> task_later s s'"
  by (simp add: task_later_def)

lemma task_begin_later:
  assumes "fw_inv s" and "task_begin rt meta args s = Inr (t, s')" and "rt \<noteq> Join_Runtime"
  shows "task_later s s'" and "mk s' = mk s"
    and "is_join s u \<Longrightarrow> is_join s' u \<and> join_of s' u = join_of s u"
proof -
  obtain T where T: "task_start rt meta args (tk s) = Inr (t, T)" and s': "s' = s\<lparr>tk := T\<rparr>"
    using task_begin_spec(2) [OF assms] by blast
  note st = task_start_spec [OF fw_invD(1) [OF assms(1)] T]
  have "t_runtime (tasks (tk s) t) = No_Runtime"
    using task_invD(3) [OF fw_invD(1) [OF assms(1)]] st(2) by (simp add: answers_ok_def)
  then show "task_later s s'" by (intro task_later_same) (auto simp: s' st(5))
  show "mk s' = mk s" by (simp add: s')
  show "is_join s u \<Longrightarrow> is_join s' u \<and> join_of s' u = join_of s u"
    using st(7) by (auto simp: is_join_def join_of_def s' st(5,6))
qed

lemma wait_all_later:
  assumes inv: "fw_inv s" and w: "filc_async_wait_all bs n s = Inr (token, s')"
  shows "task_later s s' \<and> mark_later (mk s) (mk s') \<and>
    (\<forall>u. is_join s u \<longrightarrow> is_join s' u \<and> join_of s' u = join_of s u)"
  using w
proof (rule wait_all_cases)
  fix s0 s1 assume a: "s0 = s \<or> (\<exists>p. gc_alloc_or_die s = Inr (p, s0))"
    and b: "gc_alloc_or_die s0 = Inr (token, s1)"
    and c: "concat (map (input_marks (mk s1)) (take (unat n) (the bs))) = [] \<and> s' = s1 \<or>
     join_publish token (concat (map (input_marks (mk s1)) (take (unat n) (the bs)))) s1 = Inr s'"
  have i0: "fw_inv s0" using a inv gc_alloc_inv(1) by blast
  have e0: "tk s0 = tk s" "mk s0 = mk s" "joins s0 = joins s" "arena s0 = arena s"
    using a gc_alloc_inv(7,8,10,11) [OF inv] by auto
  note g = gc_alloc_inv [OF i0 b]
  have e1: "tk s1 = tk s" "mk s1 = mk s" "joins s1 = joins s" "arena s1 = arena s"
    using g(7-11) e0 by simp_all
  have j1: "is_join s1 u = is_join s u" "join_of s1 u = join_of s u" for u
    by (simp_all add: is_join_def join_of_def e1)
  from c show ?thesis
  proof
    assume "concat (map (input_marks (mk s1)) (take (unat n) (the bs))) = [] \<and> s' = s1"
    then show ?thesis using task_later_frame [OF e1(1)] by (simp add: j1 e1(2))
  next
    assume pub: "join_publish token (concat (map (input_marks (mk s1)) (take (unat n) (the bs)))) s1 = Inr s'"
    show ?thesis
    proof (rule join_publish_spec [OF g(1,4) pub])
      fix t m assume p: "\<not> is_running (tk s1) t" "t \<notin> arena s1"
        "\<And>x. is_running (tk s') x = (is_running (tk s1) x \<or> x = t)"
        "\<And>x. x \<noteq> t \<Longrightarrow> tasks (tk s') x = tasks (tk s1) x"
        "\<And>x. is_join s1 x \<Longrightarrow> join_of s' x = join_of s1 x"
        "\<And>x. mark_live (mk s') x = (mark_live (mk s1) x \<or> x = m)"
        "\<And>x. x \<noteq> m \<Longrightarrow> marks (mk s') x = marks (mk s1) x"
        "marks (mk s') m = \<lparr>mk_buf = token, mk_lower = zlower token, mk_upper = zupper token,
           mk_generation = mk_generation (marks (mk s1) m) + 1, mk_owner = t, mk_write = True\<rparr>"
        "mk_generation (marks (mk s1) m) \<noteq> - 1" "t_runtime (tasks (tk s1) t) = No_Runtime"
      have "mark_later (mk s) (mk s')"
        using p(6-9) by (intro mark_later_add [of _ _ m]) (simp_all add: e1)
      moreover have "task_later s s'"
      proof (rule task_later_same)
        fix x assume "t_runtime (tasks (tk s) x) \<noteq> No_Runtime"
        then have "x \<noteq> t" using p(10) by (auto simp: e1)
        then show "tasks (tk s') x = tasks (tk s) x" using p(4) by (simp add: e1)
      qed
      moreover have "is_join s' u \<and> join_of s' u = join_of s u" if "is_join s u" for u
      proof -
        have u: "is_join s1 u" "u \<noteq> t" using that p(1) by (auto simp: j1 is_join_def e1)
        then show ?thesis using p(3,4,5) j1 by (auto simp: is_join_def)
      qed
      ultimately show ?thesis by blast
    qed
  qed
qed

lemma complete_task_later:
  assumes inv: "fw_inv s" and ready: "no_request s t" and c: "filc_async_complete t r s = Inr s'"
  shows "task_later s s'" and "u \<noteq> t \<or> \<not> is_running (tk s) t \<Longrightarrow> is_join s u \<Longrightarrow>
      is_join s' u \<and> join_of s' u = join_of s u" and "\<not> is_running (tk s') t"
proof -
  have "task_later s s' \<and> \<not> is_running (tk s') t \<and> (u \<noteq> t \<or> \<not> is_running (tk s) t \<longrightarrow> is_join s u \<longrightarrow>
      is_join s' u \<and> join_of s' u = join_of s u)"
  proof (cases "is_running (tk s) t")
    case True
    note d = task_done_spec [OF fw_invD(1) [OF inv] True, where result = r]
    obtain M L where s': "s' = s\<lparr>tk := task_done t r (tk s), mk := M, lk := L\<rparr>"
      using complete_spec [OF inv True ready, of r] c by (metis Inr_inject)
    have "task_later s s'"
      unfolding task_later_def
    proof (intro allI impI)
      fix x
      show "t_runtime (tasks (tk s') x) = t_runtime (tasks (tk s) x) \<and>
        (\<not> is_running (tk s) x \<longrightarrow> t_result (tasks (tk s') x) = t_result (tasks (tk s) x) \<and>
           t_state (tasks (tk s') x) = t_state (tasks (tk s) x))"
        using True d(3) [of x] d(8) [of x] by (cases "x = t") (simp_all add: s')
    qed
    then show ?thesis
      using True by (auto simp: s' is_join_def join_of_def d(2,3))
  next
    case False
    with c show ?thesis by (simp add: complete_idle)
  qed
  then show "task_later s s'" and "u \<noteq> t \<or> \<not> is_running (tk s) t \<Longrightarrow> is_join s u \<Longrightarrow>
      is_join s' u \<and> join_of s' u = join_of s u" and "\<not> is_running (tk s') t" by blast+
qed

lemma marks_later:
  "mark_later (mk s) M \<Longrightarrow> s' = s\<lparr>mk := M\<rparr> \<Longrightarrow>
   mark_later (mk s) (mk s') \<and> task_later s s' \<and> (is_join s u \<longrightarrow> is_join s' u \<and> join_of s' u = join_of s u)"
  by (simp add: task_later_frame is_join_def join_of_def)

lemma mark_own_only: "mark_own t buf s = Inr s' \<Longrightarrow> s' = s\<lparr>mk := mk s'\<rparr>"
  by (erule mark_own_cases) simp_all

lemma mark_shared_later:
  assumes inv: "fw_inv s" and buf: "points_into s buf" and run: "is_running (tk s) t"
    and sh: "filc_async_mark_shared t buf s = Inr s'"
  shows "mark_later (mk s) (mk s')" and "s' = s\<lparr>mk := mk s'\<rparr>"
proof -
  have "s' = s \<or> mark_own t buf s = Inr s'"
    using sh unfolding filc_async_mark_shared_def by (auto split: if_splits)
  then show "mark_later (mk s) (mk s')" and "s' = s\<lparr>mk := mk s'\<rparr>"
    using mark_own_later [OF inv buf disjI2 [OF run]] mark_own_only by auto
qed

lemma mark_input_later:
  assumes inv: "fw_inv s" and buf: "points_into s buf" and run: "is_running (tk s) t"
    and inp: "filc_async_mark_input t buf s = Inr s'"
  shows "mark_later (mk s) (mk s') \<and> s' = s\<lparr>mk := mk s'\<rparr>"
  using inp
proof (cases rule: mark_input_cases)
  case (new M)
  show ?thesis
  proof (rule mark_add_inv [OF inv buf disjI2 [OF run] new(1,2)])
    fix m assume "\<And>x. mark_live M x = (mark_live (mk s) x \<or> x = m)"
      "\<And>x. x \<noteq> m \<Longrightarrow> marks M x = marks (mk s) x"
      "marks M m = \<lparr>mk_buf = buf, mk_lower = zlower buf, mk_upper = zupper buf,
         mk_generation = mk_generation (marks (mk s) m) + 1, mk_owner = t, mk_write = False\<rparr>"
      "mk_generation (marks (mk s) m) \<noteq> - 1"
    then have "mark_later (mk s) M" by (simp add: mark_later_add)
    then show ?thesis using new(3) by simp
  qed
qed simp

text \<open>One step: marks move on, completed tasks keep their result, and a join keeps its entries
  unless it completes, which it does only when none of them is pending.\<close>

lemma fw_step_later:
  assumes st: "fw_step shr s s'" and inv: "fw_inv s"
  shows "mark_later (mk s) (mk s') \<and> task_later s s' \<and>
    (is_join s u \<longrightarrow> is_join s' u \<and> join_of s' u = join_of s u \<or>
                    join_ready s u \<and> \<not> is_running (tk s') u)"
  using st
proof cases
  case (begin_call meta args t)
  then have "task_begin (m_runtime meta) (Some meta) args s = Inr (t, s')"
    by (simp add: filc_async_begin_def)
  then show ?thesis using task_begin_later [OF inv] begin_call(1) by auto
next
  case (task_new rt t)
  then show ?thesis using task_begin_later [OF inv] unfolding filc_async_task_new_def by auto
next
  case (own t buf active)
  then show ?thesis
    using marks_later [OF mark_own_later [OF inv own(2,1,4)] mark_own_only [OF own(4)]] by blast
next
  case (shared t buf)
  note sh = mark_shared_later [OF inv shared(3,2,4)]
  show ?thesis using marks_later [OF sh] by blast
next
  case (input t buf)
  note inp = mark_input_later [OF inv input(2,1,3)]
  show ?thesis using marks_later [OF conjunct1 [OF inp] conjunct2 [OF inp]] by blast
next
  case (drop m)
  show ?thesis using marks_later [OF mark_remove_later [OF fw_invD(3) [OF inv] drop(2)] drop(1)] by blast
next
  case (complete t r)
  have "u \<noteq> t" if "is_join s u" using that complete(1) by (auto simp: is_join_def)
  then show ?thesis
    using complete_later [OF inv complete(2,3)] complete_task_later [OF inv complete(2,3)] by blast
next
  case (join_done t)
  have nr: "no_request s t" using fw_invD(6) [OF inv] join_done(1) by (simp add: joins_live_def)
  show ?thesis
    using complete_later [OF inv nr join_done(3)] complete_task_later [OF inv nr join_done(3)] join_done(2)
    by (cases "u = t") auto
next
  case (set_data t d)
  then have "task_later s s'" by (simp add: task_later_def set_runtime_data_def)
  with set_data show ?thesis
    by (auto simp: set_runtime_data_def is_join_def join_of_def is_running_def)
next
  case (retire t)
  note r = retire_task_spec [OF task_invD(1) [OF fw_invD(1) [OF inv]], of t]
  have "task_later s s'" by (simp add: task_later_def retire) (simp add: r(4))
  moreover have "is_join s u \<Longrightarrow> is_join s' u \<and> join_of s' u = join_of s u"
    by (simp add: retire is_join_def join_of_def r(3)) (simp add: r(4))
  ultimately show ?thesis by (simp add: retire)
next
  case (wait_all bs n token)
  then show ?thesis using wait_all_later [OF inv] by blast
next
  case (stage cells)
  then have "task_later s s'" by (simp add: task_later_def)
  with stage show ?thesis by (simp add: is_join_def join_of_def is_running_def)
next
  case (collect ob hs answers)
  then have "mark_later (mk s) (mk s')"
    by (intro mark_later_same) (simp_all add: collected_def mark_live_def)
  moreover have "task_later s s'" using collect by (intro task_later_frame) (simp_all add: collected_def)
  ultimately show ?thesis using collect by (simp add: is_join_def join_of_def collected_def)
qed (simp_all add: task_later_frame is_join_def join_of_def)

lemma fw_steps_later:
  assumes "(fw_step shr)\<^sup>*\<^sup>* s s'" and "fw_inv s"
  shows "mark_later (mk s) (mk s') \<and> task_later s s'"
  using assms(1)
proof (induction rule: rtranclp_induct)
  case (step s1 s2)
  have "fw_inv s1" by (rule fw_steps_inv [OF step.hyps(1) assms(2)])
  with step fw_step_later [of shr s1 s2] show ?case
    by (auto intro: mark_later_trans task_later_trans)
qed simp

section \<open>Joins\<close>

lemma join_entry_pending_eq:
  assumes "fw_inv s"
  shows "join_entry_pending s e =
    (mark_live (mk s) (je_mark e) \<and> mk_generation (marks (mk s) (je_mark e)) = je_generation e)"
  using mark_invD(3,4) [OF fw_invD(3) [OF assms]]
  by (auto simp: join_entry_pending_def mark_bounds_ok_def mark_stores_ok_def)

text \<open>The mark an entry recorded has been resolved, and perhaps its struct used again.\<close>

definition entry_gone :: "mark_table \<Rightarrow> join_entry \<Rightarrow> bool" where
  "entry_gone M e \<longleftrightarrow> je_generation e < mk_generation (marks M (je_mark e)) \<or>
     je_generation e = mk_generation (marks M (je_mark e)) \<and> \<not> mark_live M (je_mark e)"

definition entry_taken :: "mark_table \<Rightarrow> join_entry \<Rightarrow> bool" where
  "entry_taken M e \<longleftrightarrow> je_generation e \<le> mk_generation (marks M (je_mark e))"

lemma entry_later:
  assumes "mark_later M M'"
  shows "entry_gone M e \<Longrightarrow> entry_gone M' e" and "entry_taken M e \<Longrightarrow> entry_taken M' e"
  using assms [unfolded mark_later_def, rule_format, of "je_mark e"]
  unfolding entry_gone_def entry_taken_def by auto

lemma entry_gone_iff:
  "fw_inv s \<Longrightarrow> entry_taken (mk s) e \<Longrightarrow> entry_gone (mk s) e = (\<not> join_entry_pending s e)"
  by (auto simp: join_entry_pending_eq entry_gone_def entry_taken_def)

lemma join_run:
  assumes steps: "(fw_step shr)\<^sup>*\<^sup>* s s'" and inv: "fw_inv s" and j: "is_join s t"
    and taken: "\<forall>e\<in>set (join_of s t). entry_taken (mk s) e"
  shows "is_join s' t \<and> join_of s' t = join_of s t \<or> (\<forall>e\<in>set (join_of s t). entry_gone (mk s') e)"
  using steps
proof (induction rule: rtranclp_induct)
  case base
  then show ?case using j by simp
next
  case (step s1 s2)
  have i1: "fw_inv s1" by (rule fw_steps_inv [OF step.hyps(1) inv])
  have t1: "\<forall>e\<in>set (join_of s t). entry_taken (mk s1) e"
    using taken entry_later(2) fw_steps_later [OF step.hyps(1) inv] by blast
  note l = fw_step_later [OF step.hyps(2) i1, of t]
  from step.IH show ?case
  proof
    assume a: "is_join s1 t \<and> join_of s1 t = join_of s t"
    have "\<forall>e\<in>set (join_of s t). entry_gone (mk s2) e" if "join_ready s1 t"
      using that a t1 l entry_gone_iff [OF i1] entry_later(1) by (fastforce simp: join_ready_def)
    with a l show ?thesis by auto
  next
    assume "\<forall>e\<in>set (join_of s t). entry_gone (mk s1) e"
    with l entry_later(1) show ?thesis by blast
  qed
qed

lemma join_entries_kept:
  assumes "(fw_step shr)\<^sup>*\<^sup>* s s'" and "fw_inv s" and "t_runtime (tasks (tk s) t) = Join_Runtime"
    and "is_join s t \<Longrightarrow> join_of s t = es"
  shows "t_runtime (tasks (tk s') t) = Join_Runtime \<and> (is_join s' t \<longrightarrow> join_of s' t = es)"
  using assms(1)
proof (induction rule: rtranclp_induct)
  case (step s1 s2)
  have i1: "fw_inv s1" by (rule fw_steps_inv [OF step.hyps(1) assms(2)])
  note l = fw_step_later [OF step.hyps(2) i1, of t]
  have rt: "t_runtime (tasks (tk s1) t) \<noteq> No_Runtime" using step.IH by simp
  note k = task_laterD [OF conjunct1 [OF conjunct2 [OF l]] rt]
  have "is_join s1 t" if "is_join s2 t" using that k step.IH by (auto simp: is_join_def)
  with l step.IH k(1) show ?case by (auto simp: is_join_def)
qed (use assms(3,4) in auto)

lemma join_collect_spec:
  "(\<forall>e\<in>set es. je_generation e = mk_generation (marks M (je_mark e))) \<Longrightarrow>
   je_mark ` set (join_collect M ms es) = set ms \<union> je_mark ` set es \<and>
   (\<forall>e\<in>set (join_collect M ms es). je_generation e = mk_generation (marks M (je_mark e)))"
proof (induction ms arbitrary: es)
  case (Cons m ms)
  show ?case
  proof (cases "\<exists>e\<in>set es. je_mark e = m")
    case True
    with Cons.IH [OF Cons.prems] show ?thesis by auto
  next
    case False
    let ?es = "es @ [\<lparr>je_mark = m, je_generation = mk_generation (marks M m)\<rparr>]"
    have "\<forall>e\<in>set ?es. je_generation e = mk_generation (marks M (je_mark e))"
      using Cons.prems by auto
    from Cons.IH [OF this] False show ?thesis by auto
  qed
qed simp

lemma input_marks_iff:
  assumes "mark_chains_ok M" and "zaddr p \<noteq> 0"
  shows "m \<in> set (input_marks M p) \<longleftrightarrow>
    mark_live M m \<and> mk_lower (marks M m) = zlower p \<and> mk_write (marks M m)"
  using assms mark_liveD [OF assms(1)] by (auto simp: input_marks_def mark_live_def)

lemma wait_all_join:
  assumes inv: "fw_inv s" and w: "filc_async_wait_all bs n s = Inr (token, s')"
    and p: "p \<in> set (take (unat n) (the bs))" "zaddr p \<noteq> 0"
    and m: "mark_live (mk s) m" "mk_lower (marks (mk s) m) = zlower p" "mk_write (marks (mk s) m)"
  obtains t k where "fw_inv s'" "is_join s' t" "\<forall>e\<in>set (join_of s' t). entry_taken (mk s') e"
    "\<lparr>je_mark = m, je_generation = mk_generation (marks (mk s) m)\<rparr> \<in> set (join_of s' t)"
    "mark_live (mk s') k" "mk_lower (marks (mk s') k) = zlower token" "mk_owner (marks (mk s') k) = t"
    "mk_write (marks (mk s') k)"
    "\<And>x. mark_live (mk s') x \<Longrightarrow> mk_lower (marks (mk s') x) = zlower token \<Longrightarrow> x = k"
  using w
proof (rule wait_all_cases)
  fix s0 s1 assume a: "s0 = s \<or> (\<exists>p. gc_alloc_or_die s = Inr (p, s0))"
    and b: "gc_alloc_or_die s0 = Inr (token, s1)"
    and c: "concat (map (input_marks (mk s1)) (take (unat n) (the bs))) = [] \<and> s' = s1 \<or>
     join_publish token (concat (map (input_marks (mk s1)) (take (unat n) (the bs)))) s1 = Inr s'"
  let ?ms = "concat (map (input_marks (mk s1)) (take (unat n) (the bs)))"
  have i0: "fw_inv s0" using a inv gc_alloc_inv(1) by blast
  note g = gc_alloc_inv [OF i0 b]
  have e1: "mk s1 = mk s" "mk s0 = mk s" using a gc_alloc_inv(8) [OF inv] g(8) by auto
  have "m \<in> set (input_marks (mk s1) p)"
    using m p(2) input_marks_iff mark_invD(2) [OF fw_invD(3) [OF inv]] by (simp add: e1)
  then have mm: "m \<in> set ?ms" using p(1) by auto
  then have pub: "join_publish token ?ms s1 = Inr s'" using c by auto
  have fresh: "mk_lower (marks (mk s1) x) \<noteq> zlower token" if "mark_live (mk s1) x" for x
    using that g(3) mark_invD(3) [OF fw_invD(3) [OF i0]] by (auto simp: mark_bounds_ok_def e1)
  have col: "je_mark ` set (join_collect (mk s1) ?ms []) = set ?ms"
    "\<And>e. e \<in> set (join_collect (mk s1) ?ms []) \<Longrightarrow> je_generation e = mk_generation (marks (mk s1) (je_mark e))"
    using join_collect_spec [of "[]" "mk s1" ?ms] by auto
  have cap: "\<lparr>je_mark = m, je_generation = mk_generation (marks (mk s) m)\<rparr> \<in> set (join_collect (mk s1) ?ms [])"
  proof -
    obtain e where e: "e \<in> set (join_collect (mk s1) ?ms [])" "je_mark e = m" using mm col(1) by force
    have "e = \<lparr>je_mark = m, je_generation = mk_generation (marks (mk s) m)\<rparr>"
      using col(2) [OF e(1)] e(2) by (simp add: e1)
    with e(1) show ?thesis by simp
  qed
  show thesis
  proof (rule join_publish_spec [OF g(1,4) pub])
    fix t k assume q: "fw_inv s'" "is_join s' t" "join_of s' t = join_collect (mk s1) ?ms []"
      "\<And>x. mark_live (mk s') x = (mark_live (mk s1) x \<or> x = k)"
      "\<And>x. x \<noteq> k \<Longrightarrow> marks (mk s') x = marks (mk s1) x"
      "marks (mk s') k = \<lparr>mk_buf = token, mk_lower = zlower token, mk_upper = zupper token,
         mk_generation = mk_generation (marks (mk s1) k) + 1, mk_owner = t, mk_write = True\<rparr>"
      "mk_generation (marks (mk s1) k) \<noteq> - 1"
    have l: "mark_later (mk s1) (mk s')"
      by (rule mark_later_add [of _ _ k]) (use q in simp_all)
    have taken: "\<forall>e\<in>set (join_of s' t). entry_taken (mk s') e"
    proof
      fix e assume "e \<in> set (join_of s' t)"
      then have "entry_taken (mk s1) e" using col(2) by (simp add: q(3) entry_taken_def)
      then show "entry_taken (mk s') e" by (rule entry_later(2) [OF l])
    qed
    have only: "x = k" if "mark_live (mk s') x" "mk_lower (marks (mk s') x) = zlower token" for x
      using that fresh q(4,5) by (cases "x = k") auto
    have k: "mark_live (mk s') k" "mk_lower (marks (mk s') k) = zlower token"
      "mk_owner (marks (mk s') k) = t" "mk_write (marks (mk s') k)"
      by (simp_all add: q(4,6))
    have cap': "\<lparr>je_mark = m, je_generation = mk_generation (marks (mk s) m)\<rparr> \<in> set (join_of s' t)"
      using cap by (simp add: q(3))
    show thesis by (rule that [OF q(1,2) taken cap' k only])
  qed
qed

section \<open>One producer at a time\<close>

text \<open>Without the shared marks a runtime may add, an object has at most one write mark.\<close>

definition one_writer :: "mark_table \<Rightarrow> bool" where
  "one_writer M \<longleftrightarrow> (\<forall>m m'. mark_live M m \<longrightarrow> mark_live M m' \<longrightarrow> mk_write (marks M m) \<longrightarrow>
     mk_write (marks M m') \<longrightarrow> mk_lower (marks M m) = mk_lower (marks M m') \<longrightarrow> m = m')"

lemma one_writerD:
  "one_writer M \<Longrightarrow> mark_live M m \<Longrightarrow> mark_live M m' \<Longrightarrow> mk_write (marks M m) \<Longrightarrow>
   mk_write (marks M m') \<Longrightarrow> mk_lower (marks M m) = mk_lower (marks M m') \<Longrightarrow> m = m'"
  unfolding one_writer_def by blast

lemma one_writer_mono:
  assumes "one_writer M" and "\<And>x. mark_live M' x \<Longrightarrow> mark_live M x"
    and "\<And>x. mark_live M' x \<Longrightarrow> mk_write (marks M' x) \<Longrightarrow> mk_write (marks M x)"
    and "\<And>x. mark_live M' x \<Longrightarrow> mk_lower (marks M' x) = mk_lower (marks M x)"
  shows "one_writer M'"
  unfolding one_writer_def
proof (intro allI impI)
  fix m m' assume a: "mark_live M' m" "mark_live M' m'" "mk_write (marks M' m)" "mk_write (marks M' m')"
    "mk_lower (marks M' m) = mk_lower (marks M' m')"
  show "m = m'"
    by (rule one_writerD [OF assms(1)]) (use a assms(2-4) in auto)
qed

lemma one_writer_add:
  assumes "one_writer M" and "\<And>x. mark_live M' x = (mark_live M x \<or> x = m)"
    and "\<And>x. x \<noteq> m \<Longrightarrow> marks M' x = marks M x"
    and "\<And>x. mark_live M x \<Longrightarrow> mk_write (marks M' m) \<Longrightarrow>
           mk_lower (marks M x) = mk_lower (marks M' m) \<Longrightarrow> \<not> mk_write (marks M x)"
  shows "one_writer M'"
  unfolding one_writer_def
proof (intro allI impI)
  fix x y assume a: "mark_live M' x" "mark_live M' y" "mk_write (marks M' x)" "mk_write (marks M' y)"
    "mk_lower (marks M' x) = mk_lower (marks M' y)"
  show "x = y"
  proof (rule ccontr)
    assume ne: "x \<noteq> y"
    have old: "z \<noteq> m \<Longrightarrow> mark_live M' z \<Longrightarrow> mark_live M z" for z using assms(2) [of z] by blast
    consider "x = m" | "y = m" | "x \<noteq> m" "y \<noteq> m" by blast
    then show False
    proof cases
      case 1
      then show ?thesis using a ne old assms(3) [of y] assms(4) [of y] by metis
    next
      case 2
      then show ?thesis using a ne old assms(3) [of x] assms(4) [of x] by metis
    next
      case 3
      then show ?thesis using a ne old assms(3) [of x] assms(3) [of y] one_writerD [OF assms(1)] by metis
    qed
  qed
qed

lemma mark_own_one_writer:
  assumes inv: "fw_inv s" and one: "one_writer (mk s)" and buf: "points_into s buf"
    and run: "t = 0 \<or> is_running (tk s) t"
    and other: "mark_find_other active (mk s) (zlower buf) (zupper buf) t = None"
    and own: "mark_own t buf s = Inr s'"
  shows "one_writer (mk s')"
proof -
  note mi = mark_invD [OF fw_invD(3) [OF inv]]
  have hp: "heap s (zlower buf) = Some (zupper buf)" using buf by (simp add: points_into_def)
  have mine: "t \<noteq> 0 \<and> mk_owner (marks (mk s) x) = t"
    if "mark_live (mk s) x" "mk_lower (marks (mk s) x) = zlower buf" "mk_write (marks (mk s) x)" for x
    using that other mark_find_other_None [OF mi(1-3) hp] by blast
  show ?thesis
    using own
  proof (cases rule: mark_own_cases)
    case (again m)
    have m: "mark_live (mk s) m" "mk_lower (marks (mk s) m) = zlower buf" "mk_owner (marks (mk s) m) = t"
      using mark_owned_Some [OF mi(2) again(2)] by auto
    note w = mark_make_write_spec [OF fw_invD(3) [OF inv] m(1)]
    have same: "x = m" if "mark_live (mk s) x" "mk_lower (marks (mk s) x) = zlower buf"
      "mk_write (marks (mk s) x)" for x
      using mi(7) [unfolded one_mark_each_def, rule_format, of x m] that m mine [OF that] by simp
    have f: "mark_live (mk s') z = mark_live (mk s) z"
      "mk_lower (marks (mk s') z) = mk_lower (marks (mk s) z)"
      "mk_write (marks (mk s') z) = (z = m \<or> mk_write (marks (mk s) z))" for z
      by (simp_all add: again(3) w(2,3))
    show ?thesis
      unfolding one_writer_def f
    proof (intro allI impI)
      fix x y assume a: "mark_live (mk s) x" "mark_live (mk s) y"
        "x = m \<or> mk_write (marks (mk s) x)" "y = m \<or> mk_write (marks (mk s) y)"
        "mk_lower (marks (mk s) x) = mk_lower (marks (mk s) y)"
      show "x = y"
      proof (cases "mk_write (marks (mk s) x) \<and> mk_write (marks (mk s) y)")
        case True
        then show ?thesis by (intro one_writerD [OF one a(1,2) _ _ a(5)]) blast+
      next
        case False
        then have "mk_lower (marks (mk s) x) = zlower buf" "mk_lower (marks (mk s) y) = zlower buf"
          using a(3-5) m(2) by auto
        then show ?thesis using same [OF a(1)] same [OF a(2)] a(3,4) by blast
      qed
    qed
  next
    case (new M)
    show ?thesis
    proof (rule mark_add_inv [OF inv buf run new(1,2)])
      fix m assume p: "\<And>x. mark_live M x = (mark_live (mk s) x \<or> x = m)"
        "\<And>x. x \<noteq> m \<Longrightarrow> marks M x = marks (mk s) x"
        "marks M m = \<lparr>mk_buf = buf, mk_lower = zlower buf, mk_upper = zupper buf,
           mk_generation = mk_generation (marks (mk s) m) + 1, mk_owner = t, mk_write = True\<rparr>"
      have "one_writer M"
      proof (rule one_writer_add [OF one p(1,2)])
        fix x assume x: "mark_live (mk s) x" "mk_lower (marks (mk s) x) = mk_lower (marks M m)"
        show "\<not> mk_write (marks (mk s) x)"
          using mine [of x] x new(1) mark_owned_None [OF mi(2)] by (auto simp: p(3))
      qed
      then show ?thesis using new(3) by simp
    qed
  qed
qed

lemma remove_one_writer:
  assumes "mark_inv ob M" and "mark_live M m" and "one_writer M"
  shows "one_writer (mark_remove m M)"
  by (rule one_writer_mono [OF assms(3)])
     (auto simp: mark_remove_spec(2,3) [OF assms(1,2)])

lemma wait_all_one_writer:
  assumes inv: "fw_inv s" and one: "one_writer (mk s)"
    and w: "filc_async_wait_all bs n s = Inr (token, s')"
  shows "one_writer (mk s')"
  using w
proof (rule wait_all_cases)
  fix s0 s1 assume a: "s0 = s \<or> (\<exists>p. gc_alloc_or_die s = Inr (p, s0))"
    and b: "gc_alloc_or_die s0 = Inr (token, s1)"
    and c: "concat (map (input_marks (mk s1)) (take (unat n) (the bs))) = [] \<and> s' = s1 \<or>
     join_publish token (concat (map (input_marks (mk s1)) (take (unat n) (the bs)))) s1 = Inr s'"
  have i0: "fw_inv s0" using a inv gc_alloc_inv(1) by blast
  note g = gc_alloc_inv [OF i0 b]
  have e1: "mk s1 = mk s" "mk s0 = mk s" using a gc_alloc_inv(8) [OF inv] g(8) by auto
  have fresh: "mk_lower (marks (mk s1) x) \<noteq> zlower token" if "mark_live (mk s1) x" for x
    using that g(3) mark_invD(3) [OF fw_invD(3) [OF i0]] by (auto simp: mark_bounds_ok_def e1)
  from c show ?thesis
  proof
    assume pub: "join_publish token (concat (map (input_marks (mk s1)) (take (unat n) (the bs)))) s1 = Inr s'"
    show ?thesis
    proof (rule join_publish_spec [OF g(1,4) pub])
      fix t k assume q: "\<And>x. mark_live (mk s') x = (mark_live (mk s1) x \<or> x = k)"
        "\<And>x. x \<noteq> k \<Longrightarrow> marks (mk s') x = marks (mk s1) x"
        "marks (mk s') k = \<lparr>mk_buf = token, mk_lower = zlower token, mk_upper = zupper token,
           mk_generation = mk_generation (marks (mk s1) k) + 1, mk_owner = t, mk_write = True\<rparr>"
      show ?thesis
        by (rule one_writer_add [OF _ q(1,2)]) (use one fresh in \<open>auto simp: e1 q(3)\<close>)
    qed
  qed (use one in \<open>simp add: e1\<close>)
qed

lemma complete_one:
  assumes inv: "fw_inv s" and ready: "no_request s t" and c: "filc_async_complete t r s = Inr s'"
    and one: "one_writer (mk s)"
  shows "one_writer (mk s')"
proof (cases "is_running (tk s) t")
  case True
  show ?thesis
  proof (rule complete_spec [OF inv True ready, of r])
    fix s2 assume p: "filc_async_complete t r s = Inr s2"
      "\<And>x. mark_live (mk s2) x = (mark_live (mk s) x \<and> mk_owner (marks (mk s) x) \<noteq> t)"
      "\<And>x. mk_owner (marks (mk s) x) \<noteq> t \<Longrightarrow> mark_live (mk s) x \<Longrightarrow> marks (mk s2) x = marks (mk s) x"
    have "one_writer (mk s2)" by (rule one_writer_mono [OF one]) (simp_all add: p(2,3))
    then show ?thesis using c p(1) by simp
  qed
next
  case False
  with c one show ?thesis by (simp add: complete_idle)
qed

lemma step_one_writer:
  assumes st: "fw_step False s s'" and inv: "fw_inv s" and one: "one_writer (mk s)"
  shows "one_writer (mk s')"
  using st
proof cases
  case (begin_call meta args t)
  then have "task_begin (m_runtime meta) (Some meta) args s = Inr (t, s')"
    by (simp add: filc_async_begin_def)
  then show ?thesis using task_begin_later(2) [OF inv] begin_call(1) one by simp
next
  case (task_new rt t)
  then show ?thesis using task_begin_later(2) [OF inv] one unfolding filc_async_task_new_def by simp
next
  case (own t buf active)
  show ?thesis by (rule mark_own_one_writer [OF inv one own(2,1,3,4)])
next
  case (input t buf)
  from input(3) show ?thesis
  proof (cases rule: mark_input_cases)
    case same
    with one show ?thesis by simp
  next
    case (new M)
    show ?thesis
    proof (rule mark_add_inv [OF inv input(2) disjI2 [OF input(1)] new(1,2)])
      fix m assume p: "\<And>x. mark_live M x = (mark_live (mk s) x \<or> x = m)"
        "\<And>x. x \<noteq> m \<Longrightarrow> marks M x = marks (mk s) x"
        "marks M m = \<lparr>mk_buf = buf, mk_lower = zlower buf, mk_upper = zupper buf,
           mk_generation = mk_generation (marks (mk s) m) + 1, mk_owner = t, mk_write = False\<rparr>"
      have "one_writer M" by (rule one_writer_add [OF one p(1,2)]) (simp_all add: p(3))
      then show ?thesis using new(3) by simp
    qed
  qed
next
  case (drop m)
  then show ?thesis using remove_one_writer [OF fw_invD(3) [OF inv]] one by simp
next
  case (complete t r)
  then show ?thesis using complete_one [OF inv complete(2,3) one] by simp
next
  case (join_done t)
  have nr: "no_request s t" using fw_invD(6) [OF inv] join_done(1) by (simp add: joins_live_def)
  show ?thesis by (rule complete_one [OF inv nr join_done(3) one])
next
  case (wait_all bs n token)
  then show ?thesis using wait_all_one_writer [OF inv one] by blast
next
  case (collect ob hs answers)
  show ?thesis
    unfolding collect(1) collected_def by (rule one_writer_mono [OF one]) (simp_all add: mark_live_def)
qed (use one in \<open>simp_all add: set_runtime_data_def\<close>)

lemma reach_one_writer: "fw_reach False s \<Longrightarrow> one_writer (mk s)"
proof (induction rule: fw_reach.induct)
  case (start tas las has mas gcs ar ob bas ro)
  then show ?case by (simp add: one_writer_def mark_live_def fw_start_def)
next
  case (step s s')
  then show ?case using step_one_writer fw_reach_inv by blast
qed

end
