(* ===== verification/Waits.thy ===== *)
theory Waits
  imports Steps
begin

text \<open>
  The operations of \<^verbatim>\<open>filc_async.c\<close> that wait: a wait loop re-reads the
  framework's state, picks a task to wait for and asks that task's runtime to make progress.
  Runtimes are reached through the function pointers of \<^verbatim>\<open>struct filc_async_runtime\<close>,
  so a loop takes an \<^verbatim>\<open>env\<close> with the runtime's \<^verbatim>\<open>poll\<close> and
  \<^verbatim>\<open>submit\<close> and the effect \<^verbatim>\<open>rt_changed\<close> of sleeping on the
  framework's condition variable, during which other threads act.  A world is the framework's
  state together with whatever the runtimes keep.  The first argument is fuel: a loop that has
  not ended when the fuel is spent is \<^verbatim>\<open>Inl No_Return\<close>.
\<close>

datatype filc_async_poll_mode = POLL_CHECK | POLL_PROGRESS | POLL_BLOCK

type_synonym 'r world = "fw \<times> 'r"

record thread =
  g_running_body :: addr
  g_active :: "addr list"

record 'r env =
  rt_poll :: "runtime_ref \<Rightarrow> addr \<Rightarrow> filc_async_poll_mode \<Rightarrow> 'r world \<Rightarrow> (bool \<times> 'r world) outcome"
  rt_submit :: "runtime_ref \<Rightarrow> thread \<Rightarrow> addr \<Rightarrow> filc_async_meta \<Rightarrow> addr \<Rightarrow> addr \<Rightarrow> u64 \<Rightarrow>
      'r world \<Rightarrow> 'r world outcome"
  rt_changed :: "'r world \<Rightarrow> 'r world"

abbreviation upd_fw :: "(fw \<Rightarrow> fw) \<Rightarrow> 'r world \<Rightarrow> 'r world" where
  "upd_fw f w \<equiv> (f (fst w), snd w)"

section \<open>Asking runtimes\<close>

function (sequential)
  poll_task :: "nat \<Rightarrow> 'r env \<Rightarrow> addr \<Rightarrow> filc_async_poll_mode \<Rightarrow> 'r world \<Rightarrow> (bool \<times> 'r world) outcome"
and join_loop :: "nat \<Rightarrow> 'r env \<Rightarrow> addr \<Rightarrow> join_entry list \<Rightarrow> filc_async_poll_mode \<Rightarrow> 'r world \<Rightarrow>
      (bool \<times> 'r world) outcome"
and join_visit :: "nat \<Rightarrow> 'r env \<Rightarrow> join_entry list \<Rightarrow> filc_async_poll_mode \<Rightarrow> 'r world \<Rightarrow> 'r world outcome"
where
  "poll_task n E t mode w =
    (case t_runtime (tasks (tk (fst w)) t) of
       Join_Runtime \<Rightarrow>
         (case n of 0 \<Rightarrow> Inl No_Return
          | Suc k \<Rightarrow> join_loop k E t (join_of (fst w) t) mode w)
     | rt \<Rightarrow> rt_poll E rt t mode w)"
| "join_loop n E t es mode w =
    (if task_state (fst w) t \<noteq> 1 then Inr (True, w)
     else res_bind (join_visit n E es mode w) (\<lambda>w1.
       if \<not> list_ex (join_entry_pending (fst w1)) es
       then res_bind (filc_async_complete t 0 (fst w1))
              (\<lambda>s. Inr (True, (set_runtime_data t 0 s, snd w1)))
       else if mode \<noteq> POLL_BLOCK then Inr (task_state (fst w1) t \<noteq> 1, w1)
       else (case n of 0 \<Rightarrow> Inl No_Return
             | Suc k \<Rightarrow> join_loop k E t es mode (rt_changed E w1))))"
| "join_visit n E [] mode w = Inr w"
| "join_visit n E (e # es) mode w =
    (let owner = mk_owner (marks (mk (fst w)) (je_mark e)) in
     if \<not> join_entry_pending (fst w) e \<or> owner = 0 then join_visit n E es mode w
     else res_bind (poll_task n E owner (if mode = POLL_CHECK then POLL_CHECK else POLL_PROGRESS) w)
            (\<lambda>(_, w1). join_visit n E es mode w1))"
  by pat_completeness auto

termination
  by (relation "inv_image (less_than <*lex*> less_than <*lex*> less_than)
        (\<lambda>x. case x of
           Inl (n, E, t, mode, w) \<Rightarrow> (n, 1::nat, 0::nat)
         | Inr (Inl (n, E, t, es, mode, w)) \<Rightarrow> (n, 3, 0)
         | Inr (Inr (n, E, es, mode, w)) \<Rightarrow> (n, 2, length es))") auto

definition join_poll :: "nat \<Rightarrow> 'r env \<Rightarrow> addr \<Rightarrow> filc_async_poll_mode \<Rightarrow> 'r world \<Rightarrow>
    (bool \<times> 'r world) outcome" where
  "join_poll n E t mode w = join_loop n E t (join_of (fst w) t) mode w"

fun wait_for :: "nat \<Rightarrow> 'r env \<Rightarrow> addr \<Rightarrow> 'r world \<Rightarrow> 'r world outcome" where
  "wait_for n E t w =
    (if task_state (fst w) t \<noteq> 1 then Inr w
     else case n of 0 \<Rightarrow> Inl No_Return
     | Suc k \<Rightarrow> res_bind (poll_task k E t POLL_BLOCK w)
         (\<lambda>(finished, w1). wait_for k E t
            (if \<not> finished \<and> task_state (fst w1) t = 1 then rt_changed E w1 else w1)))"

declare wait_for.simps [simp del] join_loop.simps [simp del] poll_task.simps [simp del]

section \<open>Dependency locks\<close>

fun lock_wait :: "nat \<Rightarrow> 'r env \<Rightarrow> addr \<Rightarrow> bool \<Rightarrow> 'r world \<Rightarrow> 'r world outcome" where
  "lock_wait n E h waited w =
    (if \<not> lock_blocked (lk (fst w)) h then Inr w
     else case n of 0 \<Rightarrow> Inl No_Return
     | Suc k \<Rightarrow>
         let w1 = (if waited then w else upd_fw (\<lambda>s. s\<lparr>g_lock_waits := g_lock_waits s + 1\<rparr>) w) in
         res_bind (case lock_holder (lk (fst w)) h of
                     Some holder \<Rightarrow> wait_for k E holder w1
                   | None \<Rightarrow> Inr (rt_changed E w1))
           (lock_wait k E h True))"

declare lock_wait.simps [simp del]

definition lock_take :: "nat \<Rightarrow> 'r env \<Rightarrow> addr \<Rightarrow> u64 \<Rightarrow> u32 \<Rightarrow> u32 \<Rightarrow> 'r world \<Rightarrow> 'r world outcome" where
  "lock_take n E t value space mode w =
     res_bind (lock_enqueue t value space (mode = FILC_ASYNC_DEP_WRITE) (lk (fst w)))
       (\<lambda>(h, L). res_bind (lock_wait n E h False (upd_fw (\<lambda>s. s\<lparr>lk := L\<rparr>) w))
         (\<lambda>w1. Inr (upd_fw (\<lambda>s. s\<lparr>lk := lock_grant h (lk s)\<rparr>) w1)))"

definition filc_async_lock_word ::
  "nat \<Rightarrow> 'r env \<Rightarrow> addr \<Rightarrow> u64 \<Rightarrow> u32 \<Rightarrow> u32 \<Rightarrow> 'r world \<Rightarrow> 'r world outcome" where
  "filc_async_lock_word n E t value space mode w =
     lock_take n E t value (space AND NOT FILC_ASYNC_DEP_POINTER) mode w"

definition filc_async_lock_ptr ::
  "nat \<Rightarrow> 'r env \<Rightarrow> addr \<Rightarrow> zptr \<Rightarrow> u32 \<Rightarrow> u32 \<Rightarrow> 'r world \<Rightarrow> 'r world outcome" where
  "filc_async_lock_ptr n E t ptr space mode w =
     lock_take n E t (if zaddr ptr \<noteq> 0 then zlower ptr else 0) (space OR FILC_ASYNC_DEP_POINTER) mode w"

section \<open>Pending buffers\<close>

fun mark_clear :: "nat \<Rightarrow> 'r env \<Rightarrow> addr list \<Rightarrow> addr \<Rightarrow> zptr \<Rightarrow> 'r world \<Rightarrow> 'r world outcome" where
  "mark_clear n E active t buf w =
    (case mark_find_other active (mk (fst w)) (zlower buf) (zupper buf) t of
       None \<Rightarrow> Inr w
     | Some m \<Rightarrow>
         (case n of 0 \<Rightarrow> Inl No_Return
          | Suc k \<Rightarrow>
              let owner = mk_owner (marks (mk (fst w)) m) in
              res_bind (if owner \<noteq> 0 then wait_for k E owner w
                        else Inr (upd_fw (\<lambda>s. s\<lparr>mk := mark_remove m (mk s)\<rparr>) w))
                (\<lambda>w1. mark_clear k E active t buf
                   (upd_fw (\<lambda>s. s\<lparr>g_pending_resolves := g_pending_resolves s + 1\<rparr>) w1))))"

declare mark_clear.simps [simp del]

definition filc_async_mark_pending ::
  "nat \<Rightarrow> 'r env \<Rightarrow> thread \<Rightarrow> addr \<Rightarrow> zptr \<Rightarrow> 'r world \<Rightarrow> 'r world outcome" where
  "filc_async_mark_pending n E th t buf w =
    (if zaddr buf = 0 then Inr w
     else res_bind (mark_clear n E (g_active th) t buf w)
       (\<lambda>w1. res_bind (mark_own t buf (fst w1)) (\<lambda>s. Inr (s, snd w1))))"

text \<open>The first owner on the object's chain that satisfies a condition.\<close>

definition owner_find :: "mark_table \<Rightarrow> zptr \<Rightarrow> (filc_async_mark \<Rightarrow> bool) \<Rightarrow> addr option" where
  "owner_find M buf P =
     map_option (\<lambda>m. mk_owner (marks M m))
       (List.find (\<lambda>m. overlaps (zlower buf) (zupper buf) (mk_lower (marks M m)) (mk_upper (marks M m)) \<and>
                       mk_owner (marks M m) \<noteq> 0 \<and> P (marks M m))
          (g_mark_buckets M (mark_bucket (zlower buf))))"

fun wait_owners :: "nat \<Rightarrow> 'r env \<Rightarrow> zptr \<Rightarrow> (filc_async_mark \<Rightarrow> bool) \<Rightarrow> 'r world \<Rightarrow> 'r world outcome" where
  "wait_owners n E buf P w =
    (case owner_find (mk (fst w)) buf P of
       None \<Rightarrow> Inr w
     | Some owner \<Rightarrow>
         (case n of 0 \<Rightarrow> Inl No_Return
          | Suc k \<Rightarrow> res_bind (wait_for k E owner w) (wait_owners k E buf P)))"

declare wait_owners.simps [simp del]

definition wait_buffer_locked :: "nat \<Rightarrow> 'r env \<Rightarrow> thread \<Rightarrow> addr \<Rightarrow> zptr \<Rightarrow> 'r world \<Rightarrow> 'r world outcome" where
  "wait_buffer_locked n E th t buf w =
     wait_owners n E buf
       (\<lambda>k. mk_write k \<and> mk_owner k \<noteq> t \<and> mk_owner k \<noteq> g_running_body th) w"

definition filc_async_wait_buffer :: "nat \<Rightarrow> 'r env \<Rightarrow> thread \<Rightarrow> addr \<Rightarrow> zptr \<Rightarrow> 'r world \<Rightarrow> 'r world outcome" where
  "filc_async_wait_buffer n E th t buf w =
    (if zaddr buf = 0 then Inr w else wait_buffer_locked n E th t buf w)"

definition access_own :: "thread \<Rightarrow> mark_table \<Rightarrow> zptr \<Rightarrow> bool" where
  "access_own th M object = (owner_find M object (\<lambda>k. mk_owner k \<in> set (g_active th)) \<noteq> None)"

definition wait_access_locked :: "nat \<Rightarrow> 'r env \<Rightarrow> thread \<Rightarrow> zptr \<Rightarrow> 'r world \<Rightarrow> 'r world outcome" where
  "wait_access_locked n E th object w =
    (let own = access_own th (mk (fst w)) object in
     wait_owners n E object
       (\<lambda>k. mk_owner k \<notin> set (g_active th) \<and> (mk_write k \<or> \<not> own)) w)"

definition resolve_access :: "nat \<Rightarrow> 'r env \<Rightarrow> thread \<Rightarrow> zptr \<Rightarrow> 'r world \<Rightarrow> 'r world outcome" where
  "resolve_access n E th object w =
     wait_access_locked n E th object
       (upd_fw (\<lambda>s. s\<lparr>g_hook_resolves := g_hook_resolves s + 1\<rparr>) w)"

definition filc_async_wait_access :: "nat \<Rightarrow> 'r env \<Rightarrow> thread \<Rightarrow> zptr \<Rightarrow> 'r world \<Rightarrow> 'r world outcome" where
  "filc_async_wait_access n E th buf w =
    (if zaddr buf = 0 then Inr w else wait_access_locked n E th buf w)"

section \<open>Running and submitting a call\<close>

definition MAX_ACTIVE :: nat where "MAX_ACTIVE = 32"

definition active_push :: "addr \<Rightarrow> thread \<Rightarrow> thread outcome" where
  "active_push t th =
    (if length (g_active th) = MAX_ACTIVE then Inl (Fatal ''annotated calls nested too deeply'')
     else Inr (th\<lparr>g_active := g_active th @ [t]\<rparr>))"

definition filc_async_submit ::
  "'r env \<Rightarrow> thread \<Rightarrow> addr \<Rightarrow> filc_async_meta \<Rightarrow> addr \<Rightarrow> addr \<Rightarrow> u64 \<Rightarrow> 'r world \<Rightarrow> 'r world outcome" where
  "filc_async_submit E th t meta run staged_args nargs w =
     res_bind (active_push t th)
       (\<lambda>th1. rt_submit E (m_runtime meta) th1 t meta run staged_args nargs w)"

definition filc_async_run ::
  "thread \<Rightarrow> addr \<Rightarrow> (thread \<Rightarrow> addr \<Rightarrow> 'r world \<Rightarrow> (u64 \<times> 'r world) outcome) option \<Rightarrow> addr \<Rightarrow> 'r world \<Rightarrow>
   (u64 \<times> 'r world) outcome" where
  "filc_async_run th t run staged_args w =
    (case run of
       None \<Rightarrow> Inr (0, w)
     | Some body \<Rightarrow>
         res_bind (active_push t (th\<lparr>g_running_body := t\<rparr>)) (\<lambda>th1. body th1 staged_args w))"

section \<open>Results\<close>

record filc_async_result_s =
  r_pending :: addr
  r_result :: u64
  r_state :: "8 word"

definition result_fill :: "fw \<Rightarrow> addr \<Rightarrow> filc_async_result_s \<Rightarrow> filc_async_result_s" where
  "result_fill s t out = out\<lparr>r_result := t_result (tasks (tk s) t), r_state := task_state s t\<rparr>"

definition filc_async_poll :: "nat \<Rightarrow> 'r env \<Rightarrow> filc_async_result_s option \<Rightarrow> 'r world \<Rightarrow>
    (bool \<times> filc_async_result_s option \<times> 'r world) outcome" where
  "filc_async_poll n E out w =
    (case out of
       None \<Rightarrow> Inr (False, None, w)
     | Some r \<Rightarrow>
         if r_pending r = 0 then Inr (False, out, w)
         else (case find_task (tk (fst w)) (r_pending r) of
             None \<Rightarrow> Inr (False, out, w)
           | Some t \<Rightarrow>
               res_bind (if task_state (fst w) t = 1
                         then map_sum id snd (poll_task n E t POLL_PROGRESS w) else Inr w)
                 (\<lambda>w1. let r1 = result_fill (fst w1) t r; finished = task_state (fst w1) t \<noteq> 1 in
                    Inr (finished, Some r1,
                         if finished then upd_fw (\<lambda>s. s\<lparr>tk := retire_task t (tk s)\<rparr>) w1 else w1))))"

definition filc_async_wait :: "nat \<Rightarrow> 'r env \<Rightarrow> filc_async_result_s option \<Rightarrow> 'r world \<Rightarrow>
    (filc_async_result_s option \<times> 'r world) outcome" where
  "filc_async_wait n E out w =
    (case out of
       None \<Rightarrow> Inr (None, w)
     | Some r \<Rightarrow>
         if r_pending r = 0 then Inr (out, w)
         else (case find_task (tk (fst w)) (r_pending r) of
             None \<Rightarrow> Inr (out, w)
           | Some t \<Rightarrow>
               res_bind (wait_for n E t w)
                 (\<lambda>w1. Inr (Some (result_fill (fst w1) t r),
                            upd_fw (\<lambda>s. s\<lparr>tk := retire_task t (tk s)\<rparr>) w1))))"

record filc_async_stats =
  st_submitted :: u64
  st_completed :: u64
  st_failed :: u64
  st_pending_resolves :: u64
  st_lock_waits :: u64
  st_hook_resolves :: u64

fun stats_walk :: "nat \<Rightarrow> 'r env \<Rightarrow> addr \<Rightarrow> 'r world \<Rightarrow> 'r world outcome" where
  "stats_walk n E t w =
    (if t = 0 then Inr w
     else case n of 0 \<Rightarrow> Inl No_Return
     | Suc k \<Rightarrow>
         res_bind (if task_state (fst w) t = 1 then map_sum id snd (poll_task k E t POLL_CHECK w) else Inr w)
           (\<lambda>w1. stats_walk k E (newer (running (tk (fst w1))) t) w1))"

declare stats_walk.simps [simp del]

definition filc_async_get_stats :: "nat \<Rightarrow> 'r env \<Rightarrow> filc_async_stats option \<Rightarrow> 'r world \<Rightarrow>
    (filc_async_stats option \<times> 'r world) outcome" where
  "filc_async_get_stats n E out w =
    (if out = None then Inr (None, w)
     else res_bind (stats_walk n E (oldest (running (tk (fst w)))) w)
       (\<lambda>w1. let s = fst w1 in
          Inr (Some \<lparr>st_submitted = g_submitted (tk s), st_completed = g_completed (tk s),
                st_failed = g_failed (tk s), st_pending_resolves = g_pending_resolves s,
                st_lock_waits = g_lock_waits s, st_hook_resolves = g_hook_resolves s\<rparr>, w1)))"

end
