(* ===== verification/Startup.thy ===== *)
theory Startup
  imports Waits
begin

text \<open>
  The rest of \<^verbatim>\<open>filc_async.c\<close>: the startup check of the descriptors the compiler
  emits, the deadline of the bounded wait on \<^verbatim>\<open>g_changed\<close>, and what
  \<^verbatim>\<open>filc_async_fatal\<close> prints.
\<close>

section \<open>Descriptors\<close>

definition FILC_ASYNC_DEP_NONE :: u32 where "FILC_ASYNC_DEP_NONE = 0"
definition FILC_ASYNC_DEP_NAMESPACE_SHIFT :: nat where "FILC_ASYNC_DEP_NAMESPACE_SHIFT = 8"
definition FILC_ASYNC_DEP_NAMESPACE_MASK :: u32 where "FILC_ASYNC_DEP_NAMESPACE_MASK = 0x00FFFFFF"

lemmas dep_consts = FILC_ASYNC_DEP_NONE_def FILC_ASYNC_DEP_READ_def FILC_ASYNC_DEP_WRITE_def
  FILC_ASYNC_DEP_POINTER_def FILC_ASYNC_DEP_NAMESPACE_SHIFT_def FILC_ASYNC_DEP_NAMESPACE_MASK_def

definition dependency_mode :: "u32 \<Rightarrow> u32" where
  "dependency_mode dep = dep AND (FILC_ASYNC_DEP_READ OR FILC_ASYNC_DEP_WRITE)"

definition dependency_ok :: "u32 \<Rightarrow> bool" where
  "dependency_ok dep =
    (let mode = dependency_mode dep in
     if mode = FILC_ASYNC_DEP_READ OR FILC_ASYNC_DEP_WRITE then False
     else if dep AND NOT (FILC_ASYNC_DEP_POINTER OR FILC_ASYNC_DEP_READ OR FILC_ASYNC_DEP_WRITE OR
               push_bit FILC_ASYNC_DEP_NAMESPACE_SHIFT FILC_ASYNC_DEP_NAMESPACE_MASK) \<noteq> 0 then False
     else if mode = FILC_ASYNC_DEP_NONE \<and> dep \<noteq> FILC_ASYNC_DEP_NONE then False
     else True)"

text \<open>The descriptor's flexible array has \<open>nargs\<close> entries; a shorter list would be a read out of
  the array's bounds, which stops a Fil-C program.\<close>

fun dependencies_walk :: "nat \<Rightarrow> dep_arg list \<Rightarrow> bool outcome" where
  "dependencies_walk 0 args = Inr True"
| "dependencies_walk (Suc n) [] = Inl (Fatal ''out of bounds'')"
| "dependencies_walk (Suc n) (a # args) =
    (if \<not> dependency_ok (a_dependency a) then Inr False else dependencies_walk n args)"

definition dependencies_ok :: "filc_async_meta \<Rightarrow> bool outcome" where
  "dependencies_ok m =
    (if m_noped_args m > m_nargs m then Inr False
     else dependencies_walk (unat (m_nargs m)) (m_args m))"

type_synonym validator = "filc_async_meta \<Rightarrow> bool"

text \<open>\<open>filc_async_set_validator\<close> stores its argument, \<open>NULL\<close> included.\<close>

definition filc_async_set_validator :: "validator option \<Rightarrow> validator option \<Rightarrow> validator option" where
  "filc_async_set_validator fn g_validator = fn"

fun filc_async_validate_table ::
  "validator option \<Rightarrow> (runtime_ref \<Rightarrow> validator) \<Rightarrow> filc_async_meta list \<Rightarrow> unit outcome" where
  "filc_async_validate_table g_validator rt_validate [] = Inr ()"
| "filc_async_validate_table g_validator rt_validate (m # metas) =
    (if m_runtime m = No_Runtime then Inl (Fatal ''function names no runtime'')
     else
       let ok = (case g_validator of Some f \<Rightarrow> f m | None \<Rightarrow> rt_validate (m_runtime m) m) in
       res_bind (dependencies_ok m) (\<lambda>deps.
         if \<not> deps \<or> \<not> ok then Inl (Fatal ''function cannot be registered on this runtime'')
         else filc_async_validate_table g_validator rt_validate metas))"

text \<open>What the bits of one dependency mean: none at all, or exactly one of read and write, with
  nothing in the bits between the pointer bit and the namespace.\<close>

definition dependency_shape :: "u32 \<Rightarrow> bool" where
  "dependency_shape dep \<longleftrightarrow> dep = 0 \<or> (bit dep 0 \<noteq> bit dep 1) \<and> (\<forall>i. 3 \<le> i \<and> i < 8 \<longrightarrow> \<not> bit dep i)"

lemma word32_bits_0_1: "(w AND 3 = (3::32 word)) = (bit w 0 \<and> bit w 1)"
  "(w AND 3 = (0::32 word)) = (\<not> bit w 0 \<and> \<not> bit w 1)"
  "(w AND 3 = (1::32 word)) = (bit w 0 \<and> \<not> bit w 1)"
  "(w AND 3 = (2::32 word)) = (\<not> bit w 0 \<and> bit w 1)"
proof -
  have b: "bit (3 :: 32 word) i = (i < 2)" for i
  proof -
    have *: "(3 :: 32 word) = mask 2" by (simp add: mask_eq_exp_minus_1)
    show ?thesis by (subst *, simp only: bit_mask_iff possible_bit_word) auto
  qed
  have e: "(w AND 3 = v) = (bit w 0 = bit v 0 \<and> bit w 1 = bit v 1)"
    if v: "\<And>i. 2 \<le> i \<Longrightarrow> \<not> bit v i" for v :: "32 word"
  proof
    assume "bit w 0 = bit v 0 \<and> bit w 1 = bit v 1"
    then have "bit (w AND 3) i = bit v i" for i
      unfolding bit_and_iff b using v [of i] by (cases "i = 0"; cases "i = 1") auto
    then show "w AND 3 = v" by (simp add: bit_eq_iff)
  next
    assume "w AND 3 = v"
    moreover have "bit (w AND 3) 0 = bit w 0" "bit (w AND 3) 1 = bit w 1"
      unfolding bit_and_iff b by simp_all
    ultimately show "bit w 0 = bit v 0 \<and> bit w 1 = bit v 1" by simp
  qed
  have one: "bit (1 :: 32 word) i = (i = 0)" for i by (simp add: bit_1_iff)
  have two: "bit (2 :: 32 word) i = (i = 1)" for i by (auto simp: bit_2_iff)
  note three = b
  show "(w AND 3 = (3::32 word)) = (bit w 0 \<and> bit w 1)" by (subst e; unfold three) auto
  show "(w AND 3 = (0::32 word)) = (\<not> bit w 0 \<and> \<not> bit w 1)" by (subst e) auto
  show "(w AND 3 = (1::32 word)) = (bit w 0 \<and> \<not> bit w 1)" by (subst e; unfold one) auto
  show "(w AND 3 = (2::32 word)) = (\<not> bit w 0 \<and> bit w 1)" by (subst e; unfold two) auto
qed

lemma reserved_bits: "(dep AND 0xF8 = (0 :: u32)) = (\<forall>i. 3 \<le> i \<and> i < 8 \<longrightarrow> \<not> bit dep i)"
proof -
  have *: "(0xF8 :: u32) = push_bit 3 (mask 5)" by (simp add: mask_eq_exp_minus_1)
  have b: "bit (0xF8 :: u32) i = (3 \<le> i \<and> i < 8)" for i
    by (subst *, simp only: bit_push_bit_iff bit_mask_iff possible_bit_word) auto
  have "\<And>i. bit dep i \<Longrightarrow> i < 32" by (auto dest: bit_imp_le_length)
  then show ?thesis unfolding bit_eq_iff bit_and_iff b by auto
qed

lemma dependency_ok_shape: "dependency_ok dep = dependency_shape dep"
proof -
  have m: "NOT (FILC_ASYNC_DEP_POINTER OR FILC_ASYNC_DEP_READ OR FILC_ASYNC_DEP_WRITE OR
      push_bit FILC_ASYNC_DEP_NAMESPACE_SHIFT FILC_ASYNC_DEP_NAMESPACE_MASK) = 0xF8"
    by (simp add: dep_consts)
  have n: "FILC_ASYNC_DEP_READ OR FILC_ASYNC_DEP_WRITE = 3" by (simp add: dep_consts)
  show ?thesis
    unfolding dependency_ok_def dependency_mode_def dependency_shape_def m n FILC_ASYNC_DEP_NONE_def Let_def
    by (auto simp: word32_bits_0_1 reserved_bits)
qed

lemma dependencies_walk_Inr:
  "n \<le> length args \<Longrightarrow>
   dependencies_walk n args = Inr (\<forall>a\<in>set (take n args). dependency_ok (a_dependency a))"
  by (induction n args rule: dependencies_walk.induct) auto

text \<open>A descriptor whose argument array is as long as it says.\<close>

definition meta_wf :: "filc_async_meta \<Rightarrow> bool" where
  "meta_wf m \<longleftrightarrow> length (m_args m) = unat (m_nargs m)"

definition meta_ok :: "validator option \<Rightarrow> (runtime_ref \<Rightarrow> validator) \<Rightarrow> filc_async_meta \<Rightarrow> bool" where
  "meta_ok g_validator rt_validate m \<longleftrightarrow> m_runtime m \<noteq> No_Runtime \<and> m_noped_args m \<le> m_nargs m \<and>
     (\<forall>a\<in>set (m_args m). dependency_shape (a_dependency a)) \<and>
     (case g_validator of Some f \<Rightarrow> f m | None \<Rightarrow> rt_validate (m_runtime m) m)"

lemma dependencies_ok_eq:
  "meta_wf m \<Longrightarrow> dependencies_ok m =
     Inr (m_noped_args m \<le> m_nargs m \<and> (\<forall>a\<in>set (m_args m). dependency_shape (a_dependency a)))"
  by (auto simp: dependencies_ok_def meta_wf_def dependencies_walk_Inr dependency_ok_shape)

section \<open>The bounded wait and the last message\<close>

record timespec =
  tv_sec :: int
  tv_nsec :: int

definition wait_deadline :: "timespec \<Rightarrow> timespec" where
  "wait_deadline now =
    (let d = now\<lparr>tv_nsec := tv_nsec now + 1000000\<rparr> in
     if tv_nsec d \<ge> 1000000000
     then d\<lparr>tv_sec := tv_sec d + 1, tv_nsec := tv_nsec d - 1000000000\<rparr> else d)"

definition filc_async_fatal :: "string \<Rightarrow> (nat \<times> string) list" where
  "filc_async_fatal msg =
     [(2, ''filc_async: fatal: '')] @ map (\<lambda>c. (2, [c])) msg @ [(2, [CHR 0x0A])]"

section \<open>Properties\<close>

lemma validate_table_cases:
  assumes "\<forall>m\<in>set metas. meta_wf m"
  shows "filc_async_validate_table g_validator rt_validate metas =
    (if \<forall>m\<in>set metas. meta_ok g_validator rt_validate m then Inr ()
     else if m_runtime (hd (dropWhile (meta_ok g_validator rt_validate) metas)) = No_Runtime
          then Inl (Fatal ''function names no runtime'')
          else Inl (Fatal ''function cannot be registered on this runtime''))"
  using assms
proof (induction metas)
  case (Cons m metas)
  have step: "filc_async_validate_table g_validator rt_validate (m # metas) =
    (if meta_ok g_validator rt_validate m then filc_async_validate_table g_validator rt_validate metas
     else if m_runtime m = No_Runtime then Inl (Fatal ''function names no runtime'')
     else Inl (Fatal ''function cannot be registered on this runtime''))"
    using Cons.prems by (simp add: meta_ok_def dependencies_ok_eq Let_def)
  show ?case unfolding step using Cons by (cases "meta_ok g_validator rt_validate m") simp_all
qed simp

text \<open>C35. Startup accepts a table of descriptors exactly when every function names a runtime, has
  no more operand annotations than arguments, gives each argument no dependency or exactly
  one of read and write with no stray bits, and is accepted by the program's validator or,
  without one, by its runtime; otherwise the process stops.\<close>

theorem validate_table_exact:
  assumes "\<forall>m\<in>set metas. meta_wf m"
  shows "filc_async_validate_table g_validator rt_validate metas =
    (if \<forall>m\<in>set metas. meta_ok g_validator rt_validate m then Inr ()
     else if m_runtime (hd (dropWhile (meta_ok g_validator rt_validate) metas)) = No_Runtime
          then Inl (Fatal ''function names no runtime'')
          else Inl (Fatal ''function cannot be registered on this runtime''))"
  using assms by (rule validate_table_cases)

text \<open>The wait for a change is bounded: the deadline is a valid time one millisecond ahead,
  whatever second it falls in.\<close>

theorem wait_deadline_bounds:
  assumes "0 \<le> tv_nsec now" and "tv_nsec now < 1000000000"
  shows "0 \<le> tv_nsec (wait_deadline now) \<and> tv_nsec (wait_deadline now) < 1000000000 \<and>
    tv_sec (wait_deadline now) * 1000000000 + tv_nsec (wait_deadline now) =
    tv_sec now * 1000000000 + tv_nsec now + 1000000"
  using assms by (simp add: wait_deadline_def Let_def)

lemma fatal_message: "concat (map snd (filc_async_fatal msg)) = ''filc_async: fatal: '' @ msg @ [CHR 0x0A]"
proof -
  have "concat (map snd (map (\<lambda>c. (2::nat, [c])) msg)) = msg" by (induction msg) simp_all
  then show ?thesis by (simp add: filc_async_fatal_def)
qed

section \<open>Witnesses\<close>

definition good_meta :: filc_async_meta where
  "good_meta = \<lparr>m_name = ''read_at'', m_nargs = 2, m_noped_args = 1, m_flags = 0, m_result = 1,
     m_opts = [], m_runtime = Linked 0x9000,
     m_args = [\<lparr>a_kind = 1, a_dependency = 0x00ABCD01\<rparr>, \<lparr>a_kind = 3, a_dependency = 0\<rparr>]\<rparr>"

theorem validate_table_exact_witness:
  "filc_async_validate_table None (\<lambda>_ _. True) [good_meta, good_meta\<lparr>m_noped_args := 3\<rparr>] =
     Inl (Fatal ''function cannot be registered on this runtime'')"
  using validate_table_exact [of "[good_meta, good_meta\<lparr>m_noped_args := 3\<rparr>]" None "\<lambda>_ _. True"]
  by (simp add: meta_wf_def meta_ok_def good_meta_def)

theorem wait_deadline_bounds_witness:
  "tv_nsec (wait_deadline \<lparr>tv_sec = 5, tv_nsec = 999999999\<rparr>) = 999999 \<and>
   tv_sec (wait_deadline \<lparr>tv_sec = 5, tv_nsec = 999999999\<rparr>) = 6"
  using wait_deadline_bounds [of "\<lparr>tv_sec = 5, tv_nsec = 999999999\<rparr>"]
  by (simp add: wait_deadline_def)

end
