(* ===== verification/Pass.thy ===== *)
theory Pass
  imports Startup
begin

text \<open>
  How \<^verbatim>\<open>src/compiler/pass/FilAsync.cpp\<close> reads the annotation of one function and
  what descriptor it emits: the kinds and dependencies of the arguments
  (\<^verbatim>\<open>parseKinds\<close>), the runtime (\<^verbatim>\<open>parseRuntime\<close>) and the
  \<^verbatim>\<open>filc_async_meta\<close> global (\<^verbatim>\<open>emitMeta\<close>), which is the record of theory
  \<^verbatim>\<open>Tasks\<close> that the runtime reads.  A compile-time fatal error is a value of
  \<^verbatim>\<open>pass_error\<close>, one constructor per diagnostic, so a function of the pass returns
  \<^verbatim>\<open>pass_error + 'a\<close>.  The LLVM IR the pass reads is data: a type is a pointer, an
  integer of some width, void, or another type by its name; a function carries its type, the
  names of its arguments, the two metadata nodes the patched clang attaches, its linkage and
  whether it has a body.
\<close>

section \<open>Functions of the module\<close>

datatype ir_type = Ptr_Ty | Int_Ty nat | Void_Ty | Other_Ty string

datatype ir_linkage = External_Linkage | Available_Externally | Internal_Linkage | Private_Linkage
  | Other_Linkage nat

record ir_func_type =
  ft_ret :: ir_type
  ft_params :: "ir_type list"
  ft_vararg :: bool

text \<open>The operands of \<open>!filc_async.params\<close> are strings or something else, those of
  \<open>!filc_async.const\<close> integers or something else.\<close>

record ir_func =
  f_type :: ir_func_type
  f_arg_names :: "string list"
  f_params_md :: "string option list option"
  f_const_md :: "int option list option"
  f_declaration :: bool
  f_linkage :: ir_linkage
  f_visibility :: nat

abbreviation f_params :: "ir_func \<Rightarrow> ir_type list" where
  "f_params F \<equiv> ft_params (f_type F)"

abbreviation f_nargs :: "ir_func \<Rightarrow> nat" where
  "f_nargs F \<equiv> length (f_params F)"

datatype pass_error =
    Fd_Option string
  | Obsolete_Dependency string
  | Needs_Namespace string
  | Empty_Namespace string
  | No_Such_Parameter string
  | Dependency_Type string
  | Conflicting_Dependencies string
  | Not_A_Pointer string string
  | Not_A_Runtime string
  | Two_Runtimes string string
  | No_Runtime_Option
  | Not_A_Function
  | Missing_Descriptor string

definition pass_bind :: "pass_error + 'a \<Rightarrow> ('a \<Rightarrow> pass_error + 'b) \<Rightarrow> pass_error + 'b" where
  "pass_bind m f = (case m of Inl e \<Rightarrow> Inl e | Inr x \<Rightarrow> f x)"

lemma pass_bind_simps [simp]:
  "pass_bind (Inl e) f = Inl e"
  "pass_bind (Inr x) f = f x"
  by (simp_all add: pass_bind_def)

lemma pass_bind_Inr [simp]:
  "(pass_bind m f = Inr y) = (\<exists>x. m = Inr x \<and> f x = Inr y)"
  by (cases m) (simp_all add: pass_bind_def)

section \<open>Constants\<close>

definition ARG_IGNORED :: u32 where "ARG_IGNORED = 0"
definition ARG_BUFFER_IN :: u32 where "ARG_BUFFER_IN = 2"
definition ARG_BUFFER_OUT :: u32 where "ARG_BUFFER_OUT = 3"
definition ARG_PENDING :: u32 where "ARG_PENDING = 5"
definition DEP_NONE :: u32 where "DEP_NONE = 0"
definition DEP_READ :: u32 where "DEP_READ = 1"
definition DEP_WRITE :: u32 where "DEP_WRITE = 2"
definition DEP_POINTER :: u32 where "DEP_POINTER = 4"
definition DEP_NAMESPACE_SHIFT :: nat where "DEP_NAMESPACE_SHIFT = 8"
definition DEP_NAMESPACE_MASK :: u32 where "DEP_NAMESPACE_MASK = 0x00FFFFFF"
definition RESULT_WORD :: u32 where "RESULT_WORD = 1"
definition RESULT_PTR :: u32 where "RESULT_PTR = 2"

lemmas arg_consts = ARG_IGNORED_def ARG_BUFFER_IN_def ARG_BUFFER_OUT_def ARG_PENDING_def

lemmas pass_dep_consts = DEP_NONE_def DEP_READ_def DEP_WRITE_def DEP_POINTER_def
  DEP_NAMESPACE_SHIFT_def DEP_NAMESPACE_MASK_def

section \<open>Names and types of the parameters\<close>

definition hash_namespace :: "string \<Rightarrow> u32" where
  "hash_namespace name =
    (let h = fold (\<lambda>c h. (h XOR of_char c) * 16777619) name 2166136261 AND DEP_NAMESPACE_MASK
     in if h \<noteq> 0 then h else 1)"

definition vec_resize :: "nat \<Rightarrow> 'a \<Rightarrow> 'a list \<Rightarrow> 'a list" where
  "vec_resize n d xs = take n xs @ replicate (n - length xs) d"

definition param_names :: "ir_func \<Rightarrow> string list" where
  "param_names F =
    (case f_params_md F of
       Some ops \<Rightarrow> vec_resize (f_nargs F) [] (map (\<lambda>s. case s of Some s \<Rightarrow> s | None \<Rightarrow> []) ops)
     | None \<Rightarrow> f_arg_names F)"

definition const_params :: "ir_func \<Rightarrow> bool list" where
  "const_params F =
     vec_resize (f_nargs F) False
       (case f_const_md F of Some ops \<Rightarrow> map (\<lambda>c. c = Some 1) ops | None \<Rightarrow> [])"

text \<open>The IR names every argument, possibly with the empty string.\<close>

definition func_wf :: "ir_func \<Rightarrow> bool" where
  "func_wf F \<longleftrightarrow> length (f_arg_names F) = f_nargs F"

lemma length_vec_resize [simp]: "length (vec_resize n d xs) = n"
  by (simp add: vec_resize_def)

lemma length_const_params [simp]: "length (const_params F) = f_nargs F"
  by (simp add: const_params_def)

lemma length_param_names [simp]: "func_wf F \<Longrightarrow> length (param_names F) = f_nargs F"
  by (simp add: param_names_def func_wf_def split: option.split)

section \<open>Argument options\<close>

definition starts_with :: "string \<Rightarrow> string \<Rightarrow> bool" where
  "starts_with p s = (take (length p) s = p)"

text \<open>What the prefix of an option says: nothing about the arguments, a kind or a dependency with
  the rest of the option, or one of the two errors.\<close>

datatype option_token = Other_Token | Kind_Token u32 string | Dep_Token u32 string
  | Fd_Token | Obsolete_Token

definition arg_token :: "string \<Rightarrow> option_token" where
  "arg_token opt =
    (if starts_with ''fd='' opt then Fd_Token
     else if starts_with ''bin='' opt then Kind_Token ARG_BUFFER_IN (drop 4 opt)
     else if starts_with ''bout='' opt then Kind_Token ARG_BUFFER_OUT (drop 5 opt)
     else if starts_with ''buf='' opt then Kind_Token ARG_PENDING (drop 4 opt)
     else if starts_with ''r_dep='' opt then Dep_Token DEP_READ (drop 6 opt)
     else if starts_with ''w_dep='' opt then Dep_Token DEP_WRITE (drop 6 opt)
     else if starts_with ''read_dep='' opt \<or> starts_with ''write_dep='' opt then Obsolete_Token
     else Other_Token)"

fun index_of :: "'a \<Rightarrow> 'a list \<Rightarrow> nat option" where
  "index_of x [] = None"
| "index_of x (y # ys) = (if y = x then Some 0 else map_option Suc (index_of x ys))"

definition find_param :: "ir_func \<Rightarrow> string \<Rightarrow> string \<Rightarrow> pass_error + nat" where
  "find_param F opt param =
    (case (if param = [] then None else index_of param (param_names F)) of
       None \<Rightarrow> Inl (No_Such_Parameter opt)
     | Some idx \<Rightarrow> Inr idx)"

text \<open>The parameter a dependency names, before the first colon; what follows must not be empty.\<close>

definition dep_param :: "string \<Rightarrow> string \<Rightarrow> pass_error + string" where
  "dep_param opt val =
    (if CHR '':'' \<notin> set val then Inl (Needs_Namespace opt)
     else if drop 1 (dropWhile (\<lambda>c. c \<noteq> CHR '':'') val) = [] then Inl (Empty_Namespace opt)
     else Inr (takeWhile (\<lambda>c. c \<noteq> CHR '':'') val))"

definition dep_type_ok :: "ir_type \<Rightarrow> bool" where
  "dep_type_ok ty = (case ty of Ptr_Ty \<Rightarrow> True | Int_Ty n \<Rightarrow> n \<le> 64 | _ \<Rightarrow> False)"

definition dep_word :: "u32 \<Rightarrow> ir_type \<Rightarrow> string \<Rightarrow> u32" where
  "dep_word mode ty val =
     mode OR (if ty = Ptr_Ty then DEP_POINTER else 0) OR
     push_bit DEP_NAMESPACE_SHIFT (hash_namespace val)"

text \<open>The state of \<open>parseKinds\<close>: \<open>Kinds\<close>, \<open>Deps\<close> and \<open>Noped\<close>.\<close>

record parsed =
  p_kinds :: "u32 list"
  p_deps :: "u32 list"
  p_noped :: u32

definition parse_dep :: "ir_func \<Rightarrow> string \<Rightarrow> u32 \<Rightarrow> string \<Rightarrow> parsed \<Rightarrow> pass_error + parsed" where
  "parse_dep F opt mode val P =
     pass_bind (dep_param opt val) (\<lambda>param.
     pass_bind (find_param F opt param) (\<lambda>idx.
       let ty = f_params F ! idx; word = dep_word mode ty val in
       if \<not> dep_type_ok ty then Inl (Dependency_Type param)
       else if p_deps P ! idx \<noteq> DEP_NONE \<and> p_deps P ! idx \<noteq> word then Inl (Conflicting_Dependencies param)
       else Inr (P\<lparr>p_deps := (p_deps P)[idx := word]\<rparr>)))"

definition parse_kind :: "ir_func \<Rightarrow> string \<Rightarrow> u32 \<Rightarrow> string \<Rightarrow> parsed \<Rightarrow> pass_error + parsed" where
  "parse_kind F opt kind val P =
     pass_bind (find_param F opt val) (\<lambda>idx.
       if f_params F ! idx \<noteq> Ptr_Ty then Inl (Not_A_Pointer opt val)
       else Inr (P\<lparr>p_noped := p_noped P + 1, p_kinds := (p_kinds P)[idx := kind]\<rparr>))"

definition parse_option :: "ir_func \<Rightarrow> string \<Rightarrow> parsed \<Rightarrow> pass_error + parsed" where
  "parse_option F opt P =
    (case arg_token opt of
       Fd_Token \<Rightarrow> Inl (Fd_Option opt)
     | Obsolete_Token \<Rightarrow> Inl (Obsolete_Dependency opt)
     | Other_Token \<Rightarrow> Inr P
     | Dep_Token mode val \<Rightarrow> parse_dep F opt mode val P
     | Kind_Token kind val \<Rightarrow> parse_kind F opt kind val P)"

fun parse_options :: "ir_func \<Rightarrow> string list \<Rightarrow> parsed \<Rightarrow> pass_error + parsed" where
  "parse_options F [] P = Inr P"
| "parse_options F (opt # opts) P = pass_bind (parse_option F opt P) (parse_options F opts)"

definition default_kind :: "ir_type \<Rightarrow> bool \<Rightarrow> u32" where
  "default_kind ty const =
    (if ty = Ptr_Ty then if const then ARG_BUFFER_IN else ARG_PENDING else ARG_IGNORED)"

definition parse_kinds :: "ir_func \<Rightarrow> string list \<Rightarrow> pass_error + parsed" where
  "parse_kinds F opts =
     parse_options F opts
       \<lparr>p_kinds = map2 default_kind (f_params F) (const_params F),
        p_deps = replicate (f_nargs F) DEP_NONE, p_noped = 0\<rparr>"

section \<open>The runtime option\<close>

definition isDigit :: "char \<Rightarrow> bool" where
  "isDigit c \<longleftrightarrow> (of_char c :: nat) \<ge> 48 \<and> (of_char c :: nat) \<le> 57"

definition isAlnum :: "char \<Rightarrow> bool" where
  "isAlnum c \<longleftrightarrow> isDigit c \<or> (of_char c :: nat) \<ge> 65 \<and> (of_char c :: nat) \<le> 90 \<or>
     (of_char c :: nat) \<ge> 97 \<and> (of_char c :: nat) \<le> 122"

definition c_identifier :: "string \<Rightarrow> bool" where
  "c_identifier n \<longleftrightarrow> n \<noteq> [] \<and> \<not> isDigit (hd n) \<and> list_all (\<lambda>c. isAlnum c \<or> c = CHR ''_'') n"

fun runtime_options :: "string list \<Rightarrow> string \<Rightarrow> pass_error + string" where
  "runtime_options [] name = (if name = [] then Inl No_Runtime_Option else Inr name)"
| "runtime_options (opt # opts) name =
    (if \<not> starts_with ''runtime='' opt then runtime_options opts name
     else let n = drop 8 opt in
       if \<not> c_identifier n then Inl (Not_A_Runtime opt)
       else if name \<noteq> [] \<and> name \<noteq> n then Inl (Two_Runtimes name n)
       else runtime_options opts n)"

definition parse_runtime :: "string list \<Rightarrow> pass_error + string" where
  "parse_runtime opts = runtime_options opts []"

section \<open>The descriptor\<close>

text \<open>\<open>link\<close> is the address the linker gives the symbol \<open>filc_async_runtime_<name>\<close>.  The options
  array points at string constants that read back as the options themselves.\<close>

definition emit_meta ::
  "(string \<Rightarrow> addr) \<Rightarrow> ir_func \<Rightarrow> string \<Rightarrow> string list \<Rightarrow> parsed \<Rightarrow> pass_error + filc_async_meta" where
  "emit_meta link F orig_name opts P =
     pass_bind (parse_runtime opts) (\<lambda>rt.
       Inr \<lparr>m_name = orig_name, m_nargs = of_nat (f_nargs F), m_noped_args = p_noped P, m_flags = 0,
            m_result = (if ft_ret (f_type F) = Ptr_Ty then RESULT_PTR else RESULT_WORD),
            m_opts = opts, m_runtime = Linked (link (''filc_async_runtime_'' @ rt)),
            m_args = map2 (\<lambda>k d. \<lparr>a_kind = k, a_dependency = d\<rparr>) (p_kinds P) (p_deps P)\<rparr>)"

end
