(* ===== verification/Stub.thy ===== *)
theory Stub
  imports Pass Waits
begin

text \<open>
  The code \<^verbatim>\<open>src/compiler/pass/FilAsync.cpp\<close> emits for an enrolled function: the stub a
  direct call is redirected to (\<^verbatim>\<open>emitStub\<close>, \<^verbatim>\<open>stageArguments\<close>) and the
  run thunk through which a runtime calls the body (\<^verbatim>\<open>emitRunThunk\<close>).  What the pass
  emits is a list of instructions; \<^verbatim>\<open>stub_exec\<close> runs it on the framework's own entry
  points of theories \<^verbatim>\<open>Framework\<close> and \<^verbatim>\<open>Waits\<close>.
\<close>

section \<open>Values and staging cells\<close>

text \<open>A value of an integer type is its unsigned reading; what a value of another type is does not
  matter here.\<close>

datatype ir_value = Ptr_V zptr | Int_V nat | Other_V string

fun has_type :: "ir_value \<Rightarrow> ir_type \<Rightarrow> bool" where
  "has_type (Ptr_V p) Ptr_Ty = True"
| "has_type (Int_V n) (Int_Ty w) = (0 < w \<and> n < 2 ^ w)"
| "has_type (Other_V x) (Other_Ty s) = True"
| "has_type _ _ = False"

definition null_value :: "ir_type \<Rightarrow> ir_value" where
  "null_value ty = (case ty of Ptr_Ty \<Rightarrow> Ptr_V null_ptr | Int_Ty w \<Rightarrow> Int_V 0 | _ \<Rightarrow> Other_V [])"

text \<open>The 64-bit word an integer argument is extended to, and its pointer.\<close>

definition value_word :: "ir_value \<Rightarrow> u64" where
  "value_word v = (case v of Int_V n \<Rightarrow> of_nat n | _ \<Rightarrow> 0)"

definition value_ptr :: "ir_value \<Rightarrow> zptr" where
  "value_ptr v = (case v of Ptr_V p \<Rightarrow> p | _ \<Rightarrow> null_ptr)"

text \<open>A cell is 16 bytes: a pointer with its capability, or an integer in the low word and a zero
  second word, which is a pointer without one.\<close>

definition int_cell :: "u64 \<Rightarrow> zptr" where
  "int_cell x = \<lparr>zaddr = x, zlower = 0, zupper = 0\<rparr>"

definition stage_cell :: "ir_type \<Rightarrow> ir_value \<Rightarrow> zptr" where
  "stage_cell ty v =
    (case ty of
       Ptr_Ty \<Rightarrow> value_ptr v
     | Int_Ty w \<Rightarrow> if w < 64 then int_cell (value_word v)
                   else if w = 64 then int_cell (value_word v) else int_cell 0
     | _ \<Rightarrow> int_cell 0)"

section \<open>The run thunk\<close>

definition load_arg :: "ir_type \<Rightarrow> zptr \<Rightarrow> ir_value" where
  "load_arg ty cell =
    (case ty of
       Ptr_Ty \<Rightarrow> Ptr_V cell
     | Int_Ty w \<Rightarrow> if w \<le> 64
         then if w < 64 then Int_V (take_bit w (unat (zaddr cell))) else Int_V (unat (zaddr cell))
         else null_value ty
     | _ \<Rightarrow> null_value ty)"

text \<open>Cells beyond the end of the array are out of bounds, which stops a Fil-C program.\<close>

fun load_args :: "ir_type list \<Rightarrow> zptr list \<Rightarrow> ir_value list outcome" where
  "load_args [] cells = Inr []"
| "load_args (ty # tys) [] = Inl (Fatal ''out of bounds'')"
| "load_args (ty # tys) (c # cells) =
     res_bind (load_args tys cells) (\<lambda>vs. Inr (load_arg ty c # vs))"

definition result_word :: "ir_type \<Rightarrow> ir_value \<Rightarrow> u64" where
  "result_word ty v =
    (case ty of
       Ptr_Ty \<Rightarrow> zaddr (value_ptr v)
     | Int_Ty w \<Rightarrow> (case v of
           Int_V n \<Rightarrow> if w < 64 then word_of_int (signed_take_bit (w - 1) (int n)) else of_nat n
         | _ \<Rightarrow> 0)
     | _ \<Rightarrow> 0)"

definition run_thunk ::
  "ir_func \<Rightarrow> (thread \<Rightarrow> ir_value list \<Rightarrow> 'r world \<Rightarrow> (ir_value \<times> 'r world) outcome) \<Rightarrow>
   thread \<Rightarrow> addr \<Rightarrow> 'r world \<Rightarrow> (u64 \<times> 'r world) outcome" where
  "run_thunk F body th staging w =
     res_bind (load_args (f_params F) (staged (tk (fst w)) staging)) (\<lambda>args.
     res_bind (body th args w) (\<lambda>(v, w1). Inr (result_word (ft_ret (f_type F)) v, w1)))"

section \<open>The stub\<close>

datatype stub_instr =
    Call_Alloc u64 u64
  | Store_Arg nat
  | Call_Begin
  | Call_Lock_Word nat u32 u32
  | Call_Lock_Ptr nat u32 u32
  | Call_Mark nat
  | Call_Mark_Input nat
  | Call_Submit u64
  | Ret_Void
  | Ret_Task

definition stage_arguments :: "ir_func \<Rightarrow> stub_instr list" where
  "stage_arguments F = map Store_Arg [0..<f_nargs F]"

definition lock_call :: "ir_func \<Rightarrow> parsed \<Rightarrow> nat \<Rightarrow> stub_instr list" where
  "lock_call F P i =
    (let mode = p_deps P ! i AND (DEP_READ OR DEP_WRITE);
         space = p_deps P ! i AND NOT (DEP_READ OR DEP_WRITE)
     in if mode = 0 then []
        else if f_params F ! i = Ptr_Ty then [Call_Lock_Ptr i space mode]
        else [Call_Lock_Word i space mode])"

definition is_out_kind :: "u32 \<Rightarrow> bool" where
  "is_out_kind k \<longleftrightarrow> k = ARG_BUFFER_OUT \<or> k = ARG_PENDING"

definition mark_calls :: "ir_func \<Rightarrow> parsed \<Rightarrow> stub_instr list" where
  "mark_calls F P = map Call_Mark (filter (\<lambda>i. is_out_kind (p_kinds P ! i)) [0..<f_nargs F])"

definition input_calls :: "ir_func \<Rightarrow> parsed \<Rightarrow> stub_instr list" where
  "input_calls F P = map Call_Mark_Input (filter (\<lambda>i. p_kinds P ! i = ARG_BUFFER_IN) [0..<f_nargs F])"

text \<open>Everything up to the call of \<open>filc_async_submit\<close>.  The size is computed in \<open>unsigned\<close>.\<close>

definition stub_prologue :: "ir_func \<Rightarrow> parsed \<Rightarrow> stub_instr list" where
  "stub_prologue F P =
     [Call_Alloc (ucast (of_nat (f_nargs F) * 16 :: u32)) 16] @ stage_arguments F @ [Call_Begin] @
     concat (map (lock_call F P) [0..<f_nargs F]) @ mark_calls F P @ input_calls F P"

definition emit_stub :: "ir_func \<Rightarrow> parsed \<Rightarrow> stub_instr list" where
  "emit_stub F P =
     stub_prologue F P @
     [Call_Submit (of_nat (f_nargs F)), if ft_ret (f_type F) = Void_Ty then Ret_Void else Ret_Task]"

section \<open>Running a stub\<close>

text \<open>The stub's locals: the staging array and the task, and the value returned.\<close>

record stub_regs =
  sr_staging :: addr
  sr_task :: addr
  sr_ret :: "addr option"

text \<open>What one call of the stub is given: its function, the descriptor, the address of the run
  thunk, the arguments, and what \<open>filc_async_alloc\<close> answers.  An argument array fresh from the
  allocator is zero; a store to the null address stops the program.\<close>

record stub_call =
  sc_func :: ir_func
  sc_meta :: filc_async_meta
  sc_run :: addr
  sc_args :: "ir_value list"
  sc_alloc :: addr

definition set_staged :: "addr \<Rightarrow> zptr list \<Rightarrow> fw \<Rightarrow> fw" where
  "set_staged a cells s = s\<lparr>tk := (tk s)\<lparr>staged := (staged (tk s))(a := cells)\<rparr>\<rparr>"

definition store_arg :: "stub_call \<Rightarrow> addr \<Rightarrow> nat \<Rightarrow> fw \<Rightarrow> fw outcome" where
  "store_arg C a i s =
    (let cells = staged (tk s) a in
     if a = 0 \<or> length cells \<le> i then Inl (Fatal ''out of bounds'')
     else Inr (set_staged a (cells[i := stage_cell (f_params (sc_func C) ! i) (sc_args C ! i)]) s))"

fun stub_step ::
  "nat \<Rightarrow> 'r env \<Rightarrow> thread \<Rightarrow> stub_call \<Rightarrow> stub_instr \<Rightarrow> stub_regs \<times> 'r world \<Rightarrow>
   (stub_regs \<times> 'r world) outcome" where
  "stub_step n E th C (Call_Alloc bytes align) (r, w) =
     Inr (r\<lparr>sr_staging := sc_alloc C\<rparr>,
          upd_fw (set_staged (sc_alloc C) (replicate (unat bytes div 16) null_ptr)) w)"
| "stub_step n E th C (Store_Arg i) (r, w) =
     res_bind (store_arg C (sr_staging r) i (fst w)) (\<lambda>s. Inr (r, s, snd w))"
| "stub_step n E th C Call_Begin (r, w) =
     res_bind (filc_async_begin (Some (sc_meta C)) (sr_staging r) (fst w))
       (\<lambda>(t, s). Inr (r\<lparr>sr_task := t\<rparr>, s, snd w))"
| "stub_step n E th C (Call_Lock_Word i space mode) (r, w) =
     res_bind (filc_async_lock_word n E (sr_task r) (value_word (sc_args C ! i)) space mode w)
       (\<lambda>w1. Inr (r, w1))"
| "stub_step n E th C (Call_Lock_Ptr i space mode) (r, w) =
     res_bind (filc_async_lock_ptr n E (sr_task r) (value_ptr (sc_args C ! i)) space mode w)
       (\<lambda>w1. Inr (r, w1))"
| "stub_step n E th C (Call_Mark i) (r, w) =
     res_bind (filc_async_mark_pending n E th (sr_task r) (value_ptr (sc_args C ! i)) w)
       (\<lambda>w1. Inr (r, w1))"
| "stub_step n E th C (Call_Mark_Input i) (r, w) =
     res_bind (filc_async_mark_input (sr_task r) (value_ptr (sc_args C ! i)) (fst w))
       (\<lambda>s. Inr (r, s, snd w))"
| "stub_step n E th C (Call_Submit nargs) (r, w) =
     res_bind (filc_async_submit E th (sr_task r) (sc_meta C) (sc_run C) (sr_staging r) nargs w)
       (\<lambda>w1. Inr (r, w1))"
| "stub_step n E th C Ret_Void (r, w) = Inr (r\<lparr>sr_ret := None\<rparr>, w)"
| "stub_step n E th C Ret_Task (r, w) = Inr (r\<lparr>sr_ret := Some (sr_task r)\<rparr>, w)"

fun stub_exec ::
  "nat \<Rightarrow> 'r env \<Rightarrow> thread \<Rightarrow> stub_call \<Rightarrow> stub_instr list \<Rightarrow> stub_regs \<times> 'r world \<Rightarrow>
   (stub_regs \<times> 'r world) outcome" where
  "stub_exec n E th C [] x = Inr x"
| "stub_exec n E th C (instr # instrs) x =
     res_bind (stub_step n E th C instr x) (stub_exec n E th C instrs)"

definition call_stub ::
  "nat \<Rightarrow> 'r env \<Rightarrow> thread \<Rightarrow> stub_call \<Rightarrow> parsed \<Rightarrow> 'r world \<Rightarrow> (addr option \<times> 'r world) outcome" where
  "call_stub n E th C P w =
     map_sum id (\<lambda>(r, w1). (sr_ret r, w1))
       (stub_exec n E th C (emit_stub (sc_func C) P) (\<lparr>sr_staging = 0, sr_task = 0, sr_ret = None\<rparr>, w))"

end
