(* ===== verification/PassModule.thy ===== *)
theory PassModule
  imports Stub "HOL-Library.List_Lexorder" "HOL-Library.Char_ord"
begin

text \<open>
  The module side of \<^verbatim>\<open>src/compiler/pass/FilAsync.cpp\<close>: reading
  \<^verbatim>\<open>llvm.global.annotations\<close> (\<^verbatim>\<open>enrollAnnotatedFunctions\<close>), what
  \<^verbatim>\<open>run\<close> adds to the module for every enrolled function in name order, the
  redirection of call sites (\<^verbatim>\<open>rewriteCallSites\<close>) and the teardown of the annotation
  graph (\<^verbatim>\<open>eraseAnnotations\<close>).

  A module is data.  Global variables, functions and aliases have an identity (\<^verbatim>\<open>gid\<close>,
  ordered as their addresses are).  LLVM keeps one copy of every array, structure, vector and
  expression constant, so such a constant is its structure; \<^verbatim>\<open>pool\<close> lists the ones that
  exist.  A constant is used by the pool constants it is an operand of, by the global variable
  it initialises, by aliases and by instructions.
\<close>

section \<open>Modules\<close>

type_synonym gid = nat

datatype ir_const =
    Const_Int nat nat
  | Const_Null
  | Const_Inert string
  | Const_String string
  | Const_Array "ir_const list"
  | Const_Struct "ir_const list"
  | Const_Vector "ir_const list"
  | Const_Cast ir_const
  | Global_Ref gid

record ir_global =
  gv_init :: "ir_const option"
  gv_constant :: bool
  gv_linkage :: ir_linkage
  gv_section :: string

record ir_alias =
  al_target :: gid
  al_linkage :: ir_linkage
  al_visibility :: nat

datatype call_kind = Plain_Call | Invoke | Call_Br

text \<open>A call with its called operand, the function type it goes through and its other operands, or
  another instruction with its constant operands.\<close>

datatype ir_instr =
    Call_Instr call_kind gid ir_func_type "ir_const list"
  | Other_Instr "ir_const list"

text \<open>\<open>vars\<close> and \<open>fns\<close> list the variables and functions of the module in order; \<open>stub_code\<close> is the
  code of an emitted stub, \<open>ctors\<close> what \<open>llvm.global_ctors\<close> lists with its priority.\<close>

record ir_module =
  vars :: "gid list"
  fns :: "gid list"
  var_def :: "gid \<Rightarrow> ir_global"
  fn_def :: "gid \<Rightarrow> ir_func"
  aliases :: "(gid \<times> ir_alias) list"
  gname :: "gid \<Rightarrow> string"
  bodies :: "gid \<Rightarrow> ir_instr list"
  pool :: "ir_const list"
  stub_code :: "gid \<Rightarrow> stub_instr list"
  ctors :: "(nat \<times> gid) list"
  next_gid :: gid

definition live_gids :: "ir_module \<Rightarrow> gid list" where
  "live_gids M = vars M @ fns M @ map fst (aliases M)"

definition find_named :: "string \<Rightarrow> ir_module \<Rightarrow> gid option" where
  "find_named n M = List.find (\<lambda>g. gname M g = n) (live_gids M)"

text \<open>The operands of a pool constant; the other constants have none.\<close>

fun operands :: "ir_const \<Rightarrow> ir_const list" where
  "operands (Const_Array cs) = cs"
| "operands (Const_Struct cs) = cs"
| "operands (Const_Vector cs) = cs"
| "operands (Const_Cast c) = [c]"
| "operands _ = []"

fun is_pool_constant :: "ir_const \<Rightarrow> bool" where
  "is_pool_constant (Const_Array cs) = True"
| "is_pool_constant (Const_Struct cs) = True"
| "is_pool_constant (Const_Vector cs) = True"
| "is_pool_constant (Const_Cast c) = True"
| "is_pool_constant _ = False"

text \<open>Making a constant makes the pool constants it consists of.\<close>

fun pool_parts :: "ir_const \<Rightarrow> ir_const list" where
  "pool_parts (Const_Array cs) = Const_Array cs # concat (map pool_parts cs)"
| "pool_parts (Const_Struct cs) = Const_Struct cs # concat (map pool_parts cs)"
| "pool_parts (Const_Vector cs) = Const_Vector cs # concat (map pool_parts cs)"
| "pool_parts (Const_Cast c) = Const_Cast c # pool_parts c"
| "pool_parts _ = []"

definition add_pool :: "ir_const \<Rightarrow> ir_module \<Rightarrow> ir_module" where
  "add_pool c M = M\<lparr>pool := remdups (pool_parts c @ pool M)\<rparr>"

text \<open>\<open>uniq\<close> is how LLVM makes a name that is taken unique.\<close>

type_synonym uniq = "string list \<Rightarrow> string \<Rightarrow> string"

definition free_name :: "uniq \<Rightarrow> ir_module \<Rightarrow> string \<Rightarrow> string" where
  "free_name uniq M n =
    (let taken = map (gname M) (live_gids M) in if n \<in> set taken then uniq taken n else n)"

definition new_global :: "uniq \<Rightarrow> string \<Rightarrow> ir_global \<Rightarrow> ir_module \<Rightarrow> gid \<times> ir_module" where
  "new_global uniq n v M =
    (let g = next_gid M; M1 = (case gv_init v of Some c \<Rightarrow> add_pool c M | None \<Rightarrow> M)
     in (g, M1\<lparr>vars := vars M1 @ [g], var_def := (var_def M1)(g := v),
               gname := (gname M1)(g := free_name uniq M n), next_gid := g + 1\<rparr>))"

definition new_function :: "uniq \<Rightarrow> string \<Rightarrow> ir_func \<Rightarrow> ir_instr list \<Rightarrow> ir_module \<Rightarrow> gid \<times> ir_module" where
  "new_function uniq n F body M =
    (let g = next_gid M
     in (g, M\<lparr>fns := fns M @ [g], fn_def := (fn_def M)(g := F), bodies := (bodies M)(g := body),
              gname := (gname M)(g := free_name uniq M n), next_gid := g + 1\<rparr>))"

section \<open>Reading annotations\<close>

fun strip_casts :: "ir_const \<Rightarrow> ir_const" where
  "strip_casts (Const_Cast c) = strip_casts c"
| "strip_casts c = c"

definition var_init :: "ir_module \<Rightarrow> ir_const \<Rightarrow> ir_const option" where
  "var_init M c =
    (case strip_casts c of
       Global_Ref g \<Rightarrow> if g \<in> set (vars M) then gv_init (var_def M g) else None
     | _ \<Rightarrow> None)"

definition drop_nul :: "string \<Rightarrow> string" where
  "drop_nul s = (if s \<noteq> [] \<and> last s = CHR 0x00 then butlast s else s)"

text \<open>LLVM keeps an array of zeros as \<open>ConstantAggregateZero\<close>, not as string data.\<close>

definition string_data :: "string \<Rightarrow> bool" where
  "string_data s \<longleftrightarrow> list_ex (\<lambda>c. c \<noteq> CHR 0x00) s"

definition underlying_string :: "ir_module \<Rightarrow> ir_const \<Rightarrow> string" where
  "underlying_string M c =
    (case var_init M c of Some (Const_String s) \<Rightarrow> if string_data s then drop_nul s else [] | _ \<Rightarrow> [])"

definition extract_function :: "ir_module \<Rightarrow> ir_const \<Rightarrow> gid option" where
  "extract_function M c =
    (case strip_casts c of Global_Ref g \<Rightarrow> if g \<in> set (fns M) then Some g else None | _ \<Rightarrow> None)"

definition is_filc_async_entry :: "ir_module \<Rightarrow> ir_const \<Rightarrow> bool" where
  "is_filc_async_entry M e =
    (case e of
       Const_Struct ops \<Rightarrow> length ops = 5 \<and> underlying_string M (ops ! 1) = ''filc_async''
     | _ \<Rightarrow> False)"

definition entry_opts :: "ir_module \<Rightarrow> ir_const \<Rightarrow> string list" where
  "entry_opts M c =
    (case var_init M c of
       Some (Const_Struct elems) \<Rightarrow> map (underlying_string M) elems
     | _ \<Rightarrow> [])"

text \<open>\<open>Annotated\<close> is a map keyed on the function, iterated in the order of the keys.\<close>

fun ann_put :: "gid \<Rightarrow> 'a \<Rightarrow> (gid \<times> 'a) list \<Rightarrow> (gid \<times> 'a) list" where
  "ann_put g x [] = [(g, x)]"
| "ann_put g x ((h, y) # A) =
    (if g < h then (g, x) # (h, y) # A else if g = h then (g, x) # A else (h, y) # ann_put g x A)"

fun enroll_entries ::
  "ir_module \<Rightarrow> ir_const list \<Rightarrow> (gid \<times> string list) list \<Rightarrow> pass_error + (gid \<times> string list) list" where
  "enroll_entries M [] A = Inr A"
| "enroll_entries M (e # es) A =
    (if \<not> is_filc_async_entry M e then enroll_entries M es A
     else case extract_function M (operands e ! 0) of
       None \<Rightarrow> Inl Not_A_Function
     | Some f \<Rightarrow> enroll_entries M es (ann_put f (entry_opts M (operands e ! 4)) A))"

definition annotations_root :: "ir_module \<Rightarrow> (gid \<times> ir_const) option" where
  "annotations_root M =
    (case find_named ''llvm.global.annotations'' M of
       Some g \<Rightarrow> if g \<in> set (vars M) then map_option (Pair g) (gv_init (var_def M g)) else None
     | None \<Rightarrow> None)"

definition enroll :: "ir_module \<Rightarrow> pass_error + (gid \<times> string list) list" where
  "enroll M =
    (case annotations_root M of
       None \<Rightarrow> Inr []
     | Some (g, root) \<Rightarrow>
         (case strip_casts root of
            Const_Array es \<Rightarrow> enroll_entries M es []
          | _ \<Rightarrow> Inr []))"

section \<open>Emission for one function\<close>

definition rename_body :: "uniq \<Rightarrow> gid \<Rightarrow> string \<Rightarrow> ir_module \<Rightarrow> ir_module" where
  "rename_body uniq f orig_name M =
    (let F = fn_def M f in
     if f_declaration F \<or> f_linkage F = Available_Externally then M
     else let M1 = M\<lparr>gname := (gname M)(f := free_name uniq M (''__filc_async_'' @ orig_name))\<rparr> in
       if f_linkage F = Internal_Linkage \<or> f_linkage F = Private_Linkage then M1
       else M1\<lparr>aliases := aliases M1 @ [(next_gid M1, \<lparr>al_target = f, al_linkage = f_linkage F,
                  al_visibility = f_visibility F\<rparr>)],
               gname := (gname M1)(next_gid M1 := free_name uniq M1 orig_name),
               next_gid := next_gid M1 + 1\<rparr>)"

text \<open>A constant string global with the bytes of the option, up to a final NUL, or a new one.\<close>

definition holds_string :: "ir_module \<Rightarrow> string \<Rightarrow> gid \<Rightarrow> bool" where
  "holds_string M s g \<longleftrightarrow> gv_constant (var_def M g) \<and>
     (case gv_init (var_def M g) of Some (Const_String gs) \<Rightarrow> string_data gs \<and> drop_nul gs = s | _ \<Rightarrow> False)"

definition find_or_create_string :: "uniq \<Rightarrow> string \<Rightarrow> ir_module \<Rightarrow> gid \<times> ir_module" where
  "find_or_create_string uniq s M =
    (case List.find (holds_string M s) (vars M) of
       Some g \<Rightarrow> (g, M)
     | None \<Rightarrow> new_global uniq ''.filc_async.opt''
         \<lparr>gv_init = Some (Const_String (s @ [CHR 0x00])), gv_constant = True,
          gv_linkage = Private_Linkage, gv_section = []\<rparr> M)"

fun opt_strings :: "uniq \<Rightarrow> string list \<Rightarrow> ir_module \<Rightarrow> gid list \<times> ir_module" where
  "opt_strings uniq [] M = ([], M)"
| "opt_strings uniq (s # ss) M =
    (let (g, M1) = find_or_create_string uniq s M; (gs, M2) = opt_strings uniq ss M1 in (g # gs, M2))"

definition const_global :: "ir_const \<Rightarrow> ir_linkage \<Rightarrow> ir_global" where
  "const_global c l = \<lparr>gv_init = Some c, gv_constant = True, gv_linkage = l, gv_section = []\<rparr>"

definition emit_opts :: "uniq \<Rightarrow> string \<Rightarrow> string list \<Rightarrow> ir_module \<Rightarrow> gid \<times> ir_module" where
  "emit_opts uniq orig_name opts M =
    (let (gs, M1) = opt_strings uniq opts M
     in new_global uniq (''__filc_opts_'' @ orig_name)
          (const_global (Const_Array (map Global_Ref gs @ [Const_Null])) Internal_Linkage) M1)"

text \<open>\<open>getOrInsertGlobal\<close>: the variable that has the name already, or a new external declaration,
  which is given another name if a function or an alias has this one.\<close>

definition get_global :: "uniq \<Rightarrow> string \<Rightarrow> ir_module \<Rightarrow> gid \<times> ir_module" where
  "get_global uniq n M =
    (case List.find (\<lambda>g. gname M g = n) (vars M) of
       Some g \<Rightarrow> (g, M)
     | None \<Rightarrow> new_global uniq n
         \<lparr>gv_init = None, gv_constant = False, gv_linkage = External_Linkage, gv_section = []\<rparr> M)"

definition i32 :: "u32 \<Rightarrow> ir_const" where "i32 x = Const_Int 32 (unat x)"

definition meta_const :: "ir_func \<Rightarrow> gid \<Rightarrow> gid \<Rightarrow> gid \<Rightarrow> parsed \<Rightarrow> ir_const" where
  "meta_const F name opts rt P =
     Const_Struct [Global_Ref name, i32 (of_nat (f_nargs F)), i32 (p_noped P), i32 0,
       i32 (if ft_ret (f_type F) = Ptr_Ty then RESULT_PTR else RESULT_WORD),
       Global_Ref opts, Global_Ref rt,
       Const_Array (map2 (\<lambda>k d. Const_Struct [i32 k, i32 d]) (p_kinds P) (p_deps P))]"

definition emit_meta_global ::
  "uniq \<Rightarrow> ir_func \<Rightarrow> string \<Rightarrow> string list \<Rightarrow> gid \<Rightarrow> parsed \<Rightarrow> ir_module \<Rightarrow> pass_error + gid \<times> ir_module" where
  "emit_meta_global uniq F orig_name opts og P M =
    (let (ng, M1) = new_global uniq (''__filc_async_name_'' @ orig_name)
           (const_global (Const_String (orig_name @ [CHR 0x00])) Private_Linkage) M
     in pass_bind (parse_runtime opts) (\<lambda>rt.
       let (rg, M2) = get_global uniq (''filc_async_runtime_'' @ rt) M1
       in Inr (new_global uniq (''__filc_meta_'' @ orig_name)
                 (const_global (meta_const F ng og rg P) Internal_Linkage) M2)))"

text \<open>\<open>getOrInsertFunction\<close>, for the entry points of the runtime.\<close>

definition extern_func :: "ir_type \<Rightarrow> ir_type list \<Rightarrow> ir_func" where
  "extern_func ret params =
     \<lparr>f_type = \<lparr>ft_ret = ret, ft_params = params, ft_vararg = False\<rparr>, f_arg_names = replicate (length params) [],
      f_params_md = None, f_const_md = None, f_declaration = True, f_linkage = External_Linkage, f_visibility = 0\<rparr>"

definition get_function :: "uniq \<Rightarrow> string \<Rightarrow> ir_type \<Rightarrow> ir_type list \<Rightarrow> ir_module \<Rightarrow> gid \<times> ir_module" where
  "get_function uniq n ret params M =
    (case find_named n M of
       Some g \<Rightarrow> (g, M)
     | None \<Rightarrow> new_function uniq n (extern_func ret params) [] M)"

section \<open>The table\<close>

definition emit_table :: "uniq \<Rightarrow> gid list \<Rightarrow> ir_module \<Rightarrow> ir_module" where
  "emit_table uniq metas M =
    (let (t, M1) = new_global uniq ''__filc_async_meta_table''
           (const_global (Const_Array (map Global_Ref metas @ [Const_Null])) Internal_Linkage) M;
         (v, M2) = get_function uniq ''filc_async_validate_table'' Void_Ty [Ptr_Ty] M1;
         (c, M3) = new_function uniq ''__filc_async_ctor''
              ((extern_func Void_Ty [])\<lparr>f_declaration := False, f_linkage := Internal_Linkage\<rparr>)
              [Call_Instr Plain_Call v \<lparr>ft_ret = Void_Ty, ft_params = [Ptr_Ty], ft_vararg = False\<rparr> [Global_Ref t]] M2
     in M3\<lparr>ctors := ctors M3 @ [(65535, c)]\<rparr>)"

section \<open>Call sites\<close>

record descriptor =
  d_meta :: gid
  d_name :: string
  d_parsed :: parsed

text \<open>A call that can go through the stub: a plain call of the function through its own type whose
  value, if it has one, is a pointer.\<close>

fun redirectable :: "gid \<Rightarrow> ir_func_type \<Rightarrow> ir_instr \<Rightarrow> bool" where
  "redirectable f ty (Call_Instr kind callee cty ops) =
     (callee = f \<and> kind = Plain_Call \<and> cty = ty \<and> (ft_ret cty = Void_Ty \<or> ft_ret cty = Ptr_Ty))"
| "redirectable f ty (Other_Instr ops) = False"

fun redirect :: "gid \<Rightarrow> gid \<Rightarrow> ir_func_type \<Rightarrow> ir_instr \<Rightarrow> ir_instr" where
  "redirect f stub ty (Call_Instr kind callee cty ops) =
     (if redirectable f ty (Call_Instr kind callee cty ops) then Call_Instr kind stub cty ops
      else Call_Instr kind callee cty ops)"
| "redirect f stub ty (Other_Instr ops) = Other_Instr ops"

definition has_calls :: "gid \<Rightarrow> ir_func_type \<Rightarrow> ir_module \<Rightarrow> bool" where
  "has_calls f ty M = list_ex (\<lambda>g. list_ex (redirectable f ty) (bodies M g)) (fns M)"

text \<open>The run thunk calls the body; the stub names the descriptor and the thunk.\<close>

definition emit_run_thunk :: "uniq \<Rightarrow> gid \<Rightarrow> descriptor \<Rightarrow> ir_module \<Rightarrow> gid \<times> ir_module" where
  "emit_run_thunk uniq f D M =
     new_function uniq (''__filc_async_run_'' @ d_name D)
       ((extern_func (Int_Ty 64) [Ptr_Ty])\<lparr>f_declaration := False, f_linkage := Internal_Linkage\<rparr>)
       [Call_Instr Plain_Call f (f_type (fn_def M f)) []] M"

definition runtime_calls :: "(string \<times> ir_type \<times> ir_type list) list" where
  "runtime_calls =
     [(''filc_async_alloc'', Ptr_Ty, [Int_Ty 64, Int_Ty 64]),
      (''filc_async_begin'', Ptr_Ty, [Ptr_Ty, Ptr_Ty]),
      (''filc_async_lock_word'', Void_Ty, [Ptr_Ty, Int_Ty 64, Int_Ty 32, Int_Ty 32]),
      (''filc_async_lock_ptr'', Void_Ty, [Ptr_Ty, Ptr_Ty, Int_Ty 32, Int_Ty 32]),
      (''filc_async_mark_pending'', Void_Ty, [Ptr_Ty, Ptr_Ty]),
      (''filc_async_mark_input'', Void_Ty, [Ptr_Ty, Ptr_Ty]),
      (''filc_async_submit'', Void_Ty, [Ptr_Ty, Ptr_Ty, Ptr_Ty, Ptr_Ty, Int_Ty 64])]"

definition emit_stub_function :: "uniq \<Rightarrow> gid \<Rightarrow> descriptor \<Rightarrow> ir_module \<Rightarrow> gid \<times> ir_module" where
  "emit_stub_function uniq f D M =
    (let F = fn_def M f;
         M1 = fold (\<lambda>(n, ret, params) M. snd (get_function uniq n ret params M)) runtime_calls M;
         (run, M2) = emit_run_thunk uniq f D M1;
         (stub, M3) = new_function uniq (''__filc_async_stub_'' @ d_name D)
           ((extern_func (ft_ret (f_type F)) (f_params F))\<lparr>f_type := f_type F, f_declaration := False,
              f_linkage := Internal_Linkage\<rparr>)
           [Other_Instr [Global_Ref (d_meta D), Global_Ref run]] M2
     in (stub, M3\<lparr>stub_code := (stub_code M3)(stub := emit_stub F (d_parsed D))\<rparr>))"

text \<open>The calls are collected before the thunk, which calls the body, exists.\<close>

definition rewrite_function :: "uniq \<Rightarrow> gid \<Rightarrow> descriptor \<Rightarrow> ir_module \<Rightarrow> ir_module" where
  "rewrite_function uniq f D M =
    (let ty = f_type (fn_def M f) in
     if \<not> has_calls f ty M then M
     else let (stub, M1) = emit_stub_function uniq f D M
       in M1\<lparr>bodies := (\<lambda>g. if g \<in> set (fns M) then map (redirect f stub ty) (bodies M1 g) else bodies M1 g)\<rparr>)"

fun rewrite_call_sites ::
  "uniq \<Rightarrow> (gid \<times> string list) list \<Rightarrow> (gid \<times> descriptor) list \<Rightarrow> ir_module \<Rightarrow> pass_error + ir_module" where
  "rewrite_call_sites uniq [] Ds M = Inr M"
| "rewrite_call_sites uniq ((f, opts) # A) Ds M =
    (case map_of Ds f of
       None \<Rightarrow> Inl (Missing_Descriptor (gname M f))
     | Some D \<Rightarrow> rewrite_call_sites uniq A Ds (rewrite_function uniq f D M))"

section \<open>Erasing the annotations\<close>

definition instr_uses :: "ir_instr \<Rightarrow> ir_const list" where
  "instr_uses i = (case i of Call_Instr k callee ty ops \<Rightarrow> Global_Ref callee # ops | Other_Instr ops \<Rightarrow> ops)"

definition use_empty :: "ir_module \<Rightarrow> ir_const \<Rightarrow> bool" where
  "use_empty M c \<longleftrightarrow>
     list_all (\<lambda>p. c \<notin> set (operands p)) (pool M) \<and>
     list_all (\<lambda>g. gv_init (var_def M g) \<noteq> Some c) (vars M) \<and>
     list_all (\<lambda>(a, al). c \<noteq> Global_Ref (al_target al)) (aliases M) \<and>
     list_all (\<lambda>g. list_all (\<lambda>i. c \<notin> set (instr_uses i)) (bodies M g)) (fns M) \<and>
     list_all (\<lambda>(p, g). c \<noteq> Global_Ref g) (ctors M)"

text \<open>What a constant leads to: its operands, the initialiser of a variable, the target of an alias.\<close>

definition const_children :: "ir_module \<Rightarrow> ir_const \<Rightarrow> ir_const list" where
  "const_children M c =
    (case c of
       Global_Ref g \<Rightarrow>
         if g \<in> set (vars M) then (case gv_init (var_def M g) of Some i \<Rightarrow> [i] | None \<Rightarrow> [])
         else (case map_of (aliases M) g of Some al \<Rightarrow> [Global_Ref (al_target al)] | None \<Rightarrow> [])
     | _ \<Rightarrow> operands c)"

definition push_new :: "ir_const \<Rightarrow> ir_const list \<Rightarrow> ir_const list" where
  "push_new c wl = (if c \<in> set wl then wl else wl @ [c])"

text \<open>The work list is also the set of what has been seen.  The loop ends when it has caught up with
  the list; that it does is a theorem.\<close>

partial_function (option) walk_graph :: "ir_module \<Rightarrow> nat \<Rightarrow> ir_const list \<Rightarrow> ir_const list option" where
  "walk_graph M i wl =
    (if i < length wl then walk_graph M (Suc i) (fold push_new (const_children M (wl ! i)) wl)
     else Some wl)"

definition erase_global :: "gid \<Rightarrow> ir_module \<Rightarrow> ir_module" where
  "erase_global g M = M\<lparr>vars := removeAll g (vars M)\<rparr>"

definition destroy :: "ir_const \<Rightarrow> ir_module \<Rightarrow> ir_module" where
  "destroy c M =
    (case c of
       Global_Ref g \<Rightarrow> if g \<in> set (vars M) \<and> use_empty M c then erase_global g M else M
     | _ \<Rightarrow> if is_pool_constant c \<and> use_empty M c then M\<lparr>pool := removeAll c (pool M)\<rparr> else M)"

definition foreign_entries :: "ir_module \<Rightarrow> ir_const \<Rightarrow> ir_const list" where
  "foreign_entries M root =
    (case strip_casts root of
       Const_Array es \<Rightarrow> filter (\<lambda>e. \<not> is_filc_async_entry M e) es
     | _ \<Rightarrow> [])"

definition keep_foreign :: "uniq \<Rightarrow> ir_module \<Rightarrow> gid \<Rightarrow> ir_const list \<Rightarrow> ir_module" where
  "keep_foreign uniq M g foreign =
    (let M1 = erase_global g M in
     if foreign = [] then M1
     else snd (new_global uniq ''llvm.global.annotations''
       \<lparr>gv_init = Some (Const_Array foreign), gv_constant = False, gv_linkage = gv_linkage (var_def M g),
        gv_section = gv_section (var_def M g)\<rparr> M1))"

definition erase_annotations :: "uniq \<Rightarrow> ir_module \<Rightarrow> ir_module option" where
  "erase_annotations uniq M =
    (case annotations_root M of
       None \<Rightarrow> Some M
     | Some (g, root) \<Rightarrow>
         let M1 = keep_foreign uniq M g (foreign_entries M root)
         in map_option (\<lambda>wl. fold destroy wl M1) (walk_graph M1 0 [root]))"

section \<open>The pass\<close>

fun emit_work ::
  "uniq \<Rightarrow> (gid \<times> string list) list \<Rightarrow> ir_module \<Rightarrow> pass_error + ((gid \<times> descriptor) list \<times> ir_module)" where
  "emit_work uniq [] M = Inr ([], M)"
| "emit_work uniq ((f, opts) # W) M =
    (let F = fn_def M f; orig_name = gname M f in
     pass_bind (parse_kinds F opts) (\<lambda>P.
       let M1 = rename_body uniq f orig_name M;
           (og, M2) = emit_opts uniq orig_name opts M1
       in pass_bind (emit_meta_global uniq F orig_name opts og P M2) (\<lambda>(mg, M3).
            pass_bind (emit_work uniq W M3) (\<lambda>(Ds, M4).
              Inr ((f, \<lparr>d_meta = mg, d_name = orig_name, d_parsed = P\<rparr>) # Ds, M4)))))"

definition work_order :: "ir_module \<Rightarrow> (gid \<times> string list) list \<Rightarrow> (gid \<times> string list) list" where
  "work_order M A = sort_key (\<lambda>(f, opts). gname M f) A"

text \<open>The module and whether the pass changed it.\<close>

definition run_pass :: "uniq \<Rightarrow> ir_module \<Rightarrow> pass_error + (ir_module option \<times> bool)" where
  "run_pass uniq M =
     pass_bind (enroll M) (\<lambda>A.
       if A = [] then Inr (Some M, False)
       else pass_bind (emit_work uniq (work_order M A) M) (\<lambda>(Ds, M1).
         pass_bind (rewrite_call_sites uniq A Ds (emit_table uniq (map (d_meta \<circ> snd) Ds) M1)) (\<lambda>M2.
           Inr (erase_annotations uniq M2, True))))"

end
