(* ===== verification/PassRuns.thy ===== *)
theory PassRuns
  imports Pass
begin

text \<open>
  What the annotation options of theory \<^verbatim>\<open>Pass\<close> mean: a declarative reading of each
  option and of the whole list, the proof that \<^verbatim>\<open>parse_kinds\<close> accepts exactly the
  lists that have one, and what the emitted descriptor owes the startup check of theory
  \<^verbatim>\<open>Startup\<close>.
\<close>

section \<open>Dependency words\<close>

lemma hash_namespace_bits: "hash_namespace name \<noteq> 0" "\<And>i. bit (hash_namespace name) i \<Longrightarrow> i < 24"
proof -
  have m: "(0xFFFFFF :: u32) = mask 24" by (simp add: mask_eq_exp_minus_1)
  show "hash_namespace name \<noteq> 0" by (simp add: hash_namespace_def Let_def)
  show "\<And>i. bit (hash_namespace name) i \<Longrightarrow> i < 24"
    unfolding hash_namespace_def Let_def DEP_NAMESPACE_MASK_def m
    by (auto simp: bit_and_iff bit_mask_iff bit_1_iff split: if_splits)
qed

lemma bit_dep_consts:
  "bit DEP_READ i = (i = 0)" "bit DEP_WRITE i = (i = 1)" "bit DEP_POINTER i = (i = 2)"
proof -
  have "(2 :: u32) = push_bit 1 1" "(4 :: u32) = push_bit 2 1" by simp_all
  then show "bit DEP_READ i = (i = 0)" "bit DEP_WRITE i = (i = 1)" "bit DEP_POINTER i = (i = 2)"
    unfolding pass_dep_consts by (auto simp only: bit_push_bit_iff bit_1_iff possible_bit_word) auto
qed

lemma bit_dep_word:
  "bit (dep_word mode ty val) i \<longleftrightarrow> bit mode i \<or> (ty = Ptr_Ty \<and> i = 2) \<or>
     (8 \<le> i \<and> i < 32 \<and> bit (hash_namespace val) (i - 8))"
  by (auto simp: dep_word_def bit_or_iff bit_push_bit_iff DEP_NAMESPACE_SHIFT_def bit_dep_consts)

lemma dep_word_shape:
  assumes "mode = DEP_READ \<or> mode = DEP_WRITE"
  shows "dep_word mode ty val \<noteq> 0" "dependency_shape (dep_word mode ty val)"
proof -
  show s: "dependency_shape (dep_word mode ty val)"
    using assms by (auto simp: dependency_shape_def bit_dep_word bit_dep_consts)
  have "bit (dep_word mode ty val) 0 \<or> bit (dep_word mode ty val) 1"
    using assms by (auto simp: bit_dep_word bit_dep_consts)
  then show "dep_word mode ty val \<noteq> 0" by auto
qed

section \<open>What an option means\<close>

lemma starts_with_iff: "starts_with p s = (\<exists>r. s = p @ r)"
  unfolding starts_with_def by (metis append_eq_conv_conj append_take_drop_id)

lemma index_of_Some:
  "index_of x xs = Some i \<longleftrightarrow> i < length xs \<and> xs ! i = x \<and> x \<notin> set (take i xs)"
proof (induction xs arbitrary: i)
  case (Cons y ys)
  then show ?case by (cases i) auto
qed simp

definition names_param :: "ir_func \<Rightarrow> string \<Rightarrow> nat \<Rightarrow> bool" where
  "names_param F p i \<longleftrightarrow> p \<noteq> [] \<and> i < length (param_names F) \<and> param_names F ! i = p \<and>
     p \<notin> set (take i (param_names F))"

definition buffer_option :: "ir_func \<Rightarrow> string \<Rightarrow> nat \<Rightarrow> u32 \<Rightarrow> bool" where
  "buffer_option F opt i k \<longleftrightarrow> (\<exists>p.
     (opt = ''bin='' @ p \<and> k = ARG_BUFFER_IN \<or> opt = ''bout='' @ p \<and> k = ARG_BUFFER_OUT \<or>
      opt = ''buf='' @ p \<and> k = ARG_PENDING) \<and> names_param F p i \<and> f_params F ! i = Ptr_Ty)"

definition dep_option :: "ir_func \<Rightarrow> string \<Rightarrow> nat \<Rightarrow> u32 \<Rightarrow> bool" where
  "dep_option F opt i w \<longleftrightarrow> (\<exists>p ns mode.
     (opt = ''r_dep='' @ p @ '':'' @ ns \<and> mode = DEP_READ \<or>
      opt = ''w_dep='' @ p @ '':'' @ ns \<and> mode = DEP_WRITE) \<and>
     CHR '':'' \<notin> set p \<and> ns \<noteq> [] \<and> names_param F p i \<and> dep_type_ok (f_params F ! i) \<and>
     w = dep_word mode (f_params F ! i) (p @ '':'' @ ns))"

definition plain_option :: "string \<Rightarrow> bool" where
  "plain_option opt \<longleftrightarrow> list_all (\<lambda>p. \<not> starts_with p opt)
     [''fd='', ''bin='', ''bout='', ''buf='', ''r_dep='', ''w_dep='', ''read_dep='', ''write_dep='']"

lemma index_of_None: "index_of x xs = None \<longleftrightarrow> x \<notin> set xs"
  by (induction xs) auto

lemma find_param_Inr: "find_param F opt p = Inr i \<longleftrightarrow> names_param F p i"
proof (cases "p = []")
  case False
  have "find_param F opt p = Inr i \<longleftrightarrow> index_of p (param_names F) = Some i"
    using False by (simp add: find_param_def split: option.split)
  then show ?thesis using False by (simp add: index_of_Some names_param_def)
qed (simp add: find_param_def names_param_def)

lemma split_at:
  "c \<notin> set q \<Longrightarrow> c \<notin> set p \<Longrightarrow> q @ c # ns = p @ c # ns' \<longleftrightarrow> q = p \<and> ns = ns'"
proof (induction q arbitrary: p)
  case Nil
  then show ?case by (cases p) auto
next
  case (Cons x q)
  then show ?case by (cases p) auto
qed

lemma colon_split:
  "CHR '':'' \<notin> set p \<Longrightarrow> takeWhile (\<lambda>c. c \<noteq> CHR '':'') (p @ CHR '':'' # ns) = p \<and>
     dropWhile (\<lambda>c. c \<noteq> CHR '':'') (p @ CHR '':'' # ns) = CHR '':'' # ns"
  by (induction p) auto

lemma dep_param_Inr:
  "dep_param opt val = Inr p \<longleftrightarrow> CHR '':'' \<notin> set p \<and> (\<exists>ns. val = p @ '':'' @ ns \<and> ns \<noteq> [])"
proof (cases "CHR '':'' \<in> set val")
  case True
  obtain q ns where v: "val = q @ CHR '':'' # ns" "CHR '':'' \<notin> set q"
    using split_list_first [OF True] by blast
  have d: "dep_param opt val = (if ns = [] then Inl (Empty_Namespace opt) else Inr q)"
    using True colon_split [OF v(2)] v(1) by (simp add: dep_param_def)
  have e: "(CHR '':'' \<notin> set p \<and> (\<exists>ns'. val = p @ '':'' @ ns' \<and> ns' \<noteq> [])) \<longleftrightarrow> ns \<noteq> [] \<and> p = q"
    unfolding v(1) append_Cons append_Nil using split_at [OF v(2)] v(2) by metis
  show ?thesis unfolding d e by auto
qed (auto simp: dep_param_def)

lemma arg_token_kind:
  "arg_token opt = Kind_Token k v \<longleftrightarrow>
     opt = ''bin='' @ v \<and> k = ARG_BUFFER_IN \<or> opt = ''bout='' @ v \<and> k = ARG_BUFFER_OUT \<or>
     opt = ''buf='' @ v \<and> k = ARG_PENDING"
  unfolding arg_token_def starts_with_iff by (auto split: if_splits)

lemma arg_token_dep:
  "arg_token opt = Dep_Token m v \<longleftrightarrow>
     opt = ''r_dep='' @ v \<and> m = DEP_READ \<or> opt = ''w_dep='' @ v \<and> m = DEP_WRITE"
  unfolding arg_token_def starts_with_iff by (auto split: if_splits)

lemma arg_token_other: "arg_token opt = Other_Token \<longleftrightarrow> plain_option opt"
  unfolding arg_token_def plain_option_def by (simp split: if_splits)

lemma buffer_option_token:
  "buffer_option F opt i k \<longleftrightarrow>
     (\<exists>p. arg_token opt = Kind_Token k p \<and> names_param F p i \<and> f_params F ! i = Ptr_Ty)"
  unfolding buffer_option_def arg_token_kind by (rule refl)

lemma dep_option_token:
  "dep_option F opt i w \<longleftrightarrow>
     (\<exists>mode v p. arg_token opt = Dep_Token mode v \<and> dep_param opt v = Inr p \<and> names_param F p i \<and>
        dep_type_ok (f_params F ! i) \<and> w = dep_word mode (f_params F ! i) v)"
  (is "?l = ?r")
proof
  assume ?l
  then obtain p ns mode where a: "opt = ''r_dep='' @ p @ '':'' @ ns \<and> mode = DEP_READ \<or>
      opt = ''w_dep='' @ p @ '':'' @ ns \<and> mode = DEP_WRITE"
    and b: "CHR '':'' \<notin> set p" "ns \<noteq> []" and c: "names_param F p i" "dep_type_ok (f_params F ! i)"
      "w = dep_word mode (f_params F ! i) (p @ '':'' @ ns)"
    unfolding dep_option_def by blast
  have "arg_token opt = Dep_Token mode (p @ '':'' @ ns)" using a unfolding arg_token_dep .
  moreover have "dep_param opt (p @ '':'' @ ns) = Inr p" using b unfolding dep_param_Inr by blast
  ultimately show ?r using c by blast
next
  assume ?r
  then obtain mode v p where t: "arg_token opt = Dep_Token mode v" and d: "dep_param opt v = Inr p"
    and c: "names_param F p i" "dep_type_ok (f_params F ! i)" "w = dep_word mode (f_params F ! i) v"
    by blast
  obtain ns where v: "v = p @ '':'' @ ns" "ns \<noteq> []" "CHR '':'' \<notin> set p"
    using d unfolding dep_param_Inr by blast
  show ?l unfolding dep_option_def
    by (rule exI [of _ p], rule exI [of _ ns], rule exI [of _ mode])
      (use t v c in \<open>simp only: arg_token_dep simp_thms\<close>)
qed

lemma parse_option_Inr:
  "parse_option F opt P = Inr P' \<longleftrightarrow>
     plain_option opt \<and> P' = P \<or>
     (\<exists>i k. buffer_option F opt i k \<and> P' = P\<lparr>p_noped := p_noped P + 1, p_kinds := (p_kinds P)[i := k]\<rparr>) \<or>
     (\<exists>i w. dep_option F opt i w \<and> (p_deps P ! i = DEP_NONE \<or> p_deps P ! i = w) \<and>
        P' = P\<lparr>p_deps := (p_deps P)[i := w]\<rparr>)"
  unfolding buffer_option_token dep_option_token arg_token_other [symmetric]
  by (cases "arg_token opt")
    (auto simp: parse_option_def parse_kind_def parse_dep_def find_param_Inr Let_def split: if_splits)

section \<open>The whole option list\<close>

definition valid_option :: "ir_func \<Rightarrow> string \<Rightarrow> bool" where
  "valid_option F opt \<longleftrightarrow> plain_option opt \<or> (\<exists>i k. buffer_option F opt i k) \<or> (\<exists>i w. dep_option F opt i w)"

definition options_ok :: "ir_func \<Rightarrow> string list \<Rightarrow> bool" where
  "options_ok F opts \<longleftrightarrow> (\<forall>opt\<in>set opts. valid_option F opt) \<and>
     (\<forall>a\<in>set opts. \<forall>b\<in>set opts. \<forall>i v w. dep_option F a i v \<longrightarrow> dep_option F b i w \<longrightarrow> v = w)"

text \<open>The kind of a parameter: the last buffer option that names it, or what its type says.\<close>

definition final_kind :: "ir_func \<Rightarrow> string list \<Rightarrow> nat \<Rightarrow> u32 \<Rightarrow> bool" where
  "final_kind F opts i k =
     (case List.find (\<lambda>opt. \<exists>k. buffer_option F opt i k) (rev opts) of
        Some opt \<Rightarrow> buffer_option F opt i k
      | None \<Rightarrow> k = default_kind (f_params F ! i) (const_params F ! i))"

definition final_dep :: "ir_func \<Rightarrow> string list \<Rightarrow> nat \<Rightarrow> u32 \<Rightarrow> bool" where
  "final_dep F opts i w \<longleftrightarrow> (\<exists>opt\<in>set opts. dep_option F opt i w) \<or>
     (\<forall>opt\<in>set opts. \<forall>v. \<not> dep_option F opt i v) \<and> w = DEP_NONE"

definition is_buffer :: "string \<Rightarrow> bool" where
  "is_buffer opt \<longleftrightarrow> starts_with ''bin='' opt \<or> starts_with ''bout='' opt \<or> starts_with ''buf='' opt"

definition parsed_spec :: "ir_func \<Rightarrow> string list \<Rightarrow> parsed \<Rightarrow> bool" where
  "parsed_spec F opts P \<longleftrightarrow> length (p_kinds P) = f_nargs F \<and> length (p_deps P) = f_nargs F \<and>
     (\<forall>i<f_nargs F. final_kind F opts i (p_kinds P ! i) \<and> final_dep F opts i (p_deps P ! i)) \<and>
     p_noped P = of_nat (length (filter is_buffer opts))"

lemma option_unique:
  "buffer_option F opt i k \<Longrightarrow> buffer_option F opt j l \<Longrightarrow> i = j \<and> k = l"
  "dep_option F opt i v \<Longrightarrow> dep_option F opt j w \<Longrightarrow> i = j \<and> v = w"
  "buffer_option F opt i k \<Longrightarrow> \<not> dep_option F opt j w"
  "buffer_option F opt i k \<Longrightarrow> is_buffer opt"
  "dep_option F opt i w \<Longrightarrow> \<not> is_buffer opt"
  "plain_option opt \<Longrightarrow> \<not> is_buffer opt \<and> \<not> buffer_option F opt i k \<and> \<not> dep_option F opt j w"
proof -
  have names: "names_param F p i \<Longrightarrow> names_param F p j \<Longrightarrow> i = j" for p i j
    unfolding find_param_Inr [symmetric, where opt = "[]"] by simp
  have isb: "is_buffer opt \<longleftrightarrow> (\<exists>k p. arg_token opt = Kind_Token k p)"
    unfolding is_buffer_def arg_token_kind starts_with_iff by blast
  show "buffer_option F opt i k \<Longrightarrow> buffer_option F opt j l \<Longrightarrow> i = j \<and> k = l"
    using names unfolding buffer_option_token by auto
  show "dep_option F opt i v \<Longrightarrow> dep_option F opt j w \<Longrightarrow> i = j \<and> v = w"
    using names unfolding dep_option_token by clarsimp (metis names)
  show "buffer_option F opt i k \<Longrightarrow> \<not> dep_option F opt j w"
    "buffer_option F opt i k \<Longrightarrow> is_buffer opt" "dep_option F opt i w \<Longrightarrow> \<not> is_buffer opt"
    "plain_option opt \<Longrightarrow> \<not> is_buffer opt \<and> \<not> buffer_option F opt i k \<and> \<not> dep_option F opt j w"
    unfolding buffer_option_token dep_option_token isb arg_token_other [symmetric] by auto
qed

lemma option_index:
  "func_wf F \<Longrightarrow> buffer_option F opt i k \<Longrightarrow> i < f_nargs F"
  "func_wf F \<Longrightarrow> dep_option F opt i w \<Longrightarrow> i < f_nargs F"
  by (auto simp: buffer_option_def dep_option_def names_param_def)

lemma dep_option_word:
  "dep_option F opt i w \<Longrightarrow> w \<noteq> DEP_NONE \<and> dependency_shape w"
  unfolding dep_option_def using dep_word_shape by (auto simp: DEP_NONE_def)

lemma parse_options_snoc:
  "parse_options F (opts @ [opt]) P = pass_bind (parse_options F opts P) (parse_option F opt)"
proof (induction opts arbitrary: P)
  case Nil
  show ?case by (cases "parse_option F opt P") simp_all
next
  case (Cons x xs)
  then show ?case by (cases "parse_option F x P") simp_all
qed

lemma final_kind_snoc:
  "final_kind F (opts @ [opt]) i k \<longleftrightarrow>
     buffer_option F opt i k \<or> (\<forall>k'. \<not> buffer_option F opt i k') \<and> final_kind F opts i k"
  by (auto simp: final_kind_def split: option.split)

lemma final_dep_snoc:
  "final_dep F (opts @ [opt]) i w \<longleftrightarrow>
     dep_option F opt i w \<or> (\<exists>o'\<in>set opts. dep_option F o' i w) \<or>
     (\<forall>v. \<not> dep_option F opt i v) \<and> (\<forall>o'\<in>set opts. \<forall>v. \<not> dep_option F o' i v) \<and> w = DEP_NONE"
  by (auto simp: final_dep_def)

lemma options_ok_snoc:
  assumes "options_ok F opts" and "parsed_spec F opts P" and "func_wf F"
  shows "options_ok F (opts @ [opt]) \<longleftrightarrow> valid_option F opt \<and>
    (\<forall>i w. dep_option F opt i w \<longrightarrow> p_deps P ! i = DEP_NONE \<or> p_deps P ! i = w)"
proof -
  have d: "dep_option F opt i w \<Longrightarrow> (p_deps P ! i = DEP_NONE \<or> p_deps P ! i = w) \<longleftrightarrow>
      (\<forall>a\<in>set opts. \<forall>v. dep_option F a i v \<longrightarrow> v = w)" for i w
  proof -
    assume that: "dep_option F opt i w"
    have f: "final_dep F opts i (p_deps P ! i)"
      using option_index(2) [OF assms(3) that] assms(2) by (simp add: parsed_spec_def)
    have u: "v = v'" if "a \<in> set opts" "dep_option F a i v" "b \<in> set opts" "dep_option F b i v'" for a b v v'
      using assms(1) that unfolding options_ok_def by blast
    have n: "v \<noteq> DEP_NONE" if "dep_option F a i v" for a v using dep_option_word [OF that] by simp
    from f show ?thesis unfolding final_dep_def using u n by metis
  qed
  have "options_ok F (opts @ [opt]) \<longleftrightarrow> options_ok F opts \<and> valid_option F opt \<and>
      (\<forall>i w. dep_option F opt i w \<longrightarrow> (\<forall>a\<in>set opts. \<forall>v. dep_option F a i v \<longrightarrow> v = w))"
    (is "?l = (?o \<and> ?v \<and> ?c)")
  proof
    assume ?l
    then show "?o \<and> ?v \<and> ?c" unfolding options_ok_def by simp
  next
    assume r: "?o \<and> ?v \<and> ?c"
    have "v = w" if "a \<in> set (opts @ [opt])" "b \<in> set (opts @ [opt])" "dep_option F a i v" "dep_option F b i w"
      for a b i v w
    proof (cases "a \<in> set opts")
      case True
      show ?thesis
      proof (cases "b \<in> set opts")
        case True
        then show ?thesis using r \<open>a \<in> set opts\<close> that unfolding options_ok_def by blast
      next
        case False
        then show ?thesis using r \<open>a \<in> set opts\<close> that by auto
      qed
    next
      case False
      then have a: "a = opt" using that(1) by simp
      show ?thesis
      proof (cases "b \<in> set opts")
        case True
        then show ?thesis using r a that by auto
      next
        case False
        then have "b = opt" using that(2) by simp
        then show ?thesis using a that option_unique(2) by blast
      qed
    qed
    then show ?l using r unfolding options_ok_def by (simp add: ball_Un)
  qed
  then show ?thesis using assms(1) d by blast
qed

lemma parse_kinds_snoc:
  "parse_kinds F (opts @ [opt]) = pass_bind (parse_kinds F opts) (parse_option F opt)"
  by (simp add: parse_kinds_def parse_options_snoc)

lemma parse_step_spec:
  assumes wf: "func_wf F" and ok: "options_ok F opts" and P: "parsed_spec F opts P"
    and s: "parse_option F opt P = Inr P'"
  shows "options_ok F (opts @ [opt])" "parsed_spec F (opts @ [opt]) P'"
proof -
  consider (plain) "plain_option opt" "P' = P"
    | (buf) i k where "buffer_option F opt i k"
        "P' = P\<lparr>p_noped := p_noped P + 1, p_kinds := (p_kinds P)[i := k]\<rparr>"
    | (dep) i w where "dep_option F opt i w" "p_deps P ! i = DEP_NONE \<or> p_deps P ! i = w"
        "P' = P\<lparr>p_deps := (p_deps P)[i := w]\<rparr>"
    using s unfolding parse_option_Inr by blast
  then have "valid_option F opt \<and>
      (\<forall>i w. dep_option F opt i w \<longrightarrow> p_deps P ! i = DEP_NONE \<or> p_deps P ! i = w) \<and>
      parsed_spec F (opts @ [opt]) P'"
  proof cases
    case plain
    then show ?thesis using option_unique(6) [of opt F] P
      by (auto simp: valid_option_def parsed_spec_def final_kind_snoc final_dep_snoc) (auto simp: final_dep_def)
  next
    case (buf i k)
    have nd: "\<not> dep_option F opt j w" for j w using option_unique(3) [OF buf(1)] .
    have i: "i < f_nargs F" using option_index(1) [OF wf buf(1)] .
    have bj: "buffer_option F opt j l \<longleftrightarrow> j = i \<and> l = k" for j l
      using option_unique(1) [OF buf(1)] buf(1) by blast
    show ?thesis using P i
      unfolding valid_option_def parsed_spec_def final_kind_snoc final_dep_snoc bj buf(2)
      by (auto simp: nth_list_update nd option_unique(4) [OF buf(1)]) (auto simp: final_dep_def)
  next
    case (dep i w)
    have nb: "\<not> buffer_option F opt j k" for j k using option_unique(3) dep(1) by blast
    have i: "i < f_nargs F" using option_index(2) [OF wf dep(1)] .
    have dj: "dep_option F opt j v \<longleftrightarrow> j = i \<and> v = w" for j v
      using option_unique(2) [OF dep(1)] dep(1) by blast
    show ?thesis using P i dep(2)
      unfolding valid_option_def parsed_spec_def final_kind_snoc final_dep_snoc dj dep(3)
      by (auto simp: nth_list_update nb option_unique(5) [OF dep(1)]) (auto simp: final_dep_def)
  qed
  then show "options_ok F (opts @ [opt])" "parsed_spec F (opts @ [opt]) P'"
    using options_ok_snoc [OF ok P wf] by blast+
qed

lemma parse_step_Inl:
  assumes wf: "func_wf F" and ok: "options_ok F opts" and P: "parsed_spec F opts P"
    and s: "parse_option F opt P = Inl e"
  shows "\<not> options_ok F (opts @ [opt])"
proof
  assume "options_ok F (opts @ [opt])"
  then have "valid_option F opt" and d: "\<And>i w. dep_option F opt i w \<Longrightarrow> p_deps P ! i = DEP_NONE \<or> p_deps P ! i = w"
    using options_ok_snoc [OF ok P wf] by blast+
  then have "\<exists>P'. parse_option F opt P = Inr P'"
    unfolding valid_option_def parse_option_Inr by blast
  then show False using s by simp
qed

lemma parse_kinds_cases:
  "func_wf F \<Longrightarrow> case parse_kinds F opts of Inl e \<Rightarrow> \<not> options_ok F opts
     | Inr P \<Rightarrow> options_ok F opts \<and> parsed_spec F opts P"
proof (induction opts rule: rev_induct)
  case Nil
  then show ?case
    by (simp add: parse_kinds_def options_ok_def parsed_spec_def final_kind_def final_dep_def)
next
  case (snoc opt opts)
  show ?case
  proof (cases "parse_kinds F opts")
    case (Inl e)
    then have "\<not> options_ok F (opts @ [opt])" using snoc by (auto simp: options_ok_def)
    then show ?thesis using Inl by (simp add: parse_kinds_snoc)
  next
    case (Inr P)
    then have ih: "options_ok F opts" "parsed_spec F opts P" using snoc by auto
    show ?thesis
      using Inr parse_step_spec [OF snoc.prems ih] parse_step_Inl [OF snoc.prems ih]
      by (auto simp: parse_kinds_snoc split: sum.split)
  qed
qed

section \<open>Kinds, runtime and descriptor\<close>

text \<open>Only pointer parameters get a kind, so the stub marks only pointers.\<close>

lemma kind_pointer:
  assumes "func_wf F" and "parse_kinds F opts = Inr P" and "i < f_nargs F"
  shows "p_kinds P ! i \<in> {ARG_IGNORED, ARG_BUFFER_IN, ARG_BUFFER_OUT, ARG_PENDING}"
    and "p_kinds P ! i \<noteq> ARG_IGNORED \<longleftrightarrow> f_params F ! i = Ptr_Ty"
proof -
  have "final_kind F opts i (p_kinds P ! i)"
    using parse_kinds_cases [OF assms(1), of opts] assms by (simp add: parsed_spec_def)
  then have "(\<exists>opt. buffer_option F opt i (p_kinds P ! i)) \<or>
      p_kinds P ! i = default_kind (f_params F ! i) (const_params F ! i)"
    by (auto simp: final_kind_def split: option.splits)
  then show "p_kinds P ! i \<in> {ARG_IGNORED, ARG_BUFFER_IN, ARG_BUFFER_OUT, ARG_PENDING}"
    and "p_kinds P ! i \<noteq> ARG_IGNORED \<longleftrightarrow> f_params F ! i = Ptr_Ty"
    by (auto simp: buffer_option_def default_kind_def arg_consts split: if_splits)
qed

lemma dep_shape:
  assumes "func_wf F" and "parse_kinds F opts = Inr P" and "i < f_nargs F"
  shows "dependency_shape (p_deps P ! i)"
    and "p_deps P ! i \<noteq> DEP_NONE \<longrightarrow> (\<exists>opt\<in>set opts. dep_option F opt i (p_deps P ! i))"
proof -
  have f: "final_dep F opts i (p_deps P ! i)"
    using parse_kinds_cases [OF assms(1), of opts] assms by (simp add: parsed_spec_def)
  then have "(\<exists>opt. dep_option F opt i (p_deps P ! i)) \<or> p_deps P ! i = 0"
    unfolding final_dep_def DEP_NONE_def by blast
  then show "dependency_shape (p_deps P ! i)"
    using dep_option_word by (metis dependency_shape_def)
  show "p_deps P ! i \<noteq> DEP_NONE \<longrightarrow> (\<exists>opt\<in>set opts. dep_option F opt i (p_deps P ! i))"
    using f unfolding final_dep_def by blast
qed

definition runtime_named :: "string list \<Rightarrow> string \<Rightarrow> bool" where
  "runtime_named opts rt \<longleftrightarrow> c_identifier rt \<and> ''runtime='' @ rt \<in> set opts \<and>
     (\<forall>opt\<in>set opts. starts_with ''runtime='' opt \<longrightarrow> opt = ''runtime='' @ rt)"

lemma runtime_options_Inr:
  "runtime_options opts name = Inr rt \<longleftrightarrow>
     (\<forall>opt\<in>set opts. starts_with ''runtime='' opt \<longrightarrow> opt = ''runtime='' @ rt \<and> c_identifier rt) \<and>
     (if name = [] then ''runtime='' @ rt \<in> set opts \<and> rt \<noteq> [] else name = rt)"
proof (induction opts arbitrary: name)
  case Nil
  show ?case by (cases "name = []") auto
next
  case (Cons opt opts)
  show ?case
  proof (cases "starts_with ''runtime='' opt")
    case False
    then have "opt \<noteq> ''runtime='' @ rt" by (auto simp: starts_with_iff)
    then show ?thesis using False Cons by auto
  next
    case True
    then obtain n where n: "opt = ''runtime='' @ n" unfolding starts_with_iff by blast
    have ne: "c_identifier n \<Longrightarrow> n \<noteq> []" by (simp add: c_identifier_def)
    have e: "runtime_options (opt # opts) name =
        (if \<not> c_identifier n then Inl (Not_A_Runtime opt)
         else if name \<noteq> [] \<and> name \<noteq> n then Inl (Two_Runtimes name n) else runtime_options opts n)"
      using True by (simp add: n Let_def)
    have m: "(opt = ''runtime='' @ rt) = (n = rt)" unfolding n by simp
    show ?thesis
    proof (cases "c_identifier n \<and> n = rt")
      case True
      then have c: "rt \<noteq> []" "c_identifier rt" and rt: "n = rt" using ne by auto
      have o: "opt = ''runtime='' @ rt" using n rt by simp
      show ?thesis unfolding e rt using c by (simp add: Cons, simp add: o)
    next
      case False
      have "runtime_options (opt # opts) name \<noteq> Inr rt"
        unfolding e using False ne by (auto simp: Cons)
      moreover have "\<not> (\<forall>o'\<in>set (opt # opts). starts_with ''runtime='' o' \<longrightarrow> o' = ''runtime='' @ rt \<and> c_identifier rt)"
        using False m True by (metis list.set_intros(1))
      ultimately show ?thesis by blast
    qed
  qed
qed

lemma parse_runtime_Inr: "parse_runtime opts = Inr rt \<longleftrightarrow> runtime_named opts rt"
proof -
  have "starts_with ''runtime='' (''runtime='' @ rt)" unfolding starts_with_iff by blast
  then show ?thesis
    unfolding parse_runtime_def runtime_options_Inr runtime_named_def by (auto simp: c_identifier_def)
qed

lemma emit_meta_Inr:
  assumes "emit_meta link F name opts P = Inr m"
  obtains rt where "runtime_named opts rt" "m_runtime m = Linked (link (''filc_async_runtime_'' @ rt))"
    "m_name m = name" "m_opts m = opts" "m_nargs m = of_nat (f_nargs F)" "m_noped_args m = p_noped P"
    "m_args m = map2 (\<lambda>k d. \<lparr>a_kind = k, a_dependency = d\<rparr>) (p_kinds P) (p_deps P)"
    "m_flags m = 0" "m_result m = (if ft_ret (f_type F) = Ptr_Ty then RESULT_PTR else RESULT_WORD)"
  using assms that by (auto simp: emit_meta_def parse_runtime_Inr)

lemma dep_args_fields:
  "length ks = length ds \<Longrightarrow>
     map a_kind (map2 (\<lambda>k d. \<lparr>a_kind = k, a_dependency = d\<rparr>) ks ds) = ks \<and>
     map a_dependency (map2 (\<lambda>k d. \<lparr>a_kind = k, a_dependency = d\<rparr>) ks ds) = ds"
  by (induction ks ds rule: list_induct2) auto

lemma emit_meta_parsed:
  assumes "func_wf F" and "parse_kinds F opts = Inr P" and "emit_meta link F name opts P = Inr m"
    and "f_nargs F < 2 ^ 32"
  shows "meta_wf m"
    and "\<forall>a\<in>set (m_args m). dependency_shape (a_dependency a)"
    and "map a_kind (m_args m) = p_kinds P" and "map a_dependency (m_args m) = p_deps P"
    and "m_noped_args m = of_nat (length (filter is_buffer opts))"
proof -
  have P: "parsed_spec F opts P" using parse_kinds_cases [OF assms(1), of opts] assms(2) by simp
  then have l: "length (p_kinds P) = f_nargs F" "length (p_deps P) = f_nargs F" by (simp_all add: parsed_spec_def)
  obtain rt where m: "m_nargs m = of_nat (f_nargs F)" "m_noped_args m = p_noped P"
    "m_args m = map2 (\<lambda>k d. \<lparr>a_kind = k, a_dependency = d\<rparr>) (p_kinds P) (p_deps P)"
    using emit_meta_Inr [OF assms(3)] by blast
  show "meta_wf m" using assms(4) l by (simp add: meta_wf_def m unat_of_nat take_bit_nat_eq_self)
  show k: "map a_kind (m_args m) = p_kinds P" "map a_dependency (m_args m) = p_deps P"
    using l dep_args_fields [of "p_kinds P" "p_deps P"] unfolding m by auto
  have "\<forall>d\<in>set (p_deps P). dependency_shape d"
    using dep_shape(1) [OF assms(1,2)] l by (auto simp: in_set_conv_nth)
  then show "\<forall>a\<in>set (m_args m). dependency_shape (a_dependency a)" using k(2) by (metis image_eqI list.set_map)
  show "m_noped_args m = of_nat (length (filter is_buffer opts))" using P by (simp add: m parsed_spec_def)
qed

text \<open>C11. The argument options of an annotation are accepted exactly when each is none of the argument
  options or names a parameter it can describe, and no two dependencies on a parameter differ;
  then a parameter has the kind of the last buffer option that names it, or the one its type
  implies, and the dependency some option gives it, or none.\<close>

theorem parse_kinds_exact:
  assumes "func_wf F"
  shows "case parse_kinds F opts of Inl e \<Rightarrow> \<not> options_ok F opts
    | Inr P \<Rightarrow> options_ok F opts \<and> parsed_spec F opts P"
  using assms by (rule parse_kinds_cases)

text \<open>C37. The descriptor the compiler emits passes the runtime's startup check, apart from what the
  program's validator or the named runtime decides, exactly when the function has no more
  buffer options than parameters.\<close>

theorem emitted_descriptor_ok:
  assumes "func_wf F" and "f_nargs F < 2 ^ 32" and "length opts < 2 ^ 32"
    and "parse_kinds F opts = Inr P" and "emit_meta link F name opts P = Inr m"
  shows "meta_wf m \<and> m_runtime m \<noteq> No_Runtime \<and>
    meta_ok None rt_validate m =
      (length (filter is_buffer opts) \<le> f_nargs F \<and> rt_validate (m_runtime m) m)"
proof -
  note p = emit_meta_parsed [OF assms(1,4,5,2)]
  obtain rt where m: "m_nargs m = of_nat (f_nargs F)" "m_runtime m = Linked (link (''filc_async_runtime_'' @ rt))"
    using emit_meta_Inr [OF assms(5)] by blast
  have "length (filter is_buffer opts) < 2 ^ 32" using length_filter_le [of is_buffer opts] assms(3) by linarith
  then have "m_noped_args m \<le> m_nargs m \<longleftrightarrow> length (filter is_buffer opts) \<le> f_nargs F"
    using assms(2) by (simp add: p m word_le_nat_alt unat_of_nat take_bit_nat_eq_self)
  then show ?thesis using p m by (simp add: meta_ok_def)
qed

section \<open>Witnesses\<close>

text \<open>\<open>ssize_t read_at(int fd, void *buf, size_t len, off_t off)\<close>, annotated for io_uring.\<close>

definition read_at :: ir_func where
  "read_at = \<lparr>f_type = \<lparr>ft_ret = Int_Ty 64, ft_params = [Int_Ty 32, Ptr_Ty, Int_Ty 64, Int_Ty 64], ft_vararg = False\<rparr>,
     f_arg_names = replicate 4 [],
     f_params_md = Some [Some ''fd'', Some ''buf'', Some ''len'', Some ''off''],
     f_const_md = Some [Some 0, Some 0, Some 0, Some 0],
     f_declaration = False, f_linkage = External_Linkage, f_visibility = 0\<rparr>"

definition read_at_opts :: "string list" where
  "read_at_opts = [''runtime=io_uring'', ''op=pread'', ''bout=buf'', ''r_dep=fd:file'']"

definition read_at_parsed :: parsed where
  "read_at_parsed = \<lparr>p_kinds = [0, 3, 0, 0], p_deps = [dep_word DEP_READ (Int_Ty 32) ''fd:file'', 0, 0, 0], p_noped = 1\<rparr>"

lemmas pass_eval = read_at_def read_at_opts_def read_at_parsed_def parse_kinds_def parse_option_def
  arg_token_def starts_with_def parse_kind_def parse_dep_def find_param_def param_names_def const_params_def
  vec_resize_def default_kind_def dep_param_def dep_type_ok_def arg_consts

lemma read_at_parse: "parse_kinds read_at read_at_opts = Inr read_at_parsed"
  by (simp add: pass_eval DEP_NONE_def)

lemma read_at_wf: "func_wf read_at"
  by (simp add: func_wf_def read_at_def)

theorem parse_kinds_exact_witness:
  "options_ok read_at read_at_opts \<and> final_kind read_at read_at_opts 1 ARG_BUFFER_OUT"
proof -
  have "options_ok read_at read_at_opts" and p: "parsed_spec read_at read_at_opts read_at_parsed"
    using parse_kinds_exact [OF read_at_wf, of read_at_opts] by (simp_all add: read_at_parse)
  moreover have "1 < f_nargs read_at" "p_kinds read_at_parsed ! 1 = ARG_BUFFER_OUT"
    by (simp_all add: read_at_def read_at_parsed_def ARG_BUFFER_OUT_def)
  ultimately show ?thesis by (metis parsed_spec_def)
qed

definition read_at_meta :: "(string \<Rightarrow> addr) \<Rightarrow> filc_async_meta" where
  "read_at_meta link = (case emit_meta link read_at ''read_at'' read_at_opts read_at_parsed of Inr m \<Rightarrow> m)"

lemma read_at_runtime: "parse_runtime read_at_opts = Inr ''io_uring''"
  by (simp add: parse_runtime_def read_at_opts_def starts_with_def c_identifier_def isAlnum_def isDigit_def of_char_def)

theorem emitted_descriptor_ok_witness:
  "meta_ok None (\<lambda>_ _. True) (read_at_meta (\<lambda>_. 0x9000)) \<and>
   \<not> meta_ok None (\<lambda>_ _. True)
       (case emit_meta (\<lambda>_. 0x9000) read_at ''read_at'' (replicate 5 ''bout=buf'' @ [''runtime=rt''])
          (read_at_parsed\<lparr>p_deps := [0, 0, 0, 0], p_noped := 5\<rparr>) of Inr m \<Rightarrow> m)"
  (is "?a \<and> \<not> ?b")
proof
  have e: "emit_meta (\<lambda>_. 0x9000) read_at ''read_at'' read_at_opts read_at_parsed = Inr (read_at_meta (\<lambda>_. 0x9000))"
    by (simp add: read_at_meta_def emit_meta_def read_at_runtime)
  show ?a
    using emitted_descriptor_ok [OF read_at_wf _ _ read_at_parse e, of "\<lambda>_ _. True"]
    by (simp add: read_at_def read_at_opts_def is_buffer_def starts_with_def)
  let ?o = "replicate 5 ''bout=buf'' @ [''runtime=rt'']" and ?P = "read_at_parsed\<lparr>p_deps := [0, 0, 0, 0], p_noped := 5\<rparr>"
  have p: "parse_kinds read_at ?o = Inr ?P" by (simp add: pass_eval DEP_NONE_def numeral_eq_Suc)
  have r: "parse_runtime ?o = Inr ''rt''"
    by (simp add: parse_runtime_def starts_with_def c_identifier_def isAlnum_def isDigit_def of_char_def numeral_eq_Suc)
  obtain m where m: "emit_meta (\<lambda>_. 0x9000) read_at ''read_at'' ?o ?P = Inr m"
    by (simp add: emit_meta_def r)
  have "length (filter is_buffer ?o) = 5" by (simp add: is_buffer_def starts_with_def numeral_eq_Suc)
  then have "\<not> meta_ok None (\<lambda>_ _. True) m"
    using emitted_descriptor_ok [OF read_at_wf _ _ p m, of "\<lambda>_ _. True"] by (simp add: read_at_def)
  then show "\<not> ?b" by (simp add: m)
qed

end
