(* ===== verification/ModuleInv.thy ===== *)
theory ModuleInv
  imports PassModule PassRuns
begin

text \<open>
  Well-formed modules.  \<open>module_ok\<close> says that whatever a module refers to is in it and that names are
  unique; adding a constant, a variable, a function or an alias keeps it, and so does destroying what
  nothing uses.  The walk of \<^verbatim>\<open>eraseAnnotations\<close> ends and lists only what its root leads to.
\<close>

section \<open>Well-formed modules\<close>

text \<open>Everything a module refers to exists, and names are unique.\<close>

definition const_ok :: "ir_module \<Rightarrow> ir_const \<Rightarrow> bool" where
  "const_ok M c \<longleftrightarrow> (is_pool_constant c \<longrightarrow> c \<in> set (pool M)) \<and>
     (\<forall>g. c = Global_Ref g \<longrightarrow> g \<in> set (live_gids M))"

definition module_ok :: "ir_module \<Rightarrow> bool" where
  "module_ok M \<longleftrightarrow> distinct (live_gids M) \<and> inj_on (gname M) (set (live_gids M)) \<and>
     (\<forall>g\<in>set (live_gids M). g < next_gid M) \<and>
     (\<forall>p\<in>set (pool M). \<forall>c\<in>set (operands p). const_ok M c) \<and>
     (\<forall>g\<in>set (vars M). \<forall>c. gv_init (var_def M g) = Some c \<longrightarrow> const_ok M c) \<and>
     (\<forall>al\<in>snd ` set (aliases M). al_target al \<in> set (live_gids M)) \<and>
     (\<forall>g\<in>set (fns M). \<forall>i\<in>set (bodies M g). \<forall>c\<in>set (instr_uses i). const_ok M c) \<and>
     (\<forall>g\<in>snd ` set (ctors M). g \<in> set (live_gids M))"

lemma module_okD:
  assumes "module_ok M"
  shows "distinct (live_gids M)" and "inj_on (gname M) (set (live_gids M))"
    and "\<And>g. g \<in> set (live_gids M) \<Longrightarrow> g < next_gid M"
    and "\<And>p c. p \<in> set (pool M) \<Longrightarrow> c \<in> set (operands p) \<Longrightarrow> const_ok M c"
    and "\<And>g c. g \<in> set (vars M) \<Longrightarrow> gv_init (var_def M g) = Some c \<Longrightarrow> const_ok M c"
    and "\<And>al. al \<in> snd ` set (aliases M) \<Longrightarrow> al_target al \<in> set (live_gids M)"
    and "\<And>g i c. g \<in> set (fns M) \<Longrightarrow> i \<in> set (bodies M g) \<Longrightarrow> c \<in> set (instr_uses i) \<Longrightarrow> const_ok M c"
    and "\<And>g. g \<in> snd ` set (ctors M) \<Longrightarrow> g \<in> set (live_gids M)"
proof -
  from assms obtain a: "distinct (live_gids M)" "inj_on (gname M) (set (live_gids M))"
    "\<forall>g\<in>set (live_gids M). g < next_gid M"
    and b: "\<forall>p\<in>set (pool M). \<forall>c\<in>set (operands p). const_ok M c"
    "\<forall>g\<in>set (vars M). \<forall>c. gv_init (var_def M g) = Some c \<longrightarrow> const_ok M c"
    and c: "\<forall>al\<in>snd ` set (aliases M). al_target al \<in> set (live_gids M)"
    "\<forall>g\<in>set (fns M). \<forall>i\<in>set (bodies M g). \<forall>c\<in>set (instr_uses i). const_ok M c"
    "\<forall>g\<in>snd ` set (ctors M). g \<in> set (live_gids M)"
    unfolding module_ok_def by (elim conjE) (rule that)
  show "distinct (live_gids M)" "inj_on (gname M) (set (live_gids M))" by (fact a)+
  show "\<And>g. g \<in> set (live_gids M) \<Longrightarrow> g < next_gid M" using a(3) by (rule bspec)
  show "\<And>p c. p \<in> set (pool M) \<Longrightarrow> c \<in> set (operands p) \<Longrightarrow> const_ok M c" using b(1) by simp
  show "\<And>g c. g \<in> set (vars M) \<Longrightarrow> gv_init (var_def M g) = Some c \<Longrightarrow> const_ok M c" using b(2) by simp
  show "\<And>al. al \<in> snd ` set (aliases M) \<Longrightarrow> al_target al \<in> set (live_gids M)" using c(1) by (rule bspec)
  show "\<And>g i c. g \<in> set (fns M) \<Longrightarrow> i \<in> set (bodies M g) \<Longrightarrow> c \<in> set (instr_uses i) \<Longrightarrow> const_ok M c"
    using c(2) by simp
  show "\<And>g. g \<in> snd ` set (ctors M) \<Longrightarrow> g \<in> set (live_gids M)" using c(3) by (rule bspec)
qed

definition uniq_ok :: "uniq \<Rightarrow> bool" where
  "uniq_ok uniq \<longleftrightarrow> (\<forall>taken n. uniq taken n \<notin> set taken)"

lemma free_name_fresh: "uniq_ok uniq \<Longrightarrow> g \<in> set (live_gids M) \<Longrightarrow> free_name uniq M n \<noteq> gname M g"
  unfolding free_name_def uniq_ok_def Let_def by (metis imageI list.set_map)

fun const_gids :: "ir_const \<Rightarrow> gid list" where
  "const_gids (Const_Array cs) = concat (map const_gids cs)"
| "const_gids (Const_Struct cs) = concat (map const_gids cs)"
| "const_gids (Const_Vector cs) = concat (map const_gids cs)"
| "const_gids (Const_Cast c) = const_gids c"
| "const_gids (Global_Ref g) = [g]"
| "const_gids _ = []"

lemma pool_parts_self: "is_pool_constant c \<Longrightarrow> c \<in> set (pool_parts c)"
  by (cases c) simp_all

lemma list_parts_closed:
  assumes IH: "\<And>x p q. x \<in> set cs \<Longrightarrow> p \<in> set (pool_parts x) \<Longrightarrow> q \<in> set (operands p) \<Longrightarrow>
      (is_pool_constant q \<longrightarrow> q \<in> set (pool_parts x)) \<and> (\<forall>g. q = Global_Ref g \<longrightarrow> g \<in> set (const_gids x))"
    and p: "p = C \<or> p \<in> set (concat (map pool_parts cs))" and C: "operands C = cs"
    and q: "q \<in> set (operands p)"
  shows "(is_pool_constant q \<longrightarrow> q \<in> set (concat (map pool_parts cs))) \<and>
    (\<forall>g. q = Global_Ref g \<longrightarrow> g \<in> set (concat (map const_gids cs)))"
  using p
proof
  assume "p = C"
  then have m: "q \<in> set cs" using q C by simp
  then show ?thesis using pool_parts_self [of q] by (auto intro!: bexI [OF _ m])
next
  assume "p \<in> set (concat (map pool_parts cs))"
  then obtain x where x: "x \<in> set cs" "p \<in> set (pool_parts x)" by auto
  show ?thesis using IH [OF x q] x(1) by auto
qed

lemma pool_parts_closed:
  "p \<in> set (pool_parts c) \<Longrightarrow> q \<in> set (operands p) \<Longrightarrow>
   (is_pool_constant q \<longrightarrow> q \<in> set (pool_parts c)) \<and> (\<forall>g. q = Global_Ref g \<longrightarrow> g \<in> set (const_gids c))"
proof (induction c arbitrary: p q rule: pool_parts.induct)
  case (1 cs)
  from list_parts_closed [where C = "Const_Array cs" and cs = cs, OF "1.IH" _ _ "1.prems"(2)] "1.prems"(1)
  show ?case by simp
next
  case (2 cs)
  from list_parts_closed [where C = "Const_Struct cs" and cs = cs, OF "2.IH" _ _ "2.prems"(2)] "2.prems"(1)
  show ?case by simp
next
  case (3 cs)
  from list_parts_closed [where C = "Const_Vector cs" and cs = cs, OF "3.IH" _ _ "3.prems"(2)] "3.prems"(1)
  show ?case by simp
next
  case (4 c)
  then show ?case using pool_parts_self by auto
qed simp_all

text \<open>A module that has grown: what existed is still there.\<close>

definition grown :: "ir_module \<Rightarrow> ir_module \<Rightarrow> bool" where
  "grown M M' \<longleftrightarrow> set (vars M) \<subseteq> set (vars M') \<and> set (fns M) \<subseteq> set (fns M') \<and>
     set (live_gids M) \<subseteq> set (live_gids M') \<and> set (pool M) \<subseteq> set (pool M') \<and>
     (\<forall>g\<in>set (vars M). var_def M' g = var_def M g \<and> gname M' g = gname M g) \<and>
     (\<forall>g\<in>set (fns M). fn_def M' g = fn_def M g)"

lemma grown_refl [simp]: "grown M M"
  by (simp add: grown_def)

lemma grown_trans: "grown M1 M2 \<Longrightarrow> grown M2 M3 \<Longrightarrow> grown M1 M3"
  unfolding grown_def by (intro conjI) (elim conjE, auto)+

lemma grownD:
  assumes "grown M M'"
  shows "g \<in> set (vars M) \<Longrightarrow> g \<in> set (vars M')" "g \<in> set (fns M) \<Longrightarrow> g \<in> set (fns M')"
    "g \<in> set (live_gids M) \<Longrightarrow> g \<in> set (live_gids M')"
    "g \<in> set (vars M) \<Longrightarrow> var_def M' g = var_def M g" "g \<in> set (vars M) \<Longrightarrow> gname M' g = gname M g"
    "g \<in> set (fns M) \<Longrightarrow> fn_def M' g = fn_def M g"
  using assms unfolding grown_def by blast+

lemma const_ok_grown: "grown M M' \<Longrightarrow> const_ok M c \<Longrightarrow> const_ok M' c"
  unfolding grown_def const_ok_def by blast

lemma var_init_grown: "grown M M' \<Longrightarrow> var_init M c = Some i \<Longrightarrow> var_init M' c = Some i"
  unfolding var_init_def using grownD(1,4) by (auto split: ir_const.splits if_splits)

lemma add_pool_simps [simp]:
  "vars (add_pool c M) = vars M" "fns (add_pool c M) = fns M" "var_def (add_pool c M) = var_def M"
  "fn_def (add_pool c M) = fn_def M" "aliases (add_pool c M) = aliases M" "gname (add_pool c M) = gname M"
  "bodies (add_pool c M) = bodies M" "ctors (add_pool c M) = ctors M" "next_gid (add_pool c M) = next_gid M"
  "live_gids (add_pool c M) = live_gids M" "stub_code (add_pool c M) = stub_code M"
  "set (pool (add_pool c M)) = set (pool_parts c) \<union> set (pool M)"
  by (simp_all add: add_pool_def live_gids_def)

lemma add_pool_grown: "grown M (add_pool c M)"
  by (simp add: grown_def)

lemma add_pool_ok:
  assumes ok: "module_ok M" and c: "\<forall>g\<in>set (const_gids c). g \<in> set (live_gids M)"
  shows "module_ok (add_pool c M)"
proof -
  note d = module_okD [OF ok]
  have k: "const_ok M q \<Longrightarrow> const_ok (add_pool c M) q" for q using const_ok_grown [OF add_pool_grown] .
  have p: "const_ok (add_pool c M) q" if "p \<in> set (pool_parts c)" "q \<in> set (operands p)" for p q
    using pool_parts_closed [OF that] c by (auto simp: const_ok_def)
  show ?thesis unfolding module_ok_def using d(1-3,6,8) p k d(4,5,7) by auto
qed

lemma new_global_eq:
  assumes "new_global uniq n v M = (g, M')"
  shows "g = next_gid M" "vars M' = vars M @ [g]" "fns M' = fns M" "var_def M' = (var_def M)(g := v)"
    "fn_def M' = fn_def M" "aliases M' = aliases M" "gname M' = (gname M)(g := free_name uniq M n)"
    "bodies M' = bodies M" "ctors M' = ctors M" "next_gid M' = g + 1" "stub_code M' = stub_code M"
    "set (pool M') = (case gv_init v of Some c \<Rightarrow> set (pool_parts c) | None \<Rightarrow> {}) \<union> set (pool M)"
    "set (live_gids M') = insert g (set (live_gids M))"
  using assms by (auto simp: new_global_def Let_def live_gids_def split: option.splits)

lemma grow_ok:
  assumes ok: "module_ok M" and u: "uniq_ok uniq"
    and live: "set (live_gids M') = insert (next_gid M) (set (live_gids M))" "distinct (live_gids M')"
    and name: "gname M' = (gname M)(next_gid M := free_name uniq M n)" and nx: "next_gid M' = next_gid M + 1"
  shows "inj_on (gname M') (set (live_gids M'))" "\<forall>g\<in>set (live_gids M'). g < next_gid M'"
proof -
  note d = module_okD [OF ok]
  have nf: "next_gid M \<notin> set (live_gids M)" using d(3) by blast
  have e: "gname M' g = gname M g" if "g \<in> set (live_gids M)" for g using that nf by (auto simp: name)
  show "inj_on (gname M') (set (live_gids M'))"
    unfolding live(1) using d(2) e free_name_fresh [OF u] nf
    by (auto simp: inj_on_insert inj_on_def name) (metis e fun_upd_apply name)+
  show "\<forall>g\<in>set (live_gids M'). g < next_gid M'" using d(3) by (auto simp: live(1) nx less_Suc_eq)
qed

lemma new_global_ok:
  assumes ok: "module_ok M" and u: "uniq_ok uniq" and n: "new_global uniq n v M = (g, M')"
    and c: "\<And>c. gv_init v = Some c \<Longrightarrow> \<forall>x\<in>set (const_gids c). x \<in> set (live_gids M)"
  shows "module_ok M'" "grown M M'"
proof -
  note e = new_global_eq [OF n] and d = module_okD [OF ok]
  have nf: "next_gid M \<notin> set (live_gids M)" using d(3) by blast
  then have nv: "g \<notin> set (vars M)" by (simp add: e(1) live_gids_def)
  show gr: "grown M M'"
    unfolding grown_def using nv by (auto simp: e(2-5,7,12,13) split: option.splits)
  have k: "const_ok M q \<Longrightarrow> const_ok M' q" for q by (rule const_ok_grown [OF gr])
  have dist: "distinct (live_gids M')"
    using d(1) nf by (auto simp: live_gids_def e(1-3,6))
  have live: "set (live_gids M') = insert (next_gid M) (set (live_gids M))" using e(1,13) by simp
  have name: "gname M' = (gname M)(next_gid M := free_name uniq M n)" using e(1,7) by simp
  have nx: "next_gid M' = next_gid M + 1" using e(1,10) by simp
  have new: "const_ok M' q" if "gv_init v = Some c" "p \<in> set (pool_parts c)" "q \<in> set (operands p)" for c p q
    using pool_parts_closed [OF that(2,3)] assms(4) [OF that(1)] that(1) by (auto simp: const_ok_def e(12,13))
  have init: "const_ok M' q" if "gv_init v = Some q" for q
    using pool_parts_self [of q] assms(4) [OF that] that by (auto simp: const_ok_def e(12,13))
  have "\<forall>p\<in>set (pool M'). \<forall>c\<in>set (operands p). const_ok M' c"
    using new k d(4) unfolding e(12) by (auto split: option.splits)
  moreover have "\<forall>g\<in>set (vars M'). \<forall>c. gv_init (var_def M' g) = Some c \<longrightarrow> const_ok M' c"
    using init k d(5) nv by (auto simp: e(2,4))
  moreover have "\<forall>g\<in>set (fns M'). \<forall>i\<in>set (bodies M' g). \<forall>c\<in>set (instr_uses i). const_ok M' c"
    using k d(7) unfolding e(3,8) by blast
  moreover have "\<forall>al\<in>snd ` set (aliases M'). al_target al \<in> set (live_gids M')"
    "\<forall>g\<in>snd ` set (ctors M'). g \<in> set (live_gids M')"
    unfolding e(6,9,13) using d(6,8) by blast+
  ultimately show "module_ok M'"
    unfolding module_ok_def using dist grow_ok [OF ok u live dist name nx] by blast
qed

lemma new_function_eq:
  assumes "new_function uniq n F body M = (g, M')"
  shows "g = next_gid M" "vars M' = vars M" "fns M' = fns M @ [g]" "var_def M' = var_def M"
    "fn_def M' = (fn_def M)(g := F)" "aliases M' = aliases M" "gname M' = (gname M)(g := free_name uniq M n)"
    "bodies M' = (bodies M)(g := body)" "ctors M' = ctors M" "next_gid M' = g + 1" "stub_code M' = stub_code M"
    "pool M' = pool M" "set (live_gids M') = insert g (set (live_gids M))"
  using assms by (auto simp: new_function_def Let_def live_gids_def)

lemma new_function_ok:
  assumes ok: "module_ok M" and u: "uniq_ok uniq" and n: "new_function uniq n F body M = (g, M')"
    and b: "\<And>i c. i \<in> set body \<Longrightarrow> c \<in> set (instr_uses i) \<Longrightarrow> const_ok M c"
  shows "module_ok M'" "grown M M'"
proof -
  note e = new_function_eq [OF n] and d = module_okD [OF ok]
  have nf: "next_gid M \<notin> set (live_gids M)" using d(3) by blast
  then have nv: "g \<notin> set (vars M)" "g \<notin> set (fns M)" by (simp_all add: e(1) live_gids_def)
  show gr: "grown M M'"
    unfolding grown_def using nv by (auto simp: e(2-5,7,12,13))
  have k: "const_ok M q \<Longrightarrow> const_ok M' q" for q by (rule const_ok_grown [OF gr])
  have dist: "distinct (live_gids M')"
    using d(1) nf by (auto simp: live_gids_def e(1-3,6))
  have live: "set (live_gids M') = insert (next_gid M) (set (live_gids M))" using e(1,13) by simp
  have name: "gname M' = (gname M)(next_gid M := free_name uniq M n)" using e(1,7) by simp
  have nx: "next_gid M' = next_gid M + 1" using e(1,10) by simp
  have "\<forall>p\<in>set (pool M'). \<forall>c\<in>set (operands p). const_ok M' c"
    using k d(4) unfolding e(12) by blast
  moreover have "\<forall>g\<in>set (vars M'). \<forall>c. gv_init (var_def M' g) = Some c \<longrightarrow> const_ok M' c"
    using k d(5) unfolding e(2,4) by blast
  moreover have "\<forall>g\<in>set (fns M'). \<forall>i\<in>set (bodies M' g). \<forall>c\<in>set (instr_uses i). const_ok M' c"
    using k d(7) b nv(2) by (auto simp: e(3,8))
  moreover have "\<forall>al\<in>snd ` set (aliases M'). al_target al \<in> set (live_gids M')"
    "\<forall>g\<in>snd ` set (ctors M'). g \<in> set (live_gids M')"
    unfolding e(6,9,13) using d(6,8) by blast+
  ultimately show "module_ok M'"
    unfolding module_ok_def using dist grow_ok [OF ok u live dist name nx] by blast
qed

section \<open>Walking the annotation graph\<close>

fun const_parts :: "ir_const \<Rightarrow> ir_const list" where
  "const_parts (Const_Array cs) = Const_Array cs # concat (map const_parts cs)"
| "const_parts (Const_Struct cs) = Const_Struct cs # concat (map const_parts cs)"
| "const_parts (Const_Vector cs) = Const_Vector cs # concat (map const_parts cs)"
| "const_parts (Const_Cast c) = Const_Cast c # const_parts c"
| "const_parts c = [c]"

lemma const_parts_self: "c \<in> set (const_parts c)"
  by (cases c) simp_all

lemma list_const_parts:
  assumes "\<And>x q. x \<in> set cs \<Longrightarrow> p \<in> set (const_parts x) \<Longrightarrow> q \<in> set (operands p) \<Longrightarrow> q \<in> set (const_parts x)"
    and "p = C \<or> p \<in> set (concat (map const_parts cs))" and "operands C = cs" and "q \<in> set (operands p)"
  shows "q \<in> set (concat (map const_parts cs))"
  using assms(2)
proof
  assume "p = C"
  then show ?thesis using assms(3,4) const_parts_self [of q] by auto
next
  assume "p \<in> set (concat (map const_parts cs))"
  then obtain x where "x \<in> set cs" "p \<in> set (const_parts x)" by auto
  then show ?thesis using assms(1) [of x q] assms(4) by auto
qed

lemma const_parts_closed:
  "p \<in> set (const_parts c) \<Longrightarrow> q \<in> set (operands p) \<Longrightarrow> q \<in> set (const_parts c)"
proof (induction c arbitrary: p q rule: const_parts.induct)
  case (1 cs)
  from list_const_parts [where C = "Const_Array cs" and cs = cs, OF "1.IH" _ _ "1.prems"(2)] "1.prems"(1)
  show ?case by simp
next
  case (2 cs)
  from list_const_parts [where C = "Const_Struct cs" and cs = cs, OF "2.IH" _ _ "2.prems"(2)] "2.prems"(1)
  show ?case by simp
next
  case (3 cs)
  from list_const_parts [where C = "Const_Vector cs" and cs = cs, OF "3.IH" _ _ "3.prems"(2)] "3.prems"(1)
  show ?case by simp
next
  case (4 c)
  then show ?case using const_parts_self by auto
qed simp_all

text \<open>Everything a constant can lead to, a finite set.\<close>

definition graph_universe :: "ir_module \<Rightarrow> ir_const \<Rightarrow> ir_const set" where
  "graph_universe M root = set (const_parts root) \<union>
     (\<Union>g\<in>set (vars M). case gv_init (var_def M g) of Some i \<Rightarrow> set (const_parts i) | None \<Rightarrow> {}) \<union>
     (\<lambda>al. Global_Ref (al_target al)) ` snd ` set (aliases M)"

lemma finite_universe: "finite (graph_universe M root)"
  unfolding graph_universe_def by (auto split: option.split)

lemma universe_closed:
  assumes "c \<in> graph_universe M root" and "q \<in> set (const_children M c)"
  shows "q \<in> graph_universe M root"
proof (cases "\<exists>g. c = Global_Ref g")
  case True
  then obtain g where c: "c = Global_Ref g" by blast
  show ?thesis
  proof (cases "g \<in> set (vars M)")
    case True
    then show ?thesis using assms(2) const_parts_self [of q]
      by (auto simp: c const_children_def graph_universe_def split: option.splits intro!: bexI [of _ g])
  next
    case False
    show ?thesis
    proof (cases "map_of (aliases M) g")
      case None
      then show ?thesis using assms(2) False by (simp add: c const_children_def)
    next
      case (Some al)
      then have "q = Global_Ref (al_target al)" using assms(2) False by (simp add: c const_children_def)
      then show ?thesis using map_of_SomeD [OF Some] unfolding graph_universe_def by force
    qed
  qed
next
  case False
  then have q: "q \<in> set (operands c)" using assms(2) by (auto simp: const_children_def split: ir_const.splits)
  show ?thesis
    using assms(1) const_parts_closed [OF _ q] False unfolding graph_universe_def
    by (auto split: option.splits)
qed

lemma fold_push_new:
  "distinct wl \<Longrightarrow> distinct (fold push_new cs wl) \<and> set (fold push_new cs wl) = set wl \<union> set cs \<and>
     (\<exists>ys. fold push_new cs wl = wl @ ys)"
proof (induction cs arbitrary: wl)
  case (Cons c cs)
  have "distinct (push_new c wl) \<and> set (push_new c wl) = insert c (set wl) \<and> (\<exists>ys. push_new c wl = wl @ ys)"
    using Cons.prems by (auto simp: push_new_def)
  with Cons.IH [of "push_new c wl"] show ?case by auto
qed simp

text \<open>The walk ends, and it lists what the root leads to and nothing else.\<close>

lemma walk_spec:
  assumes U: "finite U" "\<And>c q. c \<in> U \<Longrightarrow> q \<in> set (const_children M c) \<Longrightarrow> q \<in> U"
    and "distinct wl" and "set wl \<subseteq> U" and "i \<le> length wl"
    and "\<And>j. j < i \<Longrightarrow> set (const_children M (wl ! j)) \<subseteq> set wl"
  shows "\<exists>wl'. walk_graph M i wl = Some wl' \<and> distinct wl' \<and> set wl \<subseteq> set wl' \<and> set wl' \<subseteq> U \<and>
    (\<forall>c\<in>set wl'. set (const_children M c) \<subseteq> set wl')"
  using assms(3-6)
proof (induction "card U - i" arbitrary: i wl rule: less_induct)
  case less
  show ?case
  proof (cases "i < length wl")
    case False
    then have "walk_graph M i wl = Some wl" by (subst walk_graph.simps) simp
    moreover have "set (const_children M c) \<subseteq> set wl" if "c \<in> set wl" for c
      using that less.prems(3,4) False by (auto simp: in_set_conv_nth)
    ultimately show ?thesis using less.prems by blast
  next
    case True
    let ?wl = "fold push_new (const_children M (wl ! i)) wl"
    obtain ys where f: "distinct ?wl" "set ?wl = set wl \<union> set (const_children M (wl ! i))" "?wl = wl @ ys"
      using fold_push_new [OF less.prems(1)] by blast
    have here: "wl ! i \<in> U" using nth_mem [OF True] less.prems(2) by blast
    have sub: "set ?wl \<subseteq> U" using f(2) U(2) [OF here] less.prems(2) by blast
    have "length wl \<le> card U"
      using less.prems(1,2) U(1) by (metis card_mono distinct_card)
    then have dec: "card U - Suc i < card U - i" using True by linarith
    have cl: "set (const_children M (?wl ! j)) \<subseteq> set ?wl" if "j < Suc i" for j
    proof (cases "j = i")
      case True
      then show ?thesis using f(2,3) \<open>i < length wl\<close> by (simp add: nth_append)
    next
      case False
      then have j: "j < i" using that by simp
      then have "?wl ! j = wl ! j" using f(3) True by (simp add: nth_append)
      then show ?thesis using less.prems(4) [OF j] f(2) by auto
    qed
    have len: "Suc i \<le> length ?wl" using True f(3) by simp
    obtain wl' where wl': "walk_graph M (Suc i) ?wl = Some wl'" "distinct wl'" "set ?wl \<subseteq> set wl'" "set wl' \<subseteq> U"
      "\<forall>c\<in>set wl'. set (const_children M c) \<subseteq> set wl'"
      using less.hyps [OF dec f(1) sub len cl] by blast
    have "walk_graph M i wl = Some wl'" using wl'(1) True by (subst walk_graph.simps) simp
    then show ?thesis using wl' f(2) by blast
  qed
qed

section \<open>Taking constants and globals away\<close>

lemma use_emptyD:
  assumes "use_empty M c"
  shows "\<And>p. p \<in> set (pool M) \<Longrightarrow> c \<notin> set (operands p)"
    and "\<And>g. g \<in> set (vars M) \<Longrightarrow> gv_init (var_def M g) \<noteq> Some c"
    and "\<And>al. al \<in> snd ` set (aliases M) \<Longrightarrow> c \<noteq> Global_Ref (al_target al)"
    and "\<And>g i. g \<in> set (fns M) \<Longrightarrow> i \<in> set (bodies M g) \<Longrightarrow> c \<notin> set (instr_uses i)"
    and "\<And>g. g \<in> snd ` set (ctors M) \<Longrightarrow> c \<noteq> Global_Ref g"
  using assms by (auto simp: use_empty_def list_all_iff)

lemma removed_ok:
  assumes ok: "module_ok M" and e: "use_empty M c"
    and M': "fns M' = fns M" "aliases M' = aliases M" "bodies M' = bodies M" "ctors M' = ctors M" "gname M' = gname M"
      "var_def M' = var_def M" "next_gid M' = next_gid M" "set (pool M') \<subseteq> set (pool M)" "set (vars M') \<subseteq> set (vars M)"
      "distinct (vars M')"
    and k: "\<And>q. const_ok M q \<Longrightarrow> q \<noteq> c \<Longrightarrow> const_ok M' q"
    and t: "\<And>g. g \<in> set (live_gids M) \<Longrightarrow> Global_Ref g \<noteq> c \<Longrightarrow> g \<in> set (live_gids M')"
  shows "module_ok M'"
proof -
  note d = module_okD [OF ok] and u = use_emptyD [OF e]
  have sub: "set (live_gids M') \<subseteq> set (live_gids M)" using M' by (auto simp: live_gids_def)
  have "distinct (live_gids M')" using d(1) M' by (auto simp: live_gids_def)
  moreover have "inj_on (gname M') (set (live_gids M'))" using d(2) sub unfolding M'(5) by (rule inj_on_subset)
  moreover have "\<forall>g\<in>set (live_gids M'). g < next_gid M'" using d(3) sub unfolding M'(7) by blast
  moreover have "\<forall>p\<in>set (pool M'). \<forall>q\<in>set (operands p). const_ok M' q"
  proof (intro ballI)
    fix p q assume a: "p \<in> set (pool M')" "q \<in> set (operands p)"
    then have p: "p \<in> set (pool M)" using M'(8) by blast
    have "q \<noteq> c" using u(1) [OF p] a(2) by auto
    then show "const_ok M' q" using k d(4) [OF p a(2)] by blast
  qed
  moreover have "\<forall>g\<in>set (vars M'). \<forall>q. gv_init (var_def M' g) = Some q \<longrightarrow> const_ok M' q"
  proof (intro ballI allI impI)
    fix g q assume a: "g \<in> set (vars M')" "gv_init (var_def M' g) = Some q"
    then have g: "g \<in> set (vars M)" using M'(9) by blast
    have i: "gv_init (var_def M g) = Some q" using a(2) M'(6) by simp
    then have "q \<noteq> c" using u(2) [OF g] by auto
    then show "const_ok M' q" using k d(5) [OF g i] by blast
  qed
  moreover have "\<forall>al\<in>snd ` set (aliases M'). al_target al \<in> set (live_gids M')"
  proof
    fix al assume "al \<in> snd ` set (aliases M')"
    then have a: "al \<in> snd ` set (aliases M)" using M'(2) by simp
    show "al_target al \<in> set (live_gids M')" using t [OF d(6) [OF a]] u(3) [OF a] by auto
  qed
  moreover have "\<forall>g\<in>set (fns M'). \<forall>i\<in>set (bodies M' g). \<forall>q\<in>set (instr_uses i). const_ok M' q"
  proof (intro ballI)
    fix g i q assume "g \<in> set (fns M')" "i \<in> set (bodies M' g)" "q \<in> set (instr_uses i)"
    then have a: "g \<in> set (fns M)" "i \<in> set (bodies M g)" "q \<in> set (instr_uses i)" using M'(1,3) by simp_all
    have "q \<noteq> c" using u(4) [OF a(1,2)] a(3) by auto
    then show "const_ok M' q" using k d(7) [OF a] by blast
  qed
  moreover have "\<forall>g\<in>snd ` set (ctors M'). g \<in> set (live_gids M')"
  proof
    fix g assume "g \<in> snd ` set (ctors M')"
    then have a: "g \<in> snd ` set (ctors M)" using M'(4) by simp
    show "g \<in> set (live_gids M')" using t [OF d(8) [OF a]] u(5) [OF a] by auto
  qed
  ultimately show ?thesis unfolding module_ok_def by blast
qed

lemma erase_global_ok:
  assumes ok: "module_ok M" and e: "use_empty M (Global_Ref g)"
  shows "module_ok (erase_global g M)"
proof (rule removed_ok [OF ok e])
  have d: "distinct (vars M)" using module_okD(1) [OF ok] by (simp add: live_gids_def)
  then show "distinct (vars (erase_global g M))" by (simp add: erase_global_def distinct_removeAll)
  show "\<And>q. const_ok M q \<Longrightarrow> q \<noteq> Global_Ref g \<Longrightarrow> const_ok (erase_global g M) q"
    by (auto simp: const_ok_def erase_global_def live_gids_def)
  show "\<And>x. x \<in> set (live_gids M) \<Longrightarrow> Global_Ref x \<noteq> Global_Ref g \<Longrightarrow> x \<in> set (live_gids (erase_global g M))"
    by (auto simp: erase_global_def live_gids_def)
qed (auto simp: erase_global_def)

lemma destroy_cases:
  obtains (same) "destroy c M = M"
  | (var) g where "c = Global_Ref g" "g \<in> set (vars M)" "use_empty M c" "destroy c M = erase_global g M"
  | (pool) "is_pool_constant c" "use_empty M c" "destroy c M = M\<lparr>pool := removeAll c (pool M)\<rparr>"
proof (cases "use_empty M c")
  case False
  then have "destroy c M = M" by (cases c) (simp_all add: destroy_def)
  then show thesis by (rule same)
next
  case True
  note empty = True
  show thesis
  proof (cases "\<exists>g. c = Global_Ref g")
    case True
    then obtain g where c: "c = Global_Ref g" by blast
    show thesis
    proof (cases "g \<in> set (vars M)")
      case True
      then have "destroy c M = erase_global g M" using empty by (simp add: destroy_def c)
      then show thesis using var [OF c True empty] by blast
    next
      case False
      then have "destroy c M = M" by (simp add: destroy_def c)
      then show thesis by (rule same)
    qed
  next
    case False
    show thesis
    proof (cases "is_pool_constant c")
      case True
      then have "destroy c M = M\<lparr>pool := removeAll c (pool M)\<rparr>" using empty by (cases c) (simp_all add: destroy_def)
      then show thesis using pool True empty by blast
    next
      case no: False
      then have "destroy c M = M" using False by (cases c) (simp_all add: destroy_def)
      then show thesis by (rule same)
    qed
  qed
qed

lemma destroy_ok:
  assumes ok: "module_ok M"
  shows "module_ok (destroy c M)"
proof (cases rule: destroy_cases [of c M])
  case same
  then show ?thesis using ok by simp
next
  case (var g)
  then show ?thesis using erase_global_ok [OF ok] by simp
next
  case pool
  have "module_ok (M\<lparr>pool := removeAll c (pool M)\<rparr>)"
  proof (rule removed_ok [OF ok pool(2)])
    show "distinct (vars (M\<lparr>pool := removeAll c (pool M)\<rparr>))" using module_okD(1) [OF ok] by (simp add: live_gids_def)
    show "\<And>q. const_ok M q \<Longrightarrow> q \<noteq> c \<Longrightarrow> const_ok (M\<lparr>pool := removeAll c (pool M)\<rparr>) q"
      by (auto simp: const_ok_def live_gids_def)
  qed (auto simp: live_gids_def)
  then show ?thesis by (simp add: pool(3))
qed

text \<open>What a round of destruction leaves of a module.\<close>

definition shrunk :: "ir_const set \<Rightarrow> ir_module \<Rightarrow> ir_module \<Rightarrow> bool" where
  "shrunk W M M' \<longleftrightarrow> fns M' = fns M \<and> fn_def M' = fn_def M \<and> aliases M' = aliases M \<and> bodies M' = bodies M \<and>
     ctors M' = ctors M \<and> gname M' = gname M \<and> var_def M' = var_def M \<and> stub_code M' = stub_code M \<and>
     next_gid M' = next_gid M \<and> set (vars M') \<subseteq> set (vars M) \<and> set (pool M') \<subseteq> set (pool M) \<and>
     (\<forall>g\<in>set (vars M). g \<notin> set (vars M') \<longrightarrow> Global_Ref g \<in> W) \<and>
     (\<forall>c\<in>set (pool M). c \<notin> set (pool M') \<longrightarrow> c \<in> W)"

lemma shrunk_trans: "shrunk W M1 M2 \<Longrightarrow> shrunk W M2 M3 \<Longrightarrow> shrunk W M1 M3"
  unfolding shrunk_def by (intro conjI) (elim conjE, auto)+

lemma destroy_shrunk: "c \<in> W \<Longrightarrow> shrunk W M (destroy c M)"
  by (cases rule: destroy_cases [of c M]) (auto simp: shrunk_def erase_global_def)

lemma destroy_all:
  "module_ok M \<Longrightarrow> set wl \<subseteq> W \<Longrightarrow> module_ok (fold destroy wl M) \<and> shrunk W M (fold destroy wl M)"
proof (induction wl arbitrary: M)
  case Nil
  then show ?case by (simp add: shrunk_def)
next
  case (Cons c wl)
  have "module_ok (destroy c M)" "shrunk W M (destroy c M)"
    using destroy_ok [OF Cons.prems(1)] destroy_shrunk Cons.prems(2) by auto
  with Cons.IH [of "destroy c M"] Cons.prems(2) show ?case using shrunk_trans by auto
qed

section \<open>The teardown\<close>

inductive leads_to :: "ir_module \<Rightarrow> ir_const \<Rightarrow> ir_const \<Rightarrow> bool" for M root where
  leads_root: "leads_to M root root"
| leads_child: "leads_to M root c \<Longrightarrow> q \<in> set (const_children M c) \<Longrightarrow> leads_to M root q"

lemma const_ok_children:
  assumes ok: "module_ok M" and c: "const_ok M c" and q: "q \<in> set (const_children M c)"
  shows "const_ok M q"
proof (cases "\<exists>g. c = Global_Ref g")
  case True
  then obtain g where g: "c = Global_Ref g" by blast
  show ?thesis
  proof (cases "g \<in> set (vars M)")
    case True
    then have "gv_init (var_def M g) = Some q" using q by (simp add: g const_children_def split: option.splits)
    then show ?thesis using module_okD(5) [OF ok True] by blast
  next
    case False
    then obtain al where al: "map_of (aliases M) g = Some al"
      using q by (cases "map_of (aliases M) g") (simp_all add: g const_children_def)
    then have "q = Global_Ref (al_target al)" using q False by (simp add: g const_children_def)
    moreover have "al \<in> snd ` set (aliases M)" using map_of_SomeD [OF al] by force
    ultimately show ?thesis using module_okD(6) [OF ok] by (simp add: const_ok_def)
  qed
next
  case False
  then have o: "q \<in> set (operands c)" using q by (auto simp: const_children_def split: ir_const.splits)
  then have "is_pool_constant c" by (cases c) simp_all
  then show ?thesis using c module_okD(4) [OF ok _ o] by (simp add: const_ok_def)
qed

lemma unused_child:
  assumes e: "use_empty M c" and k: "const_ok M p" and q: "q \<in> set (const_children M p)"
  shows "q \<noteq> c"
proof (cases "\<exists>g. p = Global_Ref g")
  case True
  then obtain g where g: "p = Global_Ref g" by blast
  show ?thesis
  proof (cases "g \<in> set (vars M)")
    case True
    then have "gv_init (var_def M g) = Some q" using q by (simp add: g const_children_def split: option.splits)
    then show ?thesis using use_emptyD(2) [OF e True] by blast
  next
    case False
    then obtain al where al: "map_of (aliases M) g = Some al"
      using q by (cases "map_of (aliases M) g") (simp_all add: g const_children_def)
    then have "q = Global_Ref (al_target al)" using q False by (simp add: g const_children_def)
    moreover have "al \<in> snd ` set (aliases M)" using map_of_SomeD [OF al] by force
    ultimately show ?thesis using use_emptyD(3) [OF e] by blast
  qed
next
  case False
  then have o: "q \<in> set (operands p)" using q by (auto simp: const_children_def split: ir_const.splits)
  then have "is_pool_constant p" by (cases p) simp_all
  then show ?thesis using k use_emptyD(1) [OF e] o by (auto simp: const_ok_def)
qed

lemma stripped_ok:
  assumes ok: "module_ok M" and c: "const_ok M c"
  shows "const_ok M (strip_casts c)"
  using c
proof (induction c rule: strip_casts.induct)
  case (1 c)
  have p: "Const_Cast c \<in> set (pool M)" using "1.prems" by (simp add: const_ok_def)
  have "c \<in> set (operands (Const_Cast c))" by simp
  then have "const_ok M c" by (rule module_okD(4) [OF ok p])
  then have "const_ok M (strip_casts c)" by (rule "1.IH")
  then show ?case by (simp only: strip_casts.simps)
qed (simp_all only: strip_casts.simps)

lemma annotations_rootD:
  assumes "annotations_root M = Some (g, root)"
  shows "g \<in> set (vars M)" "gv_init (var_def M g) = Some root" "gname M g = ''llvm.global.annotations''"
proof -
  obtain h where h: "find_named ''llvm.global.annotations'' M = Some h"
    using assms by (cases "find_named ''llvm.global.annotations'' M") (simp_all add: annotations_root_def)
  obtain i where i: "gv_init (var_def M h) = Some i" "h \<in> set (vars M)" "g = h" "i = root"
    using assms by (cases "gv_init (var_def M h)") (auto simp: annotations_root_def h split: if_splits)
  have "gname M h = ''llvm.global.annotations''"
    using h unfolding find_named_def by (auto simp: find_Some_iff)
  then show "g \<in> set (vars M)" "gv_init (var_def M g) = Some root" "gname M g = ''llvm.global.annotations''"
    using i by simp_all
qed

lemma erase_unused:
  assumes ok: "module_ok M" and r: "annotations_root M = Some (g, root)" and e: "use_empty M (Global_Ref g)"
  shows "module_ok (erase_global g M)" "g \<in> set (vars M)" "gv_init (var_def M g) = Some root"
    "gname M g = ''llvm.global.annotations''" "const_ok M root" "root \<noteq> Global_Ref g"
    "\<And>c. const_ok M c \<Longrightarrow> c \<noteq> Global_Ref g \<Longrightarrow> const_ok (erase_global g M) c"
proof -
  show "module_ok (erase_global g M)" by (rule erase_global_ok [OF ok e])
  note g = annotations_rootD [OF r]
  show "g \<in> set (vars M)" "gv_init (var_def M g) = Some root"
    "gname M g = ''llvm.global.annotations''" by (fact g)+
  show "const_ok M root" using module_okD(5) [OF ok g(1,2)] .
  show "root \<noteq> Global_Ref g" using use_emptyD(2) [OF e g(1)] g(2) by blast
  show "\<And>c. const_ok M c \<Longrightarrow> c \<noteq> Global_Ref g \<Longrightarrow> const_ok (erase_global g M) c"
    by (auto simp: const_ok_def erase_global_def live_gids_def)
qed

lemma find_named_unique:
  assumes ok: "module_ok M" and g: "g \<in> set (live_gids M)"
  shows "find_named (gname M g) M = Some g"
proof -
  obtain h where h: "find_named (gname M g) M = Some h"
    using g unfolding find_named_def by (cases "List.find (\<lambda>h. gname M h = gname M g) (live_gids M)")
      (auto simp: find_None_iff)
  then have "h \<in> set (live_gids M)" "gname M h = gname M g"
    unfolding find_named_def by (auto simp: find_Some_iff)
  then have "h = g" using module_okD(2) [OF ok] g by (auto dest: inj_onD)
  then show ?thesis using h by simp
qed

lemma find_named_None: "find_named n M = None \<longleftrightarrow> n \<notin> gname M ` set (live_gids M)"
  unfolding find_named_def find_None_iff by auto

lemma free_name_free: "n \<notin> gname M ` set (live_gids M) \<Longrightarrow> free_name uniq M n = n"
  by (simp add: free_name_def)

lemma annotations_root_named:
  assumes "module_ok M" and "g \<in> set (vars M)" and "gname M g = ''llvm.global.annotations''"
    and "gv_init (var_def M g) = Some root"
  shows "annotations_root M = Some (g, root)"
proof -
  have "find_named ''llvm.global.annotations'' M = Some g"
    using find_named_unique [OF assms(1), of g] assms(2,3) by (simp add: live_gids_def)
  then show ?thesis using assms(2,4) by (simp add: annotations_root_def)
qed

lemma annotations_root_none:
  "''llvm.global.annotations'' \<notin> gname M ` set (live_gids M) \<Longrightarrow> annotations_root M = None"
  unfolding annotations_root_def by (drule find_named_None [THEN iffD2]) (simp only: option.case)

lemma const_gids_live:
  assumes ok: "module_ok M" and c: "const_ok M c" and g: "g \<in> set (const_gids c)"
  shows "g \<in> set (live_gids M)"
  using c g
proof (induction c rule: const_gids.induct)
  case (1 cs)
  then obtain x where x: "x \<in> set cs" "g \<in> set (const_gids x)" by auto
  have p: "Const_Array cs \<in> set (pool M)" using "1.prems"(1) by (simp add: const_ok_def)
  have "const_ok M x" using module_okD(4) [OF ok p] x(1) by simp
  then show ?case using "1.IH" x by blast
next
  case (2 cs)
  then obtain x where x: "x \<in> set cs" "g \<in> set (const_gids x)" by auto
  have p: "Const_Struct cs \<in> set (pool M)" using "2.prems"(1) by (simp add: const_ok_def)
  have "const_ok M x" using module_okD(4) [OF ok p] x(1) by simp
  then show ?case using "2.IH" x by blast
next
  case (3 cs)
  then obtain x where x: "x \<in> set cs" "g \<in> set (const_gids x)" by auto
  have p: "Const_Vector cs \<in> set (pool M)" using "3.prems"(1) by (simp add: const_ok_def)
  have "const_ok M x" using module_okD(4) [OF ok p] x(1) by simp
  then show ?case using "3.IH" x by blast
next
  case (4 c)
  have p: "Const_Cast c \<in> set (pool M)" using "4.prems"(1) by (simp add: const_ok_def)
  have "const_ok M c" using module_okD(4) [OF ok p] by simp
  then show ?case using "4.IH" "4.prems"(2) by simp
qed (simp_all add: const_ok_def)

lemma foreign_ok:
  assumes ok: "module_ok M" and r: "const_ok M root" and e: "e \<in> set (foreign_entries M root)"
  shows "const_ok M e" "\<not> is_filc_async_entry M e" "e \<in> set (operands (strip_casts root))"
proof -
  have s: "e \<in> set (operands (strip_casts root)) \<and> \<not> is_filc_async_entry M e"
    using e by (cases "strip_casts root") (simp_all add: foreign_entries_def)
  have "is_pool_constant (strip_casts root)" using s by (cases "strip_casts root") auto
  then have "strip_casts root \<in> set (pool M)" using stripped_ok [OF ok r] by (simp add: const_ok_def)
  then show "const_ok M e" "\<not> is_filc_async_entry M e" "e \<in> set (operands (strip_casts root))"
    using module_okD(4) [OF ok] s by blast+
qed

definition child_of :: "ir_module \<Rightarrow> gid \<Rightarrow> ir_module \<Rightarrow> bool" where
  "child_of M g M1 \<longleftrightarrow> (\<forall>c. const_ok M c \<longrightarrow> c \<noteq> Global_Ref g \<longrightarrow>
     const_ok M1 c \<and> const_children M1 c = const_children M c)"

lemma erase_children:
  assumes "c \<noteq> Global_Ref g"
  shows "const_children (erase_global g M) c = const_children M c"
  using assms by (cases c) (auto simp: const_children_def erase_global_def)

lemma keep_foreign_none:
  assumes ok: "module_ok M" and r: "annotations_root M = Some (g, root)" and e: "use_empty M (Global_Ref g)"
    and f: "foreign_entries M root = []" and M1: "M1 = keep_foreign uniq M g (foreign_entries M root)"
  shows "M1 = erase_global g M" "module_ok M1" "child_of M g M1"
proof -
  show m: "M1 = erase_global g M" using M1 f by (simp add: keep_foreign_def Let_def)
  show "module_ok M1" unfolding m by (rule erase_unused(1) [OF ok r e])
  show "child_of M g M1" unfolding m child_of_def using erase_children erase_unused(7) [OF ok r e] by blast
qed

lemma keep_foreign_some:
  assumes ok: "module_ok M" and u: "uniq_ok uniq" and r: "annotations_root M = Some (g, root)"
    and e: "use_empty M (Global_Ref g)"
    and f: "foreign_entries M root \<noteq> []" and M1: "M1 = keep_foreign uniq M g (foreign_entries M root)"
  shows "module_ok M1" "child_of M g M1" "vars M1 = removeAll g (vars M) @ [next_gid M]"
    "fns M1 = fns M" "fn_def M1 = fn_def M" "aliases M1 = aliases M" "bodies M1 = bodies M" "ctors M1 = ctors M"
    "stub_code M1 = stub_code M"
    "gname M1 = (gname M)(next_gid M := ''llvm.global.annotations'')"
    "\<And>x. x \<noteq> next_gid M \<Longrightarrow> var_def M1 x = var_def M x"
    "gv_init (var_def M1 (next_gid M)) = Some (Const_Array (foreign_entries M root))"
    "gv_linkage (var_def M1 (next_gid M)) = gv_linkage (var_def M g)"
    "gv_section (var_def M1 (next_gid M)) = gv_section (var_def M g)"
proof -
  let ?M = "erase_global g M"
  let ?v = "\<lparr>gv_init = Some (Const_Array (foreign_entries M root)), gv_constant = False,
    gv_linkage = gv_linkage (var_def M g), gv_section = gv_section (var_def M g)\<rparr>"
  note x = erase_unused [OF ok r e]
  obtain k where n: "new_global uniq ''llvm.global.annotations'' ?v ?M = (k, M1)"
    using M1 f by (cases "new_global uniq ''llvm.global.annotations'' ?v ?M") (simp add: keep_foreign_def Let_def)
  have ne: "e \<noteq> Global_Ref g" if "e \<in> set (foreign_entries M root)" for e
  proof -
    have o: "e \<in> set (operands (strip_casts root))" by (rule foreign_ok(3) [OF ok x(5) that])
    have "is_pool_constant (strip_casts root)" using o by (cases "strip_casts root") auto
    then have "strip_casts root \<in> set (pool M)" using stripped_ok [OF ok x(5)] by (simp add: const_ok_def)
    then show ?thesis using use_emptyD(1) [OF e] o by blast
  qed
  have c: "\<forall>y\<in>set (const_gids i). y \<in> set (live_gids ?M)" if "gv_init ?v = Some i" for i
  proof
    fix y assume y: "y \<in> set (const_gids i)"
    have "i = Const_Array (foreign_entries M root)" using that by simp
    then obtain e where m: "e \<in> set (foreign_entries M root)" "y \<in> set (const_gids e)" using y by auto
    show "y \<in> set (live_gids ?M)"
      by (rule const_gids_live [OF x(1) x(7) [OF foreign_ok(1) [OF ok x(5) m(1)] ne [OF m(1)]] m(2)])
  qed
  note q = new_global_eq [OF n]
  have nx: "next_gid ?M = next_gid M" by (simp add: erase_global_def)
  have fresh: "''llvm.global.annotations'' \<notin> gname ?M ` set (live_gids ?M)"
  proof
    assume "''llvm.global.annotations'' \<in> gname ?M ` set (live_gids ?M)"
    then obtain h where h: "h \<in> set (live_gids ?M)" "gname M h = ''llvm.global.annotations''"
      by (auto simp: erase_global_def)
    have hl: "h \<in> set (live_gids M)" "h \<noteq> g"
      using h(1) module_okD(1) [OF ok] x(2) by (auto simp: erase_global_def live_gids_def)
    have "g \<in> set (live_gids M)" using x(2) by (simp add: live_gids_def)
    then have "h = g" using module_okD(2) [OF ok] hl(1) h(2) x(4) by (metis inj_onD)
    then show False using hl(2) by simp
  qed
  show "module_ok M1" by (rule new_global_ok(1) [OF x(1) u n c])
  have gr: "grown ?M M1" by (rule new_global_ok(2) [OF x(1) u n c])
  show "vars M1 = removeAll g (vars M) @ [next_gid M]" "fns M1 = fns M" "fn_def M1 = fn_def M"
    "aliases M1 = aliases M" "bodies M1 = bodies M" "ctors M1 = ctors M" "stub_code M1 = stub_code M"
    using q nx by (simp_all add: erase_global_def)
  show "gname M1 = (gname M)(next_gid M := ''llvm.global.annotations'')"
    using q(1,7) nx free_name_free [OF fresh, of uniq] by (simp add: erase_global_def)
  show "\<And>x. x \<noteq> next_gid M \<Longrightarrow> var_def M1 x = var_def M x"
    using q(1,4) nx by (simp add: erase_global_def)
  show "gv_init (var_def M1 (next_gid M)) = Some (Const_Array (foreign_entries M root))"
    "gv_linkage (var_def M1 (next_gid M)) = gv_linkage (var_def M g)"
    "gv_section (var_def M1 (next_gid M)) = gv_section (var_def M g)"
    using q(1,4) nx by (simp_all add: erase_global_def)
  show "child_of M g M1"
    unfolding child_of_def
  proof (intro allI impI conjI)
    fix c assume k: "const_ok M c" and n': "c \<noteq> Global_Ref g"
    show "const_ok M1 c" by (rule const_ok_grown [OF gr x(7) [OF k n']])
    have "const_children M1 c = const_children ?M c"
    proof (cases c)
      case (Global_Ref y)
      then have "y \<in> set (live_gids M)" using k by (simp add: const_ok_def)
      then have "y \<noteq> next_gid M" using module_okD(3) [OF ok] by blast
      then show ?thesis using q(1,2,4,6) nx by (simp add: Global_Ref const_children_def)
    qed (simp_all add: const_children_def)
    then show "const_children M1 c = const_children M c" using erase_children [OF n'] by simp
  qed
qed

text \<open>The walk from the initialiser, in the module that keeps the foreign entries.\<close>

lemma teardown_walk:
  assumes ok: "module_ok M" and r: "annotations_root M = Some (g, root)" and e: "use_empty M (Global_Ref g)"
    and c: "child_of M g M1"
  shows "\<exists>wl. walk_graph M1 0 [root] = Some wl \<and> distinct wl \<and>
    (\<forall>x\<in>set wl. const_ok M x \<and> x \<noteq> Global_Ref g \<and> leads_to M root x)"
proof -
  let ?U = "{x \<in> graph_universe M root. const_ok M x \<and> x \<noteq> Global_Ref g \<and> leads_to M root x}"
  note x = erase_unused [OF ok r e]
  have fin: "finite ?U" using finite_universe by simp
  have cl: "q \<in> ?U" if "p \<in> ?U" "q \<in> set (const_children M1 p)" for p q
  proof -
    have p: "p \<in> graph_universe M root" "const_ok M p" "p \<noteq> Global_Ref g" "leads_to M root p" using that(1) by blast+
    have q: "q \<in> set (const_children M p)" using that(2) c p unfolding child_of_def by metis
    have "q \<in> graph_universe M root" by (rule universe_closed [OF p(1) q])
    moreover have "const_ok M q" by (rule const_ok_children [OF ok p(2) q])
    moreover have "q \<noteq> Global_Ref g" by (rule unused_child [OF e p(2) q])
    moreover have "leads_to M root q" by (rule leads_child [OF p(4) q])
    ultimately show ?thesis by blast
  qed
  have root: "root \<in> ?U" using x(5,6) const_parts_self by (simp add: graph_universe_def leads_root)
  have "\<exists>wl. walk_graph M1 0 [root] = Some wl \<and> distinct wl \<and> set [root] \<subseteq> set wl \<and> set wl \<subseteq> ?U \<and>
    (\<forall>c\<in>set wl. set (const_children M1 c) \<subseteq> set wl)"
    by (rule walk_spec [OF fin cl]) (use root in simp_all)
  then show ?thesis by blast
qed

text \<open>The module before and after: what the teardown may do.\<close>

definition torn :: "ir_module \<Rightarrow> gid \<Rightarrow> ir_module \<Rightarrow> bool" where
  "torn M g M' \<longleftrightarrow> fns M' = fns M \<and> fn_def M' = fn_def M \<and> aliases M' = aliases M \<and> bodies M' = bodies M \<and>
     ctors M' = ctors M \<and> stub_code M' = stub_code M \<and>
     set (vars M') \<subseteq> set (vars M) - {g} \<union> {next_gid M} \<and>
     (\<forall>x. x \<noteq> next_gid M \<longrightarrow> var_def M' x = var_def M x \<and> gname M' x = gname M x)"

lemma tornD:
  assumes "torn M g M'"
  shows "fns M' = fns M" "aliases M' = aliases M" "set (vars M') \<subseteq> set (vars M) - {g} \<union> {next_gid M}"
    "\<And>x. x \<noteq> next_gid M \<Longrightarrow> var_def M' x = var_def M x" "\<And>x. x \<noteq> next_gid M \<Longrightarrow> gname M' x = gname M x"
  using assms unfolding torn_def by blast+

lemma torn_var_init:
  assumes ok: "module_ok M" "module_ok M'" and t: "torn M g M'" and c: "const_ok M c" "const_ok M' c"
  shows "var_init M' c = var_init M c"
proof (cases "\<exists>x. strip_casts c = Global_Ref x")
  case True
  then obtain x where x: "strip_casts c = Global_Ref x" by blast
  have l: "x \<in> set (live_gids M)" "x \<in> set (live_gids M')"
    using stripped_ok [OF ok(1) c(1)] stripped_ok [OF ok(2) c(2)] by (simp_all add: x const_ok_def)
  have nk: "x \<noteq> next_gid M" using module_okD(3) [OF ok(1) l(1)] by simp
  have "x \<in> set (vars M') \<longleftrightarrow> x \<in> set (vars M)"
    using l tornD(1-3) [OF t] nk module_okD(1) [OF ok(1)] by (auto simp: live_gids_def)
  then show ?thesis using tornD(4) [OF t nk] by (simp add: var_init_def x)
next
  case False
  then show ?thesis by (cases "strip_casts c") (simp_all add: var_init_def)
qed

lemma shrunk_torn:
  assumes s: "shrunk W M1 M'" and M1: "torn M g M1"
  shows "torn M g M'"
proof -
  from s have a: "fns M' = fns M1" "fn_def M' = fn_def M1" "aliases M' = aliases M1" "bodies M' = bodies M1"
    "ctors M' = ctors M1" "gname M' = gname M1" "var_def M' = var_def M1" "stub_code M' = stub_code M1"
    "set (vars M') \<subseteq> set (vars M1)" unfolding shrunk_def by blast+
  show ?thesis using M1 a(9) unfolding torn_def a(1-8) by blast
qed

lemma keep_foreign_torn:
  assumes ok: "module_ok M" and u: "uniq_ok uniq" and r: "annotations_root M = Some (g, root)"
    and e: "use_empty M (Global_Ref g)" and M1: "M1 = keep_foreign uniq M g (foreign_entries M root)"
  shows "module_ok M1" "child_of M g M1" "torn M g M1" "set (vars M) - {g} \<subseteq> set (vars M1)"
proof -
  have "module_ok M1 \<and> child_of M g M1 \<and> torn M g M1 \<and> set (vars M) - {g} \<subseteq> set (vars M1)"
  proof (cases "foreign_entries M root = []")
    case True
    note k = keep_foreign_none [OF ok r e True M1]
    have "torn M g M1" unfolding torn_def k(1) by (auto simp: erase_global_def)
    then show ?thesis using k(2,3) by (auto simp: k(1) erase_global_def)
  next
    case False
    note k = keep_foreign_some [OF ok u r e False M1]
    have "torn M g M1" unfolding torn_def k(4-9) using k(3,10,11) by auto
    then show ?thesis using k(1,2) by (auto simp: k(3))
  qed
  then show "module_ok M1" "child_of M g M1" "torn M g M1" "set (vars M) - {g} \<subseteq> set (vars M1)" by blast+
qed

definition torn_down :: "ir_module \<Rightarrow> gid \<Rightarrow> ir_const \<Rightarrow> ir_module \<Rightarrow> bool" where
  "torn_down M g root M' \<longleftrightarrow> module_ok M' \<and> torn M g M' \<and>
     (\<forall>x\<in>set (vars M). x \<noteq> g \<longrightarrow> x \<notin> set (vars M') \<longrightarrow> leads_to M root (Global_Ref x))"

lemma teardown_run:
  assumes ok: "module_ok M" and u: "uniq_ok uniq" and r: "annotations_root M = Some (g, root)"
    and e: "use_empty M (Global_Ref g)"
  shows "\<exists>M'. erase_annotations uniq M = Some M' \<and> torn_down M g root M' \<and>
    (foreign_entries M root \<noteq> [] \<longrightarrow> next_gid M \<in> set (vars M') \<and>
       gname M' (next_gid M) = ''llvm.global.annotations'' \<and>
       gv_init (var_def M' (next_gid M)) = Some (Const_Array (foreign_entries M root)) \<and>
       gv_linkage (var_def M' (next_gid M)) = gv_linkage (var_def M g) \<and>
       gv_section (var_def M' (next_gid M)) = gv_section (var_def M g)) \<and>
    (foreign_entries M root = [] \<longrightarrow> next_gid M \<notin> set (vars M'))"
proof -
  define M1 where M1: "M1 = keep_foreign uniq M g (foreign_entries M root)"
  note k = keep_foreign_torn [OF ok u r e M1]
  obtain wl where wl: "walk_graph M1 0 [root] = Some wl"
    "\<forall>x\<in>set wl. const_ok M x \<and> x \<noteq> Global_Ref g \<and> leads_to M root x"
    using teardown_walk [OF ok r e k(2)] by blast
  define M' where M': "M' = fold destroy wl M1"
  have d: "module_ok M'" "shrunk (set wl) M1 M'" unfolding M' using destroy_all [OF k(1), of wl "set wl"] by blast+
  from d(2) have s: "gname M' = gname M1" "var_def M' = var_def M1" "set (vars M') \<subseteq> set (vars M1)"
    and gone: "\<And>x. x \<in> set (vars M1) \<Longrightarrow> x \<notin> set (vars M') \<Longrightarrow> Global_Ref x \<in> set wl" unfolding shrunk_def by blast+
  have td: "torn_down M g root M'"
    unfolding torn_down_def using d(1) shrunk_torn [OF d(2) k(3)] gone k(4) wl(2) by blast
  have "\<not> const_ok M (Global_Ref (next_gid M))" using module_okD(3) [OF ok] by (auto simp: const_ok_def)
  then have new: "next_gid M \<in> set (vars M1) \<Longrightarrow> next_gid M \<in> set (vars M')" using gone wl(2) by blast
  have run: "erase_annotations uniq M = Some M'"
    by (simp add: erase_annotations_def r Let_def M1 [symmetric] wl(1) M')
  show ?thesis
  proof (cases "foreign_entries M root = []")
    case False
    note q = keep_foreign_some [OF ok u r e False M1]
    have "next_gid M \<in> set (vars M1)" unfolding q(3) by simp
    then have "next_gid M \<in> set (vars M')" by (rule new)
    then show ?thesis using run td False q(10,12-14) s(1,2) by (intro exI [of _ M']) simp
  next
    case True
    have "next_gid M \<notin> set (live_gids M)" using module_okD(3) [OF ok] by blast
    then have "next_gid M \<notin> set (vars M')"
      using s(3) keep_foreign_none(1) [OF ok r e True M1] by (auto simp: erase_global_def live_gids_def)
    then show ?thesis using run td True by blast
  qed
qed

lemma foreign_strings:
  assumes ok: "module_ok M" and t: "torn_down M g root M'" and r: "const_ok M root"
    and i: "next_gid M \<in> set (vars M')" "gv_init (var_def M' (next_gid M)) = Some (Const_Array (foreign_entries M root))"
    and e: "e \<in> set (foreign_entries M root)" and c: "c \<in> set (operands e)"
  shows "var_init M' c = var_init M c"
proof -
  have ok': "module_ok M'" and tn: "torn M g M'" using t by (simp_all add: torn_down_def)
  have "const_ok M' (Const_Array (foreign_entries M root))" using module_okD(5) [OF ok' i] .
  then have p: "Const_Array (foreign_entries M root) \<in> set (pool M')" by (simp add: const_ok_def)
  have e': "const_ok M' e" using module_okD(4) [OF ok' p] e by simp
  have pe: "is_pool_constant e" using c by (cases e) simp_all
  have "e \<in> set (pool M')" using e' pe by (simp add: const_ok_def)
  then have c': "const_ok M' c" using module_okD(4) [OF ok'] c by blast
  have "e \<in> set (pool M)" using foreign_ok(1) [OF ok r e] pe by (simp add: const_ok_def)
  then have cM: "const_ok M c" using module_okD(4) [OF ok] c by blast
  show ?thesis by (rule torn_var_init [OF ok ok' tn cM c'])
qed

lemma enroll_nothing:
  "(\<And>e. e \<in> set es \<Longrightarrow> \<not> is_filc_async_entry M e) \<Longrightarrow> enroll_entries M es A = Inr A"
  by (induction es) simp_all

end
