(* ===== verification/WaitInv.thy ===== *)
theory WaitInv
  imports Waits
begin

text \<open>
  What the wait loops keep and promise.  Everything a loop does to the framework is a sequence of
  framework steps that leave the calling thread's own tasks, requests and objects alone
  (\<^verbatim>\<open>calm_step\<close>); the locale \<^verbatim>\<open>runtime_contract\<close> says that the
  runtimes take only such steps when they are polled and keep an invariant of their own.
  The last section shows when a loop returns: a runtime that finishes the task it is asked to
  block on (\<^verbatim>\<open>prompt\<close>) lets the owners of a buffer be waited for with fuel
  above the number of marks on it.
\<close>

section \<open>A request keeps its key\<close>

lemma release_holds_keys:
  "release_holds hs L = Inr L' \<Longrightarrow>
   holds L' = holds L \<and> lk_value (locks L' l) = lk_value (locks L l) \<and> lk_space (locks L' l) = lk_space (locks L l)"
proof (induction hs arbitrary: L)
  case (Cons h hs)
  then obtain L1 where L1: "release_hold h L = Inr L1" "release_holds hs L1 = Inr L'" by auto
  have "holds L1 = holds L \<and> lk_value (locks L1 l) = lk_value (locks L l) \<and> lk_space (locks L1 l) = lk_space (locks L l)"
    using L1(1) by (auto simp: release_hold_def unhold_def retire_lock_def Let_def split: if_splits)
  with Cons.IH [OF L1(2)] show ?case by simp
qed simp

lemma lock_step_request:
  assumes st: "lock_step L L'" and inv: "lock_inv L" and h: "waiting L h"
  shows "holds L' h = holds L h \<and> hold_key L' h = hold_key L h"
  using st
proof cases
  case (enqueue t v sp wr h')
  have core: "lock_core L" by (rule lock_invD(1) [OF inv])
  obtain l L1 rest where get: "lock_get v sp L = Inr (l, L1)" and ans: "hold_answers L1 = h' # rest"
    and L': "L' = upd_lock l (\<lambda>k. k\<lparr>lk_waiters := lk_waiters k @ [h']\<rparr>)
           (L1\<lparr>hold_answers := rest,
               holds := (holds L1)(h' := \<lparr>hd_task = t, hd_lock = l, hd_write = wr\<rparr>)\<rparr>)"
    using enqueue by (rule lock_enqueue_split)
  note g = lock_get_spec [OF core get]
  have ne: "h \<noteq> h'" using waiting_not_answer [OF core h] ans g(7) by auto
  have live: "lock_live L (hd_lock (holds L h))" using h by (simp add: waiting_def)
  have same: "locks L1 (hd_lock (holds L h)) = locks L (hd_lock (holds L h))"
    using g(3,9) live by (cases "hd_lock (holds L h) = l") auto
  show ?thesis
    using ne same by (simp add: L' hold_key_def g(6)) (auto simp: upd_lock_def)
next
  case (grant h')
  then show ?thesis by (auto simp: lock_grant_def Let_def hold_key_def upd_lock_def)
next
  case (release t)
  then show ?thesis
    using release_holds_keys [of "task_holds L t" L] by (auto simp: locks_release_def hold_key_def)
qed

text \<open>Every run of the framework is a run of its lock table.\<close>

lemma complete_lock:
  "filc_async_complete t r s = Inr s' \<Longrightarrow> lk s' = lk s \<or> lock_step (lk s) (lk s')"
  by (auto simp: filc_async_complete_def Let_def split: if_splits intro: lock_step.intros)

lemma wait_all_lk:
  assumes inv: "fw_inv s" and w: "filc_async_wait_all bs n s = Inr (token, s')"
  shows "lk s' = lk s"
  using w
proof (rule wait_all_cases)
  fix s0 s1 assume a: "s0 = s \<or> (\<exists>p. gc_alloc_or_die s = Inr (p, s0))"
    and b: "gc_alloc_or_die s0 = Inr (token, s1)"
    and c: "concat (map (input_marks (mk s1)) (take (unat n) (the bs))) = [] \<and> s' = s1 \<or>
     join_publish token (concat (map (input_marks (mk s1)) (take (unat n) (the bs)))) s1 = Inr s'"
  have i0: "fw_inv s0" using a inv gc_alloc_inv(1) by blast
  note g = gc_alloc_inv [OF i0 b]
  have e: "lk s1 = lk s" using a gc_alloc_inv(9) [OF inv] g(9) by auto
  from c show ?thesis
  proof
    assume pub: "join_publish token (concat (map (input_marks (mk s1)) (take (unat n) (the bs)))) s1 = Inr s'"
    show ?thesis by (rule join_publish_spec [OF g(1,4) pub]) (simp add: e)
  qed (simp add: e)
qed

lemma fw_step_lock:
  assumes st: "fw_step shr s s'" and inv: "fw_inv s"
  shows "lk s' = lk s \<or> lock_step (lk s) (lk s')"
  using st
proof cases
  case (begin_call meta args t)
  then have "task_begin (m_runtime meta) (Some meta) args s = Inr (t, s')"
    by (simp add: filc_async_begin_def)
  then show ?thesis using task_begin_spec(2) [OF inv] begin_call(1) by force
next
  case (task_new rt t)
  then show ?thesis using task_begin_spec(2) [OF inv] unfolding filc_async_task_new_def by force
next
  case (enqueue t v sp wr h L)
  then show ?thesis by (auto intro: lock_step.intros)
next
  case (grant h)
  then show ?thesis by (auto intro: lock_step.intros)
next
  case (own t buf active)
  have "lk s' = lk s" by (subst mark_own_only [OF own(4)]) simp
  then show ?thesis ..
next
  case (shared t buf)
  have "lk s' = lk s" by (subst mark_shared_later(2) [OF inv shared(3,2,4)]) simp
  then show ?thesis ..
next
  case (input t buf)
  have "lk s' = lk s" by (subst conjunct2 [OF mark_input_later [OF inv input(2,1,3)]]) simp
  then show ?thesis ..
next
  case (complete t r)
  then show ?thesis using complete_lock by blast
next
  case (join_done t)
  then show ?thesis using complete_lock by blast
next
  case (wait_all bs n token)
  then show ?thesis using wait_all_lk [OF inv] by blast
qed (simp_all add: set_runtime_data_def collected_def)

section \<open>A held lock stays held\<close>

lemma lock_step_held:
  assumes inv: "lock_inv L" and h: "held L h"
  shows "lock_enqueue t v sp wr L = Inr (h', L') \<Longrightarrow>
      held L' h \<and> holds L' h = holds L h \<and> hold_key L' h = hold_key L h"
    and "held (lock_grant g L) h \<and> holds (lock_grant g L) h = holds L h \<and>
      hold_key (lock_grant g L) h = hold_key L h"
proof -
  let ?l = "hd_lock (holds L h)"
  have core: "lock_core L" by (rule lock_invD(1) [OF inv])
  have live: "lock_live L ?l" and mem: "h \<in> set (lk_holders (locks L ?l))" using h by (simp_all add: held_def)
  show "held L' h \<and> holds L' h = holds L h \<and> hold_key L' h = hold_key L h"
    if enq: "lock_enqueue t v sp wr L = Inr (h', L')"
  proof -
    obtain l L1 rest where get: "lock_get v sp L = Inr (l, L1)" and ans: "hold_answers L1 = h' # rest"
      and L': "L' = upd_lock l (\<lambda>k. k\<lparr>lk_waiters := lk_waiters k @ [h']\<rparr>)
             (L1\<lparr>hold_answers := rest,
                 holds := (holds L1)(h' := \<lparr>hd_task = t, hd_lock = l, hd_write = wr\<rparr>)\<rparr>)"
      using enq by (rule lock_enqueue_split)
    note g = lock_get_spec [OF core get]
    have "h \<notin> set (hold_answers L)"
      using core live mem unfolding lock_core_def stores_ok_def by auto
    then have ne: "h \<noteq> h'" using ans g(7) by auto
    have same: "locks L1 ?l = locks L ?l"
      using g(3,9) live by (cases "?l = l") auto
    have "lock_live L1 ?l" using g(2) live by blast
    then show ?thesis
      using ne same mem by (auto simp: L' held_def lock_live_def hold_key_def g(6) upd_lock_def)
  qed
  show "held (lock_grant g L) h \<and> holds (lock_grant g L) h = holds L h \<and>
      hold_key (lock_grant g L) h = hold_key L h"
    using live mem by (auto simp: held_def lock_live_def lock_grant_def Let_def hold_key_def upd_lock_def)
qed

lemma lock_enqueue_answer:
  assumes core: "lock_core L" and enq: "lock_enqueue t v sp wr L = Inr (h, L')"
  shows "h \<in> set (hold_answers L)"
  using enq
proof (rule lock_enqueue_split)
  fix l L1 rest assume g: "lock_get v sp L = Inr (l, L1)" and a: "hold_answers L1 = h # rest"
  then show ?thesis using lock_get_spec(7) [OF core g] by simp
qed

lemma complete_lock_keys:
  "filc_async_complete t r s = Inr s' \<Longrightarrow>
     lk_value (locks (lk s') l) = lk_value (locks (lk s) l) \<and> lk_space (locks (lk s') l) = lk_space (locks (lk s) l)"
  using release_holds_keys [of "task_holds (lk s) t" "lk s"]
  by (auto simp: filc_async_complete_def Let_def locks_release_def split: if_splits)

lemma task_begin_lock:
  "task_begin rt meta args s = Inr (t, s') \<Longrightarrow>
     g_lock_buckets (lk s') = g_lock_buckets (lk s) \<and> locks (lk s') = locks (lk s) \<and> holds (lk s') = holds (lk s)"
  by (auto simp: task_begin_def)

lemma complete_held:
  assumes inv: "fw_inv s" and nr: "no_request s t" and c: "filc_async_complete t r s = Inr s'"
    and h: "held (lk s) h" and run: "is_running (tk s') (hd_task (holds (lk s) h))"
  shows "held (lk s') h \<and> holds (lk s') h = holds (lk s) h \<and> hold_key (lk s') h = hold_key (lk s) h"
proof (cases "is_running (tk s) t")
  case True
  show ?thesis
  proof (rule complete_spec [OF inv True nr, of r])
    fix s2 assume s2: "filc_async_complete t r s = Inr s2" "tk s2 = task_done t r (tk s)"
      "\<And>x. held (lk s2) x = (held (lk s) x \<and> hd_task (holds (lk s) x) \<noteq> t)" "holds (lk s2) = holds (lk s)"
    have e: "s2 = s'" using c s2(1) by simp
    have "hd_task (holds (lk s) h) \<noteq> t"
      using run task_done_spec(2) [OF fw_invD(1) [OF inv] True, where result = r] s2(2) by (auto simp: e)
    moreover have "hold_key (lk s') h = hold_key (lk s) h"
      using complete_lock_keys [OF c] s2(4) by (simp add: hold_key_def e)
    ultimately show ?thesis using s2(3,4) h by (simp add: e)
  qed
next
  case False
  then have "s' = s" using c by (simp add: complete_idle)
  then show ?thesis using h by simp
qed

lemma fw_step_held:
  assumes st: "fw_step shr s s'" and inv: "fw_inv s" and h: "held (lk s) h"
    and run: "is_running (tk s') (hd_task (holds (lk s) h))"
  shows "held (lk s') h \<and> holds (lk s') h = holds (lk s) h \<and> hold_key (lk s') h = hold_key (lk s) h"
proof -
  have same: ?thesis if "g_lock_buckets (lk s') = g_lock_buckets (lk s)" "locks (lk s') = locks (lk s)" "holds (lk s') = holds (lk s)"
    using h that by (simp add: held_def lock_live_def hold_key_def)
  show ?thesis using st
  proof cases
    case (begin_call meta args t)
    then show ?thesis using same task_begin_lock [of "m_runtime meta"] by (auto simp: filc_async_begin_def)
  next
    case (task_new rt t)
    then show ?thesis using same task_begin_lock unfolding filc_async_task_new_def by blast
  next
    case (enqueue t v sp wr h' L)
    then show ?thesis using lock_step_held(1) [OF fw_invD(2) [OF inv] h] by simp
  next
    case (grant g)
    then show ?thesis using lock_step_held(2) [OF fw_invD(2) [OF inv] h] by simp
  next
    case (own t buf active)
    have "lk s' = lk s" by (subst mark_own_only [OF own(4)]) simp
    then show ?thesis using same by simp
  next
    case (shared t buf)
    have "lk s' = lk s" by (subst mark_shared_later(2) [OF inv shared(3,2,4)]) simp
    then show ?thesis using same by simp
  next
    case (input t buf)
    have "lk s' = lk s" by (subst conjunct2 [OF mark_input_later [OF inv input(2,1,3)]]) simp
    then show ?thesis using same by simp
  next
    case (complete t r)
    then show ?thesis using complete_held [OF inv _ _ h run] by blast
  next
    case (join_done t)
    have "no_request s t" using fw_invD(6) [OF inv] join_done(1) by (simp add: joins_live_def)
    then show ?thesis using complete_held [OF inv _ join_done(3) h run] by blast
  next
    case (wait_all bs n token)
    then show ?thesis using wait_all_lk [OF inv] same by simp
  qed (use same in \<open>simp_all add: set_runtime_data_def collected_def\<close>)
qed

section \<open>What may happen while the lock is released\<close>

text \<open>
  Other threads and the runtimes change the state only through the framework's own atomic
  sections, and they leave alone what the calling thread refers to: its objects \<open>B\<close>
  stay live, and its tasks \<open>T\<close>, not handed to a runtime yet, stay running, with their
  marks and their queued lock requests, since only their thread grants them.
\<close>

definition marks_kept :: "addr set \<Rightarrow> fw \<Rightarrow> fw \<Rightarrow> bool" where
  "marks_kept T s s' \<longleftrightarrow> (\<forall>m. mark_live (mk s) m \<and> mk_owner (marks (mk s) m) \<in> T - {0} \<and>
     \<not> is_join s (mk_owner (marks (mk s) m)) \<longrightarrow>
     mark_live (mk s') m \<and> mk_owner (marks (mk s') m) = mk_owner (marks (mk s) m) \<and>
     mk_lower (marks (mk s') m) = mk_lower (marks (mk s) m) \<and>
     (mk_write (marks (mk s) m) \<longrightarrow> mk_write (marks (mk s') m)))"

lemma marks_kept_same: "mk s' = mk s \<Longrightarrow> marks_kept T s s'"
  by (simp add: marks_kept_def)

lemma marks_kept_more:
  "(\<And>x. mark_live (mk s') x = (mark_live (mk s) x \<or> x = m)) \<Longrightarrow> \<not> mark_live (mk s) m \<Longrightarrow>
   (\<And>x. x \<noteq> m \<Longrightarrow> marks (mk s') x = marks (mk s) x) \<Longrightarrow> marks_kept T s s'"
  unfolding marks_kept_def by metis

lemma marks_kept_less:
  assumes "\<And>x. mark_live (mk s') x = (mark_live (mk s) x \<and> x \<noteq> m)"
    and "\<And>x. x \<noteq> m \<Longrightarrow> marks (mk s') x = marks (mk s) x" and "mk_owner (marks (mk s) m) = 0"
  shows "marks_kept T s s'"
  unfolding marks_kept_def
proof (intro allI impI)
  fix x assume x: "mark_live (mk s) x \<and> mk_owner (marks (mk s) x) \<in> T - {0} \<and>
     \<not> is_join s (mk_owner (marks (mk s) x))"
  then have "x \<noteq> m" using assms(3) by auto
  then show "mark_live (mk s') x \<and> mk_owner (marks (mk s') x) = mk_owner (marks (mk s) x) \<and>
     mk_lower (marks (mk s') x) = mk_lower (marks (mk s) x) \<and>
     (mk_write (marks (mk s) x) \<longrightarrow> mk_write (marks (mk s') x))"
    using assms(1,2) x by simp
qed

lemma mark_own_kept:
  assumes inv: "fw_inv s" and buf: "points_into s buf" and run: "is_running (tk s) t"
  shows "mark_own t buf s = Inr s' \<Longrightarrow> marks_kept T s s'"
    and "filc_async_mark_input t buf s = Inr s' \<Longrightarrow> marks_kept T s s'"
proof -
  show "marks_kept T s s'" if own: "mark_own t buf s = Inr s'"
    using own
  proof (cases rule: mark_own_cases)
    case (again m)
    have "mark_live (mk s) m" using mark_owned_Some [OF mark_invD(2) [OF fw_invD(3) [OF inv]] again(2)] by blast
    note w = mark_make_write_spec [OF fw_invD(3) [OF inv] this]
    show ?thesis by (simp add: marks_kept_def again(3) w(2,3))
  next
    case (new M)
    show ?thesis
    proof (rule mark_add_inv [OF inv buf disjI2 [OF run] new(1,2)])
      fix m assume "\<not> mark_live (mk s) m" "\<And>x. mark_live M x = (mark_live (mk s) x \<or> x = m)"
        "\<And>x. x \<noteq> m \<Longrightarrow> marks M x = marks (mk s) x"
      then show ?thesis by (intro marks_kept_more [where m = m]) (simp_all add: new(3))
    qed
  qed
  show "marks_kept T s s'" if inp: "filc_async_mark_input t buf s = Inr s'"
    using inp
  proof (cases rule: mark_input_cases)
    case same
    then show ?thesis by (simp add: marks_kept_same)
  next
    case (new M)
    show ?thesis
    proof (rule mark_add_inv [OF inv buf disjI2 [OF run] new(1,2)])
      fix m assume "\<not> mark_live (mk s) m" "\<And>x. mark_live M x = (mark_live (mk s) x \<or> x = m)"
        "\<And>x. x \<noteq> m \<Longrightarrow> marks M x = marks (mk s) x"
      then show ?thesis by (intro marks_kept_more [where m = m]) (simp_all add: new(3))
    qed
  qed
qed

definition kept_step :: "bool \<Rightarrow> zptr set \<Rightarrow> addr set \<Rightarrow> fw \<Rightarrow> fw \<Rightarrow> bool" where
  "kept_step shr B T s s' \<longleftrightarrow> fw_step shr s s' \<and> (\<forall>p\<in>B. points_into s p \<longrightarrow> points_into s' p) \<and>
     (\<forall>t\<in>T. is_running (tk s) t \<and> \<not> is_join s t \<longrightarrow> is_running (tk s') t) \<and> marks_kept T s s'"

definition calm_step :: "bool \<Rightarrow> zptr set \<Rightarrow> addr set \<Rightarrow> fw \<Rightarrow> fw \<Rightarrow> bool" where
  "calm_step shr B T s s' \<longleftrightarrow> kept_step shr B T s s' \<and>
     (\<forall>h. waiting (lk s) h \<and> hd_task (holds (lk s) h) \<in> T \<longrightarrow> waiting (lk s') h)"

text \<open>What the calling thread itself does to the tasks and the requests before it submits a call: it
  starts a task of its own, completes joins, and queues or grants requests of its own tasks.\<close>

definition own_step :: "addr set \<Rightarrow> fw \<Rightarrow> fw \<Rightarrow> bool" where
  "own_step T s s' \<longleftrightarrow>
     (\<forall>t. t \<in> T \<and> t_runtime_data (tasks (tk s') t) = 0 \<or>
          t_runtime (tasks (tk s') t) = t_runtime (tasks (tk s) t) \<and>
          (t_runtime (tasks (tk s) t) \<noteq> Join_Runtime \<longrightarrow> tasks (tk s') t = tasks (tk s) t)) \<and>
     (\<forall>h. waiting (lk s') h \<longrightarrow> hd_task (holds (lk s') h) \<in> T \<or>
          waiting (lk s) h \<and> holds (lk s') h = holds (lk s) h)"

definition reaches :: "bool \<Rightarrow> zptr set \<Rightarrow> addr set \<Rightarrow> ('r world \<Rightarrow> bool) \<Rightarrow> 'r world \<Rightarrow> 'r world \<Rightarrow> bool" where
  "reaches shr B T I w w' \<longleftrightarrow> (calm_step shr B T)\<^sup>*\<^sup>* (fst w) (fst w') \<and> I w'"

lemma reaches_refl: "I w \<Longrightarrow> reaches shr B T I w w"
  by (simp add: reaches_def)

lemma reaches_trans: "reaches shr B T I w w1 \<Longrightarrow> reaches shr B T I w1 w2 \<Longrightarrow> reaches shr B T I w w2"
  unfolding reaches_def by (meson rtranclp_trans)

lemma reachesD:
  "reaches shr B T I w w' \<Longrightarrow> (calm_step shr B T)\<^sup>*\<^sup>* (fst w) (fst w')"
  "reaches shr B T I w w' \<Longrightarrow> I w'"
  by (simp_all add: reaches_def)

lemma own_step_same:
  "tk s' = tk s \<Longrightarrow> lk s' = lk s \<Longrightarrow> own_step T s s'"
  by (simp add: own_step_def)

lemma kept_steps: "(kept_step shr B T)\<^sup>*\<^sup>* s s' \<Longrightarrow> (fw_step shr)\<^sup>*\<^sup>* s s'"
  by (erule rtranclp_mono [THEN predicate2D, rotated]) (auto simp: kept_step_def)

lemma calm_kept: "(calm_step shr B T)\<^sup>*\<^sup>* s s' \<Longrightarrow> (kept_step shr B T)\<^sup>*\<^sup>* s s'"
  by (erule rtranclp_mono [THEN predicate2D, rotated]) (auto simp: calm_step_def)

lemma kept_inv: "(kept_step shr B T)\<^sup>*\<^sup>* s s' \<Longrightarrow> fw_inv s \<Longrightarrow> fw_inv s'"
  using kept_steps fw_steps_inv by blast

lemmas calm_steps = calm_kept [THEN kept_steps] and calm_inv = calm_kept [THEN kept_inv]

lemma kept_points: "(kept_step shr B T)\<^sup>*\<^sup>* s s' \<Longrightarrow> p \<in> B \<Longrightarrow> points_into s p \<Longrightarrow> points_into s' p"
  by (induction rule: rtranclp_induct) (auto simp: kept_step_def)

lemma kept_task:
  assumes "(kept_step shr B T)\<^sup>*\<^sup>* s s'" and "fw_inv s" and "t \<in> T"
    and "is_running (tk s) t" and "t_runtime (tasks (tk s) t) = Linked a"
  shows "is_running (tk s') t \<and> t_runtime (tasks (tk s') t) = Linked a"
  using assms(1)
proof (induction rule: rtranclp_induct)
  case (step s1 s2)
  have i1: "fw_inv s1" by (rule kept_inv [OF step.hyps(1) assms(2)])
  have "fw_step shr s1 s2" "is_running (tk s2) t"
    using step assms(3) by (auto simp: kept_step_def is_join_def)
  moreover have "task_later s1 s2" using fw_step_later [OF calculation(1) i1] by blast
  ultimately show ?case using task_laterD(1) [of s1 s2 t] step.IH by simp
qed (use assms in simp)

lemma kept_held:
  assumes "(kept_step shr B T)\<^sup>*\<^sup>* s s'" and "fw_inv s" and "t \<in> T"
    and "is_running (tk s) t" and "t_runtime (tasks (tk s) t) = Linked a"
    and "held (lk s) h" and "hd_task (holds (lk s) h) = t"
  shows "held (lk s') h \<and> holds (lk s') h = holds (lk s) h \<and> hold_key (lk s') h = hold_key (lk s) h"
  using assms(1)
proof (induction rule: rtranclp_induct)
  case (step s1 s2)
  have i1: "fw_inv s1" by (rule kept_inv [OF step.hyps(1) assms(2)])
  have "(kept_step shr B T)\<^sup>*\<^sup>* s s2" using step.hyps by simp
  then have "is_running (tk s2) t" using kept_task [OF _ assms(2-5)] by blast
  moreover have "fw_step shr s1 s2" using step.hyps(2) by (simp add: kept_step_def)
  ultimately show ?case using fw_step_held [OF _ i1, of shr s2 h] step.IH assms(7) by simp
qed (use assms in simp)

lemma kept_marks:
  assumes "(kept_step shr B T)\<^sup>*\<^sup>* s s'" and "fw_inv s" and "t \<in> T"
    and "is_running (tk s) t" and "t_runtime (tasks (tk s) t) = Linked a"
    and "mark_live (mk s) m" and "mk_owner (marks (mk s) m) = t"
  shows "mark_live (mk s') m \<and> mk_owner (marks (mk s') m) = t \<and>
    mk_lower (marks (mk s') m) = mk_lower (marks (mk s) m) \<and>
    (mk_write (marks (mk s) m) \<longrightarrow> mk_write (marks (mk s') m))"
  using assms(1)
proof (induction rule: rtranclp_induct)
  case (step s1 s2)
  have t0: "t \<noteq> 0" using running_nonnull task_invD(2) [OF fw_invD(1) [OF assms(2)]] assms(4) by blast
  have "\<not> is_join s1 t" using kept_task [OF step.hyps(1) assms(2-5)] by (simp add: is_join_def)
  moreover have "marks_kept T s1 s2" using step.hyps(2) by (simp add: kept_step_def)
  ultimately show ?case using step.IH assms(3) t0 by (simp add: marks_kept_def)
qed (use assms in simp)

lemmas calm_points = calm_kept [THEN kept_points] and calm_task = calm_kept [THEN kept_task]

lemma calm_request:
  assumes "(calm_step shr B T)\<^sup>*\<^sup>* s s'" and "fw_inv s" and "hd_task (holds (lk s) h) \<in> T" and "waiting (lk s) h"
  shows "waiting (lk s') h \<and> holds (lk s') h = holds (lk s) h \<and> hold_key (lk s') h = hold_key (lk s) h"
  using assms(1)
proof (induction rule: rtranclp_induct)
  case (step s1 s2)
  have i1: "fw_inv s1" by (rule calm_inv [OF step.hyps(1) assms(2)])
  have "fw_step shr s1 s2" "waiting (lk s2) h"
    using step assms(3) by (auto simp: calm_step_def kept_step_def)
  with fw_step_lock [OF _ i1] lock_step_request [OF _ fw_invD(2) [OF i1]] step.IH show ?case by metis
qed (use assms in simp)

lemma join_done_calm:
  assumes inv: "fw_inv s" and j: "is_join s t" "join_ready s t" and c: "filc_async_complete t 0 s = Inr s1"
  shows "(calm_step shr B T)\<^sup>*\<^sup>* s (set_runtime_data t d s1)" and "task_state (set_runtime_data t d s1) t \<noteq> 1"
    and "own_step T s (set_runtime_data t d s1)"
proof -
  have nr: "no_request s t" and run: "is_running (tk s) t"
    using fw_invD(6) [OF inv] j(1) by (simp_all add: joins_live_def is_join_def)
  have i1: "fw_inv s1" by (rule complete_inv [OF inv nr c])
  have idle: "\<not> is_running (tk s1) t" by (rule complete_task_later(3) [OF inv nr c])
  note d = task_done_spec [OF fw_invD(1) [OF inv] run, where result = 0]
  have e: "heap s1 = heap s \<and> (\<forall>h. waiting (lk s1) h = waiting (lk s) h) \<and> tk s1 = task_done t 0 (tk s) \<and>
      holds (lk s1) = holds (lk s) \<and> marks_kept T s s1"
  proof (rule complete_spec [OF inv run nr, of 0])
    fix s2 assume s2: "filc_async_complete t 0 s = Inr s2" "tk s2 = task_done t 0 (tk s)" "\<And>x. waiting (lk s2) x = waiting (lk s) x"
      "holds (lk s2) = holds (lk s)" "s2 = s\<lparr>tk := tk s2, mk := mk s2, lk := lk s2\<rparr>"
      "\<And>x. mark_live (mk s2) x = (mark_live (mk s) x \<and> mk_owner (marks (mk s) x) \<noteq> t)"
      "\<And>x. mk_owner (marks (mk s) x) \<noteq> t \<Longrightarrow> mark_live (mk s) x \<Longrightarrow> marks (mk s2) x = marks (mk s) x"
    have "s1 = s2" using c s2(1) by simp
    moreover have "heap s2 = heap s" using arg_cong [OF s2(5), of heap] by simp
    moreover have "marks_kept T s s2"
      unfolding marks_kept_def using s2(6,7) j(1) by metis
    ultimately show ?thesis using s2(2-4) by simp
  qed
  have "calm_step shr B T s s1"
    using fw_step.join_done [OF j c] j(1) e d(2) by (auto simp: calm_step_def kept_step_def points_into_def)
  moreover have "calm_step shr B T s1 (set_runtime_data t d s1)"
    using fw_step.set_data [of s1 t shr d] idle
    by (simp add: calm_step_def kept_step_def marks_kept_same points_into_def set_runtime_data_def is_join_def is_running_def)
  ultimately show "(calm_step shr B T)\<^sup>*\<^sup>* s (set_runtime_data t d s1)" by simp
  show "task_state (set_runtime_data t d s1) t \<noteq> 1"
    using idle by (simp add: task_state_def set_runtime_data_def is_running_def)
  show "own_step T s (set_runtime_data t d s1)"
    using e d(3,8) j(1) by (auto simp: own_step_def set_runtime_data_def is_join_def)
qed

lemma idle_data_calm:
  assumes "\<not> is_running (tk s) t" and "t_runtime (tasks (tk s) t) = Join_Runtime"
  shows "(calm_step shr B T)\<^sup>*\<^sup>* s (set_runtime_data t d s)" and "own_step T s (set_runtime_data t d s)"
proof -
  show "own_step T s (set_runtime_data t d s)"
    using assms(2) by (auto simp: own_step_def set_runtime_data_def)
  have "calm_step shr B T s (set_runtime_data t d s)"
    using fw_step.set_data [of s t shr d] assms
    by (simp add: calm_step_def kept_step_def marks_kept_same points_into_def set_runtime_data_def is_join_def is_running_def)
  then show "(calm_step shr B T)\<^sup>*\<^sup>* s (set_runtime_data t d s)" by simp
qed

text \<open>Completing a task that is none of the caller's own is calm.\<close>

lemma complete_calm:
  assumes "fw_inv s" "is_running (tk s) t" "\<not> is_join s t" "no_request s t" "t \<notin> T"
    and "filc_async_complete t r s = Inr s'"
  shows "calm_step shr B T s s'"
proof (rule complete_spec [OF assms(1,2,4), of r])
  fix s'' assume c: "filc_async_complete t r s = Inr s''" "tk s'' = task_done t r (tk s)"
    "\<And>x. waiting (lk s'') x = waiting (lk s) x" "s'' = s\<lparr>tk := tk s'', mk := mk s'', lk := lk s''\<rparr>"
    "\<And>x. mark_live (mk s'') x = (mark_live (mk s) x \<and> mk_owner (marks (mk s) x) \<noteq> t)"
    "\<And>x. mk_owner (marks (mk s) x) \<noteq> t \<Longrightarrow> mark_live (mk s) x \<Longrightarrow> marks (mk s'') x = marks (mk s) x"
  have e: "s'' = s'" using c(1) assms(6) by simp
  have "fw_step shr s s'"
    using assms(2,3) by (intro fw_step.complete [OF _ assms(4,6)]) (simp add: is_join_def)
  moreover have "heap s' = heap s" using c(4) unfolding e by (metis fw.ext_inject fw.surjective fw.update_convs(1-3))
  moreover have "is_running (tk s') u" if "u \<in> T" "is_running (tk s) u" for u
    using that assms(5) task_done_spec [OF fw_invD(1) [OF assms(1)] assms(2), where result = r] c(2)
    by (auto simp: e is_running_def)
  moreover have "marks_kept T s s''" unfolding marks_kept_def using c(5,6) assms(5) by (metis Diff_iff)
  ultimately show ?thesis using c(3) by (auto simp: calm_step_def kept_step_def points_into_def e)
qed

definition join_entries :: "fw \<Rightarrow> addr \<Rightarrow> join_entry list \<Rightarrow> bool" where
  "join_entries s t es \<longleftrightarrow> t_runtime (tasks (tk s) t) = Join_Runtime \<and> (is_join s t \<longrightarrow> join_of s t = es)"

lemma join_entries_calm:
  "(calm_step shr B T)\<^sup>*\<^sup>* s s' \<Longrightarrow> fw_inv s \<Longrightarrow> join_entries s t es \<Longrightarrow> join_entries s' t es"
  unfolding join_entries_def using join_entries_kept [OF calm_steps] by blast

lemma join_complete_calm:
  assumes inv: "fw_inv s" and es: "join_entries s t es"
    and np: "\<not> list_ex (join_entry_pending s) es"
    and c: "filc_async_complete t 0 s = Inr s1"
  shows "(calm_step shr B T)\<^sup>*\<^sup>* s (set_runtime_data t d s1) \<and> task_state (set_runtime_data t d s1) t \<noteq> 1 \<and>
    own_step T s (set_runtime_data t d s1)"
proof (cases "is_running (tk s) t")
  case True
  then have "is_join s t" "join_ready s t"
    using es np by (auto simp: join_entries_def is_join_def join_ready_def list_ex_iff)
  from join_done_calm [OF inv this c] show ?thesis by blast
next
  case False
  then have "s1 = s" using c by (simp add: complete_idle)
  moreover have "t_runtime (tasks (tk s) t) = Join_Runtime" using es by (simp add: join_entries_def)
  ultimately show ?thesis using False idle_data_calm [OF False]
    by (simp add: task_state_def set_runtime_data_def is_running_def)
qed

lemma counters_calm:
  "(calm_step shr B T)\<^sup>*\<^sup>* s (s\<lparr>g_pending_resolves := a\<rparr>)"
  "(calm_step shr B T)\<^sup>*\<^sup>* s (s\<lparr>g_lock_waits := b\<rparr>)"
  "(calm_step shr B T)\<^sup>*\<^sup>* s (s\<lparr>g_hook_resolves := c\<rparr>)"
proof -
  have st: "\<And>a b c. calm_step shr B T s (s\<lparr>g_pending_resolves := a, g_lock_waits := b, g_hook_resolves := c\<rparr>)"
    by (simp add: calm_step_def kept_step_def marks_kept_same points_into_def fw_step.counters)
  note st [where a = a and b = "g_lock_waits s" and c = "g_hook_resolves s"]
    st [where a = "g_pending_resolves s" and b = b and c = "g_hook_resolves s"]
    st [where a = "g_pending_resolves s" and b = "g_lock_waits s" and c = c]
  then show "(calm_step shr B T)\<^sup>*\<^sup>* s (s\<lparr>g_pending_resolves := a\<rparr>)"
    "(calm_step shr B T)\<^sup>*\<^sup>* s (s\<lparr>g_lock_waits := b\<rparr>)"
    "(calm_step shr B T)\<^sup>*\<^sup>* s (s\<lparr>g_hook_resolves := c\<rparr>)" by simp_all
qed

lemma mark_find_other_live:
  assumes inv: "fw_inv s" and buf: "points_into s buf"
    and m: "mark_find_other active (mk s) (zlower buf) (zupper buf) t = Some m"
  shows "mark_live (mk s) m"
proof -
  note i = mark_invD [OF fw_invD(3) [OF inv]]
  have "heap s (zlower buf) = Some (zupper buf)" using buf by (simp add: points_into_def)
  from mark_find_other_Some [OF i(1-3) this m] show ?thesis by blast
qed

lemma owner_find_None:
  assumes inv: "fw_inv s" and buf: "points_into s buf"
  shows "(owner_find (mk s) buf P = None) =
    (\<forall>m. mark_live (mk s) m \<and> mk_lower (marks (mk s) m) = zlower buf \<and> mk_owner (marks (mk s) m) \<noteq> 0 \<longrightarrow>
         \<not> P (marks (mk s) m))"
proof -
  note i = mark_invD [OF fw_invD(3) [OF inv]]
  have "heap s (zlower buf) = Some (zupper buf)" using buf by (simp add: points_into_def)
  note c = mark_chain_object [OF i(1-3) this]
  show ?thesis using c by (auto simp: owner_find_def find_None_iff)
qed

section \<open>The contract of the runtimes\<close>

text \<open>
  What the framework relies on: polling the runtime of a task, or sleeping until something changes, is a
  sequence of calm steps and keeps an invariant \<open>I\<close> of the runtimes' own, and what the calling
  thread does inside a wait cannot break that invariant.
\<close>

locale runtime_contract =
  fixes shr :: bool and B :: "zptr set" and T :: "addr set" and I :: "'r world \<Rightarrow> bool" and E :: "'r env"
  assumes poll_reaches: "I w \<Longrightarrow> fw_inv (fst w) \<Longrightarrow> t_runtime (tasks (tk (fst w)) t) = rt \<Longrightarrow> rt \<noteq> Join_Runtime \<Longrightarrow>
      rt_poll E rt t mode w = Inr (d, w') \<Longrightarrow> reaches shr B T I w w'"
    and changed_reaches: "I w \<Longrightarrow> fw_inv (fst w) \<Longrightarrow> reaches shr B T I w (rt_changed E w)"
    and own_kept: "I w \<Longrightarrow> fw_inv (fst w) \<Longrightarrow> own_step T (fst w) s' \<Longrightarrow> I (s', snd w)"
begin

lemma inv_reaches: "reaches shr B T I w w' \<Longrightarrow> fw_inv (fst w) \<Longrightarrow> fw_inv (fst w')"
  using calm_inv by (auto simp: reaches_def)

lemma own_reaches:
  "I w \<Longrightarrow> fw_inv (fst w) \<Longrightarrow> (calm_step shr B T)\<^sup>*\<^sup>* (fst w) s' \<Longrightarrow> own_step T (fst w) s' \<Longrightarrow>
   reaches shr B T I w (s', snd w)"
  using own_kept by (simp add: reaches_def)

lemma poll_calm_aux:
  shows "\<And>d w'. E' = E \<Longrightarrow> I w \<Longrightarrow> fw_inv (fst w) \<Longrightarrow> poll_task n E' t mode w = Inr (d, w') \<Longrightarrow>
      reaches shr B T I w w'"
    and "\<And>d w'. E' = E \<Longrightarrow> I w \<Longrightarrow> fw_inv (fst w) \<Longrightarrow> join_entries (fst w) t es \<Longrightarrow>
      join_loop n E' t es mode w = Inr (d, w') \<Longrightarrow>
      reaches shr B T I w w' \<and> (d \<longrightarrow> task_state (fst w') t \<noteq> 1)"
    and "\<And>w'. E' = E \<Longrightarrow> I w \<Longrightarrow> fw_inv (fst w) \<Longrightarrow> join_visit n E' es mode w = Inr w' \<Longrightarrow>
      reaches shr B T I w w'"
proof (induction n E' t mode w and n E' t es mode w and n E' es mode w rule: poll_task_join_loop_join_visit.induct)
  case (1 n E' t mode w)
  show ?case
  proof (cases "t_runtime (tasks (tk (fst w)) t) = Join_Runtime")
    case True
    then obtain k where k: "n = Suc k" "join_loop k E' t (join_of (fst w) t) mode w = Inr (d, w')"
      using "1.prems"(4) by (auto simp: poll_task.simps split: nat.splits)
    have "join_entries (fst w) t (join_of (fst w) t)" using True by (simp add: join_entries_def)
    with "1.IH" [OF True k(1)] "1.prems" k(2) show ?thesis by blast
  next
    case False
    then have "rt_poll E (t_runtime (tasks (tk (fst w)) t)) t mode w = Inr (d, w')"
      using "1.prems"(1,4) by (auto simp: poll_task.simps split: runtime_ref.splits)
    then show ?thesis by (rule poll_reaches [OF "1.prems"(2,3) refl False])
  qed
next
  case (2 n E' t es mode w)
  show ?case
  proof (cases "task_state (fst w) t \<noteq> 1")
    case True
    then show ?thesis using "2.prems" by (simp add: join_loop.simps reaches_refl)
  next
    case False
    let ?rest = "\<lambda>w1. if \<not> list_ex (join_entry_pending (fst w1)) es
       then res_bind (filc_async_complete t 0 (fst w1))
              (\<lambda>s. Inr (True, (set_runtime_data t 0 s, snd w1)))
       else if mode \<noteq> POLL_BLOCK then Inr (task_state (fst w1) t \<noteq> 1, w1)
       else (case n of 0 \<Rightarrow> Inl No_Return
             | Suc k \<Rightarrow> join_loop k E' t es mode (rt_changed E' w1))"
    obtain w1 where v: "join_visit n E' es mode w = Inr w1" and r: "?rest w1 = Inr (d, w')"
      using "2.prems"(5) False by (auto simp: join_loop.simps)
    have c1: "reaches shr B T I w w1"
      using "2.IH"(1) False "2.prems"(1-3) v by blast
    have i1: "fw_inv (fst w1)" by (rule inv_reaches [OF c1 "2.prems"(3)])
    have e1: "join_entries (fst w1) t es" by (rule join_entries_calm [OF reachesD(1) [OF c1] "2.prems"(3,4)])
    show ?thesis
    proof (cases "list_ex (join_entry_pending (fst w1)) es")
      case False
      then obtain s where f: "filc_async_complete t 0 (fst w1) = Inr s" "w' = (set_runtime_data t 0 s, snd w1)"
        using r by (simp only: if_True not_False_eq_True) (auto simp del: split_paired_Ex)
      note j = join_complete_calm [OF i1 e1 False f(1), of shr B T 0]
      have "reaches shr B T I w1 w'" unfolding f(2) using own_reaches [OF reachesD(2) [OF c1] i1] j by blast
      with reaches_trans [OF c1] j show ?thesis by (simp add: f(2))
    next
      case pend: True
      show ?thesis
      proof (cases "mode = POLL_BLOCK")
        case False
        then have "d = (task_state (fst w1) t \<noteq> 1)" "w' = w1" using r pend by auto
        then show ?thesis using c1 by simp
      next
        case block: True
        then obtain k where k: "n = Suc k" "join_loop k E' t es mode (rt_changed E' w1) = Inr (d, w')"
          using r pend by (cases n) simp_all
        have c2: "reaches shr B T I w1 (rt_changed E' w1)"
          using changed_reaches [OF reachesD(2) [OF c1] i1] "2.prems"(1) by simp
        have i2: "fw_inv (fst (rt_changed E' w1))" by (rule inv_reaches [OF c2 i1])
        have e2: "join_entries (fst (rt_changed E' w1)) t es" by (rule join_entries_calm [OF reachesD(1) [OF c2] i1 e1])
        have "reaches shr B T I (rt_changed E' w1) w' \<and> (d \<longrightarrow> task_state (fst w') t \<noteq> 1)"
        proof (rule "2.IH"(2))
          show "\<not> task_state (fst w) t \<noteq> 1" by (rule False)
          show "\<not> \<not> list_ex (join_entry_pending (fst w1)) es" using pend by simp
          show "\<not> mode \<noteq> POLL_BLOCK" using block by simp
        qed (fact k(1) "2.prems"(1) reachesD(2) [OF c2] i2 e2 k(2))+
        with reaches_trans [OF reaches_trans [OF c1 c2]] show ?thesis by blast
      qed
    qed
  qed
next
  case (3 n E' mode w)
  then show ?case by (simp add: reaches_refl)
next
  case (4 n E' e es mode w)
  let ?owner = "mk_owner (marks (mk (fst w)) (je_mark e))"
  show ?case
  proof (cases "\<not> join_entry_pending (fst w) e \<or> ?owner = 0")
    case True
    then show ?thesis using "4.IH"(1) [OF refl True] "4.prems" by (simp add: Let_def split: if_splits)
  next
    case False
    then obtain x w1 where p: "poll_task n E' ?owner (if mode = POLL_CHECK then POLL_CHECK else POLL_PROGRESS) w = Inr (x, w1)"
      and v: "join_visit n E' es mode w1 = Inr w'"
      using "4.prems"(4) by (auto simp: Let_def split: if_splits)
    have c1: "reaches shr B T I w w1"
      using "4.IH"(2) [OF refl False] "4.prems"(1-3) p by blast
    have "reaches shr B T I w1 w'"
      using "4.IH"(3) [OF refl False] "4.prems"(1) reachesD(2) [OF c1] inv_reaches [OF c1 "4.prems"(3)] v by auto
    with c1 show ?thesis by (rule reaches_trans)
  qed
qed

lemmas poll_calm = poll_calm_aux(1) [OF refl] and join_calm = poll_calm_aux(2) [OF refl]

lemma wait_for_calm:
  assumes "I w" and "fw_inv (fst w)" and "wait_for n E t w = Inr w'"
  shows "reaches shr B T I w w' \<and> task_state (fst w') t \<noteq> 1"
  using assms
proof (induction n arbitrary: w)
  case 0
  then show ?case by (simp add: wait_for.simps reaches_refl split: if_splits)
next
  case (Suc k)
  show ?case
  proof (cases "task_state (fst w) t \<noteq> 1")
    case True
    with Suc.prems show ?thesis by (simp add: wait_for.simps reaches_refl)
  next
    case False
    then obtain d w1 where p: "poll_task k E t POLL_BLOCK w = Inr (d, w1)"
      and r: "wait_for k E t (if \<not> d \<and> task_state (fst w1) t = 1 then rt_changed E w1 else w1) = Inr w'"
      using Suc.prems(3) by (subst (asm) wait_for.simps) (auto simp del: split_paired_Ex)
    let ?w2 = "if \<not> d \<and> task_state (fst w1) t = 1 then rt_changed E w1 else w1"
    have c1: "reaches shr B T I w w1" by (rule poll_calm [OF Suc.prems(1,2) p])
    have "reaches shr B T I w1 ?w2"
      using changed_reaches [OF reachesD(2) [OF c1] inv_reaches [OF c1 Suc.prems(2)]]
        reaches_refl [of I w1, OF reachesD(2) [OF c1]] by simp
    with c1 have c: "reaches shr B T I w ?w2" by (rule reaches_trans)
    from Suc.IH [OF reachesD(2) [OF c] inv_reaches [OF c Suc.prems(2)] r] reaches_trans [OF c]
    show ?thesis by blast
  qed
qed

lemma mark_clear_calm:
  assumes "buf \<in> B" and "I w" and "fw_inv (fst w)" and "points_into (fst w) buf"
    and "mark_clear n E active t buf w = Inr w'"
  shows "reaches shr B T I w w' \<and>
    mark_find_other active (mk (fst w')) (zlower buf) (zupper buf) t = None"
  using assms(2-5)
proof (induction n arbitrary: w)
  case 0
  then show ?case by (simp add: mark_clear.simps reaches_refl split: option.splits)
next
  case (Suc k)
  show ?case
  proof (cases "mark_find_other active (mk (fst w)) (zlower buf) (zupper buf) t")
    case None
    with Suc.prems show ?thesis by (simp add: mark_clear.simps reaches_refl)
  next
    case (Some m)
    let ?o = "mk_owner (marks (mk (fst w)) m)"
    let ?bump = "\<lambda>s. s\<lparr>g_pending_resolves := g_pending_resolves s + 1\<rparr>"
    obtain w1 where p: "(if ?o \<noteq> 0 then wait_for k E ?o w
        else Inr (upd_fw (\<lambda>s. s\<lparr>mk := mark_remove m (mk s)\<rparr>) w)) = Inr w1"
      and r: "mark_clear k E active t buf (upd_fw ?bump w1) = Inr w'"
      using Suc.prems(4) Some by (subst (asm) mark_clear.simps) (auto simp: Let_def simp del: split_paired_Ex)
    have c1: "reaches shr B T I w w1"
    proof (cases "?o = 0")
      case True
      have live: "mark_live (mk (fst w)) m" by (rule mark_find_other_live [OF Suc.prems(2,3) Some])
      note r = mark_remove_spec [OF fw_invD(3) [OF Suc.prems(2)] live]
      have rem: "marks_kept T (fst w) ((fst w)\<lparr>mk := mark_remove m (mk (fst w))\<rparr>)"
        by (rule marks_kept_less [where m = m]) (use r(2,3) True in simp_all)
      have "calm_step shr B T (fst w) ((fst w)\<lparr>mk := mark_remove m (mk (fst w))\<rparr>)"
        using fw_step.drop [OF live] rem by (simp add: calm_step_def kept_step_def points_into_def)
      then have "reaches shr B T I w ((fst w)\<lparr>mk := mark_remove m (mk (fst w))\<rparr>, snd w)"
        by (intro own_reaches [OF Suc.prems(1,2)] r_into_rtranclp) (simp_all add: own_step_same)
      then show ?thesis using p True by simp
    next
      case False
      then show ?thesis using p wait_for_calm [OF Suc.prems(1,2)] by auto
    qed
    have "reaches shr B T I w1 (?bump (fst w1), snd w1)"
      by (rule own_reaches [OF reachesD(2) [OF c1] inv_reaches [OF c1 Suc.prems(2)] counters_calm(1)])
        (simp add: own_step_same)
    with c1 have c: "reaches shr B T I w (upd_fw ?bump w1)" by (rule reaches_trans)
    from Suc.IH [OF reachesD(2) [OF c] inv_reaches [OF c Suc.prems(2)]
        calm_points [OF reachesD(1) [OF c] assms(1) Suc.prems(3)] r] reaches_trans [OF c]
    show ?thesis by blast
  qed
qed

lemma wait_owners_calm:
  assumes "I w" and "fw_inv (fst w)" and "wait_owners n E buf P w = Inr w'"
  shows "reaches shr B T I w w' \<and> owner_find (mk (fst w')) buf P = None"
  using assms
proof (induction n arbitrary: w)
  case 0
  then show ?case by (simp add: wait_owners.simps reaches_refl split: option.splits)
next
  case (Suc k)
  show ?case
  proof (cases "owner_find (mk (fst w)) buf P")
    case None
    with Suc.prems show ?thesis by (simp add: wait_owners.simps reaches_refl)
  next
    case (Some u)
    then obtain w1 where p: "wait_for k E u w = Inr w1" and r: "wait_owners k E buf P w1 = Inr w'"
      using Suc.prems(3) by (subst (asm) wait_owners.simps) (auto simp del: split_paired_Ex)
    have c: "reaches shr B T I w w1" using wait_for_calm [OF Suc.prems(1,2) p] by blast
    from Suc.IH [OF reachesD(2) [OF c] inv_reaches [OF c Suc.prems(2)] r] reaches_trans [OF c]
    show ?thesis by blast
  qed
qed

lemma lock_wait_calm:
  assumes "I w" and "fw_inv (fst w)" and "lock_wait n E h waited w = Inr w'"
  shows "reaches shr B T I w w' \<and> \<not> lock_blocked (lk (fst w')) h"
  using assms
proof (induction n arbitrary: w waited)
  case 0
  then show ?case by (simp add: lock_wait.simps reaches_refl split: if_splits)
next
  case (Suc k)
  show ?case
  proof (cases "lock_blocked (lk (fst w)) h")
    case False
    with Suc.prems show ?thesis by (simp add: lock_wait.simps reaches_refl)
  next
    case True
    define w1 where "w1 = (if waited then w else upd_fw (\<lambda>s. s\<lparr>g_lock_waits := g_lock_waits s + 1\<rparr>) w)"
    obtain w2 where p: "(case lock_holder (lk (fst w)) h of
                     Some holder \<Rightarrow> wait_for k E holder w1 | None \<Rightarrow> Inr (rt_changed E w1)) = Inr w2"
      and r: "lock_wait k E h True w2 = Inr w'"
      using Suc.prems(3) True unfolding w1_def
      by (subst (asm) lock_wait.simps) (auto simp: Let_def simp del: split_paired_Ex)
    have "reaches shr B T I w (upd_fw (\<lambda>s. s\<lparr>g_lock_waits := g_lock_waits s + 1\<rparr>) w)"
      by (rule own_reaches [OF Suc.prems(1,2) counters_calm(2)]) (simp add: own_step_same)
    then have c1: "reaches shr B T I w w1" using reaches_refl [of I w, OF Suc.prems(1)] by (simp add: w1_def)
    note i1 = reachesD(2) [OF c1] inv_reaches [OF c1 Suc.prems(2)]
    have "reaches shr B T I w1 w2"
    proof (cases "lock_holder (lk (fst w)) h")
      case None
      then show ?thesis using p changed_reaches [OF i1] by simp
    next
      case (Some u)
      then show ?thesis using p wait_for_calm [OF i1] by auto
    qed
    with c1 have c: "reaches shr B T I w w2" by (rule reaches_trans)
    from Suc.IH [OF reachesD(2) [OF c] inv_reaches [OF c Suc.prems(2)] r] reaches_trans [OF c]
    show ?thesis by blast
  qed
qed

end

section \<open>What the waiting entry points achieve\<close>

lemma mark_own_owner:
  assumes inv: "fw_inv s" and buf: "points_into s buf" and run: "is_running (tk s) t" and t0: "t \<noteq> 0"
    and own: "mark_own t buf s = Inr s'" and x: "mark_live (mk s') x" "mk_lower (marks (mk s') x) = zlower buf"
  shows "mk_owner (marks (mk s') x) = t \<and> mk_write (marks (mk s') x) \<or>
    mark_live (mk s) x \<and> marks (mk s') x = marks (mk s) x \<and> mk_owner (marks (mk s) x) \<noteq> t"
proof -
  note mi = mark_invD [OF fw_invD(3) [OF inv]]
  show ?thesis
    using own
  proof (cases rule: mark_own_cases)
    case (again m)
    have m: "mark_live (mk s) m" "mk_lower (marks (mk s) m) = zlower buf" "mk_owner (marks (mk s) m) = t"
      using mark_owned_Some [OF mi(2) again(2)] by auto
    note w = mark_make_write_spec [OF fw_invD(3) [OF inv] m(1)]
    have x': "mark_live (mk s) x" using x(1) by (simp add: again(3) w(2))
    show ?thesis
    proof (cases "x = m")
      case True
      then show ?thesis using m by (simp add: again(3) w(3))
    next
      case False
      have "mk_owner (marks (mk s) x) \<noteq> t"
        using mi(7) [unfolded one_mark_each_def, rule_format, of x m] x' m x(2) False t0
        by (auto simp: again(3) w(3))
      then show ?thesis using False x' by (simp add: again(3) w(3))
    qed
  next
    case (new M)
    show ?thesis
    proof (rule mark_add_inv [OF inv buf disjI2 [OF run] new(1,2)])
      fix m assume p: "\<And>x. mark_live M x = (mark_live (mk s) x \<or> x = m)"
        "\<And>x. x \<noteq> m \<Longrightarrow> marks M x = marks (mk s) x"
        "marks M m = \<lparr>mk_buf = buf, mk_lower = zlower buf, mk_upper = zupper buf,
           mk_generation = mk_generation (marks (mk s) m) + 1, mk_owner = t, mk_write = True\<rparr>"
      show ?thesis
      proof (cases "x = m")
        case True
        then show ?thesis by (simp add: new(3) p(3))
      next
        case False
        then have "mark_live (mk s) x" "marks M x = marks (mk s) x" using x(1) p(1,2) by (auto simp: new(3))
        moreover have "mk_owner (marks (mk s) x) \<noteq> t"
          using mark_owned_None [OF mi(2)] new(1) [OF t0] calculation x(2) by (simp add: new(3))
        ultimately show ?thesis by (simp add: new(3))
      qed
    qed
  qed
qed

lemma mark_own_marks:
  assumes inv: "fw_inv s" and buf: "points_into s buf" and run: "is_running (tk s) t"
    and own: "mark_own t buf s = Inr s'"
  shows "written (mk s') (zlower buf)"
  using own
proof (cases rule: mark_own_cases)
  case (again m)
  note mi = mark_invD [OF fw_invD(3) [OF inv]]
  have m: "mark_live (mk s) m" "mk_lower (marks (mk s) m) = zlower buf"
    using mark_owned_Some [OF mi(2) again(2)] by auto
  note w = mark_make_write_spec [OF fw_invD(3) [OF inv] m(1)]
  show ?thesis unfolding written_def using m by (intro exI [of _ m]) (simp add: again(3) w(2,3))
next
  case (new M)
  show ?thesis
  proof (rule mark_add_inv [OF inv buf disjI2 [OF run] new(1,2)])
    fix m assume p: "\<And>x. mark_live M x = (mark_live (mk s) x \<or> x = m)"
      "marks M m = \<lparr>mk_buf = buf, mk_lower = zlower buf, mk_upper = zupper buf,
         mk_generation = mk_generation (marks (mk s) m) + 1, mk_owner = t, mk_write = True\<rparr>"
    show ?thesis unfolding written_def by (intro exI [of _ m]) (simp add: new(3) p)
  qed
qed

context runtime_contract begin

lemma mark_pending_spec:
  assumes inv: "I w" "fw_inv (fst w)" and buf: "points_into (fst w) buf" "buf \<in> B"
    and t: "t \<in> T" "is_running (tk (fst w)) t" "t_runtime (tasks (tk (fst w)) t) = Linked a"
    and call: "filc_async_mark_pending n E th t buf w = Inr w'"
  shows "reaches shr B T I w w' \<and> written (mk (fst w')) (zlower buf) \<and>
    (\<forall>m. mark_live (mk (fst w')) m \<and> mk_lower (marks (mk (fst w')) m) = zlower buf \<longrightarrow>
       mk_owner (marks (mk (fst w')) m) = t \<and> mk_write (marks (mk (fst w')) m) \<or>
       \<not> mk_write (marks (mk (fst w')) m) \<and> mk_owner (marks (mk (fst w')) m) \<in> set (g_active th))"
proof -
  have "zaddr buf \<noteq> 0" using buf(1) by (simp add: points_into_def)
  then obtain w1 s' where m: "mark_clear n E (g_active th) t buf w = Inr w1"
    and o: "mark_own t buf (fst w1) = Inr s'" and w': "w' = (s', snd w1)"
    using call by (auto simp: filc_async_mark_pending_def simp del: split_paired_Ex)
  note c = mark_clear_calm [OF buf(2) inv buf(1) m]
  note c1 = conjunct1 [OF c] and c2 = conjunct2 [OF c]
  have i1: "fw_inv (fst w1)" by (rule inv_reaches [OF c1 inv(2)])
  have b1: "points_into (fst w1) buf" by (rule calm_points [OF reachesD(1) [OF c1] buf(2,1)])
  have r1: "is_running (tk (fst w1)) t" using calm_task [OF reachesD(1) [OF c1] inv(2) t] by blast
  have t0: "t \<noteq> 0" using running_nonnull task_invD(2) [OF fw_invD(1) [OF inv(2)]] t(2) by blast
  have "fw_step shr (fst w1) s'" using r1 by (intro fw_step.own [OF _ b1 c2 o]) simp
  moreover have e: "tk s' = tk (fst w1)" "lk s' = lk (fst w1)" "heap s' = heap (fst w1)"
    by (subst mark_own_only [OF o], simp)+
  moreover have "marks_kept T (fst w1) s'" by (rule mark_own_kept(1) [OF i1 b1 r1 o])
  ultimately have "calm_step shr B T (fst w1) s'" by (simp add: calm_step_def kept_step_def points_into_def)
  then have "reaches shr B T I w1 w'"
    unfolding w' by (intro own_reaches [OF reachesD(2) [OF c1] i1] r_into_rtranclp own_step_same e)
  with c1 have "reaches shr B T I w w'" by (rule reaches_trans)
  moreover have "mk_owner (marks (mk s') m) = t \<and> mk_write (marks (mk s') m) \<or>
       \<not> mk_write (marks (mk s') m) \<and> mk_owner (marks (mk s') m) \<in> set (g_active th)"
    if x: "mark_live (mk s') m" "mk_lower (marks (mk s') m) = zlower buf" for m
  proof -
    note mi = mark_invD [OF fw_invD(3) [OF i1]]
    have hp: "heap (fst w1) (zlower buf) = Some (zupper buf)" using b1 by (simp add: points_into_def)
    show ?thesis
      using mark_own_owner [OF i1 b1 r1 t0 o x] mark_find_other_None [OF mi(1-3) hp] c2 x(2) by metis
  qed
  ultimately show ?thesis using mark_own_marks [OF i1 b1 r1 o] by (simp add: w')
qed

lemma lock_take_spec:
  assumes inv: "I w" "fw_inv (fst w)"
    and t: "t \<in> T" "is_running (tk (fst w)) t" "t_runtime (tasks (tk (fst w)) t) = Linked a"
    and call: "lock_take n E t v sp mode w = Inr w'"
  shows "I w' \<and> (kept_step shr B T)\<^sup>*\<^sup>* (fst w) (fst w') \<and>
    (\<exists>h. held (lk (fst w')) h \<and> hd_task (holds (lk (fst w')) h) = t \<and>
         hd_write (holds (lk (fst w')) h) = (mode = FILC_ASYNC_DEP_WRITE) \<and>
         hold_key (lk (fst w')) h = (v, sp))"
proof -
  obtain h L w1 where enq: "lock_enqueue t v sp (mode = FILC_ASYNC_DEP_WRITE) (lk (fst w)) = Inr (h, L)"
    and lw: "lock_wait n E h False (upd_fw (\<lambda>s. s\<lparr>lk := L\<rparr>) w) = Inr w1"
    and w': "w' = upd_fw (\<lambda>s. s\<lparr>lk := lock_grant h (lk s)\<rparr>) w1"
    using call by (auto simp: lock_take_def simp del: split_paired_Ex)
  let ?w0 = "((fst w)\<lparr>lk := L\<rparr>, snd w)"
  have nj: "\<not> is_join (fst w) t" using t(3) by (simp add: is_join_def)
  have st0: "fw_step shr (fst w) ((fst w)\<lparr>lk := L\<rparr>)" by (rule fw_step.enqueue [OF t(2) nj enq])
  note li = fw_invD(2) [OF inv(2)]
  note e = lock_enqueue_spec [OF lock_invD(1) [OF li] enq]
  have ne: "x \<noteq> h" if "waiting (lk (fst w)) x" for x
    using waiting_not_answer [OF lock_invD(1) [OF li] that] lock_enqueue_answer [OF lock_invD(1) [OF li] enq] by auto
  have old: "waiting L x \<and> holds L x = holds (lk (fst w)) x" if "waiting (lk (fst w)) x" for x
    using lock_enqueue_waiting [OF lock_invD(1) [OF li] enq ne [OF that]] that e(7) [OF ne [OF that]] by blast
  have new: "x = h \<or> waiting (lk (fst w)) x" if "waiting L x" for x
    using lock_enqueue_waiting [OF lock_invD(1) [OF li] enq] that by blast
  have c0: "reaches shr B T I w ?w0"
  proof (rule own_reaches [OF inv], rule r_into_rtranclp)
    show "calm_step shr B T (fst w) ((fst w)\<lparr>lk := L\<rparr>)"
      using st0 old by (simp add: calm_step_def kept_step_def marks_kept_same points_into_def)
    show "own_step T (fst w) ((fst w)\<lparr>lk := L\<rparr>)"
      unfolding own_step_def using new old e(3) t(1) by auto
  qed
  note i0 = reachesD(2) [OF c0] inv_reaches [OF c0 inv(2)]
  note c = lock_wait_calm [OF i0 lw]
  note c1 = conjunct1 [OF c]
  note i1 = reachesD(2) [OF c1] inv_reaches [OF c1 i0(2)]
  have hT: "hd_task (holds L h) \<in> T" using e(3) t(1) by simp
  have k: "waiting (lk (fst w1)) h \<and> holds (lk (fst w1)) h = holds L h \<and>
      hold_key (lk (fst w1)) h = hold_key L h"
    using calm_request [OF reachesD(1) [OF c1] i0(2)] hT e(2) by simp
  let ?s = "(fst w1)\<lparr>lk := lock_grant h (lk (fst w1))\<rparr>"
  have st1: "kept_step shr B T (fst w1) ?s"
    using fw_step.grant [OF conjunct1 [OF k] conjunct2 [OF c]] by (simp add: kept_step_def marks_kept_same points_into_def)
  have "own_step T (fst w1) ?s"
    using lock_grant_waiting [OF lock_invD(1) [OF fw_invD(2) [OF i1(2)]] conjunct1 [OF k]]
    by (auto simp: own_step_def)
  then have "I w'" using own_kept [OF i1] w' by simp
  moreover have "(kept_step shr B T)\<^sup>*\<^sup>* (fst w) (fst w')"
    using calm_kept [OF reachesD(1) [OF reaches_trans [OF c0 c1]]] st1 by (simp add: w')
  moreover have "held (lk (fst w')) h"
    using lock_grant_held [OF conjunct1 [OF k]] by (simp add: w')
  moreover have "holds (lk (fst w')) h = holds L h" "hold_key (lk (fst w')) h = hold_key L h"
    using k by (auto simp: w' hold_key_def)
  moreover have "hold_key L h = (v, sp)" by (simp add: hold_key_def e(5,6))
  ultimately show ?thesis
    using e(3,4) by (intro conjI exI [of _ h]) simp_all
qed

end

section \<open>Waiting ends\<close>

text \<open>The marks on an object, which a wait uses up.\<close>

definition object_marks :: "fw \<Rightarrow> zptr \<Rightarrow> addr set" where
  "object_marks s buf = {m. mark_live (mk s) m \<and> mk_lower (marks (mk s) m) = zlower buf}"

text \<open>
  A runtime that keeps the contract of \<open>FILC_ASYNC_POLL_BLOCK\<close>, to return only once the
  task has completed, for the tasks that own a mark on \<open>buf\<close> with \<open>P\<close>, in the worlds \<open>Q\<close>,
  while nobody marks anything new.
\<close>

definition prompt :: "('r world \<Rightarrow> bool) \<Rightarrow> zptr \<Rightarrow> (filc_async_mark \<Rightarrow> bool) \<Rightarrow> 'r env \<Rightarrow> bool" where
  "prompt Q buf P E \<longleftrightarrow> (\<forall>m t a w. Q w \<longrightarrow> m \<in> object_marks (fst w) buf \<longrightarrow> P (marks (mk (fst w)) m) \<longrightarrow> mk_owner (marks (mk (fst w)) m) = t \<longrightarrow>
     is_running (tk (fst w)) t \<longrightarrow> t_runtime (tasks (tk (fst w)) t) = Linked a \<longrightarrow>
     (\<exists>w'. rt_poll E (Linked a) t POLL_BLOCK w = Inr (True, w') \<and> Q w' \<and>
        task_state (fst w') t \<noteq> 1 \<and>
        (\<forall>m. mark_live (mk (fst w')) m \<longrightarrow>
           mark_live (mk (fst w)) m \<and> marks (mk (fst w')) m = marks (mk (fst w)) m)))"

lemma wait_for_prompt:
  assumes p: "prompt Q buf P E" and q: "Q w" "m \<in> object_marks (fst w) buf" "P (marks (mk (fst w)) m)" "mk_owner (marks (mk (fst w)) m) = t"
    "is_running (tk (fst w)) t" "t_runtime (tasks (tk (fst w)) t) = Linked a"
  obtains w' where "wait_for (Suc n) E t w = Inr w'" "Q w'" "\<not> is_running (tk (fst w')) t"
    "\<And>m. mark_live (mk (fst w')) m \<Longrightarrow>
       mark_live (mk (fst w)) m \<and> marks (mk (fst w')) m = marks (mk (fst w)) m"
proof -
  obtain w' where w': "rt_poll E (Linked a) t POLL_BLOCK w = Inr (True, w')" "Q w'"
    "task_state (fst w') t \<noteq> 1"
    "\<And>m. mark_live (mk (fst w')) m \<Longrightarrow> mark_live (mk (fst w)) m \<and> marks (mk (fst w')) m = marks (mk (fst w)) m"
    using p q unfolding prompt_def by blast
  have st: "task_state (fst w) t = 1" using q(5) by (simp add: is_running_def task_state_def)
  have "poll_task n E t POLL_BLOCK w = Inr (True, w')"
    using w'(1) q(6) by (simp add: poll_task.simps)
  then have "wait_for (Suc n) E t w = Inr w'"
    using st w'(3) by (simp add: wait_for.simps [of "Suc n"] wait_for.simps [of n])
  with that w' show thesis by (simp add: is_running_def task_state_def)
qed

definition owners_linked :: "fw \<Rightarrow> zptr \<Rightarrow> (filc_async_mark \<Rightarrow> bool) \<Rightarrow> bool" where
  "owners_linked s buf P \<longleftrightarrow> (\<forall>m\<in>object_marks s buf. mk_owner (marks (mk s) m) \<noteq> 0 \<and> P (marks (mk s) m) \<longrightarrow>
     (\<exists>a. t_runtime (tasks (tk s) (mk_owner (marks (mk s) m))) = Linked a))"

lemma wait_owners_returns:
  assumes p: "prompt Q buf P0 E"
    and Q: "\<And>w. Q w \<Longrightarrow> fw_inv (fst w) \<and> points_into (fst w) buf \<and> owners_linked (fst w) buf P0"
    and P: "\<And>k. P k \<Longrightarrow> P0 k"
    and "Q w" and "card (object_marks (fst w) buf) < n"
  shows "\<exists>w'. wait_owners n E buf P w = Inr w'"
  using assms(4,5)
proof (induction n arbitrary: w)
  case (Suc k)
  note q = Q [OF Suc.prems(1)]
  have inv: "fw_inv (fst w)" and buf: "points_into (fst w) buf" and own: "owners_linked (fst w) buf P0"
    using q by blast+
  show ?case
  proof (cases "owner_find (mk (fst w)) buf P")
    case None
    then show ?thesis by (simp add: wait_owners.simps)
  next
    case (Some u)
    note mi = mark_invD [OF fw_invD(3) [OF inv]]
    have hp: "heap (fst w) (zlower buf) = Some (zupper buf)" using buf by (simp add: points_into_def)
    obtain m where m: "m \<in> object_marks (fst w) buf" "mk_owner (marks (mk (fst w)) m) = u" "u \<noteq> 0"
      "P (marks (mk (fst w)) m)"
      using Some mark_chain_object [OF mi(1-3) hp]
      by (auto simp: owner_find_def object_marks_def dest!: find_Some_mem)
    have run: "is_running (tk (fst w)) u"
      using m fw_invD(4) [OF inv] by (auto simp: owners_running_def object_marks_def)
    obtain a where a: "t_runtime (tasks (tk (fst w)) u) = Linked a"
      using own m P unfolding owners_linked_def by blast
    have "card (object_marks (fst w) buf) \<noteq> 0" using m(1) by auto
    then obtain k' where k': "k = Suc k'" using Suc.prems(2) by (cases k) auto
    obtain w1 where w1: "wait_for k E u w = Inr w1" "Q w1" "\<not> is_running (tk (fst w1)) u"
      "\<And>x. mark_live (mk (fst w1)) x \<Longrightarrow> mark_live (mk (fst w)) x \<and> marks (mk (fst w1)) x = marks (mk (fst w)) x"
      using wait_for_prompt [OF p Suc.prems(1) m(1) P [OF m(4)] m(2) run a] unfolding k' by metis
    have "m \<notin> object_marks (fst w1) buf"
    proof
      assume "m \<in> object_marks (fst w1) buf"
      then have l: "mark_live (mk (fst w1)) m" by (simp add: object_marks_def)
      then have "mk_owner (marks (mk (fst w1)) m) = u" using w1(4) m(2) by simp
      then show False using fw_invD(4) [OF conjunct1 [OF Q [OF w1(2)]]] l m(3) w1(3)
        by (auto simp: owners_running_def)
    qed
    moreover have "object_marks (fst w1) buf \<subseteq> object_marks (fst w) buf"
      using w1(4) by (auto simp: object_marks_def)
    ultimately have "card (object_marks (fst w1) buf) < card (object_marks (fst w) buf)"
      using m(1) by (intro psubset_card_mono) auto
    then have "card (object_marks (fst w1) buf) < k" using Suc.prems(2) by linarith
    from Suc.IH [OF w1(2) this] show ?thesis
      using Some w1(1) by (simp add: wait_owners.simps [of "Suc k"])
  qed
qed simp

end
