(* ===== verification/FrameworkRuns.thy ===== *)
theory FrameworkRuns
  imports Steps
begin

text \<open>
  The properties of the framework that hold in every reachable state, for every
  interleaving of the atomic sections, and a concrete run that shows their hypotheses can
  hold.
\<close>

section \<open>What holds in every reachable state\<close>

text \<open>C1. The header flag the compiler's inline check tests is exact: in every reachable state
  an object's pending flag is set exactly when some call produces it, or some call reads
  it and the program could store into it.\<close>

theorem pending_flag_exact:
  assumes "fw_reach shr s"
  shows "h_pending (headers (mk s) l) \<longleftrightarrow>
    (\<exists>m. mark_live (mk s) m \<and> mk_lower (marks (mk s) m) = l \<and>
         (mk_write (marks (mk s) m) \<or> \<not> h_readonly (headers (mk s) l)))"
  using mark_invD(6) [OF fw_invD(3) [OF fw_reach_inv [OF assms]]]
  by (auto simp: flags_ok_def written_def marked_def)

text \<open>\<open>filc_async_is_pending\<close> answers whether some call is still producing the object, and
  an object it reports has its header flag set.\<close>

theorem is_pending_exact:
  assumes "fw_reach shr s" and "points_into s buf"
  shows "(filc_async_is_pending buf s \<longleftrightarrow>
    (\<exists>m. mark_live (mk s) m \<and> mk_lower (marks (mk s) m) = zlower buf \<and> mk_write (marks (mk s) m))) \<and>
    (filc_async_is_pending buf s \<longrightarrow> h_pending (headers (mk s) (zlower buf)))"
proof
  note i = mark_invD [OF fw_invD(3) [OF fw_reach_inv [OF assms(1)]]]
  have hp: "heap s (zlower buf) = Some (zupper buf)" "zaddr buf \<noteq> 0"
    using assms(2) by (simp_all add: points_into_def)
  show e: "filc_async_is_pending buf s \<longleftrightarrow>
    (\<exists>m. mark_live (mk s) m \<and> mk_lower (marks (mk s) m) = zlower buf \<and> mk_write (marks (mk s) m))"
    using writer_find_None [OF i(1-3) hp(1)] hp(2) by (auto simp: filc_async_is_pending_def written_def)
  show "filc_async_is_pending buf s \<longrightarrow> h_pending (headers (mk s) (zlower buf))"
    unfolding e using i(6) by (auto simp: flags_ok_def written_def)
qed

text \<open>C3. A task that has completed owns nothing, in every reachable state: no pending mark and
  no dependency lock, granted or requested, names it, and it is not on the running list.\<close>

theorem completed_owns_nothing:
  assumes "fw_reach shr s" and "t \<noteq> 0" and "task_state s t \<noteq> 1"
  shows "(\<nexists>m. mark_live (mk s) m \<and> mk_owner (marks (mk s) m) = t) \<and>
    (\<nexists>h. (held (lk s) h \<or> waiting (lk s) h) \<and> hd_task (holds (lk s) h) = t) \<and>
    (\<exists>ts. dll_repr (running (tk s)) ts \<and> t \<notin> set ts)"
proof -
  note inv = fw_reach_inv [OF assms(1)]
  have idle: "\<not> is_running (tk s) t" using assms(3) by (simp add: is_running_def task_state_def)
  have "\<exists>ts. dll_repr (running (tk s)) ts \<and> t \<notin> set ts"
    using task_invD(2) [OF fw_invD(1) [OF inv]] idle by (auto simp: running_ok_def)
  then show ?thesis using idle_owns_nothing(3,4) [OF inv idle] assms(2) by blast
qed

text \<open>C4. \<open>filc_async_complete\<close> on a running task always returns: it records the result and the
  state, releases exactly the marks and locks of that task, takes it off the running list,
  and completing it again changes nothing.\<close>

theorem complete_releases:
  assumes "fw_reach shr s" and "task_state s t = 1" and "no_request s t"
  shows "\<exists>s'. filc_async_complete t r s = Inr s' \<and>
    t_result (tasks (tk s') t) = r \<and> task_state s' t = (if sint r < 0 then 2 else 0) \<and>
    (\<forall>x. x \<noteq> t \<longrightarrow> tasks (tk s') x = tasks (tk s) x) \<and>
    (\<forall>m. mark_live (mk s') m \<longleftrightarrow> mark_live (mk s) m \<and> mk_owner (marks (mk s) m) \<noteq> t) \<and>
    (\<forall>h. held (lk s') h \<longleftrightarrow> held (lk s) h \<and> hd_task (holds (lk s) h) \<noteq> t) \<and>
    (\<forall>r'. filc_async_complete t r' s' = Inr s')"
proof -
  note inv = fw_reach_inv [OF assms(1)]
  have run: "is_running (tk s) t" using assms(2) by (simp add: is_running_def task_state_def)
  note d = task_done_spec [OF fw_invD(1) [OF inv] run, where result = r]
  show ?thesis
  proof (rule complete_spec [OF inv run assms(3), of r])
    fix s' assume s': "filc_async_complete t r s = Inr s'" "tk s' = task_done t r (tk s)"
      "\<And>x. mark_live (mk s') x = (mark_live (mk s) x \<and> mk_owner (marks (mk s) x) \<noteq> t)"
      "\<And>x. held (lk s') x = (held (lk s) x \<and> hd_task (holds (lk s) x) \<noteq> t)"
    have "filc_async_complete t r' s' = Inr s'" for r'
      by (rule complete_idle) (simp add: s'(2) d(2))
    with s' d(3-5) show ?thesis by (intro exI [of _ s']) (simp add: task_state_def)
  qed
qed

text \<open>After completion the staged argument cells the task was given are cleared and the
  task no longer points at them, so nothing a completed call was given stays reachable.\<close>

theorem complete_drops_args:
  assumes "fw_reach shr s" and "task_state s t = 1" and "no_request s t"
    and "t_meta (tasks (tk s) t) = Some meta" and "t_staged_args (tasks (tk s) t) = a" and "a \<noteq> 0"
    and "length (staged (tk s) a) = unat (m_nargs meta)" and "unat (m_nargs meta) < 2 ^ 28"
    and "filc_async_complete t r s = Inr s'"
  shows "t_staged_args (tasks (tk s') t) = 0 \<and>
    staged (tk s') a = replicate (unat (m_nargs meta)) null_ptr"
proof -
  note inv = fw_reach_inv [OF assms(1)]
  have run: "is_running (tk s) t" using assms(2) by (simp add: is_running_def task_state_def)
  have tk': "tk s' = task_done t r (tk s)"
    by (rule complete_spec [OF inv run assms(3), of r]) (use assms(9) in auto)
  have "unat (m_nargs meta * 16) = unat (m_nargs meta) * 16"
    using assms(8) by (simp add: unat_word_ariths)
  then have "staged_clear meta (staged (tk s) a) = replicate (unat (m_nargs meta)) null_ptr"
    using assms(7) by (simp add: staged_clear_def Let_def)
  then show ?thesis
    using task_done_args [OF assms(4), of r] assms(5,6) by (simp add: tk')
qed

text \<open>C5. When no runtime adds shared write marks, an object never has two producers: every
  reachable state has at most one write mark per object.\<close>

theorem single_producer:
  assumes "fw_reach False s"
    and "mark_live (mk s) m" "mk_write (marks (mk s) m)"
    and "mark_live (mk s) m'" "mk_write (marks (mk s) m')"
    and "mk_lower (marks (mk s) m) = mk_lower (marks (mk s) m')"
  shows "m = m'"
  by (rule one_writerD [OF reach_one_writer [OF assms(1)] assms(2,4,3,5,6)])

text \<open>A completion is final: once a call's task has completed, no later step of any thread
  changes its state or its result.\<close>

theorem result_stable:
  assumes "fw_reach shr s" and "(fw_step shr)\<^sup>*\<^sup>* s s'" and "settled s t"
  shows "t_result (tasks (tk s') t) = t_result (tasks (tk s) t) \<and> task_state s' t = task_state s t"
  using fw_steps_later [OF assms(2) fw_reach_inv [OF assms(1)]] assms(3)
  by (simp add: task_later_def settled_def task_state_def)

text \<open>C2. \<open>filc_async_wait_all\<close> joins: when some call is producing an input, the returned token is
  pending, through a write mark owned by a running join task; and whatever happens afterwards,
  once that task is no longer running every write mark its inputs had at the call has been
  resolved, even if the mark's struct was reused for another object since.  Read marks are not
  joined, and the token's own mark may go before its task ends: \<open>filc_async_mark_resolved\<close>
  on the token drops it.\<close>

theorem wait_all_joins:
  assumes "fw_reach shr s" and "filc_async_wait_all bs n s = Inr (token, s')"
    and "p \<in> set (take (unat n) (the bs))" and "zaddr p \<noteq> 0"
    and "mark_live (mk s) m" and "mk_lower (marks (mk s) m) = zlower p" and "mk_write (marks (mk s) m)"
    and "(fw_step shr)\<^sup>*\<^sup>* s' s''"
  shows "h_pending (headers (mk s') (zlower token)) \<and>
    (\<exists>k. mark_live (mk s') k \<and> mk_lower (marks (mk s') k) = zlower token \<and>
    mk_write (marks (mk s') k) \<and> task_state s' (mk_owner (marks (mk s') k)) = 1 \<and>
    (task_state s'' (mk_owner (marks (mk s') k)) \<noteq> 1 \<longrightarrow>
       \<not> mark_live (mk s'') m \<or> mk_generation (marks (mk s) m) < mk_generation (marks (mk s'') m)))"
proof (rule wait_all_join [OF fw_reach_inv [OF assms(1)] assms(2-7)])
  fix t k assume j: "fw_inv s'" "is_join s' t" "\<forall>e\<in>set (join_of s' t). entry_taken (mk s') e"
    "\<lparr>je_mark = m, je_generation = mk_generation (marks (mk s) m)\<rparr> \<in> set (join_of s' t)"
    and k: "mark_live (mk s') k" "mk_lower (marks (mk s') k) = zlower token"
    "mk_owner (marks (mk s') k) = t" "mk_write (marks (mk s') k)"
  have "task_state s' t = 1" using j(2) by (simp add: is_join_def is_running_def task_state_def)
  moreover have "\<not> mark_live (mk s'') m \<or> mk_generation (marks (mk s) m) < mk_generation (marks (mk s'') m)"
    if "task_state s'' t \<noteq> 1"
  proof -
    have "\<not> is_join s'' t" using that by (simp add: is_join_def is_running_def task_state_def)
    then have "entry_gone (mk s'') \<lparr>je_mark = m, je_generation = mk_generation (marks (mk s) m)\<rparr>"
      using join_run [OF assms(8) j(1-3)] j(4) by blast
    then show ?thesis by (auto simp: entry_gone_def)
  qed
  moreover have "h_pending (headers (mk s') (zlower token))"
    using mark_invD(6) [OF fw_invD(3) [OF j(1)]] k by (auto simp: flags_ok_def written_def)
  ultimately show ?thesis using k by blast
qed

text \<open>The counters are exact, up to their wrap-around: the annotated calls submitted are
  those completed and those still running.\<close>

theorem counters_exact:
  assumes "fw_reach shr s"
  shows "g_submitted (tk s) =
    g_completed (tk s) + of_nat (card {t. task_state s t = 1 \<and> t_meta (tasks (tk s) t) \<noteq> None})"
  using task_invD(4) [OF fw_invD(1) [OF fw_reach_inv [OF assms]]]
  by (simp add: counts_ok_def unfinished_def is_running_def task_state_def)

text \<open>Handles are found without a walk and never lost: a lookup finds exactly the tasks
  whose completion has not been delivered, through every growth of the table, and a
  delivered task is forgotten.\<close>

theorem handles_exact:
  assumes "fw_reach shr s"
  shows "find_task (tk s) p = (if t_handled (tasks (tk s) p) then Some p else None) \<and>
    find_task (retire_task t (tk s)) p =
      (if p = t \<and> task_state s t \<noteq> 1 then None else find_task (tk s) p)"
proof
  note h = task_invD(1) [OF fw_invD(1) [OF fw_reach_inv [OF assms]]]
  note r = retire_task_spec [OF h, of t]
  show f: "find_task (tk s) p = (if t_handled (tasks (tk s) p) then Some p else None)"
    by (rule find_task_eq [OF h])
  have "t_handled (tasks (retire_task t (tk s)) p) = (p \<in> handled (retire_task t (tk s)))"
    by (simp add: handled_def)
  then show "find_task (retire_task t (tk s)) p =
      (if p = t \<and> task_state s t \<noteq> 1 then None else find_task (tk s) p)"
    unfolding find_task_eq [OF r(1)] f r(2)
    by (auto simp: handled_def is_running_def task_state_def)
qed

section \<open>A run\<close>

datatype fw_op =
    Begin filc_async_meta addr
  | Own addr zptr
  | Input addr zptr
  | Wait_All "zptr list"
  | Complete addr u64
  | Stage addr "zptr list"

fun fw_exec :: "fw_op \<Rightarrow> fw \<Rightarrow> fw outcome" where
  "fw_exec (Begin meta args) s = map_sum id snd (filc_async_begin (Some meta) args s)"
| "fw_exec (Own t buf) s = mark_own t buf s"
| "fw_exec (Input t buf) s = filc_async_mark_input t buf s"
| "fw_exec (Wait_All bs) s = map_sum id snd (filc_async_wait_all (Some bs) (of_nat (length bs)) s)"
| "fw_exec (Complete t r) s = filc_async_complete t r s"
| "fw_exec (Stage a cells) s = Inr (s\<lparr>tk := (tk s)\<lparr>staged := (staged (tk s))(a := cells)\<rparr>\<rparr>)"

fun fw_allowed :: "fw_op \<Rightarrow> fw \<Rightarrow> bool" where
  "fw_allowed (Begin meta args) s = (m_runtime meta \<noteq> Join_Runtime)"
| "fw_allowed (Own t buf) s = (is_running (tk s) t \<and> points_into s buf \<and>
     mark_find_other [] (mk s) (zlower buf) (zupper buf) t = None)"
| "fw_allowed (Input t buf) s = (is_running (tk s) t \<and> points_into s buf)"
| "fw_allowed (Wait_All bs) s = True"
| "fw_allowed (Complete t r) s = (t_runtime (tasks (tk s) t) \<noteq> Join_Runtime \<and>
     g_lock_buckets (lk s) = (\<lambda>_. []))"
| "fw_allowed (Stage a cells) s = True"

fun fw_run :: "fw_op list \<Rightarrow> fw \<Rightarrow> fw outcome" where
  "fw_run [] s = Inr s"
| "fw_run (x # xs) s =
    (if fw_allowed x s then res_bind (fw_exec x s) (fw_run xs) else Inl (Fatal ''not allowed''))"

lemma fw_exec_step:
  assumes "fw_exec x s = Inr s'" and "fw_allowed x s"
  shows "fw_step shr s s'"
proof (cases x)
  case (Begin meta args)
  then obtain t where "filc_async_begin (Some meta) args s = Inr (t, s')"
    using assms(1) by (cases "filc_async_begin (Some meta) args s") auto
  with Begin assms(2) show ?thesis by (auto intro: fw_step.begin_call)
next
  case (Wait_All bs)
  then obtain p where "filc_async_wait_all (Some bs) (of_nat (length bs)) s = Inr (p, s')"
    using assms(1) by (cases "filc_async_wait_all (Some bs) (of_nat (length bs)) s") auto
  then show ?thesis by (rule fw_step.wait_all)
next
  case (Complete t r)
  with assms show ?thesis
    by (intro fw_step.complete [of s t r]) (auto simp: no_request_def waiting_def lock_live_def)
next
  case (Own t buf)
  with assms show ?thesis by (intro fw_step.own [of t s buf "[]"]) auto
next
  case (Input t buf)
  with assms show ?thesis by (intro fw_step.input [of s t buf]) auto
next
  case (Stage a cells)
  with assms fw_step.stage show ?thesis by auto
qed

lemma fw_run_steps: "fw_run xs s = Inr s' \<Longrightarrow> (fw_step shr)\<^sup>*\<^sup>* s s'"
  by (induction xs arbitrary: s)
     (auto dest!: fw_exec_step split: if_splits intro: converse_rtranclp_into_rtranclp)

text \<open>Two calls of a runtime: the first fills the object at \<open>0x1000\<close>, the second reads it; a
  join waits for the object; the first call completes.\<close>

definition demo_meta :: filc_async_meta where
  "demo_meta = \<lparr>m_name = ''read_at'', m_nargs = 2, m_noped_args = 1, m_flags = 0, m_result = 1,
     m_opts = [], m_runtime = Linked 0x9000, m_args = []\<rparr>"

definition demo_buf :: zptr where
  "demo_buf = \<lparr>zaddr = 0x1008, zlower = 0x1000, zupper = 0x1040\<rparr>"

definition demo_gc :: "zptr list" where
  "demo_gc = map (\<lambda>a. \<lparr>zaddr = a, zlower = a, zupper = a + 0x40\<rparr>) [0x5000, 0x5100, 0x5200, 0x5300]"

definition demo_start :: fw where
  "demo_start = fw_start [0x100, 0x200] [0x8000] [] [] [0x300, 0x340, 0x380] demo_gc
     {0x100, 0x200} [0x1000 \<mapsto> 0x1040] (\<lambda>_. False)"

definition demo_ops :: "fw_op list" where
  "demo_ops = [Stage 0x700 [demo_buf, demo_buf], Begin demo_meta 0x700, Own 0x100 demo_buf,
               Begin demo_meta 0, Input 0x200 demo_buf]"

definition demo1 :: fw where "demo1 = projr (fw_run demo_ops demo_start)"

definition demo2 :: fw where "demo2 = projr (fw_run [Complete 0x100 8] demo1)"

lemmas fw_eval = demo_start_def demo_ops_def demo_meta_def demo_buf_def demo_gc_def fw_start_def
  filc_async_begin_def task_begin_def task_start_def handle_add_def handles_grow_def chain_push_def
  upd_task_def running_add_def running_remove_def dll_add_def dll_remove_def dll_empty_def
  alloc_or_die_def task_zero_def mark_own_def mark_owned_def mark_add_def mark_flagged_def
  mark_alloc_def mark_link_def upd_mark_def writer_find_def mark_find_def mark_find_other_def
  mark_bucket_def hash_bits_def MARK_BUCKET_BITS_def overlaps_def zasync_set_pending_def
  filc_async_mark_input_def points_into_def is_running_def null_ptr_def Let_def task_state_def

lemma demo_start_reach: "fw_reach shr demo_start"
  unfolding demo_start_def
  by (rule fw_reach.start)
     (auto simp: start_ok_def count_range_def objects_ok_def demo_gc_def fresh_object_def
        overlaps_def split: if_splits)

lemma demo1_run: "fw_run demo_ops demo_start = Inr demo1"
  unfolding demo1_def by (simp add: fw_eval lock_table_init_def)

lemma demo1_reach: "fw_reach shr demo1"
  by (rule fw_steps_reach [OF fw_run_steps [OF demo1_run] demo_start_reach])

lemma demo1_marks:
  "g_mark_buckets (mk demo1) (mark_bucket 0x1000) = [0x340, 0x300]"
  "marks (mk demo1) 0x300 = \<lparr>mk_buf = demo_buf, mk_lower = 0x1000, mk_upper = 0x1040,
     mk_generation = 1, mk_owner = 0x100, mk_write = True\<rparr>"
  "marks (mk demo1) 0x340 = \<lparr>mk_buf = demo_buf, mk_lower = 0x1000, mk_upper = 0x1040,
     mk_generation = 1, mk_owner = 0x200, mk_write = False\<rparr>"
  "task_marks (mk demo1) 0x100 = [0x300]"
  "g_free_marks (mk demo1) = []" "mark_answers (mk demo1) = [0x380]"
  "heap demo1 = [0x1000 \<mapsto> 0x1040]" "gc_answers demo1 = demo_gc"
  by (simp_all add: demo1_def fw_eval)

lemma demo1_tasks:
  "tasks (tk demo1) 0x100 = \<lparr>t_meta = Some demo_meta, t_runtime = Linked 0x9000, t_staged_args = 0x700,
     t_runtime_data = 0, t_state = 1, t_handled = True, t_result = 0\<rparr>"
  "tasks (tk demo1) 0x200 = \<lparr>t_meta = Some demo_meta, t_runtime = Linked 0x9000, t_staged_args = 0,
     t_runtime_data = 0, t_state = 1, t_handled = True, t_result = 0\<rparr>"
  "staged (tk demo1) 0x700 = [demo_buf, demo_buf]" "g_lock_buckets (lk demo1) = (\<lambda>_. [])"
  "arena demo1 = {0x100, 0x200}" "task_answers (tk demo1) = []"
  by (simp_all add: demo1_def fw_eval lock_table_init_def)

lemma demo1_no_request: "no_request demo1 t"
  by (simp add: no_request_def waiting_def lock_live_def demo1_tasks)

lemma demo1_live: "mark_live (mk demo1) 0x300" "points_into demo1 demo_buf"
  by (simp_all add: mark_live_def demo1_marks points_into_def) (simp_all add: demo_buf_def)

lemma demo2_run: "fw_run [Complete 0x100 8] demo1 = Inr demo2"
proof -
  have "is_running (tk demo1) 0x100" by (simp add: is_running_def demo1_tasks)
  then obtain s' where "filc_async_complete 0x100 8 demo1 = Inr s'"
    using complete_spec [OF fw_reach_inv [OF demo1_reach [of False]] _ demo1_no_request] by metis
  then show ?thesis by (simp add: demo2_def demo1_tasks)
qed

lemma demo2_tasks: "settled demo2 0x100 \<and> t_result (tasks (tk demo2) 0x100) = 8"
proof -
  have run: "is_running (tk demo1) 0x100" by (simp add: is_running_def demo1_tasks)
  note inv = fw_reach_inv [OF demo1_reach [of False]]
  note d = task_done_spec [OF fw_invD(1) [OF inv] run, where result = 8]
  show ?thesis
  proof (rule complete_spec [OF inv run demo1_no_request, of 8])
    fix s' assume s': "filc_async_complete 0x100 8 demo1 = Inr s'" "tk s' = task_done 0x100 8 (tk demo1)"
      "s' = demo1\<lparr>tk := tk s', mk := mk s', lk := lk s'\<rparr>"
    have "demo2 = s'" using s'(1) by (simp add: demo2_def demo1_tasks)
    then show ?thesis
      using d s'(2) by (simp add: settled_def demo1_tasks)
  qed
qed

section \<open>Witnesses\<close>

theorem pending_flag_exact_witness: "h_pending (headers (mk demo1) 0x1000)"
  using pending_flag_exact [OF demo1_reach [of False], of "0x1000"] demo1_live
  by (auto simp: demo1_marks)

theorem is_pending_exact_witness: "filc_async_is_pending demo_buf demo1"
  using is_pending_exact [OF demo1_reach [of False] demo1_live(2)] demo1_live(1)
  by (auto simp: demo1_marks demo_buf_def)

theorem completed_owns_nothing_witness:
  "\<exists>ts. dll_repr (running (tk demo2)) ts \<and> 0x100 \<notin> set ts"
  using completed_owns_nothing
    [OF fw_steps_reach [OF fw_run_steps [OF demo2_run] demo1_reach [of False]], of "0x100"] conjunct1 [OF demo2_tasks]
  by (simp add: settled_def is_running_def task_state_def)

theorem complete_releases_witness:
  "\<exists>s'. filc_async_complete 0x100 8 demo1 = Inr s' \<and> task_state s' 0x100 = 0 \<and> \<not> mark_live (mk s') 0x300"
  using complete_releases [OF demo1_reach [of False], of "0x100" 8] demo1_no_request demo1_live
  by (auto simp: demo1_marks demo1_tasks task_state_def)

theorem complete_drops_args_witness:
  "t_staged_args (tasks (tk demo2) 0x100) = 0 \<and> staged (tk demo2) 0x700 = replicate 2 null_ptr"
  using complete_drops_args [OF demo1_reach [of False], of "0x100" demo_meta "0x700" 8 demo2]
    demo1_no_request demo2_run
  by (simp add: demo1_tasks task_state_def demo_meta_def split: if_splits)

theorem single_producer_witness: "(0x300 :: addr) = 0x300 \<and> mk_write (marks (mk demo1) 0x300)"
  using single_producer [OF demo1_reach, of "0x300" "0x300"] demo1_live by (simp add: demo1_marks)

theorem result_stable_witness:
  "\<exists>s'. fw_run [Stage 0x700 []] demo2 = Inr s' \<and> t_result (tasks (tk s') 0x100) = 8"
  using result_stable [OF fw_steps_reach [OF fw_run_steps [OF demo2_run] demo1_reach [of False]]
      fw_run_steps [of "[Stage 0x700 []]" demo2] conjunct1 [OF demo2_tasks]] demo2_tasks
  by simp

theorem counters_exact_witness:
  "g_submitted (tk demo1) =
    g_completed (tk demo1) + of_nat (card {t. task_state demo1 t = 1 \<and> t_meta (tasks (tk demo1) t) \<noteq> None})"
  by (rule counters_exact [OF demo1_reach [of False]])

theorem handles_exact_witness: "find_task (tk demo1) 0x100 = Some 0x100"
  using handles_exact [OF demo1_reach [of False], of "0x100" "0x100"] by (simp add: demo1_tasks)

text \<open>The join: its token, its task at \<open>0x5300\<close>, and its completion once the first call is done.\<close>

definition demo_join :: fw where "demo_join = projr (fw_run (demo_ops @ [Wait_All [demo_buf]]) demo_start)"

lemmas join_eval = filc_async_wait_all_def gc_alloc_or_die_def gc_alloc_def prov_alloc_def
  input_marks_def MAX_JOIN_ENTRIES_def SIZE_MAX_def sizeof_pointer_def sizeof_join_entry_def sizeof_join_state_def join_publish_def join_task_def

lemma demo_join_run: "filc_async_wait_all (Some [demo_buf]) 1 demo1 = Inr (demo_gc ! 1, demo_join)"
  by (simp add: demo_join_def demo1_def fw_eval join_eval lock_table_init_def)

lemma demo_join_facts:
  "g_mark_buckets (mk demo_join) (mark_bucket 0x5100) = [0x380]"
  "mk_owner (marks (mk demo_join) 0x380) = 0x5300" "mk_lower (marks (mk demo_join) 0x380) = 0x5100"
  "mk_owner (marks (mk demo_join) 0x300) = 0x100"
  "t_state (tasks (tk demo_join) 0x100) = 1" "t_runtime (tasks (tk demo_join) 0x100) = Linked 0x9000"
  "g_lock_buckets (lk demo_join) = (\<lambda>_. [])"
  "is_join demo_join 0x5300" "join_of demo_join 0x5300 = [\<lparr>je_mark = 0x300, je_generation = 1\<rparr>]"
  by (simp_all add: demo_join_def fw_eval join_eval lock_table_init_def is_join_def join_of_def)

lemma demo_join_reach: "fw_reach shr demo_join"
  using demo1_reach demo_join_run by (blast intro: fw_reach.step fw_step.wait_all)

lemma demo_join_done:
  obtains s' where "(fw_step shr)\<^sup>*\<^sup>* demo_join s'" "task_state s' 0x5300 \<noteq> 1"
proof -
  note inv = fw_reach_inv [OF demo_join_reach [of shr]]
  have run: "is_running (tk demo_join) 0x100" by (simp add: is_running_def demo_join_facts)
  have nr: "no_request demo_join 0x100"
    by (simp add: no_request_def waiting_def lock_live_def demo_join_facts)
  show thesis
  proof (rule complete_spec [OF inv run nr, of 8])
    fix s1 assume c: "filc_async_complete 0x100 8 demo_join = Inr s1" "fw_inv s1"
      "\<And>x. mark_live (mk s1) x = (mark_live (mk demo_join) x \<and> mk_owner (marks (mk demo_join) x) \<noteq> 0x100)"
    have st1: "fw_step shr demo_join s1"
      by (rule fw_step.complete [OF _ nr c(1)]) (simp add: demo_join_facts)
    have j1: "is_join s1 0x5300" "join_of s1 0x5300 = [\<lparr>je_mark = 0x300, je_generation = 1\<rparr>]"
      using complete_task_later(2) [OF inv nr c(1), of "0x5300"] demo_join_facts(8,9) by simp_all
    have ready: "join_ready s1 0x5300"
      by (simp add: join_ready_def j1 join_entry_pending_eq [OF c(2)] c(3) demo_join_facts)
    have nr1: "no_request s1 0x5300" using fw_invD(6) [OF c(2)] j1(1) by (simp add: joins_live_def)
    have run1: "is_running (tk s1) 0x5300" using j1(1) by (simp add: is_join_def)
    show thesis
    proof (rule complete_spec [OF c(2) run1 nr1, of 0])
      fix s2 assume c2: "filc_async_complete 0x5300 0 s1 = Inr s2" "tk s2 = task_done 0x5300 0 (tk s1)"
      have "fw_step shr s1 s2" by (rule fw_step.join_done [OF j1(1) ready c2(1)])
      moreover have "task_state s2 0x5300 \<noteq> 1"
        using task_done_spec(5) [OF fw_invD(1) [OF c(2)] run1, of 0] by (simp add: task_state_def c2(2))
      ultimately show thesis using st1 that by (meson converse_rtranclp_into_rtranclp r_into_rtranclp)
    qed
  qed
qed

theorem wait_all_joins_witness:
  "h_pending (headers (mk demo_join) 0x5100) \<and> (\<exists>s'. (fw_step False)\<^sup>*\<^sup>* demo_join s' \<and> task_state s' 0x5300 \<noteq> 1 \<and>
     (\<not> mark_live (mk s') 0x300 \<or> 1 < mk_generation (marks (mk s') 0x300)))"
proof -
  obtain s' where s': "(fw_step False)\<^sup>*\<^sup>* demo_join s'" "task_state s' 0x5300 \<noteq> 1"
    by (rule demo_join_done)
  have "h_pending (headers (mk demo_join) (zlower (demo_gc ! 1))) \<and>
    (\<exists>k. mark_live (mk demo_join) k \<and> mk_lower (marks (mk demo_join) k) = zlower (demo_gc ! 1) \<and>
    mk_write (marks (mk demo_join) k) \<and> task_state demo_join (mk_owner (marks (mk demo_join) k)) = 1 \<and>
    (task_state s' (mk_owner (marks (mk demo_join) k)) \<noteq> 1 \<longrightarrow>
       \<not> mark_live (mk s') 0x300 \<or>
       mk_generation (marks (mk demo1) 0x300) < mk_generation (marks (mk s') 0x300)))"
    by (rule wait_all_joins [OF demo1_reach demo_join_run _ _ demo1_live(1) _ _ s'(1), of demo_buf])
       (simp_all add: demo1_marks, simp_all add: demo_buf_def)
  then obtain k where h: "h_pending (headers (mk demo_join) 0x5100)"
    and k: "mark_live (mk demo_join) k" "mk_lower (marks (mk demo_join) k) = 0x5100"
    "task_state s' (mk_owner (marks (mk demo_join) k)) \<noteq> 1 \<longrightarrow>
       \<not> mark_live (mk s') 0x300 \<or> 1 < mk_generation (marks (mk s') 0x300)"
    by (auto simp: demo_gc_def demo1_marks)
  have "k = 0x380" using k(1,2) by (simp add: mark_live_def demo_join_facts)
  with h k(3) s' show ?thesis by (auto simp: demo_join_facts)
qed

end
