(* ===== verification/WaitRuns.thy ===== *)
theory WaitRuns
  imports WaitInv FrameworkRuns
begin

text \<open>
  What a caller may rely on when a wait returns, that it returns, and that the framework refines
  its lock table; with a runtime for which the hypotheses hold.
\<close>

section \<open>Properties of the waits\<close>

text \<open>The framework refines its lock table: whatever the other components do in between, the
  locks of a reachable framework state are in a state the lock protocol reaches by itself.\<close>

theorem lock_refinement:
  assumes "fw_reach shr s"
  shows "lock_reach (lk s)"
  using assms
proof induction
  case (start tas las has mas gcs ar ob bas ro)
  then show ?case by (auto simp: start_ok_def fw_start_def intro: lock_reach.init)
next
  case (step s s')
  with fw_step_lock [OF step.hyps(2) fw_reach_inv [OF step.hyps(1)]] show ?case
    by (auto intro: lock_reach.step)
qed


definition holds_key :: "lock_table \<Rightarrow> addr \<Rightarrow> bool \<Rightarrow> u64 \<times> u32 \<Rightarrow> bool" where
  "holds_key L t wr key \<longleftrightarrow>
     (\<exists>h. held L h \<and> hd_task (holds L h) = t \<and> hd_write (holds L h) = wr \<and> hold_key L h = key)"

text \<open>C28. When a dependency lock call returns the task holds the lock it asked for, in the mode it
  asked for: a word under its value in its namespace, a pointer under its object's lower
  bound in the pointer namespace, and every effect in between was a step of the framework.\<close>

theorem dependency_lock_held:
  assumes "runtime_contract shr B T I E" and "I w" and "fw_reach shr (fst w)" and "t \<in> T"
    and "task_state (fst w) t = 1" and "t_runtime (tasks (tk (fst w)) t) = Linked a"
  shows "(filc_async_lock_word n E t value space mode w = Inr w' \<longrightarrow>
      (fw_step shr)\<^sup>*\<^sup>* (fst w) (fst w') \<and>
      holds_key (lk (fst w')) t (mode = FILC_ASYNC_DEP_WRITE) (value, space AND NOT FILC_ASYNC_DEP_POINTER)) \<and>
    (filc_async_lock_ptr n E t ptr space mode w = Inr w' \<longrightarrow>
      (fw_step shr)\<^sup>*\<^sup>* (fst w) (fst w') \<and>
      holds_key (lk (fst w')) t (mode = FILC_ASYNC_DEP_WRITE)
        (if zaddr ptr \<noteq> 0 then zlower ptr else 0, space OR FILC_ASYNC_DEP_POINTER))"
proof -
  have run: "is_running (tk (fst w)) t" using assms(5) by (simp add: is_running_def task_state_def)
  have "(fw_step shr)\<^sup>*\<^sup>* (fst w) (fst w') \<and> holds_key (lk (fst w')) t (mode = FILC_ASYNC_DEP_WRITE) (v, sp)"
    if "lock_take n E t v sp mode w = Inr w'" for v sp
    using runtime_contract.lock_take_spec [OF assms(1,2) fw_reach_inv [OF assms(3)] assms(4) run assms(6) that]
      kept_steps unfolding holds_key_def by blast
  then show ?thesis unfolding filc_async_lock_word_def filc_async_lock_ptr_def by blast
qed

context runtime_contract
begin

lemma wait_access_calm:
  assumes "I w" and inv: "fw_inv (fst w)" and buf: "points_into (fst w) buf" "buf \<in> B"
    and "filc_async_wait_access n E th buf w = Inr w'"
  shows "reaches shr B T I w w' \<and>
    (\<forall>m. mark_live (mk (fst w')) m \<and> mk_lower (marks (mk (fst w')) m) = zlower buf \<and>
        mk_owner (marks (mk (fst w')) m) \<noteq> 0 \<longrightarrow>
      mk_owner (marks (mk (fst w')) m) \<in> set (g_active th) \<or>
      \<not> mk_write (marks (mk (fst w')) m) \<and>
      (\<exists>k. mark_live (mk (fst w)) k \<and> mk_lower (marks (mk (fst w)) k) = zlower buf \<and>
           mk_owner (marks (mk (fst w)) k) \<noteq> 0 \<and> mk_owner (marks (mk (fst w)) k) \<in> set (g_active th)))"
proof -
  let ?P = "\<lambda>k. mk_owner k \<notin> set (g_active th) \<and> (mk_write k \<or> \<not> access_own th (mk (fst w)) buf)"
  have call: "wait_owners n E buf ?P w = Inr w'"
    using assms(3,5) by (simp add: filc_async_wait_access_def wait_access_locked_def points_into_def Let_def)
  note c = wait_owners_calm [OF assms(1) inv call]
  have i: "fw_inv (fst w')" "points_into (fst w') buf"
    using c calm_inv inv calm_points buf by (auto simp: reaches_def)
  have own: "access_own th (mk (fst w)) buf = (\<exists>k. mark_live (mk (fst w)) k \<and> mk_lower (marks (mk (fst w)) k) = zlower buf \<and>
      mk_owner (marks (mk (fst w)) k) \<noteq> 0 \<and> mk_owner (marks (mk (fst w)) k) \<in> set (g_active th))"
    unfolding access_own_def owner_find_None [OF inv buf(1)] by blast
  show ?thesis using c iffD1 [OF owner_find_None [OF i] conjunct2 [OF c]] unfolding own by blast
qed

end

text \<open>C29. When an access returns from its wait no call is left that it had to wait for: a mark on the
  object that has an owner belongs to a call active on this thread, or it is a read mark and
  the access was an active call's own.  Marks without an owner are not waited for, and may be
  left.\<close>

theorem wait_access_clear:
  assumes "runtime_contract shr {buf} T I E" and "I w" and "fw_reach shr (fst w)" and "points_into (fst w) buf"
    and "filc_async_wait_access n E th buf w = Inr w'"
    and "mark_live (mk (fst w')) m" and "mk_lower (marks (mk (fst w')) m) = zlower buf"
    and "mk_owner (marks (mk (fst w')) m) \<noteq> 0"
  shows "mk_owner (marks (mk (fst w')) m) \<in> set (g_active th) \<or>
    \<not> mk_write (marks (mk (fst w')) m) \<and>
    (\<exists>k. mark_live (mk (fst w)) k \<and> mk_lower (marks (mk (fst w)) k) = zlower buf \<and>
         mk_owner (marks (mk (fst w)) k) \<noteq> 0 \<and> mk_owner (marks (mk (fst w)) k) \<in> set (g_active th))"
  using runtime_contract.wait_access_calm [OF assms(1,2) fw_reach_inv [OF assms(3)] assms(4) _ assms(5)] assms(6-8)
  by blast

text \<open>An access returns: if the object's owners that are not active on the thread are tasks of a
  linked runtime, which finishes the tasks it is asked to block on, and nobody marks the object
  anew, the wait ends within one round per mark on the object.\<close>

lemma wait_access_ends:
  fixes E :: "'r env" and th :: thread
  defines "P \<equiv> \<lambda>k. mk_owner k \<notin> set (g_active th)"
  assumes "prompt Q buf P E" and "\<And>w. Q w \<Longrightarrow> fw_inv (fst w) \<and> points_into (fst w) buf \<and> owners_linked (fst w) buf P"
    and "Q w" and "card (object_marks (fst w) buf) < n"
  shows "\<exists>w'. filc_async_wait_access n E th buf w = Inr w'"
proof (cases "zaddr buf = 0")
  case False
  have "\<exists>w'. wait_owners n E buf (\<lambda>k. mk_owner k \<notin> set (g_active th) \<and>
      (mk_write k \<or> \<not> access_own th (mk (fst w)) buf)) w = Inr w'"
    by (rule wait_owners_returns [OF assms(2,3) _ assms(4,5)]) (simp_all add: P_def)
  with False show ?thesis
    unfolding filc_async_wait_access_def wait_access_locked_def Let_def by simp
qed (simp add: filc_async_wait_access_def)

lemma wait_delivers:
  assumes "runtime_contract shr B T I E" and "I w" and "fw_reach shr (fst w)" and "r_pending r \<noteq> 0"
    and "find_task (tk (fst w)) (r_pending r) = Some t"
    and "filc_async_wait n E (Some r) w = Inr (out, w')"
  shows "find_task (tk (fst w')) (r_pending r) = None \<and> (\<exists>r'. out = Some r' \<and> r_pending r' = r_pending r \<and> r_state r' \<noteq> 1 \<and>
    r_state r' = task_state (fst w') t \<and> r_result r' = t_result (tasks (tk (fst w')) t) \<and>
    (\<forall>k. filc_async_wait k E (Some r') w' = Inr (Some r', w') \<and>
         filc_async_poll k E (Some r') w' = Inr (False, Some r', w')))"
proof -
  note inv = fw_reach_inv [OF assms(3)]
  obtain w1 where w1: "wait_for n E t w = Inr w1"
    and out: "out = Some (result_fill (fst w1) t r)"
    and w': "w' = upd_fw (\<lambda>s. s\<lparr>tk := retire_task t (tk s)\<rparr>) w1"
    using assms(4-6) by (auto simp: filc_async_wait_def simp del: split_paired_Ex)
  have c: "(calm_step shr B T)\<^sup>*\<^sup>* (fst w) (fst w1)" "task_state (fst w1) t \<noteq> 1"
    using runtime_contract.wait_for_calm [OF assms(1,2) inv w1] by (simp_all add: reaches_def)
  have i1: "fw_inv (fst w1)" by (rule calm_inv [OF c(1) inv])
  have t: "r_pending r = t"
    using assms(5) find_task_eq [OF task_invD(1) [OF fw_invD(1) [OF inv]]] by (auto split: if_splits)
  note h = task_invD(1) [OF fw_invD(1) [OF i1]]
  note ret = retire_task_spec [OF h, of t]
  have none: "find_task (tk (fst w')) t = None"
    using find_task_eq [OF ret(1)] ret(2) c(2)
    by (auto simp: w' handled_def is_running_def task_state_def)
  have same: "tasks (tk (fst w')) t = (tasks (tk (fst w1)) t)\<lparr>t_handled := t_handled (tasks (tk (fst w')) t)\<rparr>"
    by (simp add: w' retire_task_def Let_def upd_task_def split: option.splits)
  have eq: "t_state (tasks (tk (fst w')) t) = t_state (tasks (tk (fst w1)) t)"
    "t_result (tasks (tk (fst w')) t) = t_result (tasks (tk (fst w1)) t)"
    by (subst same, simp)+
  show ?thesis
    using none c(2) assms(4) eq
    by (simp add: out result_fill_def t filc_async_wait_def filc_async_poll_def task_state_def)
qed

text \<open>C31. A completion is delivered once: when \<open>filc_async_wait\<close> on a live handle returns, the
  task has completed, the caller has its state and result, the handle is forgotten, and
  another wait or poll on it changes nothing.\<close>

theorem wait_delivers_once:
  assumes "runtime_contract shr B T I E" and "I w" and "fw_reach shr (fst w)" and "r_pending r \<noteq> 0"
    and "find_task (tk (fst w)) (r_pending r) = Some t"
    and "filc_async_wait n E (Some r) w = Inr (out, w')"
  shows "\<exists>r'. out = Some r' \<and> r_pending r' = r_pending r \<and> r_state r' \<noteq> 1 \<and>
    r_state r' = task_state (fst w') t \<and> r_result r' = t_result (tasks (tk (fst w')) t) \<and>
    (\<forall>k. filc_async_wait k E (Some r') w' = Inr (Some r', w') \<and>
         filc_async_poll k E (Some r') w' = Inr (False, Some r', w'))"
  using wait_delivers [OF assms] by blast

section \<open>A runtime that finishes what it is asked about\<close>

text \<open>The witness runtime completes the task it is polled for, unless the task is one of the
  caller's own, a join, or queued for a lock.\<close>

definition demo_poll :: "addr set \<Rightarrow> runtime_ref \<Rightarrow> addr \<Rightarrow> filc_async_poll_mode \<Rightarrow> unit world \<Rightarrow>
    (bool \<times> unit world) outcome" where
  "demo_poll T rt t mode w =
    (if is_running (tk (fst w)) t \<and> \<not> is_join (fst w) t \<and> no_request (fst w) t \<and> t \<notin> T
     then res_bind (filc_async_complete t 8 (fst w)) (\<lambda>s. Inr (True, (s, ())))
     else Inr (False, w))"

definition demo_env :: "addr set \<Rightarrow> unit env" where
  "demo_env T = \<lparr>rt_poll = demo_poll T, rt_submit = (\<lambda>_ _ _ _ _ _ _. Inr), rt_changed = id\<rparr>"

definition demo_thread :: thread where
  "demo_thread = \<lparr>g_running_body = 0, g_active = []\<rparr>"

lemma demo_poll_calm:
  assumes "fw_inv (fst w)" and "demo_poll T rt t mode w = Inr (d, w')"
  shows "(calm_step shr B T)\<^sup>*\<^sup>* (fst w) (fst w')"
proof (cases "is_running (tk (fst w)) t \<and> \<not> is_join (fst w) t \<and> no_request (fst w) t \<and> t \<notin> T")
  case True
  then have "filc_async_complete t 8 (fst w) = Inr (fst w')"
    using assms(2) by (auto simp: demo_poll_def simp del: split_paired_Ex)
  with complete_calm [OF assms(1)] True show ?thesis by blast
next
  case False
  then have "w' = w" using assms(2) unfolding demo_poll_def if_not_P [OF False] by simp
  then show ?thesis by simp
qed

interpretation demo: runtime_contract shr B T "\<lambda>_. True" "demo_env T" for shr B T
  by unfold_locales (auto simp: demo_env_def reaches_def demo_poll_calm)

lemmas demo_env_ok = demo.runtime_contract_axioms

section \<open>Witnesses\<close>

theorem lock_refinement_witness: "lock_reach (lk demo1)"
  by (rule lock_refinement [OF demo1_reach [of False]])

definition demo_active :: thread where
  "demo_active = \<lparr>g_running_body = 0, g_active = [0x200]\<rparr>"

lemma demo_mark_pending:
  "\<exists>s'. filc_async_mark_pending 0 (demo_env {0x100}) demo_active 0x100 demo_buf (demo1, ()) = Inr (s', ())"
  by (simp add: filc_async_mark_pending_def mark_clear.simps mark_find_other_def mark_own_def
      mark_owned_def demo1_marks demo_buf_def demo_active_def overlaps_def)


definition demo_lock :: fw where
  "demo_lock = projr (fw_run [Begin demo_meta 0]
     (fw_start [0x100] [0x8000] [0x1000] [0x2000] [] [] {0x100} Map.empty (\<lambda>_. False)))"

lemma demo_lock_run: "fw_run [Begin demo_meta 0]
     (fw_start [0x100] [0x8000] [0x1000] [0x2000] [] [] {0x100} Map.empty (\<lambda>_. False)) = Inr demo_lock"
  unfolding demo_lock_def by (simp add: fw_eval)

lemma demo_lock_facts:
  "lk demo_lock = lock_table_init [0x1000] [0x2000]" "t_state (tasks (tk demo_lock) 0x100) = 1"
  "t_runtime (tasks (tk demo_lock) 0x100) = Linked 0x9000"
  by (simp_all add: demo_lock_def fw_eval lock_table_init_def fun_upd_idem)

lemma demo_lock_reach: "fw_reach shr demo_lock"
  by (rule fw_steps_reach [OF fw_run_steps [OF demo_lock_run]], rule fw_reach.start)
     (simp add: start_ok_def count_range_def objects_ok_def)

lemma demo_lock_call:
  "\<exists>s'. filc_async_lock_word 0 (demo_env {0x100}) 0x100 7 0x100 FILC_ASYNC_DEP_WRITE (demo_lock, ()) = Inr (s', ())"
  by (simp add: filc_async_lock_word_def lock_take_def demo_lock_facts lock_eval lock_wait.simps
      FILC_ASYNC_DEP_POINTER_def)

theorem dependency_lock_held_witness:
  "\<exists>s'. filc_async_lock_word 0 (demo_env {0x100}) 0x100 7 0x100 FILC_ASYNC_DEP_WRITE (demo_lock, ()) = Inr (s', ()) \<and>
     holds_key (lk s') 0x100 True (7, 0x100)"
proof -
  obtain s' where s': "filc_async_lock_word 0 (demo_env {0x100}) 0x100 7 0x100 FILC_ASYNC_DEP_WRITE (demo_lock, ()) = Inr (s', ())"
    using demo_lock_call by blast
  have "holds_key (lk s') 0x100 True (7, 0x100 AND NOT FILC_ASYNC_DEP_POINTER)"
    using conjunct1 [OF dependency_lock_held [OF demo_env_ok [of False "{}" "{0x100}"],
      of "(demo_lock, ())" "0x100" "0x9000" 0 7 "0x100" FILC_ASYNC_DEP_WRITE "(s', ())"]] s' demo_lock_reach
    by (simp add: demo_lock_facts task_state_def lock_table_init_def)
  with s' show ?thesis by (simp add: FILC_ASYNC_DEP_POINTER_def)
qed

definition demo_both :: thread where
  "demo_both = \<lparr>g_running_body = 0x100, g_active = [0x100, 0x200]\<rparr>"

theorem wait_access_clear_witness: "mk_owner (marks (mk demo1) 0x300) \<in> set (g_active demo_both)"
proof -
  have "filc_async_wait_access 0 (demo_env {}) demo_both demo_buf (demo1, ()) = Inr (demo1, ())"
    by (simp add: filc_async_wait_access_def wait_access_locked_def wait_owners.simps owner_find_def
        demo1_marks demo_buf_def demo_both_def)
  from wait_access_clear [OF demo_env_ok [of False _ "{}"] TrueI _ _ this, of "0x300"] demo1_reach demo1_live
  show ?thesis by (auto simp: demo1_marks demo_buf_def)
qed

lemma demo1_object: "object_marks demo1 demo_buf \<subseteq> {0x300, 0x340}"
proof
  fix m assume "m \<in> object_marks demo1 demo_buf"
  then have "m \<in> set (g_mark_buckets (mk demo1) (mark_bucket 0x1000))"
    by (auto simp: object_marks_def mark_live_def demo_buf_def)
  then show "m \<in> {0x300, 0x340}" by (auto simp: demo1_marks)
qed

lemma demo2_handle: "find_task (tk demo2) 0x100 = Some 0x100"
proof -
  have run: "is_running (tk demo1) 0x100" by (simp add: is_running_def demo1_tasks)
  note inv = fw_reach_inv [OF demo1_reach [of False]]
  note d = task_done_spec [OF fw_invD(1) [OF inv] run, where result = 8]
  have "tk demo2 = task_done 0x100 8 (tk demo1)"
    by (rule complete_spec [OF inv run demo1_no_request, of 8]) (simp add: demo2_def demo1_tasks)
  then have "0x100 \<in> handled (tk demo2)" using d(6) by (simp add: handled_def demo1_tasks)
  then show ?thesis
    using find_task_eq [OF task_invD(1) [OF d(1)]] \<open>tk demo2 = _\<close> by (simp add: handled_def)
qed

definition demo_handle :: filc_async_result_s where
  "demo_handle = \<lparr>r_pending = 0x100, r_result = 0, r_state = 1\<rparr>"

theorem wait_delivers_once_witness:
  "\<exists>r' w'. filc_async_wait 0 (demo_env {}) (Some demo_handle) (demo2, ()) = Inr (Some r', w') \<and>
     r_result r' = 8 \<and> filc_async_wait 0 (demo_env {}) (Some r') w' = Inr (Some r', w')"
proof -
  have st: "task_state demo2 0x100 \<noteq> 1" "t_result (tasks (tk demo2) 0x100) = 8"
    using demo2_tasks by (auto simp: settled_def task_state_def is_running_def)
  then obtain r' w' where c: "filc_async_wait 0 (demo_env {}) (Some demo_handle) (demo2, ()) = Inr (Some r', w')"
    and r: "r_result r' = 8"
    by (simp add: filc_async_wait_def demo_handle_def demo2_handle wait_for.simps result_fill_def)
  show ?thesis
    using wait_delivers_once [OF demo_env_ok [of False "{}" "{}"] TrueI _ _ _ c, of "0x100"] c r demo2_handle
      fw_steps_reach [OF fw_run_steps [OF demo2_run] demo1_reach [of False]]
    by (simp add: demo_handle_def)
qed

end
