(* ===== verification/StubRuns.thy ===== *)
theory StubRuns
  imports Stub PassRuns WaitRuns
begin

text \<open>
  What a call through the code of theory \<^verbatim>\<open>Stub\<close> achieves: the arguments survive the
  staging cells, and when the stub reaches \<^verbatim>\<open>filc_async_submit\<close> its task owns every lock
  and mark its descriptor names, whatever happened while it waited for them, under the contract
  of the runtimes (the locale \<^verbatim>\<open>runtime_contract\<close>).  The last sections show the
  dependence of a scalar lock key on the width of the parameter, and the witnesses.
\<close>

section \<open>Arguments survive staging\<close>

text \<open>What the run thunk hands the body for an argument: the argument itself, or a null value of a type
  that does not fit a cell.\<close>

definition carried :: "ir_type \<Rightarrow> ir_value \<Rightarrow> ir_value" where
  "carried ty v = (case ty of Ptr_Ty \<Rightarrow> v | Int_Ty w \<Rightarrow> if w \<le> 64 then v else null_value ty | _ \<Rightarrow> null_value ty)"

lemma load_stage: "has_type v ty \<Longrightarrow> load_arg ty (stage_cell ty v) = carried ty v"
proof (cases ty)
  case (Int_Ty k)
  assume t: "has_type v ty"
  then obtain x where v: "v = Int_V x" "x < 2 ^ k" "0 < k" unfolding Int_Ty by (cases v) auto
  show ?thesis
  proof (cases "k \<le> 64")
    case True
    have "(2 :: nat) ^ k \<le> 2 ^ 64" using True by (intro power_increasing) auto
    then have "x < 2 ^ 64" using v(2) by linarith
    then have "unat (of_nat x :: u64) = x" by (simp add: unat_of_nat take_bit_nat_eq_self)
    then show ?thesis using v True
      by (auto simp: Int_Ty load_arg_def stage_cell_def carried_def int_cell_def value_word_def take_bit_nat_eq_self)
  qed (simp add: Int_Ty load_arg_def stage_cell_def carried_def null_value_def)
qed (cases v; simp add: load_arg_def stage_cell_def carried_def null_value_def value_ptr_def)+

lemma load_stage_args:
  "list_all2 has_type vs tys \<Longrightarrow> load_args tys (map2 stage_cell tys vs) = Inr (map2 carried tys vs)"
proof (induction vs arbitrary: tys)
  case (Cons v vs)
  then obtain ty tys' where "tys = ty # tys'" "has_type v ty" "list_all2 has_type vs tys'"
    by (cases tys) auto
  with Cons.IH [of tys'] load_stage [of v ty] show ?case by simp
qed simp

lemma stub_exec_append:
  "stub_exec n E th C (xs @ ys) x = res_bind (stub_exec n E th C xs x) (stub_exec n E th C ys)"
proof (induction xs arbitrary: x)
  case (Cons i xs)
  then show ?case by (cases "stub_step n E th C i x") simp_all
qed simp

lemma stub_exec_snoc:
  "stub_exec n E th C (xs @ [i]) x = res_bind (stub_exec n E th C xs x) (stub_step n E th C i)"
proof -
  have "stub_exec n E th C [] = Inr" by (rule ext) simp
  then have "stub_exec n E th C [i] y = stub_step n E th C i y" for y
    by (cases "stub_step n E th C i y") simp_all
  then have "stub_exec n E th C [i] = stub_step n E th C i" by (rule ext)
  then show ?thesis by (simp only: stub_exec_append)
qed

text \<open>The staging part of the stub fills the cells from the first to the last.\<close>

lemma set_staged_simps [simp]:
  "tasks (tk (set_staged a c s)) = tasks (tk s)" "staged (tk (set_staged a c s)) = (staged (tk s))(a := c)"
  "lk (set_staged a c s) = lk s" "mk (set_staged a c s) = mk s" "heap (set_staged a c s) = heap s"
  "task_answers (tk (set_staged a c s)) = task_answers (tk s)"
  "is_running (tk (set_staged a c s)) t = is_running (tk s) t"
  by (simp_all add: set_staged_def is_running_def)

lemma stage_run:
  assumes "sr_staging r = a" and "length (staged (tk (fst w)) a) = N" and "a \<noteq> 0" and "k \<le> N"
  shows "stub_exec n E th C (map Store_Arg [0..<k]) (r, w) =
    Inr (r, upd_fw (set_staged a (map (\<lambda>i. stage_cell (f_params (sc_func C) ! i) (sc_args C ! i)) [0..<k] @
      drop k (staged (tk (fst w)) a))) w)"
  using assms(4)
proof (induction k)
  case 0
  have "set_staged a (staged (tk (fst w)) a) (fst w) = fst w" by (simp add: set_staged_def)
  then show ?case by simp
next
  case (Suc k)
  let ?c = "\<lambda>i. stage_cell (f_params (sc_func C) ! i) (sc_args C ! i)"
  let ?cells = "map ?c [0..<k] @ drop k (staged (tk (fst w)) a)"
  have l: "length ?cells = N" using assms(2) Suc.prems by simp
  have d: "drop k (staged (tk (fst w)) a) = staged (tk (fst w)) a ! k # drop (Suc k) (staged (tk (fst w)) a)"
    using Suc.prems assms(2) by (simp add: Cons_nth_drop_Suc)
  have u: "?cells[k := ?c k] = map ?c [0..<Suc k] @ drop (Suc k) (staged (tk (fst w)) a)"
    by (subst d) (simp add: list_update_append)
  have s: "set_staged a x (set_staged a y s) = set_staged a x s" for x y s by (simp add: set_staged_def)
  have "stub_exec n E th C (map Store_Arg [0..<Suc k]) (r, w) =
      res_bind (stub_exec n E th C (map Store_Arg [0..<k]) (r, w)) (stub_step n E th C (Store_Arg k))"
    by (simp add: stub_exec_snoc)
  also have "\<dots> = Inr (r, upd_fw (set_staged a (?cells[k := ?c k])) w)"
    using Suc assms(1,3) l by (simp add: store_arg_def s)
  finally show ?case unfolding u .
qed

section \<open>What a call owns when it is submitted\<close>

definition has_mark :: "fw \<Rightarrow> addr \<Rightarrow> addr \<Rightarrow> bool \<Rightarrow> bool" where
  "has_mark s t lower wr \<longleftrightarrow> (\<exists>m. mark_live (mk s) m \<and> mk_owner (marks (mk s) m) = t \<and>
     mk_lower (marks (mk s) m) = lower \<and> (wr \<longrightarrow> mk_write (marks (mk s) m)))"

text \<open>What one call of the stub obtains for the task \<open>t\<close>.\<close>

fun obtained :: "stub_call \<Rightarrow> addr \<Rightarrow> stub_instr \<Rightarrow> fw \<Rightarrow> bool" where
  "obtained C t (Call_Lock_Word i space mode) s =
     holds_key (lk s) t (mode = FILC_ASYNC_DEP_WRITE)
       (value_word (sc_args C ! i), space AND NOT FILC_ASYNC_DEP_POINTER)"
| "obtained C t (Call_Lock_Ptr i space mode) s =
     holds_key (lk s) t (mode = FILC_ASYNC_DEP_WRITE)
       (if zaddr (value_ptr (sc_args C ! i)) \<noteq> 0 then zlower (value_ptr (sc_args C ! i)) else 0,
        space OR FILC_ASYNC_DEP_POINTER)"
| "obtained C t (Call_Mark i) s =
     (zaddr (value_ptr (sc_args C ! i)) = 0 \<or> has_mark s t (zlower (value_ptr (sc_args C ! i))) True)"
| "obtained C t (Call_Mark_Input i) s =
     (zaddr (value_ptr (sc_args C ! i)) = 0 \<or> has_mark s t (zlower (value_ptr (sc_args C ! i))) False)"
| "obtained C t _ s = True"

fun acquires :: "stub_instr \<Rightarrow> bool" where
  "acquires (Call_Lock_Word i space mode) = True"
| "acquires (Call_Lock_Ptr i space mode) = True"
| "acquires (Call_Mark i) = True"
| "acquires (Call_Mark_Input i) = True"
| "acquires _ = False"

text \<open>The buffers a marking call names are objects of the program that stay live.\<close>

fun buffer_live :: "stub_call \<Rightarrow> zptr set \<Rightarrow> fw \<Rightarrow> stub_instr \<Rightarrow> bool" where
  "buffer_live C B s (Call_Mark i) =
     (zaddr (value_ptr (sc_args C ! i)) = 0 \<or> points_into s (value_ptr (sc_args C ! i)) \<and> value_ptr (sc_args C ! i) \<in> B)"
| "buffer_live C B s (Call_Mark_Input i) =
     (zaddr (value_ptr (sc_args C ! i)) = 0 \<or> points_into s (value_ptr (sc_args C ! i)) \<and> value_ptr (sc_args C ! i) \<in> B)"
| "buffer_live C B s _ = True"

lemma buffer_live_kept:
  "(kept_step shr B T)\<^sup>*\<^sup>* s s' \<Longrightarrow> buffer_live C B s i \<Longrightarrow> buffer_live C B s' i"
  using kept_points [of shr B T s s'] by (cases i) auto

lemma obtained_kept:
  assumes k: "(kept_step shr B T)\<^sup>*\<^sup>* s s'" and inv: "fw_inv s"
    and t: "t \<in> T" "is_running (tk s) t" "t_runtime (tasks (tk s) t) = Linked a"
    and ob: "obtained C t i s"
  shows "obtained C t i s'"
proof -
  have h: "holds_key (lk s) t wr key \<Longrightarrow> holds_key (lk s') t wr key" for wr key
    unfolding holds_key_def using kept_held [OF k inv t] by metis
  have m: "has_mark s t l wr \<Longrightarrow> has_mark s' t l wr" for l wr
    unfolding has_mark_def using kept_marks [OF k inv t] by metis
  show ?thesis using ob h m by (cases i) auto
qed

lemma mark_input_has:
  assumes inv: "fw_inv s" and buf: "points_into s buf" and run: "is_running (tk s) t" and t0: "t \<noteq> 0"
    and inp: "filc_async_mark_input t buf s = Inr s'"
  shows "has_mark s' t (zlower buf) False"
proof (cases "mark_owned (mk s) (zlower buf) t")
  case (Some m)
  then have "s' = s" using inp by (auto simp: filc_async_mark_input_def split: if_splits)
  then show ?thesis using mark_owned_Some [OF mark_invD(2) [OF fw_invD(3) [OF inv]] Some]
    by (auto simp: has_mark_def)
next
  case None
  then obtain M where M: "mark_add buf (zlower buf) (zupper buf) t False (mk s) = Inr M" "s' = s\<lparr>mk := M\<rparr>"
    using inp buf t0 by (auto simp: filc_async_mark_input_def points_into_def)
  show ?thesis
  proof (rule mark_add_inv [OF inv buf disjI2 [OF run] None M(1)])
    fix m assume "\<And>x. mark_live M x = (mark_live (mk s) x \<or> x = m)"
      "marks M m = \<lparr>mk_buf = buf, mk_lower = zlower buf, mk_upper = zupper buf,
         mk_generation = mk_generation (marks (mk s) m) + 1, mk_owner = t, mk_write = False\<rparr>"
    then show ?thesis unfolding has_mark_def by (intro exI [of _ m]) (simp add: M(2))
  qed
qed

context runtime_contract begin

lemma mark_input_step:
  assumes inv: "I w" "fw_inv (fst w)" and t: "is_running (tk (fst w)) t"
    and buf: "points_into (fst w) buf" and inp: "filc_async_mark_input t buf (fst w) = Inr s'"
  shows "I (s', snd w)" "(kept_step shr B T)\<^sup>*\<^sup>* (fst w) s'"
proof -
  have e: "tk s' = tk (fst w)" "lk s' = lk (fst w)" "heap s' = heap (fst w)"
    by (subst conjunct2 [OF mark_input_later [OF inv(2) buf t inp]], simp)+
  show "I (s', snd w)" by (rule own_kept [OF inv]) (rule own_step_same [OF e(1,2)])
  have "kept_step shr B T (fst w) s'"
    using fw_step.input [OF t buf inp] mark_own_kept(2) [OF inv(2) buf t inp] e
    by (simp add: kept_step_def points_into_def)
  then show "(kept_step shr B T)\<^sup>*\<^sup>* (fst w) s'" by simp
qed

lemma lock_call_obtains:
  assumes inv: "I w" "fw_inv (fst w)"
    and t: "t \<in> T" "is_running (tk (fst w)) t" "t_runtime (tasks (tk (fst w)) t) = Linked a"
    and call: "lock_take n E t v sp mode w = Inr w'"
  shows "I w' \<and> (kept_step shr B T)\<^sup>*\<^sup>* (fst w) (fst w') \<and>
    holds_key (lk (fst w')) t (mode = FILC_ASYNC_DEP_WRITE) (v, sp)"
  using lock_take_spec [OF assms] unfolding holds_key_def by blast

lemma acquire_step:
  assumes inv: "I w" "fw_inv (fst w)"
    and t: "sr_task r \<in> T" "is_running (tk (fst w)) (sr_task r)" "t_runtime (tasks (tk (fst w)) (sr_task r)) = Linked a"
    and i: "acquires i" "buffer_live C B (fst w) i"
    and step: "stub_step n E th C i (r, w) = Inr (r', w')"
  shows "r' = r \<and> I w' \<and> (kept_step shr B T)\<^sup>*\<^sup>* (fst w) (fst w') \<and> obtained C (sr_task r) i (fst w')"
proof (cases i)
  case (Call_Lock_Word k space mode)
  then have r: "r' = r" and c: "lock_take n E (sr_task r) (value_word (sc_args C ! k))
      (space AND NOT FILC_ASYNC_DEP_POINTER) mode w = Inr w'"
    using step by (auto simp: filc_async_lock_word_def)
  show ?thesis using lock_call_obtains [OF inv t c] r Call_Lock_Word by simp
next
  case (Call_Lock_Ptr k space mode)
  let ?p = "value_ptr (sc_args C ! k)"
  have r: "r' = r" and c: "lock_take n E (sr_task r) (if zaddr ?p \<noteq> 0 then zlower ?p else 0)
      (space OR FILC_ASYNC_DEP_POINTER) mode w = Inr w'"
    using step Call_Lock_Ptr by (auto simp: filc_async_lock_ptr_def)
  show ?thesis using lock_call_obtains [OF inv t c] r Call_Lock_Ptr by simp
next
  case (Call_Mark k)
  let ?p = "value_ptr (sc_args C ! k)"
  have call: "filc_async_mark_pending n E th (sr_task r) ?p w = Inr w'" and r: "r' = r"
    using step Call_Mark by (auto simp del: split_paired_Ex)
  show ?thesis
  proof (cases "zaddr ?p = 0")
    case True
    then have "w' = w" using call by (simp add: filc_async_mark_pending_def)
    then show ?thesis using True r inv Call_Mark by simp
  next
    case False
    then have b: "points_into (fst w) ?p" "?p \<in> B" using i(2) Call_Mark by auto
    note m = mark_pending_spec [OF inv b t call]
    have st: "(calm_step shr B T)\<^sup>*\<^sup>* (fst w) (fst w')" "I w'" using m by (simp_all add: reaches_def)
    have "has_mark (fst w') (sr_task r) (zlower ?p) True"
      using m unfolding written_def has_mark_def by blast
    then show ?thesis using st calm_kept r Call_Mark by auto
  qed
next
  case (Call_Mark_Input k)
  let ?p = "value_ptr (sc_args C ! k)"
  obtain s' where call: "filc_async_mark_input (sr_task r) ?p (fst w) = Inr s'" and r: "r' = r" "w' = (s', snd w)"
    using step Call_Mark_Input by (auto simp del: split_paired_Ex)
  show ?thesis
  proof (cases "zaddr ?p = 0")
    case True
    then have "s' = fst w" using call by (simp add: filc_async_mark_input_def)
    then show ?thesis using True r inv Call_Mark_Input by simp
  next
    case False
    then have b: "points_into (fst w) ?p" using i(2) Call_Mark_Input by auto
    have t0: "sr_task r \<noteq> 0" using running_nonnull task_invD(2) [OF fw_invD(1) [OF inv(2)]] t(2) by blast
    note m = mark_input_step [OF inv t(2) b call] mark_input_has [OF inv(2) b t(2) t0 call]
    show ?thesis using m r Call_Mark_Input by simp
  qed
qed (use i in simp_all)

lemma acquire_run:
  assumes "I w" "fw_inv (fst w)" "sr_task r \<in> T" "is_running (tk (fst w)) (sr_task r)"
    "t_runtime (tasks (tk (fst w)) (sr_task r)) = Linked a"
    and "\<forall>i\<in>set instrs. acquires i \<and> buffer_live C B (fst w) i"
    and "stub_exec n E th C instrs (r, w) = Inr (r', w')"
  shows "r' = r \<and> I w' \<and> (kept_step shr B T)\<^sup>*\<^sup>* (fst w) (fst w') \<and> (\<forall>i\<in>set instrs. obtained C (sr_task r) i (fst w'))"
  using assms
proof (induction instrs arbitrary: w)
  case (Cons i il)
  obtain r1 w1 where st: "stub_step n E th C i (r, w) = Inr (r1, w1)" and rest: "stub_exec n E th C il (r1, w1) = Inr (r', w')"
    using Cons.prems(7) by (auto simp del: split_paired_Ex)
  have s: "r1 = r" "I w1" "(kept_step shr B T)\<^sup>*\<^sup>* (fst w) (fst w1)" "obtained C (sr_task r) i (fst w1)"
    using acquire_step [OF Cons.prems(1-5) _ _ st] Cons.prems(6) by auto
  have i1: "fw_inv (fst w1)" by (rule kept_inv [OF s(3) Cons.prems(2)])
  have t1: "is_running (tk (fst w1)) (sr_task r)" "t_runtime (tasks (tk (fst w1)) (sr_task r)) = Linked a"
    using kept_task [OF s(3) Cons.prems(2-5)] by auto
  have b1: "\<forall>i\<in>set il. acquires i \<and> buffer_live C B (fst w1) i"
    using Cons.prems(6) buffer_live_kept [OF s(3)] by auto
  have ih: "r' = r \<and> I w' \<and> (kept_step shr B T)\<^sup>*\<^sup>* (fst w1) (fst w') \<and> (\<forall>i\<in>set il. obtained C (sr_task r) i (fst w'))"
    using Cons.IH [OF s(2) i1 Cons.prems(3) t1 b1] rest by (simp add: s(1))
  then have "obtained C (sr_task r) i (fst w')"
    using obtained_kept [OF _ i1 Cons.prems(3) t1 s(4)] by blast
  with ih s(3) show ?case by (auto intro: rtranclp_trans)
qed simp

end

section \<open>Starting the call\<close>

context runtime_contract begin

lemma stage_reaches:
  assumes inv: "I w" "fw_inv (fst w)"
  shows "I (upd_fw (set_staged a cells) w)" "(kept_step shr B T)\<^sup>*\<^sup>* (fst w) (set_staged a cells (fst w))"
proof -
  show "I (upd_fw (set_staged a cells) w)"
    by (rule own_kept [OF inv]) (simp add: own_step_def)
  have "fw_step shr (fst w) (set_staged a cells (fst w))"
    unfolding set_staged_def by (rule fw_step.stage)
  then have "kept_step shr B T (fst w) (set_staged a cells (fst w))"
    by (simp add: kept_step_def points_into_def marks_kept_same)
  then show "(kept_step shr B T)\<^sup>*\<^sup>* (fst w) (set_staged a cells (fst w))" by simp
qed

lemma begin_reaches:
  assumes inv: "I w" "fw_inv (fst w)" and rt: "m_runtime meta = Linked a"
    and T: "hd (task_answers (tk (fst w))) \<in> T"
    and b: "filc_async_begin (Some meta) args (fst w) = Inr (t, s)"
  shows "I (s, snd w)" "(kept_step shr B T)\<^sup>*\<^sup>* (fst w) s" "t \<in> T" "is_running (tk s) t"
    "tasks (tk s) t = task_new (Linked a) (Some meta) args" "staged (tk s) = staged (tk (fst w))"
    "heap s = heap (fst w)"
proof -
  have tb: "task_begin (Linked a) (Some meta) args (fst w) = Inr (t, s)" using b rt by (simp add: filc_async_begin_def)
  obtain U where U: "task_start (Linked a) (Some meta) args (tk (fst w)) = Inr (t, U)" "s = (fst w)\<lparr>tk := U\<rparr>"
    using task_begin_spec(2) [OF inv(2) tb] by auto
  note st = task_start_spec [OF fw_invD(1) [OF inv(2)] U(1)]
  show t: "t \<in> T" using T st(2) by simp
  show "is_running (tk s) t" using st(6) by (simp add: U(2))
  show "tasks (tk s) t = task_new (Linked a) (Some meta) args" "staged (tk s) = staged (tk (fst w))"
    "heap s = heap (fst w)" using st(5,10) by (simp_all add: U(2))
  have "own_step T (fst w) s"
    using t st(5) by (auto simp: own_step_def U(2) task_new_def task_zero_def)
  then show "I (s, snd w)" by (rule own_kept [OF inv])
  have "fw_step shr (fst w) s" by (rule fw_step.begin_call [OF _ b]) (simp add: rt)
  then have "kept_step shr B T (fst w) s"
    using st(6) by (simp add: kept_step_def points_into_def marks_kept_same U(2))
  then show "(kept_step shr B T)\<^sup>*\<^sup>* (fst w) s" by simp
qed

end

definition acquire_list :: "stub_call \<Rightarrow> parsed \<Rightarrow> stub_instr list" where
  "acquire_list C P = concat (map (lock_call (sc_func C) P) [0..<f_nargs (sc_func C)]) @
     mark_calls (sc_func C) P @ input_calls (sc_func C) P"

text \<open>The buffers among the arguments: pointers that are not null.\<close>

definition buffers_live :: "stub_call \<Rightarrow> zptr set \<Rightarrow> fw \<Rightarrow> bool" where
  "buffers_live C B s \<longleftrightarrow> (\<forall>i<f_nargs (sc_func C). let p = value_ptr (sc_args C ! i) in
     zaddr p = 0 \<or> points_into s p \<and> p \<in> B)"

lemma acquire_list_ok:
  assumes "buffers_live C B s"
  shows "\<forall>i\<in>set (acquire_list C P). acquires i \<and> buffer_live C B s i"
  using assms by (auto simp: acquire_list_def lock_call_def mark_calls_def input_calls_def buffers_live_def Let_def
      split: if_splits)

definition dep_space :: "parsed \<Rightarrow> nat \<Rightarrow> u32" where
  "dep_space P i = p_deps P ! i AND NOT (DEP_READ OR DEP_WRITE)"

definition dep_mode :: "parsed \<Rightarrow> nat \<Rightarrow> u32" where
  "dep_mode P i = p_deps P ! i AND (DEP_READ OR DEP_WRITE)"

definition lock_key :: "stub_call \<Rightarrow> nat \<Rightarrow> u64" where
  "lock_key C i =
    (let v = sc_args C ! i in
     if f_params (sc_func C) ! i = Ptr_Ty
     then if zaddr (value_ptr v) \<noteq> 0 then zlower (value_ptr v) else 0 else value_word v)"

text \<open>The task \<open>t\<close> owns what the descriptor says its call needs: the lock of every dependency in its
  mode, a write mark on every output buffer and a mark on every input buffer.\<close>

definition call_ready :: "stub_call \<Rightarrow> parsed \<Rightarrow> addr \<Rightarrow> fw \<Rightarrow> bool" where
  "call_ready C P t s \<longleftrightarrow> (\<forall>i<f_nargs (sc_func C).
     (dep_mode P i \<noteq> 0 \<longrightarrow> holds_key (lk s) t (dep_mode P i = DEP_WRITE) (lock_key C i, dep_space P i)) \<and>
     ((p_kinds P ! i = ARG_BUFFER_OUT \<or> p_kinds P ! i = ARG_PENDING) \<and> zaddr (value_ptr (sc_args C ! i)) \<noteq> 0 \<longrightarrow>
        has_mark s t (zlower (value_ptr (sc_args C ! i))) True) \<and>
     (p_kinds P ! i = ARG_BUFFER_IN \<and> zaddr (value_ptr (sc_args C ! i)) \<noteq> 0 \<longrightarrow>
        has_mark s t (zlower (value_ptr (sc_args C ! i))) False))"

lemma space_pointer_bit:
  assumes "func_wf F" "parse_kinds F opts = Inr P" "i < f_nargs F" "dep_mode P i \<noteq> 0"
  shows "f_params F ! i = Ptr_Ty \<Longrightarrow> dep_space P i OR FILC_ASYNC_DEP_POINTER = dep_space P i"
    and "f_params F ! i \<noteq> Ptr_Ty \<Longrightarrow> dep_space P i AND NOT FILC_ASYNC_DEP_POINTER = dep_space P i"
proof -
  have "p_deps P ! i \<noteq> DEP_NONE" using assms(4) by (auto simp: dep_mode_def DEP_NONE_def)
  then obtain opt where "dep_option F opt i (p_deps P ! i)" using dep_shape(2) [OF assms(1-3)] by blast
  then obtain mode v where w: "p_deps P ! i = dep_word mode (f_params F ! i) v" "mode = DEP_READ \<or> mode = DEP_WRITE"
    unfolding dep_option_def by blast
  have e: "FILC_ASYNC_DEP_POINTER = DEP_POINTER" by (simp add: FILC_ASYNC_DEP_POINTER_def DEP_POINTER_def)
  have b: "bit (p_deps P ! i) 2 = (f_params F ! i = Ptr_Ty)"
    using w by (auto simp: bit_dep_word bit_dep_consts)
  show "f_params F ! i = Ptr_Ty \<Longrightarrow> dep_space P i OR FILC_ASYNC_DEP_POINTER = dep_space P i"
    using b unfolding e by (intro bit_eqI) (auto simp: dep_space_def bit_or_iff bit_and_iff bit_not_iff bit_dep_consts)
  show "f_params F ! i \<noteq> Ptr_Ty \<Longrightarrow> dep_space P i AND NOT FILC_ASYNC_DEP_POINTER = dep_space P i"
    using b unfolding e by (intro bit_eqI) (auto simp: dep_space_def bit_or_iff bit_and_iff bit_not_iff bit_dep_consts)
qed

lemma acquire_list_ready:
  assumes F: "func_wf (sc_func C)" "parse_kinds (sc_func C) opts = Inr P"
    and ob: "\<forall>i\<in>set (acquire_list C P). obtained C t i s"
  shows "call_ready C P t s"
  unfolding call_ready_def
proof (intro allI impI conjI)
  fix i assume i: "i < f_nargs (sc_func C)"
  have c: "FILC_ASYNC_DEP_WRITE = DEP_WRITE" by (simp add: FILC_ASYNC_DEP_WRITE_def DEP_WRITE_def)
  show "holds_key (lk s) t (dep_mode P i = DEP_WRITE) (lock_key C i, dep_space P i)" if m: "dep_mode P i \<noteq> 0"
  proof (cases "f_params (sc_func C) ! i = Ptr_Ty")
    case True
    then have "Call_Lock_Ptr i (dep_space P i) (dep_mode P i) \<in> set (acquire_list C P)"
      using i m by (auto simp: acquire_list_def lock_call_def dep_mode_def dep_space_def Let_def intro!: bexI [of _ i])
    with ob have "obtained C t (Call_Lock_Ptr i (dep_space P i) (dep_mode P i)) s" by blast
    then show ?thesis using True space_pointer_bit(1) [OF F i m True] by (simp add: c lock_key_def Let_def)
  next
    case False
    then have "Call_Lock_Word i (dep_space P i) (dep_mode P i) \<in> set (acquire_list C P)"
      using i m by (auto simp: acquire_list_def lock_call_def dep_mode_def dep_space_def Let_def intro!: bexI [of _ i])
    with ob have "obtained C t (Call_Lock_Word i (dep_space P i) (dep_mode P i)) s" by blast
    then show ?thesis using False space_pointer_bit(2) [OF F i m False] by (simp add: c lock_key_def Let_def)
  qed
  show "has_mark s t (zlower (value_ptr (sc_args C ! i))) True"
    if "(p_kinds P ! i = ARG_BUFFER_OUT \<or> p_kinds P ! i = ARG_PENDING) \<and> zaddr (value_ptr (sc_args C ! i)) \<noteq> 0"
  proof -
    have "Call_Mark i \<in> set (acquire_list C P)"
      using i that by (auto simp: acquire_list_def mark_calls_def is_out_kind_def)
    with ob have "obtained C t (Call_Mark i) s" by blast
    then show ?thesis using that by simp
  qed
  show "has_mark s t (zlower (value_ptr (sc_args C ! i))) False"
    if "p_kinds P ! i = ARG_BUFFER_IN \<and> zaddr (value_ptr (sc_args C ! i)) \<noteq> 0"
  proof -
    have "Call_Mark_Input i \<in> set (acquire_list C P)" using i that by (auto simp: acquire_list_def input_calls_def)
    with ob have "obtained C t (Call_Mark_Input i) s" by blast
    then show ?thesis using that by simp
  qed
qed

text \<open>The prologue: the array is filled, the task is started on it, the rest is acquired.\<close>

definition stub_start :: "stub_regs" where
  "stub_start = \<lparr>sr_staging = 0, sr_task = 0, sr_ret = None\<rparr>"

definition arg_cells :: "stub_call \<Rightarrow> zptr list" where
  "arg_cells C = map (\<lambda>i. stage_cell (f_params (sc_func C) ! i) (sc_args C ! i)) [0..<f_nargs (sc_func C)]"

lemma prologue_split:
  assumes "f_nargs (sc_func C) < 2 ^ 28"
    and "stub_exec n E th C (stub_prologue (sc_func C) P) (stub_start, w) = Inr (r, w')"
  obtains t s where
    "filc_async_begin (Some (sc_meta C)) (sc_alloc C) (set_staged (sc_alloc C) (arg_cells C) (fst w)) = Inr (t, s)"
    "stub_exec n E th C (acquire_list C P) (\<lparr>sr_staging = sc_alloc C, sr_task = t, sr_ret = None\<rparr>, s, snd w) = Inr (r, w')"
proof -
  let ?N = "f_nargs (sc_func C)" and ?a = "sc_alloc C"
  let ?r = "\<lparr>sr_staging = ?a, sr_task = 0, sr_ret = None\<rparr>"
  let ?z = "replicate ?N null_ptr"
  let ?w1 = "upd_fw (set_staged ?a ?z) w"
  have "?N * 16 < 2 ^ 32" using assms(1) by simp
  then have "unat (of_nat (?N * 16) :: u32) = ?N * 16"
    by (simp only: unat_of_nat) (simp add: take_bit_nat_eq_self)
  then have "unat (of_nat ?N * 16 :: u32) = ?N * 16" by simp
  then have sz: "unat (ucast (of_nat ?N * 16 :: u32) :: u64) div 16 = ?N"
    using \<open>?N * 16 < 2 ^ 32\<close> by (simp add: unsigned_ucast_eq take_bit_word_eq_self take_bit_nat_eq_self)
  have split: "stub_prologue (sc_func C) P =
      [Call_Alloc (ucast (of_nat ?N * 16 :: u32)) 16] @ map Store_Arg [0..<?N] @ [Call_Begin] @ acquire_list C P"
    by (simp add: stub_prologue_def stage_arguments_def acquire_list_def)
  have a: "stub_exec n E th C [Call_Alloc (ucast (of_nat ?N * 16 :: u32)) 16] (stub_start, w) = Inr (?r, ?w1)"
    using sz by (simp add: stub_start_def)
  have stage: "stub_exec n E th C (map Store_Arg [0..<?N]) (?r, ?w1) = Inr (?r, upd_fw (set_staged ?a (arg_cells C)) w)"
    if "?a \<noteq> 0 \<or> ?N = 0"
  proof (cases "?N = 0")
    case True
    then show ?thesis by (simp add: arg_cells_def)
  next
    case False
    then show ?thesis
      using stage_run [of ?r ?a ?w1 ?N ?N n E th C] that
      by (simp add: arg_cells_def set_staged_def)
  qed
  have nz: "?a \<noteq> 0 \<or> ?N = 0"
  proof (rule ccontr)
    assume b: "\<not> (?a \<noteq> 0 \<or> ?N = 0)"
    then obtain k where "?N = Suc k" by (cases ?N) auto
    then have "map Store_Arg [0..<?N] = Store_Arg 0 # map Store_Arg [1..<?N]" by (simp add: upt_conv_Cons)
    then have "\<exists>e. stub_exec n E th C (map Store_Arg [0..<?N]) (?r, ?w1) = Inl e" using b by (simp add: store_arg_def)
    then show False using assms(2) a unfolding split stub_exec_append by auto
  qed
  from assms(2) a stage [OF nz] obtain x where
    b: "stub_exec n E th C [Call_Begin] (?r, upd_fw (set_staged ?a (arg_cells C)) w) = Inr x"
    and c: "stub_exec n E th C (acquire_list C P) x = Inr (r, w')"
    unfolding split stub_exec_append by auto
  from b obtain t s where "filc_async_begin (Some (sc_meta C)) ?a (set_staged ?a (arg_cells C) (fst w)) = Inr (t, s)"
    "x = (?r\<lparr>sr_task := t\<rparr>, s, snd w)" by auto
  with c that show thesis by simp
qed

section \<open>Properties\<close>

definition outputs_pending :: "stub_call \<Rightarrow> parsed \<Rightarrow> fw \<Rightarrow> bool" where
  "outputs_pending C P s \<longleftrightarrow> (\<forall>i<f_nargs (sc_func C).
     (p_kinds P ! i = ARG_BUFFER_OUT \<or> p_kinds P ! i = ARG_PENDING) \<and> zaddr (value_ptr (sc_args C ! i)) \<noteq> 0 \<longrightarrow>
     h_pending (headers (mk s) (zlower (value_ptr (sc_args C ! i)))))"

lemma ready_pending: "fw_inv s \<Longrightarrow> call_ready C P t s \<Longrightarrow> outputs_pending C P s"
  using mark_invD(6) [OF fw_invD(3)] unfolding outputs_pending_def call_ready_def has_mark_def flags_ok_def written_def
  by metis

text \<open>No other call is producing an output buffer of this one.\<close>

definition outputs_alone :: "stub_call \<Rightarrow> parsed \<Rightarrow> addr \<Rightarrow> fw \<Rightarrow> bool" where
  "outputs_alone C P t s \<longleftrightarrow> (\<forall>i<f_nargs (sc_func C). \<forall>m.
     (p_kinds P ! i = ARG_BUFFER_OUT \<or> p_kinds P ! i = ARG_PENDING) \<and> zaddr (value_ptr (sc_args C ! i)) \<noteq> 0 \<and>
     mark_live (mk s) m \<and> mk_lower (marks (mk s) m) = zlower (value_ptr (sc_args C ! i)) \<and> mk_write (marks (mk s) m) \<longrightarrow>
     mk_owner (marks (mk s) m) = t)"

lemma ready_alone: "fw_reach False s \<Longrightarrow> call_ready C P t s \<Longrightarrow> outputs_alone C P t s"
  using one_writerD [OF reach_one_writer] unfolding outputs_alone_def call_ready_def has_mark_def by metis

context runtime_contract begin

lemma prologue_spec:
  assumes "I w" and inv: "fw_inv (fst w)"
    and F: "func_wf (sc_func C)" "parse_kinds (sc_func C) opts = Inr P" "f_nargs (sc_func C) < 2 ^ 28"
    and meta: "m_runtime (sc_meta C) = Linked a" and t: "hd (task_answers (tk (fst w))) \<in> T"
    and bufs: "buffers_live C B (fst w)"
    and exec: "stub_exec n E th C (stub_prologue (sc_func C) P) (stub_start, w) = Inr (r, w')"
  shows "I w' \<and> (kept_step shr B T)\<^sup>*\<^sup>* (fst w) (fst w') \<and> sr_task r \<in> T \<and> is_running (tk (fst w')) (sr_task r) \<and>
    t_runtime (tasks (tk (fst w')) (sr_task r)) = Linked a \<and> call_ready C P (sr_task r) (fst w') \<and>
    sr_staging r = sc_alloc C"
proof -
  define w1 where "w1 = upd_fw (set_staged (sc_alloc C) (arg_cells C)) w"
  obtain t s where b: "filc_async_begin (Some (sc_meta C)) (sc_alloc C) (fst w1) = Inr (t, s)"
    and x: "stub_exec n E th C (acquire_list C P) (\<lparr>sr_staging = sc_alloc C, sr_task = t, sr_ret = None\<rparr>, s, snd w) = Inr (r, w')"
    unfolding w1_def fst_conv by (rule prologue_split [OF F(3) exec])
  define w2 where "w2 = (s, snd w1)"
  have x2: "stub_exec n E th C (acquire_list C P) (\<lparr>sr_staging = sc_alloc C, sr_task = t, sr_ret = None\<rparr>, w2) = Inr (r, w')"
    using x by (simp add: w2_def w1_def)
  have st1: "I w1" "(kept_step shr B T)\<^sup>*\<^sup>* (fst w) (fst w1)"
    unfolding w1_def fst_conv by (rule stage_reaches [OF assms(1) inv])+
  have i1: "fw_inv (fst w1)" by (rule kept_inv [OF st1(2) inv])
  have ta: "hd (task_answers (tk (fst w1))) \<in> T" using t by (simp add: w1_def)
  note st2 = begin_reaches [OF st1(1) i1 meta ta b, folded w2_def]
  have k2: "(kept_step shr B T)\<^sup>*\<^sup>* (fst w1) (fst w2)" using st2(2) by (simp add: w2_def)
  have i2: "fw_inv (fst w2)" by (rule kept_inv [OF k2 i1])
  have bl: "buffers_live C B (fst w2)"
    using bufs st2(7) by (simp add: buffers_live_def points_into_def Let_def w2_def w1_def)
  have rt: "t_runtime (tasks (tk (fst w2)) t) = Linked a" by (simp add: st2(5) task_new_def w2_def)
  have run: "is_running (tk (fst w2)) t" using st2(4) by (simp add: w2_def)
  let ?r = "\<lparr>sr_staging = sc_alloc C, sr_task = t, sr_ret = None\<rparr>"
  have e: "sr_task ?r = t" by simp
  note a = acquire_run [where r = ?r, unfolded e, OF st2(1) i2 st2(3) run rt acquire_list_ok [OF bl] x2]
  have k: "(kept_step shr B T)\<^sup>*\<^sup>* (fst w2) (fst w')" and r: "r = ?r" using a by blast+
  have "call_ready C P t (fst w')" using acquire_list_ready [OF F(1,2)] a by blast
  moreover have "(kept_step shr B T)\<^sup>*\<^sup>* (fst w) (fst w')"
    by (rule rtranclp_trans [OF st1(2) rtranclp_trans [OF k2 k]])
  ultimately show ?thesis using a kept_task [OF k i2 st2(3) run rt] st2(3) by (simp add: r)
qed

end

text \<open>C10. When a stub is about to hand its call to the runtime, the call's task is running and owns
  everything its descriptor names: the lock of every dependency, under the argument's value in
  the option's namespace and in the option's mode, a write mark on every output buffer, which
  is pending, and a mark on every input buffer; where no runtime adds shared write marks no
  other call is producing any of its output buffers; and all that happened were framework
  steps.\<close>

theorem stub_acquires:
  assumes "runtime_contract shr B T I E" and "I w" and "fw_reach shr (fst w)"
    and "func_wf (sc_func C)" and "parse_kinds (sc_func C) opts = Inr P" and "f_nargs (sc_func C) < 2 ^ 28"
    and "m_runtime (sc_meta C) = Linked a" and "hd (task_answers (tk (fst w))) \<in> T"
    and "buffers_live C B (fst w)"
    and "stub_exec n E th C (stub_prologue (sc_func C) P) (stub_start, w) = Inr (r, w')"
  shows "(fw_step shr)\<^sup>*\<^sup>* (fst w) (fst w') \<and> task_state (fst w') (sr_task r) = 1 \<and>
    call_ready C P (sr_task r) (fst w') \<and> outputs_pending C P (fst w') \<and>
    (\<not> shr \<longrightarrow> outputs_alone C P (sr_task r) (fst w'))"
proof -
  note inv = fw_reach_inv [OF assms(3)]
  note p = runtime_contract.prologue_spec [OF assms(1,2) inv assms(4-10)]
  have k: "(kept_step shr B T)\<^sup>*\<^sup>* (fst w) (fst w')" using p by blast
  have "outputs_pending C P (fst w')" using ready_pending [OF kept_inv [OF k inv]] p by blast
  moreover have "outputs_alone C P (sr_task r) (fst w')" if "\<not> shr"
  proof (rule ready_alone)
    show "fw_reach False (fst w')" using fw_steps_reach [OF kept_steps [OF k] assms(3)] that by simp
  qed (use p in blast)
  ultimately show ?thesis using p kept_steps [OF k] by (simp add: is_running_def task_state_def)
qed

text \<open>A stub call is its prologue and the call of \<open>filc_async_submit\<close>, and it returns the task unless the
  function returns nothing.\<close>

lemma call_stub_eq:
  "call_stub n E th C P w =
     res_bind (stub_exec n E th C (stub_prologue (sc_func C) P) (stub_start, w)) (\<lambda>(r, w1).
     res_bind (filc_async_submit E th (sr_task r) (sc_meta C) (sc_run C) (sr_staging r) (of_nat (f_nargs (sc_func C))) w1)
       (\<lambda>w2. Inr (if ft_ret (f_type (sc_func C)) = Void_Ty then None else Some (sr_task r), w2)))"
proof -
  let ?E = "stub_exec n E th C [Call_Submit (of_nat (f_nargs (sc_func C))),
      if ft_ret (f_type (sc_func C)) = Void_Ty then Ret_Void else Ret_Task]"
  have e: "map_sum id (\<lambda>(r, w1). (sr_ret r, w1)) (?E (r, w1)) =
      res_bind (filc_async_submit E th (sr_task r) (sc_meta C) (sc_run C) (sr_staging r) (of_nat (f_nargs (sc_func C))) w1)
       (\<lambda>w2. Inr (if ft_ret (f_type (sc_func C)) = Void_Ty then None else Some (sr_task r), w2))" for r w1
    by (cases "filc_async_submit E th (sr_task r) (sc_meta C) (sc_run C) (sr_staging r) (of_nat (f_nargs (sc_func C))) w1")
      simp_all
  show ?thesis
  proof (cases "stub_exec n E th C (stub_prologue (sc_func C) P) (stub_start, w)")
    case (Inr x)
    then show ?thesis
      using e by (cases x) (simp add: call_stub_def emit_stub_def stub_exec_append stub_start_def [symmetric])
  qed (simp add: call_stub_def emit_stub_def stub_exec_append stub_start_def [symmetric])
qed

definition word_value :: "ir_type \<Rightarrow> ir_value \<Rightarrow> int" where
  "word_value ty v =
    (case ty of
       Int_Ty k \<Rightarrow> (case v of Int_V x \<Rightarrow> signed_take_bit (k - 1) (int x) | _ \<Rightarrow> 0)
     | Ptr_Ty \<Rightarrow> sint (zaddr (value_ptr v))
     | _ \<Rightarrow> 0)"

definition small_result :: "ir_type \<Rightarrow> bool" where
  "small_result ty = (case ty of Int_Ty k \<Rightarrow> 0 < k \<and> k \<le> 64 | _ \<Rightarrow> True)"

lemma result_word_sint:
  assumes "small_result ty" and "has_type v ty \<or> ty = Void_Ty"
  shows "sint (result_word ty v) = word_value ty v"
proof (cases ty)
  case (Int_Ty k)
  then obtain x where v: "v = Int_V x" "x < 2 ^ k" "0 < k" "k \<le> 64" using assms by (cases v) (auto simp: small_result_def)
  show ?thesis
  proof (cases "k < 64")
    case True
    have "signed_take_bit 63 (signed_take_bit (k - 1) (int x)) = signed_take_bit (k - 1) (int x)"
      using True v(3) by (auto simp: signed_take_bit_signed_take_bit min_def)
    then show ?thesis using True v by (simp add: Int_Ty result_word_def word_value_def sint_sbintrunc')
  next
    case False
    then have "k = 64" using v(4) by simp
    then show ?thesis using v
      by (simp add: Int_Ty result_word_def word_value_def sint_uint unsigned_of_nat take_bit_nat_eq_self)
  qed
qed (use assms in \<open>auto simp: result_word_def word_value_def\<close>)

text \<open>C25. The run thunk hands the body the arguments the caller passed: pointers with their
  capability and integers of up to 64 bits unchanged, anything else as a null value; and a
  result of up to 64 bits keeps its sign.\<close>

theorem thunk_roundtrip:
  assumes "list_all2 has_type (sc_args C) (f_params (sc_func C))"
    and "staged (tk (fst w)) (sc_alloc C) = arg_cells C"
    and "body th (map2 carried (f_params (sc_func C)) (sc_args C)) w = Inr (v, w1)"
    and "small_result (ft_ret (f_type (sc_func C)))"
    and "has_type v (ft_ret (f_type (sc_func C))) \<or> ft_ret (f_type (sc_func C)) = Void_Ty"
  shows "\<exists>x. run_thunk (sc_func C) body th (sc_alloc C) w = Inr (x, w1) \<and>
    sint x = word_value (ft_ret (f_type (sc_func C))) v"
proof -
  have l: "length (sc_args C) = f_nargs (sc_func C)" using assms(1) by (rule list_all2_lengthD)
  have "arg_cells C = map2 stage_cell (f_params (sc_func C)) (sc_args C)"
    by (rule nth_equalityI) (simp_all add: arg_cells_def l)
  then have "load_args (f_params (sc_func C)) (staged (tk (fst w)) (sc_alloc C)) =
      Inr (map2 carried (f_params (sc_func C)) (sc_args C))"
    using load_stage_args [OF assms(1)] assms(2) by simp
  then show ?thesis using assms(3) result_word_sint [OF assms(4,5)] by (simp add: run_thunk_def)
qed


section \<open>Witnesses\<close>

text \<open>\<open>void put(void *out, long key)\<close> with \<open>bout=out\<close> and \<open>w_dep=key:file\<close>, called with an object at
  \<open>0x1000\<close> and key 7.\<close>

definition put_func :: ir_func where
  "put_func = \<lparr>f_type = \<lparr>ft_ret = Void_Ty, ft_params = [Ptr_Ty, Int_Ty 64], ft_vararg = False\<rparr>,
     f_arg_names = [''out'', ''key''], f_params_md = None, f_const_md = None,
     f_declaration = False, f_linkage = External_Linkage, f_visibility = 0\<rparr>"

definition put_opts :: "string list" where
  "put_opts = [''runtime=rt'', ''bout=out'', ''w_dep=key:file'']"

definition put_parsed :: parsed where
  "put_parsed = \<lparr>p_kinds = [3, 0], p_deps = [0, dep_word DEP_WRITE (Int_Ty 64) ''key:file''], p_noped = 1\<rparr>"

lemma put_parse: "parse_kinds put_func put_opts = Inr put_parsed"
  by (simp add: put_func_def put_opts_def put_parsed_def pass_eval DEP_NONE_def)

definition put_call :: stub_call where
  "put_call = \<lparr>sc_func = put_func, sc_meta = demo_meta, sc_run = 0x9100,
     sc_args = [Ptr_V demo_buf, Int_V 7], sc_alloc = 0x700\<rparr>"

definition put_start :: fw where
  "put_start = fw_start [0x100] [0x8000] [0x2000] [0x2100] [0x300] [] {0x100} [0x1000 \<mapsto> 0x1040] (\<lambda>_. False)"

lemma put_mode: "dep_word DEP_WRITE (Int_Ty 64) v AND 3 = 2"
  by (simp add: word32_bits_0_1 bit_dep_word bit_dep_consts)

lemma put_reach: "fw_reach shr put_start"
  unfolding put_start_def by (rule fw_reach.start) (simp add: start_ok_def count_range_def objects_ok_def)

lemma put_runs: "\<exists>r w'. stub_exec 0 (demo_env {0x100}) demo_thread put_call (stub_prologue put_func put_parsed)
    (stub_start, put_start, ()) = Inr (r, w') \<and> sr_task r = 0x100"
  by (simp add: stub_prologue_def put_func_def put_parsed_def stage_arguments_def put_mode [unfolded DEP_WRITE_def]
      lock_call_def mark_calls_def input_calls_def is_out_kind_def arg_consts DEP_READ_def DEP_WRITE_def)
    (simp add: put_call_def put_func_def stub_start_def set_staged_def store_arg_def put_start_def fw_eval
     stage_cell_def value_ptr_def value_word_def int_cell_def filc_async_mark_pending_def mark_clear.simps
     demo_thread_def put_mode [unfolded DEP_WRITE_def] filc_async_lock_word_def lock_take_def lock_eval lock_wait.simps
      FILC_ASYNC_DEP_POINTER_def FILC_ASYNC_DEP_WRITE_def)

theorem stub_acquires_witness:
  "\<exists>r w'. stub_exec 0 (demo_env {0x100}) demo_thread put_call (stub_prologue put_func put_parsed)
       (stub_start, put_start, ()) = Inr (r, w') \<and> h_pending (headers (mk (fst w')) 0x1000) \<and>
     holds_key (lk (fst w')) 0x100 True (7, dep_space put_parsed 1)"
proof -
  obtain r w' where x: "stub_exec 0 (demo_env {0x100}) demo_thread put_call (stub_prologue (sc_func put_call) put_parsed)
      (stub_start, put_start, ()) = Inr (r, w')" and r: "sr_task r = 0x100"
    using put_runs by (auto simp: put_call_def simp del: split_paired_Ex)
  have n: "f_nargs put_func = 2" "sc_func put_call = put_func" "f_params put_func ! 1 = Int_Ty 64"
    by (simp_all add: put_func_def put_call_def)
  have p: "func_wf (sc_func put_call)" "parse_kinds (sc_func put_call) put_opts = Inr put_parsed"
    "f_nargs (sc_func put_call) < 2 ^ 28" "m_runtime (sc_meta put_call) = Linked 0x9000"
    by (simp_all add: n put_parse) (simp_all add: put_call_def put_func_def func_wf_def demo_meta_def)
  have t: "fw_reach False (fst (put_start, ()))" "hd (task_answers (tk (fst (put_start, ())))) \<in> {0x100}"
    using put_reach by (simp_all add: put_start_def fw_start_def)
  have b: "buffers_live put_call {demo_buf} (fst (put_start, ()))"
    by (auto simp: buffers_live_def n less_2_cases_iff Let_def put_call_def value_ptr_def null_ptr_def
        points_into_def put_start_def fw_start_def demo_buf_def)
  have "call_ready put_call put_parsed 0x100 (fst w') \<and> outputs_pending put_call put_parsed (fst w') \<and>
      outputs_alone put_call put_parsed 0x100 (fst w')"
    using stub_acquires [OF demo_env_ok TrueI t(1) p t(2) b x] r by simp
  then have c: "call_ready put_call put_parsed 0x100 (fst w')" and o: "outputs_pending put_call put_parsed (fst w')"
    by blast+
  have "dep_mode put_parsed 1 = 2"
    by (simp add: dep_mode_def put_parsed_def DEP_READ_def put_mode) (simp add: DEP_WRITE_def put_mode [unfolded DEP_WRITE_def])
  moreover have "lock_key put_call 1 = 7" by (simp add: lock_key_def put_call_def put_func_def value_word_def)
  ultimately have "holds_key (lk (fst w')) 0x100 True (7, dep_space put_parsed 1)"
    using c [unfolded call_ready_def, rule_format, of 1] by (simp add: n DEP_WRITE_def)
  moreover have "h_pending (headers (mk (fst w')) 0x1000)"
    using o [unfolded outputs_pending_def, rule_format, of 0]
    by (simp add: n put_parsed_def is_out_kind_def arg_consts put_call_def value_ptr_def demo_buf_def)
  ultimately show ?thesis using x n by auto
qed

definition put_body :: "thread \<Rightarrow> ir_value list \<Rightarrow> unit world \<Rightarrow> (ir_value \<times> unit world) outcome" where
  "put_body th args w = Inr (Int_V 0xFFFFFFFE, w)"

definition neg_call :: stub_call where
  "neg_call = put_call\<lparr>sc_func := put_func\<lparr>f_type := (f_type put_func)\<lparr>ft_ret := Int_Ty 32\<rparr>\<rparr>\<rparr>"

text \<open>A body that returns the 32-bit -2 is a task with the result -2.\<close>

theorem thunk_roundtrip_witness:
  "\<exists>x. run_thunk (sc_func neg_call) put_body demo_thread 0x700 (set_staged 0x700 (arg_cells neg_call) put_start, ()) =
     Inr (x, set_staged 0x700 (arg_cells neg_call) put_start, ()) \<and> sint x = - 2"
proof -
  have "sc_alloc neg_call = 0x700" "ft_ret (f_type (sc_func neg_call)) = Int_Ty 32"
    "list_all2 has_type (sc_args neg_call) (f_params (sc_func neg_call))"
    by (simp_all add: neg_call_def put_call_def put_func_def)
  then show ?thesis
    using thunk_roundtrip [of neg_call "(set_staged 0x700 (arg_cells neg_call) put_start, ())" put_body demo_thread
        "Int_V 0xFFFFFFFE" "(set_staged 0x700 (arg_cells neg_call) put_start, ())"]
    by (simp add: put_body_def small_result_def word_value_def signed_take_bit_eq_if_negative mask_eq_exp_minus_1
        bit_iff_odd take_bit_eq_mod)
qed

section \<open>The width of a scalar key\<close>

text \<open>The argument a caller passes for the number \<open>z\<close> where the parameter has \<open>k\<close> bits.\<close>

definition int_arg :: "nat \<Rightarrow> int \<Rightarrow> ir_value" where
  "int_arg k z = Int_V (nat (take_bit k z))"

text \<open>A dependency on an integer is locked under the number the caller passed only when it is not
  negative or the parameter has 64 bits: a negative number passed to a narrower parameter gets
  another key, so calls that name it at different widths do not exclude each other.\<close>

theorem scalar_key_width:
  assumes "0 < k" and "k \<le> 64" and "- (2 ^ (k - 1)) \<le> z" and "z < 2 ^ (k - 1)"
  shows "value_word (int_arg k z) = word_of_int z \<longleftrightarrow> 0 \<le> z \<or> k = 64"
proof -
  have p: "(2 :: int) ^ k = 2 * 2 ^ (k - 1)" using assms(1) by (cases k) simp_all
  have le: "(2 :: int) ^ k \<le> 2 ^ 64" using assms(2) by (intro power_increasing) auto
  have w: "value_word (int_arg k z) = (word_of_int (take_bit k z) :: u64)"
    by (simp add: value_word_def int_arg_def)
  have b: "0 \<le> take_bit k z" "take_bit k z < 2 ^ 64"
    using le take_bit_int_less_exp [of k z] by (simp, linarith)
  have e: "value_word (int_arg k z) = (word_of_int z :: u64) \<longleftrightarrow> take_bit k z = take_bit 64 z"
    unfolding w using b assms(2) by (simp add: word_of_int_eq_iff take_bit_int_eq_self min_absorb2)
  show ?thesis
  proof (cases "0 \<le> z")
    case True
    then have "take_bit k z = z" "take_bit 64 z = z"
      using assms(4) p le by (simp_all add: take_bit_int_eq_self)
    then show ?thesis using e True by simp
  next
    case False
    have k: "take_bit k z = z + 2 ^ k"
      using take_bit_int_eq_self [of "z + 2 ^ k" k] False assms(3) p by (simp add: take_bit_eq_mod)
    have l: "take_bit 64 z = z + 2 ^ 64"
      using take_bit_int_eq_self [of "z + 2 ^ 64" 64] False assms(3) p le by (simp add: take_bit_eq_mod)
    have "(2 :: int) ^ k = 2 ^ 64 \<longleftrightarrow> k = 64" by (rule power_inject_exp) simp
    then show ?thesis using e False unfolding k l by simp
  qed
qed

text \<open>The pending-open handle -2 as an \<open>int\<close> and as a \<open>long\<close>.\<close>

theorem scalar_key_width_witness:
  "value_word (int_arg 32 (- 2)) \<noteq> word_of_int (- 2) \<and> value_word (int_arg 64 (- 2)) = word_of_int (- 2)"
  using scalar_key_width [of 32 "- 2"] scalar_key_width [of 64 "- 2"] by simp

end
