(* ===== verification/SampleModule.thy ===== *)
theory SampleModule
  imports ModuleInv StubRuns
begin

text \<open>
  A module on which the theorems about the pass are applied: one annotated function, one annotation of
  another consumer, three calls.
\<close>

text \<open>\<open>put.c\<close> before the pass: \<open>put\<close> is annotated for the runtime \<open>rt\<close>, \<open>other\<close> carries an annotation of
  another consumer, and \<open>main\<close> calls \<open>put\<close> three times: plainly, from a call that can unwind, and through
  a declaration without a prototype.\<close>

definition sample_text :: "string \<Rightarrow> ir_global" where
  "sample_text s = \<lparr>gv_init = Some (Const_String (s @ [CHR 0x00])), gv_constant = True,
     gv_linkage = Private_Linkage, gv_section = []\<rparr>"

definition sample_const :: "ir_const \<Rightarrow> string \<Rightarrow> ir_global" where
  "sample_const c sec = \<lparr>gv_init = Some c, gv_constant = True, gv_linkage = Private_Linkage, gv_section = sec\<rparr>"

definition put_entry :: ir_const where
  "put_entry = Const_Struct [Global_Ref 8, Global_Ref 1, Global_Ref 2, Const_Int 32 4, Global_Ref 3]"

definition other_entry :: ir_const where
  "other_entry = Const_Struct [Global_Ref 9, Global_Ref 7, Global_Ref 2, Const_Int 32 9, Const_Null]"

definition put_args :: ir_const where
  "put_args = Const_Struct [Global_Ref 4, Global_Ref 5, Global_Ref 6]"

definition sample_root :: ir_const where
  "sample_root = Const_Array [put_entry, other_entry]"

definition sample_vars :: "gid \<Rightarrow> ir_global" where
  "sample_vars g =
    (if g = 0 then sample_const sample_root ''llvm.metadata''
     else if g = 1 then sample_text ''filc_async'' else if g = 2 then sample_text ''put.c''
     else if g = 3 then sample_const put_args ''llvm.metadata''
     else if g = 4 then sample_text ''runtime=rt'' else if g = 5 then sample_text ''bout=out''
     else if g = 6 then sample_text ''w_dep=key:file'' else sample_text ''other'')"

definition sample_names :: "gid \<Rightarrow> string" where
  "sample_names g = [''llvm.global.annotations'', ''.str'', ''.str.1'', ''.args'', ''.str.2'', ''.str.3'', ''.str.4'',
     ''.str.5'', ''put'', ''main''] ! g"

definition main_func :: ir_func where
  "main_func = \<lparr>f_type = \<lparr>ft_ret = Int_Ty 32, ft_params = [], ft_vararg = False\<rparr>, f_arg_names = [], f_params_md = None,
     f_const_md = None, f_declaration = False, f_linkage = External_Linkage, f_visibility = 0\<rparr>"

definition main_code :: "ir_instr list" where
  "main_code =
     [Call_Instr Plain_Call 8 (f_type put_func) [Const_Null, Const_Int 64 7],
      Call_Instr Invoke 8 (f_type put_func) [Const_Null, Const_Int 64 7],
      Call_Instr Plain_Call 8 \<lparr>ft_ret = Void_Ty, ft_params = [], ft_vararg = True\<rparr> [Const_Null]]"

definition sample :: ir_module where
  "sample = \<lparr>vars = [0, 1, 2, 3, 4, 5, 6, 7], fns = [8, 9], var_def = sample_vars,
     fn_def = (\<lambda>g. if g = 8 then put_func else main_func), aliases = [], gname = sample_names,
     bodies = (\<lambda>g. if g = 9 then main_code else []), pool = [sample_root, put_entry, other_entry, put_args],
     stub_code = (\<lambda>_. []), ctors = [], next_gid = 10\<rparr>"

definition more_primes :: uniq where
  "more_primes taken n = n @ replicate (Suc (sum_list (map length taken))) (CHR ''.'')"

lemma more_primes_ok: "uniq_ok more_primes"
proof -
  have "more_primes taken n \<notin> set taken" for taken n
  proof
    assume "more_primes taken n \<in> set taken"
    then have "length (more_primes taken n) \<le> sum_list (map length taken)" by (intro member_le_sum_list) auto
    then show False by (simp add: more_primes_def)
  qed
  then show ?thesis by (simp add: uniq_ok_def)
qed

lemma sample_live: "live_gids sample = [0, 1, 2, 3, 4, 5, 6, 7, 8, 9]"
  by (simp add: live_gids_def sample_def)

lemmas sample_eval = sample_def sample_vars_def sample_const_def sample_text_def sample_root_def put_entry_def
  other_entry_def put_args_def main_code_def

lemma sample_consts:
  "const_ok sample (Global_Ref x) \<longleftrightarrow> x < 10" "const_ok sample put_entry" "const_ok sample other_entry"
  "const_ok sample put_args" "const_ok sample sample_root" "const_ok sample (Const_String s)" "const_ok sample (Const_Int w n)"
  "const_ok sample Const_Null"
proof -
  have "x \<in> set (live_gids sample) \<longleftrightarrow> x < 10" by (auto simp: sample_live)
  then show "const_ok sample (Global_Ref x) \<longleftrightarrow> x < 10" by (simp add: const_ok_def)
qed (simp_all add: const_ok_def sample_eval)

lemma sample_ok: "module_ok sample"
proof -
  have "inj_on sample_names (set (live_gids sample))"
    unfolding sample_live by (simp add: inj_on_def sample_names_def)
  moreover have "\<forall>g\<in>set (live_gids sample). g < next_gid sample" unfolding sample_live by (simp add: sample_def)
  moreover have "\<forall>p\<in>set (pool sample). \<forall>c\<in>set (operands p). const_ok sample c"
    using sample_consts by (simp add: sample_def) (simp add: sample_root_def put_entry_def other_entry_def put_args_def sample_consts)
  moreover have "\<forall>g\<in>set (vars sample). \<forall>c. gv_init (var_def sample g) = Some c \<longrightarrow> const_ok sample c"
    using sample_consts by (simp add: sample_def sample_vars_def sample_const_def sample_text_def)
  moreover have "\<forall>g\<in>set (fns sample). \<forall>i\<in>set (bodies sample g). \<forall>c\<in>set (instr_uses i). const_ok sample c"
    using sample_consts by (simp add: sample_def main_code_def instr_uses_def)
  ultimately show ?thesis
    unfolding module_ok_def by (simp add: sample_live) (simp add: sample_def)
qed

lemma sample_annotations: "annotations_root sample = Some (0, sample_root)"
  by (rule annotations_root_named [OF sample_ok]) (simp_all add: sample_def sample_names_def sample_vars_def sample_const_def)

lemma sample_unused: "use_empty sample (Global_Ref 0)"
  by (simp add: use_empty_def sample_eval instr_uses_def)

end
