(* ===== verification/TeardownRuns.thy ===== *)
theory TeardownRuns
  imports SampleModule
begin

text \<open>
  \<^verbatim>\<open>enrollAnnotatedFunctions\<close> and \<^verbatim>\<open>eraseAnnotations\<close>: what is enrolled, and that erasing the
  annotations leaves exactly the entries of the other consumers.
\<close>

section \<open>Enrolment\<close>

definition annotates :: "ir_module \<Rightarrow> gid \<Rightarrow> ir_const \<Rightarrow> bool" where
  "annotates M f e \<longleftrightarrow> is_filc_async_entry M e \<and> extract_function M (operands e ! 0) = Some f"

definition entry_of :: "ir_module \<Rightarrow> ir_const list \<Rightarrow> gid \<Rightarrow> string list option" where
  "entry_of M es f = map_option (\<lambda>e. entry_opts M (operands e ! 4)) (List.find (annotates M f) (rev es))"

lemma map_of_ann_put: "map_of (ann_put g x A) f = (if f = g then Some x else map_of A f)"
  by (induction g x A rule: ann_put.induct) auto

lemma fst_ann_put: "fst ` set (ann_put g x A) = insert g (fst ` set A)"
  by (induction g x A rule: ann_put.induct) auto

lemma ann_put_sorted: "sorted_wrt (<) (map fst A) \<Longrightarrow> sorted_wrt (<) (map fst (ann_put g x A))"
proof (induction g x A rule: ann_put.induct)
  case (2 g x h y A)
  have s: "\<forall>z\<in>fst ` set A. h < z" "sorted_wrt (<) (map fst A)" using "2.prems" by auto
  show ?case
  proof (cases "h < g")
    case True
    then have "sorted_wrt (<) (map fst (ann_put g x A))" using "2.IH" s(2) by simp
    moreover have "\<forall>z\<in>fst ` set (ann_put g x A). h < z" using s(1) True by (simp add: fst_ann_put)
    ultimately show ?thesis using True by auto
  next
    case False
    then show ?thesis using s by (cases "g = h") auto
  qed
qed simp

lemma find_append: "List.find P (xs @ ys) = (case List.find P xs of Some x \<Rightarrow> Some x | None \<Rightarrow> List.find P ys)"
  by (induction xs) auto

lemma entry_of_Cons:
  "entry_of M (e # es) f =
     (case entry_of M es f of Some x \<Rightarrow> Some x
      | None \<Rightarrow> if annotates M f e then Some (entry_opts M (operands e ! 4)) else None)"
  by (auto simp: entry_of_def find_append split: option.splits)

lemma enroll_entries_spec:
  assumes "sorted_wrt (<) (map fst A)"
  shows "case enroll_entries M es A of
      Inl err \<Rightarrow> err = Not_A_Function \<and> (\<exists>e\<in>set es. is_filc_async_entry M e \<and> extract_function M (operands e ! 0) = None)
    | Inr A' \<Rightarrow> (\<forall>e\<in>set es. is_filc_async_entry M e \<longrightarrow> extract_function M (operands e ! 0) \<noteq> None) \<and>
        sorted_wrt (<) (map fst A') \<and>
        (\<forall>f. map_of A' f = (case entry_of M es f of Some x \<Rightarrow> Some x | None \<Rightarrow> map_of A f))"
  using assms
proof (induction es arbitrary: A)
  case Nil
  then show ?case by (simp add: entry_of_def)
next
  case (Cons e es)
  show ?case
  proof (cases "is_filc_async_entry M e")
    case False
    then have "entry_of M (e # es) f = entry_of M es f" for f
      by (simp add: entry_of_Cons annotates_def split: option.split)
    then show ?thesis using Cons.IH [OF Cons.prems] False by (simp split: sum.splits)
  next
    case True
    note entry = True
    show ?thesis
    proof (cases "extract_function M (operands e ! 0)")
      case None
      then show ?thesis using entry by simp
    next
      case (Some f)
      let ?A = "ann_put f (entry_opts M (operands e ! 4)) A"
      have a: "annotates M h e = (h = f)" for h using entry Some by (auto simp: annotates_def)
      have eq: "(case entry_of M (e # es) h of Some x \<Rightarrow> Some x | None \<Rightarrow> map_of A h) =
        (case entry_of M es h of Some x \<Rightarrow> Some x | None \<Rightarrow> map_of ?A h)" for h
        by (simp add: entry_of_Cons a map_of_ann_put split: option.split)
      have run: "enroll_entries M (e # es) A = enroll_entries M es ?A" using entry Some by simp
      show ?thesis
        unfolding run eq using Cons.IH [OF ann_put_sorted [OF Cons.prems], of f "entry_opts M (operands e ! 4)"] entry Some
        by (cases "enroll_entries M es ?A") simp_all
    qed
  qed
qed

lemma enroll_array:
  assumes "annotations_root M = Some (g, root)" and "strip_casts root = Const_Array es"
  shows "enroll M = enroll_entries M es []"
  by (simp add: enroll_def assms)

lemma enroll_foreign:
  assumes "\<And>g root es e. annotations_root M = Some (g, root) \<Longrightarrow> strip_casts root = Const_Array es \<Longrightarrow> e \<in> set es \<Longrightarrow>
    \<not> is_filc_async_entry M e"
  shows "enroll M = Inr []"
proof (cases "annotations_root M")
  case None
  then show ?thesis by (simp add: enroll_def)
next
  case (Some p)
  then obtain g root where r: "annotations_root M = Some (g, root)" by (cases p) simp
  show ?thesis
  proof (cases "\<exists>es. strip_casts root = Const_Array es")
    case True
    then obtain es where es: "strip_casts root = Const_Array es" by blast
    show ?thesis using enroll_nothing assms r es by (simp add: enroll_def)
  next
    case False
    then show ?thesis by (cases "strip_casts root") (simp_all add: enroll_def r)
  qed
qed

lemma entry_kept:
  assumes "\<forall>c\<in>set (operands e). var_init M' c = var_init M c"
  shows "is_filc_async_entry M' e = is_filc_async_entry M e"
proof (cases "\<exists>ops. e = Const_Struct ops \<and> length ops = 5")
  case True
  then obtain ops where e: "e = Const_Struct ops" "length ops = 5" by blast
  have "ops ! 1 \<in> set (operands e)" using e by simp
  then have "underlying_string M' (ops ! 1) = underlying_string M (ops ! 1)"
    using assms by (simp add: underlying_string_def)
  then show ?thesis by (simp add: e is_filc_async_entry_def)
next
  case False
  then show ?thesis by (cases e) (auto simp: is_filc_async_entry_def)
qed

lemma teardown_done:
  assumes "module_ok M" and "uniq_ok uniq" and "annotations_root M = Some (g, root)" and "use_empty M (Global_Ref g)"
  shows "\<exists>M'. erase_annotations uniq M = Some M' \<and> torn_down M g root M' \<and> enroll M' = Inr [] \<and>
    map_option snd (annotations_root M') =
      (if foreign_entries M root = [] then None else Some (Const_Array (foreign_entries M root))) \<and>
    (\<forall>e\<in>set (foreign_entries M root). \<forall>c\<in>set (operands e). var_init M' c = var_init M c)"
proof -
  let ?f = "foreign_entries M root" and ?k = "next_gid M"
  note r = annotations_rootD [OF assms(3)] and x = erase_unused [OF assms(1,3,4)]
  obtain M' where M': "erase_annotations uniq M = Some M'" "torn_down M g root M'"
    "?f \<noteq> [] \<longrightarrow> ?k \<in> set (vars M') \<and> gname M' ?k = ''llvm.global.annotations'' \<and>
       gv_init (var_def M' ?k) = Some (Const_Array ?f) \<and> gv_linkage (var_def M' ?k) = gv_linkage (var_def M g) \<and>
       gv_section (var_def M' ?k) = gv_section (var_def M g)"
    "?f = [] \<longrightarrow> ?k \<notin> set (vars M')"
    using teardown_run [OF assms] by blast
  have ok: "module_ok M'" and t: "torn M g M'" using M'(2) by (simp_all add: torn_down_def)
  have strings: "\<forall>e\<in>set ?f. \<forall>c\<in>set (operands e). var_init M' c = var_init M c"
    using foreign_strings [OF assms(1) M'(2) x(5)] M'(3) by auto
  have root: "annotations_root M' = (if ?f = [] then None else Some (?k, Const_Array ?f))"
  proof (cases "?f = []")
    case False
    then show ?thesis using annotations_root_named [OF ok] M'(3) by simp
  next
    case True
    have "''llvm.global.annotations'' \<notin> gname M' ` set (live_gids M')"
    proof
      assume "''llvm.global.annotations'' \<in> gname M' ` set (live_gids M')"
      then obtain h where h: "h \<in> set (live_gids M')" "gname M' h = ''llvm.global.annotations''" by force
      have "?k \<notin> set (live_gids M)" using module_okD(3) [OF assms(1)] by blast
      then have n: "h \<noteq> ?k" using h(1) M'(4) True tornD(1,2) [OF t] by (auto simp: live_gids_def)
      then have l: "h \<in> set (live_gids M)" "h \<noteq> g"
        using h(1) tornD(1-3) [OF t] module_okD(1) [OF assms(1)] r(1) by (auto simp: live_gids_def)
      have "gname M h = gname M g" using h(2) tornD(5) [OF t n] r(3) by simp
      moreover have "g \<in> set (live_gids M)" using r(1) by (simp add: live_gids_def)
      ultimately show False using module_okD(2) [OF assms(1)] l by (auto dest: inj_onD)
    qed
    then show ?thesis using annotations_root_none True by simp
  qed
  have "enroll M' = Inr []"
  proof (rule enroll_foreign)
    fix h r' es e assume a: "annotations_root M' = Some (h, r')" "strip_casts r' = Const_Array es" "e \<in> set es"
    then have "?f \<noteq> []" "r' = Const_Array ?f" using root by (auto split: if_splits)
    then have "e \<in> set ?f" using a(2,3) by simp
    then show "\<not> is_filc_async_entry M' e"
      using foreign_ok(2) [OF assms(1) x(5)] entry_kept strings by blast
  qed
  then show ?thesis using M'(1,2) root strings by (intro exI [of _ M']) simp
qed

text \<open>C12.  Erasing the consumed annotations (\<^verbatim>\<open>eraseAnnotations\<close>) ends, on every well-formed module, with a
  well-formed module: nothing that is still used is destroyed.  No function, alias, body, constructor,
  name or initialiser changes; a variable that is gone was the old annotation table or something it
  leads to.  What is left of the annotations is exactly the entries of other consumers, whose operands
  mean what they meant, so a second enrolment finds nothing.\<close>

theorem teardown_exact:
  assumes "module_ok M" and "uniq_ok uniq" and "annotations_root M = Some (g, root)" and "use_empty M (Global_Ref g)"
  shows "\<exists>M'. erase_annotations uniq M = Some M' \<and> torn_down M g root M' \<and> enroll M' = Inr [] \<and>
    map_option snd (annotations_root M') =
      (if foreign_entries M root = [] then None else Some (Const_Array (foreign_entries M root))) \<and>
    (\<forall>e\<in>set (foreign_entries M root). \<forall>c\<in>set (operands e). var_init M' c = var_init M c)"
  by (rule teardown_done [OF assms])

text \<open>\<^verbatim>\<open>enrollAnnotatedFunctions\<close> gives up exactly when a \<^verbatim>\<open>filc_async\<close> entry does not name a
  function, whatever the other consumers' entries are; otherwise a function is enrolled exactly when an
  entry names it, once, with the options of the last one that does, in the order of the functions'
  addresses.\<close>

theorem enroll_exact:
  assumes "annotations_root M = Some (g, root)" and "strip_casts root = Const_Array es"
  shows "(enroll M = Inl Not_A_Function \<longleftrightarrow>
      (\<exists>e\<in>set es. is_filc_async_entry M e \<and> extract_function M (operands e ! 0) = None)) \<and>
    (\<forall>err. enroll M = Inl err \<longrightarrow> err = Not_A_Function) \<and>
    (\<forall>A. enroll M = Inr A \<longrightarrow> sorted_wrt (<) (map fst A) \<and> (\<forall>f. map_of A f = entry_of M es f))"
  unfolding enroll_array [OF assms]
  using enroll_entries_spec [where A = "[]" and M = M and es = es] by (auto split: sum.splits option.splits)

section \<open>Witnesses\<close>

text \<open>The table of \<open>put.c\<close> without the entry of \<open>put\<close>.\<close>

theorem teardown_exact_witness:
  "\<exists>M'. erase_annotations more_primes sample = Some M' \<and> torn_down sample 0 sample_root M' \<and> enroll M' = Inr [] \<and>
     map_option snd (annotations_root M') = Some (Const_Array [other_entry])"
proof -
  have "foreign_entries sample sample_root = [other_entry]"
    by (simp add: foreign_entries_def is_filc_async_entry_def underlying_string_def var_init_def drop_nul_def string_data_def sample_eval)
  then show ?thesis
    using teardown_exact [OF sample_ok more_primes_ok sample_annotations sample_unused] by auto
qed

theorem enroll_exact_witness:
  "\<exists>A. enroll sample = Inr A \<and> map_of A 8 = Some put_opts \<and> map_of A 9 = None"
proof -
  have r: "strip_casts sample_root = Const_Array [put_entry, other_entry]" by (simp add: sample_root_def)
  note e = enroll_exact [OF sample_annotations r]
  have "is_filc_async_entry sample put_entry" "extract_function sample (operands put_entry ! 0) = Some 8"
    "\<not> is_filc_async_entry sample other_entry"
    "entry_opts sample (operands put_entry ! 4) = put_opts"
    by (simp_all add: is_filc_async_entry_def extract_function_def entry_opts_def underlying_string_def var_init_def
        drop_nul_def string_data_def put_opts_def sample_eval)
  then have "enroll sample \<noteq> Inl Not_A_Function" "entry_of sample [put_entry, other_entry] 8 = Some put_opts"
    "entry_of sample [put_entry, other_entry] 9 = None"
    using e by (simp_all add: entry_of_def annotates_def)
  then show ?thesis using e by (cases "enroll sample") auto
qed

end
