(* ===== verification/CallSites.thy ===== *)
theory CallSites
  imports SampleModule
begin

text \<open>
  \<^verbatim>\<open>rewriteCallSites\<close>: which calls go to a stub, and what a stub and its run thunk are.
\<close>

section \<open>Call sites\<close>

definition only_calls :: "gid \<Rightarrow> ir_instr \<Rightarrow> bool" where
  "only_calls f i \<longleftrightarrow> (\<forall>h ty. redirectable h ty i \<longrightarrow> h = f)"

text \<open>Functions have been added, each calling at most \<open>f\<close>; everything older is as it was.\<close>

definition added :: "gid \<Rightarrow> ir_module \<Rightarrow> ir_module \<Rightarrow> bool" where
  "added f M M' \<longleftrightarrow> next_gid M \<le> next_gid M' \<and>
     (\<exists>new. fns M' = fns M @ new \<and>
        (\<forall>g\<in>set new. next_gid M \<le> g \<and> g < next_gid M' \<and> (\<forall>i\<in>set (bodies M' g). only_calls f i))) \<and>
     (\<forall>g<next_gid M. fn_def M' g = fn_def M g \<and> bodies M' g = bodies M g \<and> stub_code M' g = stub_code M g \<and>
        gname M' g = gname M g) \<and>
     vars M' = vars M \<and> var_def M' = var_def M \<and> aliases M' = aliases M \<and> ctors M' = ctors M \<and> pool M' = pool M"

lemma added_refl [simp]: "added f M M"
  by (simp add: added_def)

lemma added_trans:
  assumes "added f M1 M2" and "added f M2 M3"
  shows "added f M1 M3"
proof -
  from assms(1) obtain n1 where a: "next_gid M1 \<le> next_gid M2" "fns M2 = fns M1 @ n1"
    "\<forall>g\<in>set n1. next_gid M1 \<le> g \<and> g < next_gid M2 \<and> (\<forall>i\<in>set (bodies M2 g). only_calls f i)"
    "\<forall>g<next_gid M1. fn_def M2 g = fn_def M1 g \<and> bodies M2 g = bodies M1 g \<and> stub_code M2 g = stub_code M1 g \<and>
        gname M2 g = gname M1 g"
    "vars M2 = vars M1 \<and> var_def M2 = var_def M1 \<and> aliases M2 = aliases M1 \<and> ctors M2 = ctors M1 \<and> pool M2 = pool M1"
    unfolding added_def by blast
  from assms(2) obtain n2 where b: "next_gid M2 \<le> next_gid M3" "fns M3 = fns M2 @ n2"
    "\<forall>g\<in>set n2. next_gid M2 \<le> g \<and> g < next_gid M3 \<and> (\<forall>i\<in>set (bodies M3 g). only_calls f i)"
    "\<forall>g<next_gid M2. fn_def M3 g = fn_def M2 g \<and> bodies M3 g = bodies M2 g \<and> stub_code M3 g = stub_code M2 g \<and>
        gname M3 g = gname M2 g"
    "vars M3 = vars M2 \<and> var_def M3 = var_def M2 \<and> aliases M3 = aliases M2 \<and> ctors M3 = ctors M2 \<and> pool M3 = pool M2"
    unfolding added_def by blast
  have "\<forall>g\<in>set (n1 @ n2). next_gid M1 \<le> g \<and> g < next_gid M3 \<and> (\<forall>i\<in>set (bodies M3 g). only_calls f i)"
    using a(1,3) b(1,3,4) by fastforce
  moreover have "fns M3 = fns M1 @ (n1 @ n2)" using a(2) b(2) by simp
  moreover have "\<forall>g<next_gid M1. fn_def M3 g = fn_def M1 g \<and> bodies M3 g = bodies M1 g \<and> stub_code M3 g = stub_code M1 g \<and>
        gname M3 g = gname M1 g" using a(1,4) b(4) by auto
  ultimately show ?thesis unfolding added_def using a(1,5) b(1,5) by auto
qed

lemma added_function:
  assumes n: "new_function uniq n F body M = (g, M')" and b: "\<forall>i\<in>set body. only_calls f i"
  shows "added f M M'" "g = next_gid M" "g < next_gid M'" "g \<in> set (fns M')" "bodies M' g = body" "fn_def M' g = F"
  using new_function_eq [OF n] b by (simp_all add: added_def)

lemma get_function_added: "added f M (snd (get_function uniq n ret params M))"
proof (cases "find_named n M")
  case None
  obtain g M' where m: "new_function uniq n (extern_func ret params) [] M = (g, M')" by force
  show ?thesis using added_function(1) [OF m] None by (simp add: get_function_def m)
qed (simp add: get_function_def)

lemma runtime_calls_added: "added f M (fold (\<lambda>(n, ret, params) M. snd (get_function uniq n ret params M)) cs M)"
proof (induction cs arbitrary: M)
  case (Cons c cs)
  obtain n ret params where c: "c = (n, ret, params)" by (cases c) auto
  show ?case using added_trans [OF get_function_added Cons.IH] by (simp add: c)
qed simp

definition below :: "ir_module \<Rightarrow> bool" where
  "below M \<longleftrightarrow> (\<forall>g\<in>set (fns M). g < next_gid M)"

lemma added_below: "below M \<Longrightarrow> added f M M' \<Longrightarrow> below M'"
  unfolding below_def added_def by fastforce

text \<open>The stub \<open>s\<close> for \<open>f\<close> and the thunk \<open>r\<close> that runs the body.\<close>

definition stub_made :: "ir_func \<Rightarrow> gid \<Rightarrow> descriptor \<Rightarrow> gid \<Rightarrow> gid \<Rightarrow> ir_module \<Rightarrow> bool" where
  "stub_made F f D s r M \<longleftrightarrow> s \<in> set (fns M) \<and> r \<in> set (fns M) \<and> f_type (fn_def M s) = f_type F \<and>
     \<not> f_declaration (fn_def M s) \<and> bodies M s = [Other_Instr [Global_Ref (d_meta D), Global_Ref r]] \<and>
     bodies M r = [Call_Instr Plain_Call f (f_type F) []] \<and> stub_code M s = emit_stub F (d_parsed D)"

lemma emit_stub_function_made:
  assumes e: "emit_stub_function uniq f D M = (s, M')" and f: "f < next_gid M"
  shows "\<exists>r. added f M M' \<and> next_gid M \<le> s \<and> s < next_gid M' \<and> next_gid M \<le> r \<and> r < next_gid M' \<and>
    stub_made (fn_def M f) f D s r M'"
proof -
  define M1 where M1: "M1 = fold (\<lambda>(n, ret, params) M. snd (get_function uniq n ret params M)) runtime_calls M"
  have a1: "added f M M1" unfolding M1 by (rule runtime_calls_added)
  have n1: "next_gid M \<le> next_gid M1" "fn_def M1 f = fn_def M f" using a1 f by (simp_all add: added_def)
  obtain r M2 where t: "emit_run_thunk uniq f D M1 = (r, M2)" by force
  note t' = t [unfolded emit_run_thunk_def]
  have o1: "\<forall>i\<in>set [Call_Instr Plain_Call f (f_type (fn_def M1 f)) []]. only_calls f i" by (simp add: only_calls_def)
  note r = added_function [OF t' o1]
  obtain s' M3 where g: "new_function uniq (''__filc_async_stub_'' @ d_name D)
           ((extern_func (ft_ret (f_type (fn_def M f))) (f_params (fn_def M f)))\<lparr>f_type := f_type (fn_def M f), f_declaration := False,
              f_linkage := Internal_Linkage\<rparr>)
           [Other_Instr [Global_Ref (d_meta D), Global_Ref r]] M2 = (s', M3)" by force
  have o2: "\<forall>i\<in>set [Other_Instr [Global_Ref (d_meta D), Global_Ref r]]. only_calls f i" by (simp add: only_calls_def)
  note s = added_function [OF g o2]
  have M': "s = s'" "M' = M3\<lparr>stub_code := (stub_code M3)(s' := emit_stub (fn_def M f) (d_parsed D))\<rparr>"
    using e unfolding emit_stub_function_def Let_def M1 [symmetric] t prod.case g by auto
  have n2: "next_gid M1 \<le> next_gid M2" "next_gid M2 \<le> next_gid M3"
    using r(1) s(1) by (simp_all add: added_def)
  have "added f M M3" by (rule added_trans [OF added_trans [OF a1 r(1)] s(1)])
  then have ad: "added f M M'" using n1(1) n2 s(2) unfolding added_def M'(2) by auto
  have b: "bodies M3 r = bodies M2 r" "r \<in> set (fns M3)" using s(1) r(3,4) by (auto simp: added_def)
  have "stub_made (fn_def M f) f D s r M'"
    using s(4-6) r(5) b n1(2) by (simp add: stub_made_def M')
  then show ?thesis using ad n1(1) n2 r(2,3) s(2,3) by (intro exI [of _ r]) (simp add: M')
qed

definition step_made :: "gid \<Rightarrow> descriptor \<Rightarrow> ir_module \<Rightarrow> ir_module \<Rightarrow> gid \<Rightarrow> gid \<Rightarrow> bool" where
  "step_made f D M M' s r \<longleftrightarrow>
     (\<forall>g\<in>set (fns M). bodies M' g = map (redirect f s (f_type (fn_def M f))) (bodies M g)) \<and>
     next_gid M \<le> s \<and> next_gid M \<le> r \<and>
     (has_calls f (f_type (fn_def M f)) M \<longrightarrow> s < next_gid M' \<and> r < next_gid M' \<and> stub_made (fn_def M f) f D s r M')"

lemma redirect_none:
  assumes "\<not> has_calls f ty M" and "g \<in> set (fns M)"
  shows "map (redirect f s ty) (bodies M g) = bodies M g"
proof (rule map_idI)
  fix i assume "i \<in> set (bodies M g)"
  then have "\<not> redirectable f ty i" using assms by (auto simp: has_calls_def list_ex_iff)
  then show "redirect f s ty i = i" by (cases i) auto
qed

lemma rewrite_function_step:
  assumes b: "below M" and f: "f \<in> set (fns M)" and M': "M' = rewrite_function uniq f D M"
  shows "\<exists>s r new. step_made f D M M' s r \<and> fns M' = fns M @ new \<and>
    (\<forall>g\<in>set new. next_gid M \<le> g \<and> g < next_gid M' \<and> (\<forall>i\<in>set (bodies M' g). only_calls f i)) \<and>
    next_gid M \<le> next_gid M' \<and> (\<forall>g<next_gid M. fn_def M' g = fn_def M g \<and> stub_code M' g = stub_code M g) \<and>
    vars M' = vars M \<and> var_def M' = var_def M \<and> aliases M' = aliases M"
proof (cases "has_calls f (f_type (fn_def M f)) M")
  case False
  then have "M' = M" by (simp add: M' rewrite_function_def Let_def)
  then show ?thesis using False redirect_none [OF False] by (auto simp: step_made_def)
next
  case True
  have fl: "f < next_gid M" using b f by (simp add: below_def)
  obtain s M1 where e: "emit_stub_function uniq f D M = (s, M1)" by force
  obtain r where r: "added f M M1" "next_gid M \<le> s" "s < next_gid M1" "next_gid M \<le> r" "r < next_gid M1"
    "stub_made (fn_def M f) f D s r M1"
    using emit_stub_function_made [OF e fl] by blast
  let ?ty = "f_type (fn_def M f)"
  have m: "M' = M1\<lparr>bodies := (\<lambda>g. if g \<in> set (fns M) then map (redirect f s ?ty) (bodies M1 g) else bodies M1 g)\<rparr>"
    using True by (simp add: M' rewrite_function_def Let_def e)
  have old: "\<And>g. g \<in> set (fns M) \<Longrightarrow> g < next_gid M" using b by (simp add: below_def)
  from r(1) obtain new where n: "fns M1 = fns M @ new" "next_gid M \<le> next_gid M1"
    "\<forall>g\<in>set new. next_gid M \<le> g \<and> g < next_gid M1 \<and> (\<forall>i\<in>set (bodies M1 g). only_calls f i)"
    "\<forall>g<next_gid M. fn_def M1 g = fn_def M g \<and> bodies M1 g = bodies M g \<and> stub_code M1 g = stub_code M g"
    "vars M1 = vars M \<and> var_def M1 = var_def M \<and> aliases M1 = aliases M"
    unfolding added_def by blast
  have "s \<notin> set (fns M)" "r \<notin> set (fns M)" using old r(2,4) by force+
  then have "step_made f D M M' s r"
    using r(2-6) n(4) old by (simp add: step_made_def stub_made_def m)
  moreover have "\<forall>g\<in>set new. next_gid M \<le> g \<and> g < next_gid M' \<and> (\<forall>i\<in>set (bodies M' g). only_calls f i)"
  proof
    fix g assume g: "g \<in> set new"
    then have "g \<notin> set (fns M)" using n(3) old by (meson leD)
    then show "next_gid M \<le> g \<and> g < next_gid M' \<and> (\<forall>i\<in>set (bodies M' g). only_calls f i)"
      using bspec [OF n(3) g] by (simp add: m)
  qed
  ultimately show ?thesis using n by (intro exI [of _ s] exI [of _ r] exI [of _ new]) (simp add: m)
qed

definition redirect_all :: "ir_module \<Rightarrow> gid list \<Rightarrow> (gid \<Rightarrow> gid) \<Rightarrow> ir_instr \<Rightarrow> ir_instr" where
  "redirect_all M E stub i =
    (case i of
       Call_Instr k c ty ops \<Rightarrow>
         if c \<in> set E \<and> redirectable c (f_type (fn_def M c)) i then Call_Instr k (stub c) ty ops else i
     | Other_Instr ops \<Rightarrow> i)"

lemma redirect_all_Nil [simp]: "redirect_all M [] stub = id"
  by (auto simp: redirect_all_def fun_eq_iff split: ir_instr.splits)

lemma redirect_all_Cons:
  assumes "f \<notin> set E" and "stub' f \<notin> set E" and "\<And>c. c \<in> set E \<Longrightarrow> fn_def M' c = fn_def M c"
    and "\<And>c. c \<in> set E \<Longrightarrow> stub' c = stub c"
  shows "redirect_all M' E stub (redirect f (stub' f) (f_type (fn_def M f)) i) = redirect_all M (f # E) stub' i"
proof (cases i)
  case (Call_Instr k c ty ops)
  consider "c = f" | "c \<noteq> f" "c \<in> set E" | "c \<noteq> f" "c \<notin> set E" by blast
  then show ?thesis
  proof cases
    case 1
    then show ?thesis using assms(1,2) by (simp add: Call_Instr redirect_all_def)
  next
    case 2
    have "fn_def M' c = fn_def M c" "stub' c = stub c" using assms(3,4) 2(2) by blast+
    then show ?thesis using 2 by (auto simp add: Call_Instr redirect_all_def)
  next
    case 3
    then show ?thesis by (simp add: Call_Instr redirect_all_def)
  qed
qed (simp add: redirect_all_def)

lemma redirect_all_only:
  assumes "only_calls f i" and "f \<notin> set E"
  shows "redirect_all M E stub i = i"
proof (cases i)
  case (Call_Instr k c ty ops)
  have "\<not> (c \<in> set E \<and> redirectable c (f_type (fn_def M c)) i)"
    using assms unfolding only_calls_def by metis
  then show ?thesis unfolding redirect_all_def Call_Instr by auto
qed (simp add: redirect_all_def)

lemma redirectable_moved:
  assumes "h \<noteq> f" and "h \<noteq> s"
  shows "redirectable h ty (redirect f s ty' i) = redirectable h ty i"
  using assms by (cases i) auto

lemma has_calls_kept:
  assumes s: "\<forall>g\<in>set (fns M). bodies M' g = map (redirect f s ty') (bodies M g)" and n: "fns M' = fns M @ new"
    and o: "\<forall>g\<in>set new. \<forall>i\<in>set (bodies M' g). only_calls f i" and h: "h \<noteq> f" "h \<noteq> s"
  shows "has_calls h ty M' = has_calls h ty M"
proof -
  have "\<not> redirectable h ty i" if "g \<in> set new" "i \<in> set (bodies M' g)" for g i
    using o that h(1) by (auto simp: only_calls_def)
  moreover have "list_ex (redirectable h ty) (bodies M' g) = list_ex (redirectable h ty) (bodies M g)"
    if "g \<in> set (fns M)" for g
    using s that redirectable_moved [OF h] by (simp add: list_ex_iff)
  ultimately show ?thesis
    unfolding has_calls_def n list_ex_append by (metis (no_types, lifting) list_ex_iff)
qed

text \<open>What the loop over the enrolled functions leaves.\<close>

definition rewritten :: "ir_module \<Rightarrow> gid list \<Rightarrow> (gid \<times> descriptor) list \<Rightarrow> (gid \<Rightarrow> gid) \<Rightarrow> (gid \<Rightarrow> gid) \<Rightarrow> ir_module \<Rightarrow> bool" where
  "rewritten M E Ds stub thunk M' \<longleftrightarrow> set (fns M) \<subseteq> set (fns M') \<and> vars M' = vars M \<and> var_def M' = var_def M \<and>
     aliases M' = aliases M \<and> next_gid M \<le> next_gid M' \<and>
     (\<forall>g<next_gid M. fn_def M' g = fn_def M g \<and> stub_code M' g = stub_code M g) \<and>
     (\<forall>g\<in>set (fns M). bodies M' g = map (redirect_all M E stub) (bodies M g)) \<and>
     (\<forall>f\<in>set E. next_gid M \<le> stub f \<and> next_gid M \<le> thunk f) \<and>
     (\<forall>f\<in>set E. has_calls f (f_type (fn_def M f)) M \<longrightarrow>
        (\<exists>D. map_of Ds f = Some D \<and> stub_made (fn_def M f) f D (stub f) (thunk f) M'))"

lemma rewritten_step:
  assumes b: "below M" and f: "f \<in> set (fns M)" "f \<notin> set E" "set E \<subseteq> set (fns M)"
    and s: "step_made f D M M1 s r" and D: "map_of Ds f = Some D"
    and n: "fns M1 = fns M @ new" "\<forall>g\<in>set new. next_gid M \<le> g \<and> g < next_gid M1 \<and> (\<forall>i\<in>set (bodies M1 g). only_calls f i)"
      "next_gid M \<le> next_gid M1" "\<forall>g<next_gid M. fn_def M1 g = fn_def M g \<and> stub_code M1 g = stub_code M g"
      "vars M1 = vars M" "var_def M1 = var_def M" "aliases M1 = aliases M"
    and R: "rewritten M1 E Ds stub thunk M'"
  shows "rewritten M (f # E) Ds (stub(f := s)) (thunk(f := r)) M'"
proof -
  from R have R': "set (fns M1) \<subseteq> set (fns M')" "vars M' = vars M1" "var_def M' = var_def M1" "aliases M' = aliases M1"
    "next_gid M1 \<le> next_gid M'" and R2: "\<And>g. g < next_gid M1 \<Longrightarrow> fn_def M' g = fn_def M1 g \<and> stub_code M' g = stub_code M1 g"
    and R3: "\<And>g. g \<in> set (fns M1) \<Longrightarrow> bodies M' g = map (redirect_all M1 E stub) (bodies M1 g)"
    and R4: "\<And>f. f \<in> set E \<Longrightarrow> next_gid M1 \<le> stub f \<and> next_gid M1 \<le> thunk f"
    and R5: "\<And>f. f \<in> set E \<Longrightarrow> has_calls f (f_type (fn_def M1 f)) M1 \<Longrightarrow>
        \<exists>D. map_of Ds f = Some D \<and> stub_made (fn_def M1 f) f D (stub f) (thunk f) M'"
    unfolding rewritten_def by blast+
  from s have s1: "\<forall>g\<in>set (fns M). bodies M1 g = map (redirect f s (f_type (fn_def M f))) (bodies M g)"
    and s2: "next_gid M \<le> s" "next_gid M \<le> r"
    and s3: "has_calls f (f_type (fn_def M f)) M \<Longrightarrow> s < next_gid M1 \<and> r < next_gid M1 \<and> stub_made (fn_def M f) f D s r M1"
    unfolding step_made_def by blast+
  have old: "\<And>g. g \<in> set (fns M) \<Longrightarrow> g < next_gid M" using b by (simp add: below_def)
  have sE: "s \<notin> set E" using f(3) old s2(1) by force
  have fE: "\<And>c. c \<in> set E \<Longrightarrow> fn_def M1 c = fn_def M c" using n(4) old f(3) by blast
  have fnsub: "set (fns M) \<subseteq> set (fns M')" using n(1) R'(1) by auto
  have defs: "\<forall>g<next_gid M. fn_def M' g = fn_def M g \<and> stub_code M' g = stub_code M g"
    using R2 n(3,4) by simp
  have code: "\<forall>g\<in>set (fns M). bodies M' g = map (redirect_all M (f # E) (stub(f := s))) (bodies M g)"
  proof
    fix g assume g: "g \<in> set (fns M)"
    have "redirect_all M1 E stub (redirect f s (f_type (fn_def M f)) i) = redirect_all M (f # E) (stub(f := s)) i" for i
    proof -
      have "(stub(f := s)) c = stub c" if "c \<in> set E" for c using that f(2) by auto
      then show ?thesis using redirect_all_Cons [of f E "stub(f := s)" M1 M stub i] f(2) sE fE by simp
    qed
    then show "bodies M' g = map (redirect_all M (f # E) (stub(f := s))) (bodies M g)"
      using R3 [of g] s1 g n(1) by simp
  qed
  have fresh: "\<forall>h\<in>set (f # E). next_gid M \<le> (stub(f := s)) h \<and> next_gid M \<le> (thunk(f := r)) h"
    using s2 R4 n(3) by (auto intro: order_trans)
  have made: "\<exists>D. map_of Ds h = Some D \<and> stub_made (fn_def M h) h D ((stub(f := s)) h) ((thunk(f := r)) h) M'"
    if h: "h \<in> set (f # E)" "has_calls h (f_type (fn_def M h)) M" for h
  proof (cases "h = f")
    case True
    have m: "s < next_gid M1" "r < next_gid M1" "stub_made (fn_def M f) f D s r M1" using s3 h(2) True by blast+
    have o: "\<forall>i\<in>set (bodies M1 r). only_calls f i" "\<forall>i\<in>set (bodies M1 s). only_calls f i"
      using m(3) by (simp_all add: stub_made_def only_calls_def)
    have "bodies M' r = bodies M1 r" "bodies M' s = bodies M1 s"
      using R3 [of r] R3 [of s] m(3) o redirect_all_only [OF _ f(2)] by (simp_all add: stub_made_def map_idI)
    then have "stub_made (fn_def M f) f D s r M'"
      using m R2 R'(1) unfolding stub_made_def by auto
    then show ?thesis using D True by simp
  next
    case False
    then have hE: "h \<in> set E" using h(1) by simp
    have "h \<noteq> s" using sE hE by blast
    then have "has_calls h (f_type (fn_def M1 h)) M1"
      using has_calls_kept [OF s1 n(1) _ False, of "f_type (fn_def M h)"] n(2) h(2) fE [OF hE] by simp
    from R5 [OF hE this] show ?thesis using False fE [OF hE] by simp
  qed
  show ?thesis
    unfolding rewritten_def
    using fnsub R'(2-5) n(3,5-7) defs code fresh made by (intro conjI) (simp_all only: order_trans [OF n(3) R'(5)], blast+)
qed

lemma rewrite_run:
  assumes "below M" and "distinct (map fst A)" and "fst ` set A \<subseteq> set (fns M)"
    and "rewrite_call_sites uniq A Ds M = Inr M'"
  shows "\<exists>stub thunk. rewritten M (map fst A) Ds stub thunk M'"
  using assms
proof (induction A arbitrary: M)
  case Nil
  then show ?case by (auto simp: rewritten_def)
next
  case (Cons a A)
  obtain f opts where a: "a = (f, opts)" by force
  obtain D where D: "map_of Ds f = Some D" "rewrite_call_sites uniq A Ds (rewrite_function uniq f D M) = Inr M'"
    using Cons.prems(4) by (auto simp: a split: option.splits)
  define M1 where M1: "M1 = rewrite_function uniq f D M"
  have f: "f \<in> set (fns M)" "f \<notin> set (map fst A)" "set (map fst A) \<subseteq> set (fns M)" using Cons.prems(2,3) a by auto
  obtain s r new where st: "step_made f D M M1 s r" "fns M1 = fns M @ new"
    "\<forall>g\<in>set new. next_gid M \<le> g \<and> g < next_gid M1 \<and> (\<forall>i\<in>set (bodies M1 g). only_calls f i)"
    "next_gid M \<le> next_gid M1" "\<forall>g<next_gid M. fn_def M1 g = fn_def M g \<and> stub_code M1 g = stub_code M g"
    "vars M1 = vars M" "var_def M1 = var_def M" "aliases M1 = aliases M"
    using rewrite_function_step [OF Cons.prems(1) f(1) M1] by blast
  have "below M1" using Cons.prems(1) st(2-4) by (fastforce simp: below_def)
  moreover have "fst ` set A \<subseteq> set (fns M1)" "distinct (map fst A)" using Cons.prems(2,3) st(2) by auto
  ultimately obtain stub thunk where "rewritten M1 (map fst A) Ds stub thunk M'"
    using Cons.IH [of M1] D(2) unfolding M1 [symmetric] by blast
  from rewritten_step [OF Cons.prems(1) f st(1) D(1) st(2-8) this] show ?case by (auto simp: a)
qed

lemma rewrite_total: "(\<And>f. f \<in> fst ` set A \<Longrightarrow> map_of Ds f \<noteq> None) \<Longrightarrow> \<exists>M'. rewrite_call_sites uniq A Ds M = Inr M'"
  by (induction A arbitrary: M) (force split: option.splits)+

text \<open>C23.  After \<^verbatim>\<open>rewriteCallSites\<close> a call goes to a stub exactly when it was a plain call of an
  enrolled function, through the function's own type, whose value is void or a pointer: every other
  instruction of every function is untouched, a call keeps its kind, type and operands, and two calls of
  one function get one stub.  That stub is a new function of the same type that carries the descriptor's
  code and the run thunk, whose body is the direct call of the function.\<close>

theorem call_sites_exact:
  assumes "module_ok M" and "distinct (map fst A)" and "fst ` set A \<subseteq> set (fns M)"
    and "rewrite_call_sites uniq A Ds M = Inr M'"
  shows "\<exists>stub thunk. rewritten M (map fst A) Ds stub thunk M'"
proof (rule rewrite_run [OF _ assms(2-4)])
  show "below M" using module_okD(3) [OF assms(1)] by (simp add: below_def live_gids_def)
qed

theorem call_sites_exact_witness:
  "\<exists>M' stub. rewrite_call_sites more_primes [(8, put_opts)] [(8, \<lparr>d_meta = 3, d_name = ''put'', d_parsed = put_parsed\<rparr>)] sample = Inr M' \<and>
     10 \<le> stub \<and> bodies M' 9 =
     [Call_Instr Plain_Call stub (f_type put_func) [Const_Null, Const_Int 64 7],
      Call_Instr Invoke 8 (f_type put_func) [Const_Null, Const_Int 64 7],
      Call_Instr Plain_Call 8 \<lparr>ft_ret = Void_Ty, ft_params = [], ft_vararg = True\<rparr> [Const_Null]]"
proof -
  let ?Ds = "[(8, \<lparr>d_meta = 3, d_name = ''put'', d_parsed = put_parsed\<rparr>)]"
  obtain M' where M': "rewrite_call_sites more_primes [(8, put_opts)] ?Ds sample = Inr M'"
    using rewrite_total [of "[(8, put_opts)]" ?Ds] by auto
  have k: "distinct (map fst [(8 :: gid, put_opts)])" "fst ` set [(8, put_opts)] \<subseteq> set (fns sample)" by (simp_all add: sample_def)
  obtain stub thunk where r: "rewritten sample [8] ?Ds stub thunk M'"
    using call_sites_exact [OF sample_ok k M'] by auto
  have f: "fn_def sample 8 = put_func" "9 \<in> set (fns sample)" "bodies sample 9 = main_code" "next_gid sample = 10"
    by (simp_all add: sample_def)
  have "bodies M' 9 = map (redirect_all sample [8] stub) main_code" "10 \<le> stub 8"
    using r f(2-4) unfolding rewritten_def by auto
  moreover have "map (redirect_all sample [8] stub) main_code =
     [Call_Instr Plain_Call (stub 8) (f_type put_func) [Const_Null, Const_Int 64 7],
      Call_Instr Invoke 8 (f_type put_func) [Const_Null, Const_Int 64 7],
      Call_Instr Plain_Call 8 \<lparr>ft_ret = Void_Ty, ft_params = [], ft_vararg = True\<rparr> [Const_Null]]"
    by (simp add: main_code_def redirect_all_def f(1) put_func_def)
  ultimately show ?thesis using M' by auto
qed

end
