(* ===== verification/Emission.thy ===== *)
theory Emission
  imports SampleModule
begin

text \<open>
  \<^verbatim>\<open>renameBody\<close>, \<^verbatim>\<open>emitOpts\<close>, \<^verbatim>\<open>emitMeta\<close> and the loop of \<^verbatim>\<open>run\<close> over the enrolled
  functions: what the module then holds for each of them.
\<close>

section \<open>Emission\<close>

text \<open>What the emission of descriptors does to a module, having renamed the functions \<open>F\<close>.\<close>

definition emitted :: "gid set \<Rightarrow> ir_module \<Rightarrow> ir_module \<Rightarrow> bool" where
  "emitted F M M' \<longleftrightarrow> module_ok M' \<and> grown M M' \<and> set (aliases M) \<subseteq> set (aliases M') \<and> fns M' = fns M \<and>
     bodies M' = bodies M \<and> ctors M' = ctors M \<and> stub_code M' = stub_code M \<and>
     (\<forall>g\<in>set (live_gids M). g \<notin> F \<longrightarrow> gname M' g = gname M g)"

lemma emittedD:
  assumes "emitted F M M'"
  shows "module_ok M'" "grown M M'" "set (aliases M) \<subseteq> set (aliases M')" "fns M' = fns M" "bodies M' = bodies M"
    "\<And>g. g \<in> set (live_gids M) \<Longrightarrow> g \<notin> F \<Longrightarrow> gname M' g = gname M g"
    "\<And>g. g \<in> set (vars M) \<Longrightarrow> g \<in> set (vars M') \<and> var_def M' g = var_def M g"
    "\<And>g. g \<in> set (fns M) \<Longrightarrow> fn_def M' g = fn_def M g"
    "\<And>g. g \<in> set (live_gids M) \<Longrightarrow> g \<in> set (live_gids M')"
  using assms unfolding emitted_def grown_def by blast+

lemma emitted_refl: "module_ok M \<Longrightarrow> emitted {} M M"
  by (simp add: emitted_def)

lemma emitted_trans:
  assumes "emitted F M1 M2" and "emitted G M2 M3"
  shows "emitted (F \<union> G) M1 M3"
proof -
  note a = assms [unfolded emitted_def]
  have "\<forall>g\<in>set (live_gids M1). g \<notin> F \<union> G \<longrightarrow> gname M3 g = gname M1 g"
    using emittedD(6,9) [OF assms(1)] emittedD(6) [OF assms(2)] by (metis UnCI)
  then show ?thesis unfolding emitted_def using a grown_trans [of M1 M2 M3] by (simp, blast)
qed

lemma new_global_emitted:
  assumes ok: "module_ok M" and u: "uniq_ok uniq" and n: "new_global uniq n v M = (g, M')"
    and c: "\<And>c. gv_init v = Some c \<Longrightarrow> \<forall>x\<in>set (const_gids c). x \<in> set (live_gids M)"
  shows "emitted {} M M'" "g \<in> set (vars M')" "var_def M' g = v" "g \<in> set (live_gids M')"
proof -
  note e = new_global_eq [OF n]
  have "next_gid M \<notin> set (live_gids M)" using module_okD(3) [OF ok] by blast
  then have "\<forall>h\<in>set (live_gids M). gname M' h = gname M h" by (auto simp: e(1,7))
  then show "emitted {} M M'"
    unfolding emitted_def using new_global_ok [OF ok u n c] e(3,6,8,9,11) by simp
  show "g \<in> set (vars M')" "var_def M' g = v" "g \<in> set (live_gids M')" using e by (simp_all add: live_gids_def)
qed

lemma free_name_new:
  assumes "uniq_ok uniq"
  shows "free_name uniq M n \<notin> gname M ` set (live_gids M)"
  using free_name_fresh [OF assms, of _ M n] by (metis imageE)

lemma renamed_ok:
  assumes ok: "module_ok M" and f: "f \<in> set (live_gids M)" and n: "n \<notin> gname M ` set (live_gids M)"
  shows "module_ok (M\<lparr>gname := (gname M)(f := n)\<rparr>)"
proof -
  note d = module_okD [OF ok]
  let ?M = "M\<lparr>gname := (gname M)(f := n)\<rparr>"
  have l: "live_gids ?M = live_gids M" by (simp add: live_gids_def)
  have k: "const_ok ?M c = const_ok M c" for c by (simp add: const_ok_def l)
  have "inj_on ((gname M)(f := n)) (set (live_gids M))" using d(2) n by (auto simp: inj_on_def)
  then show ?thesis
    unfolding module_ok_def l k using d(1,3,8) by (simp add: d(4-7))
qed

lemma alias_ok:
  assumes ok: "module_ok M" and f: "al_target al \<in> set (live_gids M)" and n: "n \<notin> gname M ` set (live_gids M)"
    and M': "M' = M\<lparr>aliases := aliases M @ [(next_gid M, al)], gname := (gname M)(next_gid M := n),
      next_gid := next_gid M + 1\<rparr>"
  shows "module_ok M'"
proof -
  note d = module_okD [OF ok]
  have l: "set (live_gids M') = insert (next_gid M) (set (live_gids M))" by (auto simp: live_gids_def M')
  have nl: "next_gid M \<notin> set (live_gids M)" using d(3) by blast
  have "pool M' = pool M" by (simp add: M')
  then have k: "const_ok M c \<Longrightarrow> const_ok M' c" for c by (auto simp: const_ok_def l)
  have dist: "distinct (live_gids M')" using d(1) nl by (auto simp: live_gids_def M')
  have e: "gname M' g = gname M g" if "g \<in> set (live_gids M)" for g using that nl by (auto simp: M')
  have en: "gname M' (next_gid M) = n" by (simp add: M')
  have "inj_on (gname M') (set (live_gids M))" using d(2) e by (simp add: inj_on_def)
  moreover have "gname M' (next_gid M) \<notin> gname M' ` set (live_gids M)" using n e unfolding en by (metis (no_types, lifting) imageE imageI)
  ultimately have inj: "inj_on (gname M') (set (live_gids M'))" unfolding l using nl by (simp add: inj_on_insert)
  have nx: "next_gid M' = next_gid M + 1" and fields: "vars M' = vars M" "fns M' = fns M" "pool M' = pool M" "var_def M' = var_def M"
    "bodies M' = bodies M" "ctors M' = ctors M" "set (aliases M') = insert (next_gid M, al) (set (aliases M))"
    by (auto simp: M')
  have "\<forall>g\<in>set (live_gids M'). g < next_gid M'" using d(3) by (auto simp: l nx less_Suc_eq)
  moreover have "\<forall>b\<in>snd ` set (aliases M'). al_target b \<in> set (live_gids M')"
    using d(6) f by (auto simp: fields(7) l)
  moreover have "\<forall>p\<in>set (pool M'). \<forall>c\<in>set (operands p). const_ok M' c" using d(4) k by (simp add: fields)
  moreover have "\<forall>g\<in>set (vars M'). \<forall>c. gv_init (var_def M' g) = Some c \<longrightarrow> const_ok M' c" using d(5) k by (simp add: fields)
  moreover have "\<forall>g\<in>set (fns M'). \<forall>i\<in>set (bodies M' g). \<forall>c\<in>set (instr_uses i). const_ok M' c" using d(7) k by (simp add: fields)
  moreover have "\<forall>g\<in>snd ` set (ctors M'). g \<in> set (live_gids M')" using d(8) by (simp add: fields l)
  ultimately show ?thesis unfolding module_ok_def using dist inj by blast
qed

text \<open>How a renamed body is still reached under its own name.\<close>

definition keeps_name :: "ir_func \<Rightarrow> gid \<Rightarrow> string \<Rightarrow> ir_module \<Rightarrow> bool" where
  "keeps_name F f n M \<longleftrightarrow>
     (if f_declaration F \<or> f_linkage F = Available_Externally then gname M f = n
      else gname M f \<noteq> n \<and> (f_linkage F = Internal_Linkage \<or> f_linkage F = Private_Linkage \<or>
        (\<exists>a al. (a, al) \<in> set (aliases M) \<and> gname M a = n \<and> al_target al = f \<and> al_linkage al = f_linkage F \<and>
           al_visibility al = f_visibility F)))"

lemma rename_body_emitted:
  assumes ok: "module_ok M" and u: "uniq_ok uniq" and f: "f \<in> set (fns M)"
    and M': "M' = rename_body uniq f (gname M f) M"
  shows "emitted {f} M M'" "keeps_name (fn_def M f) f (gname M f) M'"
proof -
  let ?F = "fn_def M f"
  obtain n where n: "free_name uniq M (''__filc_async_'' @ gname M f) = n" by blast
  let ?M1 = "M\<lparr>gname := (gname M)(f := n)\<rparr>"
  have l: "f \<in> set (live_gids M)" using f by (simp add: live_gids_def)
  have nn: "n \<notin> gname M ` set (live_gids M)" using free_name_new [OF u] unfolding n [symmetric] .
  then have nf: "n \<noteq> gname M f" using l by (metis imageI)
  have ok1: "module_ok ?M1" by (rule renamed_ok [OF ok l nn])
  have fv: "f \<notin> set (vars M)" using module_okD(1) [OF ok] f by (auto simp: live_gids_def)
  have e1: "emitted {f} M ?M1"
    using ok1 fv by (auto simp: emitted_def grown_def live_gids_def)
  have "emitted {f} M M' \<and> keeps_name ?F f (gname M f) M'"
  proof (cases "f_declaration ?F \<or> f_linkage ?F = Available_Externally")
    case True
    then have "M' = M" by (simp add: M' rename_body_def Let_def)
    then show ?thesis using True ok by (simp add: emitted_def keeps_name_def)
  next
    case False
    note def = False
    show ?thesis
    proof (cases "f_linkage ?F = Internal_Linkage \<or> f_linkage ?F = Private_Linkage")
      case True
      then have "M' = ?M1" using def unfolding M' rename_body_def Let_def n by simp
      then show ?thesis using e1 True def nf by (auto simp: keeps_name_def)
    next
      case False
      let ?al = "\<lparr>al_target = f, al_linkage = f_linkage ?F, al_visibility = f_visibility ?F\<rparr>"
      have free: "gname M f \<notin> gname ?M1 ` set (live_gids ?M1)"
      proof
        assume "gname M f \<in> gname ?M1 ` set (live_gids ?M1)"
        then obtain h where "h \<in> set (live_gids ?M1)" and h2: "gname M f = gname ?M1 h" by (rule imageE)
        then have h: "h \<in> set (live_gids M)" "gname ?M1 h = gname M f" by (simp_all add: live_gids_def)
        show False
        proof (cases "h = f")
          case True
          then show False using h2 nf by simp
        next
          case ne: False
          then have "gname M h = gname M f" using h2 by simp
          then show False using module_okD(2) [OF ok] h(1) l ne by (auto dest: inj_onD)
        qed
      qed
      have m: "M' = ?M1\<lparr>aliases := aliases ?M1 @ [(next_gid ?M1, ?al)],
          gname := (gname ?M1)(next_gid ?M1 := gname M f), next_gid := next_gid ?M1 + 1\<rparr>"
        using def False unfolding M' rename_body_def Let_def n free_name_free [OF free] by simp
      have ok2: "module_ok M'" by (rule alias_ok [OF ok1 _ free m]) (use l in \<open>simp add: live_gids_def\<close>)
      have nl: "next_gid M \<notin> set (live_gids M)" using module_okD(3) [OF ok] by blast
      have em: "emitted {f} M M'"
        using ok2 fv nl by (auto simp: emitted_def grown_def live_gids_def m)
      have fn: "f \<noteq> next_gid M" using nl l by blast
      have named: "(next_gid M, ?al) \<in> set (aliases M')" "gname M' (next_gid M) = gname M f" by (simp_all add: m)
      have "gname M' f \<noteq> gname M f" using nf fn by (simp add: m)
      then have "keeps_name ?F f (gname M f) M'"
        unfolding keeps_name_def using def named by (auto intro!: exI [of _ "next_gid M"] exI [of _ ?al])
      then show ?thesis using em by blast
    qed
  qed
  then show "emitted {f} M M'" "keeps_name ?F f (gname M f) M'" by blast+
qed

lemma keeps_name_kept:
  assumes k: "keeps_name F f n M" and e: "emitted G M M'" and f: "f \<in> set (fns M)" "f \<notin> G"
    and a: "G \<subseteq> set (fns M)" and ok: "module_ok M"
  shows "keeps_name F f n M'"
proof -
  have fl: "gname M' f = gname M f" using emittedD(6) [OF e _ f(2)] f(1) by (simp add: live_gids_def)
  have al: "(x, y) \<in> set (aliases M') \<and> gname M' x = gname M x" if "(x, y) \<in> set (aliases M)" for x y
  proof -
    have l: "x \<in> set (live_gids M)" "x \<in> fst ` set (aliases M)" using that by (force simp: live_gids_def)+
    then have "x \<notin> G" using a module_okD(1) [OF ok] by (auto simp: live_gids_def)
    then show ?thesis using emittedD(3,6) [OF e] l(1) that by blast
  qed
  show ?thesis using k al unfolding keeps_name_def fl by (metis (no_types, lifting))
qed

lemma holds_string_read:
  assumes "holds_string M s g" and "g \<in> set (vars M)"
  shows "underlying_string M (Global_Ref g) = s" "gv_constant (var_def M g)"
  using assms by (auto simp: holds_string_def underlying_string_def var_init_def split: option.splits ir_const.splits)

text \<open>A constant global from which the string reads back.\<close>

definition text_at :: "ir_module \<Rightarrow> gid \<Rightarrow> string \<Rightarrow> bool" where
  "text_at M g s \<longleftrightarrow> g \<in> set (vars M) \<and> gv_constant (var_def M g) \<and>
     (case gv_init (var_def M g) of Some (Const_String gs) \<Rightarrow> drop_nul gs = s | _ \<Rightarrow> False)"

lemma holds_text: "holds_string M s g \<Longrightarrow> g \<in> set (vars M) \<Longrightarrow> text_at M g s"
  by (auto simp: holds_string_def text_at_def split: option.splits ir_const.splits)

lemma text_at_grown: "text_at M g s \<Longrightarrow> grown M M' \<Longrightarrow> text_at M' g s"
  using grownD(1,4) [of M M' g] by (simp add: text_at_def)

lemmas text_at_kept = text_at_grown [OF _ emittedD(2)]

lemma find_or_create_string_emitted:
  assumes ok: "module_ok M" and u: "uniq_ok uniq" and f: "find_or_create_string uniq s M = (g, M')"
  shows "emitted {} M M'" "text_at M' g s" "M' \<noteq> M \<Longrightarrow> \<forall>h\<in>set (vars M). \<not> holds_string M s h"
proof -
  let ?v = "\<lparr>gv_init = Some (Const_String (s @ [CHR 0x00])), gv_constant = True,
          gv_linkage = Private_Linkage, gv_section = []\<rparr>"
  have "emitted {} M M' \<and> text_at M' g s \<and> (M' \<noteq> M \<longrightarrow> (\<forall>h\<in>set (vars M). \<not> holds_string M s h))"
  proof (cases "List.find (holds_string M s) (vars M)")
    case (Some h)
    then have "h = g" "M' = M" using f by (simp_all add: find_or_create_string_def)
    moreover have "h \<in> set (vars M)" "holds_string M s h" using Some by (auto simp: find_Some_iff)
    ultimately show ?thesis using emitted_refl [OF ok] by (simp add: holds_text)
  next
    case None
    have n: "new_global uniq ''.filc_async.opt'' ?v M = (g, M')"
      using f unfolding find_or_create_string_def None by simp
    note e = new_global_emitted [OF ok u n]
    have "text_at M' g s" using e(2,3) by (simp add: text_at_def drop_nul_def)
    then show ?thesis using e(1) None by (simp add: find_None_iff)
  qed
  then show "emitted {} M M'" "text_at M' g s" "M' \<noteq> M \<Longrightarrow> \<forall>h\<in>set (vars M). \<not> holds_string M s h" by blast+
qed

lemma opt_strings_emitted:
  assumes "module_ok M" and u: "uniq_ok uniq" and "opt_strings uniq ss M = (gs, M')"
  shows "emitted {} M M' \<and> list_all2 (text_at M') gs ss"
  using assms(1,3)
proof (induction ss arbitrary: M M' gs)
  case Nil
  then show ?case by (simp add: emitted_refl)
next
  case (Cons s ss)
  obtain g M1 where f: "find_or_create_string uniq s M = (g, M1)" by force
  obtain hs M2 where r: "opt_strings uniq ss M1 = (hs, M2)" by force
  have eq: "gs = g # hs" "M' = M2" using Cons.prems(2) f r by simp_all
  note e = find_or_create_string_emitted [OF Cons.prems(1) u f]
  have i: "emitted {} M1 M2" "list_all2 (text_at M2) hs ss"
    using Cons.IH [OF emittedD(1) [OF e(1)] r] by blast+
  have "emitted {} M M2" using emitted_trans [OF e(1) i(1)] by simp
  then show ?case using i(2) text_at_kept [OF e(2) i(1)] eq by simp
qed

definition opts_at :: "ir_module \<Rightarrow> gid \<Rightarrow> string list \<Rightarrow> bool" where
  "opts_at M og opts \<longleftrightarrow> og \<in> set (vars M) \<and> gv_constant (var_def M og) \<and>
     (\<exists>gs. gv_init (var_def M og) = Some (Const_Array (map Global_Ref gs @ [Const_Null])) \<and>
        list_all2 (text_at M) gs opts)"

lemma opts_at_grown:
  assumes "opts_at M og opts" and "grown M M'"
  shows "opts_at M' og opts"
proof -
  obtain gs where "og \<in> set (vars M)" "gv_constant (var_def M og)"
    "gv_init (var_def M og) = Some (Const_Array (map Global_Ref gs @ [Const_Null]))" "list_all2 (text_at M) gs opts"
    using assms(1) unfolding opts_at_def by blast
  moreover from this(4) have "list_all2 (text_at M') gs opts"
    by (rule list_all2_mono) (rule text_at_grown [OF _ assms(2)])
  ultimately show ?thesis using grownD(1,4) [OF assms(2), of og] unfolding opts_at_def by auto
qed

lemmas opts_at_kept = opts_at_grown [OF _ emittedD(2)]

lemma emit_opts_emitted:
  assumes ok: "module_ok M" and u: "uniq_ok uniq" and e: "emit_opts uniq n opts M = (og, M')"
  shows "emitted {} M M'" "opts_at M' og opts" "og \<in> set (live_gids M')"
proof -
  obtain gs M1 where s: "opt_strings uniq opts M = (gs, M1)" by force
  have i: "emitted {} M M1" "list_all2 (text_at M1) gs opts" using opt_strings_emitted [OF ok u s] by blast+
  let ?v = "const_global (Const_Array (map Global_Ref gs @ [Const_Null])) Internal_Linkage"
  obtain nm where nm: "''__filc_opts_'' @ n = nm" by blast
  have g: "new_global uniq nm ?v M1 = (og, M')"
    using e unfolding emit_opts_def s nm by simp
  have live: "\<forall>x\<in>set (const_gids c). x \<in> set (live_gids M1)" if "gv_init ?v = Some c" for c
  proof
    fix x assume "x \<in> set (const_gids c)"
    moreover have "c = Const_Array (map Global_Ref gs @ [Const_Null])" using that by (simp add: const_global_def)
    ultimately have "x \<in> set gs" by auto
    then obtain s where "text_at M1 x s" using i(2) by (metis list_all2_conv_all_nth in_set_conv_nth)
    then show "x \<in> set (live_gids M1)" by (simp add: text_at_def live_gids_def)
  qed
  note ne = new_global_emitted [OF emittedD(1) [OF i(1)] u g live]
  show "emitted {} M M'" using emitted_trans [OF i(1) ne(1)] by simp
  have "list_all2 (text_at M') gs opts" using i(2) by (rule list_all2_mono) (rule text_at_kept [OF _ ne(1)])
  then show "opts_at M' og opts" unfolding opts_at_def using ne(2,3) by (auto simp: const_global_def)
  show "og \<in> set (live_gids M')" by (rule ne(4))
qed

text \<open>The variable that stands for a runtime's descriptor has the descriptor's name, unless a function or
  an alias has taken it.\<close>

definition runtime_symbol :: "ir_module \<Rightarrow> gid \<Rightarrow> string \<Rightarrow> bool" where
  "runtime_symbol M rg n \<longleftrightarrow> rg \<in> set (vars M) \<and>
     (gname M rg = n \<or> (\<exists>h\<in>set (fns M) \<union> fst ` set (aliases M). gname M h = n))"

lemma runtime_symbol_kept:
  assumes "runtime_symbol M rg n" and e: "emitted {} M M'"
  shows "runtime_symbol M' rg n"
proof -
  have "gname M' h = gname M h" if "h \<in> set (vars M) \<union> set (fns M) \<union> fst ` set (aliases M)" for h
    using emittedD(6) [OF e, of h] that by (auto simp: live_gids_def)
  moreover have "fst ` set (aliases M) \<subseteq> fst ` set (aliases M')" using emittedD(3) [OF e] by blast
  ultimately show ?thesis
    using assms(1) emittedD(4) [OF e] emittedD(7) [OF e, of rg] unfolding runtime_symbol_def by (metis Un_iff subsetD)
qed

lemma get_global_emitted:
  assumes ok: "module_ok M" and u: "uniq_ok uniq" and e: "get_global uniq n M = (g, M')"
  shows "emitted {} M M'" "runtime_symbol M' g n"
proof -
  have "emitted {} M M' \<and> runtime_symbol M' g n"
  proof (cases "List.find (\<lambda>g. gname M g = n) (vars M)")
    case (Some h)
    then have "h = g" "M' = M" using e by (simp_all add: get_global_def)
    moreover have "h \<in> set (vars M)" "gname M h = n" using Some by (auto simp: find_Some_iff)
    ultimately show ?thesis using emitted_refl [OF ok] by (simp add: runtime_symbol_def)
  next
    case None
    have ng: "new_global uniq n \<lparr>gv_init = None, gv_constant = False, gv_linkage = External_Linkage, gv_section = []\<rparr> M = (g, M')"
      using e unfolding get_global_def None by simp
    note ne = new_global_emitted [OF ok u ng] and eq = new_global_eq [OF ng]
    have "gname M' g = n \<or> (\<exists>h\<in>set (fns M') \<union> fst ` set (aliases M'). gname M' h = n)"
    proof (cases "n \<in> gname M ` set (live_gids M)")
      case False
      then show ?thesis by (simp add: eq(7) free_name_free)
    next
      case True
      then obtain h where h: "h \<in> set (live_gids M)" "gname M h = n" by blast
      then have "h \<notin> set (vars M)" using None by (auto simp: find_None_iff)
      then have "h \<in> set (fns M') \<union> fst ` set (aliases M')" using h(1) by (simp add: live_gids_def eq(3,6))
      moreover have "gname M' h = n" using emittedD(6) [OF ne(1) h(1)] h(2) by simp
      ultimately show ?thesis by blast
    qed
    then show ?thesis using ne by (simp add: runtime_symbol_def)
  qed
  then show "emitted {} M M'" "runtime_symbol M' g n" by blast+
qed

text \<open>The descriptor of an enrolled function as it stands in a module.\<close>

definition described :: "ir_module \<Rightarrow> ir_func \<Rightarrow> string \<Rightarrow> string list \<Rightarrow> descriptor \<Rightarrow> gid \<Rightarrow> bool" where
  "described M F n opts D rg \<longleftrightarrow> d_name D = n \<and> d_meta D \<in> set (vars M) \<and> gv_constant (var_def M (d_meta D)) \<and>
     (\<exists>ng og. gv_init (var_def M (d_meta D)) = Some (meta_const F ng og rg (d_parsed D)) \<and>
        text_at M ng n \<and> opts_at M og opts)"

lemma described_grown:
  assumes "described M F n opts D rg" and "grown M M'"
  shows "described M' F n opts D rg"
  using assms(1) grownD(1,4) [OF assms(2), of "d_meta D"] text_at_grown [OF _ assms(2)] opts_at_grown [OF _ assms(2)]
  unfolding described_def by metis

lemmas described_kept = described_grown [OF _ emittedD(2)]

lemma meta_const_gids: "set (const_gids (meta_const F ng og rg P)) = {ng, og, rg}"
  by (auto simp: meta_const_def i32_def)

lemma emit_meta_global_emitted:
  assumes ok: "module_ok M" and u: "uniq_ok uniq" and e: "emit_meta_global uniq F n opts og P M = Inr (mg, M')"
    and o: "opts_at M og opts"
  shows "\<exists>rt rg. parse_runtime opts = Inr rt \<and> emitted {} M M' \<and> described M' F n opts \<lparr>d_meta = mg, d_name = n, d_parsed = P\<rparr> rg \<and>
    runtime_symbol M' rg (''filc_async_runtime_'' @ rt)"
proof -
  obtain nm where nm: "''__filc_async_name_'' @ n = nm" by blast
  obtain mm where mm: "''__filc_meta_'' @ n = mm" by blast
  obtain ng M1 where g1: "new_global uniq nm (const_global (Const_String (n @ [CHR 0x00])) Private_Linkage) M = (ng, M1)" by force
  obtain rt where rt: "parse_runtime opts = Inr rt"
    using e unfolding emit_meta_global_def by (cases "parse_runtime opts") (auto split: prod.splits)
  obtain rn where rn: "''filc_async_runtime_'' @ rt = rn" by blast
  obtain rg M2 where g2: "get_global uniq rn M1 = (rg, M2)" by force
  have g3: "new_global uniq mm (const_global (meta_const F ng og rg P) Internal_Linkage) M2 = (mg, M')"
    using e unfolding emit_meta_global_def nm mm g1 rt Let_def prod.case pass_bind_simps rn g2 by simp
  note e1 = new_global_emitted [OF ok u g1]
  have e1': "emitted {} M M1" "text_at M1 ng n"
    using e1 by (simp_all add: const_global_def text_at_def drop_nul_def)
  note e2 = get_global_emitted [OF emittedD(1) [OF e1'(1)] u g2]
  have l: "ng \<in> set (live_gids M2)" "og \<in> set (live_gids M2)" "rg \<in> set (live_gids M2)"
    using text_at_kept [OF e1'(2) e2(1)] opts_at_kept [OF opts_at_kept [OF o e1'(1)] e2(1)] e2(2)
    by (simp_all add: text_at_def opts_at_def live_gids_def runtime_symbol_def)
  have c: "\<forall>x\<in>set (const_gids c). x \<in> set (live_gids M2)"
    if "gv_init (const_global (meta_const F ng og rg P) Internal_Linkage) = Some c" for c
  proof -
    have "c = meta_const F ng og rg P" using that by (simp add: const_global_def)
    then show ?thesis using l by (simp add: meta_const_gids)
  qed
  note e3 = new_global_emitted [OF emittedD(1) [OF e2(1)] u g3 c]
  have m: "emitted {} M1 M'" using emitted_trans [OF e2(1) e3(1)] by simp
  have all: "emitted {} M M'" using emitted_trans [OF e1'(1) m] by simp
  have "described M' F n opts \<lparr>d_meta = mg, d_name = n, d_parsed = P\<rparr> rg"
    unfolding described_def using e3(2,3) text_at_kept [OF e1'(2) m] opts_at_kept [OF o all]
    by (auto simp: const_global_def)
  moreover have "runtime_symbol M' rg (''filc_async_runtime_'' @ rt)"
    unfolding rn by (rule runtime_symbol_kept [OF e2(2) e3(1)])
  ultimately show ?thesis using rt all by blast
qed

text \<open>What the module holds for an enrolled function once its descriptor is emitted.  The variable that
  stands for the runtime has the name of the runtime's descriptor, unless a function or an alias of the
  module has that name, or an enrolled function had it.\<close>

definition work_done ::
  "ir_module \<Rightarrow> gid set \<Rightarrow> ir_module \<Rightarrow> (gid \<times> descriptor) list \<Rightarrow> gid \<Rightarrow> string list \<Rightarrow> bool" where
  "work_done M E M' Ds f opts \<longleftrightarrow> (\<exists>D rt rg.
     map_of Ds f = Some D \<and> parse_kinds (fn_def M f) opts = Inr (d_parsed D) \<and> parse_runtime opts = Inr rt \<and>
     described M' (fn_def M f) (gname M f) opts D rg \<and> rg \<in> set (vars M') \<and>
     (runtime_symbol M' rg (''filc_async_runtime_'' @ rt) \<or> (\<exists>h\<in>E. gname M h = ''filc_async_runtime_'' @ rt)) \<and>
     keeps_name (fn_def M f) f (gname M f) M')"

lemma emit_one:
  assumes ok: "module_ok M" and u: "uniq_ok uniq" and f: "f \<in> set (fns M)"
    and M1: "M1 = rename_body uniq f (gname M f) M" and o: "emit_opts uniq (gname M f) opts M1 = (og, M2)"
    and m: "emit_meta_global uniq (fn_def M f) (gname M f) opts og P M2 = Inr (mg, M3)"
  shows "\<exists>rt rg. parse_runtime opts = Inr rt \<and> emitted {f} M M3 \<and> keeps_name (fn_def M f) f (gname M f) M3 \<and>
    described M3 (fn_def M f) (gname M f) opts \<lparr>d_meta = mg, d_name = gname M f, d_parsed = P\<rparr> rg \<and>
    runtime_symbol M3 rg (''filc_async_runtime_'' @ rt)"
proof -
  note r = rename_body_emitted [OF ok u f M1]
  note e = emit_opts_emitted [OF emittedD(1) [OF r(1)] u o]
  obtain rt rg where g: "parse_runtime opts = Inr rt" "emitted {} M2 M3"
    "described M3 (fn_def M f) (gname M f) opts \<lparr>d_meta = mg, d_name = gname M f, d_parsed = P\<rparr> rg"
    "runtime_symbol M3 rg (''filc_async_runtime_'' @ rt)"
    using emit_meta_global_emitted [OF emittedD(1) [OF e(1)] u m e(2)] by blast
  have t: "emitted {} M1 M3" using emitted_trans [OF e(1) g(2)] by simp
  have "emitted {f} M M3" using emitted_trans [OF r(1) t] by simp
  moreover have "keeps_name (fn_def M f) f (gname M f) M3"
    by (rule keeps_name_kept [OF r(2) t]) (use f emittedD(1,4) [OF r(1)] in simp_all)
  ultimately show ?thesis using g by blast
qed

lemma runtime_symbol_renamed:
  assumes s: "runtime_symbol M3 rg n" and e: "emitted {f} M M3" and e': "emitted E M3 M'"
    and E: "E \<subseteq> set (fns M3)" "f \<notin> E" "insert f E \<subseteq> G"
  shows "runtime_symbol M' rg n \<or> (\<exists>h\<in>G. gname M h = n)"
proof -
  have d: "distinct (live_gids M3)" by (rule module_okD(1) [OF emittedD(1) [OF e]])
  have rg: "rg \<in> set (vars M3)" "rg \<in> set (vars M')" using s emittedD(7) [OF e'] by (simp_all add: runtime_symbol_def)
  have keep: "gname M' h = gname M3 h" if "h \<in> set (live_gids M3)" "h \<notin> E" for h by (rule emittedD(6) [OF e' that])
  from s consider "gname M3 rg = n" | h where "h \<in> E" "gname M3 h = n"
    | h where "h \<in> set (fns M3) \<union> fst ` set (aliases M3)" "h \<notin> E" "gname M3 h = n"
    unfolding runtime_symbol_def by blast
  then show ?thesis
  proof cases
    case 1
    have "rg \<notin> E" using rg(1) E(1) d by (auto simp: live_gids_def)
    then show ?thesis using 1 rg keep [of rg] by (simp add: runtime_symbol_def live_gids_def)
  next
    case 2
    then have "h \<in> set (fns M)" "h \<noteq> f" using E(1,2) emittedD(4) [OF e] by auto
    then have "gname M h = n" using 2(2) emittedD(6) [OF e, of h] by (simp add: live_gids_def)
    then show ?thesis using 2(1) E(3) by blast
  next
    case 3
    then have "gname M' h = n" using keep [of h] by (auto simp: live_gids_def)
    moreover have "h \<in> set (fns M') \<union> fst ` set (aliases M')" using 3(1) emittedD(3,4) [OF e'] by auto
    ultimately show ?thesis using rg(2) unfolding runtime_symbol_def by blast
  qed
qed

lemma grown_live: "emitted F M M' \<Longrightarrow> set (live_gids M) \<subseteq> set (live_gids M')"
  using emittedD(9) by blast

lemma emit_work_done:
  assumes "module_ok M" and u: "uniq_ok uniq" and "distinct (map fst W)" and "fst ` set W \<subseteq> set (fns M)"
    and "emit_work uniq W M = Inr (Ds, M')"
  shows "emitted (fst ` set W) M M' \<and> map fst Ds = map fst W \<and>
    (\<forall>(f, opts)\<in>set W. work_done M (fst ` set W) M' Ds f opts)"
  using assms(1,3-5)
proof (induction W arbitrary: M Ds)
  case Nil
  then show ?case using emitted_refl by simp
next
  case (Cons a W)
  obtain f opts where a: "a = (f, opts)" by force
  obtain P where P: "parse_kinds (fn_def M f) opts = Inr P"
    using Cons.prems(4) by (cases "parse_kinds (fn_def M f) opts") (simp_all add: a Let_def)
  obtain M1 where M1: "M1 = rename_body uniq f (gname M f) M" by blast
  obtain og M2 where o: "emit_opts uniq (gname M f) opts M1 = (og, M2)" by force
  obtain mg M3 where m: "emit_meta_global uniq (fn_def M f) (gname M f) opts og P M2 = Inr (mg, M3)"
    using Cons.prems(4) by (cases "emit_meta_global uniq (fn_def M f) (gname M f) opts og P M2")
      (auto simp add: a Let_def P M1 [symmetric] o)
  obtain Ds' where w: "emit_work uniq W M3 = Inr (Ds', M')"
    and Ds: "Ds = (f, \<lparr>d_meta = mg, d_name = gname M f, d_parsed = P\<rparr>) # Ds'"
    using Cons.prems(4) by (auto simp add: a Let_def P M1 [symmetric] o m split: prod.splits)
  let ?D = "\<lparr>d_meta = mg, d_name = gname M f, d_parsed = P\<rparr>"
  have f: "f \<in> set (fns M)" "f \<notin> fst ` set W" "fst ` set W \<subseteq> set (fns M)" "distinct (map fst W)"
    using Cons.prems(2,3) a by auto
  obtain rt rg where g: "parse_runtime opts = Inr rt" "emitted {f} M M3" "keeps_name (fn_def M f) f (gname M f) M3"
    "described M3 (fn_def M f) (gname M f) opts ?D rg" "runtime_symbol M3 rg (''filc_async_runtime_'' @ rt)"
    using emit_one [OF Cons.prems(1) u f(1) M1 o m] by blast
  have ok3: "module_ok M3" and fn3: "fns M3 = fns M" using emittedD(1,4) [OF g(2)] by blast+
  have IH: "emitted (fst ` set W) M3 M'" "map fst Ds' = map fst W"
    "\<And>h xs. (h, xs) \<in> set W \<Longrightarrow> work_done M3 (fst ` set W) M' Ds' h xs"
    using Cons.IH [OF ok3 f(4) _ w] f(3) fn3 by auto
  have all: "emitted (fst ` set (a # W)) M M'" using emitted_trans [OF g(2) IH(1)] a by simp
  have "keeps_name (fn_def M f) f (gname M f) M'"
    by (rule keeps_name_kept [OF g(3) IH(1)]) (use f fn3 ok3 in simp_all)
  moreover have "rg \<in> set (vars M')" using emittedD(7) [OF IH(1)] g(5) by (simp add: runtime_symbol_def)
  moreover have "runtime_symbol M' rg (''filc_async_runtime_'' @ rt) \<or>
      (\<exists>h\<in>fst ` set (a # W). gname M h = ''filc_async_runtime_'' @ rt)"
    by (rule runtime_symbol_renamed [OF g(5) g(2) IH(1)]) (use f fn3 ok3 a in auto)
  ultimately have one: "work_done M (fst ` set (a # W)) M' Ds f opts"
    unfolding work_done_def using P g(1) described_kept [OF g(4) IH(1)] a
    by (intro exI [of _ ?D] exI [of _ rt] exI [of _ rg]) (simp add: Ds)
  have rest: "work_done M (fst ` set (a # W)) M' Ds h xs" if h: "(h, xs) \<in> set W" for h xs
  proof -
    have hW: "h \<in> fst ` set W" using h by force
    then have hf: "h \<noteq> f" "h \<in> set (fns M)" using f(2,3) by auto
    have "fn_def M3 h = fn_def M h" "gname M3 h = gname M h"
      using emittedD(6,8) [OF g(2)] hf by (simp_all add: live_gids_def)
    moreover have "map_of Ds h = map_of Ds' h" using hf(1) by (simp add: Ds)
    moreover have "\<exists>x\<in>fst ` set (a # W). gname M x = n" if "\<exists>x\<in>fst ` set W. gname M3 x = n" for n
    proof -
      obtain x where x: "x \<in> fst ` set W" "gname M3 x = n" using \<open>\<exists>x\<in>fst ` set W. gname M3 x = n\<close> by blast
      then have "x \<noteq> f" "x \<in> set (fns M)" using f(2,3) by auto
      then have "gname M x = n" using x(2) emittedD(6) [OF g(2), of x] by (simp add: live_gids_def)
      then show ?thesis using x(1) by auto
    qed
    ultimately show ?thesis using IH(3) [OF h] unfolding work_done_def by metis
  qed
  show ?case using all one rest IH(2) a by (auto simp: Ds)
qed

lemma emit_work_total:
  assumes "module_ok M" and u: "uniq_ok uniq" and "distinct (map fst W)" and "fst ` set W \<subseteq> set (fns M)"
  shows "(\<exists>y. emit_work uniq W M = Inr y) \<longleftrightarrow>
    (\<forall>(f, opts)\<in>set W. (\<exists>P. parse_kinds (fn_def M f) opts = Inr P) \<and> (\<exists>rt. parse_runtime opts = Inr rt))"
  using assms(1,3,4)
proof (induction W arbitrary: M)
  case Nil
  then show ?case by simp
next
  case (Cons a W)
  obtain f opts where a: "a = (f, opts)" by force
  have f: "f \<in> set (fns M)" "f \<notin> fst ` set W" "fst ` set W \<subseteq> set (fns M)" "distinct (map fst W)"
    using Cons.prems(2,3) a by auto
  obtain M1 where M1: "M1 = rename_body uniq f (gname M f) M" by blast
  obtain og M2 where o: "emit_opts uniq (gname M f) opts M1 = (og, M2)" by force
  show ?case
  proof (cases "\<exists>P rt. parse_kinds (fn_def M f) opts = Inr P \<and> parse_runtime opts = Inr rt")
    case False
    then show ?thesis
      by (cases "parse_kinds (fn_def M f) opts"; cases "parse_runtime opts")
        (auto simp: a Let_def M1 [symmetric] o emit_meta_global_def split: prod.splits)
  next
    case True
    then obtain P rt where P: "parse_kinds (fn_def M f) opts = Inr P" "parse_runtime opts = Inr rt" by blast
    have "\<exists>p. emit_meta_global uniq (fn_def M f) (gname M f) opts og P M2 = Inr p"
      unfolding emit_meta_global_def P(2) by (simp add: split_def Let_def)
    then obtain mg M3 where m: "emit_meta_global uniq (fn_def M f) (gname M f) opts og P M2 = Inr (mg, M3)" by force
    have e: "emitted {f} M M3" using emit_one [OF Cons.prems(1) u f(1) M1 o m] by blast
    have same: "fn_def M3 h = fn_def M h" if "(h, xs) \<in> set W" for h xs
      using emittedD(8) [OF e, of h] f(3) that by force
    have "(\<exists>y. emit_work uniq (a # W) M = Inr y) \<longleftrightarrow> (\<exists>y. emit_work uniq W M3 = Inr y)"
      by (auto simp: a Let_def P M1 [symmetric] o m split: prod.splits)
    also have "\<dots> \<longleftrightarrow> (\<forall>(f, opts)\<in>set W. (\<exists>P. parse_kinds (fn_def M3 f) opts = Inr P) \<and> (\<exists>rt. parse_runtime opts = Inr rt))"
      using Cons.IH [OF emittedD(1) [OF e] f(4)] f(3) emittedD(4) [OF e] by simp
    also have "\<dots> \<longleftrightarrow> (\<forall>(f, opts)\<in>set (a # W). (\<exists>P. parse_kinds (fn_def M f) opts = Inr P) \<and> (\<exists>rt. parse_runtime opts = Inr rt))"
      using same P by (auto simp: a)
    finally show ?thesis .
  qed
qed

text \<open>C24.  Emitting the descriptors: every enrolled function gets one, whose global is a constant that
  spells out the kinds, dependencies, counts, result class and runtime that its options say, and whose
  options array reads back, string by string, as the options it was annotated with.  The runtime's symbol is a variable, with the name the options give unless a
  function or an alias has taken it.  A definition that
  is renamed and visible outside keeps its own name as an alias of the body with its linkage and
  visibility; no other function loses its name, and the module stays well-formed.\<close>

theorem emission_exact:
  assumes "module_ok M" and "uniq_ok uniq" and "distinct (map fst W)" and "fst ` set W \<subseteq> set (fns M)"
    and "emit_work uniq W M = Inr (Ds, M')"
  shows "emitted (fst ` set W) M M' \<and> map fst Ds = map fst W \<and>
    (\<forall>(f, opts)\<in>set W. work_done M (fst ` set W) M' Ds f opts)"
  by (rule emit_work_done [OF assms])

lemma put_runtime: "parse_runtime put_opts = Inr ''rt''"
  by (simp add: parse_runtime_def put_opts_def starts_with_def c_identifier_def isAlnum_def isDigit_def of_char_def)

lemma sample_work: "distinct (map fst [(8 :: gid, put_opts)])" "fst ` set [(8, put_opts)] \<subseteq> set (fns sample)"
  "fn_def sample 8 = put_func"
  by (simp_all add: sample_def)

theorem emission_exact_witness:
  "\<exists>Ds M'. emit_work more_primes [(8, put_opts)] sample = Inr (Ds, M') \<and> emitted {8} sample M' \<and>
     work_done sample {8} M' Ds 8 put_opts"
proof -
  obtain Ds M' where w: "emit_work more_primes [(8, put_opts)] sample = Inr (Ds, M')"
    using emit_work_total [OF sample_ok more_primes_ok sample_work(1,2)] put_parse put_runtime by (auto simp: sample_work(3))
  then show ?thesis using emission_exact [OF sample_ok more_primes_ok sample_work(1,2) w] by auto
qed

end
