(* ===== verification/PassModuleRuns.thy ===== *)
theory PassModuleRuns
  imports TeardownRuns CallSites Emission
begin

text \<open>
  The whole pass over a module: through emission, the table, the call sites and the teardown the module
  stays well-formed and the old annotation table unused; what the descriptors need outlives the teardown.
\<close>

section \<open>The annotation table until it is erased\<close>

definition ready :: "gid \<Rightarrow> ir_const \<Rightarrow> ir_module \<Rightarrow> bool" where
  "ready g root M \<longleftrightarrow> module_ok M \<and> g \<in> set (vars M) \<and> gname M g = ''llvm.global.annotations'' \<and>
     gv_init (var_def M g) = Some root \<and> (\<exists>es. strip_casts root = Const_Array es) \<and> use_empty M (Global_Ref g)"

definition later :: "ir_module \<Rightarrow> ir_module \<Rightarrow> bool" where
  "later M M' \<longleftrightarrow> grown M M' \<and> next_gid M \<le> next_gid M' \<and> (\<exists>as. aliases M' = aliases M @ as)"

lemma later_refl [simp]: "later M M"
  by (simp add: later_def)

lemma later_trans: "later M1 M2 \<Longrightarrow> later M2 M3 \<Longrightarrow> later M1 M3"
  unfolding later_def using grown_trans by fastforce

lemma readyD:
  assumes "ready g root M"
  shows "module_ok M" "g \<in> set (vars M)" "gname M g = ''llvm.global.annotations''"
    "gv_init (var_def M g) = Some root" "use_empty M (Global_Ref g)" "g \<in> set (live_gids M)" "g < next_gid M"
    "root \<noteq> Const_String s" "root \<noteq> Const_Struct cs"
proof -
  show "module_ok M" "g \<in> set (vars M)" "gname M g = ''llvm.global.annotations''"
    "gv_init (var_def M g) = Some root" "use_empty M (Global_Ref g)"
    using assms unfolding ready_def by blast+
  obtain es where "strip_casts root = Const_Array es" using assms unfolding ready_def by blast
  then show "root \<noteq> Const_String s" "root \<noteq> Const_Struct cs" by auto
  show l: "g \<in> set (live_gids M)" using \<open>g \<in> set (vars M)\<close> by (simp add: live_gids_def)
  show "g < next_gid M" using module_okD(3) [OF \<open>module_ok M\<close> l] .
qed

lemma ready_step:
  assumes r: "ready g root M" and ok: "module_ok M'" and l: "grown M M'" and e: "use_empty M' (Global_Ref g)"
  shows "ready g root M'"
proof -
  have "var_def M' g = var_def M g" "gname M' g = gname M g" "g \<in> set (vars M')"
    using grownD(1,4,5) [OF l] readyD(2) [OF r] by blast+
  then show ?thesis using r ok e unfolding ready_def by simp
qed

lemma use_emptyI:
  assumes "\<And>p. p \<in> set (pool M) \<Longrightarrow> c \<notin> set (operands p)"
    and "\<And>g. g \<in> set (vars M) \<Longrightarrow> gv_init (var_def M g) \<noteq> Some c"
    and "\<And>al. al \<in> snd ` set (aliases M) \<Longrightarrow> c \<noteq> Global_Ref (al_target al)"
    and "\<And>g i. g \<in> set (fns M) \<Longrightarrow> i \<in> set (bodies M g) \<Longrightarrow> c \<notin> set (instr_uses i)"
    and "\<And>g. g \<in> snd ` set (ctors M) \<Longrightarrow> c \<noteq> Global_Ref g"
  shows "use_empty M c"
  using assms unfolding use_empty_def list_all_iff by (fastforce split: prod.splits)

lemma new_global_ready:
  assumes r: "ready g root M" and u: "uniq_ok uniq" and n: "new_global uniq n v M = (h, M')"
    and c: "\<And>c. gv_init v = Some c \<Longrightarrow> \<forall>x\<in>set (const_gids c). x \<in> set (live_gids M) \<and> x \<noteq> g"
  shows "ready g root M'" "later M M'" "h = next_gid M" "h \<in> set (vars M')" "var_def M' h = v"
proof -
  note e = new_global_eq [OF n] and ok = readyD(1) [OF r] and ue = use_emptyD [OF readyD(5) [OF r]]
  have cl: "\<forall>x\<in>set (const_gids c). x \<in> set (live_gids M)" if "gv_init v = Some c" for c using c that by blast
  have gr: "grown M M'" "module_ok M'" using new_global_ok [OF ok u n cl] by blast+
  have nv: "h \<notin> set (vars M)" using module_okD(3) [OF ok, of h] e(1) by (auto simp: live_gids_def)
  have "use_empty M' (Global_Ref g)"
  proof (rule use_emptyI)
    fix p assume "p \<in> set (pool M')"
    then consider "p \<in> set (pool M)" | c where "gv_init v = Some c" "p \<in> set (pool_parts c)"
      unfolding e(12) by (auto split: option.splits)
    then show "Global_Ref g \<notin> set (operands p)"
    proof cases
      case 1
      then show ?thesis by (rule ue(1))
    next
      case 2
      then show ?thesis using pool_parts_closed [OF 2(2), of "Global_Ref g"] c [OF 2(1)] by blast
    qed
  next
    fix x assume x: "x \<in> set (vars M')"
    show "gv_init (var_def M' x) \<noteq> Some (Global_Ref g)"
    proof (cases "x = h")
      case True
      show ?thesis
      proof
        assume "gv_init (var_def M' x) = Some (Global_Ref g)"
        then have "gv_init v = Some (Global_Ref g)" using True by (simp add: e(4))
        then show False using c by fastforce
      qed
    next
      case False
      then show ?thesis using x ue(2) [of x] by (simp add: e(2,4))
    qed
  qed (use ue(3-5) in \<open>simp_all add: e(3,6,8,9)\<close>)
  then show "ready g root M'" using ready_step [OF r gr(2,1)] by blast
  show "later M M'" using gr(1) e(1,6,10) by (simp add: later_def)
  show "h = next_gid M" "h \<in> set (vars M')" "var_def M' h = v" using e(1,2,4) by simp_all
qed

lemma new_function_ready:
  assumes r: "ready g root M" and u: "uniq_ok uniq" and n: "new_function uniq n F body M = (h, M')"
    and b: "\<And>i c. i \<in> set body \<Longrightarrow> c \<in> set (instr_uses i) \<Longrightarrow> const_ok M c \<and> c \<noteq> Global_Ref g"
  shows "ready g root M'" "later M M'" "h \<in> set (fns M')" "h \<noteq> g"
proof -
  note e = new_function_eq [OF n] and ok = readyD(1) [OF r] and ue = use_emptyD [OF readyD(5) [OF r]]
  have gr: "grown M M'" "module_ok M'" using new_function_ok [OF ok u n] b by blast+
  have "use_empty M' (Global_Ref g)"
  proof (rule use_emptyI)
    fix x i assume x: "x \<in> set (fns M')" "i \<in> set (bodies M' x)"
    show "Global_Ref g \<notin> set (instr_uses i)"
    proof (cases "x = h")
      case True
      then show ?thesis using x(2) b by (auto simp: e(8))
    next
      case False
      then show ?thesis using x ue(4) [of x i] by (simp add: e(3,8))
    qed
  qed (use ue(1-3,5) in \<open>simp_all add: e(2,4,6,9,12)\<close>)
  then show "ready g root M'" using ready_step [OF r gr(2,1)] by blast
  show "later M M'" using gr(1) e(1,6,10) by (simp add: later_def)
  show "h \<in> set (fns M')" using e(3) by simp
  show "h \<noteq> g" using readyD(7) [OF r] e(1) by simp
qed

lemma get_global_ready:
  assumes r: "ready g root M" and u: "uniq_ok uniq" and n: "get_global uniq n M = (h, M')"
    and ne: "n \<noteq> ''llvm.global.annotations''"
  shows "ready g root M'" "later M M'" "h \<in> set (live_gids M')" "h \<noteq> g"
proof -
  have "ready g root M' \<and> later M M' \<and> h \<in> set (live_gids M') \<and> h \<noteq> g"
  proof (cases "List.find (\<lambda>g. gname M g = n) (vars M)")
    case (Some x)
    then have x: "x = h" "M' = M" using n by (simp_all add: get_global_def)
    have "x \<in> set (live_gids M)" "gname M x = n" using Some by (auto simp: find_Some_iff live_gids_def)
    then show ?thesis using r ne readyD(3) [OF r] x by auto
  next
    case None
    have ng: "new_global uniq n \<lparr>gv_init = None, gv_constant = False, gv_linkage = External_Linkage, gv_section = []\<rparr> M = (h, M')"
      using n unfolding get_global_def None by simp
    show ?thesis using new_global_ready [OF r u ng] readyD(7) [OF r] by (auto simp: live_gids_def)
  qed
  then show "ready g root M'" "later M M'" "h \<in> set (live_gids M')" "h \<noteq> g" by blast+
qed

lemma get_function_ready:
  assumes r: "ready g root M" and u: "uniq_ok uniq" and n: "get_function uniq n ret params M = (h, M')"
    and ne: "n \<noteq> ''llvm.global.annotations''"
  shows "ready g root M'" "later M M'" "h \<in> set (live_gids M')" "h \<noteq> g"
proof -
  have "ready g root M' \<and> later M M' \<and> h \<in> set (live_gids M') \<and> h \<noteq> g"
  proof (cases "find_named n M")
    case (Some x)
    then have x: "x = h" "M' = M" using n by (simp_all add: get_function_def)
    have "x \<in> set (live_gids M)" "gname M x = n" using Some by (auto simp: find_named_def find_Some_iff)
    then show ?thesis using r ne readyD(3) [OF r] x by auto
  next
    case None
    have nf: "new_function uniq n (extern_func ret params) [] M = (h, M')"
      using n unfolding get_function_def None by simp
    show ?thesis using new_function_ready [OF r u nf] by (auto simp: live_gids_def)
  qed
  then show "ready g root M'" "later M M'" "h \<in> set (live_gids M')" "h \<noteq> g" by blast+
qed

lemma rename_body_ready:
  assumes r: "ready g root M" and u: "uniq_ok uniq" and f: "f \<in> set (fns M)"
    and M': "M' = rename_body uniq f (gname M f) M"
  shows "ready g root M'" "later M M'"
proof -
  note ok = readyD(1) [OF r] and ue = use_emptyD [OF readyD(5) [OF r]]
  note em = rename_body_emitted(1) [OF ok u f M']
  have fg: "f \<noteq> g" using module_okD(1) [OF ok] f readyD(2) [OF r] by (auto simp: live_gids_def)
  obtain nm where nm: "''__filc_async_'' @ gname M f = nm" by blast
  have "\<exists>as. aliases M' = aliases M @ as \<and> (\<forall>al\<in>snd ` set as. al_target al = f) \<and> next_gid M \<le> next_gid M'"
  proof (cases "aliases M' = aliases M")
    case True
    then show ?thesis unfolding M' rename_body_def Let_def by (intro exI [of _ "[]"]) simp
  next
    case False
    then have "aliases M' = aliases M @ [(next_gid M, \<lparr>al_target = f, al_linkage = f_linkage (fn_def M f),
        al_visibility = f_visibility (fn_def M f)\<rparr>)]" "next_gid M' = next_gid M + 1"
      unfolding M' rename_body_def Let_def nm by (simp_all split: if_splits)
    then show ?thesis by (intro exI [of _ "[(next_gid M, \<lparr>al_target = f, al_linkage = f_linkage (fn_def M f),
        al_visibility = f_visibility (fn_def M f)\<rparr>)]"]) simp
  qed
  then obtain as where as: "aliases M' = aliases M @ as" "\<forall>al\<in>snd ` set as. al_target al = f" "next_gid M \<le> next_gid M'"
    by blast
  have same: "pool M' = pool M" "vars M' = vars M" "var_def M' = var_def M"
    unfolding M' rename_body_def Let_def nm by simp_all
  have other: "fns M' = fns M" "bodies M' = bodies M" "ctors M' = ctors M" using em unfolding emitted_def by blast+
  have "use_empty M' (Global_Ref g)"
  proof (rule use_emptyI)
    fix al assume "al \<in> snd ` set (aliases M')"
    then have "al \<in> snd ` set (aliases M) \<or> al \<in> snd ` set as" unfolding as(1) set_append image_Un by (rule UnE) blast+
    then show "Global_Ref g \<noteq> Global_Ref (al_target al)"
    proof
      assume "al \<in> snd ` set as"
      then have "al_target al = f" using as(2) by blast
      then show ?thesis using fg by simp
    qed (rule ue(3))
  qed (use ue(1,2,4,5) other same in simp_all)
  then show "ready g root M'" using ready_step [OF r emittedD(1,2) [OF em]] by blast
  show "later M M'" using emittedD(2) [OF em] as by (auto simp: later_def)
qed

lemma find_or_create_string_ready:
  assumes r: "ready g root M" and u: "uniq_ok uniq" and f: "find_or_create_string uniq s M = (h, M')"
  shows "ready g root M'" "later M M'" "h \<in> set (live_gids M')" "h \<noteq> g"
proof -
  let ?v = "\<lparr>gv_init = Some (Const_String (s @ [CHR 0x00])), gv_constant = True,
          gv_linkage = Private_Linkage, gv_section = []\<rparr>"
  have "ready g root M' \<and> later M M' \<and> h \<in> set (live_gids M') \<and> h \<noteq> g"
  proof (cases "List.find (holds_string M s) (vars M)")
    case (Some x)
    then have x: "x = h" "M' = M" using f by (simp_all add: find_or_create_string_def)
    have h: "x \<in> set (vars M)" "holds_string M s x" using Some by (auto simp: find_Some_iff)
    have "x \<noteq> g"
    proof
      assume "x = g"
      then show False using h(2) readyD(4) [OF r] readyD(8) [OF r] by (auto simp: holds_string_def split: ir_const.splits)
    qed
    then show ?thesis using r h(1) x by (simp add: live_gids_def)
  next
    case None
    have n: "new_global uniq ''.filc_async.opt'' ?v M = (h, M')"
      using f unfolding find_or_create_string_def None by simp
    show ?thesis using new_global_ready [OF r u n] readyD(7) [OF r] by (auto simp: live_gids_def)
  qed
  then show "ready g root M'" "later M M'" "h \<in> set (live_gids M')" "h \<noteq> g" by blast+
qed

lemma later_live: "later M M' \<Longrightarrow> set (live_gids M) \<subseteq> set (live_gids M')"
  unfolding later_def grown_def by blast

lemma var_live: "x \<in> set (vars M) \<Longrightarrow> x \<in> set (live_gids M)"
  by (simp add: live_gids_def)

lemma opt_strings_ready:
  assumes "ready g root M" and u: "uniq_ok uniq" and "opt_strings uniq ss M = (gs, M')"
  shows "ready g root M' \<and> later M M' \<and> set gs \<subseteq> set (live_gids M') - {g}"
  using assms(1,3)
proof (induction ss arbitrary: M gs M')
  case (Cons s ss)
  obtain h M1 where f: "find_or_create_string uniq s M = (h, M1)" by force
  obtain hs M2 where r: "opt_strings uniq ss M1 = (hs, M2)" by force
  have eq: "gs = h # hs" "M' = M2" using Cons.prems(2) f r by simp_all
  note e = find_or_create_string_ready [OF Cons.prems(1) u f]
  have i: "ready g root M2" "later M1 M2" "set hs \<subseteq> set (live_gids M2) - {g}" using Cons.IH [OF e(1) r] by blast+
  have "h \<in> set (live_gids M2)" using e(3) later_live [OF i(2)] by blast
  then show ?case using i e(4) later_trans [OF e(2) i(2)] eq by auto
qed simp

lemma emit_opts_ready:
  assumes r: "ready g root M" and u: "uniq_ok uniq" and e: "emit_opts uniq n opts M = (og, M')"
  shows "ready g root M'" "later M M'" "og \<in> set (live_gids M')" "og \<noteq> g"
proof -
  obtain gs M1 where s: "opt_strings uniq opts M = (gs, M1)" by force
  have i: "ready g root M1" "later M M1" "set gs \<subseteq> set (live_gids M1) - {g}" using opt_strings_ready [OF r u s] by blast+
  let ?v = "const_global (Const_Array (map Global_Ref gs @ [Const_Null])) Internal_Linkage"
  obtain nm where nm: "''__filc_opts_'' @ n = nm" by blast
  have ng: "new_global uniq nm ?v M1 = (og, M')" using e unfolding emit_opts_def s nm by simp
  have c: "\<forall>x\<in>set (const_gids c). x \<in> set (live_gids M1) \<and> x \<noteq> g" if "gv_init ?v = Some c" for c
  proof -
    have "c = Const_Array (map Global_Ref gs @ [Const_Null])" using that by (simp add: const_global_def)
    then show ?thesis using i(3) by auto
  qed
  note ne = new_global_ready [OF i(1) u ng c]
  show "ready g root M'" "later M M'" "og \<in> set (live_gids M')" "og \<noteq> g"
    using ne later_trans [OF i(2) ne(2)] readyD(7) [OF i(1)] by (simp_all add: live_gids_def)
qed

lemma runtime_symbol_name: "''filc_async_runtime_'' @ rt \<noteq> ''llvm.global.annotations''"
  by simp

lemma emit_meta_global_ready:
  assumes r: "ready g root M" and u: "uniq_ok uniq" and e: "emit_meta_global uniq F n opts og P M = Inr (mg, M')"
    and o: "og \<in> set (live_gids M)" "og \<noteq> g"
  shows "ready g root M'" "later M M'"
proof -
  obtain nm where nm: "''__filc_async_name_'' @ n = nm" by blast
  obtain mm where mm: "''__filc_meta_'' @ n = mm" by blast
  obtain ng M1 where g1: "new_global uniq nm (const_global (Const_String (n @ [CHR 0x00])) Private_Linkage) M = (ng, M1)" by force
  obtain rt where rt: "parse_runtime opts = Inr rt"
    using e unfolding emit_meta_global_def by (cases "parse_runtime opts") (auto split: prod.splits)
  obtain rn where rn: "''filc_async_runtime_'' @ rt = rn" by blast
  obtain rg M2 where g2: "get_global uniq rn M1 = (rg, M2)" by force
  have g3: "new_global uniq mm (const_global (meta_const F ng og rg P) Internal_Linkage) M2 = (mg, M')"
    using e unfolding emit_meta_global_def nm mm g1 rt Let_def prod.case pass_bind_simps rn g2 by simp
  have c1: "\<forall>x\<in>set (const_gids c). x \<in> set (live_gids M) \<and> x \<noteq> g"
    if "gv_init (const_global (Const_String (n @ [CHR 0x00])) Private_Linkage) = Some c" for c
    using that by (auto simp: const_global_def)
  note e1 = new_global_ready [OF r u g1 c1]
  have "rn \<noteq> ''llvm.global.annotations''" using runtime_symbol_name unfolding rn [symmetric] .
  note e2 = get_global_ready [OF e1(1) u g2 this]
  have l: "ng \<in> set (live_gids M2)" "ng \<noteq> g" "og \<in> set (live_gids M2)"
    using e1(3) var_live [OF e1(4)] readyD(7) [OF r] o(1) later_live [OF e1(2)] later_live [OF e2(2)] by blast+
  have c3: "\<forall>x\<in>set (const_gids c). x \<in> set (live_gids M2) \<and> x \<noteq> g"
    if "gv_init (const_global (meta_const F ng og rg P) Internal_Linkage) = Some c" for c
  proof -
    have "c = meta_const F ng og rg P" using that by (simp add: const_global_def)
    then show ?thesis using l e2(3,4) o(2) by (simp add: meta_const_gids)
  qed
  note e3 = new_global_ready [OF e2(1) u g3 c3]
  show "ready g root M'" by (rule e3(1))
  show "later M M'" by (rule later_trans [OF later_trans [OF e1(2) e2(2)] e3(2)])
qed

lemma emit_work_ready:
  assumes "ready g root M" and u: "uniq_ok uniq" and "fst ` set W \<subseteq> set (fns M)"
    and "emit_work uniq W M = Inr (Ds, M')"
  shows "ready g root M' \<and> later M M'"
  using assms(1,3,4)
proof (induction W arbitrary: M Ds)
  case Nil
  then show ?case by simp
next
  case (Cons a W)
  obtain f opts where a: "a = (f, opts)" by force
  obtain P where P: "parse_kinds (fn_def M f) opts = Inr P"
    using Cons.prems(3) by (cases "parse_kinds (fn_def M f) opts") (simp_all add: a Let_def)
  obtain M1 where M1: "M1 = rename_body uniq f (gname M f) M" by blast
  obtain og M2 where o: "emit_opts uniq (gname M f) opts M1 = (og, M2)" by force
  obtain mg M3 where m: "emit_meta_global uniq (fn_def M f) (gname M f) opts og P M2 = Inr (mg, M3)"
    using Cons.prems(3) by (cases "emit_meta_global uniq (fn_def M f) (gname M f) opts og P M2")
      (auto simp add: a Let_def P M1 [symmetric] o)
  obtain Ds' where w: "emit_work uniq W M3 = Inr (Ds', M')"
    using Cons.prems(3) by (auto simp add: a Let_def P M1 [symmetric] o m split: prod.splits)
  have f: "f \<in> set (fns M)" using Cons.prems(2) a by auto
  note e1 = rename_body_ready [OF Cons.prems(1) u f M1]
  note e2 = emit_opts_ready [OF e1(1) u o]
  note e3 = emit_meta_global_ready [OF e2(1) u m e2(3,4)]
  have l: "later M M3" by (rule later_trans [OF later_trans [OF e1(2) e2(2)] e3(2)])
  then have "fst ` set W \<subseteq> set (fns M3)" using Cons.prems(2) a unfolding later_def grown_def by auto
  from Cons.IH [OF e3(1) this w] l show ?case using later_trans by blast
qed

lemma add_ctor_ready:
  assumes r: "ready g root M" and c: "c \<in> set (fns M)" "c \<noteq> g"
  shows "ready g root (M\<lparr>ctors := ctors M @ [(p, c)]\<rparr>)" "later M (M\<lparr>ctors := ctors M @ [(p, c)]\<rparr>)"
proof -
  let ?M = "M\<lparr>ctors := ctors M @ [(p, c)]\<rparr>"
  note d = module_okD [OF readyD(1) [OF r]] and ue = use_emptyD [OF readyD(5) [OF r]]
  have l: "live_gids ?M = live_gids M" by (simp add: live_gids_def)
  have k: "const_ok ?M x = const_ok M x" for x by (simp add: const_ok_def l)
  have "\<forall>h\<in>snd ` set (ctors ?M). h \<in> set (live_gids M)" using d(8) c(1) by (auto simp: live_gids_def)
  then have ok: "module_ok ?M" unfolding module_ok_def l k using d(1-3) by (simp add: d(4-7))
  have gr: "grown M ?M" by (simp add: grown_def l)
  have "use_empty ?M (Global_Ref g)"
  proof (rule use_emptyI)
    fix h assume "h \<in> snd ` set (ctors ?M)"
    then show "Global_Ref g \<noteq> Global_Ref h" using ue(5) [of h] c(2) by auto
  qed (use ue(1-4) in simp_all)
  then show "ready g root ?M" by (rule ready_step [OF r ok gr])
  show "later M ?M" using gr by (simp add: later_def)
qed

lemma emit_table_ready:
  assumes r: "ready g root M" and u: "uniq_ok uniq" and m: "set metas \<subseteq> set (live_gids M) - {g}"
  shows "ready g root (emit_table uniq metas M)" "later M (emit_table uniq metas M)"
    "\<exists>t\<in>set (vars (emit_table uniq metas M)). next_gid M \<le> t \<and> gv_constant (var_def (emit_table uniq metas M) t) \<and>
       gv_init (var_def (emit_table uniq metas M) t) = Some (Const_Array (map Global_Ref metas @ [Const_Null]))"
proof -
  let ?v = "const_global (Const_Array (map Global_Ref metas @ [Const_Null])) Internal_Linkage"
  obtain t M1 where t: "new_global uniq ''__filc_async_meta_table'' ?v M = (t, M1)" by force
  obtain v M2 where v: "get_function uniq ''filc_async_validate_table'' Void_Ty [Ptr_Ty] M1 = (v, M2)" by force
  let ?F = "(extern_func Void_Ty [])\<lparr>f_declaration := False, f_linkage := Internal_Linkage\<rparr>"
  let ?b = "[Call_Instr Plain_Call v \<lparr>ft_ret = Void_Ty, ft_params = [Ptr_Ty], ft_vararg = False\<rparr> [Global_Ref t]]"
  obtain c M3 where c: "new_function uniq ''__filc_async_ctor'' ?F ?b M2 = (c, M3)" by force
  have eq: "emit_table uniq metas M = M3\<lparr>ctors := ctors M3 @ [(65535, c)]\<rparr>"
    unfolding emit_table_def t v prod.case Let_def c by simp
  have cl: "\<forall>x\<in>set (const_gids i). x \<in> set (live_gids M) \<and> x \<noteq> g" if "gv_init ?v = Some i" for i
  proof -
    have "i = Const_Array (map Global_Ref metas @ [Const_Null])" using that by (simp add: const_global_def)
    then show ?thesis using m by auto
  qed
  note e1 = new_global_ready [OF r u t cl]
  have "''filc_async_validate_table'' \<noteq> ''llvm.global.annotations''" by simp
  note e2 = get_function_ready [OF e1(1) u v this]
  have tl: "t \<in> set (live_gids M2)" "t \<noteq> g"
    using e1(3) var_live [OF e1(4)] readyD(7) [OF r] later_live [OF e2(2)] by blast+
  have b: "const_ok M2 x \<and> x \<noteq> Global_Ref g" if "i \<in> set ?b" "x \<in> set (instr_uses i)" for i x
    using that tl e2(3,4) by (auto simp: instr_uses_def const_ok_def)
  note e3 = new_function_ready [OF e2(1) u c b]
  note e4 = add_ctor_ready [where p = 65535, OF e3(1,3,4)]
  show "ready g root (emit_table uniq metas M)" unfolding eq by (rule e4(1))
  have l: "later M1 (emit_table uniq metas M)" unfolding eq by (rule later_trans [OF later_trans [OF e2(2) e3(2)] e4(2)])
  show "later M (emit_table uniq metas M)" by (rule later_trans [OF e1(2) l])
  have "t \<in> set (vars (emit_table uniq metas M))" "var_def (emit_table uniq metas M) t = ?v"
    using l e1(4,5) unfolding later_def grown_def by auto
  then show "\<exists>t\<in>set (vars (emit_table uniq metas M)). next_gid M \<le> t \<and> gv_constant (var_def (emit_table uniq metas M) t) \<and>
       gv_init (var_def (emit_table uniq metas M) t) = Some (Const_Array (map Global_Ref metas @ [Const_Null]))"
    using e1(3) by (auto simp: const_global_def)
qed

lemma recode_ready:
  assumes r: "ready g root M" and fields: "vars M' = vars M" "fns M' = fns M" "var_def M' = var_def M" "fn_def M' = fn_def M"
    "aliases M' = aliases M" "gname M' = gname M" "pool M' = pool M" "ctors M' = ctors M" "next_gid M' = next_gid M"
    and b: "\<And>x i c. x \<in> set (fns M) \<Longrightarrow> i \<in> set (bodies M' x) \<Longrightarrow> c \<in> set (instr_uses i) \<Longrightarrow>
      const_ok M c \<and> c \<noteq> Global_Ref g"
  shows "ready g root M'" "later M M'"
proof -
  note d = module_okD [OF readyD(1) [OF r]] and ue = use_emptyD [OF readyD(5) [OF r]]
  have l: "live_gids M' = live_gids M" by (simp add: live_gids_def fields)
  have k: "const_ok M' x = const_ok M x" for x by (simp add: const_ok_def l fields)
  have "\<forall>x\<in>set (fns M). \<forall>i\<in>set (bodies M' x). \<forall>c\<in>set (instr_uses i). const_ok M c" using b by blast
  then have ok: "module_ok M'" unfolding module_ok_def l k fields using d(1-3,6,8) by (simp add: d(4,5))
  have gr: "grown M M'" by (simp add: grown_def l fields)
  have "use_empty M' (Global_Ref g)"
  proof (rule use_emptyI)
    fix x i assume "x \<in> set (fns M')" "i \<in> set (bodies M' x)"
    then show "Global_Ref g \<notin> set (instr_uses i)" using b unfolding fields(2) by blast
  qed (use ue(1-3,5) in \<open>simp_all add: fields\<close>)
  then show "ready g root M'" by (rule ready_step [OF r ok gr])
  show "later M M'" using gr by (simp add: later_def fields)
qed

lemma old_uses:
  assumes r: "ready g root M" and x: "x \<in> set (fns M)" "i \<in> set (bodies M x)" "c \<in> set (instr_uses i)"
  shows "const_ok M c \<and> c \<noteq> Global_Ref g"
  using module_okD(7) [OF readyD(1) [OF r] x] use_emptyD(4) [OF readyD(5) [OF r] x(1,2)] x(3) by blast

lemma runtime_calls_names: "c \<in> set runtime_calls \<Longrightarrow> fst c \<noteq> ''llvm.global.annotations''"
  by (auto simp: runtime_calls_def)

lemma runtime_calls_ready:
  assumes "ready g root M" and u: "uniq_ok uniq" and "\<And>c. c \<in> set cs \<Longrightarrow> fst c \<noteq> ''llvm.global.annotations''"
  shows "ready g root (fold (\<lambda>(n, ret, params) M. snd (get_function uniq n ret params M)) cs M) \<and>
    later M (fold (\<lambda>(n, ret, params) M. snd (get_function uniq n ret params M)) cs M)"
  using assms(1,3)
proof (induction cs arbitrary: M)
  case (Cons c cs)
  obtain n ret params where c: "c = (n, ret, params)" by (cases c) auto
  obtain h M1 where h: "get_function uniq n ret params M = (h, M1)" by force
  have "n \<noteq> ''llvm.global.annotations''" using Cons.prems(2) [of c] unfolding c by simp
  note e = get_function_ready [OF Cons.prems(1) u h this]
  have "\<And>c. c \<in> set cs \<Longrightarrow> fst c \<noteq> ''llvm.global.annotations''" using Cons.prems(2) by (metis list.set_intros(2))
  from Cons.IH [OF e(1) this] later_trans [OF e(2)] show ?case by (simp add: c h)
qed simp

lemma emit_stub_function_ready:
  assumes r: "ready g root M" and u: "uniq_ok uniq" and e: "emit_stub_function uniq f D M = (s, M')"
    and f: "f \<in> set (fns M)" and m: "d_meta D \<in> set (live_gids M)" "d_meta D \<noteq> g"
  shows "ready g root M'" "later M M'" "s \<in> set (fns M')" "s \<noteq> g"
proof -
  obtain M1 where M1: "fold (\<lambda>(n, ret, params) M. snd (get_function uniq n ret params M)) runtime_calls M = M1"
    by (rule that [OF refl])
  have "ready g root M1 \<and> later M M1" unfolding M1 [symmetric] by (rule runtime_calls_ready [OF r u runtime_calls_names])
  then have e1: "ready g root M1" "later M M1" by (rule conjunct1, rule conjunct2)
  obtain t M2 where t: "emit_run_thunk uniq f D M1 = (t, M2)" by force
  have fg: "f \<noteq> g" using module_okD(1) [OF readyD(1) [OF r]] f readyD(2) [OF r] by (auto simp: live_gids_def)
  have f1: "f \<in> set (fns M1)" using e1(2) f unfolding later_def grown_def by blast
  have b1: "const_ok M1 c \<and> c \<noteq> Global_Ref g"
    if "i \<in> set [Call_Instr Plain_Call f (f_type (fn_def M1 f)) []]" "c \<in> set (instr_uses i)" for i c
    using that f1 fg by (auto simp: instr_uses_def const_ok_def live_gids_def)
  have e2: "ready g root M2" "later M1 M2" "t \<in> set (fns M2)" "t \<noteq> g"
    by (rule new_function_ready [OF e1(1) u t [unfolded emit_run_thunk_def]], rule b1, assumption, assumption)+
  obtain s' M3 where s': "new_function uniq (''__filc_async_stub_'' @ d_name D)
           ((extern_func (ft_ret (f_type (fn_def M f))) (f_params (fn_def M f)))\<lparr>f_type := f_type (fn_def M f), f_declaration := False,
              f_linkage := Internal_Linkage\<rparr>)
           [Other_Instr [Global_Ref (d_meta D), Global_Ref t]] M2 = (s', M3)" by force
  have ml: "d_meta D \<in> set (live_gids M2)" "t \<in> set (live_gids M2)"
    using m(1) later_live [OF later_trans [OF e1(2) e2(2)]] e2(3) by (auto simp: live_gids_def)
  have b2: "const_ok M2 c \<and> c \<noteq> Global_Ref g"
    if "i \<in> set [Other_Instr [Global_Ref (d_meta D), Global_Ref t]]" "c \<in> set (instr_uses i)" for i c
    using that ml e2(4) m(2) by (auto simp: instr_uses_def const_ok_def)
  have e3: "ready g root M3" "later M2 M3" "s' \<in> set (fns M3)" "s' \<noteq> g"
    by (rule new_function_ready [OF e2(1) u s'], rule b2, assumption, assumption)+
  have M': "s = s' \<and> M' = M3\<lparr>stub_code := (stub_code M3)(s' := emit_stub (fn_def M f) (d_parsed D))\<rparr>"
    using e unfolding emit_stub_function_def Let_def M1 t prod.case s' by auto
  have e4: "ready g root M'" "later M3 M'"
    by (rule recode_ready [OF e3(1)]; use M' old_uses [OF e3(1)] in simp)+
  show "ready g root M'" by (rule e4(1))
  show "later M M'" by (rule later_trans [OF later_trans [OF later_trans [OF e1(2) e2(2)] e3(2)] e4(2)])
  show "s \<in> set (fns M')" "s \<noteq> g" using e3(3,4) M' by simp_all
qed

lemma redirect_uses: "c \<in> set (instr_uses (redirect f s ty i)) \<Longrightarrow> c \<in> set (instr_uses i) \<or> c = Global_Ref s"
  by (cases i) (auto simp: instr_uses_def split: if_splits)

lemma rewrite_function_ready:
  assumes r: "ready g root M" and u: "uniq_ok uniq" and M': "M' = rewrite_function uniq f D M"
    and f: "f \<in> set (fns M)" and m: "d_meta D \<in> set (live_gids M)" "d_meta D \<noteq> g"
  shows "ready g root M' \<and> later M M'"
proof (cases "has_calls f (f_type (fn_def M f)) M")
  case False
  then show ?thesis using r by (simp add: M' rewrite_function_def Let_def)
next
  case True
  obtain s M1 where s: "emit_stub_function uniq f D M = (s, M1)" by force
  let ?b = "\<lambda>x. if x \<in> set (fns M) then map (redirect f s (f_type (fn_def M f))) (bodies M1 x) else bodies M1 x"
  note e = emit_stub_function_ready [OF r u s f m]
  have eq: "M' = M1\<lparr>bodies := ?b\<rparr>" using True unfolding M' rewrite_function_def Let_def s by simp
  have uses: "const_ok M1 c \<and> c \<noteq> Global_Ref g"
    if i: "x \<in> set (fns M1)" "i \<in> set (?b x)" "c \<in> set (instr_uses i)" for x i c
  proof -
    have "\<exists>j\<in>set (bodies M1 x). c \<in> set (instr_uses j) \<or> c = Global_Ref s"
    proof (cases "x \<in> set (fns M)")
      case True
      then obtain j where "j \<in> set (bodies M1 x)" "i = redirect f s (f_type (fn_def M f)) j" using i(2) by auto
      then show ?thesis using redirect_uses i(3) by blast
    next
      case False
      then show ?thesis using i(2,3) by auto
    qed
    then obtain j where j: "j \<in> set (bodies M1 x)" "c \<in> set (instr_uses j) \<or> c = Global_Ref s" by blast
    show ?thesis using j(2) old_uses [OF e(1) i(1) j(1)] e(3,4) by (auto simp: const_ok_def live_gids_def)
  qed
  have "ready g root M'" "later M1 M'"
    by (rule recode_ready [OF e(1)]; use eq uses in simp)+
  then show ?thesis using later_trans [OF e(2)] by blast
qed

lemma rewrite_call_sites_ready:
  assumes "ready g root M" and u: "uniq_ok uniq" and "fst ` set A \<subseteq> set (fns M)"
    and "\<And>f D. map_of Ds f = Some D \<Longrightarrow> d_meta D \<in> set (live_gids M) \<and> d_meta D \<noteq> g"
    and "rewrite_call_sites uniq A Ds M = Inr M'"
  shows "ready g root M' \<and> later M M'"
  using assms(1,3-5)
proof (induction A arbitrary: M)
  case Nil
  then show ?case by simp
next
  case (Cons a A)
  obtain f opts where a: "a = (f, opts)" by force
  obtain D M1 where D: "map_of Ds f = Some D" "rewrite_function uniq f D M = M1" "rewrite_call_sites uniq A Ds M1 = Inr M'"
    using Cons.prems(4) by (auto simp: a split: option.splits)
  have f: "f \<in> set (fns M)" using Cons.prems(2) a by simp
  have e: "ready g root M1" "later M M1"
    using rewrite_function_ready [OF Cons.prems(1) u D(2) [symmetric] f] Cons.prems(3) [OF D(1)] by blast+
  have "fst ` set A \<subseteq> set (fns M1)" using Cons.prems(2) e(2) a unfolding later_def grown_def by auto
  moreover have "\<And>f D. map_of Ds f = Some D \<Longrightarrow> d_meta D \<in> set (live_gids M1) \<and> d_meta D \<noteq> g"
    using Cons.prems(3) later_live [OF e(2)] by blast
  ultimately have "ready g root M' \<and> later M1 M'" using Cons.IH [OF e(1) _ _ D(3)] by blast
  then show ?case using later_trans [OF e(2)] by blast
qed

section \<open>The pass as a whole\<close>

text \<open>What a variable that outlives the teardown refers to outlives it.\<close>

lemma survivor:
  assumes ok: "module_ok M" and t: "torn_down M g root M'" and x: "x \<in> set (vars M)" "x \<in> set (live_gids M')"
  shows "x \<in> set (vars M')" "var_def M' x = var_def M x"
proof -
  have tn: "torn M g M'" using t by (simp add: torn_down_def)
  have "x \<in> set (live_gids M)" using x(1) by (simp add: live_gids_def)
  then have nk: "x \<noteq> next_gid M" using module_okD(3) [OF ok] by blast
  show "x \<in> set (vars M')" using x tornD(1,2) [OF tn] module_okD(1) [OF ok] by (auto simp: live_gids_def)
  show "var_def M' x = var_def M x" by (rule tornD(4) [OF tn nk])
qed

lemma init_live:
  assumes "module_ok M" and "x \<in> set (vars M)" and "gv_init (var_def M x) = Some c" and "y \<in> set (const_gids c)"
  shows "y \<in> set (live_gids M)"
  by (rule const_gids_live [OF assms(1) module_okD(5) [OF assms(1-3)] assms(4)])

lemma text_at_survives:
  assumes ok: "module_ok M" and t: "torn_down M g root M'" and x: "text_at M x s" "x \<in> set (live_gids M')"
  shows "text_at M' x s"
proof -
  have v: "x \<in> set (vars M)" using x(1) by (simp add: text_at_def)
  show ?thesis using survivor [OF ok t v x(2)] x(1) by (simp add: text_at_def)
qed

lemma described_survives:
  assumes ok: "module_ok M" and t: "torn_down M g root M'" and d: "described M F n opts D rg"
    and l: "d_meta D \<in> set (live_gids M')"
  shows "described M' F n opts D rg"
proof -
  have ok': "module_ok M'" using t by (simp add: torn_down_def)
  from d obtain ng og where m: "d_name D = n" "d_meta D \<in> set (vars M)" "gv_constant (var_def M (d_meta D))"
    "gv_init (var_def M (d_meta D)) = Some (meta_const F ng og rg (d_parsed D))" and n: "text_at M ng n" and o: "opts_at M og opts"
    unfolding described_def by blast
  note s = survivor [OF ok t m(2) l]
  have i: "gv_init (var_def M' (d_meta D)) = Some (meta_const F ng og rg (d_parsed D))" using s(2) m(4) by simp
  have live: "ng \<in> set (live_gids M')" "og \<in> set (live_gids M')"
    using init_live [OF ok' s(1) i] by (simp_all add: meta_const_gids)
  from o obtain gs where g: "og \<in> set (vars M)" "gv_constant (var_def M og)"
    "gv_init (var_def M og) = Some (Const_Array (map Global_Ref gs @ [Const_Null]))" "list_all2 (text_at M) gs opts"
    unfolding opts_at_def by blast
  note so = survivor [OF ok t g(1) live(2)]
  have io: "gv_init (var_def M' og) = Some (Const_Array (map Global_Ref gs @ [Const_Null]))" using so(2) g(3) by simp
  have "y \<in> set (live_gids M')" if "y \<in> set gs" for y
    using init_live [OF ok' so(1) io, of y] that by auto
  then have "list_all2 (text_at M') gs opts"
    using g(4) text_at_survives [OF ok t] by (auto simp: list_all2_conv_all_nth)
  then have "opts_at M' og opts" using so g(2) io by (auto simp: opts_at_def)
  moreover have "text_at M' ng n" by (rule text_at_survives [OF ok t n live(1)])
  ultimately show ?thesis using m(1,3) s i unfolding described_def by auto
qed

text \<open>From the old annotations only what existed before the pass can be reached.\<close>

lemma later_children:
  assumes ok: "module_ok M" "module_ok M'" and l: "later M M'" and c: "const_ok M c"
  shows "const_children M' c = const_children M c"
proof (cases c)
  case (Global_Ref x)
  obtain as where as: "aliases M' = aliases M @ as" using l unfolding later_def by blast
  have gr: "grown M M'" using l by (simp add: later_def)
  have xl: "x \<in> set (live_gids M)" using c by (simp add: Global_Ref const_ok_def)
  show ?thesis
  proof (cases "x \<in> set (vars M)")
    case True
    then show ?thesis using grownD(1,4) [OF gr] by (simp add: Global_Ref const_children_def)
  next
    case False
    have d: "distinct (live_gids M')" by (rule module_okD(1) [OF ok(2)])
    consider "x \<in> set (fns M)" | "x \<in> fst ` set (aliases M)" using xl False by (auto simp: live_gids_def)
    then have "x \<notin> set (vars M') \<and> map_of (aliases M') x = map_of (aliases M) x"
    proof cases
      case 1
      then have "x \<in> set (fns M')" using grownD(2) [OF gr] by blast
      then have "x \<notin> set (vars M')" "x \<notin> fst ` set (aliases M')" using d by (auto simp: live_gids_def)
      then have "map_of (aliases M') x = None" "map_of (aliases M) x = None" unfolding map_of_eq_None_iff as by auto
      then show ?thesis using \<open>x \<notin> set (vars M')\<close> by simp
    next
      case 2
      then have "x \<notin> set (vars M')" using d as by (auto simp: live_gids_def)
      moreover obtain al where "map_of (aliases M) x = Some al" using 2 by (metis map_of_eq_None_iff not_None_eq)
      ultimately show ?thesis by (simp add: as map_add_Some_iff)
    qed
    then show ?thesis using False by (simp add: Global_Ref const_children_def)
  qed
qed (simp_all add: const_children_def)

lemma leads_to_old:
  assumes ok: "module_ok M" "module_ok M'" and l: "later M M'" and r: "const_ok M root"
  shows "leads_to M' root c \<Longrightarrow> const_ok M c"
proof (induction rule: leads_to.induct)
  case leads_root
  show ?case by (rule r)
next
  case (leads_child c q)
  show ?case by (rule const_ok_children [OF ok(1) leads_child.IH])
    (use leads_child.hyps(2) later_children [OF ok l leads_child.IH] in simp)
qed

lemma new_survives:
  assumes ok: "module_ok M" "module_ok M1" and l: "later M M1" and r: "const_ok M root" and g: "g < next_gid M"
    and t: "torn_down M1 g root M'" and x: "x \<in> set (vars M1)" "next_gid M \<le> x"
  shows "x \<in> set (vars M')"
proof (rule ccontr)
  assume "x \<notin> set (vars M')"
  moreover have "x \<noteq> g" using g x(2) by simp
  ultimately have "leads_to M1 root (Global_Ref x)" using t x(1) unfolding torn_down_def by blast
  then have "const_ok M (Global_Ref x)" by (rule leads_to_old [OF ok l r])
  then have "x < next_gid M" using module_okD(3) [OF ok(1)] by (simp add: const_ok_def)
  then show False using x(2) by simp
qed

lemma extracted: "extract_function M c = Some f \<Longrightarrow> f \<in> set (fns M)"
  by (cases "strip_casts c") (simp_all add: extract_function_def split: if_splits)

lemma enroll_keys:
  assumes "enroll M = Inr A"
  shows "distinct (map fst A)" "fst ` set A \<subseteq> set (fns M)"
    "A \<noteq> [] \<Longrightarrow> \<exists>g root es. annotations_root M = Some (g, root) \<and> strip_casts root = Const_Array es"
proof -
  have "distinct (map fst A) \<and> fst ` set A \<subseteq> set (fns M) \<and>
    (A \<noteq> [] \<longrightarrow> (\<exists>g root es. annotations_root M = Some (g, root) \<and> strip_casts root = Const_Array es))"
  proof (cases "\<exists>g root es. annotations_root M = Some (g, root) \<and> strip_casts root = Const_Array es")
    case True
    then obtain g root es where r: "annotations_root M = Some (g, root)" "strip_casts root = Const_Array es" by blast
    have e: "enroll_entries M es [] = Inr A" using assms enroll_array [OF r] by simp
    have s: "sorted_wrt (<) (map fst A)" "\<And>f. map_of A f = entry_of M es f"
      using enroll_entries_spec [where A = "[]" and M = M and es = es] unfolding e
      by (simp_all split: option.splits)
    have "f \<in> set (fns M)" if fA: "f \<in> fst ` set A" for f
    proof -
      obtain x where "map_of A f = Some x" using fA by (cases "map_of A f") (simp_all add: map_of_eq_None_iff)
      then have "entry_of M es f = Some x" using s(2) [of f] by simp
      then obtain e where "List.find (annotates M f) (rev es) = Some e"
        by (cases "List.find (annotates M f) (rev es)") (simp_all add: entry_of_def)
      then have "annotates M f e" by (auto simp: find_Some_iff)
      then have "extract_function M (operands e ! 0) = Some f" by (simp add: annotates_def)
      then show ?thesis by (rule extracted)
    qed
    then show ?thesis using s(1) True strict_sorted_iff by blast
  next
    case False
    then have "enroll M = Inr []"
      by (cases "annotations_root M") (auto simp: enroll_def split: ir_const.splits)
    then show ?thesis using assms by simp
  qed
  then show "distinct (map fst A)" "fst ` set A \<subseteq> set (fns M)"
    "A \<noteq> [] \<Longrightarrow> \<exists>g root es. annotations_root M = Some (g, root) \<and> strip_casts root = Const_Array es" by blast+
qed

lemma work_order_keys:
  assumes "distinct (map fst A)"
  shows "distinct (map fst (work_order M A))" "set (work_order M A) = set A" "sorted (map (gname M \<circ> fst) (work_order M A))"
proof -
  have "mset (map fst (work_order M A)) = mset (map fst A)" by (simp add: work_order_def)
  then show "distinct (map fst (work_order M A))" using assms mset_eq_imp_distinct_iff by blast
  show "set (work_order M A) = set A" by (simp add: work_order_def)
  have "(\<lambda>(f, opts :: string list). gname M f) = gname M \<circ> fst" by (auto simp: fun_eq_iff)
  then show "sorted (map (gname M \<circ> fst) (work_order M A))"
    using sorted_sort_key [of "gname M \<circ> fst" A] unfolding work_order_def by (simp only:)
qed

text \<open>What the pass leaves of a module whose annotations enrolled \<open>A\<close>: the table of the descriptors in the
  order of the functions' names.\<close>

definition pass_result :: "ir_module \<Rightarrow> (gid \<times> string list) list \<Rightarrow> ir_module \<Rightarrow> bool" where
  "pass_result M A M' \<longleftrightarrow> module_ok M' \<and> enroll M' = Inr [] \<and>
     (\<exists>t Ds. t \<in> set (vars M') \<and> gv_constant (var_def M' t) \<and>
        gv_init (var_def M' t) = Some (Const_Array (map Global_Ref (map (d_meta \<circ> snd) Ds) @ [Const_Null])) \<and>
        set (map fst Ds) = fst ` set A \<and> distinct (map fst Ds) \<and> sorted (map (gname M \<circ> fst) Ds) \<and>
        (\<forall>(f, opts)\<in>set A. \<exists>D rt rg. map_of Ds f = Some D \<and> parse_kinds (fn_def M f) opts = Inr (d_parsed D) \<and>
           parse_runtime opts = Inr rt \<and> described M' (fn_def M f) (gname M f) opts D rg))"

lemma metas_live:
  assumes ok: "ready g root M'" and k: "map fst Ds = map fst W" "distinct (map fst W)"
    and w: "\<forall>(f, opts)\<in>set W. work_done M (fst ` set W) M' Ds f opts"
  shows "map_of Ds f = Some D \<Longrightarrow> d_meta D \<in> set (live_gids M') \<and> d_meta D \<noteq> g"
    and "set (map (d_meta \<circ> snd) Ds) \<subseteq> set (live_gids M') - {g}"
proof -
  show one: "d_meta D \<in> set (live_gids M') \<and> d_meta D \<noteq> g" if D: "map_of Ds f = Some D" for f D
  proof -
    have "f \<in> set (map fst Ds)" using map_of_SomeD [OF D] by force
    then obtain opts where "(f, opts) \<in> set W" unfolding k(1) by auto
    then have "work_done M (fst ` set W) M' Ds f opts" using w by blast
    then obtain rg where "described M' (fn_def M f) (gname M f) opts D rg" using D unfolding work_done_def by auto
    then obtain ng og P where m: "d_meta D \<in> set (vars M')" "gv_init (var_def M' (d_meta D)) = Some (meta_const (fn_def M f) ng og rg P)"
      unfolding described_def by blast
    have "d_meta D \<noteq> g"
    proof
      assume "d_meta D = g"
      then have "root = meta_const (fn_def M f) ng og rg P" using m(2) readyD(4) [OF ok] by simp
      then show False using readyD(9) [OF ok] unfolding meta_const_def by blast
    qed
    then show ?thesis using m(1) by (simp add: live_gids_def)
  qed
  show "set (map (d_meta \<circ> snd) Ds) \<subseteq> set (live_gids M') - {g}"
  proof
    fix x assume "x \<in> set (map (d_meta \<circ> snd) Ds)"
    then obtain f D where fD: "(f, D) \<in> set Ds" "x = d_meta D" by auto
    have "map_of Ds f = Some D" using k fD(1) by (simp add: map_of_is_SomeI)
    then show "x \<in> set (live_gids M') - {g}" using one fD(2) by blast
  qed
qed

text \<open>Nothing refers to the annotation table, which LLVM demands of it.\<close>

definition annotations_unused :: "ir_module \<Rightarrow> bool" where
  "annotations_unused M \<longleftrightarrow>
     (case annotations_root M of Some (g, root) \<Rightarrow> use_empty M (Global_Ref g) | None \<Rightarrow> True)"

lemma run_pass_done:
  assumes ok: "module_ok M" and u: "uniq_ok uniq" and e: "annotations_unused M"
    and run: "run_pass uniq M = Inr (out, True)"
  shows "\<exists>A M'. enroll M = Inr A \<and> out = Some M' \<and> pass_result M A M'"
proof -
  obtain A where A: "enroll M = Inr A" using run unfolding run_pass_def by (cases "enroll M") simp_all
  have ne: "A \<noteq> []" using run by (auto simp: run_pass_def A)
  obtain Ds M1 where w: "emit_work uniq (work_order M A) M = Inr (Ds, M1)"
    using run ne by (cases "emit_work uniq (work_order M A) M") (auto simp: run_pass_def A)
  obtain M2 where M2: "emit_table uniq (map (d_meta \<circ> snd) Ds) M1 = M2" by (rule that [OF refl])
  obtain M3 where M3: "rewrite_call_sites uniq A Ds M2 = Inr M3"
    using run ne by (cases "rewrite_call_sites uniq A Ds M2") (auto simp: run_pass_def A w M2)
  have out: "out = erase_annotations uniq M3" using run ne by (simp add: run_pass_def A w M2 M3)
  note keys = enroll_keys [OF A] and wk = work_order_keys [OF enroll_keys(1) [OF A], of M]
  obtain g root es where r: "annotations_root M = Some (g, root)" "strip_casts root = Const_Array es" using keys(3) ne by blast
  have ue: "use_empty M (Global_Ref g)" using e r(1) by (simp add: annotations_unused_def)
  have rd: "ready g root M" unfolding ready_def using ok annotations_rootD [OF r(1)] ue r(2) by blast
  have wf: "fst ` set (work_order M A) \<subseteq> set (fns M)" using keys(2) wk(2) by simp
  have e1: "emitted (fst ` set (work_order M A)) M M1" "map fst Ds = map fst (work_order M A)"
    "\<forall>(f, opts)\<in>set (work_order M A). work_done M (fst ` set (work_order M A)) M1 Ds f opts"
    using emit_work_done [OF ok u wk(1) wf w] by blast+
  have r1: "ready g root M1" "later M M1" using emit_work_ready [OF rd u wf w] by blast+
  note ml = metas_live [OF r1(1) e1(2) wk(1) e1(3)]
  note r2 = emit_table_ready [OF r1(1) u ml(2), unfolded M2]
  obtain t where t: "t \<in> set (vars M2)" "next_gid M1 \<le> t" "gv_constant (var_def M2 t)"
    "gv_init (var_def M2 t) = Some (Const_Array (map Global_Ref (map (d_meta \<circ> snd) Ds) @ [Const_Null]))"
    using r2(3) by blast
  have "fst ` set A \<subseteq> set (fns M2)" using keys(2) r1(2) r2(2) unfolding later_def grown_def by blast
  moreover have "\<And>f D. map_of Ds f = Some D \<Longrightarrow> d_meta D \<in> set (live_gids M2) \<and> d_meta D \<noteq> g"
    using ml(1) later_live [OF r2(2)] by blast
  ultimately have r3: "ready g root M3" "later M2 M3" using rewrite_call_sites_ready [OF r2(1) u _ _ M3] by blast+
  have l3: "later M M3" by (rule later_trans [OF later_trans [OF r1(2) r2(2)] r3(2)])
  have ok3: "module_ok M3" by (rule readyD(1) [OF r3(1)])
  have root3: "annotations_root M3 = Some (g, root)"
    by (rule annotations_root_named [OF ok3 readyD(2-4) [OF r3(1)]])
  obtain M' where M': "erase_annotations uniq M3 = Some M'" "torn_down M3 g root M'" "enroll M' = Inr []"
    using teardown_done [OF ok3 u root3 readyD(5) [OF r3(1)]] by blast
  have ok': "module_ok M'" using M'(2) by (simp add: torn_down_def)
  have g23: "grown M2 M3" "grown M1 M3" using r2(2) r3(2) grown_trans unfolding later_def by blast+
  have t3: "t \<in> set (vars M3)" "var_def M3 t = var_def M2 t" using grownD(1,4) [OF g23(1) t(1)] by blast+
  have "next_gid M \<le> t" using t(2) r1(2) by (simp add: later_def)
  then have t': "t \<in> set (vars M')"
    by (rule new_survives [OF ok ok3 l3 erase_unused(5) [OF ok r(1) ue] readyD(7) [OF rd] M'(2) t3(1)])
  have vt: "var_def M' t = var_def M2 t" using survivor(2) [OF ok3 M'(2) t3(1)] t' t3(2) by (simp add: live_gids_def)
  have it: "gv_init (var_def M' t) = Some (Const_Array (map Global_Ref (map (d_meta \<circ> snd) Ds) @ [Const_Null]))"
    using t(4) vt by simp
  have live: "d_meta D \<in> set (live_gids M')" if D: "map_of Ds f = Some D" for f D
    using init_live [OF ok' t' it, of "d_meta D"] map_of_SomeD [OF D] by force
  have desc: "\<exists>D rt rg. map_of Ds f = Some D \<and> parse_kinds (fn_def M f) opts = Inr (d_parsed D) \<and>
      parse_runtime opts = Inr rt \<and> described M' (fn_def M f) (gname M f) opts D rg" if fo: "(f, opts) \<in> set A" for f opts
  proof -
    have "work_done M (fst ` set (work_order M A)) M1 Ds f opts" using e1(3) fo wk(2) by blast
    then obtain D rt rg where d: "map_of Ds f = Some D" "parse_kinds (fn_def M f) opts = Inr (d_parsed D)"
      "parse_runtime opts = Inr rt" "described M1 (fn_def M f) (gname M f) opts D rg" unfolding work_done_def by blast
    have "described M' (fn_def M f) (gname M f) opts D rg"
      by (rule described_survives [OF ok3 M'(2) described_grown [OF d(4) g23(2)] live [OF d(1)]])
    then show ?thesis using d by blast
  qed
  have srt: "sorted (map (gname M \<circ> fst) Ds)" using wk(3) e1(2) by (metis map_map)
  have "set (map fst Ds) = fst ` set A" "distinct (map fst Ds)" unfolding e1(2) set_map wk(2) using wk(1) by simp_all
  then have "pass_result M A M'"
    unfolding pass_result_def using ok' M'(3) t' it vt t(3) srt desc by (intro conjI exI [of _ t] exI [of _ Ds]) auto
  then show ?thesis using A out M'(1) by auto
qed

lemma run_pass_total:
  assumes ok: "module_ok M" and u: "uniq_ok uniq"
  shows "(\<exists>r. run_pass uniq M = Inr r) \<longleftrightarrow>
    (\<exists>A. enroll M = Inr A \<and> (\<forall>(f, opts)\<in>set A. (\<exists>P. parse_kinds (fn_def M f) opts = Inr P) \<and> (\<exists>rt. parse_runtime opts = Inr rt)))"
proof (cases "enroll M")
  case (Inl err)
  then show ?thesis by (simp add: run_pass_def)
next
  case (Inr A)
  note keys = enroll_keys [OF Inr] and wk = work_order_keys [OF enroll_keys(1) [OF Inr], of M]
  have wf: "fst ` set (work_order M A) \<subseteq> set (fns M)" using keys(2) wk(2) by simp
  have w: "(\<exists>y. emit_work uniq (work_order M A) M = Inr y) \<longleftrightarrow>
    (\<forall>(f, opts)\<in>set A. (\<exists>P. parse_kinds (fn_def M f) opts = Inr P) \<and> (\<exists>rt. parse_runtime opts = Inr rt))"
    using emit_work_total [OF ok u wk(1) wf] unfolding wk(2) .
  have "\<exists>r. run_pass uniq M = Inr r" if e: "emit_work uniq (work_order M A) M = Inr y" "A \<noteq> []" for y
  proof -
    obtain Ds M1 where y: "y = (Ds, M1)" by force
    have "map fst Ds = map fst (work_order M A)" using emit_work_done [OF ok u wk(1) wf] e(1) y by blast
    then have "set (map fst Ds) = fst ` set A" unfolding set_map wk(2) [symmetric] by (metis set_map)
    then have "map_of Ds f \<noteq> None" if "f \<in> fst ` set A" for f using that by (simp add: map_of_eq_None_iff)
    then obtain M3 where "rewrite_call_sites uniq A Ds (emit_table uniq (map (d_meta \<circ> snd) Ds) M1) = Inr M3"
      using rewrite_total by blast
    then have "run_pass uniq M = Inr (erase_annotations uniq M3, True)" using e y by (simp add: run_pass_def Inr)
    then show ?thesis by blast
  qed
  moreover have "\<exists>y. emit_work uniq (work_order M A) M = Inr y" if "run_pass uniq M = Inr r" "A \<noteq> []" for r
    using that by (auto simp: run_pass_def Inr)
  ultimately show ?thesis using w Inr by (cases "A = []") (auto simp: run_pass_def)
qed

text \<open>C9.  The pass fails exactly when an annotation does not name a function or an enrolled function's
  options do not parse; it never lacks a descriptor, and the teardown always ends.  Where it succeeds
  with nothing enrolled the module is untouched.  Otherwise the module it leaves is well-formed; a
  constant table, ended by a null, points at one descriptor per enrolled function in the order of the
  original names; each descriptor spells out what the options say and its options array still reads
  back as the annotated options after the annotations are gone; and a second run changes nothing.\<close>

theorem pass_exact:
  assumes "module_ok M" and "uniq_ok uniq"
    and "annotations_unused M"
  shows "((\<exists>r. run_pass uniq M = Inr r) \<longleftrightarrow>
      (\<exists>A. enroll M = Inr A \<and> (\<forall>(f, opts)\<in>set A. (\<exists>P. parse_kinds (fn_def M f) opts = Inr P) \<and> (\<exists>rt. parse_runtime opts = Inr rt)))) \<and>
    (\<forall>out. run_pass uniq M = Inr (out, False) \<longrightarrow> enroll M = Inr [] \<and> out = Some M) \<and>
    (\<forall>out. run_pass uniq M = Inr (out, True) \<longrightarrow>
      (\<exists>A M'. enroll M = Inr A \<and> out = Some M' \<and> pass_result M A M' \<and> run_pass uniq M' = Inr (Some M', False)))"
proof (intro conjI allI impI)
  show "(\<exists>r. run_pass uniq M = Inr r) \<longleftrightarrow>
      (\<exists>A. enroll M = Inr A \<and> (\<forall>(f, opts)\<in>set A. (\<exists>P. parse_kinds (fn_def M f) opts = Inr P) \<and> (\<exists>rt. parse_runtime opts = Inr rt)))"
    by (rule run_pass_total [OF assms(1,2)])
next
  fix out assume r: "run_pass uniq M = Inr (out, False)"
  then obtain A where A: "enroll M = Inr A" by (auto simp: run_pass_def)
  then have "A = []" using r by (auto simp: run_pass_def split: if_splits)
  then show "enroll M = Inr []" "out = Some M" using r A by (simp_all add: run_pass_def)
next
  fix out assume "run_pass uniq M = Inr (out, True)"
  then obtain A M' where "enroll M = Inr A" "out = Some M'" and p: "pass_result M A M'"
    using run_pass_done [OF assms] by blast
  moreover have "run_pass uniq M' = Inr (Some M', False)"
    using p by (simp add: pass_result_def run_pass_def)
  ultimately show "\<exists>A M'. enroll M = Inr A \<and> out = Some M' \<and> pass_result M A M' \<and> run_pass uniq M' = Inr (Some M', False)"
    by blast
qed

lemma sample_enrolled: "enroll sample = Inr [(8, put_opts)]"
  by (simp add: enroll_def sample_annotations) (simp add: is_filc_async_entry_def extract_function_def entry_opts_def
      underlying_string_def var_init_def drop_nul_def string_data_def put_opts_def sample_eval)

theorem pass_exact_witness:
  "\<exists>M'. run_pass more_primes sample = Inr (Some M', True) \<and> pass_result sample [(8, put_opts)] M'"
proof -
  have u: "annotations_unused sample" by (simp add: annotations_unused_def sample_annotations sample_unused)
  note e = pass_exact [OF sample_ok more_primes_ok u]
  have "\<exists>r. run_pass more_primes sample = Inr r"
    unfolding conjunct1 [OF e] using put_parse put_runtime by (simp add: sample_enrolled sample_work(3))
  then obtain out b where r: "run_pass more_primes sample = Inr (out, b)" by auto
  have b using e r sample_enrolled by (cases b) auto
  then show ?thesis using e r sample_enrolled by auto
qed

end
