(* ===== verification/Arena.thy ===== *)
theory Arena
  imports Prelude
begin

text \<open>
  \<^verbatim>\<open>filc_async_arena.c\<close>: the bump arena behind \<^verbatim>\<open>filc_async_alloc\<close>
  and the installed allocator.  \<^verbatim>\<open>zgc_aligned_alloc\<close> belongs to Fil-C, so it is a
  parameter: what it answers to an alignment and a size, given the blocks handed out so far.
  The contract of \<^verbatim>\<open>filc_async_alloc.h\<close> is the locale \<open>allocator\<close>, which the arena
  interprets.
\<close>

section \<open>The arena\<close>

definition ARENA_NORMAL_BLOCK :: u64 where "ARENA_NORMAL_BLOCK = 65536"
definition ARENA_MAX_ALIGN :: u64 where "ARENA_MAX_ALIGN = 4096"

text \<open>\<open>sizeof(struct arena_block)\<close>: one pointer, 8 bytes in Fil-C C source.\<close>

definition ARENA_HEADER :: u64 where "ARENA_HEADER = 8"

lemmas arena_consts = ARENA_NORMAL_BLOCK_def ARENA_MAX_ALIGN_def ARENA_HEADER_def

type_synonym zgc = "(addr \<times> u64) list \<Rightarrow> u64 \<Rightarrow> u64 \<Rightarrow> addr"

text \<open>\<open>g_blocks\<close> is the chain of blocks, newest first, each with the size asked for.\<close>

record arena =
  g_blocks :: "(addr \<times> u64) list"
  g_cur :: addr
  g_end :: addr

definition arena_start :: arena where
  "arena_start = \<lparr>g_blocks = [], g_cur = 0, g_end = 0\<rparr>"

definition align_up :: "u64 \<Rightarrow> u64 \<Rightarrow> u64" where
  "align_up base align = (base + align - 1) AND NOT (align - 1)"

definition arena_chain_normal :: "zgc \<Rightarrow> arena \<Rightarrow> bool \<times> arena" where
  "arena_chain_normal zgc A =
    (let sz = ARENA_HEADER + ARENA_NORMAL_BLOCK;
         b = zgc (g_blocks A) ARENA_MAX_ALIGN sz in
     if b = 0 then (False, A)
     else (True, A\<lparr>g_blocks := (b, sz) # g_blocks A, g_cur := b + ARENA_HEADER,
                   g_end := b + ARENA_HEADER + ARENA_NORMAL_BLOCK\<rparr>))"

definition arena_chain :: "addr \<times> u64 \<Rightarrow> arena \<Rightarrow> arena" where
  "arena_chain b A = A\<lparr>g_blocks := b # g_blocks A\<rparr>"

definition arena_dedicated :: "zgc \<Rightarrow> u64 \<Rightarrow> u64 \<Rightarrow> arena \<Rightarrow> addr \<times> arena" where
  "arena_dedicated zgc sz align A =
    (let total = ARENA_HEADER + sz + align; b = zgc (g_blocks A) align total in
     if b = 0 then (0, A)
     else (align_up (b + ARENA_HEADER) align, arena_chain (b, total) A))"

definition arena_bump :: "u64 \<Rightarrow> u64 \<Rightarrow> arena \<Rightarrow> addr \<times> arena" where
  "arena_bump sz align A =
    (let aligned = align_up (g_cur A) align in (aligned, A\<lparr>g_cur := aligned + sz\<rparr>))"

definition arena_alloc_locked :: "zgc \<Rightarrow> u64 \<Rightarrow> u64 \<Rightarrow> arena \<Rightarrow> addr \<times> arena" where
  "arena_alloc_locked zgc sz0 align0 A =
    (let sz = (if sz0 = 0 then 1 else sz0);
         align = (if align0 < 1 then 1 else align0) in
     if align AND (align - 1) \<noteq> 0 then (0, A)
     else if align > ARENA_MAX_ALIGN \<or> sz + align > ARENA_NORMAL_BLOCK
     then arena_dedicated zgc sz align A
     else if g_cur A = 0 \<or> align_up (g_cur A) align + sz > g_end A
     then (case arena_chain_normal zgc A of
             (False, A1) \<Rightarrow> (0, A1)
           | (True, A1) \<Rightarrow> arena_bump sz align A1)
     else arena_bump sz align A)"

definition arena_alloc :: "zgc \<Rightarrow> u64 \<Rightarrow> u64 \<Rightarrow> arena \<Rightarrow> addr \<times> arena" where
  "arena_alloc zgc sz align A = arena_alloc_locked zgc sz align A"

definition arena_free :: "addr \<Rightarrow> u64 \<Rightarrow> arena \<Rightarrow> arena" where
  "arena_free p sz A = A"

section \<open>The installed allocator\<close>

datatype alloc_fn = Null_Fn | Arena_Fn | User_Fn addr

record filc_async_allocator =
  al_alloc :: alloc_fn
  al_free :: alloc_fn

definition default_allocator :: filc_async_allocator where
  "default_allocator = \<lparr>al_alloc = Arena_Fn, al_free = Arena_Fn\<rparr>"

definition filc_async_set_allocator :: "filc_async_allocator \<Rightarrow> filc_async_allocator \<Rightarrow> filc_async_allocator" where
  "filc_async_set_allocator a g_allocator =
    (if al_alloc a = Null_Fn \<and> al_free a = Null_Fn then default_allocator else a)"

definition filc_async_get_allocator :: "filc_async_allocator \<Rightarrow> filc_async_allocator" where
  "filc_async_get_allocator g_allocator = g_allocator"

definition filc_async_alloc ::
  "zgc \<Rightarrow> (addr \<Rightarrow> u64 \<Rightarrow> u64 \<Rightarrow> addr) \<Rightarrow> filc_async_allocator \<Rightarrow> u64 \<Rightarrow> u64 \<Rightarrow> arena \<Rightarrow> (addr \<times> arena) outcome" where
  "filc_async_alloc zgc user g_allocator sz align A =
    (case al_alloc (filc_async_get_allocator g_allocator) of
       Arena_Fn \<Rightarrow> Inr (arena_alloc zgc sz align A)
     | User_Fn f \<Rightarrow> Inr (user f sz align, A)
     | Null_Fn \<Rightarrow> Inl (Fatal ''call through a null pointer''))"

section \<open>Alignment\<close>

lemma unat_add64: "unat a + unat b < 2 ^ 64 \<Longrightarrow> unat (a + b :: u64) = unat a + unat b"
  by (simp add: unat_word_ariths)

lemma floor_pow2: "0 < n \<Longrightarrow> \<exists>k. 2 ^ k \<le> n \<and> n < 2 ^ Suc (k::nat)" for n :: nat
  using ex_power_ivl1 [of 2 n] by auto

lemma pow2_test:
  assumes "a \<noteq> 0" and "a AND (a - 1) = (0 :: u64)"
  obtains k where "k < 64" and "a = 2 ^ k"
proof -
  have pos: "0 < unat a" using assms(1) by (simp add: unat_gt_0)
  then obtain k where k: "2 ^ k \<le> unat a" "unat a < 2 ^ Suc k" using floor_pow2 by blast
  have k64: "k < 64"
  proof (rule ccontr)
    assume "\<not> k < 64"
    then have "(2::nat) ^ 64 \<le> 2 ^ k" by (intro power_increasing) auto
    then show False using k(1) unsigned_less [of a, where 'a = nat] by simp
  qed
  have pm: "unat (a - 1) = unat a - 1" using assms(1) by (metis unat_minus_one)
  have bitk: "bit x k" if x: "2 ^ k \<le> unat x" "unat x < 2 ^ Suc k" for x :: u64
  proof -
    have "unat x div 2 ^ k = 1" using x by (intro div_nat_eqI) auto
    then have "bit (unat x) k" by (simp add: bit_iff_odd)
    then show ?thesis by (simp add: bit_unsigned_iff)
  qed
  have "unat a = 2 ^ k"
  proof (rule ccontr)
    assume "unat a \<noteq> 2 ^ k"
    then have "bit (a AND (a - 1)) k"
      using k bitk [of a] bitk [of "a - 1"] pm by (simp add: bit_and_iff)
    then show False by (simp add: assms(2))
  qed
  then have "word_of_nat (unat a) = (2 ^ k :: u64)" by (simp only: of_nat_power of_nat_numeral)
  then have "a = 2 ^ k" by simp
  with k64 that show thesis by blast
qed

lemma unat_pow2:
  assumes "k < 64"
  shows "unat (2 ^ k :: u64) = 2 ^ k"
proof -
  have "(2::nat) ^ k < 2 ^ 64" using assms by (intro power_strict_increasing) auto
  moreover have "(2 ^ k :: u64) = word_of_nat (2 ^ k)" by simp
  ultimately show ?thesis by (simp only: unat_of_nat) (simp add: take_bit_nat_eq_self)
qed

lemma and_not_low: "x AND NOT (2 ^ k - 1) = x - take_bit k (x :: u64)"
proof -
  have "push_bit k (drop_bit k x) + take_bit k x = x" by (rule bits_ident)
  moreover have "x AND NOT (mask k) = push_bit k (drop_bit k x)"
    by (rule bit_eqI) (auto simp: bit_simps)
  ultimately show ?thesis by (simp add: mask_eq_exp_minus_1 algebra_simps)
qed

lemma unat_and_not_low: "unat (x AND NOT (2 ^ k - 1)) = unat x - unat x mod 2 ^ k" for x :: u64
proof -
  have t: "unat (take_bit k x) = unat x mod 2 ^ k" by (simp only: unsigned_take_bit_eq) (simp only: take_bit_eq_mod)
  have "take_bit k x \<le> x" by (simp add: word_le_nat_alt t)
  then show ?thesis by (simp add: and_not_low unat_sub t)
qed

lemma align_up_spec:
  assumes "k < 64" and "unat base + 2 ^ k \<le> 2 ^ 64"
  shows "unat base \<le> unat (align_up base (2 ^ k)) \<and> unat (align_up base (2 ^ k)) < unat base + 2 ^ k \<and>
    2 ^ k dvd unat (align_up base (2 ^ k))"
proof -
  have "unat (base + 2 ^ k - 1) = unat base + 2 ^ k - 1"
  proof -
    have "base + 2 ^ k - 1 = word_of_nat (unat base + 2 ^ k - 1)" by (subst of_nat_diff) (auto intro: trans_le_add2)
    then show ?thesis using assms(2) by (simp add: unat_of_nat take_bit_nat_eq_self)
  qed
  then have e: "unat (align_up base (2 ^ k)) = (unat base + 2 ^ k - 1) div 2 ^ k * 2 ^ k"
    by (simp add: align_up_def unat_and_not_low minus_mod_eq_div_mult)
  have m: "(unat base + 2 ^ k - 1) div 2 ^ k * 2 ^ k = unat base + 2 ^ k - 1 - (unat base + 2 ^ k - 1) mod 2 ^ k"
    by (simp add: minus_mod_eq_div_mult)
  have "(unat base + 2 ^ k - 1) mod 2 ^ k < 2 ^ k" by simp
  then have "unat base \<le> (unat base + 2 ^ k - 1) div 2 ^ k * 2 ^ k"
    "(unat base + 2 ^ k - 1) div 2 ^ k * 2 ^ k < unat base + 2 ^ k"
    using m by linarith+
  then show ?thesis unfolding e by (simp only: dvd_triv_right)
qed

section \<open>What the arena has handed out\<close>

definition span :: "addr \<Rightarrow> u64 \<Rightarrow> nat set" where
  "span p n = {unat p ..< unat p + unat n}"

text \<open>\<open>zgc_aligned_alloc\<close> answers \<open>NULL\<close> or a new object: aligned, in the lower half of the
  address space, and apart from every block it returned before.\<close>

definition zgc_ok :: "zgc \<Rightarrow> bool" where
  "zgc_ok zgc \<longleftrightarrow> (\<forall>bs align n. zgc bs align n \<noteq> 0 \<longrightarrow>
     unat align dvd unat (zgc bs align n) \<and> unat (zgc bs align n) + unat n \<le> 2 ^ 63 \<and>
     (\<forall>(b, m)\<in>set bs. span (zgc bs align n) n \<inter> span b m = {}))"

definition amount :: "u64 \<Rightarrow> u64" where
  "amount sz = (if sz = 0 then 1 else sz)"

definition alignment :: "u64 \<Rightarrow> u64" where
  "alignment align = (if align < 1 then 1 else align)"

text \<open>A request that the padding does not push past the word.\<close>

definition req_fits :: "u64 \<Rightarrow> u64 \<Rightarrow> bool" where
  "req_fits sz align \<longleftrightarrow> unat sz + unat align + 16 < 2 ^ 64"

text \<open>The current block has room from \<open>g_cur\<close> to \<open>g_end\<close>, and nothing handed out is there.\<close>

definition cur_ok :: "arena \<Rightarrow> (addr \<times> u64) list \<Rightarrow> bool" where
  "cur_ok A live \<longleftrightarrow> (\<exists>b. (b, ARENA_HEADER + ARENA_NORMAL_BLOCK) \<in> set (g_blocks A) \<and>
     unat b + 8 \<le> unat (g_cur A) \<and> unat (g_cur A) \<le> unat (g_end A) \<and>
     unat (g_end A) = unat b + 65544 \<and>
     (\<forall>(p, n)\<in>set live. span p n \<inter> {unat (g_cur A) ..< unat (g_end A)} = {}))"

definition payload :: "addr \<Rightarrow> u64 \<Rightarrow> nat set" where
  "payload b n = {unat b + 8 ..< unat b + unat n}"

lemma payload_span: "payload b n \<subseteq> span b n"
  by (auto simp: payload_def span_def)

definition arena_inv :: "arena \<Rightarrow> (addr \<times> u64) list \<Rightarrow> bool" where
  "arena_inv A live \<longleftrightarrow>
     (\<forall>(b, n)\<in>set (g_blocks A). unat b + unat n \<le> 2 ^ 63) \<and>
     (\<forall>(p, n)\<in>set live. \<exists>(b, m)\<in>set (g_blocks A). span p n \<subseteq> payload b m) \<and>
     (g_cur A = 0 \<or> cur_ok A live)"

lemma arena_start_inv: "arena_inv arena_start []"
  by (simp add: arena_inv_def arena_start_def)

definition alloc_post :: "u64 \<Rightarrow> u64 \<Rightarrow> (addr \<times> u64) list \<Rightarrow> addr \<times> arena \<Rightarrow> bool" where
  "alloc_post sz align live r \<longleftrightarrow> (case r of (p, A) \<Rightarrow>
     if p = 0 then arena_inv A live
     else unat align dvd unat p \<and> unat p + unat sz \<le> 2 ^ 63 \<and>
       (\<forall>(q, m)\<in>set live. span p sz \<inter> span q m = {}) \<and> arena_inv A ((p, sz) # live))"

lemma arena_bump_post:
  assumes inv: "arena_inv A live" and cur: "cur_ok A live" and k: "k < 64" "align = 2 ^ k"
    and room: "unat (align_up (g_cur A) align) + unat sz \<le> unat (g_end A)" and sz: "sz \<noteq> 0"
    and small: "unat align \<le> 65536"
  shows "alloc_post sz align live (arena_bump sz align A)"
proof -
  obtain b where b: "(b, ARENA_HEADER + ARENA_NORMAL_BLOCK) \<in> set (g_blocks A)"
    "unat b + 8 \<le> unat (g_cur A)" "unat (g_cur A) \<le> unat (g_end A)" "unat (g_end A) = unat b + 65544"
    "\<forall>(p, n)\<in>set live. span p n \<inter> {unat (g_cur A) ..< unat (g_end A)} = {}"
    using cur unfolding cur_ok_def by blast
  have bm: "unat b + 65544 \<le> 2 ^ 63"
    using inv b(1) by (fastforce simp: arena_inv_def arena_consts)
  let ?p = "align_up (g_cur A) align"
  have p2: "unat (2 ^ k :: u64) = 2 ^ k" by (rule unat_pow2 [OF k(1)])
  have up: "unat (g_cur A) \<le> unat ?p" "unat align dvd unat ?p"
    using align_up_spec [OF k(1), of "g_cur A"] b small bm by (simp_all add: k(2) p2)
  have p0: "?p \<noteq> 0" using up(1) b(2) by auto
  have sum: "unat (?p + sz) = unat ?p + unat sz"
    using room b(4) bm by (intro unat_add64) simp
  have s: "span ?p sz \<subseteq> {unat (g_cur A) ..< unat (g_end A)}" using up(1) room by (auto simp: span_def)
  have inb: "span ?p sz \<subseteq> payload b (ARENA_HEADER + ARENA_NORMAL_BLOCK)"
    using s b(2,4) by (auto simp: payload_def arena_consts)
  have "cur_ok (A\<lparr>g_cur := ?p + sz\<rparr>) ((?p, sz) # live)"
    unfolding cur_ok_def
  proof (intro exI [of _ b] conjI)
    show "\<forall>(p, n)\<in>set ((?p, sz) # live). span p n \<inter> {unat (g_cur (A\<lparr>g_cur := ?p + sz\<rparr>)) ..< unat (g_end (A\<lparr>g_cur := ?p + sz\<rparr>))} = {}"
      using b(5) up(1) sum by (fastforce simp: span_def)
  qed (use b room up sum in simp_all)
  moreover have "\<forall>(q, m)\<in>set live. span ?p sz \<inter> span q m = {}" using b(5) s by fastforce
  ultimately show ?thesis
    using inv inb b(1,4) p0 up(2) room bm
    by (auto simp: alloc_post_def arena_bump_def Let_def arena_inv_def)
qed

lemma arena_dedicated_post:
  assumes zgc: "zgc_ok zgc" and inv: "arena_inv A live" and k: "k < 64" "align = 2 ^ k"
    and sz: "sz \<noteq> 0" and fits: "unat sz + unat align + 8 < 2 ^ 64"
  shows "alloc_post sz align live (arena_dedicated zgc sz align A)"
proof (cases "zgc (g_blocks A) align (ARENA_HEADER + sz + align) = 0")
  case False
  define b where "b = zgc (g_blocks A) align (ARENA_HEADER + sz + align)"
  let ?n = "ARENA_HEADER + sz + align" and ?p = "align_up (b + ARENA_HEADER) align"
  have n: "unat ?n = 8 + unat sz + unat align"
    using fits by (simp add: arena_consts unat_add64)
  have b: "unat b + unat ?n \<le> 2 ^ 63" "\<forall>(c, m)\<in>set (g_blocks A). span b ?n \<inter> span c m = {}"
    using zgc False by (simp_all add: zgc_ok_def b_def)
  have p2: "unat align = 2 ^ k" by (simp add: k(2) unat_pow2 [OF k(1)])
  have h: "unat (b + ARENA_HEADER) = unat b + 8"
    using b(1) n by (subst unat_add64) (simp_all add: arena_consts)
  have up: "unat b + 8 \<le> unat ?p" "unat ?p < unat b + 8 + unat align" "unat align dvd unat ?p"
    using align_up_spec [OF k(1), of "b + ARENA_HEADER"] b(1) n p2 by (simp_all add: h k(2))
  have pl: "span ?p sz \<subseteq> payload b ?n" using up n by (auto simp: span_def payload_def)
  then have s: "span ?p sz \<subseteq> span b ?n" using payload_span by blast
  have new: "span b ?n \<inter> span q m = {}" if "(q, m) \<in> set live" for q m
    using inv that b(2) payload_span unfolding arena_inv_def by fastforce
  have "cur_ok (arena_chain (b, ?n) A) ((?p, sz) # live)" if cur: "cur_ok A live"
  proof -
    obtain c where c: "(c, ARENA_HEADER + ARENA_NORMAL_BLOCK) \<in> set (g_blocks A)"
      "unat c + 8 \<le> unat (g_cur A)" "unat (g_cur A) \<le> unat (g_end A)" "unat (g_end A) = unat c + 65544"
      "\<forall>(p, n)\<in>set live. span p n \<inter> {unat (g_cur A) ..< unat (g_end A)} = {}"
      using cur unfolding cur_ok_def by blast
    have "{unat (g_cur A) ..< unat (g_end A)} \<subseteq> span c (ARENA_HEADER + ARENA_NORMAL_BLOCK)"
      using c(2,4) by (auto simp: span_def arena_consts)
    moreover have "span b ?n \<inter> span c (ARENA_HEADER + ARENA_NORMAL_BLOCK) = {}" using b(2) c(1) by blast
    ultimately have "span ?p sz \<inter> {unat (g_cur A) ..< unat (g_end A)} = {}" using s by blast
    with c show ?thesis unfolding cur_ok_def by (intro exI [of _ c]) (simp add: arena_chain_def)
  qed
  then have "arena_inv (arena_chain (b, ?n) A) ((?p, sz) # live)"
    using inv b(1) pl by (auto simp: arena_inv_def arena_chain_def)
  moreover have "?p \<noteq> 0" using up(1) by auto
  moreover have "unat ?p + unat sz \<le> 2 ^ 63" using up(2) b(1) n by simp
  moreover have "\<forall>(q, m)\<in>set live. span ?p sz \<inter> span q m = {}" using s new by blast
  ultimately show ?thesis
    using False up(3) unfolding b_def by (simp add: alloc_post_def arena_dedicated_def Let_def)
qed (simp add: alloc_post_def arena_dedicated_def Let_def inv)

lemma arena_chain_normal_cases:
  assumes zgc: "zgc_ok zgc" and inv: "arena_inv A live"
  shows "case arena_chain_normal zgc A of (ok, A') \<Rightarrow> arena_inv A' live \<and>
    (ok \<longrightarrow> cur_ok A' live \<and> unat (g_end A') = unat (g_cur A') + 65536 \<and> unat (g_end A') \<le> 2 ^ 63)"
proof -
  define b where "b = zgc (g_blocks A) ARENA_MAX_ALIGN (ARENA_HEADER + ARENA_NORMAL_BLOCK)"
  let ?n = "ARENA_HEADER + ARENA_NORMAL_BLOCK"
  show ?thesis
  proof (cases "b = 0")
    case True
    then show ?thesis using inv by (simp add: arena_chain_normal_def Let_def b_def)
  next
    case False
    have n: "unat ?n = 65544" by (simp add: arena_consts)
    have b: "unat b + unat ?n \<le> 2 ^ 63" "\<forall>(c, m)\<in>set (g_blocks A). span b ?n \<inter> span c m = {}"
      using zgc False unfolding zgc_ok_def b_def by auto
    have h: "unat (b + ARENA_HEADER) = unat b + 8" "unat (b + ARENA_HEADER + ARENA_NORMAL_BLOCK) = unat b + 65544"
      using b(1) n by (simp_all add: arena_consts unat_word_ariths)
    define A' where "A' = A\<lparr>g_blocks := (b, ?n) # g_blocks A, g_cur := b + ARENA_HEADER,
                   g_end := b + ARENA_HEADER + ARENA_NORMAL_BLOCK\<rparr>"
    have live: "span b ?n \<inter> span q m = {}" if "(q, m) \<in> set live" for q m
      using inv that b(2) payload_span unfolding arena_inv_def by fastforce
    moreover have "{unat b + 8 ..< unat b + 65544} \<subseteq> span b ?n" by (auto simp: span_def n)
    ultimately have "cur_ok A' live"
      unfolding cur_ok_def by (intro exI [of _ b]) (auto simp: A'_def h)
    moreover from this have "arena_inv A' live"
      using inv b(1) by (auto simp: arena_inv_def A'_def)
    moreover have "arena_chain_normal zgc A = (True, A')"
      using False by (simp add: arena_chain_normal_def Let_def b_def A'_def)
    ultimately show ?thesis using b(1) n by (simp add: A'_def h)
  qed
qed

lemma arena_alloc_spec:
  assumes zgc: "zgc_ok zgc" and inv: "arena_inv A live" and fits: "req_fits sz0 align0"
  shows "alloc_post (amount sz0) (alignment align0) live (arena_alloc zgc sz0 align0 A)"
proof -
  define sz where "sz = amount sz0"
  define align where "align = alignment align0"
  have sz: "sz \<noteq> 0" and al: "align \<noteq> 0" by (auto simp: sz_def amount_def align_def alignment_def)
  have f: "unat sz + unat align + 8 < 2 ^ 64"
    using fits by (auto simp: req_fits_def sz_def amount_def align_def alignment_def word_less_nat_alt)
  have unf: "arena_alloc zgc sz0 align0 A =
    (if align AND (align - 1) \<noteq> 0 then (0, A)
     else if align > ARENA_MAX_ALIGN \<or> sz + align > ARENA_NORMAL_BLOCK
     then arena_dedicated zgc sz align A
     else if g_cur A = 0 \<or> align_up (g_cur A) align + sz > g_end A
     then (case arena_chain_normal zgc A of
             (False, A1) \<Rightarrow> (0, A1)
           | (True, A1) \<Rightarrow> arena_bump sz align A1)
     else arena_bump sz align A)"
    unfolding arena_alloc_def arena_alloc_locked_def Let_def sz_def amount_def align_def alignment_def ..
  show ?thesis
  proof (cases "align AND (align - 1) = 0")
    case True
    obtain k where k: "k < 64" "align = 2 ^ k" by (rule pow2_test [OF al True])
    show ?thesis
    proof (cases "align > ARENA_MAX_ALIGN \<or> sz + align > ARENA_NORMAL_BLOCK")
      case big: True
      with arena_dedicated_post [OF zgc inv k sz f] True show ?thesis
        unfolding unf sz_def [symmetric] align_def [symmetric] by simp
    next
      case False
      have small: "unat sz + unat align \<le> 65536"
        using False f by (simp add: word_less_nat_alt unat_add64 arena_consts not_less)
      note bump = arena_bump_post [OF _ _ k _ sz, of _ live]
      show ?thesis
      proof (cases "g_cur A = 0 \<or> align_up (g_cur A) align + sz > g_end A")
        case full: True
        obtain ok A1 where c: "arena_chain_normal zgc A = (ok, A1)" by force
        have i1: "arena_inv A1 live" and c1: "ok \<Longrightarrow> cur_ok A1 live"
          and e1: "ok \<Longrightarrow> unat (g_end A1) = unat (g_cur A1) + 65536 \<and> unat (g_end A1) \<le> 2 ^ 63"
          using arena_chain_normal_cases [OF zgc inv] by (simp_all add: c)
        have "unat (align_up (g_cur A1) align) + unat sz \<le> unat (g_end A1)" if ok
          using align_up_spec [OF k(1), of "g_cur A1"] e1 [OF that] small
          by (simp add: k(2) unat_pow2 [OF k(1)])
        then have "alloc_post sz align live (arena_bump sz align A1)" if ok
          using bump [OF i1 c1] that small by simp
        then show ?thesis
          using True False full i1 unfolding unf sz_def [symmetric] align_def [symmetric]
          by (cases ok) (simp_all add: c alloc_post_def)
      next
        case room: False
        then have cur: "cur_ok A live" using inv by (simp add: arena_inv_def)
        then obtain b where b: "unat (g_cur A) \<le> unat (g_end A)" "unat (g_end A) = unat b + 65544"
          "(b, ARENA_HEADER + ARENA_NORMAL_BLOCK) \<in> set (g_blocks A)" unfolding cur_ok_def by blast
        have "unat (g_end A) \<le> 2 ^ 63" using inv b(2,3) by (fastforce simp: arena_inv_def arena_consts)
        then have "unat (align_up (g_cur A) align) + unat sz < 2 ^ 64"
          using align_up_spec [OF k(1), of "g_cur A"] b(1) small by (simp add: k(2) unat_pow2 [OF k(1)])
        then have "unat (align_up (g_cur A) align) + unat sz \<le> unat (g_end A)"
          using room by (simp add: word_less_nat_alt unat_add64 not_less)
        from bump [OF inv cur this] small room True False show ?thesis
          unfolding unf sz_def [symmetric] align_def [symmetric] by simp
      qed
    qed
  next
    case False
    then show ?thesis unfolding unf by (simp add: alloc_post_def inv)
  qed
qed

section \<open>The contract of an allocator\<close>

text \<open>A run of requests, each a size and an alignment, and what they were answered: the non-null
  answers with the bytes they own.\<close>

fun alloc_run :: "(u64 \<Rightarrow> u64 \<Rightarrow> 's \<Rightarrow> addr \<times> 's) \<Rightarrow> (u64 \<times> u64) list \<Rightarrow> 's \<Rightarrow> (addr \<times> u64 \<times> u64) list \<times> 's" where
  "alloc_run alloc [] s = ([], s)"
| "alloc_run alloc ((n, a) # reqs) s =
    (let (p, s1) = alloc n a s; (ps, s2) = alloc_run alloc reqs s1 in
     ((if p = 0 then ps else (p, amount n, alignment a) # ps), s2))"

locale allocator =
  fixes alloc :: "u64 \<Rightarrow> u64 \<Rightarrow> 's \<Rightarrow> addr \<times> 's"
    and ok :: "'s \<Rightarrow> (addr \<times> u64) list \<Rightarrow> bool"
    and fits :: "u64 \<Rightarrow> u64 \<Rightarrow> bool"
  assumes alloc_null: "ok s live \<Longrightarrow> fits n a \<Longrightarrow> alloc n a s = (0, s') \<Longrightarrow> ok s' live"
    and alloc_new: "ok s live \<Longrightarrow> fits n a \<Longrightarrow> alloc n a s = (p, s') \<Longrightarrow> p \<noteq> 0 \<Longrightarrow>
      ok s' ((p, amount n) # live)"
    and alloc_aligned: "ok s live \<Longrightarrow> fits n a \<Longrightarrow> alloc n a s = (p, s') \<Longrightarrow> p \<noteq> 0 \<Longrightarrow>
      unat (alignment a) dvd unat p"
    and alloc_apart: "ok s live \<Longrightarrow> fits n a \<Longrightarrow> alloc n a s = (p, s') \<Longrightarrow> p \<noteq> 0 \<Longrightarrow>
      (q, m) \<in> set live \<Longrightarrow> span p (amount n) \<inter> span q m = {}"
begin

lemma run_apart:
  assumes "ok s live" and "\<forall>(n, a)\<in>set reqs. fits n a" and "alloc_run alloc reqs s = (ps, s')"
  shows "(\<forall>(p, n, a)\<in>set ps. p \<noteq> 0 \<and> 0 < unat n \<and> unat a dvd unat p \<and>
            (\<forall>(q, m)\<in>set live. span p n \<inter> span q m = {})) \<and>
    sorted_wrt (\<lambda>(p, n, _) (q, m, _). span p n \<inter> span q m = {}) ps"
  using assms
proof (induction reqs arbitrary: s live ps)
  case (Cons r reqs)
  obtain n a where r: "r = (n, a)" by force
  obtain p s1 where p: "alloc n a s = (p, s1)" by force
  obtain qs where qs: "alloc_run alloc reqs s1 = (qs, s')"
    and ps: "ps = (if p = 0 then qs else (p, amount n, alignment a) # qs)"
    using Cons.prems(3) by (auto simp: r p split: prod.splits)
  have f: "fits n a" "\<forall>(n, a)\<in>set reqs. fits n a" using Cons.prems(2) by (auto simp: r)
  have am: "0 < unat (amount n)" by (simp add: amount_def unat_gt_0)
  show ?case
  proof (cases "p = 0")
    case True
    with Cons.IH [OF alloc_null [OF Cons.prems(1) f(1)] f(2) qs] p ps show ?thesis by simp
  next
    case False
    note ih = Cons.IH [OF alloc_new [OF Cons.prems(1) f(1) p False] f(2) qs]
    have "span p (amount n) \<inter> span q m = {}" if "(q, m, b) \<in> set qs" for q m b
      using ih that by (fastforce simp: Int_commute)
    with ih False am alloc_aligned [OF Cons.prems(1) f(1) p False]
      alloc_apart [OF Cons.prems(1) f(1) p False]
    show ?thesis unfolding ps by fastforce
  qed
qed simp

lemma run_distinct:
  assumes "ok s live" and "\<forall>(n, a)\<in>set reqs. fits n a" and "alloc_run alloc reqs s = (ps, s')"
  shows "distinct (map fst ps)"
proof -
  note r = run_apart [OF assms]
  have "distinct (map fst qs)"
    if "\<forall>(p, n, a)\<in>set qs. 0 < unat n" and "sorted_wrt (\<lambda>(p, n, _) (q, m, _). span p n \<inter> span q m = {}) qs" for qs :: "(addr \<times> u64 \<times> u64) list"
    using that
  proof (induction qs)
    case (Cons x qs)
    obtain p n a where x: "x = (p, n, a)" by (cases x)
    have "q \<noteq> p" if "(q, m, b) \<in> set qs" for q m b
    proof
      assume "q = p"
      then have "unat p \<in> span p n \<inter> span q m" using Cons.prems(1) that by (auto simp: x span_def)
      moreover have "span p n \<inter> span q m = {}" using Cons.prems(2) that by (fastforce simp: x)
      ultimately show False by blast
    qed
    then have "p \<notin> set (map fst qs)" by force
    moreover have "distinct (map fst qs)" using Cons by (auto simp: x)
    ultimately show ?case by (simp add: x)
  qed simp
  with r show ?thesis by blast
qed

end

text \<open>The arena with the collector behind it is an allocator.\<close>

definition arena_step :: "u64 \<Rightarrow> u64 \<Rightarrow> zgc \<times> arena \<Rightarrow> addr \<times> zgc \<times> arena" where
  "arena_step n a s = (let (p, A) = arena_alloc (fst s) n a (snd s) in (p, fst s, A))"

definition arena_ok :: "zgc \<times> arena \<Rightarrow> (addr \<times> u64) list \<Rightarrow> bool" where
  "arena_ok s live \<longleftrightarrow> zgc_ok (fst s) \<and> arena_inv (snd s) live"

lemma arena_step_post:
  assumes "arena_ok s live" and "req_fits n a" and "arena_step n a s = (p, s')"
  shows "p = 0 \<Longrightarrow> arena_ok s' live"
    and "p \<noteq> 0 \<Longrightarrow> arena_ok s' ((p, amount n) # live)"
    and "p \<noteq> 0 \<Longrightarrow> unat (alignment a) dvd unat p"
    and "p \<noteq> 0 \<Longrightarrow> \<forall>(q, m)\<in>set live. span p (amount n) \<inter> span q m = {}"
proof -
  have "alloc_post (amount n) (alignment a) live (p, snd s')" and z: "zgc_ok (fst s')"
    using arena_alloc_spec [of "fst s" "snd s" live n a] assms
    by (auto simp: arena_ok_def arena_step_def split: prod.splits)
  then show "p = 0 \<Longrightarrow> arena_ok s' live" "p \<noteq> 0 \<Longrightarrow> arena_ok s' ((p, amount n) # live)"
    "p \<noteq> 0 \<Longrightarrow> unat (alignment a) dvd unat p"
    "p \<noteq> 0 \<Longrightarrow> \<forall>(q, m)\<in>set live. span p (amount n) \<inter> span q m = {}"
    by (simp_all add: alloc_post_def arena_ok_def)
qed

interpretation bump: allocator arena_step arena_ok req_fits
proof unfold_locales
  fix s live n a p s' q m assume s: "arena_ok s live" "req_fits n a"
  show "arena_ok s' live" if "arena_step n a s = (0, s')" by (rule arena_step_post(1) [OF s that refl])
  assume p: "arena_step n a s = (p, s')" "p \<noteq> 0"
  note post = arena_step_post [OF s p(1)]
  show "arena_ok s' ((p, amount n) # live)" "unat (alignment a) dvd unat p"
    using post(2,3) p(2) by blast+
  show "span p (amount n) \<inter> span q m = {}" if "(q, m) \<in> set live" using post(4) p(2) that by blast
qed

section \<open>Properties\<close>

text \<open>C33. Whatever a program asks of the default allocator, what it gets is apart and aligned: in
  any run of requests that do not wrap the word, the non-null answers own pairwise disjoint
  bytes, are distinct, and are multiples of the alignment asked for.\<close>

theorem arena_run_disjoint:
  assumes "zgc_ok zgc" and "\<forall>(n, a)\<in>set reqs. req_fits n a"
    and "alloc_run arena_step reqs (zgc, arena_start) = (ps, s)"
  shows "sorted_wrt (\<lambda>(p, n, _) (q, m, _). span p n \<inter> span q m = {}) ps \<and> distinct (map fst ps) \<and>
    (\<forall>(p, n, a)\<in>set ps. p \<noteq> 0 \<and> unat a dvd unat p)"
proof -
  have i: "arena_ok (zgc, arena_start) []" using assms(1) arena_start_inv by (simp add: arena_ok_def)
  show ?thesis
    using bump.run_apart [OF i assms(2,3)] bump.run_distinct [OF i assms(2,3)] by fastforce
qed

text \<open>An allocation stays inside the block it came from: every byte of it belongs to a block
  on the chain, behind the block's header, and the arena's own cursor never passes the
  block's end.\<close>

theorem arena_alloc_inside:
  assumes "zgc_ok zgc" and "arena_inv A live" and "req_fits sz align"
    and "arena_alloc zgc sz align A = (p, A')" and "p \<noteq> 0"
  shows "(\<exists>(b, n)\<in>set (g_blocks A'). span p (amount sz) \<subseteq> payload b n) \<and>
    unat (g_cur A') \<le> unat (g_end A')"
proof -
  have i: "arena_inv A' ((p, amount sz) # live)"
    using arena_alloc_spec [OF assms(1-3)] assms(4,5) by (simp add: alloc_post_def)
  then show ?thesis by (auto simp: arena_inv_def cur_ok_def)
qed

text \<open>A request whose padded size wraps is not refused: with room left in the current block, a
  request for \<open>SIZE_MAX\<close> bytes is answered with a pointer into it, and the next request
  is answered with the byte before.\<close>

definition room_arena :: arena where
  "room_arena = \<lparr>g_blocks = [(0x10000, 65544)], g_cur = 0x10020, g_end = 0x20008\<rparr>"

lemma arena_wraps:
  "arena_alloc zgc (- 1) 16 room_arena = (0x10020, room_arena\<lparr>g_cur := 0x1001F\<rparr>)"
  "fst (arena_alloc zgc 1 1 (snd (arena_alloc zgc (- 1) 16 room_arena))) = 0x1001F"
  by (simp_all add: arena_alloc_def arena_alloc_locked_def room_arena_def arena_consts align_up_def
      arena_bump_def Let_def)

section \<open>Witnesses\<close>

text \<open>A collector with room for one block.\<close>

definition demo_zgc :: zgc where
  "demo_zgc bs align n = (if bs = [] \<and> align = 4096 \<and> n \<le> 0x100000 then 0x100000 else 0)"

lemma demo_zgc_ok: "zgc_ok demo_zgc"
  by (auto simp: zgc_ok_def demo_zgc_def word_le_nat_alt)

lemmas arena_eval = arena_alloc_def arena_alloc_locked_def arena_consts align_up_def arena_step_def
  arena_bump_def arena_chain_normal_def arena_start_def demo_zgc_def Let_def amount_def alignment_def

lemma demo_arena_run:
  "alloc_run arena_step [(24, 16), (0, 1), (100, 4096)] (demo_zgc, arena_start) =
     ([(0x100010, 24, 16), (0x100028, 1, 1), (0x101000, 100, 4096)],
      demo_zgc, \<lparr>g_blocks = [(0x100000, 65544)], g_cur = 0x101064, g_end = 0x110008\<rparr>)"
  by (simp add: arena_eval)

theorem arena_run_disjoint_witness:
  "span 0x100010 24 \<inter> span 0x101000 100 = {} \<and> unat (4096 :: u64) dvd unat (0x101000 :: u64)"
  using arena_run_disjoint [OF demo_zgc_ok _ demo_arena_run] by (simp add: req_fits_def)

theorem arena_alloc_inside_witness: "\<exists>A'. arena_alloc demo_zgc 24 16 arena_start = (0x100010, A') \<and>
    unat (g_cur A') \<le> unat (g_end A')"
proof -
  obtain A' where a: "arena_alloc demo_zgc 24 16 arena_start = (0x100010, A')" by (simp add: arena_eval)
  from arena_alloc_inside [OF demo_zgc_ok arena_start_inv _ this] a show ?thesis
    by (simp add: req_fits_def)
qed

end
