(* ===== verification/Native.thy ===== *)
theory Native
  imports Marks
begin

text \<open>
  \<^verbatim>\<open>filc_async_native.c\<close>: the pending flag in an object's aux word, updated by
  compare-and-swap beside Fil-C's own flags, and the slow path of the access hook.  How Fil-C
  packs flags and pointer into the aux word, and which flag means read-only, belongs to Fil-C
  and is a parameter.  The word is in memory that other threads write: a schedule says what
  they write between each load and its compare-and-swap, and which weak compare-and-swaps
  fail by themselves.  The loop refines the flag update of theory \<open>Marks\<close>.
\<close>

definition FILC_OBJECT_FLAG_ASYNC_PENDING :: u64 where "FILC_OBJECT_FLAG_ASYNC_PENDING = 64"

record aux_ops =
  aux_get_flags :: "u64 \<Rightarrow> u64"
  aux_get_ptr :: "u64 \<Rightarrow> addr"
  aux_create :: "u64 \<Rightarrow> addr \<Rightarrow> u64"
  flag_readonly :: u64

definition next_flags :: "aux_ops \<Rightarrow> int \<Rightarrow> u64 \<Rightarrow> u64" where
  "next_flags ops pending flags =
    (let set = (pending = 1 \<or> pending = 2 \<and> flags AND flag_readonly ops = 0) in
     if set then flags OR FILC_OBJECT_FLAG_ASYNC_PENDING
     else flags AND NOT FILC_OBJECT_FLAG_ASYNC_PENDING)"

text \<open>One turn of the loop as the scheduler may run it: what other threads write into the word
  between this thread's load and its compare-and-swap, each from the word it found, and whether
  the weak compare-and-swap fails though the word is the expected one.\<close>

record attempt =
  at_others :: "(u64 \<Rightarrow> u64) list"
  at_spurious :: bool

definition others_write :: "attempt \<Rightarrow> u64 \<Rightarrow> u64" where
  "others_write a mem = fold id (at_others a) mem"

definition pas_compare_and_swap_uintptr_weak :: "bool \<Rightarrow> u64 \<Rightarrow> u64 \<Rightarrow> u64 \<Rightarrow> bool \<times> u64" where
  "pas_compare_and_swap_uintptr_weak spurious mem old_value new_value =
    (if mem = old_value \<and> \<not> spurious then (True, new_value) else (False, mem))"

text \<open>\<open>mem\<close> is the word in memory and \<open>aux\<close> the thread's copy of it, loaded at the head of every
  turn.  The result is the schedule that is left and the word in memory; a turn the schedule
  does not mention is undisturbed.\<close>

fun set_pending_loop :: "aux_ops \<Rightarrow> int \<Rightarrow> attempt list \<Rightarrow> u64 \<Rightarrow> attempt list \<times> u64" where
  "set_pending_loop ops pending attempts mem =
    (let aux = mem;
         flags = aux_get_flags ops aux;
         next = next_flags ops pending flags in
     if next = flags then (attempts, mem)
     else (case attempts of
         [] \<Rightarrow> ([], snd (pas_compare_and_swap_uintptr_weak False mem aux (aux_create ops next (aux_get_ptr ops aux))))
       | a # rest \<Rightarrow>
           (case pas_compare_and_swap_uintptr_weak (at_spurious a) (others_write a mem) aux
                   (aux_create ops next (aux_get_ptr ops aux)) of (swapped, mem') \<Rightarrow>
              if swapped then (rest, mem') else set_pending_loop ops pending rest mem')))"

declare set_pending_loop.simps [simp del]

text \<open>The aux words by object; a pointer with no object has \<open>0\<close>.\<close>

definition filc_native_zasync_set_pending ::
  "aux_ops \<Rightarrow> addr \<Rightarrow> int \<Rightarrow> attempt list \<Rightarrow> (addr \<Rightarrow> u64) \<Rightarrow> (addr \<Rightarrow> u64)" where
  "filc_native_zasync_set_pending ops obj pending attempts mem =
    (if obj = 0 then mem else mem(obj := snd (set_pending_loop ops pending attempts (mem obj))))"

definition filc_native_zasync_set_resolver :: "addr \<Rightarrow> addr \<Rightarrow> addr" where
  "filc_native_zasync_set_resolver resolver filc_async_resolver = resolver"

text \<open>What \<open>filc_resolve_pending\<close> does to the calling thread, in order; \<open>unlocked_top\<close> says the
  thread's top native frame exists and is unlocked.\<close>

datatype native_event =
    Lock_Top | Push_Frame | Push_Native | Call_Resolver addr addr | Pop_Native | Pop_Frame | Unlock_Top

definition filc_resolve_pending :: "aux_ops \<Rightarrow> addr \<Rightarrow> bool \<Rightarrow> addr \<Rightarrow> (addr \<Rightarrow> u64) \<Rightarrow> native_event list" where
  "filc_resolve_pending ops filc_async_resolver unlocked_top lower mem =
    (if lower = 0 then []
     else if aux_get_flags ops (mem lower) AND FILC_OBJECT_FLAG_ASYNC_PENDING = 0 then []
     else if filc_async_resolver = 0 then []
     else (if unlocked_top then [Lock_Top] else []) @
          [Push_Frame, Push_Native, Call_Resolver filc_async_resolver lower, Pop_Native, Pop_Frame] @
          (if unlocked_top then [Unlock_Top] else []))"

section \<open>The loop refines the flag update\<close>

text \<open>What Fil-C's packing promises: writing the flags with the pending bit changed, and the same
  pointer, reads back as written; and, as the source asserts at compile time, the read-only
  flag is another bit.\<close>

definition aux_ok :: "aux_ops \<Rightarrow> bool" where
  "aux_ok ops \<longleftrightarrow> flag_readonly ops AND FILC_OBJECT_FLAG_ASYNC_PENDING = 0 \<and>
    (\<forall>a f. (f = aux_get_flags ops a OR FILC_OBJECT_FLAG_ASYNC_PENDING \<or>
           f = aux_get_flags ops a AND NOT FILC_OBJECT_FLAG_ASYNC_PENDING) \<longrightarrow>
       aux_get_flags ops (aux_create ops f (aux_get_ptr ops a)) = f \<and>
       aux_get_ptr ops (aux_create ops f (aux_get_ptr ops a)) = aux_get_ptr ops a)"

fun pending_code :: "pending \<Rightarrow> int" where
  "pending_code PENDING_CLEAR = 0"
| "pending_code PENDING_SET = 1"
| "pending_code PENDING_READERS = 2"

definition header_of :: "aux_ops \<Rightarrow> u64 \<Rightarrow> header" where
  "header_of ops aux = \<lparr>h_readonly = (aux_get_flags ops aux AND flag_readonly ops \<noteq> 0),
     h_pending = (aux_get_flags ops aux AND FILC_OBJECT_FLAG_ASYNC_PENDING \<noteq> 0)\<rparr>"

lemma flag_bits:
  "(x OR m) AND m = m" "(x AND NOT m) AND m = 0"
  "(x OR m) AND NOT m = x AND NOT m" "(x AND NOT m) AND NOT m = x AND NOT m" for x m :: u64
  by (auto intro!: bit_word_eqI simp: bit_and_iff bit_or_iff bit_not_iff)

lemma other_flag_bits:
  assumes "r AND m = (0::u64)"
  shows "(x OR m) AND r = x AND r" "(x AND NOT m) AND r = x AND r"
proof -
  have "\<not> (bit r i \<and> bit m i)" for i
    using arg_cong [OF assms, of "\<lambda>w. bit w i"] by (simp add: bit_and_iff)
  then show "(x OR m) AND r = x AND r" "(x AND NOT m) AND r = x AND r"
    by (auto intro!: bit_word_eqI simp: bit_and_iff bit_or_iff bit_not_iff)
qed

lemma next_flags_header:
  assumes "flag_readonly ops AND FILC_OBJECT_FLAG_ASYNC_PENDING = 0"
  shows "(next_flags ops (pending_code p) f AND FILC_OBJECT_FLAG_ASYNC_PENDING \<noteq> 0) =
      pending_flag p (f AND flag_readonly ops \<noteq> 0)"
    and "next_flags ops (pending_code p) f AND flag_readonly ops = f AND flag_readonly ops"
    and "next_flags ops (pending_code p) f AND NOT FILC_OBJECT_FLAG_ASYNC_PENDING = f AND NOT FILC_OBJECT_FLAG_ASYNC_PENDING"
proof -
  have "FILC_OBJECT_FLAG_ASYNC_PENDING \<noteq> 0" by (simp add: FILC_OBJECT_FLAG_ASYNC_PENDING_def)
  then show "(next_flags ops (pending_code p) f AND FILC_OBJECT_FLAG_ASYNC_PENDING \<noteq> 0) =
      pending_flag p (f AND flag_readonly ops \<noteq> 0)"
    by (cases p) (simp_all add: next_flags_def flag_bits)
  show "next_flags ops (pending_code p) f AND flag_readonly ops = f AND flag_readonly ops"
    by (simp add: next_flags_def Let_def other_flag_bits [OF assms])
  show "next_flags ops (pending_code p) f AND NOT FILC_OBJECT_FLAG_ASYNC_PENDING = f AND NOT FILC_OBJECT_FLAG_ASYNC_PENDING"
    by (simp add: next_flags_def Let_def flag_bits)
qed

text \<open>The loop's own update of the word, as one atomic step: the pending flag as the framework's
  abstract update sets it, every other flag and the pointer as they were, and the very same
  word where the flag was right already.\<close>

definition pending_written :: "aux_ops \<Rightarrow> pending \<Rightarrow> u64 \<Rightarrow> u64 \<Rightarrow> bool" where
  "pending_written ops p aux aux' \<longleftrightarrow>
    header_of ops aux' = (header_of ops aux)\<lparr>h_pending := pending_flag p (h_readonly (header_of ops aux))\<rparr> \<and>
    aux_get_ptr ops aux' = aux_get_ptr ops aux \<and>
    aux_get_flags ops aux' AND NOT FILC_OBJECT_FLAG_ASYNC_PENDING =
      aux_get_flags ops aux AND NOT FILC_OBJECT_FLAG_ASYNC_PENDING \<and>
    (h_pending (header_of ops aux') = h_pending (header_of ops aux) \<longrightarrow> aux' = aux)"

lemma pending_writtenD:
  "pending_written ops p aux aux' \<Longrightarrow>
    h_pending (header_of ops aux') = pending_flag p (h_readonly (header_of ops aux))"
  by (simp add: pending_written_def)

lemma next_flags_same:
  assumes "flag_readonly ops AND FILC_OBJECT_FLAG_ASYNC_PENDING = 0"
    and "(next_flags ops (pending_code p) f AND FILC_OBJECT_FLAG_ASYNC_PENDING \<noteq> 0) =
      (f AND FILC_OBJECT_FLAG_ASYNC_PENDING \<noteq> 0)"
  shows "next_flags ops (pending_code p) f = f"
proof -
  let ?m = "FILC_OBJECT_FLAG_ASYNC_PENDING" and ?n = "next_flags ops (pending_code p) f"
  have one: "x AND ?m = (if bit x 6 then ?m else 0)" for x
  proof -
    have m: "bit ?m i \<longleftrightarrow> i = 6" for i
      using bit_exp_iff [where 'a = u64, of 6 i] by (auto simp: FILC_OBJECT_FLAG_ASYNC_PENDING_def)
    show ?thesis by (rule bit_word_eqI) (auto simp: bit_and_iff m)
  qed
  have "?m \<noteq> 0" by (simp add: FILC_OBJECT_FLAG_ASYNC_PENDING_def)
  then have "?n AND ?m = f AND ?m" using assms(2) unfolding one by (auto split: if_splits)
  moreover have "?n AND NOT ?m = f AND NOT ?m" by (rule next_flags_header(3) [OF assms(1)])
  moreover have "x = (x AND m) OR (x AND NOT m)" for x m :: u64
    by (rule bit_word_eqI) (auto simp: bit_and_iff bit_or_iff bit_not_iff)
  ultimately show ?thesis by metis
qed

lemma set_pending_written:
  assumes "aux_ok ops" and n: "next_flags ops (pending_code p) (aux_get_flags ops aux) = f"
  shows "f = aux_get_flags ops aux \<Longrightarrow> pending_written ops p aux aux"
    and "f \<noteq> aux_get_flags ops aux \<Longrightarrow> pending_written ops p aux (aux_create ops f (aux_get_ptr ops aux))"
proof -
  have ro: "flag_readonly ops AND FILC_OBJECT_FLAG_ASYNC_PENDING = 0" using assms(1) by (simp add: aux_ok_def)
  note h = next_flags_header [OF ro, of p "aux_get_flags ops aux", unfolded n]
  note same = next_flags_same [OF ro, of p "aux_get_flags ops aux", unfolded n]
  show "pending_written ops p aux aux" if "f = aux_get_flags ops aux"
    using h that by (simp add: pending_written_def header_of_def)
  show "pending_written ops p aux (aux_create ops f (aux_get_ptr ops aux))" if "f \<noteq> aux_get_flags ops aux"
  proof -
    have "f = aux_get_flags ops aux OR FILC_OBJECT_FLAG_ASYNC_PENDING \<or>
        f = aux_get_flags ops aux AND NOT FILC_OBJECT_FLAG_ASYNC_PENDING"
      using n by (auto simp: next_flags_def Let_def split: if_splits)
    then have "aux_get_flags ops (aux_create ops f (aux_get_ptr ops aux)) = f \<and>
        aux_get_ptr ops (aux_create ops f (aux_get_ptr ops aux)) = aux_get_ptr ops aux"
      using assms(1) unfolding aux_ok_def by blast
    with h same that show ?thesis by (auto simp: pending_written_def header_of_def)
  qed
qed

text \<open>C34. Setting the pending flag in an object's header is one atomic update of the word in
  memory.  Whatever other threads write into the word between the loads and the
  compare-and-swaps, and however many of these fail: the loop's update happens after all the
  writes of the turns it took and to the word they left, so none of them is lost; it changes
  exactly the pending flag, the way the framework's abstract update does, and keeps the
  pointer and every other flag; and a word whose flag is right already is not written.\<close>

theorem set_pending_refines:
  assumes "aux_ok ops"
  shows "\<exists>k\<le>length attempts.
    fst (set_pending_loop ops (pending_code p) attempts mem) = drop k attempts \<and>
    pending_written ops p (fold others_write (take k attempts) mem)
      (snd (set_pending_loop ops (pending_code p) attempts mem))"
proof (induction attempts arbitrary: mem)
  case Nil
  show ?case using set_pending_written [OF assms refl, of p mem]
    by (simp add: set_pending_loop.simps [of _ _ "[]"] Let_def pas_compare_and_swap_uintptr_weak_def)
next
  case (Cons a rest)
  let ?f = "aux_get_flags ops mem" and ?n = "next_flags ops (pending_code p) (aux_get_flags ops mem)"
  note loop = set_pending_loop.simps [of ops _ "a # rest"]
  note w = set_pending_written [OF assms refl, of p mem]
  show ?case
  proof (cases "?n = ?f")
    case True
    with w(1) have "pending_written ops p (fold others_write (take 0 (a # rest)) mem)
        (snd (set_pending_loop ops (pending_code p) (a # rest) mem))"
      by (simp add: loop Let_def)
    moreover have "fst (set_pending_loop ops (pending_code p) (a # rest) mem) = drop 0 (a # rest)"
      using True by (simp add: loop Let_def)
    ultimately show ?thesis by blast
  next
    case changed: False
    show ?thesis
    proof (cases "others_write a mem = mem \<and> \<not> at_spurious a")
      case True
      with changed w(2) have "pending_written ops p (fold others_write (take 1 (a # rest)) mem)
          (snd (set_pending_loop ops (pending_code p) (a # rest) mem)) \<and>
          fst (set_pending_loop ops (pending_code p) (a # rest) mem) = drop 1 (a # rest)"
        by (simp add: loop Let_def pas_compare_and_swap_uintptr_weak_def)
      then show ?thesis by (intro exI [of _ 1]) simp
    next
      case False
      with changed have "set_pending_loop ops (pending_code p) (a # rest) mem =
          set_pending_loop ops (pending_code p) rest (others_write a mem)"
        by (auto simp: loop Let_def pas_compare_and_swap_uintptr_weak_def)
      moreover obtain k where "k \<le> length rest"
        "fst (set_pending_loop ops (pending_code p) rest (others_write a mem)) = drop k rest \<and>
         pending_written ops p (fold others_write (take k rest) (others_write a mem))
           (snd (set_pending_loop ops (pending_code p) rest (others_write a mem)))"
        using Cons.IH by blast
      ultimately show ?thesis by (intro exI [of _ "Suc k"]) simp
    qed
  qed
qed

lemma resolve_pending_events:
  "filc_resolve_pending ops resolver top lower mem \<noteq> [] \<Longrightarrow>
   filter (\<lambda>e. e = Call_Resolver resolver lower) (filc_resolve_pending ops resolver top lower mem) =
     [Call_Resolver resolver lower] \<and> h_pending (header_of ops (mem lower))"
  by (auto simp: filc_resolve_pending_def header_of_def split: if_splits)

text \<open>A packing with the flags in the high half of the word.\<close>

definition demo_aux :: aux_ops where
  "demo_aux = \<lparr>aux_get_flags = (\<lambda>a. drop_bit 48 a), aux_get_ptr = (\<lambda>a. take_bit 48 a),
     aux_create = (\<lambda>f p. push_bit 48 f OR take_bit 48 p), flag_readonly = 2\<rparr>"

lemma demo_aux_read:
  assumes "f = drop_bit 48 a OR 64 \<or> f = drop_bit 48 a AND NOT 64"
  shows "drop_bit 48 (push_bit 48 f OR take_bit 48 (take_bit 48 a)) = (f :: u64)"
    "take_bit 48 (push_bit 48 f OR take_bit 48 (take_bit 48 a)) = (take_bit 48 a :: u64)"
proof -
  have six: "bit (64::u64) i \<longleftrightarrow> i = 6" for i
    using bit_exp_iff [where 'a = u64, of 6 i] by auto
  have "\<not> bit f i" if "i \<ge> 16" for i
  proof -
    have "\<not> bit (drop_bit 48 a) i" using that by (auto simp: bit_simps dest: bit_imp_le_length)
    then have "\<not> bit (drop_bit 48 a OR 64) i" "\<not> bit (drop_bit 48 a AND NOT 64) i"
      unfolding bit_or_iff bit_and_iff six using that by simp_all
    then show ?thesis using assms by metis
  qed
  then show "drop_bit 48 (push_bit 48 f OR take_bit 48 (take_bit 48 a)) = (f :: u64)"
    by (intro bit_word_eqI) (auto simp: bit_simps simp flip: not_le)
  show "take_bit 48 (push_bit 48 f OR take_bit 48 (take_bit 48 a)) = (take_bit 48 a :: u64)"
    by (intro bit_word_eqI) (auto simp: bit_simps)
qed

lemma demo_aux_ok: "aux_ok demo_aux"
  unfolding aux_ok_def FILC_OBJECT_FLAG_ASYNC_PENDING_def demo_aux_def
  using demo_aux_read by simp

text \<open>Another thread sets a flag of its own between the load and the compare-and-swap, and the next
  compare-and-swap fails for no reason: both flags are in the word at the end.\<close>

definition busy_word :: "attempt list" where
  "busy_word = [\<lparr>at_others = [\<lambda>w. w OR push_bit 48 32], at_spurious = False\<rparr>,
     \<lparr>at_others = [], at_spurious = True\<rparr>]"

lemma busy_word_run:
  "set_pending_loop demo_aux (pending_code PENDING_SET) busy_word 0x2000 = ([], push_bit 48 96 OR 0x2000)"
  by (simp add: busy_word_def set_pending_loop.simps next_flags_def demo_aux_def others_write_def Let_def
      pas_compare_and_swap_uintptr_weak_def FILC_OBJECT_FLAG_ASYNC_PENDING_def)

theorem set_pending_refines_witness:
  "h_pending (header_of demo_aux (snd (set_pending_loop demo_aux (pending_code PENDING_SET) busy_word 0x2000)))"
  using set_pending_refines [OF demo_aux_ok, of busy_word PENDING_SET "0x2000"]
  by (auto dest: pending_writtenD)

end
