(* ===== verification/Requests.thy ===== *)
theory Requests
  imports Prelude
begin

text \<open>
  The request layer of the io_uring runtime (\<^verbatim>\<open>fasync.c\<close>) and the native drain of
  its completion ring (\<^verbatim>\<open>fasync_native.c\<close>): the table of request slots with its
  free list, allocation bitmap and generations, the submission ring, and the completion ring.
  Both halves share the table and the ring through pointers into the same memory, so they are
  one record here.  The kernel is a parameter: what it answers to a system call.  Its writes to
  the completion ring are the steps of theory \<open>RequestRuns\<close>.
\<close>

definition FASYNC_RING_ENTRIES :: nat where "FASYNC_RING_ENTRIES = 1024"
definition FASYNC_MAX_INFLIGHT :: nat where "FASYNC_MAX_INFLIGHT = 1024"
definition FASYNC_MAX_LEN :: u64 where "FASYNC_MAX_LEN = 0xFFFFFFFF"

definition FASYNC_OP_FSYNC :: "8 word" where "FASYNC_OP_FSYNC = 3"
definition FASYNC_OP_OPENAT :: "8 word" where "FASYNC_OP_OPENAT = 18"
definition FASYNC_OP_CLOSE :: "8 word" where "FASYNC_OP_CLOSE = 19"
definition FASYNC_OP_READ :: "8 word" where "FASYNC_OP_READ = 22"
definition FASYNC_OP_WRITE :: "8 word" where "FASYNC_OP_WRITE = 23"
definition FASYNC_SQE_IO_LINK :: "8 word" where "FASYNC_SQE_IO_LINK = 4"

definition EAGAIN :: int where "EAGAIN = 11"
definition EBADF :: int where "EBADF = 9"
definition ENOMEM :: int where "ENOMEM = 12"

type_synonym fasync_id = u64

datatype req_state = FASYNC_REQ_FREE | FASYNC_REQ_PENDING | FASYNC_REQ_DONE | FASYNC_REQ_FAILED

record fasync_req_shared =
  rq_id :: fasync_id
  rq_gen :: u64
  rq_buf :: addr
  rq_len :: u64
  rq_offset :: u64
  rq_fd :: int
  rq_op :: "8 word"
  rq_state :: req_state
  rq_linked :: bool
  rq_result :: int
  rq_task :: addr

text \<open>The fields of a submission entry the sources set; \<open>memset\<close> clears the rest.\<close>

record fasync_sqe =
  sqe_opcode :: "8 word"
  sqe_flags :: "8 word"
  sqe_fd :: int
  sqe_off :: u64
  sqe_addr :: u64
  sqe_len :: u32
  sqe_open_flags :: u32
  sqe_user_data :: u64

definition sqe_zero :: fasync_sqe where
  "sqe_zero = \<lparr>sqe_opcode = 0, sqe_flags = 0, sqe_fd = 0, sqe_off = 0, sqe_addr = 0, sqe_len = 0,
     sqe_open_flags = 0, sqe_user_data = 0\<rparr>"

record fasync_cqe =
  cqe_user_data :: u64
  cqe_res :: int

record fasync_ring =
  ring_fd :: int
  ready :: bool
  sqes :: "u32 \<Rightarrow> fasync_sqe"
  sq_tail :: u32
  sq_mask :: u32
  sq_array :: "u32 \<Rightarrow> u32"
  cqes :: "u32 \<Rightarrow> fasync_cqe"
  cq_head :: u32
  cq_tail :: u32
  cq_mask :: u32
  sqe_tail :: u32
  sqe_head :: u32
  queued :: u32
  local_cq_head :: u32

record fasync_stats =
  sqes_queued :: u64
  kernel_submit_entries :: u64
  kernel_wait_entries :: u64
  userspace_cq_polls :: u64
  parks :: u64
  completions_reaped :: u64

definition stats_zero :: fasync_stats where
  "stats_zero = \<lparr>sqes_queued = 0, kernel_submit_entries = 0, kernel_wait_entries = 0,
     userspace_cq_polls = 0, parks = 0, completions_reaped = 0\<rparr>"

record uring =
  req_slots :: "nat \<Rightarrow> fasync_req_shared"
  req_next_gen :: u32
  g_req_free_head :: nat
  g_req_free_next :: "nat \<Rightarrow> nat"
  alloc_bits :: "nat \<Rightarrow> u64"
  g_inflight :: u64
  g_ring :: fasync_ring
  g_stats :: fasync_stats
  g_last_error :: string
  errno :: int

abbreviation upd_slot :: "nat \<Rightarrow> (fasync_req_shared \<Rightarrow> fasync_req_shared) \<Rightarrow> uring \<Rightarrow> uring" where
  "upd_slot i f U \<equiv> U\<lparr>req_slots := (req_slots U)(i := f (req_slots U i))\<rparr>"

abbreviation upd_ring :: "(fasync_ring \<Rightarrow> fasync_ring) \<Rightarrow> uring \<Rightarrow> uring" where
  "upd_ring f U \<equiv> U\<lparr>g_ring := f (g_ring U)\<rparr>"

abbreviation upd_stats :: "(fasync_stats \<Rightarrow> fasync_stats) \<Rightarrow> uring \<Rightarrow> uring" where
  "upd_stats f U \<equiv> U\<lparr>g_stats := f (g_stats U)\<rparr>"

text \<open>The kernel: whether the ring memory could be allocated, what \<open>io_uring_setup\<close> returns with the
  ring masks it chose, and what a submitting \<open>io_uring_enter\<close> returns.\<close>

record kernel =
  k_memory :: bool
  k_setup :: int
  k_sq_mask :: u32
  k_cq_mask :: u32
  k_enter :: "uring \<Rightarrow> u32 \<Rightarrow> int"

section \<open>Statistics and errors\<close>

definition fasync_reset_stats :: "uring \<Rightarrow> uring" where
  "fasync_reset_stats U = U\<lparr>g_stats := stats_zero\<rparr>"

definition fasync_get_stats :: "fasync_stats option \<Rightarrow> uring \<Rightarrow> fasync_stats option" where
  "fasync_get_stats out U = (case out of None \<Rightarrow> None | Some _ \<Rightarrow> Some (g_stats U))"

definition fasync_last_error :: "uring \<Rightarrow> string" where
  "fasync_last_error U = g_last_error U"

section \<open>The request table\<close>

definition slot_bit :: "nat \<Rightarrow> u64" where
  "slot_bit index = push_bit (index mod 64) 1"

definition fasync_slot_mark :: "nat \<Rightarrow> bool \<Rightarrow> uring \<Rightarrow> uring" where
  "fasync_slot_mark index allocated U =
    (let w = alloc_bits U (index div 64) in
     U\<lparr>alloc_bits := (alloc_bits U)(index div 64 :=
         (if allocated then w OR slot_bit index else w AND NOT (slot_bit index)))\<rparr>)"

definition fasync_req_table_init :: "uring \<Rightarrow> uring" where
  "fasync_req_table_init U =
     U\<lparr>alloc_bits := (\<lambda>_. 0),
       req_slots := (\<lambda>i. if i < FASYNC_MAX_INFLIGHT then (req_slots U i)\<lparr>rq_state := FASYNC_REQ_FREE\<rparr>
                         else req_slots U i),
       g_req_free_next := (\<lambda>i. if i < FASYNC_MAX_INFLIGHT
                               then (if i + 2 \<le> FASYNC_MAX_INFLIGHT then i + 2 else 0)
                               else g_req_free_next U i),
       g_req_free_head := 1\<rparr>"

definition next_gen :: "u32 \<Rightarrow> u32" where
  "next_gen g = (if g + 1 = 0 then g + 1 + 1 else g + 1)"

definition make_id :: "u64 \<Rightarrow> nat \<Rightarrow> fasync_id" where
  "make_id gen index = push_bit 32 gen OR of_nat index"

definition fasync_req_alloc :: "uring \<Rightarrow> nat option \<times> uring" where
  "fasync_req_alloc U =
    (let head = g_req_free_head U in
     if head = 0 then (None, U)
     else
       let index = head - 1;
           gen = next_gen (req_next_gen U);
           g = ucast gen;
           U1 = U\<lparr>g_req_free_head := g_req_free_next U index, req_next_gen := gen\<rparr>;
           U2 = upd_slot index (\<lambda>r. r\<lparr>rq_gen := g, rq_id := make_id g index,
                  rq_state := FASYNC_REQ_PENDING, rq_result := 0, rq_linked := False, rq_task := 0\<rparr>) U1
       in (Some index, fasync_slot_mark index True U2))"

definition id_index :: "fasync_id \<Rightarrow> nat" where
  "id_index i = unat (i AND 0xFFFFFFFF)"

definition id_gen :: "fasync_id \<Rightarrow> u64" where
  "id_gen i = drop_bit 32 i"

definition fasync_req_release :: "nat \<Rightarrow> uring \<Rightarrow> uring" where
  "fasync_req_release s U =
    (let index = id_index (rq_id (req_slots U s));
         U1 = upd_slot s (\<lambda>r. r\<lparr>rq_state := FASYNC_REQ_FREE, rq_buf := 0, rq_task := 0\<rparr>) U;
         U2 = fasync_slot_mark index False U1
     in U2\<lparr>g_req_free_next := (g_req_free_next U2)(index := g_req_free_head U2),
           g_req_free_head := index + 1\<rparr>)"

definition fasync_req_lookup :: "fasync_id \<Rightarrow> uring \<Rightarrow> nat option" where
  "fasync_req_lookup i U =
    (let index = id_index i; gen = id_gen i in
     if index \<ge> FASYNC_MAX_INFLIGHT then None
     else if rq_gen (req_slots U index) \<noteq> gen \<or> rq_state (req_slots U index) = FASYNC_REQ_FREE then None
     else Some index)"

definition slot_marked :: "uring \<Rightarrow> nat \<Rightarrow> bool" where
  "slot_marked U i \<longleftrightarrow> alloc_bits U (i div 64) AND slot_bit i \<noteq> 0"

text \<open>Pointer comparisons are on the addresses; \<open>p + size\<close> wraps like a pointer sum.\<close>

definition fasync_find_covering :: "addr \<Rightarrow> u64 \<Rightarrow> uring \<Rightarrow> nat option" where
  "fasync_find_covering p sz U =
    (if \<not> ready (g_ring U) then None
     else List.find (\<lambda>i. slot_marked U i \<and>
         (let r = req_slots U i in
          rq_state r = FASYNC_REQ_PENDING \<and> rq_buf r \<noteq> 0 \<and> p \<ge> rq_buf r \<and> p + sz \<le> rq_buf r + rq_len r))
       [0..<FASYNC_MAX_INFLIGHT])"

section \<open>The rings\<close>

text \<open>A raw system call answers \<open>-errno\<close>; the native half turns that into \<open>-1\<close> and sets
  \<open>errno\<close>.\<close>

definition fasync_finish :: "int \<Rightarrow> int \<Rightarrow> int \<times> int" where
  "fasync_finish ret err = (if ret < 0 \<and> ret \<ge> - 4095 then (- 1, - ret) else (ret, err))"

definition zsys_result :: "int \<Rightarrow> uring \<Rightarrow> int \<times> uring" where
  "zsys_result ret U = (case fasync_finish ret (errno U) of (r, e) \<Rightarrow> (r, U\<lparr>errno := e\<rparr>))"

definition zsys_io_uring_setup :: "kernel \<Rightarrow> uring \<Rightarrow> int \<times> uring" where
  "zsys_io_uring_setup K U = zsys_result (k_setup K) U"

text \<open>The submitting call, with no completion to wait for.\<close>

definition zsys_io_uring_enter :: "kernel \<Rightarrow> u32 \<Rightarrow> uring \<Rightarrow> int \<times> uring" where
  "zsys_io_uring_enter K to_submit U = zsys_result (k_enter K U to_submit) U"

lemmas zsys_defs = zsys_io_uring_setup_def zsys_io_uring_enter_def zsys_result_def fasync_finish_def

definition fasync_ring_init :: "kernel \<Rightarrow> uring \<Rightarrow> int \<times> uring" where
  "fasync_ring_init K U =
    (if \<not> k_memory K
     then (- 1, U\<lparr>g_last_error := ''out of memory allocating ring memory'', errno := ENOMEM\<rparr>)
     else case zsys_io_uring_setup K U of (fd, U1) \<Rightarrow>
       if fd < 0 then (- 1, U1\<lparr>g_last_error := ''io_uring_setup failed''\<rparr>)
       else (0, fasync_req_table_init (upd_ring (\<lambda>r. r\<lparr>ring_fd := fd, sq_mask := k_sq_mask K,
              cq_mask := k_cq_mask K, sq_tail := 0, cq_head := 0, cq_tail := 0, sqe_tail := 0,
              sqe_head := 0, queued := 0, local_cq_head := 0, ready := True\<rparr>) U1)))"

definition fasync_ensure_ring :: "kernel \<Rightarrow> uring \<Rightarrow> int \<times> uring" where
  "fasync_ensure_ring K U = (if ready (g_ring U) then (0, U) else fasync_ring_init K U)"

lemma ring_walk_less: "i \<noteq> tail \<Longrightarrow> unat (tail - (i + 1)) < unat (tail - i)" for i tail :: u32
proof -
  assume "i \<noteq> tail"
  then have "tail - i \<noteq> 0" by simp
  moreover have "tail - (i + 1) = tail - i - 1" by simp
  ultimately show ?thesis by (metis measure_unat)
qed

text \<open>A loop over free-running 32-bit ring indices, from \<open>i\<close> up to \<open>tail\<close>, past the wrap.\<close>

function ring_walk :: "(u32 \<Rightarrow> 's \<Rightarrow> 's) \<Rightarrow> u32 \<Rightarrow> u32 \<Rightarrow> 's \<Rightarrow> 's" where
  "ring_walk f i tail s = (if i = tail then s else ring_walk f (i + 1) tail (f i s))"
  by pat_completeness auto

termination
  by (relation "measure (\<lambda>(f, i, tail, s). unat (tail - i))") (auto intro: ring_walk_less)

declare ring_walk.simps [simp del]

definition publish_one :: "u32 \<Rightarrow> u32 \<Rightarrow> (u32 \<Rightarrow> u32) \<Rightarrow> (u32 \<Rightarrow> u32)" where
  "publish_one msk i array = array(i AND msk := i AND msk)"

definition fasync_submit_locked :: "kernel \<Rightarrow> uring \<Rightarrow> int \<times> uring" where
  "fasync_submit_locked K U =
    (let r = g_ring U in
     if \<not> ready r \<or> queued r = 0 then (0, U)
     else
       let U1 = upd_ring (\<lambda>r. r\<lparr>sq_array := ring_walk (publish_one (sq_mask r)) (sqe_head r) (sqe_tail r) (sq_array r),
                  sq_tail := sqe_tail r, sqe_head := sqe_tail r, queued := 0\<rparr>) U;
           n = queued r;
           U2 = upd_stats (\<lambda>t. t\<lparr>kernel_submit_entries := kernel_submit_entries t + 1\<rparr>) U1
       in case zsys_io_uring_enter K n U2 of (ret, U3) \<Rightarrow>
            if ret < 0 then (- 1, U3\<lparr>g_last_error := ''io_uring_enter(submit) failed''\<rparr>)
            else (int (unat n), U3))"

definition fasync_submit :: "kernel \<Rightarrow> uring \<Rightarrow> int \<times> uring" where
  "fasync_submit K U = fasync_submit_locked K U"

definition fasync_get_sqe :: "kernel \<Rightarrow> uring \<Rightarrow> u32 option \<times> uring" where
  "fasync_get_sqe K U =
    (if unat (queued (g_ring U)) \<ge> FASYNC_RING_ENTRIES
     then (case fasync_submit K U of
             (n, U1) \<Rightarrow> if n < 0 then (None, U1) else (Some (sqe_tail (g_ring U1) AND sq_mask (g_ring U1)), U1))
     else (Some (sqe_tail (g_ring U) AND sq_mask (g_ring U)), U))"

definition build_sqe :: "8 word \<Rightarrow> int \<Rightarrow> u64 \<Rightarrow> u64 \<Rightarrow> u64 \<Rightarrow> 8 word \<Rightarrow> fasync_id \<Rightarrow> fasync_sqe" where
  "build_sqe op fd a len offset flags i =
    (let e = sqe_zero\<lparr>sqe_opcode := op, sqe_flags := flags, sqe_fd := fd, sqe_addr := a,
               sqe_len := ucast len, sqe_user_data := i\<rparr> in
     if op = FASYNC_OP_OPENAT then e\<lparr>sqe_open_flags := ucast offset\<rparr> else e\<lparr>sqe_off := offset\<rparr>)"

text \<open>The request's part of a push: the entry is written, the slot describes the request, and the
  count of requests in flight goes up.\<close>

definition push_request :: "8 word \<Rightarrow> int \<Rightarrow> u64 \<Rightarrow> u64 \<Rightarrow> u64 \<Rightarrow> addr \<Rightarrow> u64 \<Rightarrow> 8 word \<Rightarrow> nat \<Rightarrow> u32 \<Rightarrow>
    uring \<Rightarrow> uring" where
  "push_request op fd a len offset result_buf result_len flags s sqe U =
    (let i = rq_id (req_slots U s);
         U1 = upd_ring (\<lambda>r. r\<lparr>sqes := (sqes r)(sqe := build_sqe op fd a len offset flags i),
                sqe_tail := sqe_tail r + 1, queued := queued r + 1\<rparr>) U;
         U2 = upd_stats (\<lambda>t. t\<lparr>sqes_queued := sqes_queued t + 1\<rparr>) U1;
         U3 = upd_slot s (\<lambda>r. r\<lparr>rq_buf := result_buf, rq_len := result_len, rq_offset := offset,
                rq_fd := fd, rq_op := op, rq_linked := (flags AND FASYNC_SQE_IO_LINK \<noteq> 0)\<rparr>) U2
     in U3\<lparr>g_inflight := g_inflight U3 + 1\<rparr>)"

definition fasync_push_sqe :: "kernel \<Rightarrow> 8 word \<Rightarrow> int \<Rightarrow> u64 \<Rightarrow> u64 \<Rightarrow> u64 \<Rightarrow> addr \<Rightarrow> u64 \<Rightarrow> 8 word \<Rightarrow>
    uring \<Rightarrow> fasync_id \<times> uring" where
  "fasync_push_sqe K op fd a len offset result_buf result_len flags U =
    (if len > FASYNC_MAX_LEN
     then (0, U\<lparr>g_last_error := ''sqe length does not fit in 32 bits''\<rparr>)
     else case fasync_ensure_ring K U of (rc, U0) \<Rightarrow>
       if rc < 0 then (0, U0)
       else if fd = ring_fd (g_ring U0)
       then (0, U0\<lparr>g_last_error := ''fd is the io_uring ring's own descriptor'', errno := EBADF\<rparr>)
       else case fasync_req_alloc U0 of
           (None, U1) \<Rightarrow> (0, U1\<lparr>g_last_error := ''request table full'', errno := EAGAIN\<rparr>)
         | (Some s, U1) \<Rightarrow>
             (case fasync_get_sqe K U1 of
                (None, U2) \<Rightarrow> (0, fasync_req_release s U2)
              | (Some sqe, U2) \<Rightarrow>
                  let U3 = push_request op fd a len offset result_buf result_len flags s sqe U2
                  in (rq_id (req_slots U3 s), U3)))"

definition fasync_push_buf :: "kernel \<Rightarrow> 8 word \<Rightarrow> int \<Rightarrow> addr \<Rightarrow> u64 \<Rightarrow> u64 \<Rightarrow> 8 word \<Rightarrow> uring \<Rightarrow>
    fasync_id \<times> uring" where
  "fasync_push_buf K op fd buf len offset flags U =
     fasync_push_sqe K op fd buf len offset buf len flags U"

section \<open>Draining completions\<close>

definition reap_one :: "fasync_cqe \<Rightarrow> uring \<Rightarrow> uring" where
  "reap_one cqe U =
    (let index = id_index (cqe_user_data cqe) in
     if index < FASYNC_MAX_INFLIGHT
     then let r = req_slots U index in
       if rq_state r = FASYNC_REQ_PENDING \<and> rq_id r = cqe_user_data cqe
       then (upd_slot index (\<lambda>r. r\<lparr>rq_result := cqe_res cqe,
               rq_state := (if cqe_res cqe < 0 then FASYNC_REQ_FAILED else FASYNC_REQ_DONE)\<rparr>) U)
              \<lparr>g_inflight := g_inflight U - 1\<rparr>
       else U
     else U)"

definition fasync_native_drain :: "uring \<Rightarrow> uring" where
  "fasync_native_drain U =
    (if \<not> ready (g_ring U) then U
     else
       let U1 = upd_stats (\<lambda>t. t\<lparr>userspace_cq_polls := userspace_cq_polls t + 1\<rparr>) U;
           msk = cq_mask (g_ring U); head = local_cq_head (g_ring U); tail = cq_tail (g_ring U);
           (U2, count) = ring_walk (\<lambda>h (V, c). (reap_one (cqes (g_ring V) (h AND msk)) V, c + 1)) head tail (U1, 0::u32);
           U3 = upd_ring (\<lambda>r. r\<lparr>local_cq_head := tail, cq_head := tail\<rparr>) U2
       in upd_stats (\<lambda>t. t\<lparr>completions_reaped := completions_reaped t + ucast count\<rparr>) U3)"

definition fasync_poll :: "uring \<Rightarrow> uring" where
  "fasync_poll U = fasync_native_drain U"

text \<open>\<open>wake\<close> is what the kernel does to the rings while the thread sleeps in \<open>io_uring_enter\<close>.\<close>

definition fasync_block :: "(uring \<Rightarrow> uring) \<Rightarrow> uring \<Rightarrow> uring" where
  "fasync_block wake U =
    (if \<not> ready (g_ring U) then U
     else fasync_native_drain (wake (upd_stats (\<lambda>t. t\<lparr>parks := parks t + 1,
            kernel_wait_entries := kernel_wait_entries t + 1\<rparr>) U)))"

fun wait_all_loop :: "nat \<Rightarrow> (uring \<Rightarrow> uring) \<Rightarrow> uring \<Rightarrow> int \<times> uring" where
  "wait_all_loop 0 wake U = (- 1, U)"
| "wait_all_loop (Suc spin) wake U =
    (if g_inflight U = 0 then (0, U)
     else let U1 = fasync_poll U in
       if g_inflight U1 = 0 then (0, U1)
       else wait_all_loop spin wake (fasync_block wake U1))"

text \<open>The spin bound of \<open>fasync_wait_all_locked\<close>.\<close>

definition SPIN_LIMIT :: nat where "SPIN_LIMIT = 100000000"

definition fasync_wait_all :: "kernel \<Rightarrow> (uring \<Rightarrow> uring) \<Rightarrow> uring \<Rightarrow> int \<times> uring" where
  "fasync_wait_all K wake U = wait_all_loop SPIN_LIMIT wake (snd (fasync_submit_locked K U))"

section \<open>Provenance\<close>

record fasync_prov =
  prov_req :: fasync_id
  prov_offset :: u64
  prov_len :: u64

definition fasync_provenance :: "addr \<Rightarrow> u64 \<Rightarrow> fasync_prov option \<Rightarrow> uring \<Rightarrow> bool \<times> fasync_prov option" where
  "fasync_provenance p sz out U =
    (case (fasync_find_covering p sz U, out) of
       (Some i, Some _) \<Rightarrow>
         (True, Some \<lparr>prov_req = rq_id (req_slots U i), prov_offset = p - rq_buf (req_slots U i),
                      prov_len = rq_len (req_slots U i)\<rparr>)
     | _ \<Rightarrow> (False, out))"

definition fasync_derive :: "addr \<Rightarrow> u64 \<Rightarrow> u64 \<Rightarrow> fasync_prov option \<Rightarrow> uring \<Rightarrow> addr \<times> fasync_prov option" where
  "fasync_derive base offset len out U =
    (let derived = base + offset in
     case out of
       None \<Rightarrow> (derived, None)
     | Some _ \<Rightarrow>
         (case fasync_provenance derived len out U of
            (True, out') \<Rightarrow> (derived, out')
          | (False, _) \<Rightarrow> (derived, Some \<lparr>prov_req = 0, prov_offset = offset, prov_len = len\<rparr>)))"

end
