(* ===== verification/Uring.thy ===== *)
theory Uring
  imports Waits Requests
begin

text \<open>
  The io_uring runtime: the system calls of \<^verbatim>\<open>fasync_syscalls.c\<close> over the request
  layer, with the table of pending opens, and the runtime of \<^verbatim>\<open>filc_async_uring.c\<close>
  that the framework submits to and polls.  An operation runs on a world, the framework's state
  and the runtime's.  The runtime's lock is recursive and held through each operation here, so
  it does not appear.

  What lies outside the sources is the record \<^verbatim>\<open>os\<close>: the kernel's answers and
  what it does to the rings while a thread sleeps, the memory a path is read from, and the
  two bounds checks of Fil-C.
\<close>

definition FASYNC_MAX_PENDING_FDS :: nat where "FASYNC_MAX_PENDING_FDS = 64"

definition UINT_MAX :: u64 where "UINT_MAX = 0xFFFFFFFF"

definition EINVAL :: int where "EINVAL = 22"
definition EFAULT :: int where "EFAULT = 14"
definition EIO :: int where "EIO = 5"
definition ENAMETOOLONG :: int where "ENAMETOOLONG = 36"
definition EOVERFLOW :: int where "EOVERFLOW = 75"
definition EOPNOTSUPP :: int where "EOPNOTSUPP = 95"

lemmas errno_consts = EINVAL_def EFAULT_def EIO_def ENAMETOOLONG_def EOVERFLOW_def EOPNOTSUPP_def
  EAGAIN_def EBADF_def ENOMEM_def

record fasync_pending_fd =
  pf_used :: bool
  pf_resolved :: bool
  pf_id :: fasync_id
  pf_result :: int

datatype uring_op = URING_OP_UNKNOWN | URING_OP_READ | URING_OP_WRITE | URING_OP_FSYNC
  | URING_OP_CLOSE | URING_OP_OPENAT | URING_OP_IGNORE

record uring_call =
  uc_task :: addr
  uc_request :: fasync_id
  uc_op :: uring_op
  uc_explicit_read :: bool
  uc_finished :: bool

definition call_zero :: uring_call where
  "call_zero = \<lparr>uc_task = 0, uc_request = 0, uc_op = URING_OP_UNKNOWN, uc_explicit_read = False,
     uc_finished = False\<rparr>"

text \<open>The links \<open>newer\<close> and \<open>older\<close> of the calls, with \<open>g_newest\<close> and \<open>g_oldest\<close>, are \<open>call_list\<close>;
  \<open>call_answers\<close> is what \<open>filc_async_alloc\<close> will answer to the runtime.\<close>

record rt =
  ur :: uring
  g_pending_fds :: "nat \<Rightarrow> fasync_pending_fd"
  calls :: "addr \<Rightarrow> uring_call"
  call_list :: dll
  call_answers :: "addr list"

type_synonym rt_body = "thread \<Rightarrow> addr \<Rightarrow> rt world \<Rightarrow> (u64 \<times> rt world) outcome"

text \<open>What lies outside the runtime: the kernel, its effect on a sleeping thread, memory and its
  checks, the address of the runtime's own descriptor, and the functions behind the stubs'
  \<open>run\<close> pointers.\<close>

record os =
  os_kernel :: kernel
  os_wake :: "uring \<Rightarrow> uring"
  os_memory :: "addr \<Rightarrow> 8 word"
  os_zcheck :: "zptr \<Rightarrow> u64 \<Rightarrow> bool"
  os_zcheck_readonly :: "zptr \<Rightarrow> u64 \<Rightarrow> bool"
  os_fuel :: nat
  os_runtime :: runtime_ref
  os_body :: "addr \<Rightarrow> rt_body option"

abbreviation upd_rt :: "(rt \<Rightarrow> rt) \<Rightarrow> rt world \<Rightarrow> rt world" where
  "upd_rt f w \<equiv> (fst w, f (snd w))"

abbreviation set_ur :: "uring \<Rightarrow> rt world \<Rightarrow> rt world" where
  "set_ur U w \<equiv> upd_rt (\<lambda>r. r\<lparr>ur := U\<rparr>) w"

abbreviation ur_of :: "rt world \<Rightarrow> uring" where
  "ur_of w \<equiv> ur (snd w)"

abbreviation set_errno :: "int \<Rightarrow> rt world \<Rightarrow> rt world" where
  "set_errno e w \<equiv> upd_rt (\<lambda>r. r\<lparr>ur := (ur r)\<lparr>errno := e\<rparr>\<rparr>) w"

abbreviation upd_call :: "addr \<Rightarrow> (uring_call \<Rightarrow> uring_call) \<Rightarrow> rt world \<Rightarrow> rt world" where
  "upd_call c f w \<equiv> upd_rt (\<lambda>r. r\<lparr>calls := (calls r)(c := f (calls r c))\<rparr>) w"

text \<open>A C \<open>long\<close> passed as the framework's result word.\<close>

definition complete_with :: "addr \<Rightarrow> int \<Rightarrow> rt world \<Rightarrow> rt world outcome" where
  "complete_with t result w =
     res_bind (filc_async_complete t (word_of_int result) (fst w)) (\<lambda>s. Inr (s, snd w))"

section \<open>Pending opens\<close>

definition fasync_pending_fd_new :: "fasync_id \<Rightarrow> rt \<Rightarrow> int \<times> rt" where
  "fasync_pending_fd_new i r =
    (case List.find (\<lambda>k. \<not> pf_used (g_pending_fds r k)) [0..<FASYNC_MAX_PENDING_FDS] of
       None \<Rightarrow> (- 1, r)
     | Some k \<Rightarrow> (- (int k + 2),
         r\<lparr>g_pending_fds := (g_pending_fds r)(k := (g_pending_fds r k)\<lparr>pf_used := True, pf_resolved := False, pf_id := i\<rparr>)\<rparr>))"

definition fasync_pending_fd_lookup :: "int \<Rightarrow> rt \<Rightarrow> nat option" where
  "fasync_pending_fd_lookup fd r =
    (if fd \<ge> - 1 \<or> fd < - (int FASYNC_MAX_PENDING_FDS + 1) then None
     else let k = nat (- fd - 2) in if pf_used (g_pending_fds r k) then Some k else None)"

section \<open>Waiting for a request\<close>

fun req_wait_loop :: "nat \<Rightarrow> (uring \<Rightarrow> uring) \<Rightarrow> nat \<Rightarrow> uring \<Rightarrow> uring outcome" where
  "req_wait_loop n wake s U =
    (if rq_state (req_slots U s) \<noteq> FASYNC_REQ_PENDING then Inr U
     else case n of 0 \<Rightarrow> Inl No_Return
     | Suc k \<Rightarrow>
         let U1 = fasync_poll U in
         req_wait_loop k wake s
           (if rq_state (req_slots U1 s) = FASYNC_REQ_PENDING then fasync_block wake U1 else U1))"

declare req_wait_loop.simps [simp del]

definition fasync_req_wait :: "os \<Rightarrow> nat \<Rightarrow> uring \<Rightarrow> (int \<times> uring) outcome" where
  "fasync_req_wait Os s U =
    (let U0 = (if rq_state (req_slots U s) = FASYNC_REQ_PENDING
               then snd (fasync_submit (os_kernel Os) U) else U) in
     res_bind (req_wait_loop (os_fuel Os) (os_wake Os) s U0)
       (\<lambda>U1. Inr (rq_result (req_slots U1 s), U1)))"

definition fasync_ready :: "fasync_id \<Rightarrow> uring \<Rightarrow> bool \<times> uring" where
  "fasync_ready i U =
    (case fasync_req_lookup i U of
       None \<Rightarrow> (False, U)
     | Some s \<Rightarrow>
         let U1 = (if rq_state (req_slots U s) = FASYNC_REQ_PENDING then fasync_poll U else U)
         in (rq_state (req_slots U1 s) \<noteq> FASYNC_REQ_PENDING, U1))"

definition fasync_result :: "os \<Rightarrow> fasync_id \<Rightarrow> rt world \<Rightarrow> (int \<times> rt world) outcome" where
  "fasync_result Os i w =
    (case fasync_req_lookup i (ur_of w) of
       None \<Rightarrow> Inr (- EINVAL, w)
     | Some s \<Rightarrow>
         res_bind (fasync_req_wait Os s (ur_of w)) (\<lambda>(result, U).
           let task = rq_task (req_slots U s) in
           res_bind (if task \<noteq> 0
                     then complete_with task result (set_ur (upd_slot s (\<lambda>r. r\<lparr>rq_task := 0\<rparr>) U) w)
                     else Inr (set_ur U w))
             (\<lambda>w1. Inr (result, set_ur (fasync_req_release s (ur_of w1)) w1))))"

definition fasync_fd_resolve :: "os \<Rightarrow> int \<Rightarrow> rt world \<Rightarrow> (int \<times> rt world) outcome" where
  "fasync_fd_resolve Os fd w =
    (if fd \<ge> 0 then Inr (fd, w)
     else case fasync_pending_fd_lookup fd (snd w) of
         None \<Rightarrow> Inr (- EBADF, w)
       | Some k \<Rightarrow>
           let p = g_pending_fds (snd w) k in
           if pf_resolved p then Inr (pf_result p, w)
           else res_bind (fasync_result Os (pf_id p) w) (\<lambda>(result, w1).
             Inr (result, upd_rt (\<lambda>r. r\<lparr>g_pending_fds := (g_pending_fds r)
                    (k := (g_pending_fds r k)\<lparr>pf_result := result, pf_resolved := True\<rparr>)\<rparr>) w1)))"

section \<open>Queueing system calls\<close>

text \<open>\<open>(int)\<close> of a \<open>long\<close>.\<close>

definition to_int32 :: "int \<Rightarrow> int" where
  "to_int32 x = sint (word_of_int x :: u32)"

definition push_world :: "(uring \<Rightarrow> fasync_id \<times> uring) \<Rightarrow> rt world \<Rightarrow> fasync_id \<times> rt world" where
  "push_world push w = (case push (ur_of w) of (i, U) \<Rightarrow> (i, set_ur U w))"

text \<open>What every call on a descriptor does first: resolve it, and fail with its error.\<close>

definition with_fd :: "os \<Rightarrow> int \<Rightarrow> (int \<Rightarrow> rt world \<Rightarrow> (fasync_id \<times> rt world) outcome) \<Rightarrow> rt world \<Rightarrow>
    (fasync_id \<times> rt world) outcome" where
  "with_fd Os fd k w =
     res_bind (fasync_fd_resolve Os fd w) (\<lambda>(real, w1).
       if real < 0 then Inr (0, set_errno (to_int32 (- real)) w1)
       else k (to_int32 real) w1)"

definition fasync_do_pread :: "os \<Rightarrow> int \<Rightarrow> zptr \<Rightarrow> u64 \<Rightarrow> u64 \<Rightarrow> rt world \<Rightarrow> (fasync_id \<times> rt world) outcome" where
  "fasync_do_pread Os fd buf len offset w =
     with_fd Os fd (\<lambda>fd w1.
       if \<not> os_zcheck Os buf len then Inl (Fatal ''zcheck'')
       else Inr (push_world (fasync_push_buf (os_kernel Os) FASYNC_OP_READ fd (zaddr buf) len offset 0) w1)) w"

definition fasync_do_pwrite :: "os \<Rightarrow> int \<Rightarrow> zptr \<Rightarrow> u64 \<Rightarrow> u64 \<Rightarrow> rt world \<Rightarrow> (fasync_id \<times> rt world) outcome" where
  "fasync_do_pwrite Os fd buf len offset w =
     with_fd Os fd (\<lambda>fd w1.
       if \<not> os_zcheck_readonly Os buf len then Inl (Fatal ''zcheck'')
       else Inr (push_world (fasync_push_sqe (os_kernel Os) FASYNC_OP_WRITE fd (zaddr buf) len offset 0 0 0) w1)) w"

definition fasync_fsync :: "os \<Rightarrow> int \<Rightarrow> rt world \<Rightarrow> (fasync_id \<times> rt world) outcome" where
  "fasync_fsync Os fd w =
     with_fd Os fd (\<lambda>fd w1. Inr (push_world (fasync_push_sqe (os_kernel Os) FASYNC_OP_FSYNC fd 0 0 0 0 0 0) w1)) w"

definition drop_pending :: "nat option \<Rightarrow> rt world \<Rightarrow> rt world" where
  "drop_pending p w =
    (case p of None \<Rightarrow> w
     | Some k \<Rightarrow> upd_rt (\<lambda>r. r\<lparr>g_pending_fds := (g_pending_fds r)(k := (g_pending_fds r k)\<lparr>pf_used := False\<rparr>)\<rparr>) w)"

definition fasync_close_locked :: "os \<Rightarrow> int \<Rightarrow> rt world \<Rightarrow> (fasync_id \<times> rt world) outcome" where
  "fasync_close_locked Os fd w =
    (let p = fasync_pending_fd_lookup fd (snd w) in
     res_bind (fasync_fd_resolve Os fd w) (\<lambda>(real, w1).
       if real < 0 then Inr (0, set_errno (to_int32 (- real)) (drop_pending p w1))
       else case push_world (fasync_push_sqe (os_kernel Os) FASYNC_OP_CLOSE (to_int32 real) 0 0 0 0 0 0) w1 of
           (i, w2) \<Rightarrow> Inr (i, if i \<noteq> 0 then drop_pending p w2 else w2)))"

definition fasync_close :: "os \<Rightarrow> int \<Rightarrow> rt world \<Rightarrow> (fasync_id \<times> rt world) outcome" where
  "fasync_close Os fd w = fasync_close_locked Os fd w"

text \<open>The scan for the terminator: \<open>i\<close>, with \<open>n\<close> bytes left of \<open>available\<close>.\<close>

fun path_scan :: "(addr \<Rightarrow> 8 word) \<Rightarrow> addr \<Rightarrow> nat \<Rightarrow> nat \<Rightarrow> nat" where
  "path_scan mem path 0 i = i"
| "path_scan mem path (Suc n) i = (if mem (path + of_nat i) \<noteq> 0 then path_scan mem path n (Suc i) else i)"

definition PATH_LIMIT :: nat where "PATH_LIMIT = 4096"

definition fasync_do_openat :: "os \<Rightarrow> int \<Rightarrow> zptr \<Rightarrow> int \<Rightarrow> int \<Rightarrow> rt world \<Rightarrow> (fasync_id \<times> rt world) outcome" where
  "fasync_do_openat Os dirfd path flags mode w =
    (if zaddr path = 0 then Inr (0, set_errno EFAULT w)
     else if zupper path \<le> zaddr path then Inr (0, set_errno EFAULT w)
     else
       let available = min (unat (zupper path - zaddr path)) PATH_LIMIT in
       if \<not> os_zcheck_readonly Os path (of_nat available) then Inl (Fatal ''zcheck'')
       else if path_scan (os_memory Os) (zaddr path) available 0 = available
       then Inr (0, set_errno ENAMETOOLONG w)
       else Inr (push_world (fasync_push_sqe (os_kernel Os) FASYNC_OP_OPENAT dirfd (zaddr path)
                  (ucast (word_of_int mode :: u32)) (word_of_int flags) 0 0 0) w))"

section \<open>The runtime's ops\<close>

definition FILC_ASYNC_ARG_IGNORED :: u32 where "FILC_ASYNC_ARG_IGNORED = 0"
definition FILC_ASYNC_ARG_BUFFER_IN :: u32 where "FILC_ASYNC_ARG_BUFFER_IN = 2"
definition FILC_ASYNC_ARG_BUFFER_OUT :: u32 where "FILC_ASYNC_ARG_BUFFER_OUT = 3"
definition FILC_ASYNC_ARG_PENDING :: u32 where "FILC_ASYNC_ARG_PENDING = 5"

lemmas arg_kinds = FILC_ASYNC_ARG_IGNORED_def FILC_ASYNC_ARG_BUFFER_IN_def FILC_ASYNC_ARG_BUFFER_OUT_def
  FILC_ASYNC_ARG_PENDING_def

text \<open>\<open>streq\<close> on strings, the terminator being the end of the list.\<close>

fun streq_loop :: "string \<Rightarrow> string \<Rightarrow> bool" where
  "streq_loop (a # as) (b # bs) = (a = b \<and> streq_loop as bs)"
| "streq_loop [] [] = True"
| "streq_loop _ _ = False"

definition streq :: "string option \<Rightarrow> string option \<Rightarrow> bool" where
  "streq a b = (case (a, b) of (Some x, Some y) \<Rightarrow> streq_loop x y | _ \<Rightarrow> a = b)"

definition op_value :: "string \<Rightarrow> uring_op" where
  "op_value v =
    (if streq (Some v) (Some ''pread'') then URING_OP_READ
     else if streq (Some v) (Some ''pwrite'') then URING_OP_WRITE
     else if streq (Some v) (Some ''fsync'') then URING_OP_FSYNC
     else if streq (Some v) (Some ''close'') then URING_OP_CLOSE
     else if streq (Some v) (Some ''openat'') then URING_OP_OPENAT
     else if streq (Some v) (Some ''ignore'') then URING_OP_IGNORE
     else URING_OP_UNKNOWN)"

fun op_from :: "string list \<Rightarrow> uring_op" where
  "op_from [] = URING_OP_UNKNOWN"
| "op_from (s # opts) = (if take 3 s \<noteq> ''op='' then op_from opts else op_value (drop 3 s))"

definition is_output_kind :: "u32 \<Rightarrow> bool" where
  "is_output_kind kind \<longleftrightarrow> kind = FILC_ASYNC_ARG_BUFFER_OUT \<or> kind = FILC_ASYNC_ARG_PENDING"

definition is_input_kind :: "u32 \<Rightarrow> bool" where
  "is_input_kind kind \<longleftrightarrow> kind = FILC_ASYNC_ARG_BUFFER_IN \<or> kind = FILC_ASYNC_ARG_PENDING"

definition completion_args_ok :: "filc_async_meta \<Rightarrow> nat \<Rightarrow> bool" where
  "completion_args_ok m required \<longleftrightarrow> \<not> unat (m_nargs m) < required \<and>
     list_all (\<lambda>i. is_output_kind (a_kind (m_args m ! i))) [required..<unat (m_nargs m)]"

definition shape_ok :: "filc_async_meta \<Rightarrow> uring_op \<Rightarrow> bool" where
  "shape_ok m op \<longleftrightarrow>
    (if op = URING_OP_IGNORE then True
     else if m_nargs m = 0 \<or> a_kind (m_args m ! 0) \<noteq> FILC_ASYNC_ARG_IGNORED then False
     else (case op of
         URING_OP_READ \<Rightarrow> completion_args_ok m 4 \<and> is_output_kind (a_kind (m_args m ! 1)) \<and>
           a_kind (m_args m ! 2) = FILC_ASYNC_ARG_IGNORED \<and> a_kind (m_args m ! 3) = FILC_ASYNC_ARG_IGNORED
       | URING_OP_WRITE \<Rightarrow> completion_args_ok m 4 \<and> is_input_kind (a_kind (m_args m ! 1)) \<and>
           a_kind (m_args m ! 2) = FILC_ASYNC_ARG_IGNORED \<and> a_kind (m_args m ! 3) = FILC_ASYNC_ARG_IGNORED
       | URING_OP_OPENAT \<Rightarrow> completion_args_ok m 4 \<and> is_input_kind (a_kind (m_args m ! 1)) \<and>
           a_kind (m_args m ! 2) = FILC_ASYNC_ARG_IGNORED \<and> a_kind (m_args m ! 3) = FILC_ASYNC_ARG_IGNORED
       | URING_OP_FSYNC \<Rightarrow> completion_args_ok m 1
       | URING_OP_CLOSE \<Rightarrow> completion_args_ok m 1
       | _ \<Rightarrow> False))"

definition uring_validate :: "filc_async_meta option \<Rightarrow> bool" where
  "uring_validate meta =
    (case meta of
       None \<Rightarrow> False
     | Some m \<Rightarrow> let op = op_from (m_opts m) in if op = URING_OP_UNKNOWN then False else shape_ok m op)"

text \<open>The staged cells; a read outside the array stops a Fil-C program.\<close>

definition arg_ptr :: "zptr list \<Rightarrow> nat \<Rightarrow> zptr outcome" where
  "arg_ptr args i = (if i < length args then Inr (args ! i) else Inl (Fatal ''out of bounds''))"

definition arg_word :: "zptr list \<Rightarrow> nat \<Rightarrow> u64 outcome" where
  "arg_word args i = map_sum id zaddr (arg_ptr args i)"

definition word_int :: "u64 \<Rightarrow> int" where
  "word_int x = sint (ucast x :: u32)"

definition dispatch :: "os \<Rightarrow> uring_op \<Rightarrow> zptr list \<Rightarrow> rt world \<Rightarrow> (fasync_id \<times> rt world) outcome" where
  "dispatch Os op args w =
     res_bind (arg_word args 0) (\<lambda>a0. let fd = word_int a0 in
       case op of
         URING_OP_READ \<Rightarrow> res_bind (arg_ptr args 1) (\<lambda>p. res_bind (arg_word args 2) (\<lambda>len.
           res_bind (arg_word args 3) (\<lambda>off. fasync_do_pread Os fd p len off w)))
       | URING_OP_WRITE \<Rightarrow> res_bind (arg_ptr args 1) (\<lambda>p. res_bind (arg_word args 2) (\<lambda>len.
           res_bind (arg_word args 3) (\<lambda>off. fasync_do_pwrite Os fd p len off w)))
       | URING_OP_OPENAT \<Rightarrow> res_bind (arg_ptr args 1) (\<lambda>p. res_bind (arg_word args 2) (\<lambda>fl.
           res_bind (arg_word args 3) (\<lambda>md. fasync_do_openat Os fd p (word_int fl) (word_int md) w)))
       | URING_OP_FSYNC \<Rightarrow> fasync_fsync Os fd w
       | URING_OP_CLOSE \<Rightarrow> fasync_close Os fd w
       | _ \<Rightarrow> Inr (0, w))"

section \<open>Calls in flight\<close>

definition list_add :: "addr \<Rightarrow> rt world \<Rightarrow> rt world" where
  "list_add c w = upd_rt (\<lambda>r. r\<lparr>call_list := dll_add c (call_list r)\<rparr>) w"

definition list_remove :: "addr \<Rightarrow> rt world \<Rightarrow> rt world" where
  "list_remove c w = upd_rt (\<lambda>r. r\<lparr>call_list := dll_remove c (call_list r)\<rparr>) w"

definition finish :: "os \<Rightarrow> addr \<Rightarrow> rt world \<Rightarrow> rt world outcome" where
  "finish Os c w =
    (let k = calls (snd w) c in
     if uc_finished k then Inr w
     else
       let w1 = upd_call c (\<lambda>k. k\<lparr>uc_finished := True\<rparr>) w in
       if uc_explicit_read k
       then (case fasync_req_lookup (uc_request k) (ur_of w1) of
               None \<Rightarrow> complete_with (uc_task k) (- EINVAL) w1
             | Some s \<Rightarrow> res_bind (fasync_req_wait Os s (ur_of w1))
                 (\<lambda>(result, U). complete_with (uc_task k) result (set_ur U w1)))
       else res_bind (if uc_op k = URING_OP_IGNORE then Inr (- EOPNOTSUPP, w1)
                      else fasync_result Os (uc_request k) w1)
              (\<lambda>(result, w2). complete_with (uc_task k) result
                 (if uc_request k \<noteq> 0 then list_remove c w2 else w2)))"

definition alloc_call :: "string \<Rightarrow> rt \<Rightarrow> (addr \<times> rt) outcome" where
  "alloc_call msg r =
    (case call_answers r of
       [] \<Rightarrow> Inl (Fatal msg)
     | c # rest \<Rightarrow> if c = 0 then Inl (Fatal msg)
         else Inr (c, r\<lparr>call_answers := rest, calls := (calls r)(c := call_zero)\<rparr>))"

definition task_runtime_data :: "fw \<Rightarrow> addr \<Rightarrow> addr" where
  "task_runtime_data s t = t_runtime_data (tasks (tk s) t)"

definition fasync_track_read :: "os \<Rightarrow> fasync_id \<Rightarrow> zptr \<Rightarrow> rt world \<Rightarrow> rt world outcome" where
  "fasync_track_read Os i buf w =
    (case fasync_req_lookup i (ur_of w) of
       None \<Rightarrow> Inr w
     | Some s \<Rightarrow>
         res_bind (alloc_call ''fasync_pread: out of memory'' (snd w)) (\<lambda>(c, r).
         res_bind (filc_async_task_new (os_runtime Os) (fst w)) (\<lambda>(t, fw1).
           let r1 = r\<lparr>calls := (calls r)(c := call_zero\<lparr>uc_task := t, uc_request := i,
                        uc_op := URING_OP_READ, uc_explicit_read := True\<rparr>)\<rparr>;
               r2 = r1\<lparr>ur := upd_slot s (\<lambda>q. q\<lparr>rq_task := t\<rparr>) (ur r1)\<rparr>
           in res_bind (filc_async_mark_shared t buf (set_runtime_data t c fw1)) (\<lambda>fw2. Inr (fw2, r2)))))"

text \<open>The walk from the oldest call, which reads a call's link after finishing it.\<close>

fun reclaim_loop :: "nat \<Rightarrow> os \<Rightarrow> bool \<Rightarrow> addr \<Rightarrow> rt world \<Rightarrow> (bool \<times> rt world) outcome" where
  "reclaim_loop n Os reclaimed c w =
    (if c = 0 then Inr (reclaimed, w)
     else case n of 0 \<Rightarrow> Inl No_Return
     | Suc m \<Rightarrow>
       (case fasync_ready (uc_request (calls (snd w) c)) (ur_of w) of
          (rdy, U) \<Rightarrow>
            if \<not> rdy
            then (if \<not> reclaimed
                  then map_sum id (Pair True) (finish Os c (set_ur (snd (fasync_submit (os_kernel Os) U)) w))
                  else Inr (True, set_ur U w))
            else res_bind (finish Os c (set_ur U w))
                   (\<lambda>w1. reclaim_loop m Os True (newer (call_list (snd w1)) c) w1)))"

declare reclaim_loop.simps [simp del]

definition reclaim :: "os \<Rightarrow> rt world \<Rightarrow> (bool \<times> rt world) outcome" where
  "reclaim Os w = reclaim_loop (os_fuel Os) Os False (oldest (call_list (snd w))) w"

text \<open>The loop that queues a request, making room when the table is full.\<close>

fun queue_loop :: "nat \<Rightarrow> os \<Rightarrow> addr \<Rightarrow> addr \<Rightarrow> rt world \<Rightarrow> rt world outcome" where
  "queue_loop n Os c staged_args w =
    (let k = calls (snd w) c in
     res_bind (dispatch Os (uc_op k) (staged (tk (fst w)) staged_args) (set_errno 0 w)) (\<lambda>(i, w1).
       let w2 = upd_call c (\<lambda>k. k\<lparr>uc_request := i\<rparr>) w1; e = errno (ur_of w2) in
       if i \<noteq> 0
       then Inr (upd_fw (set_runtime_data (uc_task k) c) (list_add c w2))
       else if e = EAGAIN
       then res_bind (reclaim Os w2) (\<lambda>(again, w3).
              if again then (case n of 0 \<Rightarrow> Inl No_Return | Suc m \<Rightarrow> queue_loop m Os c staged_args w3)
              else let e1 = errno (ur_of w3) in complete_with (uc_task k) (if e1 \<noteq> 0 then - e1 else - EIO) w3)
       else complete_with (uc_task k) (if e \<noteq> 0 then - e else - EIO) w2))"

declare queue_loop.simps [simp del]

definition queue :: "os \<Rightarrow> addr \<Rightarrow> filc_async_meta \<Rightarrow> addr \<Rightarrow> rt world \<Rightarrow> rt world outcome" where
  "queue Os c meta staged_args w =
    (let k = calls (snd w) c; op = uc_op k; args = staged (tk (fst w)) staged_args in
     if op = URING_OP_IGNORE then Inr (upd_fw (set_runtime_data (uc_task k) c) w)
     else if \<not> shape_ok meta op then complete_with (uc_task k) (- EINVAL) w
     else res_bind (if op = URING_OP_READ \<or> op = URING_OP_WRITE then arg_word args 2 else Inr 0) (\<lambda>len.
       if len > UINT_MAX then complete_with (uc_task k) (- EOVERFLOW) w
       else queue_loop (os_fuel Os) Os c staged_args w))"

section \<open>The runtime's entry points\<close>

definition uring_submit :: "nat \<Rightarrow> os \<Rightarrow> rt env \<Rightarrow> thread \<Rightarrow> addr \<Rightarrow> filc_async_meta option \<Rightarrow> rt_body option \<Rightarrow>
    addr \<Rightarrow> u64 \<Rightarrow> rt world \<Rightarrow> rt world outcome" where
  "uring_submit n Os E th task meta run staged_args nargs w =
    (case meta of
       None \<Rightarrow> Inl (Fatal ''io_uring runtime: bad submit'')
     | Some m \<Rightarrow>
         if task = 0 \<or> staged_args = 0 \<or> nargs \<noteq> ucast (m_nargs m)
         then Inl (Fatal ''io_uring runtime: bad submit'')
         else res_bind (filc_async_run th task run staged_args w) (\<lambda>(_, w0).
           res_bind (alloc_call ''io_uring runtime: out of memory'' (snd w0)) (\<lambda>(c, r).
             let op = op_from (m_opts m);
                 w1 = upd_call c (\<lambda>k. k\<lparr>uc_task := task, uc_op := op\<rparr>) (fst w0, r) in
             res_bind (if (op = URING_OP_WRITE \<or> op = URING_OP_OPENAT) \<and> shape_ok m op
                       then res_bind (arg_ptr (staged (tk (fst w1)) staged_args) 1)
                              (\<lambda>p. filc_async_wait_buffer n E th task p w1)
                       else Inr w1)
               (queue Os c m staged_args))))"

definition uring_poll :: "os \<Rightarrow> addr \<Rightarrow> filc_async_poll_mode \<Rightarrow> rt world \<Rightarrow> (bool \<times> rt world) outcome" where
  "uring_poll Os task mode w =
    (let c = task_runtime_data (fst w) task; k = calls (snd w) c in
     if c = 0 then Inr (False, w)
     else if uc_finished k then Inr (True, w)
     else if uc_op k = URING_OP_IGNORE
     then (if mode \<noteq> POLL_CHECK then map_sum id (Pair True) (finish Os c w) else Inr (False, w))
     else
       let (rdy, U) = fasync_ready (uc_request k) (ur_of w); w1 = set_ur U w in
       res_bind (if \<not> rdy \<and> mode \<noteq> POLL_CHECK
                 then (case fasync_submit (os_kernel Os) U of (n, U1) \<Rightarrow>
                   if n < 0 then Inl (Fatal ''io_uring submission failed'')
                   else if mode = POLL_BLOCK then Inr (True, set_ur U1 w1)
                   else case fasync_ready (uc_request k) U1 of (rdy1, U2) \<Rightarrow> Inr (rdy1, set_ur U2 w1))
                 else Inr (rdy, w1))
         (\<lambda>(rdy, w2). if rdy then map_sum id (Pair True) (finish Os c w2) else Inr (False, w2)))"

text \<open>The runtime as the framework sees it, through the descriptor the file ends with.  The program
  links this runtime alone: another runtime's descriptor has no functions to call.  The waits
  inside the runtime see \<open>uring_waits\<close>, the same poll and the same sleep; a wait submits no
  call, so there the submit entry has no effect to model.\<close>

definition uring_waits :: "os \<Rightarrow> (rt world \<Rightarrow> rt world) \<Rightarrow> rt env" where
  "uring_waits Os changed =
    \<lparr>rt_poll = (\<lambda>rt t mode w. if rt = os_runtime Os then uring_poll Os t mode w
                else Inl (Fatal ''call through a null pointer'')),
     rt_submit = (\<lambda>_ _ _ _ _ _ _ _. Inl No_Return), rt_changed = changed\<rparr>"

definition uring_env :: "os \<Rightarrow> (rt world \<Rightarrow> rt world) \<Rightarrow> rt env" where
  "uring_env Os changed = (uring_waits Os changed)
    \<lparr>rt_submit := (\<lambda>rt th t meta run staged_args nargs w.
       if rt = os_runtime Os
       then uring_submit (os_fuel Os) Os (uring_waits Os changed) th t (Some meta) (os_body Os run) staged_args nargs w
       else Inl (Fatal ''call through a null pointer''))\<rparr>"

lemma uring_env_entries:
  "rt_poll (uring_env Os changed) = rt_poll (uring_waits Os changed)"
  "rt_changed (uring_env Os changed) = changed" "rt_changed (uring_waits Os changed) = changed"
  "rt_poll (uring_waits Os changed) rt t mode w =
     (if rt = os_runtime Os then uring_poll Os t mode w else Inl (Fatal ''call through a null pointer''))"
  by (simp_all add: uring_env_def uring_waits_def)

section \<open>The explicit calls\<close>

definition fasync_pread :: "os \<Rightarrow> int \<Rightarrow> zptr \<Rightarrow> u64 \<Rightarrow> u64 \<Rightarrow> rt world \<Rightarrow> (fasync_id \<times> rt world) outcome" where
  "fasync_pread Os fd buf len offset w =
     res_bind (fasync_do_pread Os fd buf len offset w) (\<lambda>(i, w1).
       if i \<noteq> 0 then map_sum id (Pair i) (fasync_track_read Os i buf w1) else Inr (i, w1))"

definition fasync_pwrite :: "nat \<Rightarrow> os \<Rightarrow> rt env \<Rightarrow> thread \<Rightarrow> int \<Rightarrow> zptr \<Rightarrow> u64 \<Rightarrow> u64 \<Rightarrow> rt world \<Rightarrow>
    (fasync_id \<times> rt world) outcome" where
  "fasync_pwrite n Os E th fd buf len offset w =
     res_bind (filc_async_wait_buffer n E th 0 buf w) (fasync_do_pwrite Os fd buf len offset)"

definition fasync_openat :: "nat \<Rightarrow> os \<Rightarrow> rt env \<Rightarrow> thread \<Rightarrow> int \<Rightarrow> zptr \<Rightarrow> int \<Rightarrow> int \<Rightarrow> rt world \<Rightarrow>
    (fasync_id \<times> rt world) outcome" where
  "fasync_openat n Os E th dirfd path flags mode w =
     res_bind (filc_async_wait_buffer n E th 0 path w) (fasync_do_openat Os dirfd path flags mode)"

definition fasync_open_pending :: "nat \<Rightarrow> os \<Rightarrow> rt env \<Rightarrow> thread \<Rightarrow> int \<Rightarrow> zptr \<Rightarrow> int \<Rightarrow> int \<Rightarrow> rt world \<Rightarrow>
    (int \<times> rt world) outcome" where
  "fasync_open_pending n Os E th dirfd path flags mode w =
     res_bind (fasync_openat n Os E th dirfd path flags mode w) (\<lambda>(i, w1).
       if i = 0 then Inr (- 1, w1)
       else case fasync_pending_fd_new i (snd w1) of (handle, r) \<Rightarrow> Inr (handle, (fst w1, r)))"

end
