(* ===== verification/Deps.thy ===== *)
theory Deps
  imports Prelude
begin

text \<open>
  \<^verbatim>\<open>fasync_dep.c\<close>: declared effects of operations, the conflicts between them, the
  dependency graph of a batch, and the scheduler that runs a batch in waves.  The request layer
  the scheduler calls is a parameter, a record of its four functions on a state of any type.
\<close>

section \<open>Conflicts\<close>

definition FASYNC_IN :: u32 where "FASYNC_IN = 0"
definition FASYNC_OUT :: u32 where "FASYNC_OUT = 1"
definition FASYNC_INOUT :: u32 where "FASYNC_INOUT = 2"

lemmas kind_consts = FASYNC_IN_def FASYNC_OUT_def FASYNC_INOUT_def

record fasync_access =
  fa_buf :: zptr
  fa_len :: u64
  fa_kind :: u32
  fa_resource :: u64

record fasync_op =
  op_name :: string
  op_accesses :: "fasync_access list"

record fasync_range =
  rg_lo :: addr
  rg_hi :: addr

definition fasync_capability_range :: "zptr \<Rightarrow> u64 \<Rightarrow> fasync_range" where
  "fasync_capability_range buf len =
    (let stop = zaddr buf + len in
     \<lparr>rg_lo = (if zaddr buf < zlower buf then zaddr buf else zlower buf),
      rg_hi = (if stop > zupper buf then stop else zupper buf)\<rparr>)"

definition fasync_ranges_disjoint :: "fasync_range \<Rightarrow> fasync_range \<Rightarrow> bool" where
  "fasync_ranges_disjoint a b \<longleftrightarrow> rg_hi a \<le> rg_lo b \<or> rg_hi b \<le> rg_lo a"

definition fasync_kind_writes :: "u32 \<Rightarrow> bool" where
  "fasync_kind_writes kind \<longleftrightarrow> kind = FASYNC_OUT \<or> kind = FASYNC_INOUT"

definition fasync_kind_reads :: "u32 \<Rightarrow> bool" where
  "fasync_kind_reads kind \<longleftrightarrow> kind = FASYNC_IN \<or> kind = FASYNC_INOUT"

text \<open>The edge kind, 0 for none, and whether \<open>*auto_disjoint\<close> is set.\<close>

definition edge_kind :: "u32 \<Rightarrow> u32 \<Rightarrow> nat" where
  "edge_kind ka kb =
    (if fasync_kind_writes ka \<and> fasync_kind_writes kb then 3
     else if fasync_kind_writes ka \<and> fasync_kind_reads kb then 1
     else if fasync_kind_reads ka \<and> fasync_kind_writes kb then 2
     else 0)"

definition fasync_access_conflict :: "fasync_access \<Rightarrow> fasync_access \<Rightarrow> nat \<times> bool" where
  "fasync_access_conflict a b =
    (if zaddr (fa_buf a) = 0 \<or> zaddr (fa_buf b) = 0
     then (if zaddr (fa_buf a) \<noteq> 0 \<or> zaddr (fa_buf b) \<noteq> 0 then (0, False)
           else if fa_resource a \<noteq> fa_resource b then (0, True)
           else (edge_kind (fa_kind a) (fa_kind b), False))
     else if fasync_ranges_disjoint (fasync_capability_range (fa_buf a) (fa_len a))
               (fasync_capability_range (fa_buf b) (fa_len b)) then (0, True)
     else (edge_kind (fa_kind a) (fa_kind b), False))"

definition declared_conflict :: "u32 \<Rightarrow> u32 \<Rightarrow> bool" where
  "declared_conflict ka kb \<longleftrightarrow>
     fasync_kind_writes ka \<and> (fasync_kind_writes kb \<or> fasync_kind_reads kb) \<or>
     fasync_kind_reads ka \<and> fasync_kind_writes kb"

record conflict_scan =
  strongest :: nat
  any_dissolved :: bool
  any_declared_conflict :: bool

definition scan_pair :: "fasync_access \<times> fasync_access \<Rightarrow> conflict_scan \<Rightarrow> conflict_scan" where
  "scan_pair p s =
    (case p of (aa, bb) \<Rightarrow>
     let declared = declared_conflict (fa_kind aa) (fa_kind bb);
         edge = fst (fasync_access_conflict aa bb);
         s1 = (if edge \<noteq> 0 then s\<lparr>strongest := edge\<rparr> else s);
         s2 = (if declared \<and> edge = 0 then s1\<lparr>any_dissolved := True\<rparr> else s1)
     in if declared \<and> edge \<noteq> 0 then s2\<lparr>any_declared_conflict := True\<rparr> else s2)"

text \<open>The pairs of accesses in the order of the nested loops.\<close>

definition access_pairs :: "fasync_op \<Rightarrow> fasync_op \<Rightarrow> (fasync_access \<times> fasync_access) list" where
  "access_pairs a b = List.product (op_accesses a) (op_accesses b)"

definition fasync_ops_conflict :: "fasync_op \<Rightarrow> fasync_op \<Rightarrow> bool \<times> bool" where
  "fasync_ops_conflict a b =
    (let s = fold scan_pair (access_pairs a b)
               \<lparr>strongest = 0, any_dissolved = False, any_declared_conflict = False\<rparr>
     in (strongest s \<noteq> 0, any_dissolved s \<and> \<not> any_declared_conflict s))"

section \<open>The graph of a batch\<close>

record fasync_dag_stats =
  ds_ops :: u32
  ds_edges :: u32
  ds_declared_edges :: u32
  ds_auto_disjoint_pairs :: u32
  ds_read_write_edges :: u32
  ds_write_read_edges :: u32
  ds_write_write_edges :: u32

definition first_kind :: "fasync_op \<Rightarrow> fasync_op \<Rightarrow> nat" where
  "first_kind a b =
    (case List.find (\<lambda>(x, y). fst (fasync_access_conflict x y) \<noteq> 0) (access_pairs a b) of
       None \<Rightarrow> 0 | Some (x, y) \<Rightarrow> fst (fasync_access_conflict x y))"

definition count_edge :: "nat \<Rightarrow> fasync_dag_stats \<Rightarrow> fasync_dag_stats" where
  "count_edge kind st =
    (let st1 = st\<lparr>ds_edges := ds_edges st + 1, ds_declared_edges := ds_declared_edges st + 1\<rparr> in
     if kind = 1 then st1\<lparr>ds_read_write_edges := ds_read_write_edges st1 + 1\<rparr>
     else if kind = 2 then st1\<lparr>ds_write_read_edges := ds_write_read_edges st1 + 1\<rparr>
     else if kind = 3 then st1\<lparr>ds_write_write_edges := ds_write_write_edges st1 + 1\<rparr>
     else st1)"

text \<open>The pairs \<open>i < j\<close> in loop order, and the edge's number \<open>i * n_ops + j\<close> in 32 bits. The first
  component of the result is the edges written; the count returned is 0 if they did not fit.\<close>

definition op_pairs :: "nat \<Rightarrow> (nat \<times> nat) list" where
  "op_pairs n = [(i, j). i \<leftarrow> [0..<n], j \<leftarrow> [Suc i..<n]]"

definition edge_code :: "nat \<Rightarrow> nat \<times> nat \<Rightarrow> u32" where
  "edge_code n p = of_nat (fst p) * of_nat n + of_nat (snd p)"

fun dag_loop :: "fasync_op list \<Rightarrow> nat \<Rightarrow> (nat \<times> nat) list \<Rightarrow> u32 list \<Rightarrow> fasync_dag_stats \<Rightarrow>
    nat \<times> u32 list \<times> fasync_dag_stats" where
  "dag_loop ops max_edges [] edges st = (length edges, edges, st)"
| "dag_loop ops max_edges ((i, j) # ps) edges st =
    (let (conflict, auto_disjoint) = fasync_ops_conflict (ops ! i) (ops ! j);
         st1 = (if auto_disjoint then st\<lparr>ds_auto_disjoint_pairs := ds_auto_disjoint_pairs st + 1\<rparr> else st)
     in if \<not> conflict then dag_loop ops max_edges ps edges st1
        else if length edges \<ge> max_edges then (0, edges, st1)
        else dag_loop ops max_edges ps (edges @ [edge_code (length ops) (i, j)])
               (count_edge (first_kind (ops ! i) (ops ! j)) st1))"

definition fasync_build_dag :: "fasync_op list \<Rightarrow> nat \<Rightarrow> nat \<times> u32 list \<times> fasync_dag_stats" where
  "fasync_build_dag ops max_edges =
     dag_loop ops max_edges (op_pairs (length ops)) []
       \<lparr>ds_ops = of_nat (length ops), ds_edges = 0, ds_declared_edges = 0, ds_auto_disjoint_pairs = 0,
        ds_read_write_edges = 0, ds_write_read_edges = 0, ds_write_write_edges = 0\<rparr>"

section \<open>Resources\<close>

text \<open>The first \<open>n\<close> entries of the queue, the request and the kind of each, are the list.\<close>

record fasync_tracker =
  tr_resource :: u64
  tr_q :: "(u64 \<times> u32) list"

text \<open>\<open>memory\<close> says whether \<open>malloc\<close> has an answer; the state is \<open>fasync_next_resource\<close>.\<close>

definition fasync_tracker_new :: "bool \<Rightarrow> u64 \<Rightarrow> fasync_tracker option \<times> u64" where
  "fasync_tracker_new memory next_resource =
    (if \<not> memory then (None, next_resource)
     else (Some \<lparr>tr_resource = next_resource, tr_q = []\<rparr>, next_resource + 1))"

definition fasync_tracker_access :: "fasync_tracker option \<Rightarrow> u32 \<Rightarrow> fasync_access" where
  "fasync_tracker_access tracker kind =
     \<lparr>fa_buf = null_ptr, fa_len = 0, fa_kind = kind,
      fa_resource = (case tracker of Some t \<Rightarrow> tr_resource t | None \<Rightarrow> 0)\<rparr>"

section \<open>Running a batch\<close>

record 's request_layer =
  rl_submit_op :: "fasync_op \<Rightarrow> 's \<Rightarrow> u64 \<times> 's"
  rl_submit :: "'s \<Rightarrow> int \<times> 's"
  rl_ready :: "u64 \<Rightarrow> 's \<Rightarrow> bool \<times> 's"
  rl_result :: "u64 \<Rightarrow> 's \<Rightarrow> int \<times> 's"

record fasync_dag_run =
  dr_submitted :: u32
  dr_max_concurrent :: u32
  dr_waves :: u32

text \<open>\<open>dag_log\<close> lists the successful calls of \<open>submit\<close> and the calls of \<open>fasync_result\<close> in order.\<close>

datatype dag_event = Start nat | Done nat

record 's dag =
  in_degree :: "nat \<Rightarrow> u32"
  handles :: "nat \<Rightarrow> u64"
  is_done :: "nat \<Rightarrow> bool"
  started :: "nat \<Rightarrow> bool"
  finished :: u32
  in_flight :: u32
  dag_run :: fasync_dag_run
  dag_log :: "dag_event list"
  dag_state :: 's

definition edge_from :: "nat \<Rightarrow> u32 \<Rightarrow> nat" where "edge_from n e = unat (e div of_nat n)"
definition edge_to :: "nat \<Rightarrow> u32 \<Rightarrow> nat" where "edge_to n e = unat (e mod of_nat n)"

definition dag_start :: "nat \<Rightarrow> u32 list \<Rightarrow> 's \<Rightarrow> 's dag" where
  "dag_start n edges s =
     \<lparr>in_degree = fold (\<lambda>e d. d(edge_to n e := d (edge_to n e) + 1)) edges (\<lambda>_. 0),
      handles = (\<lambda>_. 0), is_done = (\<lambda>_. False), started = (\<lambda>_. False), finished = 0, in_flight = 0,
      dag_run = \<lparr>dr_submitted = 0, dr_max_concurrent = 0, dr_waves = 0\<rparr>, dag_log = [], dag_state = s\<rparr>"

definition start_one :: "'s request_layer \<Rightarrow> fasync_op list \<Rightarrow> nat \<Rightarrow> bool \<times> 's dag \<Rightarrow> bool \<times> 's dag" where
  "start_one L ops i a =
    (case a of (any, D) \<Rightarrow>
     if started D i \<or> in_degree D i \<noteq> 0 then (any, D)
     else let (h, s) = rl_submit_op L (ops ! i) (dag_state D) in
       if h = 0 then (any, D\<lparr>dag_state := s\<rparr>)
       else let fl = in_flight D + 1; run = dag_run D in
         (True, D\<lparr>started := (started D)(i := True), handles := (handles D)(i := h), in_flight := fl,
                  dag_run := run\<lparr>dr_submitted := dr_submitted run + 1,
                    dr_max_concurrent := (if fl > dr_max_concurrent run then fl else dr_max_concurrent run)\<rparr>,
                  dag_log := dag_log D @ [Start i], dag_state := s\<rparr>))"

definition release_edge :: "nat \<Rightarrow> nat \<Rightarrow> u32 \<Rightarrow> (nat \<Rightarrow> u32) \<Rightarrow> (nat \<Rightarrow> u32)" where
  "release_edge n i e d =
    (if edge_from n e = i \<and> d (edge_to n e) \<noteq> 0 then d(edge_to n e := d (edge_to n e) - 1) else d)"

text \<open>The collecting loop: the first operation in flight that is ready; the loop then breaks.\<close>

fun collect :: "'s request_layer \<Rightarrow> nat \<Rightarrow> u32 list \<Rightarrow> nat list \<Rightarrow> 's dag \<Rightarrow> 's dag" where
  "collect L n edges [] D = D"
| "collect L n edges (i # rest) D =
    (if \<not> started D i \<or> is_done D i then collect L n edges rest D
     else let (ok, s) = rl_ready L (handles D i) (dag_state D) in
       if \<not> ok then collect L n edges rest (D\<lparr>dag_state := s\<rparr>)
       else let (_, s1) = rl_result L (handles D i) s in
         D\<lparr>is_done := (is_done D)(i := True), in_flight := in_flight D - 1, finished := finished D + 1,
           in_degree := fold (release_edge n i) edges (in_degree D),
           dag_log := dag_log D @ [Done i], dag_state := s1\<rparr>)"

text \<open>The scheduler's loop: \<open>Inr\<close> with the value returned; fuel bounds the rounds.\<close>

fun dag_rounds :: "nat \<Rightarrow> 's request_layer \<Rightarrow> fasync_op list \<Rightarrow> u32 list \<Rightarrow> 's dag \<Rightarrow> (int \<times> 's dag) outcome" where
  "dag_rounds fuel L ops edges D =
    (let n = length ops in
     if \<not> finished D < of_nat n then Inr (if finished D = of_nat n then 0 else - 1, D)
     else
       let (any, D1) = fold (start_one L ops) [0..<n] (False, D);
           (rc, D2) = (if any
             then let run = dag_run D1; (r, s) = rl_submit L (dag_state D1) in
               (r, D1\<lparr>dag_run := run\<lparr>dr_waves := dr_waves run + 1\<rparr>, dag_state := s\<rparr>)
             else (0, D1))
       in if rc < 0 then Inr (- 1, D2)
          else if in_flight D2 = 0 \<and> \<not> any
          then Inr (if finished D2 = of_nat n then 0 else - 1, D2)
          else (case fuel of
              0 \<Rightarrow> Inl No_Return
            | Suc k \<Rightarrow> dag_rounds k L ops edges
                (if in_flight D2 = 0 then D2 else collect L n edges [0..<n] D2)))"

declare dag_rounds.simps [simp del]

definition fasync_run_dag :: "nat \<Rightarrow> bool \<Rightarrow> 's request_layer \<Rightarrow> fasync_op list \<Rightarrow> u32 list \<Rightarrow> 's \<Rightarrow> (int \<times> 's dag) outcome" where
  "fasync_run_dag fuel memory L ops edges s =
    (if ops = [] then Inr (0, dag_start 0 edges s)
     else if \<not> memory then Inr (- 1, dag_start (length ops) edges s)
     else dag_rounds fuel L ops edges (dag_start (length ops) edges s))"

end
