(* ===== verification/Tokens.thy ===== *)
theory Tokens
  imports Uring Deps
begin

text \<open>
  \<^verbatim>\<open>fasync_token.c\<close>: calls tagged with a tracker wait for the tagged calls before
  them that they conflict with.
\<close>

definition FASYNC_TOKEN_QLEN :: nat where "FASYNC_TOKEN_QLEN = 16"

definition fasync_token_conflicts :: "u32 \<Rightarrow> u32 \<Rightarrow> bool" where
  "fasync_token_conflicts a b \<longleftrightarrow> a = FASYNC_OUT \<or> a = FASYNC_INOUT \<or> b = FASYNC_OUT \<or> b = FASYNC_INOUT"

definition req_pending :: "fasync_id \<Rightarrow> uring \<Rightarrow> bool" where
  "req_pending i U =
    (case fasync_req_lookup i U of None \<Rightarrow> False | Some s \<Rightarrow> rq_state (req_slots U s) = FASYNC_REQ_PENDING)"

text \<open>Waiting for a request that is still pending.\<close>

definition wait_pending :: "os \<Rightarrow> fasync_id \<Rightarrow> uring \<Rightarrow> uring outcome" where
  "wait_pending Os i U =
    (case fasync_req_lookup i U of
       None \<Rightarrow> Inr U
     | Some s \<Rightarrow> if rq_state (req_slots U s) = FASYNC_REQ_PENDING
                 then map_sum id snd (fasync_req_wait Os s U) else Inr U)"

fun token_scan :: "os \<Rightarrow> u32 \<Rightarrow> (u64 \<times> u32) list \<Rightarrow> uring \<Rightarrow> ((u64 \<times> u32) list \<times> uring) outcome" where
  "token_scan Os kind [] U = Inr ([], U)"
| "token_scan Os kind ((i, k) # q) U =
     res_bind (if fasync_token_conflicts k kind then wait_pending Os i U else Inr U) (\<lambda>U1.
       res_bind (token_scan Os kind q U1) (\<lambda>(kept, U2).
         Inr (if req_pending i U1 then (i, k) # kept else kept, U2)))"

definition fasync_token_wait :: "os \<Rightarrow> u32 \<Rightarrow> fasync_tracker option \<Rightarrow> uring \<Rightarrow>
    (fasync_tracker option \<times> uring) outcome" where
  "fasync_token_wait Os kind tok U =
    (case tok of
       None \<Rightarrow> Inr (None, U)
     | Some t \<Rightarrow> res_bind (token_scan Os kind (tr_q t) U) (\<lambda>(q, U1). Inr (Some (t\<lparr>tr_q := q\<rparr>), U1)))"

text \<open>The loop that makes room: wait for the oldest entry, shift the others down.\<close>

fun token_room :: "os \<Rightarrow> (u64 \<times> u32) list \<Rightarrow> uring \<Rightarrow> ((u64 \<times> u32) list \<times> uring) outcome" where
  "token_room Os [] U = Inr ([], U)"
| "token_room Os ((i, k) # q) U =
    (if length ((i, k) # q) \<ge> FASYNC_TOKEN_QLEN
     then res_bind (wait_pending Os i U) (token_room Os q)
     else Inr ((i, k) # q, U))"

definition fasync_token_track :: "os \<Rightarrow> fasync_id \<Rightarrow> u32 \<Rightarrow> fasync_tracker option \<Rightarrow> uring \<Rightarrow>
    (fasync_tracker option \<times> uring) outcome" where
  "fasync_token_track Os i kind tok U =
    (case tok of
       None \<Rightarrow> Inr (None, U)
     | Some t \<Rightarrow> if i = 0 then Inr (tok, U)
         else res_bind (token_room Os (tr_q t) U) (\<lambda>(q, U1). Inr (Some (t\<lparr>tr_q := q @ [(i, kind)]\<rparr>), U1)))"

text \<open>A tagged call: wait for the conflicting calls, issue, track.\<close>

definition tagged :: "os \<Rightarrow> (rt world \<Rightarrow> (fasync_id \<times> rt world) outcome) \<Rightarrow> u32 \<Rightarrow> fasync_tracker option \<Rightarrow>
    rt world \<Rightarrow> (fasync_id \<times> fasync_tracker option \<times> rt world) outcome" where
  "tagged Os issue kind tok w =
     res_bind (fasync_token_wait Os kind tok (ur_of w)) (\<lambda>(tok1, U).
     res_bind (issue (set_ur U w)) (\<lambda>(i, w1).
     res_bind (fasync_token_track Os i kind tok1 (ur_of w1)) (\<lambda>(tok2, U2).
       Inr (i, tok2, set_ur U2 w1))))"

definition fasync_tagged_pread :: "os \<Rightarrow> int \<Rightarrow> zptr \<Rightarrow> u64 \<Rightarrow> u64 \<Rightarrow> fasync_tracker option \<Rightarrow> u32 \<Rightarrow> rt world \<Rightarrow>
    (fasync_id \<times> fasync_tracker option \<times> rt world) outcome" where
  "fasync_tagged_pread Os fd buf len offset tok kind w =
     tagged Os (fasync_pread Os fd buf len offset) kind tok w"

definition fasync_tagged_pwrite :: "nat \<Rightarrow> os \<Rightarrow> rt env \<Rightarrow> thread \<Rightarrow> int \<Rightarrow> zptr \<Rightarrow> u64 \<Rightarrow> u64 \<Rightarrow>
    fasync_tracker option \<Rightarrow> u32 \<Rightarrow> rt world \<Rightarrow> (fasync_id \<times> fasync_tracker option \<times> rt world) outcome" where
  "fasync_tagged_pwrite n Os E th fd buf len offset tok kind w =
     tagged Os (fasync_pwrite n Os E th fd buf len offset) kind tok w"

end
