(* ===== verification/RequestInv.thy ===== *)
theory RequestInv
  imports Requests
begin

text \<open>
  The invariant of the request layer: request ids pack a slot and a generation, the free list,
  the bitmap and the slot states agree, the count of requests in flight is exact, and the
  unpublished entries fit the ring.  Every operation keeps it, and so does every step of the
  relation \<open>uring_step\<close>, in which the kernel posts completions at any time.
\<close>

section \<open>Request ids\<close>

lemma low_mask: "(x :: u64) AND 0xFFFFFFFF = take_bit 32 x"
  by (simp add: take_bit_eq_mask mask_eq_exp_minus_1)

lemma index_bits:
  assumes "i < FASYNC_MAX_INFLIGHT" and "bit i n"
  shows "n < 32"
proof -
  have "i = take_bit 10 i" using assms(1) by (simp add: FASYNC_MAX_INFLIGHT_def take_bit_nat_eq_self)
  then have "bit (take_bit 10 i) n" using assms(2) by simp
  then show ?thesis by (simp add: bit_take_bit_iff)
qed

lemma unat_index: "i < FASYNC_MAX_INFLIGHT \<Longrightarrow> unat (of_nat i :: u64) = i"
  by (simp add: FASYNC_MAX_INFLIGHT_def unat_of_nat take_bit_nat_eq_self)

lemma make_id_index:
  assumes "i < FASYNC_MAX_INFLIGHT"
  shows "id_index (make_id (ucast (g :: u32)) i) = i"
proof -
  have "take_bit 32 (push_bit 32 (ucast g) OR of_nat i :: u64) = of_nat i"
    by (rule bit_word_eqI) (auto simp: bit_simps dest: index_bits [OF assms])
  then show ?thesis by (simp add: id_index_def make_id_def low_mask unat_index [OF assms])
qed

lemma make_id_gen:
  assumes "i < FASYNC_MAX_INFLIGHT"
  shows "id_gen (make_id (ucast (g :: u32)) i) = ucast g"
  unfolding id_gen_def make_id_def
  by (rule bit_word_eqI) (auto simp: bit_simps dest: index_bits [OF assms] bit_imp_le_length)

lemma make_id_nonzero: "i < FASYNC_MAX_INFLIGHT \<Longrightarrow> g \<noteq> 0 \<Longrightarrow> make_id (ucast (g :: u32)) i \<noteq> 0"
proof
  assume i: "i < FASYNC_MAX_INFLIGHT" and g: "g \<noteq> 0" and "make_id (ucast g) i = 0"
  then have "(ucast g :: u64) = 0" using make_id_gen [OF i, of g] by (simp add: id_gen_def)
  then have z: "\<not> bit (ucast g :: u64) n" for n by simp
  have "\<not> bit g n" for n using z [of n] bit_imp_le_length [of g n] by (auto simp: bit_simps)
  then have "g = 0" by (intro bit_word_eqI) simp
  with g show False by simp
qed

lemma next_gen_nonzero: "next_gen g \<noteq> 0"
  by (auto simp: next_gen_def)

section \<open>The bitmap\<close>

lemma slot_marked_bit: "slot_marked U i = bit (alloc_bits U (i div 64)) (i mod 64)"
  by (simp add: slot_marked_def slot_bit_def bit_iff_and_push_bit_not_eq_0)

lemma slot_mark_marked:
  "slot_marked (fasync_slot_mark i b U) j = (if i = j then b else slot_marked U j)"
proof (cases "i div 64 = j div 64")
  case True
  then have "(i = j) = (i mod 64 = j mod 64)" by (metis div_mult_mod_eq)
  with True show ?thesis
    by (auto simp: slot_marked_bit fasync_slot_mark_def slot_bit_def Let_def bit_simps)
next
  case False
  then show ?thesis by (auto simp: slot_marked_bit fasync_slot_mark_def Let_def)
qed

lemma slot_mark_same [simp]:
  "req_slots (fasync_slot_mark i b U) = req_slots U" "g_ring (fasync_slot_mark i b U) = g_ring U"
  "g_req_free_head (fasync_slot_mark i b U) = g_req_free_head U"
  "g_req_free_next (fasync_slot_mark i b U) = g_req_free_next U"
  "g_inflight (fasync_slot_mark i b U) = g_inflight U"
  "req_next_gen (fasync_slot_mark i b U) = req_next_gen U"
  by (simp_all add: fasync_slot_mark_def Let_def)

section \<open>The free list\<close>

fun free_chain :: "(nat \<Rightarrow> nat) \<Rightarrow> nat \<Rightarrow> nat list \<Rightarrow> bool" where
  "free_chain nxt h [] = (h = 0)"
| "free_chain nxt h (i # xs) = (h = Suc i \<and> free_chain nxt (nxt i) xs)"

lemma free_chain_upd: "j \<notin> set xs \<Longrightarrow> free_chain (nxt(j := v)) h xs = free_chain nxt h xs"
  by (induction xs arbitrary: h) auto

lemma free_chain_upt: 
  assumes "\<And>i. i < n \<Longrightarrow> nxt i = (if i + 2 \<le> n then i + 2 else 0)" and "k < n"
  shows "free_chain nxt (Suc k) [k..<n]"
  using assms(2)
proof (induction "n - k" arbitrary: k)
  case (Suc m)
  show ?case
  proof (cases "Suc k < n")
    case True
    then have "free_chain nxt (Suc (Suc k)) [Suc k..<n]" using Suc by auto
    then show ?thesis using True Suc.prems assms(1) [of k] by (simp add: upt_rec [of k])
  next
    case False
    then show ?thesis using Suc.prems assms(1) [of k] by (simp add: upt_rec)
  qed
qed simp

section \<open>The table invariant\<close>

definition slot_live :: "uring \<Rightarrow> nat \<Rightarrow> bool" where
  "slot_live U i \<longleftrightarrow> i < FASYNC_MAX_INFLIGHT \<and> rq_state (req_slots U i) \<noteq> FASYNC_REQ_FREE"

definition slot_ok :: "uring \<Rightarrow> nat \<Rightarrow> bool" where
  "slot_ok U i \<longleftrightarrow> (\<exists>g :: u32. g \<noteq> 0 \<and> rq_gen (req_slots U i) = ucast g \<and>
      rq_id (req_slots U i) = make_id (ucast g) i)"

definition table_inv :: "nat list \<Rightarrow> uring \<Rightarrow> bool" where
  "table_inv fs U \<longleftrightarrow> free_chain (g_req_free_next U) (g_req_free_head U) fs \<and> distinct fs \<and>
     (\<forall>i\<in>set fs. i < FASYNC_MAX_INFLIGHT) \<and>
     (\<forall>i < FASYNC_MAX_INFLIGHT. slot_live U i = (i \<notin> set fs) \<and> slot_marked U i = (i \<notin> set fs) \<and>
        (i \<notin> set fs \<longrightarrow> slot_ok U i))"

definition pending_slots :: "uring \<Rightarrow> nat set" where
  "pending_slots U = {i. i < FASYNC_MAX_INFLIGHT \<and> rq_state (req_slots U i) = FASYNC_REQ_PENDING}"

lemma finite_pending [simp]: "finite (pending_slots U)"
  by (rule finite_subset [of _ "{..<FASYNC_MAX_INFLIGHT}"]) (auto simp: pending_slots_def)

lemma table_init_inv: "table_inv [0..<FASYNC_MAX_INFLIGHT] (fasync_req_table_init U)"
proof -
  have "free_chain (g_req_free_next (fasync_req_table_init U)) (Suc 0) [0..<FASYNC_MAX_INFLIGHT]"
    by (rule free_chain_upt) (simp_all add: fasync_req_table_init_def FASYNC_MAX_INFLIGHT_def)
  then show ?thesis
    by (auto simp: table_inv_def slot_live_def slot_marked_bit) (auto simp: fasync_req_table_init_def)
qed

lemma table_init_pending: "pending_slots (fasync_req_table_init U) = {}"
  by (auto simp: pending_slots_def fasync_req_table_init_def)

lemma alloc_None: "table_inv fs U \<Longrightarrow> fasync_req_alloc U = (None, U') \<Longrightarrow> U' = U \<and> fs = []"
  by (cases fs) (auto simp: table_inv_def fasync_req_alloc_def Let_def split: if_splits)

lemma alloc_Some:
  assumes inv: "table_inv fs U" and a: "fasync_req_alloc U = (Some s, U')"
  obtains rest where "fs = s # rest" "s < FASYNC_MAX_INFLIGHT" "\<not> slot_live U s" "table_inv rest U'"
    "pending_slots U' = insert s (pending_slots U)" "s \<notin> pending_slots U"
    "g_ring U' = g_ring U" "g_inflight U' = g_inflight U" "req_next_gen U' = next_gen (req_next_gen U)"
    "rq_id (req_slots U' s) = make_id (ucast (next_gen (req_next_gen U))) s"
    "\<And>i. i \<noteq> s \<Longrightarrow> req_slots U' i = req_slots U i"
    "rq_state (req_slots U' s) = FASYNC_REQ_PENDING" "rq_gen (req_slots U' s) = ucast (next_gen (req_next_gen U))"
proof -
  obtain rest where fs: "fs = s # rest" and h: "g_req_free_head U = Suc s"
    using inv a by (cases fs) (auto simp: table_inv_def fasync_req_alloc_def Let_def split: if_splits)
  have t: "free_chain (g_req_free_next U) (g_req_free_next U s) rest" "s \<notin> set rest" "distinct rest"
    "s < FASYNC_MAX_INFLIGHT" "\<forall>i\<in>set rest. i < FASYNC_MAX_INFLIGHT" "\<not> slot_live U s"
    and l: "\<And>i. i < FASYNC_MAX_INFLIGHT \<Longrightarrow> slot_live U i = (i \<notin> set fs) \<and> slot_marked U i = (i \<notin> set fs) \<and>
        (i \<notin> set fs \<longrightarrow> slot_ok U i)"
    using inv by (auto simp: table_inv_def fs)
  let ?g = "next_gen (req_next_gen U)"
  define r where "r = (req_slots U s)\<lparr>rq_gen := ucast ?g, rq_id := make_id (ucast ?g) s,
                  rq_state := FASYNC_REQ_PENDING, rq_result := 0, rq_linked := False, rq_task := 0\<rparr>"
  define V where "V = U\<lparr>g_req_free_head := g_req_free_next U s, req_next_gen := ?g, req_slots := (req_slots U)(s := r)\<rparr>"
  have U': "U' = fasync_slot_mark s True V"
    using a h by (simp add: fasync_req_alloc_def Let_def V_def r_def)
  have m: "slot_marked V i = slot_marked U i" for i by (simp add: slot_marked_def V_def)
  have ri: "rq_gen r = ucast ?g" "rq_id r = make_id (ucast ?g) s" "rq_state r = FASYNC_REQ_PENDING"
    by (simp_all add: r_def)
  have sl: "req_slots U' i = (if i = s then r else req_slots U i)" for i by (simp add: U' V_def)
  have ok: "slot_ok U' s" using next_gen_nonzero ri by (auto simp: slot_ok_def sl)
  have "table_inv rest U'"
    unfolding table_inv_def
  proof (intro conjI allI impI)
    show "free_chain (g_req_free_next U') (g_req_free_head U') rest" using t(1) by (simp add: U' V_def)
    fix i assume i: "i < FASYNC_MAX_INFLIGHT"
    show "slot_live U' i = (i \<notin> set rest)"
      using l [OF i] t(2) i by (auto simp: slot_live_def sl ri fs)
    show "slot_marked U' i = (i \<notin> set rest)"
      using l [OF i] t(2) by (auto simp: U' slot_mark_marked m fs)
    show "slot_ok U' i" if "i \<notin> set rest"
      using l [OF i] that ok by (cases "i = s") (auto simp: slot_ok_def sl fs)
  qed (use t in auto)
  moreover have "pending_slots U' = insert s (pending_slots U)" "s \<notin> pending_slots U"
    using t(4,6) by (auto simp: pending_slots_def sl ri slot_live_def)
  ultimately show thesis
    using that fs t(4,6) by (simp add: sl ri) (simp add: U' V_def)
qed

lemma release_spec:
  assumes inv: "table_inv fs U" and s: "slot_live U s"
  shows "table_inv (s # fs) (fasync_req_release s U)"
    and "pending_slots (fasync_req_release s U) = pending_slots U - {s}"
    and "g_ring (fasync_req_release s U) = g_ring U" "g_inflight (fasync_req_release s U) = g_inflight U"
    and "req_next_gen (fasync_req_release s U) = req_next_gen U"
    and "\<And>i. i \<noteq> s \<Longrightarrow> req_slots (fasync_req_release s U) i = req_slots U i"
    and "rq_state (req_slots (fasync_req_release s U) s) = FASYNC_REQ_FREE"
    and "rq_gen (req_slots (fasync_req_release s U) s) = rq_gen (req_slots U s)"
proof -
  let ?U = "fasync_req_release s U"
  have l: "\<And>i. i < FASYNC_MAX_INFLIGHT \<Longrightarrow> slot_live U i = (i \<notin> set fs) \<and> slot_marked U i = (i \<notin> set fs) \<and>
        (i \<notin> set fs \<longrightarrow> slot_ok U i)" and i: "s < FASYNC_MAX_INFLIGHT"
    using inv s by (auto simp: table_inv_def slot_live_def)
  have sf: "s \<notin> set fs" using l [OF i] s by blast
  then obtain g :: u32 where "rq_id (req_slots U s) = make_id (ucast g) s" using l [OF i] by (auto simp: slot_ok_def)
  then have ix: "id_index (rq_id (req_slots U s)) = s" using make_id_index [OF i] by simp
  define V where "V = upd_slot s (\<lambda>r. r\<lparr>rq_state := FASYNC_REQ_FREE, rq_buf := 0, rq_task := 0\<rparr>) U"
  have e: "?U = (fasync_slot_mark s False V)\<lparr>g_req_free_next := (g_req_free_next U)(s := g_req_free_head U),
           g_req_free_head := Suc s\<rparr>"
    by (simp add: fasync_req_release_def Let_def ix V_def)
  have m: "slot_marked ?U j = (j \<noteq> s \<and> slot_marked U j)" for j
    using slot_mark_marked [of s False V j] by (auto simp: e slot_marked_def V_def)
  show st: "\<And>i. i \<noteq> s \<Longrightarrow> req_slots ?U i = req_slots U i" "rq_state (req_slots ?U s) = FASYNC_REQ_FREE"
    "rq_gen (req_slots ?U s) = rq_gen (req_slots U s)"
    by (simp_all add: e V_def)
  show "table_inv (s # fs) ?U"
    unfolding table_inv_def
  proof (intro conjI allI impI)
    show "free_chain (g_req_free_next ?U) (g_req_free_head ?U) (s # fs)"
      using inv sf by (simp add: e free_chain_upd table_inv_def)
    fix j assume j: "j < FASYNC_MAX_INFLIGHT"
    show "slot_live ?U j = (j \<notin> set (s # fs))" using l [OF j] j st by (cases "j = s") (auto simp: slot_live_def)
    show "slot_marked ?U j = (j \<notin> set (s # fs))" using l [OF j] m by auto
    show "slot_ok ?U j" if "j \<notin> set (s # fs)" using l [OF j] that st(1) by (auto simp: slot_ok_def)
  qed (use inv sf i in \<open>auto simp: table_inv_def\<close>)
  show "pending_slots ?U = pending_slots U - {s}"
  proof (rule set_eqI)
    fix i show "i \<in> pending_slots ?U \<longleftrightarrow> i \<in> pending_slots U - {s}"
      using st(1) [of i] st(2) by (cases "i = s") (simp_all add: pending_slots_def)
  qed
  show "g_ring ?U = g_ring U" "g_inflight ?U = g_inflight U" "req_next_gen ?U = req_next_gen U"
    by (simp_all add: e V_def)
qed

section \<open>Lookups\<close>

lemma lookup_exact:
  assumes inv: "table_inv fs U"
  shows "fasync_req_lookup i U = Some s \<longleftrightarrow> slot_live U s \<and> rq_id (req_slots U s) = i"
proof
  assume "fasync_req_lookup i U = Some s"
  then have s: "s = id_index i" "s < FASYNC_MAX_INFLIGHT" "rq_gen (req_slots U s) = id_gen i" "slot_live U s"
    by (auto simp: fasync_req_lookup_def Let_def slot_live_def split: if_splits)
  obtain g :: u32 where g: "rq_gen (req_slots U s) = ucast g" "rq_id (req_slots U s) = make_id (ucast g) s"
    using inv s(2,4) by (auto simp: table_inv_def slot_ok_def)
  have "make_id (id_gen i) (id_index i) = i"
  proof (rule bit_word_eqI)
    fix n assume "n < LENGTH(64)"
    then show "bit (make_id (id_gen i) (id_index i)) n = bit i n"
      by (auto simp: make_id_def id_gen_def id_index_def low_mask bit_simps)
  qed
  then show "slot_live U s \<and> rq_id (req_slots U s) = i" using s g by simp
next
  assume s: "slot_live U s \<and> rq_id (req_slots U s) = i"
  then have l: "s < FASYNC_MAX_INFLIGHT" by (simp add: slot_live_def)
  obtain g :: u32 where g: "rq_gen (req_slots U s) = ucast g" "rq_id (req_slots U s) = make_id (ucast g) s"
    using inv s l by (auto simp: table_inv_def slot_ok_def)
  then show "fasync_req_lookup i U = Some s"
    using s l make_id_index [OF l, of g] make_id_gen [OF l, of g]
    by (auto simp: fasync_req_lookup_def Let_def slot_live_def)
qed

section \<open>Completions\<close>

lemma reap_one_spec:
  assumes inv: "table_inv fs U"
  shows "table_inv fs (reap_one c U)"
    and "g_ring (reap_one c U) = g_ring U" "req_next_gen (reap_one c U) = req_next_gen U"
    and "\<And>i. i < FASYNC_MAX_INFLIGHT \<Longrightarrow>
      req_slots (reap_one c U) i =
        (if rq_state (req_slots U i) = FASYNC_REQ_PENDING \<and> rq_id (req_slots U i) = cqe_user_data c
         then (req_slots U i)\<lparr>rq_result := cqe_res c,
               rq_state := (if cqe_res c < 0 then FASYNC_REQ_FAILED else FASYNC_REQ_DONE)\<rparr>
         else req_slots U i)"
    and "g_inflight U = of_nat (card (pending_slots U)) \<Longrightarrow>
      g_inflight (reap_one c U) = of_nat (card (pending_slots (reap_one c U)))"
proof -
  let ?x = "id_index (cqe_user_data c)"
  let ?hit = "\<lambda>i. rq_state (req_slots U i) = FASYNC_REQ_PENDING \<and> rq_id (req_slots U i) = cqe_user_data c"
  have own: "i = ?x" if "i < FASYNC_MAX_INFLIGHT" "?hit i" for i
    using lookup_exact [OF inv, of "cqe_user_data c" i] that
    by (auto simp: fasync_req_lookup_def Let_def slot_live_def split: if_splits)
  define V where "V = reap_one c U"
  have V: "req_slots V i = (if ?hit i then (req_slots U i)\<lparr>rq_result := cqe_res c,
               rq_state := (if cqe_res c < 0 then FASYNC_REQ_FAILED else FASYNC_REQ_DONE)\<rparr>
         else req_slots U i)" if i: "i < FASYNC_MAX_INFLIGHT" for i
  proof (cases "?hit i")
    case True
    then have x: "?x = i" using own [OF i] by simp
    show ?thesis using True i unfolding V_def reap_one_def Let_def x by simp
  next
    case False
    have "reap_one c U = U" if "?x = i"
      unfolding reap_one_def Let_def that if_not_P [OF False] by simp
    then have "req_slots V i = req_slots U i"
      by (cases "?x = i") (simp_all add: V_def, simp add: reap_one_def Let_def)
    then show ?thesis unfolding if_not_P [OF False] .
  qed
  then show slots: "\<And>i. i < FASYNC_MAX_INFLIGHT \<Longrightarrow> req_slots (reap_one c U) i =
        (if ?hit i then (req_slots U i)\<lparr>rq_result := cqe_res c,
               rq_state := (if cqe_res c < 0 then FASYNC_REQ_FAILED else FASYNC_REQ_DONE)\<rparr>
         else req_slots U i)"
    by (simp add: V_def)
  show "g_ring (reap_one c U) = g_ring U" "req_next_gen (reap_one c U) = req_next_gen U"
    by (simp_all add: reap_one_def Let_def)
  have same: "g_req_free_next (reap_one c U) = g_req_free_next U" "g_req_free_head (reap_one c U) = g_req_free_head U"
    "alloc_bits (reap_one c U) = alloc_bits U"
    by (simp_all add: reap_one_def Let_def)
  have "slot_live (reap_one c U) i = slot_live U i" "slot_marked (reap_one c U) i = slot_marked U i"
    "slot_ok (reap_one c U) i = slot_ok U i" if "i < FASYNC_MAX_INFLIGHT" for i
    using that by (auto simp: slot_live_def slot_marked_def slot_ok_def slots same)
  then show "table_inv fs (reap_one c U)" using inv by (simp add: table_inv_def same)
  assume cnt: "g_inflight U = of_nat (card (pending_slots U))"
  show "g_inflight (reap_one c U) = of_nat (card (pending_slots (reap_one c U)))"
  proof (cases "?x < FASYNC_MAX_INFLIGHT \<and> ?hit ?x")
    case True
    have x: "?x \<in> pending_slots U" using True by (simp add: pending_slots_def)
    have "pending_slots (reap_one c U) = pending_slots U - {?x}"
    proof (rule set_eqI)
      fix i show "i \<in> pending_slots (reap_one c U) \<longleftrightarrow> i \<in> pending_slots U - {?x}"
      proof (cases "i < FASYNC_MAX_INFLIGHT \<and> ?hit i")
        case hit: True
        then have "i = ?x" using own by blast
        moreover have "i \<notin> pending_slots (reap_one c U)" using slots [of i] hit by (simp add: pending_slots_def)
        ultimately show ?thesis by blast
      next
        case False
        then have "i \<noteq> ?x" using True by blast
        moreover have "req_slots (reap_one c U) i = req_slots U i" if "i < FASYNC_MAX_INFLIGHT"
          using slots [OF that] False that by (simp only: if_not_P not_False_eq_True simp_thms)
        ultimately show ?thesis by (auto simp: pending_slots_def)
      qed
    qed
    moreover have "0 < card (pending_slots U)" using x by (auto simp: card_gt_0_iff)
    moreover have "g_inflight (reap_one c U) = g_inflight U - 1" using True by (simp add: reap_one_def Let_def)
    ultimately show ?thesis
      using cnt x of_nat_pred_word [of "card (pending_slots U)", where 'a = 64] by simp
  next
    case False
    then have "reap_one c U = U" unfolding reap_one_def Let_def by (simp only: if_False if_cancel split: if_split) blast
    with cnt show ?thesis by simp
  qed
qed

section \<open>Walks over ring indices\<close>

definition ring_indices :: "u32 \<Rightarrow> u32 \<Rightarrow> u32 list" where
  "ring_indices i tail = map (\<lambda>k. i + of_nat k) [0..<unat (tail - i)]"

lemma ring_indices_step:
  assumes "i \<noteq> tail"
  shows "ring_indices i tail = i # ring_indices (i + 1) tail"
proof -
  have "tail - i \<noteq> 0" using assms by simp
  then have "unat (tail - i) = Suc (unat (tail - i - 1))" by (metis Suc_pred' unat_gt_0 unat_minus_one)
  moreover have "tail - (i + 1) = tail - i - 1" by simp
  ultimately show ?thesis
    by (simp add: ring_indices_def upt_conv_Cons map_Suc_upt [symmetric] algebra_simps del: upt_Suc)
qed

lemma ring_walk_fold: "ring_walk f i tail s = fold f (ring_indices i tail) s"
proof (induction f i tail s rule: ring_walk.induct)
  case (1 f i tail s)
  show ?case
  proof (cases "i = tail")
    case True
    then show ?thesis by (simp add: ring_walk.simps ring_indices_def)
  next
    case False
    then show ?thesis using 1 by (simp add: ring_walk.simps [of f i] ring_indices_step)
  qed
qed

lemma length_ring_indices: "length (ring_indices i tail) = unat (tail - i)"
  by (simp add: ring_indices_def)

text \<open>The completions the drain reads, in order.\<close>

definition new_cqes :: "uring \<Rightarrow> fasync_cqe list" where
  "new_cqes U = map (\<lambda>h. cqes (g_ring U) (h AND cq_mask (g_ring U)))
     (ring_indices (local_cq_head (g_ring U)) (cq_tail (g_ring U)))"

lemma reap_ring [simp]: "g_ring (reap_one c U) = g_ring U"
  by (simp add: reap_one_def Let_def)

lemma fold_reap_ring [simp]: "g_ring (fold reap_one cs U) = g_ring U"
  by (induction cs arbitrary: U) simp_all

lemma reap_stats [simp]: "g_stats (reap_one c U) = g_stats U"
  by (simp add: reap_one_def Let_def)

lemma fold_reap_stats [simp]: "g_stats (fold reap_one cs U) = g_stats U"
  by (induction cs arbitrary: U) simp_all

lemma drain_fold:
  assumes "mem = cqes (g_ring U)"
  shows "fold (\<lambda>h (V, c). (reap_one (cqes (g_ring V) (h AND msk)) V, c + 1)) hs (U, n) =
    (fold reap_one (map (\<lambda>h. mem (h AND msk)) hs) U, n + of_nat (length hs))"
  using assms
proof (induction hs arbitrary: U n)
  case (Cons h hs)
  then show ?case by (simp add: algebra_simps)
qed simp

lemma reap_upd_stats: "reap_one c (U\<lparr>g_stats := v\<rparr>) = (reap_one c U)\<lparr>g_stats := v\<rparr>"
  by (simp add: reap_one_def Let_def)

lemma fold_reap_upd_stats: "fold reap_one cs (U\<lparr>g_stats := v\<rparr>) = (fold reap_one cs U)\<lparr>g_stats := v\<rparr>"
  by (induction cs arbitrary: U) (simp_all add: reap_upd_stats)

lemma drain_eq:
  assumes "ready (g_ring U)"
  shows "fasync_native_drain U =
    upd_stats (\<lambda>t. t\<lparr>userspace_cq_polls := userspace_cq_polls t + 1,
        completions_reaped := completions_reaped t +
          ucast (of_nat (length (new_cqes U)) :: u32)\<rparr>)
      (upd_ring (\<lambda>r. r\<lparr>local_cq_head := cq_tail r, cq_head := cq_tail r\<rparr>) (fold reap_one (new_cqes U) U))"
  using assms
  by (simp add: fasync_native_drain_def Let_def ring_walk_fold drain_fold new_cqes_def fold_reap_upd_stats)

section \<open>The invariant of the request layer\<close>

definition ring_ok :: "fasync_ring \<Rightarrow> bool" where
  "ring_ok r \<longleftrightarrow> queued r = sqe_tail r - sqe_head r \<and> unat (queued r) \<le> FASYNC_RING_ENTRIES"

definition uring_inv :: "uring \<Rightarrow> bool" where
  "uring_inv U \<longleftrightarrow>
    (if ready (g_ring U)
     then (\<exists>fs. table_inv fs U) \<and> g_inflight U = of_nat (card (pending_slots U)) \<and> ring_ok (g_ring U)
     else g_inflight U = 0 \<and> (\<forall>i. rq_state (req_slots U i) = FASYNC_REQ_FREE))"

lemma table_inv_cong:
  assumes "g_req_free_next V = g_req_free_next U" "g_req_free_head V = g_req_free_head U"
    "alloc_bits V = alloc_bits U"
    "\<And>i. i < FASYNC_MAX_INFLIGHT \<Longrightarrow> rq_state (req_slots V i) = rq_state (req_slots U i) \<and>
       rq_gen (req_slots V i) = rq_gen (req_slots U i) \<and> rq_id (req_slots V i) = rq_id (req_slots U i)"
  shows "table_inv fs V = table_inv fs U" and "pending_slots V = pending_slots U"
    and "\<And>i. slot_live V i = slot_live U i"
  using assms by (auto simp: table_inv_def slot_live_def slot_marked_def slot_ok_def pending_slots_def)

definition same_table :: "uring \<Rightarrow> uring \<Rightarrow> bool" where
  "same_table V U \<longleftrightarrow> g_req_free_next V = g_req_free_next U \<and> g_req_free_head V = g_req_free_head U \<and>
    alloc_bits V = alloc_bits U \<and> req_slots V = req_slots U \<and> g_inflight V = g_inflight U \<and>
    req_next_gen V = req_next_gen U"

lemma same_table_inv:
  assumes "same_table V U"
  shows "table_inv fs V = table_inv fs U" "pending_slots V = pending_slots U" "slot_live V i = slot_live U i"
    "fasync_req_lookup x V = fasync_req_lookup x U"
  using assms by (auto simp: same_table_def table_inv_def slot_live_def slot_marked_def slot_ok_def
      pending_slots_def fasync_req_lookup_def Let_def)

lemma same_table_uring_inv:
  assumes "same_table V U" "ready (g_ring V) = ready (g_ring U)" "ready (g_ring V) \<Longrightarrow> ring_ok (g_ring U) \<Longrightarrow> ring_ok (g_ring V)"
    and "uring_inv U"
  shows "uring_inv V"
  using assms same_table_inv [OF assms(1)] by (auto simp: uring_inv_def same_table_def)

lemma submit_spec:
  assumes "fasync_submit_locked K U = (n, U')"
  shows "same_table U' U" "ready (g_ring U') = ready (g_ring U)"
    "ring_ok (g_ring U) \<Longrightarrow> ring_ok (g_ring U')" "ready (g_ring U) \<Longrightarrow> queued (g_ring U') = 0"
    "sqe_tail (g_ring U') = sqe_tail (g_ring U)" "sq_mask (g_ring U') = sq_mask (g_ring U)"
    "ring_fd (g_ring U') = ring_fd (g_ring U)" "sqes (g_ring U') = sqes (g_ring U)"
  using assms by (auto simp: fasync_submit_locked_def zsys_defs Let_def same_table_def ring_ok_def split: if_splits)

lemma get_sqe_spec:
  assumes "fasync_get_sqe K U = (r, U')"
  shows "same_table U' U" "ready (g_ring U') = ready (g_ring U)"
    "ring_ok (g_ring U) \<Longrightarrow> ring_ok (g_ring U')" 
    "ready (g_ring U) \<Longrightarrow> ring_ok (g_ring U) \<Longrightarrow> unat (queued (g_ring U')) < FASYNC_RING_ENTRIES"
    "r = None \<or> r = Some (sqe_tail (g_ring U') AND sq_mask (g_ring U'))"
proof -
  obtain n V where s: "fasync_submit_locked K U = (n, V)" by force
  note f = submit_spec [OF s]
  have e: "U' = (if unat (queued (g_ring U)) \<ge> FASYNC_RING_ENTRIES then V else U)"
    using assms by (auto simp: fasync_get_sqe_def fasync_submit_def s split: if_splits)
  show "same_table U' U" "ready (g_ring U') = ready (g_ring U)" "ring_ok (g_ring U) \<Longrightarrow> ring_ok (g_ring U')"
    using e f by (auto simp: same_table_def)
  show "ready (g_ring U) \<Longrightarrow> ring_ok (g_ring U) \<Longrightarrow> unat (queued (g_ring U')) < FASYNC_RING_ENTRIES"
    using e f(4) by (auto simp: ring_ok_def FASYNC_RING_ENTRIES_def)
  show "r = None \<or> r = Some (sqe_tail (g_ring U') AND sq_mask (g_ring U'))"
    using assms s by (auto simp: fasync_get_sqe_def fasync_submit_def split: if_splits)
qed

lemma ensure_ring_spec:
  assumes "uring_inv U" and "fasync_ensure_ring K U = (rc, U')"
  shows "uring_inv U'" "0 \<le> rc \<Longrightarrow> ready (g_ring U')" "slot_live U' i = slot_live U i"
    "fasync_req_lookup x U' = fasync_req_lookup x U" "req_next_gen U' = req_next_gen U"
proof -
  have "uring_inv U' \<and> (0 \<le> rc \<longrightarrow> ready (g_ring U')) \<and> slot_live U' i = slot_live U i \<and>
    fasync_req_lookup x U' = fasync_req_lookup x U \<and> req_next_gen U' = req_next_gen U"
  proof (cases "ready (g_ring U)")
    case True
    then show ?thesis using assms by (auto simp: fasync_ensure_ring_def)
  next
    case False
    then have z: "g_inflight U = 0" "\<And>i. rq_state (req_slots U i) = FASYNC_REQ_FREE"
      using assms(1) by (auto simp: uring_inv_def)
    have init: "slot_live (fasync_req_table_init V) i = False" "fasync_req_lookup x (fasync_req_table_init V) = None" for V
      by (auto simp: slot_live_def fasync_req_table_init_def fasync_req_lookup_def Let_def)
    have U: "slot_live U i = False" "fasync_req_lookup x U = None"
      by (auto simp: slot_live_def fasync_req_lookup_def Let_def z)
    consider (fail) "rc = -1" "req_slots U' = req_slots U" "g_ring U' = g_ring U" "g_inflight U' = g_inflight U" "req_next_gen U' = req_next_gen U"
      | (up) V where "rc = 0" "U' = fasync_req_table_init V" "ready (g_ring V)" "sqe_tail (g_ring V) = 0"
          "sqe_head (g_ring V) = 0" "queued (g_ring V) = 0" "g_inflight V = 0" "req_next_gen V = req_next_gen U"
      using assms(2) False z(1) by (auto simp: fasync_ensure_ring_def fasync_ring_init_def zsys_defs split: if_splits)
    then show ?thesis
    proof cases
      case fail
      then show ?thesis
        using False z by (auto simp: uring_inv_def slot_live_def fasync_req_lookup_def Let_def)
    next
      case up
      have "g_ring U' = g_ring V" "g_inflight U' = 0" "req_next_gen U' = req_next_gen U"
        using up by (simp_all add: fasync_req_table_init_def)
      then show ?thesis
        using up table_init_inv [of V] table_init_pending [of V] U init
        by (auto simp: uring_inv_def ring_ok_def)
    qed
  qed
  then show "uring_inv U'" "0 \<le> rc \<Longrightarrow> ready (g_ring U')" "slot_live U' i = slot_live U i"
    "fasync_req_lookup x U' = fasync_req_lookup x U" "req_next_gen U' = req_next_gen U" by blast+
qed

lemma lookup_eq:
  assumes "table_inv fs U" "table_inv fs' V"
    and "\<And>s. slot_live V s \<and> rq_id (req_slots V s) = i \<longleftrightarrow> slot_live U s \<and> rq_id (req_slots U s) = i"
  shows "fasync_req_lookup i V = fasync_req_lookup i U"
proof -
  have "fasync_req_lookup i V = Some s \<longleftrightarrow> fasync_req_lookup i U = Some s" for s
    using assms(3) by (simp add: lookup_exact [OF assms(1)] lookup_exact [OF assms(2)])
  then show ?thesis by (metis not_Some_eq)
qed

text \<open>What a push leaves behind, by the id it returns.\<close>

lemma push_request_table:
  assumes "s < FASYNC_MAX_INFLIGHT" and "table_inv fs U"
    and U': "U' = push_request op fd a len offset rb rl flags s sqe U"
  shows "table_inv fs U'" "pending_slots U' = pending_slots U" "\<And>i. slot_live U' i = slot_live U i"
    "g_inflight U' = g_inflight U + 1" "ready (g_ring U') = ready (g_ring U)"
    "sqe_tail (g_ring U') = sqe_tail (g_ring U) + 1" "sqe_head (g_ring U') = sqe_head (g_ring U)"
    "queued (g_ring U') = queued (g_ring U) + 1" "req_next_gen U' = req_next_gen U"
    "rq_id (req_slots U' i) = rq_id (req_slots U i)"
    "req_slots U' s = (req_slots U s)\<lparr>rq_buf := rb, rq_len := rl, rq_offset := offset,
       rq_fd := fd, rq_op := op, rq_linked := (flags AND FASYNC_SQE_IO_LINK \<noteq> 0)\<rparr>"
    "sqes (g_ring U') sqe = build_sqe op fd a len offset flags (rq_id (req_slots U s))"
proof -
  have "table_inv fs U' = table_inv fs U" "pending_slots U' = pending_slots U" "\<And>i. slot_live U' i = slot_live U i"
    by (rule table_inv_cong; simp add: U' push_request_def Let_def)+
  with assms(2) show "table_inv fs U'" "pending_slots U' = pending_slots U" "\<And>i. slot_live U' i = slot_live U i"
    by blast+
qed (simp_all add: U' push_request_def Let_def)

lemma ring_ok_push:
  assumes "ring_ok r" "unat (queued r) < FASYNC_RING_ENTRIES" "sqe_tail r' = sqe_tail r + 1"
    "sqe_head r' = sqe_head r" "queued r' = queued r + 1"
  shows "ring_ok r'"
proof -
  have "unat (queued r + 1) \<le> FASYNC_RING_ENTRIES"
    using assms(2) by (simp add: FASYNC_RING_ENTRIES_def unat_word_ariths)
  then show ?thesis using assms by (simp add: ring_ok_def algebra_simps)
qed

text \<open>The stages of a push: it fails before a slot is taken, or takes a slot and then an entry of the ring.\<close>

lemma push_stages:
  assumes p: "fasync_push_sqe K op fd a len offset rb rl flags U = (x, U')" and len: "\<not> len > FASYNC_MAX_LEN"
    and e: "fasync_ensure_ring K U = (rc, U0)"
  obtains (early) "x = 0" "same_table U' U0" "g_ring U' = g_ring U0"
    | (late) s U1 r U2 where "0 \<le> rc" "fasync_req_alloc U0 = (Some s, U1)" "fasync_get_sqe K U1 = (r, U2)"
        "(x, U') = (case r of None \<Rightarrow> (0, fasync_req_release s U2)
          | Some sqe \<Rightarrow> let U3 = push_request op fd a len offset rb rl flags s sqe U2 in (rq_id (req_slots U3 s), U3))"
proof (cases "rc < 0 \<or> fd = ring_fd (g_ring U0)")
  case True
  then show ?thesis using p len that(1)
    by (auto simp: fasync_push_sqe_def e same_table_def split: if_splits)
next
  case False
  obtain o1 U1 where al: "fasync_req_alloc U0 = (o1, U1)" by force
  show ?thesis
  proof (cases o1)
    case None
    then have "U1 = U0" using al by (auto simp: fasync_req_alloc_def Let_def split: if_splits)
    then show ?thesis using p len False al None that(1)
      by (auto simp: fasync_push_sqe_def e same_table_def split: if_splits)
  next
    case (Some s)
    obtain r U2 where g: "fasync_get_sqe K U1 = (r, U2)" by force
    show ?thesis
      using p len False al Some g by (intro that(2) [of s U1 r U2]) (auto simp: fasync_push_sqe_def e split: if_splits option.splits)
  qed
qed

text \<open>The state \<open>V\<close> in which slot \<open>s\<close>, free in \<open>U\<close>, has been taken and not yet described.\<close>

definition slot_taken :: "nat \<Rightarrow> nat list \<Rightarrow> uring \<Rightarrow> uring \<Rightarrow> bool" where
  "slot_taken s rest U V \<longleftrightarrow> s < FASYNC_MAX_INFLIGHT \<and> table_inv (s # rest) U \<and> \<not> slot_live U s \<and> table_inv rest V \<and>
     slot_live V s \<and> pending_slots V = insert s (pending_slots U) \<and> s \<notin> pending_slots U \<and>
     g_inflight V = of_nat (card (pending_slots U)) \<and> req_next_gen V = next_gen (req_next_gen U) \<and>
     (\<forall>i. i \<noteq> s \<longrightarrow> req_slots V i = req_slots U i) \<and> ready (g_ring V) \<and> ring_ok (g_ring V)"

lemma slot_taken_other: "slot_taken s rest U V \<Longrightarrow> i \<noteq> s \<Longrightarrow> slot_live V i = slot_live U i"
  by (simp add: slot_taken_def slot_live_def)

lemma slot_takenI:
  assumes inv: "uring_inv U" and rd: "ready (g_ring U)" and al: "fasync_req_alloc U = (Some s, U1)"
    and g: "fasync_get_sqe K U1 = (r, V)"
  obtains rest where "slot_taken s rest U V" "rq_id (req_slots V s) = make_id (ucast (next_gen (req_next_gen U))) s"
    "rq_state (req_slots V s) = FASYNC_REQ_PENDING" "rq_task (req_slots V s) = 0" "rq_result (req_slots V s) = 0"
    "unat (queued (g_ring V)) < FASYNC_RING_ENTRIES"
proof -
  obtain fs where fs: "table_inv fs U" and cnt: "g_inflight U = of_nat (card (pending_slots U))"
    and rok: "ring_ok (g_ring U)" using inv rd by (auto simp: uring_inv_def)
  obtain rest where t: "fs = s # rest" "s < FASYNC_MAX_INFLIGHT" "\<not> slot_live U s" "table_inv rest U1"
    "pending_slots U1 = insert s (pending_slots U)" "s \<notin> pending_slots U"
    "g_ring U1 = g_ring U" "g_inflight U1 = g_inflight U" "req_next_gen U1 = next_gen (req_next_gen U)"
    "rq_id (req_slots U1 s) = make_id (ucast (next_gen (req_next_gen U))) s"
    "\<And>i. i \<noteq> s \<Longrightarrow> req_slots U1 i = req_slots U i" "rq_state (req_slots U1 s) = FASYNC_REQ_PENDING"
    using alloc_Some [OF fs al] by metis
  have zero: "rq_task (req_slots U1 s) = 0" "rq_result (req_slots U1 s) = 0"
    using al by (auto simp: fasync_req_alloc_def Let_def split: if_splits)
  note gs = get_sqe_spec [OF g] and st = same_table_inv [OF get_sqe_spec(1) [OF g]]
  have sl: "req_slots V = req_slots U1" "g_inflight V = g_inflight U" "req_next_gen V = next_gen (req_next_gen U)"
    using gs(1) t(8,9) by (simp_all add: same_table_def)
  have "slot_live V s" using t(2,12) sl(1) by (simp add: slot_live_def)
  moreover have "ready (g_ring V)" "ring_ok (g_ring V)" "unat (queued (g_ring V)) < FASYNC_RING_ENTRIES"
    using gs(2-4) t(7) rd rok by simp_all
  moreover have "table_inv rest V" "pending_slots V = insert s (pending_slots U)" using st(1,2) t(4,5) by simp_all
  ultimately show thesis
    using that [of rest] fs cnt t zero sl by (simp add: slot_taken_def)
qed

text \<open>Giving the slot back, when the ring had no entry, leaves everything as it was.\<close>

lemma push_undone:
  assumes t: "slot_taken s rest U V" and U': "U' = fasync_req_release s V"
  shows "uring_inv U'" "slot_live U' i = slot_live U i" "fasync_req_lookup x U' = fasync_req_lookup x U"
    "req_next_gen U' = next_gen (req_next_gen U)"
proof -
  have t1: "table_inv (s # rest) U" "\<not> slot_live U s" "table_inv rest V" "slot_live V s"
    "pending_slots V = insert s (pending_slots U)" "s \<notin> pending_slots U"
    "g_inflight V = of_nat (card (pending_slots U))" "\<And>i. i \<noteq> s \<Longrightarrow> req_slots V i = req_slots U i"
    "ready (g_ring V)" "ring_ok (g_ring V)" using t by (simp_all add: slot_taken_def)
  note rel = release_spec [OF t1(3,4), folded U']
  show live: "slot_live U' i = slot_live U i" for i
    using rel(6,7) slot_taken_other [OF t, of i] t1(2) by (cases "i = s") (auto simp: slot_live_def)
  have "pending_slots U' = pending_slots U" using rel(2) t1(5,6) by simp
  then show "uring_inv U'" using rel(1,3,4) t1(7,9,10) by (auto simp: uring_inv_def)
  show "fasync_req_lookup x U' = fasync_req_lookup x U"
  proof (rule lookup_eq [OF t1(1) rel(1)])
    fix u
    show "slot_live U' u \<and> rq_id (req_slots U' u) = x \<longleftrightarrow> slot_live U u \<and> rq_id (req_slots U u) = x"
      using live [of u] rel(6) [of u] t1(2,8) by (cases "u = s") auto
  qed
  show "req_next_gen U' = next_gen (req_next_gen U)" using rel(5) t by (simp add: slot_taken_def)
qed

text \<open>Describing the request in the slot adds it and touches no other.\<close>

lemma push_done:
  assumes t: "slot_taken s rest U V" and q: "unat (queued (g_ring V)) < FASYNC_RING_ENTRIES"
    and sqe: "sqe = sqe_tail (g_ring V) AND sq_mask (g_ring V)"
    and U': "U' = push_request op fd a len offset rb rl flags s sqe V" and x: "x = rq_id (req_slots U' s)"
  shows "uring_inv U'" "slot_live U' s" "\<And>i. i \<noteq> s \<Longrightarrow> slot_live U' i = slot_live U i"
    "\<And>i. i \<noteq> x \<Longrightarrow> fasync_req_lookup i U' = fasync_req_lookup i U"
    "sqes (g_ring U') ((sqe_tail (g_ring U') - 1) AND sq_mask (g_ring U')) = build_sqe op fd a len offset flags x"
proof -
  have t1: "s < FASYNC_MAX_INFLIGHT" "table_inv (s # rest) U" "\<not> slot_live U s" "table_inv rest V" "slot_live V s"
    "pending_slots V = insert s (pending_slots U)" "s \<notin> pending_slots U"
    "g_inflight V = of_nat (card (pending_slots U))" "\<And>i. i \<noteq> s \<Longrightarrow> req_slots V i = req_slots U i"
    "ready (g_ring V)" "ring_ok (g_ring V)" using t by (simp_all add: slot_taken_def)
  note pr = push_request_table [OF t1(1,4) U']
  have rok: "ring_ok (g_ring U')" by (rule ring_ok_push [OF t1(11) q pr(6,7,8)])
  have "pending_slots U' = insert s (pending_slots U)" using pr(2) t1(6) by simp
  then show "uring_inv U'" using pr(1,4,5) rok t1(7,8,10) by (auto simp: uring_inv_def)
  show "slot_live U' s" using pr(3) t1(5) by simp
  show live: "slot_live U' i = slot_live U i" if "i \<noteq> s" for i using pr(3) slot_taken_other [OF t that] by simp
  show "fasync_req_lookup i U' = fasync_req_lookup i U" if "i \<noteq> x" for i
  proof (rule lookup_eq [OF t1(2) pr(1)])
    fix u
    show "slot_live U' u \<and> rq_id (req_slots U' u) = i \<longleftrightarrow> slot_live U u \<and> rq_id (req_slots U u) = i"
      using t1(3,9) that x live [of u] pr(10) [of u] by (cases "u = s") auto
  qed
  have "(sqe_tail (g_ring U') - 1) AND sq_mask (g_ring U') = sqe"
    by (simp add: pr(6) sqe) (simp add: U' push_request_def Let_def)
  then show "sqes (g_ring U') ((sqe_tail (g_ring U') - 1) AND sq_mask (g_ring U')) = build_sqe op fd a len offset flags x"
    using pr(12) pr(10) [of s] by (simp add: x)
qed

lemma push_cases:
  assumes inv: "uring_inv U" and p: "fasync_push_sqe K op fd a len offset rb rl flags U = (x, U')"
  obtains (fail) "x = 0" "uring_inv U'" "\<And>i. slot_live U' i = slot_live U i"
      "\<And>i. fasync_req_lookup i U' = fasync_req_lookup i U"
      "req_next_gen U' = req_next_gen U \<or> req_next_gen U' = next_gen (req_next_gen U)"
  | (push) s where "x \<noteq> 0" "uring_inv U'" "ready (g_ring U')" "\<not> slot_live U s" "slot_live U' s"
      "rq_id (req_slots U' s) = x" "\<And>i. i \<noteq> s \<Longrightarrow> slot_live U' i = slot_live U i"
      "\<And>i. i \<noteq> x \<Longrightarrow> fasync_req_lookup i U' = fasync_req_lookup i U" "fasync_req_lookup x U = None"
      "rq_state (req_slots U' s) = FASYNC_REQ_PENDING" "rq_fd (req_slots U' s) = fd" "rq_op (req_slots U' s) = op"
      "rq_buf (req_slots U' s) = rb" "rq_len (req_slots U' s) = rl" "rq_task (req_slots U' s) = 0"
      "rq_result (req_slots U' s) = 0"
      "sqes (g_ring U') ((sqe_tail (g_ring U') - 1) AND sq_mask (g_ring U')) = build_sqe op fd a len offset flags x"
      "req_next_gen U' = next_gen (req_next_gen U)" "x = make_id (ucast (next_gen (req_next_gen U))) s"
      "s < FASYNC_MAX_INFLIGHT"
proof (cases "len > FASYNC_MAX_LEN")
  case True
  then have U': "x = 0" "U' = U\<lparr>g_last_error := ''sqe length does not fit in 32 bits''\<rparr>"
    using p by (simp_all add: fasync_push_sqe_def)
  have st: "same_table U' U" by (simp add: U' same_table_def)
  have "uring_inv U'" by (rule same_table_uring_inv [OF st _ _ inv]) (simp_all add: U')
  with fail U'(1) same_table_inv [OF st] st show ?thesis by (simp add: same_table_def)
next
  case len: False
  obtain rc U0 where e: "fasync_ensure_ring K U = (rc, U0)" by force
  note en = ensure_ring_spec [OF inv e]
  show ?thesis
  proof (rule push_stages [OF p len e])
    assume x: "x = 0" and st: "same_table U' U0" and g: "g_ring U' = g_ring U0"
    have "uring_inv U'" by (rule same_table_uring_inv [OF st _ _ en(1)]) (simp_all add: g)
    with fail x same_table_inv [OF st] st en(3,4,5) show ?thesis by (simp add: same_table_def)
  next
    fix s U1 r V assume late: "0 \<le> rc" "fasync_req_alloc U0 = (Some s, U1)" "fasync_get_sqe K U1 = (r, V)"
      "(x, U') = (case r of None \<Rightarrow> (0, fasync_req_release s V)
        | Some sqe \<Rightarrow> let U3 = push_request op fd a len offset rb rl flags s sqe V in (rq_id (req_slots U3 s), U3))"
    obtain rest where t: "slot_taken s rest U0 V" and v: "rq_id (req_slots V s) = make_id (ucast (next_gen (req_next_gen U0))) s"
      "rq_state (req_slots V s) = FASYNC_REQ_PENDING" "rq_task (req_slots V s) = 0" "rq_result (req_slots V s) = 0"
      "unat (queued (g_ring V)) < FASYNC_RING_ENTRIES" by (rule slot_takenI [OF en(1) en(2) [OF late(1)] late(2,3)])
    have t1: "s < FASYNC_MAX_INFLIGHT" "\<not> slot_live U0 s" "table_inv rest V" "ready (g_ring V)" "req_next_gen V = next_gen (req_next_gen U0)"
      using t by (simp_all add: slot_taken_def)
    show ?thesis
    proof (cases r)
      case None
      then have "x = 0" "U' = fasync_req_release s V" using late(4) by simp_all
      with fail push_undone [OF t this(2)] en(3,4,5) show ?thesis by simp
    next
      case (Some sqe)
      then have U': "U' = push_request op fd a len offset rb rl flags s sqe V" and x: "x = rq_id (req_slots U' s)"
        using late(4) by (simp_all add: Let_def)
      have sqe: "sqe = sqe_tail (g_ring V) AND sq_mask (g_ring V)" using get_sqe_spec(5) [OF late(3)] Some by simp
      note d = push_done [OF t v(5) sqe U' x] and pr = push_request_table [OF t1(1,3) U']
      have xs: "x = make_id (ucast (next_gen (req_next_gen U))) s" using pr(10) v(1) en(5) by (simp add: x)
      have x0: "x \<noteq> 0" unfolding xs by (rule make_id_nonzero [OF t1(1) next_gen_nonzero])
      have "fasync_req_lookup x U0 = None"
        using t1(1,2) make_id_index [OF t1(1)] by (simp add: fasync_req_lookup_def Let_def xs slot_live_def)
      then show ?thesis
        using x0 x xs d pr(5,9,11) t1 v(2-4) en(3,4,5) by (intro push [of s]) simp_all
    qed
  qed
qed

section \<open>What a drain does to the table\<close>

lemma fold_reap_inv_aux:
  assumes "table_inv fs U"
  shows "table_inv fs (fold reap_one cs U) \<and>
    (g_inflight U = of_nat (card (pending_slots U)) \<longrightarrow>
         g_inflight (fold reap_one cs U) = of_nat (card (pending_slots (fold reap_one cs U)))) \<and>
    req_next_gen (fold reap_one cs U) = req_next_gen U"
  using assms
proof (induction cs arbitrary: U)
  case (Cons c cs)
  note r = reap_one_spec [OF Cons.prems, where c = c]
  show ?case using Cons.IH [OF r(1)] r(3,5) by simp
qed simp

lemma fold_reap_inv:
  assumes "table_inv fs U"
  shows "table_inv fs (fold reap_one cs U)"
    and "g_inflight U = of_nat (card (pending_slots U)) \<Longrightarrow>
         g_inflight (fold reap_one cs U) = of_nat (card (pending_slots (fold reap_one cs U)))"
    and "req_next_gen (fold reap_one cs U) = req_next_gen U"
  using fold_reap_inv_aux [OF assms] by blast+

text \<open>The completion a request gets: the first one with its id.\<close>

definition first_cqe :: "fasync_cqe list \<Rightarrow> fasync_id \<Rightarrow> fasync_cqe option" where
  "first_cqe cs i = List.find (\<lambda>c. cqe_user_data c = i) cs"

definition finished_by :: "fasync_cqe \<Rightarrow> fasync_req_shared \<Rightarrow> fasync_req_shared" where
  "finished_by c r = r\<lparr>rq_result := cqe_res c,
     rq_state := (if cqe_res c < 0 then FASYNC_REQ_FAILED else FASYNC_REQ_DONE)\<rparr>"

lemma fold_reap_slots:
  assumes "table_inv fs U" and "i < FASYNC_MAX_INFLIGHT"
  shows "req_slots (fold reap_one cs U) i =
    (if rq_state (req_slots U i) = FASYNC_REQ_PENDING
     then (case first_cqe cs (rq_id (req_slots U i)) of None \<Rightarrow> req_slots U i
           | Some c \<Rightarrow> finished_by c (req_slots U i))
     else req_slots U i)"
  using assms(1)
proof (induction cs arbitrary: U)
  case (Cons c cs)
  note r = reap_one_spec [OF Cons.prems, where c = c]
  let ?r = "req_slots U i"
  show ?case
  proof (cases "rq_state ?r = FASYNC_REQ_PENDING \<and> rq_id ?r = cqe_user_data c")
    case True
    then have e: "req_slots (reap_one c U) i = finished_by c ?r"
      using r(4) [OF assms(2)] by (simp add: finished_by_def)
    have "rq_state (finished_by c ?r) \<noteq> FASYNC_REQ_PENDING" by (simp add: finished_by_def)
    then show ?thesis using Cons.IH [OF r(1)] True by (simp add: e first_cqe_def)
  next
    case False
    have e: "req_slots (reap_one c U) i = ?r" using r(4) [OF assms(2)] unfolding if_not_P [OF False] .
    show ?thesis
      using Cons.IH [OF r(1), unfolded e] False
      by (cases "rq_state ?r = FASYNC_REQ_PENDING") (simp_all add: first_cqe_def)
  qed
qed (simp add: first_cqe_def)

lemma drain_inv:
  assumes "uring_inv U"
  shows "uring_inv (fasync_native_drain U)" "req_next_gen (fasync_native_drain U) = req_next_gen U"
proof -
  show "uring_inv (fasync_native_drain U)"
  proof (cases "ready (g_ring U)")
    case True
    obtain fs where fs: "table_inv fs U" "g_inflight U = of_nat (card (pending_slots U))" "ring_ok (g_ring U)"
      using assms True by (auto simp: uring_inv_def)
    note f = fold_reap_inv [OF fs(1), where cs = "new_cqes U"]
    let ?V = "fold reap_one (new_cqes U) U"
    have st: "same_table (fasync_native_drain U) ?V" by (simp add: drain_eq [OF True] same_table_def)
    have "uring_inv ?V" using f(1) f(2) [OF fs(2)] fs(3) True by (auto simp: uring_inv_def)
    then show ?thesis
      by (rule same_table_uring_inv [OF st, rotated 2]) (auto simp: drain_eq [OF True] ring_ok_def)
  next
    case False
    then show ?thesis using assms by (simp add: fasync_native_drain_def)
  qed
  show "req_next_gen (fasync_native_drain U) = req_next_gen U"
  proof (cases "ready (g_ring U)")
    case True
    then obtain fs where "table_inv fs U" using assms by (auto simp: uring_inv_def)
    from fold_reap_inv(3) [OF this] show ?thesis by (simp add: drain_eq [OF True])
  qed (simp add: fasync_native_drain_def)
qed

section \<open>Runs\<close>

text \<open>The kernel posts a completion at the tail of its ring; everything else is done under the
  runtime's lock.\<close>

definition post_cqe :: "fasync_cqe \<Rightarrow> uring \<Rightarrow> uring" where
  "post_cqe c U = upd_ring (\<lambda>r. r\<lparr>cqes := (cqes r)(cq_tail r AND cq_mask r := c), cq_tail := cq_tail r + 1\<rparr>) U"

inductive uring_step :: "kernel \<Rightarrow> uring \<Rightarrow> uring \<Rightarrow> bool" for K where
  push: "fasync_push_sqe K op fd a len offset rb rl flags U = (x, U') \<Longrightarrow> uring_step K U U'"
| submit: "fasync_submit K U = (n, U') \<Longrightarrow> uring_step K U U'"
| post: "uring_step K U (post_cqe c U)"
| drain: "uring_step K U (fasync_native_drain U)"
| release: "slot_live U s \<Longrightarrow> rq_state (req_slots U s) \<noteq> FASYNC_REQ_PENDING \<Longrightarrow> ready (g_ring U) \<Longrightarrow>
    uring_step K U (fasync_req_release s U)"
| owner: "uring_step K U (upd_slot s (\<lambda>r. r\<lparr>rq_task := t\<rparr>) U)"
| count: "uring_step K U (U\<lparr>g_stats := st\<rparr>)"
| err: "uring_step K U (U\<lparr>errno := e\<rparr>)"

definition uring_start :: "(nat \<Rightarrow> fasync_req_shared) \<Rightarrow> fasync_ring \<Rightarrow> bool" where
  "uring_start slots r \<longleftrightarrow> \<not> ready r \<and> (\<forall>i. rq_state (slots i) = FASYNC_REQ_FREE)"

definition uring_init :: "(nat \<Rightarrow> fasync_req_shared) \<Rightarrow> fasync_ring \<Rightarrow> uring" where
  "uring_init slots r = \<lparr>req_slots = slots, req_next_gen = 0, g_req_free_head = 0, g_req_free_next = (\<lambda>_. 0),
     alloc_bits = (\<lambda>_. 0), g_inflight = 0, g_ring = r, g_stats = stats_zero, g_last_error = [], errno = 0\<rparr>"

inductive uring_reach :: "kernel \<Rightarrow> uring \<Rightarrow> bool" for K where
  start: "uring_start slots r \<Longrightarrow> uring_reach K (uring_init slots r)"
| step: "uring_reach K U \<Longrightarrow> uring_step K U U' \<Longrightarrow> uring_reach K U'"

lemma upd_task_spec:
  "table_inv fs (upd_slot s (\<lambda>r. r\<lparr>rq_task := t\<rparr>) U) = table_inv fs U"
  "pending_slots (upd_slot s (\<lambda>r. r\<lparr>rq_task := t\<rparr>) U) = pending_slots U"
  by (rule table_inv_cong; simp)+

lemma uring_step_inv:
  assumes "uring_step K U U'" and inv: "uring_inv U"
  shows "uring_inv U'"
  using assms(1)
proof cases
  case push
  from push_cases [OF inv push] show ?thesis by metis
next
  case (submit n)
  note f = submit_spec [OF submit [unfolded fasync_submit_def]]
  show ?thesis by (rule same_table_uring_inv [OF f(1,2) _ inv]) (rule f(3))
next
  case (post c)
  then show ?thesis
    by (intro same_table_uring_inv [OF _ _ _ inv]) (auto simp: post_cqe_def same_table_def ring_ok_def)
next
  case drain
  then show ?thesis using drain_inv(1) [OF inv] by simp
next
  case (release s)
  then obtain fs where fs: "table_inv fs U" "g_inflight U = of_nat (card (pending_slots U))" "ring_ok (g_ring U)"
    using inv by (auto simp: uring_inv_def)
  note r = release_spec [OF fs(1) release(2)]
  have "s \<notin> pending_slots U" using release(3) by (simp add: pending_slots_def)
  then show ?thesis using r(1-4) fs release(1,4) by (auto simp: uring_inv_def)
next
  case (owner s t)
  then show ?thesis using inv upd_task_spec [where U = U and s = s and t = t] by (auto simp: uring_inv_def)
next
  case (count st)
  then show ?thesis by (intro same_table_uring_inv [OF _ _ _ inv]) (auto simp: same_table_def)
next
  case (err e)
  then show ?thesis by (intro same_table_uring_inv [OF _ _ _ inv]) (auto simp: same_table_def)
qed

lemma uring_reach_inv: "uring_reach K U \<Longrightarrow> uring_inv U"
proof (induction rule: uring_reach.induct)
  case (start slots r)
  then show ?case by (simp add: uring_inv_def uring_start_def uring_init_def)
qed (rule uring_step_inv)

text \<open>Generations never repeat before the counter wraps: a step in which it does not.\<close>

lemma step_gen:
  assumes "uring_step K U U'" and inv: "uring_inv U"
  shows "req_next_gen U' = req_next_gen U \<or> req_next_gen U' = next_gen (req_next_gen U)"
  using assms(1)
proof cases
  case push
  from push_cases [OF inv push] show ?thesis by metis
next
  case (submit n)
  then show ?thesis using submit_spec(1) by (simp add: fasync_submit_def same_table_def)
next
  case (release s)
  then show ?thesis by (simp add: fasync_req_release_def Let_def)
qed (simp_all add: post_cqe_def drain_inv(2) [OF inv])

end
