(* ===== verification/RequestRuns.thy ===== *)
theory RequestRuns
  imports RequestInv
begin

text \<open>
  The properties of the request layer in every reachable state, and the runs that show their
  hypotheses can hold.
\<close>

section \<open>Ids that no longer resolve\<close>

definition forward_step :: "kernel \<Rightarrow> uring \<Rightarrow> uring \<Rightarrow> bool" where
  "forward_step K U U' \<longleftrightarrow> uring_step K U U' \<and> unat (req_next_gen U) \<le> unat (req_next_gen U')"

text \<open>An id that does not resolve and whose generation has been used already.\<close>

definition stale :: "uring \<Rightarrow> fasync_id \<Rightarrow> bool" where
  "stale U i \<longleftrightarrow> fasync_req_lookup i U = None \<and> unat (id_gen i) \<le> unat (req_next_gen U)"

lemma unat_ucast_gen: "unat (ucast (g :: u32) :: u64) = unat g"
  using unsigned_less [of g, where 'a = nat] by (simp add: unsigned_ucast_eq take_bit_nat_eq_self)

lemma next_gen_forward:
  assumes "unat g \<le> unat (next_gen g)"
  shows "unat (next_gen g) = unat g + 1"
proof (cases "g + 1 = 0")
  case True
  then have "g = - 1" by (simp add: eq_neg_iff_add_eq_0)
  then show ?thesis using assms by (simp add: next_gen_def unsigned_minus_1_eq_mask mask_eq_exp_minus_1)
next
  case False
  then show ?thesis by (metis next_gen_def add.commute Suc_eq_plus1 unatSuc)
qed

lemma lookup_shrinks:
  assumes "table_inv fs U" "table_inv fs' V"
    and "\<And>s. slot_live V s \<Longrightarrow> slot_live U s \<and> rq_id (req_slots V s) = rq_id (req_slots U s)"
    and "fasync_req_lookup i U = None"
  shows "fasync_req_lookup i V = None"
proof (rule ccontr)
  assume "fasync_req_lookup i V \<noteq> None"
  then obtain s where "fasync_req_lookup i V = Some s" by blast
  then have "slot_live V s" "rq_id (req_slots V s) = i" using lookup_exact [OF assms(2)] by blast+
  then have "fasync_req_lookup i U = Some s" using assms(3) [of s] lookup_exact [OF assms(1)] by simp
  with assms(4) show False by simp
qed

lemma drain_lookup:
  assumes inv: "uring_inv U"
  shows "fasync_req_lookup i (fasync_native_drain U) = fasync_req_lookup i U"
proof (cases "ready (g_ring U)")
  case True
  obtain fs where fs: "table_inv fs U" using inv True by (auto simp: uring_inv_def)
  let ?V = "fold reap_one (new_cqes U) U"
  have st: "same_table (fasync_native_drain U) ?V" by (simp add: drain_eq [OF True] same_table_def)
  have keep: "rq_id (req_slots ?V s) = rq_id (req_slots U s) \<and> slot_live ?V s = slot_live U s"
    if "s < FASYNC_MAX_INFLIGHT" for s
    using fold_reap_slots [OF fs that, of "new_cqes U"]
    by (auto simp: slot_live_def finished_by_def split: option.splits if_splits)
  have "fasync_req_lookup i ?V = fasync_req_lookup i U"
    by (rule lookup_eq [OF fs fold_reap_inv(1) [OF fs]]) (use keep in \<open>auto simp: slot_live_def\<close>)
  then show ?thesis using same_table_inv(4) [OF st] by simp
qed (simp add: fasync_native_drain_def)

lemma stale_step:
  assumes inv: "uring_inv U" and st: "forward_step K U U'" and s: "stale U i"
  shows "stale U' i"
proof -
  have step: "uring_step K U U'" and gen: "unat (req_next_gen U) \<le> unat (req_next_gen U')"
    using st by (simp_all add: forward_step_def)
  from step have "fasync_req_lookup i U' = None"
  proof cases
    case (push op fd a len offset rb rl flags x)
    show ?thesis
    proof (rule push_cases [OF inv push])
      fix t assume p: "\<And>i. i \<noteq> x \<Longrightarrow> fasync_req_lookup i U' = fasync_req_lookup i U"
        "req_next_gen U' = next_gen (req_next_gen U)" "x = make_id (ucast (next_gen (req_next_gen U))) t"
        "t < FASYNC_MAX_INFLIGHT"
      have "id_gen x = ucast (next_gen (req_next_gen U))" using p(3) make_id_gen [OF p(4)] by simp
      then have "i \<noteq> x"
        using s next_gen_forward [OF gen [unfolded p(2)]] by (auto simp: stale_def unat_ucast_gen)
      then show ?thesis using p(1) s by (simp add: stale_def)
    qed (use s in \<open>simp_all add: stale_def\<close>)
  next
    case (submit n)
    note f = submit_spec [OF submit [unfolded fasync_submit_def]]
    show ?thesis using same_table_inv(4) [OF f(1)] s by (simp add: stale_def)
  next
    case drain
    then show ?thesis using drain_lookup [OF inv] s by (simp add: stale_def)
  next
    case (release t)
    then obtain fs where fs: "table_inv fs U" using inv by (auto simp: uring_inv_def)
    note r = release_spec [OF fs release(2)]
    show ?thesis unfolding release(1)
    proof (rule lookup_shrinks [OF fs r(1)])
      fix u assume "slot_live (fasync_req_release t U) u"
      then show "slot_live U u \<and> rq_id (req_slots (fasync_req_release t U) u) = rq_id (req_slots U u)"
        using r(6) [of u] r(7) by (cases "u = t") (auto simp: slot_live_def)
    qed (use s in \<open>simp add: stale_def\<close>)
  qed (use s in \<open>auto simp: stale_def post_cqe_def fasync_req_lookup_def Let_def split: if_splits\<close>)
  with s gen show ?thesis by (simp add: stale_def)
qed

lemma stale_steps:
  assumes "(forward_step K)\<^sup>*\<^sup>* U U'" and "uring_inv U" and "stale U i"
  shows "stale U' i"
  using assms(1)
proof (induction rule: rtranclp_induct)
  case (step V W)
  have "(uring_step K)\<^sup>*\<^sup>* U V"
    using step.hyps(1) by (rule rtranclp_mono [THEN predicate2D, rotated]) (auto simp: forward_step_def)
  then have "uring_inv V" using assms(2) by (induction rule: rtranclp_induct) (auto intro: uring_step_inv)
  with step show ?case using stale_step by blast
qed (rule assms(3))

section \<open>Published entries\<close>

lemma publish_fold:
  "fold (publish_one m) is array c = (if \<exists>i\<in>set is. i AND m = c then c else array c)"
  by (induction "is" arbitrary: array) (auto simp: publish_one_def)

lemma ring_cell: "unat ((h + of_nat k) AND 1023 :: u32) = (unat h + k) mod 1024"
proof -
  have "(1023 :: u32) = mask 10" by (simp add: mask_eq_exp_minus_1)
  then have "unat ((h + of_nat k) AND 1023) = unat (take_bit 10 (h + of_nat k))"
    by (simp add: take_bit_eq_mask)
  also have "\<dots> = unat (h + of_nat k) mod 1024"
    by (simp only: unsigned_take_bit_eq) (simp add: take_bit_eq_mod)
  also have "\<dots> = (unat h + k) mod 1024"
    by (simp add: unat_word_ariths unat_of_nat take_bit_eq_mod mod_mod_cancel mod_add_right_eq)
  finally show ?thesis .
qed

lemma ring_cells_distinct:
  assumes "unat (tail - h) \<le> 1024"
  shows "distinct (map (\<lambda>i. i AND 1023) (ring_indices h tail))"
proof -
  have "k = l" if kl: "k < unat (tail - h)" "l < unat (tail - h)" and e: "(h + of_nat k) AND 1023 = (h + of_nat l) AND (1023 :: u32)" for k l
  proof -
    have "(unat h + k) mod 1024 = (unat h + l) mod 1024" using arg_cong [OF e, of unat] by (simp only: ring_cell)
    then obtain q1 q2 where "unat h + k + 1024 * q1 = unat h + l + 1024 * q2" by (auto simp: nat_mod_eq_iff)
    then have "k + 1024 * q1 = l + 1024 * q2" by simp
    then have "k mod 1024 = l mod 1024" by (auto simp: nat_mod_eq_iff)
    then show ?thesis using kl assms by simp
  qed
  then show ?thesis by (auto simp: ring_indices_def distinct_map inj_on_def)
qed

section \<open>Properties of the request layer\<close>

text \<open>C32. The request table is exact in every reachable state: a lookup finds precisely the live
  request with that id, the allocation bitmap marks precisely the slots in use, and the
  count of requests in flight is the number of requests whose completion has not been seen.\<close>

theorem request_table_exact:
  assumes "uring_reach K U" and "ready (g_ring U)"
  shows "(fasync_req_lookup i U = Some s \<longleftrightarrow> slot_live U s \<and> rq_id (req_slots U s) = i) \<and>
    (s < FASYNC_MAX_INFLIGHT \<longrightarrow> slot_marked U s = slot_live U s) \<and>
    g_inflight U = of_nat (card (pending_slots U))"
proof -
  obtain fs where fs: "table_inv fs U" and c: "g_inflight U = of_nat (card (pending_slots U))"
    using uring_reach_inv [OF assms(1)] assms(2) by (auto simp: uring_inv_def)
  then show ?thesis using lookup_exact [OF fs] by (auto simp: table_inv_def)
qed

text \<open>Pushing a request either fails, returning 0 and changing no request, or returns the
  non-zero id of a slot that was free: a lookup of the id, which found nothing before,
  finds the new pending request, every other lookup is unchanged, and the entry written
  to the submission ring carries the id.\<close>

theorem push_sqe_fresh:
  assumes "uring_reach K U" and "fasync_push_sqe K op fd a len offset rb rl flags U = (x, U')"
  shows "if x = 0 then (\<forall>i. fasync_req_lookup i U' = fasync_req_lookup i U)
    else \<exists>s. \<not> slot_live U s \<and> fasync_req_lookup x U = None \<and> fasync_req_lookup x U' = Some s \<and>
      (\<forall>i. i \<noteq> x \<longrightarrow> fasync_req_lookup i U' = fasync_req_lookup i U) \<and>
      rq_state (req_slots U' s) = FASYNC_REQ_PENDING \<and> rq_fd (req_slots U' s) = fd \<and>
      rq_buf (req_slots U' s) = rb \<and> rq_len (req_slots U' s) = rl \<and>
      sqe_user_data (sqes (g_ring U') ((sqe_tail (g_ring U') - 1) AND sq_mask (g_ring U'))) = x"
proof (rule push_cases [OF uring_reach_inv [OF assms(1)] assms(2)])
  fix s assume x: "x \<noteq> 0" "\<not> slot_live U s" "slot_live U' s" "rq_id (req_slots U' s) = x" "uring_inv U'" "ready (g_ring U')"
    "\<And>i. i \<noteq> x \<Longrightarrow> fasync_req_lookup i U' = fasync_req_lookup i U" "fasync_req_lookup x U = None"
    "rq_state (req_slots U' s) = FASYNC_REQ_PENDING" "rq_fd (req_slots U' s) = fd"
    "rq_buf (req_slots U' s) = rb" "rq_len (req_slots U' s) = rl"
    and e: "sqes (g_ring U') ((sqe_tail (g_ring U') - 1) AND sq_mask (g_ring U')) = build_sqe op fd a len offset flags x"
  obtain fs where fs: "table_inv fs U'" using x(5,6) by (auto simp: uring_inv_def)
  have "fasync_req_lookup x U' = Some s" using lookup_exact [OF fs] x(3,4) by simp
  moreover have "sqe_user_data (build_sqe op fd a len offset flags x) = x" by (simp add: build_sqe_def Let_def)
  ultimately show ?thesis using x e by auto
qed auto

text \<open>A released id stays unknown: until the generation counter wraps, no sequence of pushes,
  completions and releases makes it resolve again, even after its slot has been reused.\<close>

theorem released_id_stale:
  assumes "uring_reach K U" and "slot_live U s" and "rq_id (req_slots U s) = i"
    and "rq_state (req_slots U s) \<noteq> FASYNC_REQ_PENDING" and "unat (id_gen i) \<le> unat (req_next_gen U)"
    and "(forward_step K)\<^sup>*\<^sup>* (fasync_req_release s U) U'"
  shows "fasync_req_lookup i U' = None"
proof -
  note inv = uring_reach_inv [OF assms(1)]
  have rd: "ready (g_ring U)" using inv assms(2) by (auto simp: uring_inv_def slot_live_def split: if_splits)
  then obtain fs where fs: "table_inv fs U" using inv by (auto simp: uring_inv_def)
  note r = release_spec [OF fs assms(2)]
  have s: "s < FASYNC_MAX_INFLIGHT" "s \<notin> set fs" using assms(2) fs by (auto simp: slot_live_def table_inv_def)
  then obtain g :: u32 where "i = make_id (ucast g) s" using fs assms(3) by (auto simp: table_inv_def slot_ok_def)
  then have "id_index i = s" using make_id_index [OF s(1)] by simp
  then have "stale (fasync_req_release s U) i"
    using r(5,7) assms(5) by (simp add: stale_def fasync_req_lookup_def Let_def)
  moreover have "uring_inv (fasync_req_release s U)"
    by (rule uring_step_inv [OF uring_step.release [OF assms(2,4) rd] inv])
  ultimately show ?thesis using stale_steps [OF assms(6)] by (simp add: stale_def)
qed

text \<open>Submitting publishes the whole batch: every entry pushed since the last submission, and
  no other, is in the kernel's array in its own cell, the tail covers them all, nothing is
  left queued, and at most \<open>FASYNC_RING_ENTRIES\<close> entries ever are.\<close>

theorem submit_publishes:
  assumes "uring_reach K U" and "ready (g_ring U)" and "queued (g_ring U) \<noteq> 0"
    and "sq_mask (g_ring U) = 1023" and "fasync_submit K U = (n, U')"
  shows "unat (queued (g_ring U)) \<le> FASYNC_RING_ENTRIES \<and>
    distinct (map (\<lambda>i. i AND 1023) (ring_indices (sqe_head (g_ring U)) (sqe_tail (g_ring U)))) \<and>
    (\<forall>c. sq_array (g_ring U') c =
       (if c \<in> set (map (\<lambda>i. i AND 1023) (ring_indices (sqe_head (g_ring U)) (sqe_tail (g_ring U))))
        then c else sq_array (g_ring U) c)) \<and>
    sq_tail (g_ring U') = sqe_tail (g_ring U) \<and> queued (g_ring U') = 0 \<and>
    length (ring_indices (sqe_head (g_ring U)) (sqe_tail (g_ring U))) = unat (queued (g_ring U)) \<and>
    (n = int (unat (queued (g_ring U))) \<or> n = - 1)"
proof -
  have ok: "ring_ok (g_ring U)" using uring_reach_inv [OF assms(1)] assms(2) by (simp add: uring_inv_def)
  then have q: "queued (g_ring U) = sqe_tail (g_ring U) - sqe_head (g_ring U)"
    "unat (sqe_tail (g_ring U) - sqe_head (g_ring U)) \<le> 1024"
    by (auto simp: ring_ok_def FASYNC_RING_ENTRIES_def)
  have "sq_array (g_ring U') =
      fold (publish_one 1023) (ring_indices (sqe_head (g_ring U)) (sqe_tail (g_ring U))) (sq_array (g_ring U))"
    "sq_tail (g_ring U') = sqe_tail (g_ring U)" "queued (g_ring U') = 0" "n = int (unat (queued (g_ring U))) \<or> n = - 1"
    using assms(2-5)
    by (auto simp: fasync_submit_def fasync_submit_locked_def zsys_defs Let_def ring_walk_fold split: if_splits)
  then show ?thesis
    using ring_cells_distinct [OF q(2)] q length_ring_indices
    by (auto simp: publish_fold FASYNC_RING_ENTRIES_def)
qed

text \<open>The drain ends and loses nothing: it consumes every completion up to the kernel's tail,
  past the wrap of the ring indices, gives each pending request the first completion that
  carries its id, and leaves every other request alone; late or repeated completions are
  ignored.\<close>

theorem drain_collects:
  assumes "uring_reach K U" and "ready (g_ring U)" and "s < FASYNC_MAX_INFLIGHT"
  shows "local_cq_head (g_ring (fasync_native_drain U)) = cq_tail (g_ring U) \<and>
    cq_head (g_ring (fasync_native_drain U)) = cq_tail (g_ring U) \<and>
    length (new_cqes U) = unat (cq_tail (g_ring U) - local_cq_head (g_ring U)) \<and>
    req_slots (fasync_native_drain U) s =
      (if rq_state (req_slots U s) = FASYNC_REQ_PENDING
       then (case first_cqe (new_cqes U) (rq_id (req_slots U s)) of None \<Rightarrow> req_slots U s
             | Some c \<Rightarrow> finished_by c (req_slots U s))
       else req_slots U s)"
proof -
  obtain fs where fs: "table_inv fs U" using uring_reach_inv [OF assms(1)] assms(2) by (auto simp: uring_inv_def)
  show ?thesis
    using fold_reap_slots [OF fs assms(3), of "new_cqes U"]
    by (simp add: drain_eq [OF assms(2)] length_ring_indices new_cqes_def)
qed

text \<open>A full table refuses cleanly: with every slot in use, a well-formed push returns 0 with
  \<open>EAGAIN\<close> and changes nothing else, which is what the runtime's reclaim loop relies on.\<close>

theorem push_full:
  assumes "uring_reach K U" and "ready (g_ring U)" and "\<forall>s < FASYNC_MAX_INFLIGHT. slot_live U s"
    and "len \<le> FASYNC_MAX_LEN" and "fd \<noteq> ring_fd (g_ring U)"
  shows "fasync_push_sqe K op fd a len offset rb rl flags U =
    (0, U\<lparr>g_last_error := ''request table full'', errno := EAGAIN\<rparr>)"
proof -
  obtain fs where fs: "table_inv fs U" using uring_reach_inv [OF assms(1)] assms(2) by (auto simp: uring_inv_def)
  then have "fs = []" using assms(3) by (cases fs) (auto simp: table_inv_def)
  with fs have "g_req_free_head U = 0" by (simp add: table_inv_def)
  then show ?thesis
    using assms(2,4,5)
    by (simp add: fasync_push_sqe_def fasync_ensure_ring_def fasync_req_alloc_def Let_def not_less)
qed

lemma steps_reach: "(uring_step K)\<^sup>*\<^sup>* U V \<Longrightarrow> uring_reach K U \<Longrightarrow> uring_reach K V"
  by (induction rule: rtranclp_induct) (auto intro: uring_reach.step)

section \<open>Waiting for everything\<close>

lemma inflight_zero:
  assumes "uring_inv U" and "g_inflight U = 0"
  shows "pending_slots U = {}"
proof (cases "ready (g_ring U)")
  case True
  have "card (pending_slots U) \<le> card {..<FASYNC_MAX_INFLIGHT}"
    by (rule card_mono) (auto simp: pending_slots_def)
  then have "card (pending_slots U) < 2 ^ 64" by (simp add: FASYNC_MAX_INFLIGHT_def)
  moreover have "of_nat (card (pending_slots U)) = (0 :: u64)" using assms True by (simp add: uring_inv_def)
  ultimately have "card (pending_slots U) = 0" using of_nat_word_eq_0 [where 'a = 64] by simp
  then show ?thesis by simp
next
  case False
  then show ?thesis using assms(1) by (simp add: uring_inv_def pending_slots_def)
qed

lemma pending_bound: "card (pending_slots U) < SPIN_LIMIT"
proof -
  have "card (pending_slots U) \<le> card {..<FASYNC_MAX_INFLIGHT}"
    by (rule card_mono) (auto simp: pending_slots_def)
  then show ?thesis by (simp add: FASYNC_MAX_INFLIGHT_def SPIN_LIMIT_def)
qed

text \<open>What the kernel does while the thread sleeps is a sequence of posts.\<close>

definition wake_ok :: "kernel \<Rightarrow> (uring \<Rightarrow> uring) \<Rightarrow> bool" where
  "wake_ok K wake \<longleftrightarrow> (\<forall>V. (uring_step K)\<^sup>*\<^sup>* V (wake V) \<and> ready (g_ring (wake V)) = ready (g_ring V))"

lemma drain_reach: "uring_reach K U \<Longrightarrow> uring_reach K (fasync_poll U)"
  unfolding fasync_poll_def by (rule uring_reach.step [OF _ uring_step.drain])

lemma block_reach:
  assumes "wake_ok K wake" and "uring_reach K U"
  shows "uring_reach K (fasync_block wake U)"
proof (cases "ready (g_ring U)")
  case True
  let ?V = "upd_stats (\<lambda>t. t\<lparr>parks := parks t + 1, kernel_wait_entries := kernel_wait_entries t + 1\<rparr>) U"
  have "uring_reach K ?V" by (rule uring_reach.step [OF assms(2) uring_step.count])
  moreover have "(uring_step K)\<^sup>*\<^sup>* ?V (wake ?V)" using assms(1) unfolding wake_ok_def by blast
  ultimately have "uring_reach K (wake ?V)" using steps_reach by blast
  then show ?thesis using True uring_reach.step [OF _ uring_step.drain] by (simp add: fasync_block_def)
qed (use assms in \<open>simp add: fasync_block_def\<close>)

lemma submit_reach: "uring_reach K U \<Longrightarrow> uring_reach K (snd (fasync_submit_locked K U))"
  by (rule uring_reach.step [OF _ uring_step.submit [of K U "fst (fasync_submit_locked K U)"]])
     (simp_all add: fasync_submit_def)

lemma wait_all_loop_done:
  assumes "wake_ok K wake" and "uring_reach K U" and "wait_all_loop n wake U = (0, U')"
  shows "uring_reach K U' \<and> g_inflight U' = 0"
  using assms(2,3)
proof (induction n arbitrary: U)
  case (Suc n)
  show ?case
    using Suc.IH [OF block_reach [OF assms(1) drain_reach [OF Suc.prems(1)]]] Suc.prems drain_reach
    by (auto simp: Let_def split: if_splits)
qed simp

lemma wait_all_loop_ends:
  assumes w: "wake_ok K wake"
    and prog: "\<And>V. uring_reach K V \<Longrightarrow> pending_slots V \<noteq> {} \<Longrightarrow> pending_slots (fasync_block wake V) \<subset> pending_slots V"
    and "uring_reach K U" and "card (pending_slots U) < n"
  shows "fst (wait_all_loop n wake U) = 0"
  using assms(3,4)
proof (induction n arbitrary: U)
  case (Suc n)
  let ?V = "fasync_poll U"
  have V: "uring_reach K ?V" by (rule drain_reach [OF Suc.prems(1)])
  have sub: "pending_slots ?V \<subseteq> pending_slots U"
  proof (cases "ready (g_ring U)")
    case True
    obtain fs where fs: "table_inv fs U" using uring_reach_inv [OF Suc.prems(1)] True by (auto simp: uring_inv_def)
    have "req_slots ?V i = req_slots (fold reap_one (new_cqes U) U) i" for i
      by (simp add: fasync_poll_def drain_eq [OF True])
    then show ?thesis
      using fold_reap_slots [OF fs, of _ "new_cqes U"] by (auto simp: pending_slots_def split: if_splits)
  qed (simp add: fasync_poll_def fasync_native_drain_def)
  show ?case
  proof (cases "g_inflight U = 0 \<or> g_inflight ?V = 0")
    case False
    have "pending_slots ?V \<noteq> {}"
    proof
      assume e: "pending_slots ?V = {}"
      have "g_inflight ?V = of_nat (card (pending_slots ?V)) \<or> g_inflight ?V = 0"
        using uring_reach_inv [OF V] by (auto simp: uring_inv_def split: if_splits)
      with e False show False by simp
    qed
    then have "pending_slots (fasync_block wake ?V) \<subset> pending_slots U" using prog [OF V] sub by blast
    from psubset_card_mono [OF finite_pending this]
    have "card (pending_slots (fasync_block wake ?V)) < n" using Suc.prems(2) by linarith
    then show ?thesis using Suc.IH [OF block_reach [OF w V]] False by (simp add: Let_def)
  qed (auto simp: Let_def)
qed simp

text \<open>When \<open>fasync_wait_all\<close> reports success nothing is pending: whatever the kernel completed
  in the meantime, no request of the table still waits for its completion.\<close>

theorem wait_all_quiesces:
  assumes "wake_ok K wake" and "uring_reach K U" and "fasync_wait_all K wake U = (0, U')"
  shows "pending_slots U' = {} \<and> uring_reach K U'"
proof -
  have "uring_reach K U' \<and> g_inflight U' = 0"
    using wait_all_loop_done [OF assms(1) submit_reach [OF assms(2)]] assms(3) by (simp add: fasync_wait_all_def)
  then show ?thesis using inflight_zero uring_reach_inv by blast
qed

text \<open>\<open>fasync_wait_all\<close> succeeds if each sleep sees at least one request through: the spin bound
  is far above the number of slots, so it never gives up on a kernel that makes progress.\<close>

theorem wait_all_succeeds:
  assumes "wake_ok K wake" and "uring_reach K U"
    and "\<And>V. uring_reach K V \<Longrightarrow> pending_slots V \<noteq> {} \<Longrightarrow> pending_slots (fasync_block wake V) \<subset> pending_slots V"
  shows "fst (fasync_wait_all K wake U) = 0"
  unfolding fasync_wait_all_def
  by (rule wait_all_loop_ends [OF assms(1,3) submit_reach [OF assms(2)] pending_bound])

section \<open>Witnesses\<close>

definition slot_zero :: fasync_req_shared where
  "slot_zero = \<lparr>rq_id = 0, rq_gen = 0, rq_buf = 0, rq_len = 0, rq_offset = 0, rq_fd = 0, rq_op = 0,
     rq_state = FASYNC_REQ_FREE, rq_linked = False, rq_result = 0, rq_task = 0\<rparr>"

definition ring_zero :: fasync_ring where
  "ring_zero = \<lparr>ring_fd = 0, ready = False, sqes = (\<lambda>_. sqe_zero), sq_tail = 0, sq_mask = 0,
     sq_array = (\<lambda>_. 0), cqes = (\<lambda>_. \<lparr>cqe_user_data = 0, cqe_res = 0\<rparr>), cq_head = 0, cq_tail = 0,
     cq_mask = 0, sqe_tail = 0, sqe_head = 0, queued = 0, local_cq_head = 0\<rparr>"

definition demo_kernel :: kernel where
  "demo_kernel = \<lparr>k_memory = True, k_setup = 5, k_sq_mask = 1023, k_cq_mask = 2047,
     k_enter = (\<lambda>_ n. int (unat n))\<rparr>"

definition demo_uring :: uring where "demo_uring = uring_init (\<lambda>_. slot_zero) ring_zero"

definition demo_read :: "uring \<Rightarrow> fasync_id \<times> uring" where
  "demo_read = fasync_push_sqe demo_kernel FASYNC_OP_READ 3 0x1000 64 0 0x1000 64 0"

definition demo_pushed :: uring where "demo_pushed = snd (demo_read demo_uring)"

lemma demo_uring_reach: "uring_reach K demo_uring"
  unfolding demo_uring_def by (rule uring_reach.start) (simp add: uring_start_def slot_zero_def ring_zero_def)

lemma demo_read_reach: "uring_reach demo_kernel U \<Longrightarrow> uring_reach demo_kernel (snd (demo_read U))"
  unfolding demo_read_def
  by (rule uring_reach.step [OF _ uring_step.push [OF prod.collapse [symmetric]]])

lemmas push_eval = demo_read_def fasync_push_sqe_def fasync_ensure_ring_def fasync_ring_init_def zsys_defs
  fasync_req_alloc_def fasync_req_table_init_def fasync_get_sqe_def push_request_def fasync_slot_mark_def
  demo_kernel_def demo_uring_def uring_init_def ring_zero_def slot_zero_def FASYNC_MAX_LEN_def
  FASYNC_RING_ENTRIES_def FASYNC_MAX_INFLIGHT_def next_gen_def make_id_def Let_def

lemma demo_push: "demo_read demo_uring = (0x100000000, demo_pushed)"
  unfolding demo_pushed_def by (simp add: push_eval)

lemma demo_pushed_facts:
  "ready (g_ring demo_pushed)" "queued (g_ring demo_pushed) = 1" "sq_mask (g_ring demo_pushed) = 1023"
  "cq_mask (g_ring demo_pushed) = 2047" "cq_tail (g_ring demo_pushed) = 0" "local_cq_head (g_ring demo_pushed) = 0"
  "rq_state (req_slots demo_pushed 0) = FASYNC_REQ_PENDING" "rq_id (req_slots demo_pushed 0) = 0x100000000"
  "req_next_gen demo_pushed = 1" "sqe_head (g_ring demo_pushed) = 0" "sqe_tail (g_ring demo_pushed) = 1"
  "ring_fd (g_ring demo_pushed) = 5"
  by (simp_all add: demo_pushed_def push_eval)

lemma demo_pushed_reach: "uring_reach demo_kernel demo_pushed"
  unfolding demo_pushed_def by (rule demo_read_reach [OF demo_uring_reach])

theorem request_table_exact_witness: "fasync_req_lookup 0x100000000 demo_pushed = Some 0"
  using request_table_exact [OF demo_pushed_reach demo_pushed_facts(1), of "0x100000000" 0]
  by (simp add: slot_live_def demo_pushed_facts FASYNC_MAX_INFLIGHT_def)

theorem push_sqe_fresh_witness: "\<exists>s. fasync_req_lookup 0x100000000 demo_pushed = Some s"
  using push_sqe_fresh [OF demo_uring_reach demo_push [unfolded demo_read_def]] by auto

definition demo_done :: uring where
  "demo_done = fasync_native_drain (post_cqe \<lparr>cqe_user_data = 0x100000000, cqe_res = 64\<rparr> demo_pushed)"

lemma demo_post_reach: "uring_reach demo_kernel (post_cqe c demo_pushed)"
  by (rule uring_reach.step [OF demo_pushed_reach uring_step.post])

lemma demo_post_ready: "ready (g_ring (post_cqe c demo_pushed))"
  by (simp add: post_cqe_def demo_pushed_facts)

lemma demo_new_cqes: "new_cqes (post_cqe c demo_pushed) = [c]"
  by (simp add: new_cqes_def post_cqe_def demo_pushed_facts ring_indices_def)

theorem drain_collects_witness:
  "req_slots demo_done 0 = finished_by \<lparr>cqe_user_data = 0x100000000, cqe_res = 64\<rparr> (req_slots demo_pushed 0)"
  using drain_collects [OF demo_post_reach demo_post_ready, of 0 "\<lparr>cqe_user_data = 0x100000000, cqe_res = 64\<rparr>"]
  by (simp add: demo_done_def demo_new_cqes first_cqe_def FASYNC_MAX_INFLIGHT_def)
     (simp add: post_cqe_def demo_pushed_facts)

lemma demo_done_facts:
  "uring_reach demo_kernel demo_done" "ready (g_ring demo_done)" "slot_live demo_done 0"
  "rq_state (req_slots demo_done 0) = FASYNC_REQ_DONE" "rq_id (req_slots demo_done 0) = 0x100000000"
  "req_next_gen demo_done = 1"
proof -
  show r: "uring_reach demo_kernel demo_done"
    unfolding demo_done_def by (rule uring_reach.step [OF demo_post_reach uring_step.drain])
  show "rq_state (req_slots demo_done 0) = FASYNC_REQ_DONE" "rq_id (req_slots demo_done 0) = 0x100000000"
    "slot_live demo_done 0"
    by (simp_all add: drain_collects_witness finished_by_def demo_pushed_facts slot_live_def FASYNC_MAX_INFLIGHT_def)
  show "ready (g_ring demo_done)"
    unfolding demo_done_def drain_eq [OF demo_post_ready] using demo_post_ready by simp
  show "req_next_gen demo_done = 1"
    unfolding demo_done_def drain_inv(2) [OF uring_reach_inv [OF demo_post_reach]]
    by (simp add: post_cqe_def demo_pushed_facts)
qed

theorem released_id_stale_witness:
  "fasync_req_lookup 0x100000000 (snd (demo_read (fasync_req_release 0 demo_done))) = None"
proof (rule released_id_stale [OF demo_done_facts(1,3,5)])
  let ?U = "fasync_req_release 0 demo_done"
  have st: "uring_step demo_kernel ?U (snd (demo_read ?U))"
    unfolding demo_read_def by (rule uring_step.push [OF prod.collapse [symmetric]])
  have "uring_inv ?U"
    by (rule uring_step_inv [OF uring_step.release uring_reach_inv [OF demo_done_facts(1)]])
       (simp_all add: demo_done_facts)
  moreover have "req_next_gen ?U = 1" by (simp add: fasync_req_release_def Let_def demo_done_facts)
  ultimately have "req_next_gen (snd (demo_read ?U)) = 1 \<or> req_next_gen (snd (demo_read ?U)) = 2"
    using step_gen [OF st] by (simp add: next_gen_def)
  then show "(forward_step demo_kernel)\<^sup>*\<^sup>* ?U (snd (demo_read ?U))"
    using st \<open>req_next_gen ?U = 1\<close> by (auto simp: forward_step_def)
qed (simp_all add: demo_done_facts id_gen_def)

theorem submit_publishes_witness:
  "\<exists>n U'. fasync_submit demo_kernel demo_pushed = (n, U') \<and> sq_array (g_ring U') 0 = 0 \<and> sq_tail (g_ring U') = 1"
proof -
  obtain n U' where s: "fasync_submit demo_kernel demo_pushed = (n, U')" by force
  have "0 \<in> set (map (\<lambda>i. i AND 1023) (ring_indices 0 (1 :: u32)))" by (simp add: ring_indices_def)
  with submit_publishes [OF demo_pushed_reach _ _ _ s] s show ?thesis
    by (simp add: demo_pushed_facts)
qed

text \<open>With the witness kernel a push finds a free slot as long as there is one, so the table fills.\<close>

lemma demo_read_succeeds:
  assumes "uring_inv U" and "ready (g_ring U)" and "ring_fd (g_ring U) = 5" and "g_req_free_head U \<noteq> 0"
  shows "fst (demo_read U) \<noteq> 0 \<and> ring_fd (g_ring (snd (demo_read U))) = 5"
proof -
  obtain s U1 where al: "fasync_req_alloc U = (Some s, U1)"
    using assms(4) by (simp add: fasync_req_alloc_def Let_def)
  obtain fs where fs: "table_inv fs U" using assms(1,2) by (auto simp: uring_inv_def)
  obtain rest where a: "s < FASYNC_MAX_INFLIGHT" "g_ring U1 = g_ring U"
      "rq_id (req_slots U1 s) = make_id (ucast (next_gen (req_next_gen U))) s"
    by (rule alloc_Some [OF fs al])
  obtain r U2 where g: "fasync_get_sqe demo_kernel U1 = (r, U2)" by force
  obtain m V where sm: "fasync_submit_locked demo_kernel U1 = (m, V)" by force
  have m: "0 \<le> m" using sm by (auto simp: fasync_submit_locked_def zsys_defs Let_def demo_kernel_def split: if_splits)
  have r: "r \<noteq> None"
    using g m sm by (auto simp: fasync_get_sqe_def fasync_submit_def split: if_splits)
  have fd: "ring_fd (g_ring U2) = 5"
    using g submit_spec(7) [OF sm] sm a(2) assms(3) by (auto simp: fasync_get_sqe_def fasync_submit_def split: if_splits)
  have sl: "req_slots U2 = req_slots U1" using get_sqe_spec(1) [OF g] by (simp add: same_table_def)
  have p: "demo_read U = (let U3 = push_request FASYNC_OP_READ 3 0x1000 64 0 0x1000 64 0 s (the r) U2 in (rq_id (req_slots U3 s), U3))"
    using assms(2,3) al g r by (auto simp: demo_read_def fasync_push_sqe_def fasync_ensure_ring_def FASYNC_MAX_LEN_def)
  show ?thesis
    using make_id_nonzero [OF a(1) next_gen_nonzero, of "req_next_gen U"] a(3) sl fd
    by (simp add: p Let_def push_request_def)
qed

lemma demo_fill:
  "n \<le> FASYNC_MAX_INFLIGHT \<Longrightarrow> \<exists>U. uring_reach demo_kernel U \<and> (0 < n \<longrightarrow> ready (g_ring U) \<and> ring_fd (g_ring U) = 5) \<and>
     n \<le> card {s. slot_live U s}"
proof (induction n)
  case 0
  then show ?case using demo_uring_reach by blast
next
  case (Suc n)
  then obtain U where U: "uring_reach demo_kernel U" "0 < n \<longrightarrow> ready (g_ring U) \<and> ring_fd (g_ring U) = 5"
    "n \<le> card {s. slot_live U s}" by auto
  have fin: "finite {s. slot_live V s}" for V
    by (rule finite_subset [of _ "{..<FASYNC_MAX_INFLIGHT}"]) (auto simp: slot_live_def)
  show ?case
  proof (cases "n = 0")
    case True
    have "slot_live demo_pushed 0" by (simp add: slot_live_def demo_pushed_facts FASYNC_MAX_INFLIGHT_def)
    then have "card {s. slot_live demo_pushed s} \<noteq> 0" using fin by auto
    then show ?thesis using True demo_pushed_reach demo_pushed_facts(1,12) by (intro exI [of _ demo_pushed]) simp
  next
    case False
    then have rd: "ready (g_ring U)" "ring_fd (g_ring U) = 5" using U(2) by simp_all
    note inv = uring_reach_inv [OF U(1)]
    obtain fs where fs: "table_inv fs U" using inv rd by (auto simp: uring_inv_def)
    show ?thesis
    proof (cases "Suc n \<le> card {s. slot_live U s}")
      case True
      then show ?thesis using U(1) rd by blast
    next
      case False
      have "fs \<noteq> []"
      proof
        assume "fs = []"
        then have "{..<FASYNC_MAX_INFLIGHT} \<subseteq> {s. slot_live U s}" using fs by (auto simp: table_inv_def)
        from card_mono [OF fin this] False Suc.prems show False by simp
      qed
      then have "g_req_free_head U \<noteq> 0" using fs by (cases fs) (auto simp: table_inv_def)
      note ok = demo_read_succeeds [OF inv rd this]
      obtain x V where x: "demo_read U = (x, V)" by force
      then have p: "fasync_push_sqe demo_kernel FASYNC_OP_READ 3 0x1000 64 0 0x1000 64 0 U = (x, V)"
        by (simp add: demo_read_def)
      have V: "uring_reach demo_kernel V" using demo_read_reach [OF U(1)] x by simp
      show ?thesis
      proof (rule push_cases [OF inv p])
        fix s assume s: "ready (g_ring V)" "\<not> slot_live U s" "slot_live V s"
          "\<And>i. i \<noteq> s \<Longrightarrow> slot_live V i = slot_live U i"
        have "slot_live V t = (t = s \<or> slot_live U t)" for t using s(3) s(4) [of t] by (cases "t = s") auto
        then have "{t. slot_live V t} = insert s {t. slot_live U t}" by auto
        then have "Suc n \<le> card {t. slot_live V t}" using U(3) s(2) fin by simp
        then show ?thesis using V s(1) ok x by auto
      qed (use ok x in simp)
    qed
  qed
qed

theorem push_full_witness:
  "\<exists>U. uring_reach demo_kernel U \<and> fst (demo_read U) = 0 \<and> errno (snd (demo_read U)) = EAGAIN"
proof -
  obtain U where U: "uring_reach demo_kernel U" "ready (g_ring U)" "ring_fd (g_ring U) = 5"
    "FASYNC_MAX_INFLIGHT \<le> card {s. slot_live U s}"
    using demo_fill [of FASYNC_MAX_INFLIGHT] by (auto simp: FASYNC_MAX_INFLIGHT_def)
  have "{s. slot_live U s} = {..<FASYNC_MAX_INFLIGHT}"
    by (rule card_seteq) (use U(4) in \<open>auto simp: slot_live_def\<close>)
  then have "\<forall>s < FASYNC_MAX_INFLIGHT. slot_live U s" by blast
  from push_full [OF U(1,2) this, of 64 3] U show ?thesis
    by (intro exI [of _ U]) (simp add: demo_read_def FASYNC_MAX_LEN_def)
qed

text \<open>A kernel that completes the first pending request during each sleep.\<close>

definition demo_wake :: "uring \<Rightarrow> uring" where
  "demo_wake V =
    (let V1 = fasync_native_drain V in
     case filter (\<lambda>i. rq_state (req_slots V1 i) = FASYNC_REQ_PENDING) [0..<FASYNC_MAX_INFLIGHT] of
       [] \<Rightarrow> V1
     | i # _ \<Rightarrow> post_cqe \<lparr>cqe_user_data = rq_id (req_slots V1 i), cqe_res = 0\<rparr> V1)"

lemma drain_ready: "ready (g_ring (fasync_native_drain V)) = ready (g_ring V)"
proof (cases "ready (g_ring V)")
  case True
  then show ?thesis unfolding drain_eq [OF True] by simp
qed (simp add: fasync_native_drain_def)

lemma demo_wake_ok: "wake_ok K demo_wake"
  unfolding wake_ok_def
proof (intro allI conjI)
  fix V
  let ?V1 = "fasync_native_drain V"
  have "(uring_step K)\<^sup>*\<^sup>* V ?V1" by (rule r_into_rtranclp [of "uring_step K", OF uring_step.drain])
  then show "(uring_step K)\<^sup>*\<^sup>* V (demo_wake V)"
    by (auto simp: demo_wake_def Let_def split: list.splits
        intro: rtranclp.rtrancl_into_rtrancl uring_step.post)
  show "ready (g_ring (demo_wake V)) = ready (g_ring V)"
    by (auto simp: demo_wake_def Let_def post_cqe_def drain_ready split: list.splits)
qed

lemma drain_pending:
  assumes inv: "uring_inv U" and rd: "ready (g_ring U)"
  shows "pending_slots (fasync_native_drain U) =
    {s \<in> pending_slots U. first_cqe (new_cqes U) (rq_id (req_slots U s)) = None}"
proof -
  obtain fs where fs: "table_inv fs U" using inv rd by (auto simp: uring_inv_def)
  have "req_slots (fasync_native_drain U) = req_slots (fold reap_one (new_cqes U) U)"
    by (simp add: drain_eq [OF rd])
  then show ?thesis
    using fold_reap_slots [OF fs, of _ "new_cqes U"]
    by (auto simp: pending_slots_def finished_by_def split: option.splits if_splits)
qed

lemma demo_wake_progress:
  assumes r: "uring_reach K V" and p: "pending_slots V \<noteq> {}"
  shows "pending_slots (fasync_block demo_wake V) \<subset> pending_slots V"
proof -
  have rd: "ready (g_ring V)"
    using uring_reach_inv [OF r] p by (auto simp: uring_inv_def pending_slots_def split: if_splits)
  define V0 where "V0 = upd_stats (\<lambda>t. t\<lparr>parks := parks t + 1, kernel_wait_entries := kernel_wait_entries t + 1\<rparr>) V"
  define V1 where "V1 = fasync_native_drain V0"
  have r0: "uring_reach K V0" unfolding V0_def by (rule uring_reach.step [OF r uring_step.count])
  have r1: "uring_reach K V1" unfolding V1_def by (rule uring_reach.step [OF r0 uring_step.drain])
  have rd0: "ready (g_ring V0)" and rd1: "ready (g_ring V1)" using rd by (simp_all add: V0_def V1_def drain_ready)
  have "pending_slots V1 \<subseteq> pending_slots V0"
    unfolding V1_def drain_pending [OF uring_reach_inv [OF r0] rd0] by blast
  then have sub: "pending_slots V1 \<subseteq> pending_slots V" by (simp add: V0_def pending_slots_def)
  have blk: "fasync_block demo_wake V = fasync_native_drain (demo_wake V0)"
    using rd by (simp add: fasync_block_def V0_def)
  let ?ps = "filter (\<lambda>i. rq_state (req_slots V1 i) = FASYNC_REQ_PENDING) [0..<FASYNC_MAX_INFLIGHT]"
  have ps: "set ?ps = pending_slots V1" by (auto simp: pending_slots_def)
  show ?thesis
  proof (cases ?ps)
    case Nil
    have w: "demo_wake V0 = V1" by (simp add: demo_wake_def Let_def V1_def [symmetric] Nil)
    have "pending_slots V1 = {}" using ps Nil by (metis list.set(1))
    then have "pending_slots (fasync_native_drain V1) = {}"
      unfolding drain_pending [OF uring_reach_inv [OF r1] rd1] by blast
    then show ?thesis using p by (simp only: blk w psubset_eq) blast
  next
    case (Cons i rest)
    define c where "c = \<lparr>cqe_user_data = rq_id (req_slots V1 i), cqe_res = (0::int)\<rparr>"
    define V2 where "V2 = post_cqe c V1"
    have w: "demo_wake V0 = V2" by (simp add: demo_wake_def Let_def V1_def [symmetric] Cons V2_def c_def)
    have i: "i \<in> pending_slots V1" using ps Cons by (metis list.set_intros(1))
    have r2: "uring_reach K V2" unfolding V2_def by (rule uring_reach.step [OF r1 uring_step.post])
    have rd2: "ready (g_ring V2)" using rd1 by (simp add: V2_def post_cqe_def)
    have hd: "local_cq_head (g_ring V1) = cq_tail (g_ring V1)" unfolding V1_def drain_eq [OF rd0] by simp
    have new: "new_cqes V2 = [c]"
      by (simp add: new_cqes_def V2_def post_cqe_def hd ring_indices_def)
    have "pending_slots (fasync_native_drain V2) \<subseteq> pending_slots V1 - {i}"
      unfolding drain_pending [OF uring_reach_inv [OF r2] rd2] new
      by (auto simp: first_cqe_def c_def V2_def post_cqe_def pending_slots_def split: if_splits)
    then show ?thesis unfolding blk w using i sub by blast
  qed
qed

theorem wait_all_succeeds_witness: "fst (fasync_wait_all demo_kernel demo_wake demo_pushed) = 0"
  by (rule wait_all_succeeds [OF demo_wake_ok demo_pushed_reach demo_wake_progress])

theorem wait_all_quiesces_witness:
  "pending_slots (snd (fasync_wait_all demo_kernel demo_wake demo_pushed)) = {}"
proof -
  have "fst (fasync_wait_all demo_kernel demo_wake demo_pushed) = 0"
    unfolding fasync_wait_all_def
    by (rule wait_all_loop_ends [OF demo_wake_ok demo_wake_progress submit_reach [OF demo_pushed_reach] pending_bound])
  then have "fasync_wait_all demo_kernel demo_wake demo_pushed = (0, snd (fasync_wait_all demo_kernel demo_wake demo_pushed))"
    by (metis prod.collapse)
  from wait_all_quiesces [OF demo_wake_ok demo_pushed_reach this] show ?thesis by blast
qed

end
