(* ===== verification/UringRuns.thy ===== *)
theory UringRuns
  imports Tokens RequestRuns FrameworkRuns Startup
begin

text \<open>
  What the io_uring runtime guarantees: waiting only settles requests and returns, a tagged
  call waits for the calls it conflicts with, a pending open's handle round trip, which
  functions the runtime registers, and its contract with the framework that polls it.
\<close>

section \<open>Waiting only settles requests\<close>

definition settles :: "uring \<Rightarrow> uring \<Rightarrow> bool" where
  "settles U U' \<longleftrightarrow> (\<forall>s. rq_gen (req_slots U' s) = rq_gen (req_slots U s) \<and>
     rq_task (req_slots U' s) = rq_task (req_slots U s) \<and>
     (rq_state (req_slots U' s) = FASYNC_REQ_PENDING \<longrightarrow> rq_state (req_slots U s) = FASYNC_REQ_PENDING) \<and>
     (rq_state (req_slots U' s) = FASYNC_REQ_FREE) = (rq_state (req_slots U s) = FASYNC_REQ_FREE))"

text \<open>While a thread sleeps the kernel writes the rings and other threads collect completions.\<close>

definition wake_settles :: "(uring \<Rightarrow> uring) \<Rightarrow> bool" where
  "wake_settles wake \<longleftrightarrow> (\<forall>U. settles U (wake U))"

lemma settles_refl [simp]: "settles U U"
  by (simp add: settles_def)

lemma settles_slots: "req_slots U' = req_slots U \<Longrightarrow> settles U U'"
  by (simp add: settles_def)

lemma settles_trans: "settles U V \<Longrightarrow> settles V W \<Longrightarrow> settles U W"
  unfolding settles_def by simp

lemma settles_lookup: "settles U U' \<Longrightarrow> fasync_req_lookup i U' = fasync_req_lookup i U"
  by (auto simp: settles_def fasync_req_lookup_def Let_def)

lemma settles_pending: "settles U U' \<Longrightarrow> req_pending i U' \<Longrightarrow> req_pending i U"
  using settles_lookup [of U U' i] by (auto simp: req_pending_def settles_def split: option.splits)

lemma reap_one_settles: "settles U (reap_one e U)"
  by (auto simp: settles_def reap_one_def Let_def)

lemma drain_walk_settles:
  "settles V (fst (ring_walk (\<lambda>h (V, c). (reap_one (cqes (g_ring V) (h AND msk)) V, c + 1)) i tail (V, c)))"
proof (induction "unat (tail - i)" arbitrary: i V c rule: less_induct)
  case less
  show ?case
  proof (cases "i = tail")
    case True
    then show ?thesis by (subst ring_walk.simps) simp
  next
    case False
    then show ?thesis
      using less [of "i + 1", OF ring_walk_less [OF False]] reap_one_settles settles_trans
      by (subst ring_walk.simps) (simp, blast)
  qed
qed

lemma drain_settles: "settles U (fasync_native_drain U)"
proof (cases "ready (g_ring U)")
  case True
  define U1 where "U1 = upd_stats (\<lambda>t. t\<lparr>userspace_cq_polls := userspace_cq_polls t + 1\<rparr>) U"
  define R where "R = ring_walk (\<lambda>h (V, c). (reap_one (cqes (g_ring V) (h AND cq_mask (g_ring U))) V, c + 1))
      (local_cq_head (g_ring U)) (cq_tail (g_ring U)) (U1, 0::u32)"
  have "settles U1 (fst R)" unfolding R_def by (rule drain_walk_settles)
  moreover have "settles U U1" by (rule settles_slots) (simp add: U1_def)
  ultimately have st: "settles U (fst R)" using settles_trans by blast
  have "req_slots (fasync_native_drain U) = req_slots (fst R)"
    using True unfolding fasync_native_drain_def Let_def U1_def [symmetric] R_def [symmetric]
    by (simp add: case_prod_beta)
  from settles_slots [OF this] st show ?thesis using settles_trans by blast
qed (simp add: fasync_native_drain_def)

lemma poll_settles: "settles U (fasync_poll U)"
  by (simp add: fasync_poll_def drain_settles)

lemma block_settles: "wake_settles wake \<Longrightarrow> settles U (fasync_block wake U)"
proof -
  assume w: "wake_settles wake"
  let ?V = "wake (upd_stats (\<lambda>t. t\<lparr>parks := parks t + 1, kernel_wait_entries := kernel_wait_entries t + 1\<rparr>) U)"
  let ?U = "upd_stats (\<lambda>t. t\<lparr>parks := parks t + 1, kernel_wait_entries := kernel_wait_entries t + 1\<rparr>) U"
  have "settles ?U ?V" using w unfolding wake_settles_def by blast
  then have "settles U ?V" using settles_trans [OF settles_slots [of ?U U]] by simp
  from settles_trans [OF this drain_settles] show ?thesis by (simp add: fasync_block_def)
qed

lemma submit_settles: "settles U (snd (fasync_submit K U))"
  by (rule settles_slots) (simp add: fasync_submit_def fasync_submit_locked_def zsys_defs Let_def)

lemma ready_settles: "fasync_ready i U = (rdy, U') \<Longrightarrow> settles U U'"
  by (auto simp: fasync_ready_def Let_def poll_settles split: option.splits if_splits)

lemma req_wait_loop_settles:
  assumes "wake_settles wake"
  shows "req_wait_loop n wake s U = Inr U' \<Longrightarrow>
    settles U U' \<and> rq_state (req_slots U' s) \<noteq> FASYNC_REQ_PENDING"
proof (induction n arbitrary: U)
  case 0
  then show ?case by (subst (asm) req_wait_loop.simps) (auto split: if_splits)
next
  case (Suc n)
  let ?U1 = "fasync_poll U"
  let ?U2 = "if rq_state (req_slots ?U1 s) = FASYNC_REQ_PENDING then fasync_block wake ?U1 else ?U1"
  have st: "settles U ?U2" using poll_settles block_settles [OF assms] settles_trans by simp blast
  show ?case
  proof (cases "rq_state (req_slots U s) = FASYNC_REQ_PENDING")
    case True
    then have "req_wait_loop n wake s ?U2 = Inr U'"
      using Suc.prems by (subst (asm) req_wait_loop.simps) (simp add: Let_def)
    from Suc.IH [OF this] st show ?thesis using settles_trans by blast
  next
    case False
    then show ?thesis using Suc.prems by (subst (asm) req_wait_loop.simps) simp
  qed
qed

lemma req_wait_settles:
  assumes "wake_settles (os_wake Os)" and "fasync_req_wait Os s U = Inr (r, U')"
  shows "settles U U' \<and> rq_state (req_slots U' s) \<noteq> FASYNC_REQ_PENDING \<and> r = rq_result (req_slots U' s)"
proof -
  let ?U0 = "if rq_state (req_slots U s) = FASYNC_REQ_PENDING then snd (fasync_submit (os_kernel Os) U) else U"
  have "req_wait_loop (os_fuel Os) (os_wake Os) s ?U0 = Inr U'" "r = rq_result (req_slots U' s)"
    using assms(2) unfolding fasync_req_wait_def Let_def by auto
  moreover have "settles U ?U0" using submit_settles by simp
  ultimately show ?thesis using req_wait_loop_settles [OF assms(1)] settles_trans by blast
qed

section \<open>Tagged calls\<close>

lemma wait_pending_settles:
  assumes "wake_settles (os_wake Os)" and "wait_pending Os i U = Inr U'"
  shows "settles U U' \<and> \<not> req_pending i U'"
proof (cases "fasync_req_lookup i U")
  case None
  then show ?thesis using assms(2) by (simp add: wait_pending_def req_pending_def)
next
  case (Some s)
  show ?thesis
  proof (cases "rq_state (req_slots U s) = FASYNC_REQ_PENDING")
    case True
    then obtain r where "fasync_req_wait Os s U = Inr (r, U')"
      using assms(2) Some by (cases "fasync_req_wait Os s U") (auto simp: wait_pending_def)
    from req_wait_settles [OF assms(1) this] show ?thesis
      using settles_lookup [of U U' i] Some by (simp add: req_pending_def)
  next
    case False
    then show ?thesis using assms(2) Some by (simp add: wait_pending_def req_pending_def)
  qed
qed

lemma token_scan_spec:
  assumes "wake_settles (os_wake Os)"
  shows "token_scan Os kind q U = Inr (q', U') \<Longrightarrow>
    settles U U' \<and> set q' \<subseteq> set q \<and> length q' \<le> length q \<and>
    (\<forall>(i, k)\<in>set q. fasync_token_conflicts k kind \<longrightarrow> \<not> req_pending i U') \<and>
    (\<forall>(i, k)\<in>set q'. \<not> fasync_token_conflicts k kind) \<and>
    (\<forall>e\<in>set q. req_pending (fst e) U' \<longrightarrow> e \<in> set q')"
proof (induction q arbitrary: U q')
  case (Cons e q)
  obtain i k where e: "e = (i, k)" by force
  obtain U1 kept where s: "(if fasync_token_conflicts k kind then wait_pending Os i U else Inr U) = Inr U1"
      "token_scan Os kind q U1 = Inr (kept, U')" and q': "q' = (if req_pending i U1 then (i, k) # kept else kept)"
    using Cons.prems by (auto simp: e)
  note ih = Cons.IH [OF s(2)]
  have one: "settles U U1 \<and> (fasync_token_conflicts k kind \<longrightarrow> \<not> req_pending i U1)"
    using s(1) wait_pending_settles [OF assms, of i U U1] by (auto split: if_splits)
  have st: "settles U U'" using one ih settles_trans by blast
  have later: "req_pending i U' \<Longrightarrow> req_pending i U1" using settles_pending ih by blast
  show ?case using ih one st later by (auto simp: e q')
qed simp

lemma token_room_spec:
  assumes "wake_settles (os_wake Os)"
  shows "token_room Os q U = Inr (q', U') \<Longrightarrow> settles U U' \<and> length q' < FASYNC_TOKEN_QLEN \<and>
    (\<exists>p. q = p @ q' \<and> (\<forall>e\<in>set p. \<not> req_pending (fst e) U'))"
proof (induction q arbitrary: U)
  case Nil
  then show ?case by (simp add: FASYNC_TOKEN_QLEN_def)
next
  case (Cons e q)
  obtain i k where e: "e = (i, k)" by force
  show ?case
  proof (cases "length (e # q) \<ge> FASYNC_TOKEN_QLEN")
    case True
    then obtain U1 where s: "wait_pending Os i U = Inr U1" "token_room Os q U1 = Inr (q', U')"
      using Cons.prems by (auto simp: e)
    note ih = Cons.IH [OF s(2)] and one = wait_pending_settles [OF assms s(1)]
    obtain p where p: "q = p @ q'" "\<forall>e\<in>set p. \<not> req_pending (fst e) U'" using ih by blast
    have "settles U U'" using one ih settles_trans by blast
    moreover have "\<not> req_pending i U'" using one ih settles_pending by blast
    ultimately show ?thesis using ih p by (intro conjI exI [of _ "e # p"]) (auto simp: e)
  next
    case False
    then show ?thesis using Cons.prems by (auto simp: e)
  qed
qed

text \<open>A tagged call waits for exactly the calls it conflicts with: when the wait returns, no
  tagged call before it that conflicts with it is still pending, and the token forgets only
  calls that have finished.\<close>

theorem token_wait_clears:
  assumes "wake_settles (os_wake Os)" and "fasync_token_wait Os kind (Some tok) U = Inr (Some tok', U')"
  shows "(\<forall>(i, k)\<in>set (tr_q tok). fasync_token_conflicts k kind \<longrightarrow> \<not> req_pending i U') \<and>
    (\<forall>e\<in>set (tr_q tok). req_pending (fst e) U' \<longrightarrow> e \<in> set (tr_q tok')) \<and>
    tr_resource tok' = tr_resource tok \<and> set (tr_q tok') \<subseteq> set (tr_q tok)"
proof -
  obtain q where q: "token_scan Os kind (tr_q tok) U = Inr (q, U')" "tok' = tok\<lparr>tr_q := q\<rparr>"
    using assms(2) by (auto simp: fasync_token_wait_def)
  from token_scan_spec [OF assms(1) q(1)] show ?thesis by (simp add: q(2))
qed

text \<open>A token's queue never overflows: tracking a call keeps at most the sixteen entries the
  array has, ends with the new call, and drops only calls that have finished.\<close>

theorem token_track_bounded:
  assumes "wake_settles (os_wake Os)" and "i \<noteq> 0"
    and "fasync_token_track Os i kind (Some tok) U = Inr (Some tok', U')"
  shows "length (tr_q tok') \<le> 16 \<and> (\<exists>p q. tr_q tok = p @ q \<and> tr_q tok' = q @ [(i, kind)] \<and>
    (\<forall>e\<in>set p. \<not> req_pending (fst e) U'))"
proof -
  obtain q where q: "token_room Os (tr_q tok) U = Inr (q, U')" "tok' = tok\<lparr>tr_q := q @ [(i, kind)]\<rparr>"
    using assms(2,3) by (auto simp: fasync_token_track_def)
  from token_room_spec [OF assms(1) q(1)] show ?thesis by (auto simp: q(2) FASYNC_TOKEN_QLEN_def)
qed

section \<open>Pending opens\<close>

lemma pending_new_cases:
  obtains (full) "fasync_pending_fd_new i r = (- 1, r)" "\<And>k. k < FASYNC_MAX_PENDING_FDS \<Longrightarrow> pf_used (g_pending_fds r k)"
  | (slot) k where "k < FASYNC_MAX_PENDING_FDS" "\<not> pf_used (g_pending_fds r k)"
      "fasync_pending_fd_new i r = (- (int k + 2),
         r\<lparr>g_pending_fds := (g_pending_fds r)(k := (g_pending_fds r k)\<lparr>pf_used := True, pf_resolved := False, pf_id := i\<rparr>)\<rparr>)"
proof (cases "List.find (\<lambda>k. \<not> pf_used (g_pending_fds r k)) [0..<FASYNC_MAX_PENDING_FDS]")
  case None
  then have "\<And>k. k < FASYNC_MAX_PENDING_FDS \<Longrightarrow> pf_used (g_pending_fds r k)"
    unfolding find_None_iff by auto
  then show thesis using full None by (simp add: fasync_pending_fd_new_def)
next
  case (Some k)
  from find_Some_mem [OF this] have "k < FASYNC_MAX_PENDING_FDS" "\<not> pf_used (g_pending_fds r k)" by auto
  then show thesis using slot Some by (simp add: fasync_pending_fd_new_def)
qed

lemma pending_lookup_handle:
  "k < FASYNC_MAX_PENDING_FDS \<Longrightarrow>
   fasync_pending_fd_lookup (- (int k + 2)) r = (if pf_used (g_pending_fds r k) then Some k else None)"
  by (simp add: fasync_pending_fd_lookup_def Let_def)

lemma pending_lookup_Some:
  "(fasync_pending_fd_lookup fd r = Some k) =
     (fd = - (int k + 2) \<and> k < FASYNC_MAX_PENDING_FDS \<and> pf_used (g_pending_fds r k))"
  by (auto simp: fasync_pending_fd_lookup_def Let_def split: if_splits)

text \<open>A pending open's handle round trip: a handle given out is never a descriptor nor the
  failure value, it is one of 64 handles that was not in use, looking it up gives back its
  request, and no other handle changes meaning; -1 is given out only when all 64 are in use.\<close>

theorem pending_fd_roundtrip:
  assumes "fasync_pending_fd_new i r = (handle, r')"
  shows "(if handle = - 1 then r' = r \<and> (\<forall>k<64. pf_used (g_pending_fds r k))
     else - 65 \<le> handle \<and> handle \<le> - 2 \<and> fasync_pending_fd_lookup handle r = None \<and>
       (\<exists>k. fasync_pending_fd_lookup handle r' = Some k \<and> pf_id (g_pending_fds r' k) = i \<and>
          \<not> pf_resolved (g_pending_fds r' k))) \<and>
    (\<forall>fd. fd \<noteq> handle \<longrightarrow> fasync_pending_fd_lookup fd r' = fasync_pending_fd_lookup fd r)"
proof (cases rule: pending_new_cases [of i r])
  case full
  then show ?thesis using assms by (simp add: FASYNC_MAX_PENDING_FDS_def)
next
  case (slot k)
  have h: "handle = - (int k + 2)" and r': "r' = r\<lparr>g_pending_fds := (g_pending_fds r)
      (k := (g_pending_fds r k)\<lparr>pf_used := True, pf_resolved := False, pf_id := i\<rparr>)\<rparr>"
    using assms slot(3) by auto
  have other: "fasync_pending_fd_lookup fd r' = fasync_pending_fd_lookup fd r" if "fd \<noteq> handle" for fd
  proof (cases "fd \<ge> - 1 \<or> fd < - (int FASYNC_MAX_PENDING_FDS + 1)")
    case False
    then have "nat (- fd - 2) \<noteq> k" using that by (auto simp: h)
    then show ?thesis by (simp add: fasync_pending_fd_lookup_def Let_def r')
  qed (simp add: fasync_pending_fd_lookup_def)
  show ?thesis
    using slot(1,2) other pending_lookup_handle [OF slot(1)]
    by (simp add: h r' FASYNC_MAX_PENDING_FDS_def)
qed

section \<open>What the runtime does to the framework\<close>

text \<open>Polling changes the framework only by completing tasks.\<close>

definition completes :: "fw \<Rightarrow> fw \<Rightarrow> bool" where
  "completes s s' \<longleftrightarrow> (\<exists>t r. filc_async_complete t r s = Inr s')"

lemma complete_frame:
  assumes "filc_async_complete t r s = Inr s'"
  shows "t \<noteq> 0 \<Longrightarrow> task_state s' t \<noteq> 1" "task_state s' t' = 1 \<Longrightarrow> task_state s t' = 1"
    "task_runtime_data s' t' = task_runtime_data s t'" "t_runtime (tasks (tk s') t') = t_runtime (tasks (tk s) t')"
proof -
  have a: "t \<noteq> 0 \<longrightarrow> task_state s' t \<noteq> 1"
    using assms by (auto simp: filc_async_complete_def Let_def task_state_def task_drop_args_def running_remove_def
        task_finish_def split: if_splits option.splits)
  have "(task_state s' t' = 1 \<longrightarrow> task_state s t' = 1) \<and> task_runtime_data s' t' = task_runtime_data s t' \<and>
      t_runtime (tasks (tk s') t') = t_runtime (tasks (tk s) t')"
    using assms by (auto simp: filc_async_complete_def Let_def task_state_def task_drop_args_def running_remove_def
        task_finish_def task_runtime_data_def split: if_splits option.splits)
  with a show "t \<noteq> 0 \<Longrightarrow> task_state s' t \<noteq> 1" "task_state s' t' = 1 \<Longrightarrow> task_state s t' = 1"
    "task_runtime_data s' t' = task_runtime_data s t'" "t_runtime (tasks (tk s') t') = t_runtime (tasks (tk s) t')"
    by blast+
qed

lemma completes_frame:
  assumes "completes\<^sup>*\<^sup>* s s'"
  shows "(task_state s' t = 1 \<longrightarrow> task_state s t = 1) \<and> task_runtime_data s' t = task_runtime_data s t \<and>
    t_runtime (tasks (tk s') t) = t_runtime (tasks (tk s) t)"
  using assms
proof induction
  case (step y z)
  obtain t1 r where c: "filc_async_complete t1 r y = Inr z" using step(2) by (auto simp: completes_def)
  show ?case using complete_frame(2-4) [OF c, of t] step(3) by auto
qed simp

lemma complete_with_spec:
  "complete_with t x w = Inr w' \<Longrightarrow>
   completes\<^sup>*\<^sup>* (fst w) (fst w') \<and> snd w' = snd w \<and> (t \<noteq> 0 \<longrightarrow> task_state (fst w') t \<noteq> 1)"
proof -
  assume "complete_with t x w = Inr w'"
  then obtain s' where s': "filc_async_complete t (word_of_int x) (fst w) = Inr s'" "w' = (s', snd w)"
    by (auto simp: complete_with_def)
  then have "completes (fst w) (fst w')" by (auto simp: completes_def)
  then show ?thesis using complete_frame(1) [OF s'(1)] by (simp add: s'(2) r_into_rtranclp)
qed

definition rt_same :: "rt \<Rightarrow> rt \<Rightarrow> bool" where
  "rt_same r r' \<longleftrightarrow> calls r' = calls r \<and> call_list r' = call_list r \<and> g_pending_fds r' = g_pending_fds r"

lemma fasync_result_spec:
  assumes "fasync_result Os i w = Inr (x, w')"
  shows "completes\<^sup>*\<^sup>* (fst w) (fst w') \<and> rt_same (snd w) (snd w')"
proof (cases "fasync_req_lookup i (ur_of w)")
  case (Some s)
  then obtain r U w1 where a: "fasync_req_wait Os s (ur_of w) = Inr (r, U)"
    and b: "(if rq_task (req_slots U s) \<noteq> 0
       then complete_with (rq_task (req_slots U s)) r (set_ur (upd_slot s (\<lambda>r. r\<lparr>rq_task := 0\<rparr>) U) w)
       else Inr (set_ur U w)) = Inr w1" and c: "w' = set_ur (fasync_req_release s (ur_of w1)) w1"
    using assms by (auto simp: fasync_result_def Let_def)
  have "completes\<^sup>*\<^sup>* (fst w) (fst w1) \<and> rt_same (snd w) (snd w1)"
    using b complete_with_spec by (auto simp: rt_same_def split: if_splits dest!: complete_with_spec)
  then show ?thesis by (simp add: c rt_same_def)
qed (use assms in \<open>auto simp: fasync_result_def rt_same_def\<close>)

lemma finish_spec:
  assumes "finish Os c w = Inr w'"
  shows "completes\<^sup>*\<^sup>* (fst w) (fst w')"
    "calls (snd w') = (calls (snd w))(c := (calls (snd w) c)\<lparr>uc_finished := True\<rparr>)"
    "\<not> uc_finished (calls (snd w) c) \<Longrightarrow> uc_task (calls (snd w) c) \<noteq> 0 \<Longrightarrow>
       task_state (fst w') (uc_task (calls (snd w) c)) \<noteq> 1"
proof -
  let ?k = "calls (snd w) c"
  let ?w1 = "upd_call c (\<lambda>k. k\<lparr>uc_finished := True\<rparr>) w"
  have "completes\<^sup>*\<^sup>* (fst w) (fst w') \<and> calls (snd w') = (calls (snd w))(c := ?k\<lparr>uc_finished := True\<rparr>) \<and>
    (\<not> uc_finished ?k \<longrightarrow> uc_task ?k \<noteq> 0 \<longrightarrow> task_state (fst w') (uc_task ?k) \<noteq> 1)"
  proof (cases "uc_finished ?k")
    case True
    then show ?thesis using assms by (auto simp: finish_def Let_def)
  next
    case nf: False
    show ?thesis
    proof (cases "uc_explicit_read ?k")
      case True
      then obtain x w0 where "complete_with (uc_task ?k) x w0 = Inr w'"
        and "fst w0 = fst w" "calls (snd w0) = (calls (snd w))(c := ?k\<lparr>uc_finished := True\<rparr>)"
        using nf assms by (cases "fasync_req_lookup (uc_request ?k) (ur_of w)") (fastforce simp: finish_def Let_def)+
      with complete_with_spec [OF this(1)] show ?thesis by simp
    next
      case False
      obtain x w2 where a: "(if uc_op ?k = URING_OP_IGNORE then Inr (- EOPNOTSUPP, ?w1)
          else fasync_result Os (uc_request ?k) ?w1) = Inr (x, w2)"
        and b: "complete_with (uc_task ?k) x (if uc_request ?k \<noteq> 0 then list_remove c w2 else w2) = Inr w'"
        using nf False assms by (auto simp: finish_def Let_def)
      have r: "completes\<^sup>*\<^sup>* (fst w) (fst w2) \<and> rt_same (snd ?w1) (snd w2)"
        using a fasync_result_spec [of Os "uc_request ?k" ?w1 x w2] by (auto simp: rt_same_def split: if_splits)
      from complete_with_spec [OF b]
      have "completes\<^sup>*\<^sup>* (fst w2) (fst w')" "calls (snd w') = calls (snd w2)"
        "uc_task ?k \<noteq> 0 \<longrightarrow> task_state (fst w') (uc_task ?k) \<noteq> 1"
        by (auto simp: list_remove_def split: if_splits)
      then show ?thesis using r rtranclp_trans [of completes "fst w" "fst w2" "fst w'"] by (auto simp: rt_same_def)
    qed
  qed
  then show "completes\<^sup>*\<^sup>* (fst w) (fst w')"
    "calls (snd w') = (calls (snd w))(c := (calls (snd w) c)\<lparr>uc_finished := True\<rparr>)"
    "\<not> uc_finished (calls (snd w) c) \<Longrightarrow> uc_task (calls (snd w) c) \<noteq> 0 \<Longrightarrow>
       task_state (fst w') (uc_task (calls (snd w) c)) \<noteq> 1" by blast+
qed

section \<open>The runtime's contract\<close>

text \<open>A task of this runtime that has a call is that call's task, and a call reported finished
  belongs to a task that is no longer running.\<close>

definition calls_ok :: "runtime_ref \<Rightarrow> rt world \<Rightarrow> bool" where
  "calls_ok R w \<longleftrightarrow> (\<forall>t. t_runtime (tasks (tk (fst w)) t) = R \<and> task_runtime_data (fst w) t \<noteq> 0 \<longrightarrow>
     t \<noteq> 0 \<and> uc_task (calls (snd w) (task_runtime_data (fst w) t)) = t \<and>
     (uc_finished (calls (snd w) (task_runtime_data (fst w) t)) \<longrightarrow> task_state (fst w) t \<noteq> 1))"

lemma calls_okD:
  assumes "calls_ok R w" and "t_runtime (tasks (tk (fst w)) t) = R" and "task_runtime_data (fst w) t \<noteq> 0"
  shows "t \<noteq> 0" "uc_task (calls (snd w) (task_runtime_data (fst w) t)) = t"
    "uc_finished (calls (snd w) (task_runtime_data (fst w) t)) \<Longrightarrow> task_state (fst w) t \<noteq> 1"
  using assms unfolding calls_ok_def by blast+

lemma calls_ok_ur: "calls_ok R (set_ur U w) = calls_ok R w"
  by (simp add: calls_ok_def)

lemma finish_calls_ok:
  assumes ok: "calls_ok R w" and t: "t_runtime (tasks (tk (fst w)) t) = R" "task_runtime_data (fst w) t = c" "c \<noteq> 0"
    and fin: "finish Os c w = Inr w'"
  shows "calls_ok R w' \<and> completes\<^sup>*\<^sup>* (fst w) (fst w') \<and> task_state (fst w') t \<noteq> 1"
proof -
  note f = finish_spec [OF fin]
  note d = calls_okD [OF ok t(1), unfolded t(2), OF t(3)]
  have st: "task_state (fst w') t \<noteq> 1"
    using f(3) d completes_frame [OF f(1), of t] by (cases "uc_finished (calls (snd w) c)") auto
  have "calls_ok R w'"
    unfolding calls_ok_def
  proof (intro allI impI)
    fix t1 assume a: "t_runtime (tasks (tk (fst w')) t1) = R \<and> task_runtime_data (fst w') t1 \<noteq> 0"
    have same: "t_runtime (tasks (tk (fst w)) t1) = R" "task_runtime_data (fst w') t1 = task_runtime_data (fst w) t1"
      "task_runtime_data (fst w) t1 \<noteq> 0" using a completes_frame [OF f(1), of t1] by auto
    note d1 = calls_okD [OF ok same(1,3)]
    show "t1 \<noteq> 0 \<and> uc_task (calls (snd w') (task_runtime_data (fst w') t1)) = t1 \<and>
      (uc_finished (calls (snd w') (task_runtime_data (fst w') t1)) \<longrightarrow> task_state (fst w') t1 \<noteq> 1)"
    proof (cases "task_runtime_data (fst w) t1 = c")
      case True
      then have "t1 = t" using d(2) d1(2) by simp
      then show ?thesis using st d f(2) same(2) t(2) by simp
    next
      case False
      then show ?thesis using d1 f(2) same(2) completes_frame [OF f(1), of t1] by auto
    qed
  qed
  then show ?thesis using f(1) st by blast
qed

text \<open>The ways a poll that returns can go.\<close>

lemma uring_poll_cases:
  assumes "uring_poll Os t mode w = Inr (d, w')"
  obtains (none) "task_runtime_data (fst w) t = 0" "\<not> d" "w' = w"
  | (finished) "task_runtime_data (fst w) t \<noteq> 0" "uc_finished (calls (snd w) (task_runtime_data (fst w) t))" d "w' = w"
  | (later) U where "\<not> d" "mode \<noteq> POLL_BLOCK" "w' = set_ur U w" "settles (ur_of w) U"
  | (finish) U where "task_runtime_data (fst w) t \<noteq> 0" d
      "finish Os (task_runtime_data (fst w) t) (set_ur U w) = Inr w'" "settles (ur_of w) U"
proof -
  let ?c = "task_runtime_data (fst w) t"
  let ?k = "calls (snd w) ?c"
  have self: "set_ur (ur_of w) w = w" by simp
  consider "?c = 0" | "?c \<noteq> 0" "uc_finished ?k" | "?c \<noteq> 0" "\<not> uc_finished ?k" "uc_op ?k = URING_OP_IGNORE"
    | "?c \<noteq> 0" "\<not> uc_finished ?k" "uc_op ?k \<noteq> URING_OP_IGNORE" by blast
  then show thesis
  proof cases
    case 1
    then have "\<not> d \<and> w' = w" using assms by (simp add: uring_poll_def Let_def)
    then show thesis using none 1 by blast
  next
    case 2
    then have "d \<and> w' = w" using assms by (simp add: uring_poll_def Let_def)
    then show thesis using finished 2 by blast
  next
    case 3
    show thesis
    proof (cases "mode = POLL_CHECK")
      case True
      then have "w' = w" "\<not> d" using assms 3 by (auto simp: uring_poll_def Let_def)
      then show thesis using later [of "ur_of w"] True settles_refl unfolding self by blast
    next
      case False
      then have "finish Os ?c w = Inr w'" d
        using assms 3 by (auto simp: uring_poll_def Let_def map_sum_def split: sum.splits)
      then show thesis using finish [of "ur_of w"] 3(1) settles_refl unfolding self by blast
    qed
  next
    case 4
    obtain rdy U where r: "fasync_ready (uc_request ?k) (ur_of w) = (rdy, U)" by force
    let ?m = "(if \<not> rdy \<and> mode \<noteq> POLL_CHECK
                 then (case fasync_submit (os_kernel Os) U of (n, U1) \<Rightarrow>
                   if n < 0 then Inl (Fatal ''io_uring submission failed'')
                   else if mode = POLL_BLOCK then Inr (True, set_ur U1 (set_ur U w))
                   else case fasync_ready (uc_request ?k) U1 of (rdy1, U2) \<Rightarrow> Inr (rdy1, set_ur U2 (set_ur U w)))
                 else Inr (rdy, set_ur U w))"
    have p: "uring_poll Os t mode w = res_bind ?m
        (\<lambda>(rdy, w2). if rdy then map_sum id (Pair True) (finish Os ?c w2) else Inr (False, w2))"
      using 4 by (simp add: uring_poll_def Let_def r)
    from assms [unfolded p] obtain rdy2 w2 where m: "?m = Inr (rdy2, w2)"
      and e: "(if rdy2 then map_sum id (Pair True) (finish Os ?c w2) else Inr (False, w2)) = Inr (d, w')" by auto
    have st: "settles (ur_of w) U" by (rule ready_settles [OF r])
    have V: "w2 = set_ur (ur_of w2) w" and b: "mode = POLL_BLOCK \<Longrightarrow> rdy2"
      using m by (auto split: if_splits prod.splits)
    have sV: "settles (ur_of w) (ur_of w2)"
    proof (cases "\<not> rdy \<and> mode \<noteq> POLL_CHECK")
      case True
      obtain n U1 where s: "fasync_submit (os_kernel Os) U = (n, U1)" by force
      obtain rdy1 U2 where q: "fasync_ready (uc_request ?k) U1 = (rdy1, U2)" by force
      have s1: "settles (ur_of w) U1" using settles_trans [OF st submit_settles] s by (metis snd_conv)
      have s2: "settles (ur_of w) U2" using settles_trans [OF s1 ready_settles [OF q]] .
      have "ur_of w2 = U1 \<or> ur_of w2 = U2" using m True by (auto simp: s q split: if_splits)
      then show ?thesis using s1 s2 by blast
    qed (use m st in auto)
    show thesis
    proof (cases rdy2)
      case True
      then have "finish Os ?c (set_ur (ur_of w2) w) = Inr w'" d using e V by (auto simp: map_sum_def split: sum.splits)
      then show thesis using finish [of "ur_of w2"] 4(1) sV by blast
    next
      case False
      then have l: "\<not> d" "mode \<noteq> POLL_BLOCK" "w' = set_ur (ur_of w2) w" using e V b by auto
      show thesis by (rule later [OF l sV])
    qed
  qed
qed


section \<open>Which calls the runtime takes\<close>

fun op_shape :: "uring_op \<Rightarrow> u32 list \<Rightarrow> bool" where
  "op_shape URING_OP_UNKNOWN ks = False"
| "op_shape URING_OP_IGNORE ks = True"
| "op_shape URING_OP_READ (fd # b # l # off # ks) =
     (fd = 0 \<and> is_output_kind b \<and> l = 0 \<and> off = 0 \<and> list_all is_output_kind ks)"
| "op_shape URING_OP_WRITE (fd # b # l # off # ks) =
     (fd = 0 \<and> is_input_kind b \<and> l = 0 \<and> off = 0 \<and> list_all is_output_kind ks)"
| "op_shape URING_OP_OPENAT (fd # b # l # off # ks) =
     (fd = 0 \<and> is_input_kind b \<and> l = 0 \<and> off = 0 \<and> list_all is_output_kind ks)"
| "op_shape URING_OP_FSYNC (fd # ks) = (fd = 0 \<and> list_all is_output_kind ks)"
| "op_shape URING_OP_CLOSE (fd # ks) = (fd = 0 \<and> list_all is_output_kind ks)"
| "op_shape _ _ = False"

lemma streq_loop_eq: "streq_loop a b = (a = b)"
  by (induction a b rule: streq_loop.induct) auto

lemma streq_eq: "streq a b = (a = b)"
  by (auto simp: streq_def streq_loop_eq split: option.splits)

lemma completion_args_drop:
  assumes "meta_wf m"
  shows "completion_args_ok m n =
    (n \<le> length (m_args m) \<and> list_all is_output_kind (map a_kind (drop n (m_args m))))"
proof -
  have len: "unat (m_nargs m) = length (m_args m)" using assms by (simp add: meta_wf_def)
  have "drop n (m_args m) = map (nth (m_args m)) [n..<length (m_args m)]"
    by (rule nth_equalityI) auto
  then show ?thesis
    unfolding completion_args_ok_def len by (simp add: list.pred_map comp_def not_less)
qed

lemma list_cases4:
  "xs = [] \<or> (\<exists>a. xs = [a]) \<or> (\<exists>a b. xs = [a, b]) \<or> (\<exists>a b c. xs = [a, b, c]) \<or> (\<exists>a b c d ys. xs = a # b # c # d # ys)"
  by (cases xs; cases "tl xs"; cases "tl (tl xs)"; cases "tl (tl (tl xs))") auto

lemma uring_validate_shape:
  assumes "meta_wf m"
  shows "uring_validate (Some m) = op_shape (op_from (m_opts m)) (map a_kind (m_args m))"
proof -
  let ?op = "op_from (m_opts m)"
  have len: "unat (m_nargs m) = length (m_args m)" using assms by (simp add: meta_wf_def)
  have nz: "(m_nargs m = 0) = (m_args m = [])" using len by (metis length_0_conv unat_eq_zero)
  note unf = uring_validate_def shape_ok_def nz completion_args_drop [OF assms] Let_def arg_kinds
  from list_cases4 [of "m_args m"] show ?thesis
  proof (elim disjE exE)
    assume "m_args m = []" then show ?thesis by (cases ?op) (simp_all add: unf)
  next
    fix a assume "m_args m = [a]" then show ?thesis by (cases ?op) (simp_all add: unf)
  next
    fix a b assume "m_args m = [a, b]" then show ?thesis by (cases ?op) (simp_all add: unf)
  next
    fix a b c assume "m_args m = [a, b, c]" then show ?thesis by (cases ?op) (simp_all add: unf)
  next
    fix a b c d as assume "m_args m = a # b # c # d # as"
    then show ?thesis by (cases ?op) (auto simp: unf)
  qed
qed

text \<open>C36. The runtime registers a function exactly when its options name an op and its argument
  kinds have that op's shape: the descriptor unannotated, then the buffer in the direction the
  system call moves it, two unannotated integers, and only result buffers after them.\<close>

theorem uring_validate_exact:
  assumes "meta_wf m"
  shows "uring_validate (Some m) = op_shape (op_from (m_opts m)) (map a_kind (m_args m))"
  using assms by (rule uring_validate_shape)

section \<open>A wait for a request returns\<close>

text \<open>In states \<open>Q\<close> in which each sleep finishes a pending request, a round for each of them is enough.\<close>

lemma req_wait_loop_ends:
  assumes poll: "\<And>V. Q V \<Longrightarrow> Q (fasync_poll V)" and block: "\<And>V. Q V \<Longrightarrow> Q (fasync_block wake V)"
    and prog: "\<And>V. Q V \<Longrightarrow> pending_slots V \<noteq> {} \<Longrightarrow> pending_slots (fasync_block wake V) \<subset> pending_slots V"
    and s: "s < FASYNC_MAX_INFLIGHT"
  shows "Q U \<Longrightarrow> card (pending_slots U) \<le> n \<Longrightarrow>
    \<exists>U'. req_wait_loop n wake s U = Inr U' \<and> Q U' \<and> rq_state (req_slots U' s) \<noteq> FASYNC_REQ_PENDING"
proof (induction n arbitrary: U)
  case (0 U)
  have "finite (pending_slots U)" by (rule finite_subset [of _ "{..<FASYNC_MAX_INFLIGHT}"]) (auto simp: pending_slots_def)
  then have "pending_slots U = {}" using 0(2) by simp
  then have "rq_state (req_slots U s) \<noteq> FASYNC_REQ_PENDING" using s by (auto simp: pending_slots_def)
  with 0(1) show ?case by (subst req_wait_loop.simps) simp
next
  case (Suc n)
  let ?V = "fasync_poll U"
  let ?W = "if rq_state (req_slots ?V s) = FASYNC_REQ_PENDING then fasync_block wake ?V else ?V"
  have fin: "finite (pending_slots X)" for X
    by (rule finite_subset [of _ "{..<FASYNC_MAX_INFLIGHT}"]) (auto simp: pending_slots_def)
  have sub: "pending_slots ?V \<subseteq> pending_slots U" using poll_settles [of U] by (auto simp: settles_def pending_slots_def)
  show ?case
  proof (cases "rq_state (req_slots U s) = FASYNC_REQ_PENDING")
    case True
    then have sU: "s \<in> pending_slots U" using s by (simp add: pending_slots_def)
    have r: "Q ?W" using poll [OF Suc.prems(1)] block by simp
    have "pending_slots ?W \<subset> pending_slots U"
    proof (cases "rq_state (req_slots ?V s) = FASYNC_REQ_PENDING")
      case p: True
      then have "pending_slots ?V \<noteq> {}" using s by (auto simp: pending_slots_def)
      from prog [OF poll [OF Suc.prems(1)] this] show ?thesis using sub p by auto
    next
      case False
      then have "s \<notin> pending_slots ?V" by (simp add: pending_slots_def)
      then show ?thesis using sub sU False by auto
    qed
    from psubset_card_mono [OF fin this] have "card (pending_slots ?W) \<le> n" using Suc.prems(2) by linarith
    moreover have "req_wait_loop (Suc n) wake s U = req_wait_loop n wake s ?W"
      using True by (subst req_wait_loop.simps) (simp add: Let_def)
    ultimately show ?thesis using Suc.IH [OF r] by simp
  next
    case False
    with Suc.prems(1) show ?thesis by (subst req_wait_loop.simps) simp
  qed
qed

lemma req_wait_loop_returns:
  assumes "wake_ok K wake"
    and "\<And>V. uring_reach K V \<Longrightarrow> pending_slots V \<noteq> {} \<Longrightarrow> pending_slots (fasync_block wake V) \<subset> pending_slots V"
    and "s < FASYNC_MAX_INFLIGHT" and "uring_reach K U" and "card (pending_slots U) \<le> n"
  shows "\<exists>U'. req_wait_loop n wake s U = Inr U' \<and> rq_state (req_slots U' s) \<noteq> FASYNC_REQ_PENDING"
  using req_wait_loop_ends [of "uring_reach K" wake s U n] drain_reach block_reach [OF assms(1)] assms(2-5) by blast

text \<open>Waiting for one request returns: as long as the kernel finishes some request during each
  sleep, as many rounds as the table has slots are enough, and the wait answers with the
  request's own result.\<close>

theorem req_wait_returns:
  assumes "wake_ok (os_kernel Os) (os_wake Os)"
    and "\<And>V. uring_reach (os_kernel Os) V \<Longrightarrow> pending_slots V \<noteq> {} \<Longrightarrow>
      pending_slots (fasync_block (os_wake Os) V) \<subset> pending_slots V"
    and "uring_reach (os_kernel Os) U" and "s < 1024" and "1024 \<le> os_fuel Os"
  shows "\<exists>U'. fasync_req_wait Os s U = Inr (rq_result (req_slots U' s), U') \<and>
    rq_state (req_slots U' s) \<noteq> FASYNC_REQ_PENDING"
proof -
  let ?U0 = "if rq_state (req_slots U s) = FASYNC_REQ_PENDING then snd (fasync_submit (os_kernel Os) U) else U"
  have r: "uring_reach (os_kernel Os) ?U0" using submit_reach [OF assms(3)] assms(3) by (simp add: fasync_submit_def)
  have "card (pending_slots ?U0) \<le> card {..<FASYNC_MAX_INFLIGHT}"
    by (rule card_mono) (auto simp: pending_slots_def)
  then have c: "card (pending_slots ?U0) \<le> os_fuel Os" using assms(5) by (simp add: FASYNC_MAX_INFLIGHT_def)
  from req_wait_loop_returns [OF assms(1,2) _ r c, of s] assms(4)
  obtain U' where "req_wait_loop (os_fuel Os) (os_wake Os) s ?U0 = Inr U'"
    "rq_state (req_slots U' s) \<noteq> FASYNC_REQ_PENDING" by (auto simp: FASYNC_MAX_INFLIGHT_def)
  then show ?thesis by (intro exI [of _ U']) (simp add: fasync_req_wait_def Let_def)
qed

section \<open>Witnesses\<close>

definition demo_os :: os where
  "demo_os = \<lparr>os_kernel = demo_kernel, os_wake = demo_wake, os_memory = (\<lambda>_. 0), os_zcheck = (\<lambda>_ _. True),
     os_zcheck_readonly = (\<lambda>_ _. True), os_fuel = 1024, os_runtime = Linked 0x9000, os_body = (\<lambda>_. None)\<rparr>"

lemma demo_wake_settles: "wake_settles demo_wake"
  unfolding wake_settles_def
proof
  fix V
  have "settles (fasync_native_drain V) (demo_wake V)"
    by (rule settles_slots) (simp add: demo_wake_def Let_def post_cqe_def split: list.splits)
  then show "settles V (demo_wake V)" using drain_settles settles_trans by blast
qed

theorem req_wait_returns_witness:
  "\<exists>U'. fasync_req_wait demo_os 0 demo_pushed = Inr (rq_result (req_slots U' 0), U') \<and>
    rq_state (req_slots U' 0) \<noteq> FASYNC_REQ_PENDING"
  by (rule req_wait_returns) (simp_all add: demo_os_def demo_wake_ok demo_wake_progress demo_pushed_reach)

lemma demo_lookup: "fasync_req_lookup 0x100000000 demo_pushed = Some 0"
  by (simp add: demo_pushed_def push_eval fasync_req_lookup_def id_index_def id_gen_def)

lemma demo_wait_pending: "\<exists>U'. wait_pending demo_os 0x100000000 demo_pushed = Inr U'"
proof -
  let ?U0 = "snd (fasync_submit demo_kernel demo_pushed)"
  have r: "uring_reach demo_kernel ?U0" using submit_reach [OF demo_pushed_reach] by (simp add: fasync_submit_def)
  have "card (pending_slots ?U0) \<le> card {..<FASYNC_MAX_INFLIGHT}"
    by (rule card_mono) (auto simp: pending_slots_def)
  then have c: "card (pending_slots ?U0) \<le> 1024" by (simp add: FASYNC_MAX_INFLIGHT_def)
  obtain U' where "req_wait_loop 1024 demo_wake 0 ?U0 = Inr U'"
    using req_wait_loop_returns [OF demo_wake_ok _ _ r c, of 0] demo_wake_progress
    by (auto simp: FASYNC_MAX_INFLIGHT_def)
  then show ?thesis
    by (simp add: wait_pending_def demo_lookup demo_pushed_facts fasync_req_wait_def demo_os_def)
qed

definition demo_token :: fasync_tracker where
  "demo_token = \<lparr>tr_resource = 3, tr_q = [(0x100000000, FASYNC_OUT)]\<rparr>"

theorem token_wait_clears_witness:
  "\<exists>tok' U'. fasync_token_wait demo_os FASYNC_IN (Some demo_token) demo_pushed = Inr (Some tok', U') \<and>
    req_pending 0x100000000 demo_pushed \<and> \<not> req_pending 0x100000000 U'"
proof -
  obtain U' where U': "wait_pending demo_os 0x100000000 demo_pushed = Inr U'" using demo_wait_pending by blast
  have c: "fasync_token_conflicts FASYNC_OUT FASYNC_IN" by (simp add: fasync_token_conflicts_def)
  obtain tok' where t: "fasync_token_wait demo_os FASYNC_IN (Some demo_token) demo_pushed = Inr (Some tok', U')"
    by (simp add: fasync_token_wait_def demo_token_def c U')
  have "wake_settles (os_wake demo_os)" by (simp add: demo_os_def demo_wake_settles)
  from token_wait_clears [OF this t] have "\<not> req_pending 0x100000000 U'" by (simp add: demo_token_def c)
  moreover have "req_pending 0x100000000 demo_pushed" by (simp add: req_pending_def demo_lookup demo_pushed_facts)
  ultimately show ?thesis using t by blast
qed

definition demo_rt :: rt where
  "demo_rt = \<lparr>ur = demo_pushed, g_pending_fds = (\<lambda>_. \<lparr>pf_used = False, pf_resolved = False, pf_id = 0, pf_result = 0\<rparr>),
     calls = (\<lambda>_. call_zero\<lparr>uc_task := 0x100, uc_op := URING_OP_IGNORE\<rparr>), call_list = dll_empty, call_answers = []\<rparr>"

theorem pending_fd_roundtrip_witness:
  "\<exists>r'. fasync_pending_fd_new 9 demo_rt = (- 2, r') \<and> (\<exists>k. fasync_pending_fd_lookup (- 2) r' = Some k)"
proof -
  obtain h r' where n: "fasync_pending_fd_new 9 demo_rt = (h, r')" by force
  then have h: "h = - 2"
    by (auto simp: fasync_pending_fd_new_def demo_rt_def FASYNC_MAX_PENDING_FDS_def upt_rec)
  from pending_fd_roundtrip [OF n] show ?thesis using n by (auto simp: h)
qed

definition demo_world :: "rt world" where
  "demo_world = (set_runtime_data 0x100 0x4000 demo1, demo_rt)"

lemma demo1_data: "t_runtime_data (tasks (tk demo1) t) = 0"
  by (simp add: demo1_def fw_eval lock_table_init_def)

lemma demo_world_ok: "calls_ok (Linked 0x9000) demo_world"
  by (auto simp: calls_ok_def demo_world_def task_runtime_data_def set_runtime_data_def demo1_data demo_rt_def call_zero_def)

lemma demo_world_complete: "\<exists>s'. filc_async_complete 0x100 r (fst demo_world) = Inr s'"
proof -
  have "\<not> is_join demo1 0x100" by (simp add: is_join_def demo1_tasks)
  then have "fw_inv (fst demo_world)"
    unfolding demo_world_def using set_data_inv [OF fw_reach_inv [OF demo1_reach [of False]]] by simp
  moreover have "is_running (tk (fst demo_world)) 0x100"
    by (simp add: demo_world_def set_runtime_data_def is_running_def demo1_tasks)
  moreover have "no_request (fst demo_world) 0x100"
    using demo1_no_request [of "0x100"] by (simp add: demo_world_def set_runtime_data_def no_request_def)
  ultimately show ?thesis using complete_spec by metis
qed


definition read_meta :: filc_async_meta where
  "read_meta = \<lparr>m_name = ''read_at'', m_nargs = 4, m_noped_args = 0, m_flags = 0, m_result = 1,
     m_opts = [''op=pread''], m_runtime = Linked 0x9000,
     m_args = map (\<lambda>k. \<lparr>a_kind = k, a_dependency = 0\<rparr>) [0, 3, 0, 0]\<rparr>"

theorem uring_validate_exact_witness: "uring_validate (Some read_meta)"
proof -
  have "op_from (m_opts read_meta) = URING_OP_READ" by (simp add: read_meta_def op_value_def streq_def)
  then show ?thesis
    using uring_validate_exact [of read_meta]
    by (simp add: meta_wf_def read_meta_def is_output_kind_def arg_kinds)
qed

end
