(* ===== verification/UringContract.thy ===== *)
theory UringContract
  imports UringRuns WaitRuns
begin

text \<open>
  The io_uring runtime meets the contract the framework's waits rest on
  (\<^verbatim>\<open>runtime_contract\<close> of theory \<^verbatim>\<open>WaitInv\<close>): a poll of one of its tasks is a sequence of
  completions of tasks that have been handed to it, none of them the calling thread's own.
\<close>

section \<open>Which tasks a poll completes\<close>

definition completes_of :: "addr set \<Rightarrow> fw \<Rightarrow> fw \<Rightarrow> bool" where
  "completes_of A s s' \<longleftrightarrow> (\<exists>t\<in>A. \<exists>r. filc_async_complete t r s = Inr s')"

lemma completes_of_mono:
  assumes "(completes_of A)\<^sup>*\<^sup>* s s'" and "A \<subseteq> C"
  shows "(completes_of C)\<^sup>*\<^sup>* s s'"
  using assms(1) by (rule rtranclp_mono [THEN predicate2D, rotated]) (use assms(2) in \<open>auto 0 4 simp: completes_of_def\<close>)

lemma completes_of_trans:
  assumes "(completes_of A)\<^sup>*\<^sup>* s s1" and "(completes_of C)\<^sup>*\<^sup>* s1 s'"
  shows "(completes_of (A \<union> C))\<^sup>*\<^sup>* s s'"
  using completes_of_mono [OF assms(1), of "A \<union> C"] completes_of_mono [OF assms(2), of "A \<union> C"] by simp

definition request_owners :: "uring \<Rightarrow> addr set" where
  "request_owners U = (\<lambda>s. rq_task (req_slots U s)) ` UNIV - {0}"

lemma request_owners_settles: "settles U U' \<Longrightarrow> request_owners U' = request_owners U"
  by (simp add: request_owners_def settles_def)

lemma request_owners_clear:
  "request_owners (upd_slot s (\<lambda>r. r\<lparr>rq_task := 0\<rparr>) U) \<subseteq> request_owners U"
  "request_owners (fasync_req_release s U) \<subseteq> request_owners U"
  by (auto simp: request_owners_def fasync_req_release_def fasync_slot_mark_def Let_def split: if_splits)

lemma complete_with_of:
  assumes "complete_with t x w = Inr w'"
  shows "completes_of {t} (fst w) (fst w') \<and> snd w' = snd w"
  using assms by (auto simp: complete_with_def completes_of_def)

lemma fasync_result_of:
  assumes wake: "wake_settles (os_wake Os)" and r: "fasync_result Os i w = Inr (x, w')"
  shows "(completes_of (request_owners (ur_of w)))\<^sup>*\<^sup>* (fst w) (fst w') \<and>
    request_owners (ur_of w') \<subseteq> request_owners (ur_of w)"
proof (cases "fasync_req_lookup i (ur_of w)")
  case (Some s)
  then obtain y U w1 where a: "fasync_req_wait Os s (ur_of w) = Inr (y, U)"
    and b: "(if rq_task (req_slots U s) \<noteq> 0
       then complete_with (rq_task (req_slots U s)) y (set_ur (upd_slot s (\<lambda>r. r\<lparr>rq_task := 0\<rparr>) U) w)
       else Inr (set_ur U w)) = Inr w1" and c: "w' = set_ur (fasync_req_release s (ur_of w1)) w1"
    using r by (auto simp: fasync_result_def Let_def)
  have o: "request_owners U = request_owners (ur_of w)"
    using req_wait_settles [OF wake a] by (simp add: request_owners_settles)
  have own: "request_owners (ur_of w') \<subseteq> request_owners (ur_of w1)" by (simp add: c request_owners_clear(2))
  show ?thesis
  proof (cases "rq_task (req_slots U s) = 0")
    case True
    then have "w1 = set_ur U w" using b by simp
    then show ?thesis using own o by (simp add: c)
  next
    case False
    then have "complete_with (rq_task (req_slots U s)) y (set_ur (upd_slot s (\<lambda>r. r\<lparr>rq_task := 0\<rparr>) U) w) = Inr w1"
      using b by simp
    from complete_with_of [OF this]
    have d: "completes_of {rq_task (req_slots U s)} (fst w) (fst w1)"
      and e: "ur_of w1 = upd_slot s (\<lambda>r. r\<lparr>rq_task := 0\<rparr>) U" by simp_all
    have "rq_task (req_slots U s) \<in> request_owners U" using False by (simp add: request_owners_def)
    then have "(completes_of (request_owners (ur_of w)))\<^sup>*\<^sup>* (fst w) (fst w')"
      using completes_of_mono [OF r_into_rtranclp [of "completes_of _", OF d]] by (simp add: o c)
    moreover have "request_owners (ur_of w1) \<subseteq> request_owners U" unfolding e by (rule request_owners_clear(1))
    ultimately show ?thesis using own o by blast
  qed
qed (use r in \<open>simp add: fasync_result_def\<close>)

lemma finish_of:
  assumes wake: "wake_settles (os_wake Os)" and fin: "finish Os c w = Inr w'"
  shows "(completes_of (insert (uc_task (calls (snd w) c)) (request_owners (ur_of w))))\<^sup>*\<^sup>* (fst w) (fst w') \<and>
    request_owners (ur_of w') \<subseteq> request_owners (ur_of w) \<and>
    (call_list (snd w') = call_list (snd w) \<or>
     call_list (snd w') = dll_remove c (call_list (snd w)) \<and> uc_request (calls (snd w) c) \<noteq> 0 \<and>
       \<not> uc_explicit_read (calls (snd w) c))"
proof -
  let ?k = "calls (snd w) c"
  let ?w1 = "upd_call c (\<lambda>k. k\<lparr>uc_finished := True\<rparr>) w"
  let ?A = "insert (uc_task ?k) (request_owners (ur_of w))"
  have one: "(completes_of ?A)\<^sup>*\<^sup>* (fst v) (fst v')" if "completes_of {uc_task ?k} (fst v) (fst v')" for v v' :: "rt world"
    using completes_of_mono [OF r_into_rtranclp [of "completes_of _", OF that]] by simp
  consider "uc_finished ?k" | "\<not> uc_finished ?k" "uc_explicit_read ?k" | "\<not> uc_finished ?k" "\<not> uc_explicit_read ?k" by blast
  then show ?thesis
  proof cases
    case 1
    then show ?thesis using fin by (simp add: finish_def)
  next
    case 2
    obtain x U where u: "complete_with (uc_task ?k) x (set_ur U ?w1) = Inr w'" and s: "settles (ur_of w) U"
    proof (cases "fasync_req_lookup (uc_request ?k) (ur_of w)")
      case None
      then have "complete_with (uc_task ?k) (- EINVAL) (set_ur (ur_of w) ?w1) = Inr w'"
        using 2 fin by (simp add: finish_def Let_def)
      then show thesis using that settles_refl by blast
    next
      case (Some s)
      then obtain y U where "fasync_req_wait Os s (ur_of w) = Inr (y, U)" "complete_with (uc_task ?k) y (set_ur U ?w1) = Inr w'"
        using 2 fin by (auto simp: finish_def Let_def)
      then show thesis using that req_wait_settles [OF wake] by blast
    qed
    from complete_with_of [OF u] one [of "set_ur U ?w1" w'] show ?thesis by (simp add: request_owners_settles [OF s])
  next
    case 3
    obtain x w2 where a: "(if uc_op ?k = URING_OP_IGNORE then Inr (- EOPNOTSUPP, ?w1)
        else fasync_result Os (uc_request ?k) ?w1) = Inr (x, w2)"
      and b: "complete_with (uc_task ?k) x (if uc_request ?k \<noteq> 0 then list_remove c w2 else w2) = Inr w'"
      using 3 fin by (auto simp: finish_def Let_def)
    have r: "(completes_of (request_owners (ur_of w)))\<^sup>*\<^sup>* (fst w) (fst w2) \<and>
        request_owners (ur_of w2) \<subseteq> request_owners (ur_of w)" and l: "call_list (snd w2) = call_list (snd w)"
      using a fasync_result_of [OF wake, of "uc_request ?k" ?w1 x w2] fasync_result_spec [of Os "uc_request ?k" ?w1 x w2]
      by (auto simp: rt_same_def split: if_splits)
    from complete_with_of [OF b] have d: "completes_of {uc_task ?k} (fst w2) (fst w')" "ur_of w' = ur_of w2"
      "call_list (snd w') = call_list (snd w2) \<or> call_list (snd w') = dll_remove c (call_list (snd w2)) \<and> uc_request ?k \<noteq> 0"
      by (auto simp: list_remove_def split: if_splits)
    have "(completes_of ?A)\<^sup>*\<^sup>* (fst w) (fst w2)" using completes_of_mono [of "request_owners (ur_of w)"] r by blast
    then have "(completes_of ?A)\<^sup>*\<^sup>* (fst w) (fst w')" using one [OF d(1)] by (rule rtranclp_trans)
    then show ?thesis using r d(2,3) l 3 by auto
  qed
qed

section \<open>The runtime's own invariant\<close>

text \<open>A task that has been handed over is no join, is queued for no lock and is not one the calling
  thread is still setting up.\<close>

definition handed_over :: "addr set \<Rightarrow> fw \<Rightarrow> addr \<Rightarrow> bool" where
  "handed_over T s t \<longleftrightarrow> t_runtime (tasks (tk s) t) \<noteq> Join_Runtime \<and> no_request s t \<and> t \<notin> T"

text \<open>A call in flight is the runtime data of its task; it is listed when it has a request the runtime made
  for it, and the list of calls leads from listed calls only to listed calls.\<close>

definition in_flight :: "runtime_ref \<Rightarrow> rt world \<Rightarrow> addr \<Rightarrow> bool" where
  "in_flight R w c \<longleftrightarrow> c \<noteq> 0 \<and> t_runtime (tasks (tk (fst w)) (uc_task (calls (snd w) c))) = R \<and>
     task_runtime_data (fst w) (uc_task (calls (snd w) c)) = c"

definition listed :: "runtime_ref \<Rightarrow> rt world \<Rightarrow> addr \<Rightarrow> bool" where
  "listed R w c \<longleftrightarrow> in_flight R w c \<and> uc_request (calls (snd w) c) \<noteq> 0 \<and> \<not> uc_explicit_read (calls (snd w) c)"

definition list_ok :: "runtime_ref \<Rightarrow> rt world \<Rightarrow> bool" where
  "list_ok R w \<longleftrightarrow> (oldest (call_list (snd w)) \<noteq> 0 \<longrightarrow> listed R w (oldest (call_list (snd w)))) \<and>
     (\<forall>c. listed R w c \<and> newer (call_list (snd w)) c \<noteq> 0 \<longrightarrow> listed R w (newer (call_list (snd w)) c))"

text \<open>What a call keeps from the moment it is queued.\<close>

definition same_call :: "uring_call \<Rightarrow> uring_call \<Rightarrow> bool" where
  "same_call k k' \<longleftrightarrow> uc_task k' = uc_task k \<and> uc_request k' = uc_request k \<and> uc_explicit_read k' = uc_explicit_read k"

lemma same_call_refl [simp]: "same_call k k"
  by (simp add: same_call_def)

lemma list_ok_removed:
  assumes ok: "list_ok R w" and f: "listed R w' = listed R w"
    and l: "call_list (snd w') = call_list (snd w) \<or> (\<exists>c. listed R w c \<and> call_list (snd w') = dll_remove c (call_list (snd w)))"
  shows "list_ok R w'"
  using l
proof (elim disjE exE conjE)
  fix c assume c: "listed R w c" "call_list (snd w') = dll_remove c (call_list (snd w))"
  let ?d = "call_list (snd w)"
  have o: "oldest (dll_remove c ?d) = oldest ?d \<or> oldest (dll_remove c ?d) = newer ?d c"
    "newer (dll_remove c ?d) x = newer ?d x \<or> newer (dll_remove c ?d) x = newer ?d c" for x
    by (auto simp: dll_remove_def Let_def)
  show ?thesis unfolding list_ok_def f c(2) using ok c(1) o unfolding list_ok_def by metis
qed (use ok f in \<open>simp add: list_ok_def\<close>)

lemma in_flight_frame:
  assumes "completes\<^sup>*\<^sup>* (fst w) (fst w')" and "\<And>c. same_call (calls (snd w) c) (calls (snd w') c)"
  shows "in_flight R w' = in_flight R w" and "listed R w' = listed R w"
  using completes_frame [OF assms(1)] assms(2) by (simp_all add: in_flight_def listed_def same_call_def fun_eq_iff)

text \<open>A call record the calling thread has allocated for a task of its own and not yet queued.\<close>

definition reserved :: "runtime_ref \<Rightarrow> addr set \<Rightarrow> rt world \<Rightarrow> addr \<times> uring_call \<Rightarrow> bool" where
  "reserved R T w ck \<longleftrightarrow> (case ck of (c, k) \<Rightarrow> c \<noteq> 0 \<and> calls (snd w) c = k \<and>
     (\<forall>u. t_runtime (tasks (tk (fst w)) u) \<noteq> Join_Runtime \<longrightarrow> task_runtime_data (fst w) u \<noteq> c) \<and>
     uc_task k \<noteq> 0 \<and> \<not> uc_finished k \<and> \<not> uc_explicit_read k \<and> t_runtime (tasks (tk (fst w)) (uc_task k)) = R \<and>
     task_runtime_data (fst w) (uc_task k) = 0 \<and> handed_over T (fst w) (uc_task k))"

text \<open>\<open>T\<close> are the tasks the calling thread is setting up, \<open>C\<close> the calls it has reserved.\<close>

definition linked_inv :: "runtime_ref \<Rightarrow> addr set \<Rightarrow> (addr \<times> uring_call) set \<Rightarrow> rt world \<Rightarrow> bool" where
  "linked_inv R T C w \<longleftrightarrow> R \<noteq> Join_Runtime \<and> calls_ok R w \<and> list_ok R w \<and>
     (\<forall>t. t_runtime (tasks (tk (fst w)) t) \<noteq> Join_Runtime \<and> task_runtime_data (fst w) t \<noteq> 0 \<longrightarrow>
        t_runtime (tasks (tk (fst w)) t) = R \<and> handed_over T (fst w) t) \<and>
     (\<forall>t\<in>request_owners (ur_of w). handed_over T (fst w) t) \<and> (\<forall>ck\<in>C. reserved R T w ck)"

lemma linked_invD:
  assumes "linked_inv R T C w"
  shows "R \<noteq> Join_Runtime" "calls_ok R w"
    "\<And>t. t_runtime (tasks (tk (fst w)) t) \<noteq> Join_Runtime \<Longrightarrow> task_runtime_data (fst w) t \<noteq> 0 \<Longrightarrow>
       t_runtime (tasks (tk (fst w)) t) = R \<and> handed_over T (fst w) t"
    "\<And>t. t \<in> request_owners (ur_of w) \<Longrightarrow> handed_over T (fst w) t" "list_ok R w"
    "\<And>ck. ck \<in> C \<Longrightarrow> reserved R T w ck"
  using assms unfolding linked_inv_def by blast+

lemma complete_handed:
  assumes inv: "fw_inv s" and t: "handed_over T s t" and c: "filc_async_complete t r s = Inr s'"
  shows "(calm_step shr B T)\<^sup>*\<^sup>* s s' \<and> fw_inv s' \<and> (\<forall>u. handed_over T s u \<longrightarrow> handed_over T s' u)"
proof (cases "is_running (tk s) t")
  case True
  have nr: "no_request s t" and j: "\<not> is_join s t" using t by (simp_all add: handed_over_def is_join_def)
  have "(\<forall>u. t_runtime (tasks (tk s') u) = t_runtime (tasks (tk s) u)) \<and> (\<forall>u. no_request s u \<longrightarrow> no_request s' u)"
  proof (rule complete_spec [OF inv True nr, of r])
    fix s'' assume e: "filc_async_complete t r s = Inr s''" "tk s'' = task_done t r (tk s)"
      "\<And>x. waiting (lk s'') x = waiting (lk s) x" "holds (lk s'') = holds (lk s)"
    have "s'' = s'" using c e(1) by simp
    then show ?thesis
      using e(2-4) task_done_spec(8) [OF fw_invD(1) [OF inv] True, of r] by (simp add: no_request_def)
  qed
  then show ?thesis
    using complete_calm [OF inv True j nr _ c, of T shr B] complete_inv [OF inv nr c] t
    by (auto simp: handed_over_def intro: r_into_rtranclp)
next
  case False
  then show ?thesis using c inv by (simp add: complete_idle)
qed

lemma completes_of_calm:
  assumes "(completes_of A)\<^sup>*\<^sup>* s s'" and "fw_inv s" and "\<And>t. t \<in> A \<Longrightarrow> handed_over T s t"
  shows "(calm_step shr B T)\<^sup>*\<^sup>* s s' \<and> fw_inv s' \<and> (\<forall>u. handed_over T s u \<longrightarrow> handed_over T s' u)"
  using assms(1)
proof (induction rule: rtranclp_induct)
  case (step y z)
  obtain t r where t: "t \<in> A" "filc_async_complete t r y = Inr z" using step(2) by (auto simp: completes_of_def)
  have "handed_over T y t" using step.IH assms(3) [OF t(1)] by blast
  from complete_handed [OF _ this t(2)] step.IH show ?case by (meson rtranclp_trans)
qed (use assms(2) in simp)

lemma completes_of_all: "(completes_of A)\<^sup>*\<^sup>* s s' \<Longrightarrow> completes\<^sup>*\<^sup>* s s'"
  by (erule rtranclp_mono [THEN predicate2D, rotated]) (use completes_of_def completes_def in blast)

text \<open>A poll's framework effects, with the runtime's invariant after them.\<close>

lemma linked_inv_after:
  assumes inv: "linked_inv R T C w" "fw_inv (fst w)" and ok: "calls_ok R w'"
    and c: "(completes_of A)\<^sup>*\<^sup>* (fst w) (fst w')" "\<And>t. t \<in> A \<Longrightarrow> handed_over T (fst w) t"
    and own: "request_owners (ur_of w') \<subseteq> request_owners (ur_of w)"
    and k: "\<And>c. same_call (calls (snd w) c) (calls (snd w') c)"
      "\<And>c. \<not> in_flight R w c \<Longrightarrow> calls (snd w') c = calls (snd w) c"
    and l: "call_list (snd w') = call_list (snd w) \<or>
      (\<exists>c. listed R w c \<and> call_list (snd w') = dll_remove c (call_list (snd w)))"
  shows "reaches shr B T (linked_inv R T C) w w'"
    and "\<And>u. handed_over T (fst w) u \<Longrightarrow> handed_over T (fst w') u"
proof -
  note i = linked_invD [OF inv(1)]
  have h: "(calm_step shr B T)\<^sup>*\<^sup>* (fst w) (fst w') \<and> fw_inv (fst w') \<and>
      (\<forall>u. handed_over T (fst w) u \<longrightarrow> handed_over T (fst w') u)"
    by (rule completes_of_calm [OF c(1) inv(2)]) (rule c(2))
  have same: "task_runtime_data (fst w') t = task_runtime_data (fst w) t"
    "t_runtime (tasks (tk (fst w')) t) = t_runtime (tasks (tk (fst w)) t)" for t
    using completes_frame [OF completes_of_all [OF c(1)], of t] by simp_all
  have "list_ok R w'" by (rule list_ok_removed [OF i(5) in_flight_frame(2) [OF completes_of_all [OF c(1)] k(1)] l])
  moreover have "reserved R T w' ck" if "ck \<in> C" for ck
  proof -
    obtain x y where ck: "ck = (x, y)" by force
    have r: "reserved R T w (x, y)" using i(6) [OF that] by (simp add: ck)
    then have "\<not> in_flight R w x" using i(1) by (auto simp: reserved_def in_flight_def)
    then show ?thesis using r h k(2) [of x] by (simp add: ck reserved_def same)
  qed
  ultimately have "linked_inv R T C w'" unfolding linked_inv_def same using i h ok own by blast
  then show "reaches shr B T (linked_inv R T C) w w'" using h by (simp add: reaches_def)
  show "\<And>u. handed_over T (fst w) u \<Longrightarrow> handed_over T (fst w') u" using h by blast
qed

lemma finish_reaches:
  assumes wake: "wake_settles (os_wake Os)" and inv: "linked_inv R T C w" "fw_inv (fst w)" and c: "in_flight R w c"
    and own: "request_owners U = request_owners (ur_of w)" and fin: "finish Os c (set_ur U w) = Inr w'"
  shows "reaches shr B T (linked_inv R T C) w w'"
    and "\<And>x. same_call (calls (snd w) x) (calls (snd w') x)" and "\<And>x. x \<noteq> c \<Longrightarrow> calls (snd w') x = calls (snd w) x"
    and "completes\<^sup>*\<^sup>* (fst w) (fst w')" and "\<And>u. handed_over T (fst w) u \<Longrightarrow> handed_over T (fst w') u"
proof -
  note i = linked_invD [OF inv(1)]
  let ?t = "uc_task (calls (snd w) c)"
  have t: "t_runtime (tasks (tk (fst w)) ?t) = R" "task_runtime_data (fst w) ?t = c" "c \<noteq> 0"
    using c by (auto simp: in_flight_def)
  have h: "handed_over T (fst w) ?t" using i(1) i(3) [of ?t] t by simp
  note f = finish_of [OF wake fin, simplified, unfolded own] and k = finish_spec(2) [OF fin, simplified]
  show u: "same_call (calls (snd w) x) (calls (snd w') x)" for x by (simp add: k same_call_def)
  show n: "calls (snd w') x = calls (snd w) x" if "x \<noteq> c" for x using that by (simp add: k)
  then have m: "calls (snd w') x = calls (snd w) x" if "\<not> in_flight R w x" for x using n [of x] that c by metis
  show "completes\<^sup>*\<^sup>* (fst w) (fst w')" using finish_spec(1) [OF fin] by simp
  have "calls_ok R w'"
    using finish_calls_ok [where w = "set_ur U w" and R = R and t = ?t, OF _ _ _ t(3) fin] i(2) t by (simp add: calls_ok_ur)
  note after = linked_inv_after [OF inv this conjunct1 [OF f]]
  show "reaches shr B T (linked_inv R T C) w w'" by (rule after(1)) (use h i(4) f u m c in \<open>auto simp: listed_def\<close>)
  show "handed_over T (fst w') u" if "handed_over T (fst w) u" for u
    by (rule after(2) [OF _ _ _ _ _ that]) (use h i(4) f u m c in \<open>auto simp: listed_def\<close>)
qed

lemma uring_poll_reaches:
  assumes wake: "wake_settles (os_wake Os)" and inv: "linked_inv R T C w" "fw_inv (fst w)"
    and t: "t_runtime (tasks (tk (fst w)) t) \<noteq> Join_Runtime" and p: "uring_poll Os t mode w = Inr (d, w')"
  shows "reaches shr B T (linked_inv R T C) w w'"
proof -
  note i = linked_invD [OF inv(1)]
  have still: "reaches shr B T (linked_inv R T C) w (set_ur U w)" if "request_owners U \<subseteq> request_owners (ur_of w)" for U
    by (rule linked_inv_after [OF inv, where A = "{}"]) (use i(2) that in \<open>simp_all add: calls_ok_ur\<close>)
  show ?thesis
    using p
  proof (cases rule: uring_poll_cases)
    case (later U)
    then show ?thesis using still by (simp add: request_owners_settles)
  next
    case (finish U)
    have R: "t_runtime (tasks (tk (fst w)) t) = R" using i(3) [OF t finish(1)] by auto
    then have "in_flight R w (task_runtime_data (fst w) t)"
      using calls_okD(2) [OF i(2) R finish(1)] finish(1) by (simp add: in_flight_def)
    from finish_reaches(1) [OF wake inv this request_owners_settles [OF finish(4)] finish(3)] show ?thesis .
  qed (use still [of "ur_of w"] in simp_all)
qed

lemma linked_inv_own:
  assumes inv: "linked_inv R T C w" and o: "own_step T (fst w) s'"
  shows "linked_inv R T C (s', snd w)"
proof -
  note i = linked_invD [OF inv]
  have req: "no_request s' t" if "no_request (fst w) t" "t \<notin> T" for t
    using o that unfolding own_step_def no_request_def by metis
  have rt: "t \<notin> T \<Longrightarrow> t_runtime (tasks (tk s') t) = t_runtime (tasks (tk (fst w)) t)" for t
    using o unfolding own_step_def by blast
  have data: "t_runtime (tasks (tk (fst w)) t) \<noteq> Join_Runtime \<and> tasks (tk s') t = tasks (tk (fst w)) t"
    if "t_runtime (tasks (tk s') t) \<noteq> Join_Runtime" "task_runtime_data s' t \<noteq> 0" for t
    using o that unfolding own_step_def task_runtime_data_def by metis
  have keep: "handed_over T s' t" if "handed_over T (fst w) t" for t
    using that req rt by (simp add: handed_over_def)
  have fl: "in_flight R (s', snd w) c = in_flight R w c" for c
  proof
    assume c: "in_flight R (s', snd w) c"
    then show "in_flight R w c" using data [of "uc_task (calls (snd w) c)"] i(1) by (auto simp: in_flight_def task_runtime_data_def)
  next
    assume c: "in_flight R w c"
    let ?t = "uc_task (calls (snd w) c)"
    have "handed_over T (fst w) ?t" using i(1) i(3) [of ?t] c by (simp add: in_flight_def)
    then have "tasks (tk s') ?t = tasks (tk (fst w)) ?t" using o unfolding own_step_def handed_over_def by blast
    then show "in_flight R (s', snd w) c" using c by (simp add: in_flight_def task_runtime_data_def)
  qed
  have "calls_ok R (s', snd w)"
    unfolding calls_ok_def
  proof (intro allI impI)
    fix t assume a: "t_runtime (tasks (tk (fst (s', snd w))) t) = R \<and> task_runtime_data (fst (s', snd w)) t \<noteq> 0"
    then have "tasks (tk s') t = tasks (tk (fst w)) t" using data [of t] i(1) by simp
    then show "t \<noteq> 0 \<and> uc_task (calls (snd (s', snd w)) (task_runtime_data (fst (s', snd w)) t)) = t \<and>
        (uc_finished (calls (snd (s', snd w)) (task_runtime_data (fst (s', snd w)) t)) \<longrightarrow> task_state (fst (s', snd w)) t \<noteq> 1)"
      using calls_okD [OF i(2), of t] a by (simp add: task_runtime_data_def task_state_def)
  qed
  moreover have "t_runtime (tasks (tk s') t) = R \<and> handed_over T s' t"
    if "t_runtime (tasks (tk s') t) \<noteq> Join_Runtime" "task_runtime_data s' t \<noteq> 0" for t
    using i(3) [of t] data [OF that] that keep by (simp add: task_runtime_data_def)
  moreover have "list_ok R (s', snd w)"
    by (rule list_ok_removed [OF i(5)]) (simp_all add: fl listed_def fun_eq_iff)
  moreover have "reserved R T (s', snd w) ck" if "ck \<in> C" for ck
  proof -
    obtain x y where ck: "ck = (x, y)" by force
    have r: "reserved R T w (x, y)" using i(6) [OF that] by (simp add: ck)
    have u: "task_runtime_data s' u \<noteq> x" if "t_runtime (tasks (tk s') u) \<noteq> Join_Runtime" for u
      using data [OF that] r by (cases "task_runtime_data s' u = 0") (auto simp: reserved_def task_runtime_data_def)
    have h: "handed_over T (fst w) (uc_task y)" using r by (simp add: reserved_def)
    then have "tasks (tk s') (uc_task y) = tasks (tk (fst w)) (uc_task y)" using o unfolding own_step_def handed_over_def by blast
    then show ?thesis using r u keep [OF h] by (simp add: ck reserved_def task_runtime_data_def)
  qed
  ultimately show ?thesis using i(1,4) keep unfolding linked_inv_def by simp
qed

section \<open>The contract\<close>

lemma wait_buffer_reaches:
  assumes "runtime_contract shr B T I E" and "I w" and "fw_inv (fst w)" and "filc_async_wait_buffer n E th t buf w = Inr w'"
  shows "reaches shr B T I w w'"
proof (cases "zaddr buf = 0")
  case True
  then show ?thesis using assms(2,4) by (simp add: filc_async_wait_buffer_def reaches_refl)
next
  case False
  then have "wait_owners n E buf (\<lambda>k. mk_write k \<and> mk_owner k \<noteq> t \<and> mk_owner k \<noteq> g_running_body th) w = Inr w'"
    using assms(4) by (simp add: filc_async_wait_buffer_def wait_buffer_locked_def)
  from runtime_contract.wait_owners_calm [OF assms(1-3) this] show ?thesis by (rule conjunct1)
qed

text \<open>What the runtime itself relies on: a sleep only settles requests, and what other threads change
  while this one waits for them is calm and keeps the runtime's invariant.\<close>

locale uring_linked =
  fixes shr :: bool and B :: "zptr set" and T :: "addr set" and C :: "(addr \<times> uring_call) set" and R :: runtime_ref
    and Os :: os and others :: "rt world \<Rightarrow> rt world"
  assumes wake: "wake_settles (os_wake Os)"
    and others_calm: "linked_inv R T C w \<Longrightarrow> fw_inv (fst w) \<Longrightarrow> reaches shr B T (linked_inv R T C) w (others w)"

sublocale uring_linked \<subseteq> runtime_contract shr B T "linked_inv R T C" "uring_env Os others"
proof unfold_locales
  fix w :: "rt world" and rt t mode d w'
  assume "linked_inv R T C w" "fw_inv (fst w)" "t_runtime (tasks (tk (fst w)) t) = rt" "rt \<noteq> Join_Runtime"
    "rt_poll (uring_env Os others) rt t mode w = Inr (d, w')"
  then show "reaches shr B T (linked_inv R T C) w w'" using uring_poll_reaches [OF wake, of R T C w t mode d w']
    by (simp add: uring_env_entries split: if_splits)
next
  fix w :: "rt world"
  assume "linked_inv R T C w" "fw_inv (fst w)"
  then show "reaches shr B T (linked_inv R T C) w (rt_changed (uring_env Os others) w)"
    using others_calm by (simp add: uring_env_entries)
next
  fix w :: "rt world" and s'
  assume "linked_inv R T C w" "own_step T (fst w) s'"
  then show "linked_inv R T C (s', snd w)" by (rule linked_inv_own)
qed

context uring_linked
begin

lemma contract: "runtime_contract shr B T (linked_inv R T C) (uring_env Os others)"
  by (rule runtime_contract_axioms)

text \<open>The same for the waits inside the runtime.\<close>

lemma waits_contract: "runtime_contract shr B T (linked_inv R T C) (uring_waits Os others)"
  using contract unfolding runtime_contract_def uring_env_entries .

end

text \<open>Another thread that sleeps in the request layer and collects what the kernel has posted.\<close>

definition ring_changed :: "os \<Rightarrow> rt world \<Rightarrow> rt world" where
  "ring_changed Os w = set_ur (fasync_block (os_wake Os) (ur_of w)) w"

lemma ring_changed_calm:
  assumes "wake_settles (os_wake Os)" and "linked_inv R T C w" and "fw_inv (fst w)"
  shows "reaches shr B T (linked_inv R T C) w (ring_changed Os w)"
  by (rule linked_inv_after [OF assms(2,3), where A = "{}"])
    (use linked_invD(2) [OF assms(2)] request_owners_settles [OF block_settles [OF assms(1)]]
      in \<open>simp_all add: ring_changed_def calls_ok_ur\<close>)

interpretation demo_ring: uring_linked shr B T C R demo_os "ring_changed demo_os" for shr B T C R
  by unfold_locales (simp_all add: demo_os_def demo_wake_settles ring_changed_calm)

text \<open>What other threads do while this one sleeps, as a law.\<close>

definition others_calm :: "bool \<Rightarrow> zptr set \<Rightarrow> addr set \<Rightarrow> (addr \<times> uring_call) set \<Rightarrow> runtime_ref \<Rightarrow> (rt world \<Rightarrow> rt world) \<Rightarrow> bool" where
  "others_calm shr B T C R others \<longleftrightarrow>
     (\<forall>w. linked_inv R T C w \<and> fw_inv (fst w) \<longrightarrow> reaches shr B T (linked_inv R T C) w (others w))"

lemma uring_linkedI: "wake_settles (os_wake Os) \<Longrightarrow> others_calm shr B T C R others \<Longrightarrow> uring_linked shr B T C R Os others"
  by unfold_locales (blast | simp only: others_calm_def)+

text \<open>C15. The io_uring runtime implements the contract the framework's waits are verified against:
  polling any of its tasks changes the framework only by steps that keep the calling thread's
  own tasks running and their marks and lock requests in place, and keeps the runtime's
  invariant, which the calling thread cannot break.\<close>

theorem uring_meets_contract:
  assumes "wake_settles (os_wake Os)" and "others_calm shr B T C R others"
  shows "runtime_contract shr B T (linked_inv R T C) (uring_env Os others)"
  by (rule uring_linked.contract [OF uring_linkedI [OF assms]])

text \<open>C17. An access to a buffer that io_uring calls fill waits for them: when it returns, no call
  not active on this thread is left that writes the buffer, the framework is still in a
  reachable state, and the runtime is ready for the next wait.\<close>

theorem uring_access_waits:
  assumes "wake_settles (os_wake Os)" and "others_calm shr {buf} T C R others" and "linked_inv R T C w"
    and "fw_reach shr (fst w)" and "points_into (fst w) buf"
    and "filc_async_wait_access n (uring_env Os others) th buf w = Inr w'"
  shows "fw_reach shr (fst w') \<and> linked_inv R T C w' \<and>
    (\<forall>m. mark_live (mk (fst w')) m \<and> mk_lower (marks (mk (fst w')) m) = zlower buf \<and>
        mk_owner (marks (mk (fst w')) m) \<noteq> 0 \<and> mk_write (marks (mk (fst w')) m) \<longrightarrow>
      mk_owner (marks (mk (fst w')) m) \<in> set (g_active th))"
proof -
  note c = runtime_contract.wait_access_calm [OF uring_linked.contract [OF uring_linkedI [OF assms(1,2)]]
      assms(3) fw_reach_inv [OF assms(4)] assms(5) insertI1 assms(6)]
  have r: "reaches shr {buf} T (linked_inv R T C) w w'" using c by blast
  have "(fw_step shr)\<^sup>*\<^sup>* (fst w) (fst w')" using calm_steps [OF reachesD(1) [OF r]] .
  then have "fw_reach shr (fst w')" by (rule fw_steps_reach [OF _ assms(4)])
  then show ?thesis using c reachesD(2) [OF r] by blast
qed

section \<open>Witnesses\<close>

lemma demo_others: "others_calm shr B T C R (ring_changed demo_os)"
  unfolding others_calm_def using demo_ring.others_calm by blast

theorem uring_meets_contract_witness:
  "runtime_contract False {demo_buf} {} (linked_inv (Linked 0x9000) {} {}) (uring_env demo_os (ring_changed demo_os))"
  by (rule uring_meets_contract) (simp_all add: demo_os_def demo_wake_settles demo_others [unfolded demo_os_def])

lemma demo_world_inv: "linked_inv (Linked 0x9000) {} {} demo_world"
proof -
  have nr: "no_request (fst demo_world) t" for t
    using demo1_no_request [of t] by (simp add: demo_world_def set_runtime_data_def no_request_def)
  have "rq_task (req_slots demo_pushed s) = 0" for s
    by (simp add: demo_pushed_def push_eval)
  then have "request_owners (ur_of demo_world) = {}"
    by (auto simp: request_owners_def demo_world_def demo_rt_def)
  moreover have "t_runtime (tasks (tk (fst demo_world)) t) = Linked 0x9000" if "task_runtime_data (fst demo_world) t \<noteq> 0" for t
    using that by (auto simp: demo_world_def task_runtime_data_def set_runtime_data_def demo1_data demo1_tasks split: if_splits)
  moreover have "list_ok (Linked 0x9000) demo_world"
    by (simp add: list_ok_def demo_world_def demo_rt_def dll_empty_def)
  ultimately show ?thesis using demo_world_ok nr unfolding linked_inv_def handed_over_def by simp
qed

lemma demo_ring_poll:
  obtains w' where "uring_poll demo_os 0x100 POLL_BLOCK demo_world = Inr (True, w')"
    "filc_async_complete 0x100 (word_of_int (- EOPNOTSUPP)) (fst demo_world) = Inr (fst w')"
proof -
  obtain s' where s': "filc_async_complete 0x100 (word_of_int (- EOPNOTSUPP)) (fst demo_world) = Inr s'"
    using demo_world_complete by blast
  have data: "task_runtime_data (fst demo_world) 0x100 = 0x4000" "calls (snd demo_world) = calls demo_rt"
    by (simp_all add: demo_world_def task_runtime_data_def set_runtime_data_def)
  have call: "calls demo_rt 0x4000 = call_zero\<lparr>uc_task := 0x100, uc_op := URING_OP_IGNORE\<rparr>" by (simp add: demo_rt_def)
  have "\<exists>w'. uring_poll demo_os 0x100 POLL_BLOCK demo_world = Inr (True, w') \<and> fst w' = s'"
    using s' by (simp add: uring_poll_def finish_def complete_with_def data call call_zero_def)
  then show thesis using that s' by blast
qed

lemma demo_world_fw:
  "fw_reach False (fst demo_world)" "mk (fst demo_world) = mk demo1" "heap (fst demo_world) = heap demo1"
proof -
  have "\<not> is_join demo1 0x100" by (simp add: is_join_def demo1_tasks)
  from fw_step.set_data [OF this] show "fw_reach False (fst demo_world)"
    unfolding demo_world_def by (simp add: fw_reach.step [OF demo1_reach])
qed (simp_all add: demo_world_def set_runtime_data_def)

lemma demo_world_access:
  "\<exists>w'. filc_async_wait_access 3 (uring_env demo_os (ring_changed demo_os)) demo_active demo_buf demo_world = Inr w'"
proof -
  let ?E = "uring_env demo_os (ring_changed demo_os)"
  let ?P = "\<lambda>k. mk_owner k \<notin> set (g_active demo_active) \<and> (mk_write k \<or> \<not> access_own demo_active (mk (fst demo_world)) demo_buf)"
  obtain w1 where p: "uring_poll demo_os 0x100 POLL_BLOCK demo_world = Inr (True, w1)"
    and c: "filc_async_complete 0x100 (word_of_int (- EOPNOTSUPP)) (fst demo_world) = Inr (fst w1)"
    by (rule demo_ring_poll)
  have t: "tasks (tk (fst demo_world)) 0x100 = (tasks (tk demo1) 0x100)\<lparr>t_runtime_data := 0x4000\<rparr>"
    by (simp add: demo_world_def set_runtime_data_def)
  have run: "is_running (tk (fst demo_world)) 0x100" by (simp add: is_running_def t demo1_tasks)
  have nr: "no_request (fst demo_world) 0x100"
    using demo1_no_request [of "0x100"] by (simp add: demo_world_def set_runtime_data_def no_request_def)
  note inv = fw_reach_inv [OF demo_world_fw(1)]
  have st: "task_state (fst w1) 0x100 \<noteq> 1" by (rule complete_frame(1) [OF c]) simp
  have left: "fw_inv (fst w1) \<and> points_into (fst w1) demo_buf \<and>
    (\<forall>m. mark_live (mk (fst w1)) m \<longrightarrow> mark_live (mk demo1) m \<and> marks (mk (fst w1)) m = marks (mk demo1) m \<and>
        mk_owner (marks (mk demo1) m) \<noteq> 0x100)"
  proof (rule complete_spec [OF inv run nr, of "word_of_int (- EOPNOTSUPP)"])
    fix s' assume e: "filc_async_complete 0x100 (word_of_int (- EOPNOTSUPP)) (fst demo_world) = Inr s'" "fw_inv s'"
      "\<And>x. mark_live (mk s') x = (mark_live (mk (fst demo_world)) x \<and> mk_owner (marks (mk (fst demo_world)) x) \<noteq> 0x100)"
      "\<And>x. mk_owner (marks (mk (fst demo_world)) x) \<noteq> 0x100 \<Longrightarrow> mark_live (mk (fst demo_world)) x \<Longrightarrow>
         marks (mk s') x = marks (mk (fst demo_world)) x"
      "s' = (fst demo_world)\<lparr>tk := tk s', mk := mk s', lk := lk s'\<rparr>"
    have "heap s' = heap demo1" by (subst e(5)) (simp add: demo_world_fw)
    moreover have "s' = fst w1" using c e(1) by simp
    ultimately show ?thesis using e(2-4) demo1_live(2) by (simp add: demo_world_fw points_into_def)
  qed
  have none: "owner_find (mk (fst w1)) demo_buf ?P = None"
    unfolding owner_find_None [OF conjunct1 [OF left] conjunct1 [OF conjunct2 [OF left]]]
  proof (intro allI impI)
    fix m assume m: "mark_live (mk (fst w1)) m \<and> mk_lower (marks (mk (fst w1)) m) = zlower demo_buf \<and> mk_owner (marks (mk (fst w1)) m) \<noteq> 0"
    then have l: "mark_live (mk demo1) m" "marks (mk (fst w1)) m = marks (mk demo1) m" "mk_owner (marks (mk demo1) m) \<noteq> 0x100"
      using left by blast+
    then have "m \<in> object_marks demo1 demo_buf" using m by (simp add: object_marks_def)
    then have "m = 0x300 \<or> m = 0x340" using subsetD [OF demo1_object] by blast
    then have e: "m = 0x340" using l(3) by (auto simp: demo1_marks)
    show "\<not> ?P (marks (mk (fst w1)) m)" unfolding l(2) unfolding e by (simp add: demo1_marks demo_active_def)
  qed
  have first: "owner_find (mk (fst demo_world)) demo_buf ?P = Some 0x100"
    by (simp add: owner_find_def demo_world_fw demo1_marks demo_buf_def demo_active_def overlaps_def)
  have "poll_task 1 ?E 0x100 POLL_BLOCK demo_world = Inr (True, w1)"
    by (simp add: poll_task.simps t demo1_tasks uring_env_entries demo_os_def [THEN arg_cong, of os_runtime] p)
  then have w: "wait_for 2 ?E 0x100 demo_world = Inr w1"
    using st by (subst wait_for.simps) (simp add: wait_for.simps task_state_def t demo1_tasks numeral_2_eq_2)
  have "wait_owners 2 ?E demo_buf ?P w1 = Inr w1" by (subst wait_owners.simps) (simp add: none)
  then have "wait_owners (Suc 2) ?E demo_buf ?P demo_world = Inr w1"
    unfolding wait_owners.simps [of "Suc 2"] first option.case nat.case w res_bind_simps .
  then have "wait_owners 3 ?E demo_buf ?P demo_world = Inr w1" by (simp only: numeral_3_eq_3 numeral_2_eq_2)
  then show ?thesis
    by (auto simp: filc_async_wait_access_def wait_access_locked_def Let_def demo_buf_def)
qed

theorem uring_access_waits_witness:
  "\<exists>w'. filc_async_wait_access 3 (uring_env demo_os (ring_changed demo_os)) demo_active demo_buf demo_world = Inr w' \<and>
    mk_owner (marks (mk demo1) 0x300) = 0x100 \<and>
    \<not> (mark_live (mk (fst w')) 0x300 \<and> marks (mk (fst w')) 0x300 = marks (mk demo1) 0x300)"
proof -
  obtain w' where w': "filc_async_wait_access 3 (uring_env demo_os (ring_changed demo_os)) demo_active demo_buf demo_world = Inr w'"
    using demo_world_access by blast
  have wake: "wake_settles (os_wake demo_os)" by (simp add: demo_os_def demo_wake_settles)
  have "points_into (fst demo_world) demo_buf" using demo1_live(2) by (simp add: points_into_def demo_world_fw)
  from uring_access_waits [OF wake demo_others demo_world_inv demo_world_fw(1) this w']
  have "\<not> (mark_live (mk (fst w')) 0x300 \<and> marks (mk (fst w')) 0x300 = marks (mk demo1) 0x300)"
    by (auto simp: demo1_marks demo_buf_def demo_active_def)
  then show ?thesis using w' by (auto simp: demo1_marks)
qed

end
