(* ===== verification/UringSubmit.thy ===== *)
theory UringSubmit
  imports UringContract
begin

text \<open>
  Submission to the io_uring runtime (\<^verbatim>\<open>uring_submit\<close> and \<^verbatim>\<open>queue\<close> of
  \<^verbatim>\<open>filc_async_uring.c\<close>) under the invariant of \<^verbatim>\<open>UringContract\<close>: a call that is handed in is
  completed with an error or in flight when the submission returns, and the next wait or
  submission finds the runtime as it expects it.
\<close>

section \<open>Queueing a request\<close>

lemma push_owners:
  assumes "fasync_push_sqe K op fd a len offset rb rl flags U = (x, U')"
  shows "request_owners U' \<subseteq> request_owners U"
proof -
  obtain rc U0 where e: "fasync_ensure_ring K U = (rc, U0)" by force
  have U0: "rq_task (req_slots U0 s) = rq_task (req_slots U s)" for s
    using e by (auto simp: fasync_ensure_ring_def fasync_ring_init_def zsys_defs fasync_req_table_init_def split: if_splits)
  obtain so U1 where a: "fasync_req_alloc U0 = (so, U1)" by force
  have U1: "rq_task (req_slots U1 s) = 0 \<or> rq_task (req_slots U1 s) = rq_task (req_slots U0 s)" for s
    using a by (auto simp: fasync_req_alloc_def fasync_slot_mark_def Let_def split: if_splits)
  obtain q U2 where g: "fasync_get_sqe K U1 = (q, U2)" by force
  have U2: "req_slots U2 = req_slots U1"
    using g by (auto simp: fasync_get_sqe_def fasync_submit_def fasync_submit_locked_def zsys_defs Let_def split: if_splits prod.splits)
  have "rq_task (req_slots U' s) = 0 \<or> rq_task (req_slots U' s) = rq_task (req_slots U s)" for s
    using assms U0 [of s] U1 [of s] U2
    by (auto simp: fasync_push_sqe_def e a g push_request_def fasync_req_release_def fasync_slot_mark_def Let_def
        split: if_splits option.splits)
  then show ?thesis by (force simp: request_owners_def image_iff)
qed

text \<open>What resolving a descriptor and queueing a request does to the rest of the program: it may
  complete tasks of requests, and leaves the calls alone.\<close>

definition advances :: "rt world \<Rightarrow> rt world \<Rightarrow> bool" where
  "advances w w' \<longleftrightarrow> (completes_of (request_owners (ur_of w)))\<^sup>*\<^sup>* (fst w) (fst w') \<and>
     request_owners (ur_of w') \<subseteq> request_owners (ur_of w) \<and> calls (snd w') = calls (snd w) \<and>
     call_list (snd w') = call_list (snd w)"

lemma advances_still:
  "fst w' = fst w \<Longrightarrow> request_owners (ur_of w') \<subseteq> request_owners (ur_of w) \<Longrightarrow> calls (snd w') = calls (snd w) \<Longrightarrow>
   call_list (snd w') = call_list (snd w) \<Longrightarrow> advances w w'"
  by (simp add: advances_def)

lemma advances_trans:
  assumes "advances w v" and "advances v w'"
  shows "advances w w'"
proof -
  have "(completes_of (request_owners (ur_of w)))\<^sup>*\<^sup>* (fst v) (fst w')"
    using assms completes_of_mono unfolding advances_def by blast
  then show ?thesis using assms by (auto simp: advances_def)
qed

lemma set_errno_advances [simp]: "advances w (set_errno e w)"
  by (rule advances_still) (simp_all add: request_owners_def)

lemma drop_pending_advances [simp]: "advances w (drop_pending p w)"
  by (rule advances_still) (simp_all add: drop_pending_def split: option.splits)

lemma push_advances:
  assumes "push_world (fasync_push_sqe K op fd a len offset rb rl flags) w = (i, w')"
  shows "advances w w'"
proof -
  obtain U where "fasync_push_sqe K op fd a len offset rb rl flags (ur_of w) = (i, U)" "w' = set_ur U w"
    using assms by (auto simp: push_world_def split: prod.splits)
  then show ?thesis using push_owners by (intro advances_still) auto
qed

lemma fd_resolve_advances:
  assumes wake: "wake_settles (os_wake Os)" and r: "fasync_fd_resolve Os fd w = Inr (x, w')"
  shows "advances w w'"
proof -
  consider "w' = w" | k i y w1 where "fasync_result Os i w = Inr (y, w1)"
      "w' = upd_rt (\<lambda>r. r\<lparr>g_pending_fds := (g_pending_fds r)(k := (g_pending_fds r k)\<lparr>pf_result := y, pf_resolved := True\<rparr>)\<rparr>) w1"
    using r by (auto simp: fasync_fd_resolve_def Let_def split: if_splits option.splits)
  then show ?thesis
  proof cases
    case 2
    from fasync_result_of [OF wake 2(1)] fasync_result_spec [OF 2(1)] show ?thesis
      by (simp add: advances_def 2(2) rt_same_def)
  qed (simp add: advances_still)
qed

lemma with_fd_advances:
  assumes wake: "wake_settles (os_wake Os)" and r: "with_fd Os fd f w = Inr (i, w')"
    and f: "\<And>fd v j v'. f fd v = Inr (j, v') \<Longrightarrow> advances v v'"
  shows "advances w w'"
proof -
  obtain real w1 where a: "fasync_fd_resolve Os fd w = Inr (real, w1)"
    and b: "(if real < 0 then Inr (0, set_errno (to_int32 (- real)) w1) else f (to_int32 real) w1) = Inr (i, w')"
    using r by (auto simp: with_fd_def)
  have "advances w1 w'" using b f by (auto split: if_splits)
  then show ?thesis using advances_trans fd_resolve_advances [OF wake a] by blast
qed

lemma close_advances:
  assumes wake: "wake_settles (os_wake Os)" and r: "fasync_close Os fd w = Inr (i, w')"
  shows "advances w w'"
proof (cases "fasync_fd_resolve Os fd w")
  case (Inr v)
  obtain real w1 where v: "v = (real, w1)" by (rule prod.exhaust)
  let ?p = "fasync_pending_fd_lookup fd (snd w)"
  note one = fd_resolve_advances [OF wake Inr [unfolded v]]
  note d = fasync_close_def fasync_close_locked_def Let_def Inr v res_bind_simps prod.case
  show ?thesis
  proof (cases "real < 0")
    case True
    then have "w' = set_errno (to_int32 (- real)) (drop_pending ?p w1)" using r unfolding d by simp
    then show ?thesis
      using advances_trans [OF one advances_trans [OF drop_pending_advances set_errno_advances]] by blast
  next
    case False
    obtain j w2 where p: "push_world (fasync_push_sqe (os_kernel Os) FASYNC_OP_CLOSE (to_int32 real) 0 0 0 0 0 0) w1 = (j, w2)"
      by (rule prod.exhaust)
    have "w' = w2 \<or> w' = drop_pending ?p w2" using r False unfolding d by (auto simp: p split: if_splits)
    then show ?thesis
      using advances_trans [OF one push_advances [OF p]] advances_trans [OF _ drop_pending_advances] by blast
  qed
qed (use r in \<open>simp add: fasync_close_def fasync_close_locked_def Let_def\<close>)

lemma openat_advances:
  assumes "fasync_do_openat Os dirfd path flags mode w = Inr (i, w')"
  shows "advances w w'"
  using assms push_advances by (auto simp: fasync_do_openat_def Let_def split: if_splits)

lemma dispatch_advances:
  assumes wake: "wake_settles (os_wake Os)" and d: "dispatch Os op args w = Inr (i, w')"
  shows "advances w w'"
proof -
  have push_buf_fun: "fasync_push_buf K op fd buf len offset flags = fasync_push_sqe K op fd buf len offset buf len flags"
    for K op fd buf len offset flags by (simp add: fasync_push_buf_def fun_eq_iff)
  have rd: "advances w w'" if "fasync_do_pread Os fd p len off w = Inr (i, w')" for fd p len off
    using that unfolding fasync_do_pread_def
    by (rule with_fd_advances [OF wake]) (simp add: push_buf_fun split: if_splits, rule push_advances)
  have wr: "advances w w'" if "fasync_do_pwrite Os fd p len off w = Inr (i, w')" for fd p len off
    using that unfolding fasync_do_pwrite_def
    by (rule with_fd_advances [OF wake]) (simp split: if_splits, rule push_advances)
  have fs: "advances w w'" if "fasync_fsync Os fd w = Inr (i, w')" for fd
    using that unfolding fasync_fsync_def by (rule with_fd_advances [OF wake]) (simp, rule push_advances)
  obtain a0 where a0: "arg_word args 0 = Inr a0" using d by (cases "arg_word args 0") (auto simp: dispatch_def)
  show ?thesis
    using d rd wr fs close_advances [OF wake, where w = w and w' = w'] openat_advances [where w = w and w' = w']
    by (cases op) (auto simp: dispatch_def a0 Let_def advances_still)
qed

section \<open>What a submission has done so far\<close>

text \<open>The invariant is kept, tasks have only been completed, and only calls in flight have changed.\<close>

definition progress :: "bool \<Rightarrow> zptr set \<Rightarrow> addr set \<Rightarrow> (addr \<times> uring_call) set \<Rightarrow> runtime_ref \<Rightarrow> rt world \<Rightarrow> rt world \<Rightarrow> bool" where
  "progress shr B T C R w w' \<longleftrightarrow> reaches shr B T (linked_inv R T C) w w' \<and> completes\<^sup>*\<^sup>* (fst w) (fst w') \<and>
     (\<forall>x. same_call (calls (snd w) x) (calls (snd w') x))"

lemma progress_trans:
  "progress shr B T C R w v \<Longrightarrow> progress shr B T C R v w' \<Longrightarrow> progress shr B T C R w w'"
  unfolding progress_def same_call_def using reaches_trans rtranclp_trans by (metis (no_types, lifting))

lemma progress_inv:
  assumes "progress shr B T C R w w'" and "fw_inv (fst w)"
  shows "linked_inv R T C w'" and "fw_inv (fst w')" and "listed R w' = listed R w"
proof -
  have r: "reaches shr B T (linked_inv R T C) w w'" using assms(1) by (simp add: progress_def)
  show "linked_inv R T C w'" by (rule reachesD(2) [OF r])
  show "fw_inv (fst w')" by (rule calm_inv [OF reachesD(1) [OF r] assms(2)])
  show "listed R w' = listed R w" using assms(1) by (intro in_flight_frame) (simp_all add: progress_def)
qed

lemma advances_progress:
  assumes inv: "linked_inv R T C w" "fw_inv (fst w)" and a: "advances w w'"
  shows "progress shr B T C R w w'"
proof -
  note i = linked_invD [OF inv(1)]
  have c: "(completes_of (request_owners (ur_of w)))\<^sup>*\<^sup>* (fst w) (fst w')" "request_owners (ur_of w') \<subseteq> request_owners (ur_of w)"
    "calls (snd w') = calls (snd w)" "call_list (snd w') = call_list (snd w)" using a by (auto simp: advances_def)
  have f: "completes\<^sup>*\<^sup>* (fst w) (fst w')" by (rule completes_of_all [OF c(1)])
  have "calls_ok R w'"
    using i(2) completes_frame [OF f] unfolding calls_ok_def c(3) by metis
  then have "reaches shr B T (linked_inv R T C) w w'"
    by (rule linked_inv_after(1) [OF inv _ c(1)]) (use i(4) c in auto)
  then show ?thesis by (simp add: progress_def f c(3))
qed

lemma finish_progress:
  assumes "wake_settles (os_wake Os)" and "linked_inv R T C w" "fw_inv (fst w)" and "in_flight R w c"
    and "settles (ur_of w) U" and "finish Os c (set_ur U w) = Inr w'"
  shows "progress shr B T C R w w'"
  using finish_reaches [OF assms(1-4) request_owners_settles [OF assms(5)] assms(6)] by (simp add: progress_def)

lemma settle_progress:
  assumes inv: "linked_inv R T C w" "fw_inv (fst w)" and s: "settles (ur_of w) U"
  shows "progress shr B T C R w (set_ur U w)"
  by (rule advances_progress [OF inv]) (simp add: advances_def request_owners_settles [OF s])

section \<open>Making room\<close>

lemma reclaim_loop_progress:
  assumes wake: "wake_settles (os_wake Os)"
  shows "reclaim_loop n Os rc c w = Inr (again, w') \<Longrightarrow> linked_inv R T C w \<Longrightarrow> fw_inv (fst w) \<Longrightarrow>
    (c \<noteq> 0 \<longrightarrow> listed R w c) \<Longrightarrow> progress shr B T C R w w'"
proof (induction n arbitrary: rc c w)
  case 0
  then have "w' = w" by (subst (asm) reclaim_loop.simps) (auto split: if_splits)
  then show ?case using settle_progress [OF 0(2,3) settles_refl] by simp
next
  case (Suc n)
  show ?case
  proof (cases "c = 0")
    case True
    then have "w' = w" using Suc.prems(1) by (subst (asm) reclaim_loop.simps) simp
    then show ?thesis using settle_progress [OF Suc.prems(2,3) settles_refl] by simp
  next
    case False
    then have fl: "listed R w c" and fl1: "in_flight R w c" using Suc.prems(4) by (simp_all add: listed_def)
    obtain rdy U where r: "fasync_ready (uc_request (calls (snd w) c)) (ur_of w) = (rdy, U)" by (rule prod.exhaust)
    note st = ready_settles [OF r]
    let ?V = "snd (fasync_submit (os_kernel Os) U)"
    have loop: "(if \<not> rdy then (if \<not> rc then map_sum id (Pair True) (finish Os c (set_ur ?V w)) else Inr (True, set_ur U w))
        else res_bind (finish Os c (set_ur U w)) (\<lambda>w1. reclaim_loop n Os True (newer (call_list (snd w1)) c) w1)) =
      Inr (again, w')"
      using Suc.prems(1) False by (subst (asm) reclaim_loop.simps) (simp add: r)
    consider "\<not> rdy" "finish Os c (set_ur ?V w) = Inr w'" | "w' = set_ur U w"
      | w1 where "finish Os c (set_ur U w) = Inr w1" "reclaim_loop n Os True (newer (call_list (snd w1)) c) w1 = Inr (again, w')"
      using loop by (cases rdy; cases rc) (auto simp: map_sum_def split: sum.splits)
    then show ?thesis
    proof cases
      case 1
      show ?thesis by (rule finish_progress [OF wake Suc.prems(2,3) fl1 settles_trans [OF st submit_settles] 1(2)])
    next
      case 2
      then show ?thesis using settle_progress [OF Suc.prems(2,3) st] by simp
    next
      case 3
      note p = finish_progress [OF wake Suc.prems(2,3) fl1 st 3(1), of shr B]
      note q = progress_inv [OF p Suc.prems(3)]
      have "newer (call_list (snd w1)) c \<noteq> 0 \<longrightarrow> listed R w1 (newer (call_list (snd w1)) c)"
        using linked_invD(5) [OF q(1)] fl q(3) by (auto simp: list_ok_def)
      from Suc.IH [OF 3(2) q(1,2) this] show ?thesis by (rule progress_trans [OF p])
    qed
  qed
qed

lemma reclaim_progress:
  assumes "wake_settles (os_wake Os)" and "reclaim Os w = Inr (again, w')" and inv: "linked_inv R T C w" "fw_inv (fst w)"
  shows "progress shr B T C R w w'"
  by (rule reclaim_loop_progress [OF assms(1) assms(2) [unfolded reclaim_def] inv])
    (use linked_invD(5) [OF inv(1)] in \<open>simp add: list_ok_def\<close>)

section \<open>Queueing a call\<close>

lemma linked_inv_less: "linked_inv R T C w \<Longrightarrow> D \<subseteq> C \<Longrightarrow> linked_inv R T D w"
  by (auto simp: linked_inv_def)

lemma reservedD:
  assumes "linked_inv R T {(c, k)} w"
  shows "c \<noteq> 0" "calls (snd w) c = k"
    "\<And>u. t_runtime (tasks (tk (fst w)) u) \<noteq> Join_Runtime \<Longrightarrow> task_runtime_data (fst w) u \<noteq> c"
    "uc_task k \<noteq> 0" "\<not> uc_finished k" "t_runtime (tasks (tk (fst w)) (uc_task k)) = R"
    "task_runtime_data (fst w) (uc_task k) = 0" "handed_over T (fst w) (uc_task k)" "\<not> uc_explicit_read k"
  using linked_invD(6) [OF assms, of "(c, k)"] by (auto simp: reserved_def)

lemma reserve:
  assumes inv: "linked_inv R T {} w" and c: "c \<noteq> 0"
    and free: "\<And>u. t_runtime (tasks (tk (fst w)) u) \<noteq> Join_Runtime \<Longrightarrow> task_runtime_data (fst w) u \<noteq> c"
    and k: "uc_task k \<noteq> 0" "\<not> uc_finished k" "t_runtime (tasks (tk (fst w)) (uc_task k)) = R"
      "task_runtime_data (fst w) (uc_task k) = 0" "handed_over T (fst w) (uc_task k)" "\<not> uc_explicit_read k"
    and w': "fst w' = fst w" "calls (snd w') = (calls (snd w))(c := k)" "call_list (snd w') = call_list (snd w)"
      "ur_of w' = ur_of w"
  shows "linked_inv R T {(c, k)} w'"
proof -
  note i = linked_invD [OF inv]
  have "\<not> in_flight R w c" using free i(1) by (auto simp: in_flight_def)
  moreover have "\<not> in_flight R w' c" using k(4) c by (simp add: in_flight_def w')
  ultimately have f: "listed R w' = listed R w" by (auto simp: in_flight_def listed_def fun_eq_iff w')
  have "list_ok R w'" by (rule list_ok_removed [OF i(5) f]) (simp add: w'(3))
  moreover have "calls_ok R w'"
    using i(1,2) free by (auto simp: calls_ok_def w')
  moreover have "reserved R T w' (c, k)" using c free k by (simp add: reserved_def w')
  ultimately show ?thesis using i(1,3,4) by (simp add: linked_inv_def w')
qed

lemma reserve_again:
  assumes inv: "linked_inv R T {(c, k)} w" and k': "uc_task k' = uc_task k" "\<not> uc_finished k'" "\<not> uc_explicit_read k'"
    and w': "fst w' = fst w" "calls (snd w') = (calls (snd w))(c := k')" "call_list (snd w') = call_list (snd w)"
      "ur_of w' = ur_of w"
  shows "linked_inv R T {(c, k')} w'"
  by (rule reserve [OF linked_inv_less [OF inv] _ _ _ _ _ _ _ _ w']) (use reservedD [OF inv] k' in simp_all)

text \<open>The call becomes its task's runtime data; it goes into the list when it has a request.\<close>

lemma enqueue_call:
  assumes inv: "linked_inv R T {(c, k)} w"
    and v: "uc_request k \<noteq> 0 \<and> v = list_add c w \<or> uc_request k = 0 \<and> v = w"
  shows "linked_inv R T {} (upd_fw (set_runtime_data (uc_task k) c) v)"
proof -
  let ?w = "upd_fw (set_runtime_data (uc_task k) c) v" and ?t = "uc_task k"
  note i = linked_invD [OF inv] and r = reservedD [OF inv]
  have fv: "fst v = fst w" using v by (auto simp: list_add_def)
  have rt: "t_runtime (tasks (tk (fst ?w)) u) = t_runtime (tasks (tk (fst w)) u)"
    "task_runtime_data (fst ?w) u = (if u = ?t then c else task_runtime_data (fst w) u)"
    "task_state (fst ?w) u = task_state (fst w) u" for u
    by (simp_all add: set_runtime_data_def task_runtime_data_def task_state_def fv)
  have k: "calls (snd ?w) = calls (snd w)" "ur_of ?w = ur_of w"
    "call_list (snd ?w) = (if uc_request k \<noteq> 0 then dll_add c (call_list (snd w)) else call_list (snd w))"
    using v by (auto simp: list_add_def)
  have h: "handed_over T (fst ?w) u = handed_over T (fst w) u" for u
    by (simp add: handed_over_def rt(1)) (simp add: no_request_def set_runtime_data_def fv)
  have "calls_ok R ?w"
    using i(1,2) r unfolding calls_ok_def rt k by auto
  moreover have fl: "listed R ?w x \<longleftrightarrow> x = c \<and> uc_request k \<noteq> 0 \<or> listed R w x" for x
    using r i(1) unfolding in_flight_def listed_def rt k by auto
  have "list_ok R ?w"
    unfolding list_ok_def fl k using i(5) unfolding list_ok_def by (auto simp: dll_add_def Let_def)
  ultimately show ?thesis using i(1,3,4) r unfolding linked_inv_def rt h k by auto
qed

lemma complete_progress:
  assumes inv: "linked_inv R T C w" "fw_inv (fst w)" and t: "handed_over T (fst w) t" and c: "complete_with t x w = Inr w'"
  shows "progress shr B T C R w w'"
proof -
  note i = linked_invD [OF inv(1)] and d = complete_with_of [OF c] and e = complete_with_spec [OF c]
  have "calls_ok R w'"
    using i(2) completes_frame [OF conjunct1 [OF e]] d unfolding calls_ok_def by metis
  then have "reaches shr B T (linked_inv R T C) w w'"
    by (rule linked_inv_after(1) [OF inv, where A = "{t}"]) (use d t in auto)
  then show ?thesis using e by (simp add: progress_def)
qed

text \<open>What a submission promises: the framework moved by its own steps, the runtime is ready for the next
  call, and the task has been completed or its call is in flight.\<close>

definition submitted :: "bool \<Rightarrow> addr set \<Rightarrow> runtime_ref \<Rightarrow> addr \<Rightarrow> addr \<Rightarrow> rt world \<Rightarrow> rt world \<Rightarrow> bool" where
  "submitted shr T R t c w w' \<longleftrightarrow> (fw_step shr)\<^sup>*\<^sup>* (fst w) (fst w') \<and> linked_inv R T {} w' \<and>
     (task_state (fst w') t \<noteq> 1 \<or> task_runtime_data (fst w') t = c \<and> uc_task (calls (snd w') c) = t)"

lemma progress_steps: "progress shr B T C R w w' \<Longrightarrow> (fw_step shr)\<^sup>*\<^sup>* (fst w) (fst w')"
  unfolding progress_def using calm_steps [OF reachesD(1)] by blast

lemma submitted_after: "(fw_step shr)\<^sup>*\<^sup>* (fst w) (fst v) \<Longrightarrow> submitted shr T R t c v w' \<Longrightarrow> submitted shr T R t c w w'"
  unfolding submitted_def using rtranclp_trans by (metis (no_types, lifting))

lemma complete_submitted:
  assumes inv: "linked_inv R T {(c, k)} w" "fw_inv (fst w)" and c: "complete_with (uc_task k) x w = Inr w'"
  shows "submitted shr T R (uc_task k) d w w'"
proof -
  note r = reservedD [OF inv(1)]
  have p: "progress shr {} T {(c, k)} R w w'" by (rule complete_progress [OF inv r(8) c])
  have "task_state (fst w') (uc_task k) \<noteq> 1" using complete_with_spec [OF c] r(4) by blast
  then show ?thesis
    using progress_steps [OF p] linked_inv_less [OF progress_inv(1) [OF p inv(2)], of "{}"] by (simp add: submitted_def)
qed

lemma enqueue_submitted:
  assumes inv: "linked_inv R T {(c, k)} w"
    and v: "uc_request k \<noteq> 0 \<and> v = list_add c w \<or> uc_request k = 0 \<and> v = w"
  shows "submitted shr T R (uc_task k) c w (upd_fw (set_runtime_data (uc_task k) c) v)"
proof -
  have fv: "fst v = fst w" "calls (snd v) = calls (snd w)" using v by (auto simp: list_add_def)
  note r = reservedD [OF inv]
  have "\<not> is_join (fst w) (uc_task k)" using r(6) linked_invD(1) [OF inv] by (simp add: is_join_def)
  then have "(fw_step shr)\<^sup>*\<^sup>* (fst w) (set_runtime_data (uc_task k) c (fst w))" by (intro r_into_rtranclp fw_step.set_data)
  then show ?thesis
    using enqueue_call [OF inv v] r(2)
    by (simp add: submitted_def fv) (simp add: set_runtime_data_def task_runtime_data_def fv)
qed

lemma queue_round:
  assumes wake: "wake_settles (os_wake Os)" and q: "queue_loop n Os c args w = Inr w'"
    and inv: "linked_inv R T {(c, k)} w" "fw_inv (fst w)"
  obtains (over) "submitted shr T R (uc_task k) c w w'"
  | (again) m v k' where "n = Suc m" "queue_loop m Os c args v = Inr w'" "linked_inv R T {(c, k')} v" "fw_inv (fst v)"
      "uc_task k' = uc_task k" "(fw_step shr)\<^sup>*\<^sup>* (fst w) (fst v)"
proof -
  note r = reservedD [OF inv(1)]
  obtain i w1 where d: "dispatch Os (uc_op k) (staged (tk (fst w)) args) (set_errno 0 w) = Inr (i, w1)"
    using q by (subst (asm) queue_loop.simps) (auto simp: r(2) Let_def)
  let ?k = "k\<lparr>uc_request := i\<rparr>"
  define w2 where "w2 = upd_call c (\<lambda>k. k\<lparr>uc_request := i\<rparr>) w1"
  have body: "(if i \<noteq> 0 then Inr (upd_fw (set_runtime_data (uc_task k) c) (list_add c w2))
       else if errno (ur_of w2) = EAGAIN
       then res_bind (reclaim Os w2) (\<lambda>(again, w3).
              if again then (case n of 0 \<Rightarrow> Inl No_Return | Suc m \<Rightarrow> queue_loop m Os c args w3)
              else complete_with (uc_task k) (if errno (ur_of w3) \<noteq> 0 then - errno (ur_of w3) else - EIO) w3)
       else complete_with (uc_task k) (if errno (ur_of w2) \<noteq> 0 then - errno (ur_of w2) else - EIO) w2) = Inr w'"
    using q unfolding queue_loop.simps [of n Os c args w] Let_def r(2) d res_bind_simps prod.case w2_def .
  have p1: "progress shr {} T {(c, k)} R w w1"
    by (rule advances_progress [OF inv advances_trans [OF set_errno_advances dispatch_advances [OF wake d]]])
  note q1 = progress_inv [OF p1 inv(2)]
  have i2: "linked_inv R T {(c, ?k)} w2"
    by (rule reserve_again [OF q1(1)]) (use r(5,9) reservedD(2) [OF q1(1)] in \<open>simp_all add: w2_def\<close>)
  have f2: "fst w2 = fst w1" by (simp add: w2_def)
  note s1 = progress_steps [OF p1, folded f2]
  have fin: "submitted shr T R (uc_task k) c v w'" if "complete_with (uc_task k) x v = Inr w'" "linked_inv R T {(c, ?k)} v"
    "fw_inv (fst v)" for x v
    using complete_submitted [OF that(2,3), where x = x and w' = w' and shr = shr and d = c] that(1) by simp
  consider "i \<noteq> 0" | "i = 0" "errno (ur_of w2) = EAGAIN" | "i = 0" "errno (ur_of w2) \<noteq> EAGAIN" by blast
  then show thesis
  proof cases
    case 1
    then have "submitted shr T R (uc_task k) c w2 w'" using body enqueue_submitted [OF i2, where shr = shr and v = "list_add c w2"] by simp
    then show thesis using over submitted_after [OF s1] by blast
  next
    case 2
    obtain g w3 where g: "reclaim Os w2 = Inr (g, w3)" using body 2 by (cases "reclaim Os w2") auto
    have p3: "progress shr {} T {(c, ?k)} R w2 w3" by (rule reclaim_progress [OF wake g i2]) (simp add: f2 q1(2))
    note q3 = progress_inv [OF p3, unfolded f2, OF q1(2)] and s3 = rtranclp_trans [OF s1 progress_steps [OF p3]]
    show thesis
    proof (cases g)
      case True
      then obtain m where m: "n = Suc m" "queue_loop m Os c args w3 = Inr w'"
        using body 2 g by (cases n) auto
      then show thesis using again [OF m q3(1,2) _ s3] by simp
    next
      case False
      then have "complete_with (uc_task k) (if errno (ur_of w3) \<noteq> 0 then - errno (ur_of w3) else - EIO) w3 = Inr w'"
        using body 2 g by simp
      from fin [OF this q3(1,2)] show thesis using over submitted_after [OF s3] by blast
    qed
  next
    case 3
    then have "complete_with (uc_task k) (if errno (ur_of w2) \<noteq> 0 then - errno (ur_of w2) else - EIO) w2 = Inr w'"
      using body by simp
    from fin [OF this i2] show thesis using over submitted_after [OF s1] q1(2) f2 by simp
  qed
qed

lemma queue_loop_keeps:
  assumes wake: "wake_settles (os_wake Os)"
  shows "queue_loop n Os c args w = Inr w' \<Longrightarrow> linked_inv R T {(c, k)} w \<Longrightarrow> fw_inv (fst w) \<Longrightarrow>
    submitted shr T R (uc_task k) c w w'"
proof (induction n arbitrary: k w)
  case 0
  show ?case by (rule queue_round [OF wake 0, where shr = shr]) simp_all
next
  case (Suc n)
  show ?case
  proof (rule queue_round [OF wake Suc.prems, where shr = shr])
    fix m v k' assume v: "Suc n = Suc m" "queue_loop m Os c args v = Inr w'" "linked_inv R T {(c, k')} v" "fw_inv (fst v)"
      "uc_task k' = uc_task k" "(fw_step shr)\<^sup>*\<^sup>* (fst w) (fst v)"
    have "submitted shr T R (uc_task k') c v w'" using Suc.IH v(1-4) by simp
    then show ?thesis using submitted_after [OF v(6)] v(5) by simp
  qed
qed

lemma queue_keeps:
  assumes wake: "wake_settles (os_wake Os)" and q: "queue Os c m args w = Inr w'"
    and inv: "linked_inv R T {(c, k)} w" "fw_inv (fst w)" and fresh: "uc_request k = 0"
  shows "submitted shr T R (uc_task k) c w w'"
proof -
  note r = reservedD [OF inv(1)]
  note d = queue_def Let_def r(2)
  consider "uc_op k = URING_OP_IGNORE" | "uc_op k \<noteq> URING_OP_IGNORE" by blast
  then show ?thesis
  proof cases
    case 1
    have "w' = upd_fw (set_runtime_data (uc_task k) c) w" using q 1 by (simp add: d)
    then show ?thesis using enqueue_submitted [OF inv(1), of w] fresh by simp
  next
    case 2
    show ?thesis
    proof (cases "shape_ok m (uc_op k)")
      case False
      then have "complete_with (uc_task k) (- EINVAL) w = Inr w'" using q 2 by (simp add: d)
      from complete_submitted [OF inv this] show ?thesis .
    next
      case True
      then obtain len where "(if len > UINT_MAX then complete_with (uc_task k) (- EOVERFLOW) w
          else queue_loop (os_fuel Os) Os c args w) = Inr w'"
        using q 2 by (auto simp: d)
      then show ?thesis using complete_submitted [OF inv] queue_loop_keeps [OF wake _ inv] by (auto split: if_splits)
    qed
  qed
qed

section \<open>Submission\<close>

text \<open>A submission whose inner waits see any runtime that meets the contract.\<close>

lemma submit_kept:
  assumes "wake_settles (os_wake Os)"
    and "runtime_contract shr {} T (linked_inv R T {(c, call_zero\<lparr>uc_task := t, uc_op := op_from (m_opts m)\<rparr>)}) E"
    and "filc_async_run th t run args w = Inr (x, w0)" and "linked_inv R T {} w0" and "fw_reach shr (fst w0)"
    and "call_answers (snd w0) = c # cs"
    and "\<forall>u. t_runtime (tasks (tk (fst w0)) u) \<noteq> Join_Runtime \<longrightarrow> task_runtime_data (fst w0) u \<noteq> c"
    and "t_runtime (tasks (tk (fst w0)) t) = R" and "task_runtime_data (fst w0) t = 0" and "handed_over T (fst w0) t"
    and "uring_submit n Os E th t (Some m) run args nargs w = Inr w'"
  shows "fw_reach shr (fst w') \<and> linked_inv R T {} w' \<and>
    (task_state (fst w') t \<noteq> 1 \<or> task_runtime_data (fst w') t = c \<and> uc_task (calls (snd w') c) = t)"
proof -
  let ?k = "call_zero\<lparr>uc_task := t, uc_op := op_from (m_opts m)\<rparr>"
  let ?r = "(snd w0)\<lparr>call_answers := cs, calls := (calls (snd w0))(c := call_zero)\<rparr>"
  define w1 where "w1 = upd_call c (\<lambda>k. k\<lparr>uc_task := t, uc_op := op_from (m_opts m)\<rparr>) (fst w0, ?r)"
  have t: "t \<noteq> 0" "args \<noteq> 0 \<and> nargs = ucast (m_nargs m)" using assms(11) by (auto simp: uring_submit_def split: if_splits)
  have c: "c \<noteq> 0" using assms(11) t by (auto simp: uring_submit_def assms(3,6) alloc_call_def)
  have a: "alloc_call msg (snd w0) = Inr (c, ?r)" for msg using c by (simp add: alloc_call_def assms(6))
  have sub: "res_bind (if (op_from (m_opts m) = URING_OP_WRITE \<or> op_from (m_opts m) = URING_OP_OPENAT) \<and> shape_ok m (op_from (m_opts m))
       then res_bind (arg_ptr (staged (tk (fst w1)) args) 1) (\<lambda>p. filc_async_wait_buffer n E th t p w1) else Inr w1)
     (queue Os c m args) = Inr w'"
    using assms(11) t by (simp add: uring_submit_def assms(3) a Let_def w1_def del: res_bind_Inr cong: if_cong)
  then obtain w2 where w2: "w2 = w1 \<or> (\<exists>p. filc_async_wait_buffer n E th t p w1 = Inr w2)" "queue Os c m args w2 = Inr w'"
    by (auto split: if_splits)
  have f1: "fst w1 = fst w0" by (simp add: w1_def)
  have i1: "linked_inv R T {(c, ?k)} w1"
    by (rule reserve [OF assms(4) c]) (use assms(7-10) t in \<open>simp_all add: w1_def call_zero_def\<close>)
  note inv1 = fw_reach_inv [OF assms(5), folded f1]
  have r: "reaches shr {} T (linked_inv R T {(c, ?k)}) w1 w2"
  proof (cases "w2 = w1")
    case False
    then obtain p where "filc_async_wait_buffer n E th t p w1 = Inr w2" using w2(1) by blast
    from wait_buffer_reaches [OF assms(2) i1 inv1 this] show ?thesis .
  qed (simp add: reaches_refl i1)
  have s2: "(fw_step shr)\<^sup>*\<^sup>* (fst w0) (fst w2)" using calm_steps [OF reachesD(1) [OF r]] by (simp add: f1)
  have "submitted shr T R (uc_task ?k) c w2 w'"
    by (rule queue_keeps [OF assms(1) w2(2) reachesD(2) [OF r] calm_inv [OF reachesD(1) [OF r] inv1]]) (simp add: call_zero_def)
  from submitted_after [OF s2 this] show ?thesis using fw_steps_reach [OF _ assms(5)] by (simp add: submitted_def)
qed

text \<open>Through the framework: \<open>filc_async_submit\<close> calls the entry of the runtime its descriptor names.\<close>

lemma submit_through_framework:
  assumes "m_runtime m = os_runtime Os"
  shows "filc_async_submit (uring_env Os others) th t m run args nargs w =
    res_bind (active_push t th)
      (\<lambda>th1. uring_submit (os_fuel Os) Os (uring_waits Os others) th1 t (Some m) (os_body Os run) args nargs w)"
  by (simp add: filc_async_submit_def uring_env_def assms)

theorem framework_submit_keeps:
  assumes "wake_settles (os_wake Os)" and "m_runtime m = os_runtime Os" and "active_push t th = Inr th1"
    and "others_calm shr {} T {(c, call_zero\<lparr>uc_task := t, uc_op := op_from (m_opts m)\<rparr>)} R others"
    and "filc_async_run th1 t (os_body Os run) args w = Inr (x, w0)" and "linked_inv R T {} w0" and "fw_reach shr (fst w0)"
    and "call_answers (snd w0) = c # cs"
    and "\<forall>u. t_runtime (tasks (tk (fst w0)) u) \<noteq> Join_Runtime \<longrightarrow> task_runtime_data (fst w0) u \<noteq> c"
    and "t_runtime (tasks (tk (fst w0)) t) = R" and "task_runtime_data (fst w0) t = 0" and "handed_over T (fst w0) t"
    and "filc_async_submit (uring_env Os others) th t m run args nargs w = Inr w'"
  shows "fw_reach shr (fst w') \<and> linked_inv R T {} w' \<and>
    (task_state (fst w') t \<noteq> 1 \<or> task_runtime_data (fst w') t = c \<and> uc_task (calls (snd w') c) = t)"
proof (rule submit_kept [OF assms(1) _ assms(5-12)])
  show "uring_submit (os_fuel Os) Os (uring_waits Os others) th1 t (Some m) (os_body Os run) args nargs w = Inr w'"
    using assms(3,13) by (simp add: submit_through_framework [OF assms(2)])
qed (rule uring_linked.waits_contract [OF uring_linkedI [OF assms(1,4)]])

text \<open>C16. A submission to io_uring loses no call: when it returns, the call's task has been completed with
  an error or the call is in flight under its task, where the next poll finds it; the framework
  has moved by its own steps, and the runtime keeps the invariant the waits rest on.\<close>

theorem uring_submit_keeps:
  assumes "wake_settles (os_wake Os)"
    and "others_calm shr {} T {(c, call_zero\<lparr>uc_task := t, uc_op := op_from (m_opts m)\<rparr>)} R others"
    and "filc_async_run th t run args w = Inr (x, w0)" and "linked_inv R T {} w0" and "fw_reach shr (fst w0)"
    and "call_answers (snd w0) = c # cs"
    and "\<forall>u. t_runtime (tasks (tk (fst w0)) u) \<noteq> Join_Runtime \<longrightarrow> task_runtime_data (fst w0) u \<noteq> c"
    and "t_runtime (tasks (tk (fst w0)) t) = R" and "task_runtime_data (fst w0) t = 0" and "handed_over T (fst w0) t"
    and "uring_submit n Os (uring_env Os others) th t (Some m) run args nargs w = Inr w'"
  shows "fw_reach shr (fst w') \<and> linked_inv R T {} w' \<and>
    (task_state (fst w') t \<noteq> 1 \<or> task_runtime_data (fst w') t = c \<and> uc_task (calls (snd w') c) = t)"
  by (rule submit_kept [OF assms(1) uring_linked.contract [OF uring_linkedI [OF assms(1,2)]] assms(3-11)])

section \<open>Witness\<close>

definition sync_meta :: filc_async_meta where
  "sync_meta = \<lparr>m_name = ''sync'', m_nargs = 1, m_noped_args = 0, m_flags = 0, m_result = 1,
     m_opts = [''op=fsync''], m_runtime = Linked 0x9000, m_args = [\<lparr>a_kind = 0, a_dependency = 0\<rparr>]\<rparr>"

definition submit_world :: "rt world" where
  "submit_world = (demo1, demo_rt\<lparr>call_answers := [0x4000]\<rparr>)"

lemma submit_world_inv: "linked_inv (Linked 0x9000) {} {} submit_world"
proof -
  have d: "task_runtime_data (fst submit_world) t = 0" for t by (simp add: submit_world_def task_runtime_data_def demo1_data)
  have "rq_task (req_slots demo_pushed s) = 0" for s by (simp add: demo_pushed_def push_eval)
  then have "request_owners (ur_of submit_world) = {}" by (auto simp: request_owners_def submit_world_def demo_rt_def)
  then show ?thesis
    by (simp add: linked_inv_def calls_ok_def d list_ok_def) (simp add: submit_world_def demo_rt_def dll_empty_def)
qed

lemma sync_push:
  obtains U where "fasync_push_sqe demo_kernel FASYNC_OP_FSYNC 0x1008 0 0 0 0 0 0 (demo_pushed\<lparr>errno := 0\<rparr>) = (0x200000001, U)"
proof -
  have "\<exists>U. fasync_push_sqe demo_kernel FASYNC_OP_FSYNC 0x1008 0 0 0 0 0 0 (demo_pushed\<lparr>errno := 0\<rparr>) = (0x200000001, U)"
    by (simp add: demo_pushed_def push_eval)
  then show thesis using that by blast
qed

lemma sync_submitted:
  "\<exists>w'. uring_submit 1 demo_os (uring_env demo_os (ring_changed demo_os)) demo_thread 0x100 (Some sync_meta) None 0x700 1
     submit_world = Inr w' \<and> task_state (fst w') 0x100 = 1"
proof -
  obtain U where U: "fasync_push_sqe demo_kernel FASYNC_OP_FSYNC 0x1008 0 0 0 0 0 0 (demo_pushed\<lparr>errno := 0\<rparr>) = (0x200000001, U)"
    by (rule sync_push)
  have op: "op_from (m_opts sync_meta) = URING_OP_FSYNC" by (simp add: sync_meta_def op_value_def streq_def)
  have sh: "shape_ok sync_meta URING_OP_FSYNC"
    by (simp add: shape_ok_def sync_meta_def completion_args_ok_def arg_kinds)
  have k: "os_kernel demo_os = demo_kernel" by (simp add: demo_os_def)
  have p: "word_int 0x1008 = 0x1008" "to_int32 0x1008 = 0x1008" by (simp_all add: word_int_def to_int32_def)
  have st: "staged (tk demo1) 0x700 = [demo_buf, demo_buf]" "zaddr demo_buf = 0x1008"
    by (simp_all add: demo1_tasks demo_buf_def)
  show ?thesis
    by (simp add: uring_submit_def submit_world_def filc_async_run_def alloc_call_def op queue_def sh queue_loop.simps
        dispatch_def arg_word_def arg_ptr_def st p fasync_fsync_def with_fd_def fasync_fd_resolve_def push_world_def k
        demo_rt_def U call_zero_def task_state_def set_runtime_data_def demo1_tasks list_add_def Let_def sync_meta_def [THEN arg_cong, of m_nargs])
qed

theorem uring_submit_keeps_witness:
  "\<exists>w'. uring_submit 1 demo_os (uring_env demo_os (ring_changed demo_os)) demo_thread 0x100 (Some sync_meta) None 0x700 1
     submit_world = Inr w' \<and> fw_reach False (fst w') \<and> linked_inv (Linked 0x9000) {} {} w' \<and>
     task_runtime_data (fst w') 0x100 = 0x4000"
proof -
  obtain w' where w': "uring_submit 1 demo_os (uring_env demo_os (ring_changed demo_os)) demo_thread 0x100 (Some sync_meta) None
      0x700 1 submit_world = Inr w'" "task_state (fst w') 0x100 = 1" using sync_submitted by blast
  have wake: "wake_settles (os_wake demo_os)" by (simp add: demo_os_def demo_wake_settles)
  have d: "task_runtime_data (fst submit_world) t = 0" for t by (simp add: submit_world_def task_runtime_data_def demo1_data)
  from uring_submit_keeps [OF wake demo_others _ submit_world_inv _ _ _ _ d _ w'(1), where cs = "[]" and c = "0x4000" and shr = False]
  show ?thesis
    using w' demo1_reach demo1_no_request
    by (simp add: filc_async_run_def d handed_over_def) (simp add: submit_world_def demo_rt_def demo1_tasks)
qed

end
