(* ===== verification/UringReturns.thy ===== *)
theory UringReturns
  imports UringContract
begin

text \<open>
  A blocking poll of the io_uring runtime returns, with its task completed, when the kernel
  accepts what is submitted and finishes some request during every sleep; so an access to a
  buffer whose owners are io_uring calls in flight returns.
\<close>

section \<open>The kernel makes progress\<close>

text \<open>What the waits rely on outside the program: a sleep only settles requests, through steps of
  the ring, and queues nothing; one that starts with every queued entry submitted and a request
  pending finishes a request; submissions are accepted; and there is a round of the loop for
  every slot of the table.\<close>

definition all_submitted :: "uring \<Rightarrow> bool" where
  "all_submitted U \<longleftrightarrow> queued (g_ring U) = 0"

definition kernel_serves :: "os \<Rightarrow> bool" where
  "kernel_serves Os \<longleftrightarrow> wake_settles (os_wake Os) \<and> wake_ok (os_kernel Os) (os_wake Os) \<and>
     (\<forall>V. all_submitted V \<longrightarrow> all_submitted (os_wake Os V)) \<and>
     (\<forall>V. uring_reach (os_kernel Os) V \<and> all_submitted V \<and> pending_slots V \<noteq> {} \<longrightarrow>
        pending_slots (fasync_block (os_wake Os) V) \<subset> pending_slots V) \<and>
     (\<forall>V n. 0 \<le> k_enter (os_kernel Os) V n) \<and> 1024 \<le> os_fuel Os"

lemma kernel_servesD:
  assumes "kernel_serves Os"
  shows "wake_settles (os_wake Os)" "wake_ok (os_kernel Os) (os_wake Os)"
    "\<And>V. uring_reach (os_kernel Os) V \<Longrightarrow> all_submitted V \<Longrightarrow> pending_slots V \<noteq> {} \<Longrightarrow>
       pending_slots (fasync_block (os_wake Os) V) \<subset> pending_slots V"
    "\<And>V n. 0 \<le> k_enter (os_kernel Os) V n" "1024 \<le> os_fuel Os"
    "\<And>V. all_submitted V \<Longrightarrow> all_submitted (os_wake Os V)"
  using assms unfolding kernel_serves_def by blast+

lemma submit_accepted: "kernel_serves Os \<Longrightarrow> 0 \<le> fst (fasync_submit (os_kernel Os) U)"
  using kernel_servesD(4) [of Os] by (simp add: fasync_submit_def fasync_submit_locked_def zsys_defs Let_def leD)

lemma submit_all: "ready (g_ring U) \<Longrightarrow> all_submitted (snd (fasync_submit K U))"
  by (simp add: all_submitted_def fasync_submit_def fasync_submit_locked_def zsys_defs Let_def)

lemma drain_submitted [simp]: "all_submitted (fasync_native_drain U) = all_submitted U"
proof (cases "ready (g_ring U)")
  case True
  show ?thesis unfolding drain_eq [OF True] all_submitted_def by simp
qed (simp add: fasync_native_drain_def)

lemma block_submitted:
  assumes "kernel_serves Os" and "all_submitted U"
  shows "all_submitted (fasync_block (os_wake Os) U)"
  using assms(2) kernel_servesD(6) [OF assms(1)] by (simp add: fasync_block_def) (simp add: all_submitted_def)

lemma wait_returns:
  assumes K: "kernel_serves Os" and r: "uring_reach (os_kernel Os) U" and s: "s < FASYNC_MAX_INFLIGHT"
  obtains x U' where "fasync_req_wait Os s U = Inr (x, U')" "uring_reach (os_kernel Os) U'" "settles U U'"
    "rq_state (req_slots U' s) \<noteq> FASYNC_REQ_PENDING"
proof -
  note k = kernel_servesD [OF K]
  let ?U0 = "if rq_state (req_slots U s) = FASYNC_REQ_PENDING then snd (fasync_submit (os_kernel Os) U) else U"
  have "\<exists>U'. req_wait_loop (os_fuel Os) (os_wake Os) s ?U0 = Inr U' \<and> uring_reach (os_kernel Os) U' \<and>
      rq_state (req_slots U' s) \<noteq> FASYNC_REQ_PENDING"
  proof (cases "rq_state (req_slots U s) = FASYNC_REQ_PENDING")
    case True
    then have "ready (g_ring U)"
      using uring_reach_inv [OF r] s by (auto simp: uring_inv_def pending_slots_def split: if_splits)
    then have q: "uring_reach (os_kernel Os) ?U0 \<and> all_submitted ?U0"
      using True submit_reach [OF r] submit_all by (simp add: fasync_submit_def)
    have "card (pending_slots ?U0) \<le> card {..<FASYNC_MAX_INFLIGHT}"
      by (rule card_mono) (auto simp: pending_slots_def)
    then have c: "card (pending_slots ?U0) \<le> os_fuel Os" using k(5) by (simp add: FASYNC_MAX_INFLIGHT_def)
    show ?thesis
      using req_wait_loop_ends [of "\<lambda>V. uring_reach (os_kernel Os) V \<and> all_submitted V", OF _ _ _ s q c, of "os_wake Os"]
        drain_reach block_reach [OF k(2)] block_submitted [OF K] k(3) by (auto simp: fasync_poll_def)
  next
    case False
    then show ?thesis using r by (subst req_wait_loop.simps) simp
  qed
  then obtain U' where U': "req_wait_loop (os_fuel Os) (os_wake Os) s ?U0 = Inr U'"
    "uring_reach (os_kernel Os) U'" "rq_state (req_slots U' s) \<noteq> FASYNC_REQ_PENDING" by blast
  have w: "fasync_req_wait Os s U = Inr (rq_result (req_slots U' s), U')"
    using U'(1) by (simp add: fasync_req_wait_def Let_def)
  show thesis using that [OF w U'(2)] U'(3) req_wait_settles [OF k(1) w] by blast
qed

section \<open>Completing and finishing return\<close>

text \<open>A mark that is left was there before, unchanged.\<close>

definition marks_shrink :: "fw \<Rightarrow> fw \<Rightarrow> bool" where
  "marks_shrink s s' \<longleftrightarrow> heap s' = heap s \<and> (\<forall>m. mark_live (mk s') m \<longrightarrow>
     mark_live (mk s) m \<and> marks (mk s') m = marks (mk s) m)"

lemma marks_shrink_trans: "marks_shrink s s1 \<Longrightarrow> marks_shrink s1 s' \<Longrightarrow> marks_shrink s s'"
  by (simp add: marks_shrink_def)

lemma complete_shrinks:
  assumes "fw_inv s" and "no_request s t"
  obtains s' where "filc_async_complete t r s = Inr s'" "marks_shrink s s'"
proof (cases "is_running (tk s) t")
  case True
  show thesis
  proof (rule complete_spec [OF assms(1) True assms(2), of r])
    fix s' assume c: "filc_async_complete t r s = Inr s'"
      "\<And>x. mark_live (mk s') x = (mark_live (mk s) x \<and> mk_owner (marks (mk s) x) \<noteq> t)"
      "\<And>x. mk_owner (marks (mk s) x) \<noteq> t \<Longrightarrow> mark_live (mk s) x \<Longrightarrow> marks (mk s') x = marks (mk s) x"
      "s' = s\<lparr>tk := tk s', mk := mk s', lk := lk s'\<rparr>"
    have "heap s' = heap s" by (subst c(4)) simp
    then show thesis using that [OF c(1)] c(2,3) by (simp add: marks_shrink_def)
  qed
qed (use that complete_idle in \<open>simp add: marks_shrink_def\<close>)

lemma completes_shrink:
  assumes "(completes_of A)\<^sup>*\<^sup>* s s'" and "fw_inv s" and "\<And>t. t \<in> A \<Longrightarrow> handed_over T s t"
  shows "marks_shrink s s'"
  using assms(1)
proof (induction rule: rtranclp_induct)
  case (step y z)
  obtain t r where t: "t \<in> A" "filc_async_complete t r y = Inr z" using step(2) by (auto simp: completes_of_def)
  have "fw_inv y \<and> handed_over T y t"
    using completes_of_calm [OF step(1) assms(2), of T shr B] assms(3) t(1) by blast
  then show ?case using complete_shrinks [of y t r] t(2) step.IH marks_shrink_trans by (auto simp: handed_over_def)
qed (simp add: marks_shrink_def)

lemma complete_with_returns:
  assumes "fw_inv (fst w)" and "no_request (fst w) t"
  shows "\<exists>s'. complete_with t x w = Inr (s', snd w)"
  using complete_shrinks [OF assms, of "word_of_int x"] by (metis complete_with_def res_bind_simps(2))

lemma fasync_result_returns:
  assumes K: "kernel_serves Os" and r: "uring_reach (os_kernel Os) (ur_of w)" and inv: "fw_inv (fst w)"
    and own: "\<And>t. t \<in> request_owners (ur_of w) \<Longrightarrow> no_request (fst w) t"
  shows "\<exists>x w'. fasync_result Os i w = Inr (x, w') \<and> uring_reach (os_kernel Os) (ur_of w')"
proof (cases "fasync_req_lookup i (ur_of w)")
  case None
  then show ?thesis using r by (simp add: fasync_result_def)
next
  case (Some s)
  then have s: "s < FASYNC_MAX_INFLIGHT" "rq_state (req_slots (ur_of w) s) \<noteq> FASYNC_REQ_FREE"
    by (auto simp: fasync_req_lookup_def Let_def split: if_splits)
  obtain x U where a: "fasync_req_wait Os s (ur_of w) = Inr (x, U)" and U: "uring_reach (os_kernel Os) U"
    "settles (ur_of w) U" "rq_state (req_slots U s) \<noteq> FASYNC_REQ_PENDING"
    by (rule wait_returns [OF K r s(1)])
  let ?U1 = "upd_slot s (\<lambda>r. r\<lparr>rq_task := 0\<rparr>) U"
  have live: "slot_live V s \<and> ready (g_ring V) \<and> rq_state (req_slots V s) \<noteq> FASYNC_REQ_PENDING"
    if "uring_reach (os_kernel Os) V" "rq_state (req_slots V s) = rq_state (req_slots U s)" for V
    using s U(2,3) that uring_reach_inv [OF that(1)] by (auto simp: slot_live_def settles_def uring_inv_def split: if_splits)
  have rel: "uring_reach (os_kernel Os) (fasync_req_release s V)"
    if "uring_reach (os_kernel Os) V" "rq_state (req_slots V s) = rq_state (req_slots U s)" for V
    using uring_reach.step [OF that(1) uring_step.release] live [OF that] by blast
  show ?thesis
  proof (cases "rq_task (req_slots U s) = 0")
    case True
    then show ?thesis using Some a rel [OF U(1)] by (simp add: fasync_result_def Let_def)
  next
    case False
    have "rq_task (req_slots U s) \<in> request_owners U" using False by (simp add: request_owners_def)
    then have "rq_task (req_slots U s) \<in> request_owners (ur_of w)" unfolding request_owners_settles [OF U(2)] .
    then obtain s' where c: "complete_with (rq_task (req_slots U s)) x (set_ur ?U1 w) = Inr (s', snd (set_ur ?U1 w))"
      using complete_with_returns [of "set_ur ?U1 w"] inv own by (metis fst_conv)
    have "uring_reach (os_kernel Os) ?U1" by (rule uring_reach.step [OF U(1) uring_step.owner])
    then show ?thesis using Some a c False rel [of ?U1] by (simp add: fasync_result_def Let_def)
  qed
qed

lemma finish_returns:
  assumes K: "kernel_serves Os" and r: "uring_reach (os_kernel Os) (ur_of w)" and inv: "fw_inv (fst w)"
    and own: "\<And>t. t \<in> request_owners (ur_of w) \<Longrightarrow> handed_over T (fst w) t"
    and t: "handed_over T (fst w) (uc_task (calls (snd w) c))"
  shows "\<exists>w'. finish Os c w = Inr w' \<and> uring_reach (os_kernel Os) (ur_of w')"
proof -
  let ?k = "calls (snd w) c"
  let ?w1 = "upd_call c (\<lambda>k. k\<lparr>uc_finished := True\<rparr>) w"
  have nr: "no_request (fst w) u" if "handed_over T (fst w) u" for u using that by (simp add: handed_over_def)
  consider "uc_finished ?k" | "\<not> uc_finished ?k" "uc_explicit_read ?k" | "\<not> uc_finished ?k" "\<not> uc_explicit_read ?k" by blast
  then show ?thesis
  proof cases
    case 1
    then show ?thesis using r by (simp add: finish_def)
  next
    case 2
    have e: "\<exists>s'. complete_with (uc_task ?k) x (set_ur U ?w1) = Inr (s', snd (set_ur U ?w1))" for x U
      using complete_with_returns [of "set_ur U ?w1"] inv nr [OF t] by simp
    show ?thesis
    proof (cases "fasync_req_lookup (uc_request ?k) (ur_of w)")
      case None
      then show ?thesis using 2 r e [of "- EINVAL" "ur_of w"] by (auto simp: finish_def Let_def)
    next
      case (Some s)
      then have "s < FASYNC_MAX_INFLIGHT" by (auto simp: fasync_req_lookup_def Let_def split: if_splits)
      from wait_returns [OF K r this]
      obtain x U where "fasync_req_wait Os s (ur_of w) = Inr (x, U)" "uring_reach (os_kernel Os) U" by blast
      then show ?thesis using 2 Some e [of x U] by (auto simp: finish_def Let_def)
    qed
  next
    case 3
    let ?r = "if uc_op ?k = URING_OP_IGNORE then Inr (- EOPNOTSUPP, ?w1) else fasync_result Os (uc_request ?k) ?w1"
    have "\<exists>x w2. ?r = Inr (x, w2) \<and> uring_reach (os_kernel Os) (ur_of w2)"
      using fasync_result_returns [of Os ?w1 "uc_request ?k"] K r inv own nr by auto
    then obtain x w2 where w2: "?r = Inr (x, w2)" "uring_reach (os_kernel Os) (ur_of w2)" by blast
    have ow: "request_owners (ur_of ?w1) = request_owners (ur_of w)" by simp
    have c: "(completes_of (request_owners (ur_of w)))\<^sup>*\<^sup>* (fst w) (fst w2)"
      using w2(1) fasync_result_of [OF kernel_servesD(1) [OF K], of "uc_request ?k" ?w1 x w2] by (auto split: if_splits)
    have h: "fw_inv (fst w2) \<and> handed_over T (fst w2) (uc_task ?k)"
      using completes_of_calm [OF c inv own, where shr = True and B = "{}"] t by blast
    let ?w3 = "if uc_request ?k \<noteq> 0 then list_remove c w2 else w2"
    have f3: "fst ?w3 = fst w2" "ur_of ?w3 = ur_of w2" by (simp_all add: list_remove_def)
    obtain s' where "complete_with (uc_task ?k) x ?w3 = Inr (s', snd ?w3)"
      using complete_with_returns [of ?w3] h unfolding f3 handed_over_def by blast
    moreover have "finish Os c w = complete_with (uc_task ?k) x ?w3"
      using 3 w2(1) by (simp add: finish_def Let_def)
    ultimately show ?thesis using w2(2) by (simp add: list_remove_def)
  qed
qed

section \<open>A blocking poll returns\<close>

text \<open>Before it finishes a call the poll has at most collected completions and submitted.\<close>

lemma poll_block_finish:
  assumes K: "kernel_serves Os" and r: "uring_reach (os_kernel Os) (ur_of w)"
    and c: "task_runtime_data (fst w) t = c" "c \<noteq> 0" "\<not> uc_finished (calls (snd w) c)"
  obtains U where "uring_poll Os t POLL_BLOCK w = map_sum id (Pair True) (finish Os c (set_ur U w))"
    "settles (ur_of w) U" "uring_reach (os_kernel Os) U"
proof (cases "uc_op (calls (snd w) c) = URING_OP_IGNORE")
  case True
  then have "uring_poll Os t POLL_BLOCK w = map_sum id (Pair True) (finish Os c (set_ur (ur_of w) w))"
    using c by (simp add: uring_poll_def Let_def)
  then show thesis by (rule that) (use r in simp_all)
next
  case False
  obtain rdy U where e: "fasync_ready (uc_request (calls (snd w) c)) (ur_of w) = (rdy, U)" by force
  have U: "uring_reach (os_kernel Os) U"
    using e r drain_reach [OF r] by (auto simp: fasync_ready_def Let_def split: option.splits if_splits)
  obtain n V where v: "fasync_submit (os_kernel Os) U = (n, V)" by force
  have V: "uring_reach (os_kernel Os) V" "settles U V" "\<not> n < 0"
    using submit_reach [OF U] submit_settles [of U "os_kernel Os"] submit_accepted [OF K, of U] v
    by (simp_all add: fasync_submit_def)
  have p: "uring_poll Os t POLL_BLOCK w = map_sum id (Pair True) (finish Os c (set_ur (if rdy then U else V) w))"
    using c False e v V(3) by (simp add: uring_poll_def Let_def)
  show thesis
    by (rule that [OF p]) (use ready_settles [OF e] settles_trans V U in auto)
qed

lemma poll_block_returns:
  assumes K: "kernel_serves Os" and r: "uring_reach (os_kernel Os) (ur_of w)" and inv: "linked_inv R T C w" "fw_inv (fst w)"
    and t: "t_runtime (tasks (tk (fst w)) t) = R" "task_runtime_data (fst w) t \<noteq> 0" "task_state (fst w) t = 1"
  obtains w' where "uring_poll Os t POLL_BLOCK w = Inr (True, w')" "uring_reach (os_kernel Os) (ur_of w')"
    "marks_shrink (fst w) (fst w')" "completes\<^sup>*\<^sup>* (fst w) (fst w')" "task_state (fst w') t \<noteq> 1"
proof -
  let ?c = "task_runtime_data (fst w) t"
  note i = linked_invD [OF inv(1)] and wake = kernel_servesD(1) [OF K]
  note d = calls_okD [OF i(2) t(1,2)]
  have nf: "\<not> uc_finished (calls (snd w) ?c)" using d(3) t(3) by blast
  obtain U where p: "uring_poll Os t POLL_BLOCK w = map_sum id (Pair True) (finish Os ?c (set_ur U w))"
    and U: "settles (ur_of w) U" "uring_reach (os_kernel Os) U"
    by (rule poll_block_finish [OF K r refl t(2) nf])
  have h: "handed_over T (fst w) u" if "u \<in> insert t (request_owners U)" for u
    using that i(1) i(3) [of t] i(4) t request_owners_settles [OF U(1)] by auto
  obtain w' where w': "finish Os ?c (set_ur U w) = Inr w'" "uring_reach (os_kernel Os) (ur_of w')"
    using finish_returns [OF K, of "set_ur U w" T ?c] U(2) inv(2) h d(2) by auto
  have "(completes_of (insert t (request_owners U)))\<^sup>*\<^sup>* (fst w) (fst w')"
    using finish_of [OF wake w'(1)] d(2) by simp
  from completes_shrink [OF this inv(2) h] have "marks_shrink (fst w) (fst w')" .
  moreover have "task_state (fst w') t \<noteq> 1" using finish_spec(3) [OF w'(1)] nf d(1,2) by simp
  ultimately show thesis using that p w' finish_spec(1) [OF w'(1)] by simp
qed

section \<open>An access returns\<close>

text \<open>The calls an access has to wait for are in flight on this runtime.\<close>

definition owners_in_flight :: "runtime_ref \<Rightarrow> thread \<Rightarrow> zptr \<Rightarrow> fw \<Rightarrow> bool" where
  "owners_in_flight R th buf s \<longleftrightarrow> (\<forall>m\<in>object_marks s buf.
     mk_owner (marks (mk s) m) \<noteq> 0 \<and> mk_owner (marks (mk s) m) \<notin> set (g_active th) \<longrightarrow>
     t_runtime (tasks (tk s) (mk_owner (marks (mk s) m))) = R \<and> task_runtime_data s (mk_owner (marks (mk s) m)) \<noteq> 0)"

lemma owners_in_flight_shrink:
  assumes "owners_in_flight R th buf s" and "marks_shrink s s'" and "completes\<^sup>*\<^sup>* s s'"
  shows "owners_in_flight R th buf s'"
  using assms(1,2) completes_frame [OF assms(3)]
  by (fastforce simp: owners_in_flight_def marks_shrink_def object_marks_def)

definition uring_waitable :: "os \<Rightarrow> runtime_ref \<Rightarrow> addr set \<Rightarrow> (addr \<times> uring_call) set \<Rightarrow> thread \<Rightarrow> zptr \<Rightarrow> rt world \<Rightarrow> bool" where
  "uring_waitable Os R T C th buf w \<longleftrightarrow> linked_inv R T C w \<and> fw_inv (fst w) \<and> uring_reach (os_kernel Os) (ur_of w) \<and>
     points_into (fst w) buf \<and> owners_in_flight R th buf (fst w)"

lemma uring_prompt:
  assumes K: "kernel_serves Os" and R: "os_runtime Os = R"
  shows "prompt (uring_waitable Os R T C th buf) buf (\<lambda>k. mk_owner k \<notin> set (g_active th)) (uring_env Os others)"
  unfolding prompt_def
proof (intro allI impI)
  fix m t a and w :: "rt world"
  assume q: "uring_waitable Os R T C th buf w" and m: "m \<in> object_marks (fst w) buf"
    "mk_owner (marks (mk (fst w)) m) \<notin> set (g_active th)" "mk_owner (marks (mk (fst w)) m) = t"
    and run: "is_running (tk (fst w)) t" and a: "t_runtime (tasks (tk (fst w)) t) = Linked a"
  note q = q [unfolded uring_waitable_def]
  have "t \<noteq> 0" using q run running_nonnull [OF task_invD(2) [OF fw_invD(1)]] by blast
  then have t: "t_runtime (tasks (tk (fst w)) t) = R" "task_runtime_data (fst w) t \<noteq> 0"
    using q m unfolding owners_in_flight_def by blast+
  have st: "task_state (fst w) t = 1" using run by (simp add: is_running_def task_state_def)
  obtain w' where p: "uring_poll Os t POLL_BLOCK w = Inr (True, w')" and w': "uring_reach (os_kernel Os) (ur_of w')"
    "marks_shrink (fst w) (fst w')" "completes\<^sup>*\<^sup>* (fst w) (fst w')" "task_state (fst w') t \<noteq> 1"
    using poll_block_returns [OF K _ _ _ t st] q by blast
  have "t_runtime (tasks (tk (fst w)) t) \<noteq> Join_Runtime" by (simp add: a)
  then have "reaches True {} T (linked_inv R T C) w w'"
    using uring_poll_reaches [OF kernel_servesD(1) [OF K] _ _ _ p] q by blast
  then have "linked_inv R T C w'" "fw_inv (fst w')"
    using calm_inv q by (auto simp: reaches_def)
  moreover have "points_into (fst w') buf" using q w'(2) by (simp add: points_into_def marks_shrink_def)
  ultimately have "uring_waitable Os R T C th buf w'"
    using q w' owners_in_flight_shrink by (simp add: uring_waitable_def) blast
  moreover have "rt_poll (uring_env Os others) (Linked a) t POLL_BLOCK w = Inr (True, w')"
    using p a t(1) R by (simp add: uring_env_entries)
  ultimately show "\<exists>w'. rt_poll (uring_env Os others) (Linked a) t POLL_BLOCK w = Inr (True, w') \<and>
      uring_waitable Os R T C th buf w' \<and> task_state (fst w') t \<noteq> 1 \<and>
      (\<forall>m. mark_live (mk (fst w')) m \<longrightarrow> mark_live (mk (fst w)) m \<and> marks (mk (fst w')) m = marks (mk (fst w)) m)"
    using w'(2,4) unfolding marks_shrink_def by blast
qed

text \<open>C30. An access to a buffer that io_uring calls own returns, after at most one round for each mark
  on the buffer: in a reachable state in which the runtime's invariant holds and each call the
  access has to wait for (the owner of a mark, not active on the thread, so no join's task) is
  in flight on the io_uring runtime, when the kernel accepts submissions, each sleep that
  starts with everything submitted and a request pending finishes a request, and the request
  loop may make one round for each of its 1024 slots.  No other thread acts during the wait.\<close>

theorem uring_access_returns:
  assumes "kernel_serves Os" and "os_runtime Os = Linked a" and "linked_inv (Linked a) T C w"
    and "uring_reach (os_kernel Os) (ur_of w)" and "fw_reach shr (fst w)" and "points_into (fst w) buf"
    and "owners_in_flight (Linked a) th buf (fst w)" and "card (object_marks (fst w) buf) < n"
  shows "\<exists>w'. filc_async_wait_access n (uring_env Os others) th buf w = Inr w'"
proof (rule wait_access_ends [OF uring_prompt [OF assms(1,2)]])
  show "uring_waitable Os (Linked a) T C th buf w"
    using assms(3-7) fw_reach_inv by (simp add: uring_waitable_def)
  show "fw_inv (fst v) \<and> points_into (fst v) buf \<and> owners_linked (fst v) buf (\<lambda>k. mk_owner k \<notin> set (g_active th))"
    if "uring_waitable Os (Linked a) T C th buf v" for v
    using that by (auto simp: uring_waitable_def owners_in_flight_def owners_linked_def)
qed (rule assms(8))

lemma demo_kernel_serves: "kernel_serves demo_os"
proof -
  have "0 \<le> k_enter demo_kernel V n" for V n by (simp add: demo_kernel_def)
  moreover have "\<forall>V. uring_reach demo_kernel V \<and> pending_slots V \<noteq> {} \<longrightarrow>
      pending_slots (fasync_block demo_wake V) \<subset> pending_slots V"
    using demo_wake_progress by blast
  moreover have "all_submitted (demo_wake V)" if "all_submitted V" for V
    using that by (auto simp: demo_wake_def Let_def all_submitted_def post_cqe_def
        drain_submitted [unfolded all_submitted_def] split: list.splits)
  ultimately show ?thesis
    unfolding kernel_serves_def by (simp add: demo_os_def demo_wake_settles demo_wake_ok)
qed

theorem uring_access_returns_witness:
  "\<exists>w'. filc_async_wait_access 3 (uring_env demo_os (ring_changed demo_os)) demo_active demo_buf demo_world = Inr w'"
proof (rule uring_access_returns [OF demo_kernel_serves _ demo_world_inv _ demo_world_fw(1)])
  have o: "object_marks (fst demo_world) demo_buf \<subseteq> {0x300, 0x340}"
    using demo1_object by (simp add: object_marks_def demo_world_fw)
  then have "card (object_marks (fst demo_world) demo_buf) \<le> card {0x300 :: addr, 0x340}" by (intro card_mono) simp_all
  then show "card (object_marks (fst demo_world) demo_buf) < 3" by simp
  show "owners_in_flight (Linked 0x9000) demo_active demo_buf (fst demo_world)"
    using subsetD [OF o]
    by (auto simp: owners_in_flight_def demo_world_fw demo1_marks demo_active_def task_runtime_data_def
        dest!: subsetD [OF o]) (simp_all add: demo_world_def set_runtime_data_def demo1_tasks)
  show "points_into (fst demo_world) demo_buf" using demo1_live(2) by (simp add: points_into_def demo_world_fw)
qed (simp_all add: demo_os_def demo_world_def demo_rt_def demo_pushed_reach)

end
