(* ===== verification/Rpc.thy ===== *)
theory Rpc
  imports Uring
begin

text \<open>
  The rpc runtime (\<^verbatim>\<open>rpc_runtime.c\<close>) and the server it talks to
  (\<^verbatim>\<open>demos/rpc/rpc_server.c\<close>).  The network is a parameter: a record of what
  the socket calls answer on a state of any type.  A C string is the list of its characters
  before the terminator; \<^verbatim>\<open>sscanf\<close> and \<^verbatim>\<open>snprintf\<close> are
  modelled for the formats the two programs use.
\<close>

section \<open>Formats\<close>

definition LONG_MAX :: int where "LONG_MAX = 9223372036854775807"
definition ULONG_MAX :: int where "ULONG_MAX = 18446744073709551615"

definition is_digit :: "char \<Rightarrow> bool" where
  "is_digit c \<longleftrightarrow> 48 \<le> (of_char c :: nat) \<and> (of_char c :: nat) \<le> 57"

definition is_space :: "char \<Rightarrow> bool" where
  "is_space c \<longleftrightarrow> (of_char c :: nat) = 32 \<or> 9 \<le> (of_char c :: nat) \<and> (of_char c :: nat) \<le> 13"

definition digit_char :: "nat \<Rightarrow> char" where
  "digit_char d = char_of (48 + d)"

fun show_nat :: "nat \<Rightarrow> string" where
  "show_nat n = (if n < 10 then [digit_char n] else show_nat (n div 10) @ [digit_char (n mod 10)])"

declare show_nat.simps [simp del]

definition show_long :: "int \<Rightarrow> string" where
  "show_long v = (if v < 0 then CHR ''-'' # show_nat (nat (- v)) else show_nat (nat v))"

definition read_nat :: "string \<Rightarrow> nat" where
  "read_nat ds = fold (\<lambda>c n. 10 * n + (of_char c - 48)) ds 0"

text \<open>What \<open>%ld\<close> and \<open>%zu\<close> have in common: white space, a sign, digits; \<open>None\<close> if no digit.\<close>

definition scan_int :: "string \<Rightarrow> (bool \<times> nat \<times> string) option" where
  "scan_int s =
    (let s1 = dropWhile is_space s;
         neg = (s1 \<noteq> [] \<and> hd s1 = CHR ''-'');
         s2 = (if s1 \<noteq> [] \<and> (hd s1 = CHR ''-'' \<or> hd s1 = CHR ''+'') then tl s1 else s1);
         ds = takeWhile is_digit s2
     in if ds = [] then None else Some (neg, read_nat ds, dropWhile is_digit s2))"

definition clamp_long :: "bool \<Rightarrow> nat \<Rightarrow> int" where
  "clamp_long neg n =
    (if neg then (if int n > LONG_MAX + 1 then - (LONG_MAX + 1) else - int n)
     else if int n > LONG_MAX then LONG_MAX else int n)"

definition clamp_ulong :: "bool \<Rightarrow> nat \<Rightarrow> u64" where
  "clamp_ulong neg n =
    (if int n > ULONG_MAX then of_int ULONG_MAX else if neg then - of_nat n else of_nat n)"

text \<open>A literal prefix, then the white space a space of the format stands for.\<close>

definition scan_word :: "string \<Rightarrow> string \<Rightarrow> string option" where
  "scan_word lit s =
    (if take (length lit) s = lit then Some (dropWhile is_space (drop (length lit) s)) else None)"

text \<open>\<open>snprintf\<close> into a buffer of \<open>n\<close> bytes.\<close>

definition snprintf :: "nat \<Rightarrow> string \<Rightarrow> string" where
  "snprintf n s = take (n - 1) s"

section \<open>The server\<close>

record 'n socket =
  sk_recv :: "nat \<Rightarrow> 'n \<Rightarrow> (int + string) \<times> 'n"
  sk_send :: "string \<Rightarrow> 'n \<Rightarrow> (int + nat) \<times> 'n"

definition FNV_BASIS :: u32 where "FNV_BASIS = 2166136261"
definition FNV_PRIME :: u32 where "FNV_PRIME = 16777619"

definition fnv_byte :: "char \<Rightarrow> u32 \<Rightarrow> u32" where
  "fnv_byte c hash = (hash XOR of_char c) * FNV_PRIME"

text \<open>The loop of \<open>put\<close>: every round takes at least a byte, so \<open>len\<close> rounds are enough.\<close>

fun put_loop :: "nat \<Rightarrow> 'n socket \<Rightarrow> u32 \<Rightarrow> nat \<Rightarrow> 'n \<Rightarrow> (int \<times> 'n) outcome" where
  "put_loop fuel S hash len n =
    (if len = 0 then Inr (int (unat hash), n)
     else (case fuel of 0 \<Rightarrow> Inl No_Return
     | Suc k \<Rightarrow>
         (case sk_recv S (min len 4096) n of
            (Inl e, n1) \<Rightarrow> Inr (- 1, n1)
          | (Inr bs, n1) \<Rightarrow>
              if bs = [] then Inr (- 1, n1)
              else put_loop k S (fold fnv_byte bs hash) (len - length bs) n1)))"

declare put_loop.simps [simp del]

definition put :: "'n socket \<Rightarrow> nat \<Rightarrow> 'n \<Rightarrow> (int \<times> 'n) outcome" where
  "put S len n = put_loop len S FNV_BASIS len n"

text \<open>The command: bytes one at a time until a newline, 31 of them, or the end of the stream. A
  NUL byte ends the string but is stored, so \<open>strchr\<close> no longer sees what follows it.\<close>

definition c_str :: "string \<Rightarrow> string" where
  "c_str s = takeWhile (\<lambda>c. c \<noteq> CHR 0x00) s"

fun read_command :: "nat \<Rightarrow> 'n socket \<Rightarrow> string \<Rightarrow> 'n \<Rightarrow> string \<times> 'n" where
  "read_command 0 S command n = (command, n)"
| "read_command (Suc k) S command n =
    (if CHR 0x0A \<in> set (c_str command) then (command, n)
     else (case sk_recv S 1 n of
             (Inr [c], n1) \<Rightarrow> read_command k S (command @ [c]) n1
           | (_, n1) \<Rightarrow> (command, n1)))"

definition scan_put :: "string \<Rightarrow> u64 option" where
  "scan_put command =
    (case scan_word ''PUT'' command of
       None \<Rightarrow> None
     | Some s \<Rightarrow> (case scan_int s of None \<Rightarrow> None | Some (neg, n, _) \<Rightarrow> Some (clamp_ulong neg n)))"

definition reply_text :: "int \<Rightarrow> string" where
  "reply_text value =
    (if value \<ge> 0 then snprintf 32 (''VALUE '' @ show_long value @ [CHR 0x0A])
     else snprintf 32 (''ERR'' @ [CHR 0x0A]))"

text \<open>\<open>serve\<close>, with \<open>counter\<close> as it is when the thread holds the counter's lock.\<close>

definition serve :: "'n socket \<Rightarrow> int \<Rightarrow> 'n \<Rightarrow> (int \<times> 'n) outcome" where
  "serve S counter n =
    (let (raw, n1) = read_command 31 S [] n; command = c_str raw in
     res_bind (case scan_put command of None \<Rightarrow> Inr (- 1, n1) | Some len \<Rightarrow> put S (unat len) n1) (\<lambda>(v, n2).
       let counter1 = (if command = ''STEP'' @ [CHR 0x0A] then counter + 1 else counter);
           value = (if command = ''STEP'' @ [CHR 0x0A] then counter1
                    else if command = ''GET'' @ [CHR 0x0A] then counter1 else v)
       in Inr (counter1, snd (sk_send S (reply_text value) n2))))"

section \<open>The runtime's requests\<close>

definition EPROTO :: int where "EPROTO = 71"
definition EINPROGRESS :: int where "EINPROGRESS = 115"
definition POLLIN :: int where "POLLIN = 1"
definition POLLOUT :: int where "POLLOUT = 4"
definition WAIT_PAYLOAD :: int where "WAIT_PAYLOAD = 0x4000"

datatype rpc_op = OP_NONE | OP_STEP | OP_GET | OP_PUT

text \<open>\<open>received\<close> is the length of \<open>rr_reply\<close>; \<open>rr_locked\<close> is the request's mutex, held by another
  thread.\<close>

record rpc_request =
  rr_fd :: int
  rr_command :: string
  rr_command_sent :: nat
  rr_payload :: zptr
  rr_payload_len :: u64
  rr_payload_sent :: nat
  rr_reply :: string
  rr_value :: addr
  rr_result :: int
  rr_done :: bool
  rr_locked :: bool

definition request_zero :: rpc_request where
  "request_zero = \<lparr>rr_fd = 0, rr_command = [], rr_command_sent = 0, rr_payload = null_ptr, rr_payload_len = 0,
     rr_payload_sent = 0, rr_reply = [], rr_value = 0, rr_result = 0, rr_done = False, rr_locked = False\<rparr>"

text \<open>\<open>cells\<close> and \<open>bytes\<close> are the memory the runtime stores replies in and reads payloads from.\<close>

record 'n rpc =
  requests :: "addr \<Rightarrow> rpc_request"
  net :: 'n
  cells :: "addr \<Rightarrow> int"
  bytes :: "addr \<Rightarrow> char"
  request_answers :: "addr list"

text \<open>\<open>io_recv\<close> and \<open>io_send\<close> answer with \<open>Inl errno\<close> or what was moved; \<open>io_connect\<close> opens a socket
  and connects it; \<open>io_poll\<close> sleeps until the socket is ready; \<open>io_lock\<close> is what other threads
  do until a request's mutex is free.\<close>

record 'n rpc_io =
  io_send :: "int \<Rightarrow> string \<Rightarrow> 'n \<Rightarrow> (int + nat) \<times> 'n"
  io_recv :: "int \<Rightarrow> nat \<Rightarrow> 'n \<Rightarrow> (int + string) \<times> 'n"
  io_socket :: "'n \<Rightarrow> (int + int) \<times> 'n"
  io_connect :: "int \<Rightarrow> 16 word \<Rightarrow> 'n \<Rightarrow> int \<times> 'n"
  io_close :: "int \<Rightarrow> 'n \<Rightarrow> 'n"
  io_poll :: "int \<Rightarrow> int \<Rightarrow> 'n \<Rightarrow> 'n"
  io_lock :: "addr \<Rightarrow> 'n rpc world \<Rightarrow> 'n rpc world"
  io_fuel :: nat
  io_runtime :: runtime_ref
  io_body :: "addr \<Rightarrow> (thread \<Rightarrow> addr \<Rightarrow> 'n rpc world \<Rightarrow> (u64 \<times> 'n rpc world) outcome) option"

abbreviation upd_rpc :: "('n rpc \<Rightarrow> 'n rpc) \<Rightarrow> 'n rpc world \<Rightarrow> 'n rpc world" where
  "upd_rpc f w \<equiv> (fst w, f (snd w))"

abbreviation upd_request :: "addr \<Rightarrow> (rpc_request \<Rightarrow> rpc_request) \<Rightarrow> 'n rpc world \<Rightarrow> 'n rpc world" where
  "upd_request r f w \<equiv> upd_rpc (\<lambda>p. p\<lparr>requests := (requests p)(r := f (requests p r))\<rparr>) w"

abbreviation set_net :: "'n \<Rightarrow> 'n rpc world \<Rightarrow> 'n rpc world" where
  "set_net n w \<equiv> upd_rpc (\<lambda>p. p\<lparr>net := n\<rparr>) w"

fun op_of :: "string list \<Rightarrow> rpc_op" where
  "op_of [] = OP_NONE"
| "op_of (opt # opts) =
    (if opt = ''op=step'' then OP_STEP
     else if opt = ''op=get'' then OP_GET
     else if opt = ''op=put'' then OP_PUT
     else op_of opts)"

definition rpc_validate :: "filc_async_meta \<Rightarrow> bool" where
  "rpc_validate m =
    (if unat (m_nargs m) < 1 \<or> a_kind (m_args m ! 0) \<noteq> FILC_ASYNC_ARG_IGNORED then False
     else (case op_of (m_opts m) of
         OP_NONE \<Rightarrow> False
       | OP_PUT \<Rightarrow> m_nargs m = 3 \<and> a_kind (m_args m ! 1) = FILC_ASYNC_ARG_BUFFER_IN \<and>
           a_kind (m_args m ! 2) = FILC_ASYNC_ARG_IGNORED
       | _ \<Rightarrow> m_nargs m = 2 \<and> (a_kind (m_args m ! 1) = FILC_ASYNC_ARG_BUFFER_OUT \<or>
           a_kind (m_args m ! 1) = FILC_ASYNC_ARG_PENDING)))"

definition store_reply :: "thread \<Rightarrow> addr \<Rightarrow> 'n rpc world \<Rightarrow> (u64 \<times> 'n rpc world) outcome" where
  "store_reply th r w =
    (let q = requests (snd w) r in
     Inr (0, upd_rpc (\<lambda>p. p\<lparr>cells := (cells p)(rr_value q := rr_result q)\<rparr>) w))"

definition rpc_finish :: "'n rpc_io \<Rightarrow> thread \<Rightarrow> addr \<Rightarrow> addr \<Rightarrow> int \<Rightarrow> 'n rpc world \<Rightarrow> 'n rpc world outcome" where
  "rpc_finish Io th task r result w =
    (let q = requests (snd w) r;
         w1 = (if rr_fd q \<ge> 0 then set_net (io_close Io (rr_fd q) (net (snd w))) w else w);
         w2 = upd_request r (\<lambda>q. q\<lparr>rr_result := result\<rparr>) w1
     in res_bind (if rr_value q \<noteq> 0 then map_sum id snd (filc_async_run th task (Some store_reply) r w2) else Inr w2)
          (\<lambda>w3. let w4 = upd_request r (\<lambda>q. q\<lparr>rr_done := True\<rparr>) w3 in
             res_bind (filc_async_complete task (word_of_int result) (fst w4)) (\<lambda>s. Inr (s, snd w4))))"

definition parse_reply :: "string \<Rightarrow> int" where
  "parse_reply reply =
    (case scan_word ''VALUE'' (c_str reply) of
       None \<Rightarrow> - EPROTO
     | Some s \<Rightarrow>
         (case scan_int s of
            None \<Rightarrow> - EPROTO
          | Some (neg, n, rest) \<Rightarrow>
              if rest = [] \<or> hd rest \<noteq> CHR 0x0A then - EPROTO else clamp_long neg n))"

fun send_rest :: "nat \<Rightarrow> 'n rpc_io \<Rightarrow> int \<Rightarrow> string \<Rightarrow> nat \<Rightarrow> 'n \<Rightarrow> (int \<times> nat \<times> 'n) outcome" where
  "send_rest fuel Io fd data sent n =
    (if \<not> sent < length data then Inr (0, sent, n)
     else case fuel of 0 \<Rightarrow> Inl No_Return
     | Suc k \<Rightarrow>
         (case io_send Io fd (drop sent data) n of
            (Inl e, n1) \<Rightarrow> Inr (if e = EAGAIN then POLLOUT else - e, sent, n1)
          | (Inr m, n1) \<Rightarrow> send_rest k Io fd data (sent + m) n1))"

declare send_rest.simps [simp del]

text \<open>The reading loop of \<open>advance\<close>: the event to wait for, or the result to finish with.\<close>

fun recv_loop :: "nat \<Rightarrow> 'n rpc_io \<Rightarrow> int \<Rightarrow> string \<Rightarrow> 'n \<Rightarrow> ((int + int) \<times> string \<times> 'n) outcome" where
  "recv_loop fuel Io fd reply n =
    (case io_recv Io fd (31 - length reply) n of
       (Inl e, n1) \<Rightarrow> Inr (if e = EAGAIN then Inl POLLIN else Inr (- e), reply, n1)
     | (Inr bs, n1) \<Rightarrow>
         if bs = [] then Inr (Inr (parse_reply reply), reply, n1)
         else (case fuel of 0 \<Rightarrow> Inl No_Return | Suc k \<Rightarrow> recv_loop k Io fd (reply @ bs) n1))"

declare recv_loop.simps [simp del]

definition payload_text :: "'n rpc \<Rightarrow> rpc_request \<Rightarrow> string" where
  "payload_text p q = map (\<lambda>i. bytes p (zaddr (rr_payload q) + of_nat i)) [0..<unat (rr_payload_len q)]"

text \<open>The sending half of \<open>advance\<close>: 0, an event, or \<open>-errno\<close>.\<close>

definition advance_send :: "'n rpc_io \<Rightarrow> addr \<Rightarrow> 'n rpc world \<Rightarrow> (int \<times> 'n rpc world) outcome" where
  "advance_send Io r w =
    (let q = requests (snd w) r in
     res_bind (send_rest (io_fuel Io) Io (rr_fd q) (rr_command q) (rr_command_sent q) (net (snd w)))
       (\<lambda>(rc, sent, n).
          let w1 = set_net n (upd_request r (\<lambda>q. q\<lparr>rr_command_sent := sent\<rparr>) w) in
          if rc = 0 \<and> rr_payload_sent q < unat (rr_payload_len q)
          then (if filc_async_is_pending (rr_payload q) (fst w1) then Inr (WAIT_PAYLOAD, w1)
                else res_bind (send_rest (io_fuel Io) Io (rr_fd q) (payload_text (snd w1) q) (rr_payload_sent q) n)
                       (\<lambda>(rc1, sent1, n1).
                          Inr (rc1, set_net n1 (upd_request r (\<lambda>q. q\<lparr>rr_payload_sent := sent1\<rparr>) w1))))
          else Inr (rc, w1)))"

definition advance :: "'n rpc_io \<Rightarrow> thread \<Rightarrow> addr \<Rightarrow> addr \<Rightarrow> 'n rpc world \<Rightarrow> (int \<times> 'n rpc world) outcome" where
  "advance Io th task r w =
     res_bind (advance_send Io r w) (\<lambda>(rc, w1).
       if rc < 0 then map_sum id (Pair 0) (rpc_finish Io th task r rc w1)
       else if rc \<noteq> 0 then Inr (rc, w1)
       else let q = requests (snd w1) r in
         res_bind (recv_loop (io_fuel Io) Io (rr_fd q) (rr_reply q) (net (snd w1))) (\<lambda>(what, reply, n).
           let w2 = set_net n (upd_request r (\<lambda>q. q\<lparr>rr_reply := reply\<rparr>) w1) in
           case what of
             Inl event \<Rightarrow> Inr (event, w2)
           | Inr result \<Rightarrow> map_sum id (Pair 0) (rpc_finish Io th task r result w2)))"

section \<open>The runtime's entry points\<close>

text \<open>The line that announces a payload, before \<open>snprintf\<close> cuts it to the request's buffer.\<close>

definition put_command :: "nat \<Rightarrow> string" where
  "put_command len = ''PUT '' @ show_nat len @ [CHR 0x0A]"

definition rpc_submit :: "'n rpc_io \<Rightarrow> thread \<Rightarrow> addr \<Rightarrow> filc_async_meta \<Rightarrow>
    (thread \<Rightarrow> addr \<Rightarrow> 'n rpc world \<Rightarrow> (u64 \<times> 'n rpc world) outcome) option \<Rightarrow> addr \<Rightarrow>
    'n rpc world \<Rightarrow> 'n rpc world outcome" where
  "rpc_submit Io th task meta run staged_args w =
     res_bind (filc_async_run th task run staged_args w) (\<lambda>(_, w0).
       case request_answers (snd w0) of
         [] \<Rightarrow> Inl (Fatal ''rpc: out of memory'')
       | r # rest \<Rightarrow>
           if r = 0 then Inl (Fatal ''rpc: out of memory'')
           else
             let args = staged (tk (fst w0)) staged_args in
             res_bind (arg_ptr args 1) (\<lambda>p1.
             res_bind (case op_of (m_opts meta) of
                 OP_STEP \<Rightarrow> Inr (request_zero\<lparr>rr_command := ''STEP'' @ [CHR 0x0A], rr_value := zaddr p1\<rparr>)
               | OP_GET \<Rightarrow> Inr (request_zero\<lparr>rr_command := ''GET'' @ [CHR 0x0A], rr_value := zaddr p1\<rparr>)
               | _ \<Rightarrow> res_bind (arg_word args 2) (\<lambda>len.
                   Inr (request_zero\<lparr>rr_payload := p1, rr_payload_len := len,
                     rr_command := snprintf 32 (put_command (unat len))\<rparr>)))
               (\<lambda>q.
             res_bind (arg_word args 0) (\<lambda>port.
               let w1 = upd_rpc (\<lambda>p. p\<lparr>request_answers := rest, requests := (requests p)(r := q)\<rparr>) w0;
                   w2 = upd_fw (set_runtime_data task r) w1 in
               case io_socket Io (net (snd w2)) of
                 (Inl e, n) \<Rightarrow> rpc_finish Io th task r (- e)
                     (set_net n (upd_request r (\<lambda>q. q\<lparr>rr_fd := - 1\<rparr>) w2))
               | (Inr fd, n) \<Rightarrow>
                   (case io_connect Io fd (ucast port) n of
                      (e, n1) \<Rightarrow>
                        let w3 = set_net n1 (upd_request r (\<lambda>q. q\<lparr>rr_fd := fd\<rparr>) w2) in
                        if e \<noteq> 0 \<and> e \<noteq> EINPROGRESS then rpc_finish Io th task r (- e) w3
                        else map_sum id snd (advance Io th task r w3))))))"

text \<open>The blocking loop of \<open>rpc_poll\<close>.\<close>

fun block_loop :: "nat \<Rightarrow> 'n rpc_io \<Rightarrow> 'n rpc env \<Rightarrow> thread \<Rightarrow> addr \<Rightarrow> addr \<Rightarrow> int \<Rightarrow> 'n rpc world \<Rightarrow>
    'n rpc world outcome" where
  "block_loop fuel Io E th task r what w =
    (if what = 0 then Inr w
     else case fuel of 0 \<Rightarrow> Inl No_Return
     | Suc k \<Rightarrow>
         res_bind (if what = WAIT_PAYLOAD
                   then filc_async_wait_buffer k E th task (rr_payload (requests (snd w) r)) w
                   else Inr (set_net (io_poll Io (rr_fd (requests (snd w) r)) what (net (snd w))) w)) (\<lambda>w1.
         res_bind (advance Io th task r w1) (\<lambda>(what1, w2). block_loop k Io E th task r what1 w2)))"

declare block_loop.simps [simp del]

definition rpc_poll :: "'n rpc_io \<Rightarrow> 'n rpc env \<Rightarrow> thread \<Rightarrow> addr \<Rightarrow> filc_async_poll_mode \<Rightarrow> 'n rpc world \<Rightarrow>
    (bool \<times> 'n rpc world) outcome" where
  "rpc_poll Io E th task mode w =
    (let r = task_runtime_data (fst w) task in
     if r = 0 then Inr (False, w)
     else if mode \<noteq> POLL_BLOCK \<and> rr_locked (requests (snd w) r) then Inr (False, w)
     else
       let w0 = (if rr_locked (requests (snd w) r) then io_lock Io r w else w) in
       res_bind (if rr_done (requests (snd w0) r) \<or> mode = POLL_CHECK then Inr (0, w0)
                 else advance Io th task r w0) (\<lambda>(what, w1).
       res_bind (if mode = POLL_BLOCK then block_loop (io_fuel Io) Io E th task r what w1 else Inr w1) (\<lambda>w2.
         Inr (rr_done (requests (snd w2) r), w2))))"

end
