(* ===== verification/RpcRuns.thy ===== *)
theory RpcRuns
  imports Rpc FrameworkRuns
begin

text \<open>
  What the rpc runtime and its server guarantee: numbers survive the text protocol, a PUT
  round trip whatever pieces the stream arrives in, every byte of a request is sent once and
  in order, and a call completes once, with its reply stored.
\<close>

section \<open>Numbers\<close>

lemma digit_char_code: "d < 10 \<Longrightarrow> (of_char (digit_char d) :: nat) = 48 + d"
  by (simp add: digit_char_def of_char_of)

lemma digit_char_is: "d < 10 \<Longrightarrow> is_digit (digit_char d) \<and> \<not> is_space (digit_char d) \<and>
    digit_char d \<noteq> CHR ''-'' \<and> digit_char d \<noteq> CHR ''+'' \<and> digit_char d \<noteq> CHR 0x00"
proof -
  assume d: "d < 10"
  have e: "digit_char d \<noteq> c" if "(of_char c :: nat) < 48" for c
    using digit_char_code [OF d] that by auto
  have "digit_char d \<noteq> CHR ''-''" "digit_char d \<noteq> CHR ''+''" "digit_char d \<noteq> CHR 0x00"
    by (rule e; simp)+
  then show ?thesis using d by (simp add: is_digit_def is_space_def digit_char_code)
qed

lemma show_nat_digits: "set (show_nat n) \<subseteq> digit_char ` {..<10}"
proof (induction n rule: show_nat.induct)
  case (1 n)
  show ?case
  proof (cases "n < 10")
    case False
    then show ?thesis using 1 by (subst show_nat.simps) auto
  qed (subst show_nat.simps, simp)
qed

lemma show_nat_nonempty: "show_nat n \<noteq> []"
  by (subst show_nat.simps) simp

lemma read_show: "read_nat (show_nat n) = n"
proof (induction n rule: show_nat.induct)
  case (1 n)
  show ?case
  proof (cases "n < 10")
    case True
    then show ?thesis by (subst show_nat.simps) (simp add: read_nat_def digit_char_code)
  next
    case False
    then have "read_nat (show_nat (n div 10)) = n div 10" using 1 by blast
    then show ?thesis using False by (subst show_nat.simps) (simp add: read_nat_def digit_char_code)
  qed
qed

lemma show_nat_length: "n < 10 ^ k \<Longrightarrow> 0 < k \<Longrightarrow> length (show_nat n) \<le> k"
proof (induction k arbitrary: n)
  case (Suc k)
  show ?case
  proof (cases "n < 10")
    case True
    then show ?thesis by (subst show_nat.simps) simp
  next
    case False
    then have "0 < k" using Suc.prems(1) by (cases k) auto
    moreover have "n div 10 < 10 ^ k" using Suc.prems(1) by (simp add: less_mult_imp_div_less)
    ultimately have "length (show_nat (n div 10)) \<le> k" using Suc.IH by blast
    then show ?thesis using False by (subst show_nat.simps) simp
  qed
qed simp

lemma show_nat_chars: "\<forall>c\<in>set (show_nat n). is_digit c \<and> \<not> is_space c \<and> c \<noteq> CHR ''-'' \<and> c \<noteq> CHR ''+'' \<and> c \<noteq> CHR 0x00"
proof
  fix c assume "c \<in> set (show_nat n)"
  then obtain d where d: "d < 10" "c = digit_char d" using show_nat_digits [of n] by auto
  show "is_digit c \<and> \<not> is_space c \<and> c \<noteq> CHR ''-'' \<and> c \<noteq> CHR ''+'' \<and> c \<noteq> CHR 0x00"
    unfolding d(2) by (rule digit_char_is [OF d(1)])
qed

lemma scan_show: "scan_int (show_nat n @ CHR 0x0A # rest) = Some (False, n, CHR 0x0A # rest)"
proof -
  obtain c cs where s: "show_nat n = c # cs" using show_nat_nonempty by (cases "show_nat n") auto
  note ch = show_nat_chars [of n]
  have c: "\<not> is_space c" "c \<noteq> CHR ''-''" "c \<noteq> CHR ''+''" using ch unfolding s by auto
  have nl: "\<not> is_digit (CHR 0x0A)" by (simp add: is_digit_def)
  have tw: "takeWhile is_digit (show_nat n @ CHR 0x0A # rest) = show_nat n"
    "dropWhile is_digit (show_nat n @ CHR 0x0A # rest) = CHR 0x0A # rest"
    using ch nl by (simp_all add: takeWhile_append dropWhile_append)
  have "dropWhile is_space (show_nat n @ CHR 0x0A # rest) = show_nat n @ CHR 0x0A # rest"
    unfolding s using c by simp
  then show ?thesis
    unfolding scan_int_def Let_def using tw c show_nat_nonempty [of n] read_show [of n] by (simp add: s)
qed

lemma blank_space: "is_space (CHR '' '')"
  by (simp add: is_space_def)

lemma skip_to_show: "dropWhile is_space (show_nat n @ s) = show_nat n @ s"
proof -
  obtain c cs where e: "show_nat n = c # cs" using show_nat_nonempty by (cases "show_nat n") auto
  have "\<not> is_space c" using show_nat_chars [of n] unfolding e by auto
  then show ?thesis by (simp add: e)
qed

lemma c_str_id: "CHR 0x00 \<notin> set s \<Longrightarrow> c_str s = s"
  by (simp add: c_str_def takeWhile_eq_all_conv) blast

lemma show_nat_no_nul: "CHR 0x00 \<notin> set (show_nat n)"
  using bspec [OF show_nat_chars, of "CHR 0x00" n] by auto

section \<open>Replies and commands\<close>

lemma reply_text_full:
  assumes "0 \<le> v" "v \<le> LONG_MAX"
  shows "reply_text v = ''VALUE '' @ show_nat (nat v) @ [CHR 0x0A]"
proof -
  have "nat v < 10 ^ 19" using assms by (simp add: LONG_MAX_def)
  from show_nat_length [OF this] have "length (show_nat (nat v)) \<le> 19" by simp
  then show ?thesis using assms by (simp add: reply_text_def snprintf_def show_long_def)
qed

lemma parse_reply_text:
  assumes "0 \<le> v" "v \<le> LONG_MAX"
  shows "parse_reply (reply_text v) = v"
proof -
  have "c_str (reply_text v) = reply_text v"
    unfolding reply_text_full [OF assms] by (rule c_str_id) (simp add: show_nat_no_nul)
  then show ?thesis
    unfolding parse_reply_def reply_text_full [OF assms]
    using assms by (simp add: scan_word_def blank_space skip_to_show scan_show clamp_long_def)
qed

lemma put_command_fits:
  assumes "len < 2 ^ 64"
  shows "snprintf 32 (put_command len) = put_command len" "length (put_command len) \<le> 25"
proof -
  have "len < 10 ^ 20" using assms by simp
  from show_nat_length [OF this] have "length (show_nat len) \<le> 20" by simp
  then show "snprintf 32 (put_command len) = put_command len" "length (put_command len) \<le> 25"
    by (simp_all add: put_command_def snprintf_def)
qed

lemma scan_put_command:
  assumes "len < 2 ^ 64"
  shows "scan_put (put_command len) = Some (of_nat len)"
  using assms by (simp add: scan_put_def put_command_def scan_word_def blank_space skip_to_show scan_show clamp_ulong_def ULONG_MAX_def)

section \<open>The server on a stream\<close>

text \<open>A connected socket: \<open>stream\<close> is what is still to be read and \<open>out\<close> what has been written.\<close>

definition recv_ok :: "'n socket \<Rightarrow> ('n \<Rightarrow> string) \<Rightarrow> ('n \<Rightarrow> string) \<Rightarrow> bool" where
  "recv_ok S stream out \<longleftrightarrow> (\<forall>k n. 0 < k \<and> stream n \<noteq> [] \<longrightarrow>
     (\<exists>bs n'. sk_recv S k n = (Inr bs, n') \<and> bs \<noteq> [] \<and> length bs \<le> k \<and> stream n = bs @ stream n' \<and> out n' = out n))"

definition send_ok :: "'n socket \<Rightarrow> ('n \<Rightarrow> string) \<Rightarrow> bool" where
  "send_ok S out \<longleftrightarrow> (\<forall>d n. out (snd (sk_send S d n)) = out n @ d)"

lemma put_loop_stream:
  assumes "recv_ok S stream out"
  shows "len \<le> fuel \<Longrightarrow> len \<le> length (stream n) \<Longrightarrow>
    \<exists>n'. put_loop fuel S hash len n = Inr (int (unat (fold fnv_byte (take len (stream n)) hash)), n') \<and> out n' = out n"
proof (induction fuel arbitrary: len n hash)
  case 0
  then show ?case by (subst put_loop.simps) simp
next
  case (Suc k)
  show ?case
  proof (cases "len = 0")
    case True
    then show ?thesis by (subst put_loop.simps) simp
  next
    case False
    then have "0 < min len 4096 \<and> stream n \<noteq> []" using Suc.prems(2) by auto
    then obtain bs n1 where b: "sk_recv S (min len 4096) n = (Inr bs, n1)" "bs \<noteq> []" "length bs \<le> min len 4096"
      "stream n = bs @ stream n1" "out n1 = out n"
      using assms unfolding recv_ok_def by blast
    have pos: "0 < length bs" using b(2) by simp
    have le: "len - length bs \<le> k" "len - length bs \<le> length (stream n1)" using Suc.prems(1,2) pos b(4) by (linarith, simp)
    have t: "take len (stream n) = bs @ take (len - length bs) (stream n1)" using b(3,4) by simp
    from Suc.IH [OF le, of "fold fnv_byte bs hash"] show ?thesis
      using False b(1,2,5) by (subst put_loop.simps) (simp add: t)
  qed
qed

lemma read_command_stream:
  assumes "recv_ok S stream out"
  shows "CHR 0x0A \<notin> set a \<Longrightarrow> CHR 0x0A \<notin> set b \<Longrightarrow> CHR 0x00 \<notin> set a \<Longrightarrow> CHR 0x00 \<notin> set b \<Longrightarrow>
    stream n = b @ CHR 0x0A # rest \<Longrightarrow> length b < k \<Longrightarrow>
    \<exists>n'. read_command k S a n = (a @ b @ [CHR 0x0A], n') \<and> stream n' = rest \<and> out n' = out n"
proof (induction k arbitrary: a b n)
  case (Suc k)
  have ca: "c_str a = a" by (rule c_str_id [OF Suc.prems(3)])
  obtain bs n1 where r: "sk_recv S 1 n = (Inr bs, n1)" "bs \<noteq> []" "length bs \<le> 1" "stream n = bs @ stream n1" "out n1 = out n"
    using assms Suc.prems(5) unfolding recv_ok_def by (metis append_is_Nil_conv less_numeral_extra(1) list.distinct(1))
  obtain c where c: "bs = [c]" using r(2,3) by (cases bs) auto
  show ?case
  proof (cases b)
    case Nil
    then have "c = CHR 0x0A" "stream n1 = rest" using Suc.prems(5) r(4) c by auto
    moreover have "read_command k S (a @ [CHR 0x0A]) n1 = (a @ [CHR 0x0A], n1)"
    proof (cases k)
      case (Suc j)
      have "c_str (a @ [CHR 0x0A]) = a @ [CHR 0x0A]" by (rule c_str_id) (use \<open>CHR 0x00 \<notin> set a\<close> in simp)
      then show ?thesis by (simp add: Suc)
    qed simp
    ultimately show ?thesis using Suc.prems(1) r c Nil by (simp add: ca)
  next
    case (Cons d ds)
    then have d: "c = d" "stream n1 = ds @ CHR 0x0A # rest" using Suc.prems(5) r(4) c by auto
    have "\<exists>n'. read_command k S (a @ [d]) n1 = ((a @ [d]) @ ds @ [CHR 0x0A], n') \<and> stream n' = rest \<and> out n' = out n1"
      by (rule Suc.IH) (use Suc.prems Cons d in auto)
    then show ?thesis using Suc.prems(1) r c d Cons by (auto simp: ca)
  qed
qed simp

lemma show_nat_no_newline: "CHR 0x0A \<notin> set (show_nat n)"
  using bspec [OF show_nat_chars, of "CHR 0x0A" n] by (auto simp: is_space_def)

text \<open>C22. A PUT call round trip: the server reads the command and the payload the runtime sends,
  whatever pieces they arrive in, and what the runtime parses from the server's reply is the
  payload's checksum.\<close>

theorem rpc_put_roundtrip:
  assumes "recv_ok S stream out" and "send_ok S out" and "length payload < 2 ^ 64"
    and "stream n = snprintf 32 (put_command (length payload)) @ payload @ rest"
  shows "\<exists>n' reply. serve S counter n = Inr (counter, n') \<and> out n' = out n @ reply \<and>
    parse_reply reply = int (unat (fold fnv_byte payload FNV_BASIS))"
proof -
  let ?len = "length payload"
  let ?c = "put_command ?len"
  let ?h = "int (unat (fold fnv_byte payload FNV_BASIS))"
  note fits = put_command_fits [OF assms(3)]
  have "\<exists>n1. read_command 31 S [] n = ([] @ (''PUT '' @ show_nat ?len) @ [CHR 0x0A], n1) \<and> stream n1 = payload @ rest \<and> out n1 = out n"
    by (rule read_command_stream [OF assms(1)])
       (use fits assms(4) show_nat_no_newline [of ?len] show_nat_no_nul [of ?len] in \<open>auto simp: put_command_def\<close>)
  then obtain n1 where r: "read_command 31 S [] n = (?c, n1)" "stream n1 = payload @ rest" "out n1 = out n"
    by (auto simp: put_command_def)
  have cs: "c_str ?c = ?c" by (rule c_str_id) (simp add: put_command_def show_nat_no_nul)
  have u: "unat (of_nat ?len :: u64) = ?len" using assms(3) by (simp add: unat_of_nat take_bit_nat_eq_self)
  obtain n2 where p: "put S ?len n1 = Inr (?h, n2)" "out n2 = out n1"
    using put_loop_stream [OF assms(1), of ?len ?len n1] r(2) by (auto simp: put_def)
  have ne: "?c \<noteq> ''STEP'' @ [CHR 0x0A]" "?c \<noteq> ''GET'' @ [CHR 0x0A]" by (simp_all add: put_command_def)
  have "serve S counter n = Inr (counter, snd (sk_send S (reply_text ?h) n2))"
    unfolding serve_def r(1) Let_def prod.case cs scan_put_command [OF assms(3)]
    using ne by (simp add: u p)
  moreover have "out (snd (sk_send S (reply_text ?h) n2)) = out n @ reply_text ?h"
    using assms(2) p(2) r(3) by (simp add: send_ok_def)
  moreover have "?h \<le> LONG_MAX"
    using unsigned_less [of "fold fnv_byte payload FNV_BASIS", where 'a = int] by (simp add: LONG_MAX_def)
  ultimately show ?thesis using parse_reply_text [of ?h] by auto
qed

lemma serve_counter:
  assumes "recv_ok S stream out" and "send_ok S out" and "0 \<le> counter" and "counter < LONG_MAX"
    and "cmd = ''STEP'' \<and> v = counter + 1 \<or> cmd = ''GET'' \<and> v = counter"
    and "stream n = cmd @ CHR 0x0A # rest"
  shows "\<exists>n' reply. serve S counter n = Inr (v, n') \<and> out n' = out n @ reply \<and> parse_reply reply = v"
proof -
  have "\<exists>n1. read_command 31 S [] n = ([] @ cmd @ [CHR 0x0A], n1) \<and> stream n1 = rest \<and> out n1 = out n"
    by (rule read_command_stream [OF assms(1)]) (use assms(5,6) in auto)
  then obtain n1 where r: "read_command 31 S [] n = (cmd @ [CHR 0x0A], n1)" "out n1 = out n" by auto
  have cs: "c_str (cmd @ [CHR 0x0A]) = cmd @ [CHR 0x0A]" by (rule c_str_id) (use assms(5) in auto)
  have np: "scan_put (cmd @ [CHR 0x0A]) = None" using assms(5) by (auto simp: scan_put_def scan_word_def)
  have "serve S counter n = Inr (v, snd (sk_send S (reply_text v) n1))"
    unfolding serve_def r(1) Let_def prod.case cs np using assms(5) by auto
  moreover have "parse_reply (reply_text v) = v" by (rule parse_reply_text) (use assms(3-5) in auto)
  ultimately show ?thesis using assms(2) r(2) by (auto simp: send_ok_def)
qed

section \<open>What goes on the wire\<close>

text \<open>\<open>out\<close> is what the connection's peer has been sent.\<close>

definition wire_law :: "'n rpc_io \<Rightarrow> int \<Rightarrow> ('n \<Rightarrow> string) \<Rightarrow> bool" where
  "wire_law Io fd out \<longleftrightarrow> (\<forall>d n. case io_send Io fd d n of
       (Inl e, n') \<Rightarrow> 0 < e \<and> out n' = out n
     | (Inr m, n') \<Rightarrow> m \<le> length d \<and> out n' = out n @ take m d)"

lemma wire_lawD:
  assumes "wire_law Io fd out"
  shows "io_send Io fd d n = (Inl e, n') \<Longrightarrow> 0 < e \<and> out n' = out n"
    "io_send Io fd d n = (Inr m, n') \<Longrightarrow> m \<le> length d \<and> out n' = out n @ take m d"
  using spec [OF spec [OF assms [unfolded wire_law_def], of d], of n] by simp_all

lemma send_rest_exact:
  assumes "wire_law Io fd out"
  shows "sent \<le> length data \<Longrightarrow> send_rest fuel Io fd data sent n = Inr (rc, sent', n') \<Longrightarrow>
    sent \<le> sent' \<and> sent' \<le> length data \<and> out n' = out n @ take (sent' - sent) (drop sent data) \<and>
    (rc = 0) = (sent' = length data)"
proof (induction fuel arbitrary: sent n)
  case 0
  then show ?case by (subst (asm) send_rest.simps) (auto split: if_splits)
next
  case (Suc k)
  show ?case
  proof (cases "sent < length data")
    case False
    then show ?thesis using Suc.prems by (subst (asm) send_rest.simps) auto
  next
    case True
    obtain x n1 where x: "io_send Io fd (drop sent data) n = (x, n1)" by force
    show ?thesis
    proof (cases x)
      case (Inl e)
      have "0 < e \<and> out n1 = out n" using wire_lawD(1) [OF assms x [unfolded Inl]] .
      then show ?thesis using Suc.prems True x Inl
        by (subst (asm) send_rest.simps) (auto simp: POLLOUT_def EAGAIN_def split: if_splits)
    next
      case (Inr m)
      have m: "m \<le> length (drop sent data)" "out n1 = out n @ take m (drop sent data)"
        using wire_lawD(2) [OF assms x [unfolded Inr]] by simp_all
      have "send_rest k Io fd data (sent + m) n1 = Inr (rc, sent', n')"
        using Suc.prems True x Inr by (subst (asm) send_rest.simps) simp
      from Suc.IH [OF _ this] m(1) Suc.prems(1)
      have ih: "sent + m \<le> sent'" "sent' \<le> length data" "out n' = out n1 @ take (sent' - (sent + m)) (drop (sent + m) data)"
        "(rc = 0) = (sent' = length data)" by simp_all
      have "take (sent' - sent) (drop sent data) = take m (drop sent data) @ take (sent' - (sent + m)) (drop (sent + m) data)"
      proof -
        have "sent' - sent = m + (sent' - (sent + m))" using ih(1) by simp
        then show ?thesis by (simp add: take_add add.commute)
      qed
      then show ?thesis using ih m(2) by simp
    qed
  qed
qed

definition wire :: "rpc_request \<Rightarrow> string \<Rightarrow> string" where
  "wire q payload = take (rr_command_sent q) (rr_command q) @ take (rr_payload_sent q) payload"

definition wire_ok :: "rpc_request \<Rightarrow> string \<Rightarrow> bool" where
  "wire_ok q payload \<longleftrightarrow> rr_command_sent q \<le> length (rr_command q) \<and> rr_payload_sent q \<le> length payload \<and>
     (rr_payload_sent q \<noteq> 0 \<longrightarrow> rr_command_sent q = length (rr_command q))"

lemma take_drop_join: "a \<le> b \<Longrightarrow> take a xs @ take (b - a) (drop a xs) = take b xs"
  by (metis le_add_diff_inverse take_add)

text \<open>C26. Every byte of a request is sent once and in order, however often the call is polled: what
  the peer has received is always the command followed by a prefix of the payload, the payload
  starts only after the whole command, and the runtime goes on to read the reply only when
  both are complete.\<close>

theorem rpc_sends_once:
  assumes "wire_law Io (rr_fd (requests (snd w) r)) out"
    and "wire_ok (requests (snd w) r) (payload_text (snd w) (requests (snd w) r))"
    and "out (net (snd w)) = base @ wire (requests (snd w) r) (payload_text (snd w) (requests (snd w) r))"
    and "advance_send Io r w = Inr (rc, w')"
  shows "wire_ok (requests (snd w') r) (payload_text (snd w) (requests (snd w) r)) \<and>
    out (net (snd w')) = base @ wire (requests (snd w') r) (payload_text (snd w) (requests (snd w) r)) \<and>
    fst w' = fst w \<and>
    (rc = 0 \<longrightarrow> out (net (snd w')) = base @ rr_command (requests (snd w) r) @ payload_text (snd w) (requests (snd w) r))"
proof -
  let ?q = "requests (snd w) r"
  let ?P = "payload_text (snd w) ?q"
  let ?C = "rr_command ?q"
  have lenP: "length ?P = unat (rr_payload_len ?q)" by (simp add: payload_text_def)
  obtain rc1 sent n where a: "send_rest (io_fuel Io) Io (rr_fd ?q) ?C (rr_command_sent ?q) (net (snd w)) = Inr (rc1, sent, n)"
    using assms(4) by (auto simp: advance_send_def Let_def)
  have c: "rr_command_sent ?q \<le> length ?C" using assms(2) by (simp add: wire_ok_def)
  note s1 = send_rest_exact [OF assms(1) c a]
  let ?w1 = "set_net n (upd_request r (\<lambda>q. q\<lparr>rr_command_sent := sent\<rparr>) w)"
  have P1: "payload_text (snd ?w1) ?q = ?P" by (simp add: payload_text_def)
  have out1: "out n = base @ take sent ?C @ take (rr_payload_sent ?q) ?P"
  proof (cases "rr_payload_sent ?q = 0")
    case True
    then show ?thesis using assms(3) s1 take_drop_join [of "rr_command_sent ?q" sent ?C] by (simp add: wire_def)
  next
    case False
    then have "rr_command_sent ?q = length ?C" using assms(2) by (simp add: wire_ok_def)
    then show ?thesis using s1 assms(3) by (simp add: wire_def)
  qed
  have ok1: "rr_payload_sent ?q \<noteq> 0 \<longrightarrow> sent = length ?C" using assms(2) s1 by (auto simp: wire_ok_def)
  show ?thesis
  proof (cases "rc1 = 0 \<and> rr_payload_sent ?q < length ?P \<and> \<not> filc_async_is_pending (rr_payload ?q) (fst w)")
    case True
    obtain sent1 n1 where b: "send_rest (io_fuel Io) Io (rr_fd ?q) ?P (rr_payload_sent ?q) n = Inr (rc, sent1, n1)"
      and w': "w' = set_net n1 (upd_request r (\<lambda>q. q\<lparr>rr_payload_sent := sent1\<rparr>) ?w1)"
      using assms(4) True a P1 by (auto simp: advance_send_def Let_def lenP)
    have p: "rr_payload_sent ?q \<le> length ?P" using True by simp
    note s2 = send_rest_exact [OF assms(1) p b]
    have full: "sent = length ?C" using s1 True by blast
    have "out n1 = base @ ?C @ take sent1 ?P"
      using s2 out1 full take_drop_join [of "rr_payload_sent ?q" sent1 ?P] by simp
    then show ?thesis using s2 full by (simp add: w' wire_def wire_ok_def)
  next
    case False
    then have w': "w' = ?w1 \<and> (rc = rc1 \<or> rc = WAIT_PAYLOAD)"
      and rc0: "rc = 0 \<Longrightarrow> rc1 = 0 \<and> \<not> rr_payload_sent ?q < length ?P"
      using assms(4) a by (auto simp: advance_send_def Let_def lenP WAIT_PAYLOAD_def split: if_splits)
    have p: "rr_payload_sent ?q \<le> length ?P" using assms(2) by (simp add: wire_ok_def)
    show ?thesis using w' out1 ok1 s1 p rc0 by (auto simp: wire_def wire_ok_def)
  qed
qed

section \<open>Completion\<close>

lemma rpc_finish_spec:
  assumes "rpc_finish Io th task r result w = Inr w'"
  shows "rr_done (requests (snd w') r) \<and> rr_result (requests (snd w') r) = result \<and>
    rr_value (requests (snd w') r) = rr_value (requests (snd w) r) \<and>
    filc_async_complete task (word_of_int result) (fst w) = Inr (fst w') \<and>
    (rr_value (requests (snd w) r) \<noteq> 0 \<longrightarrow> cells (snd w') (rr_value (requests (snd w) r)) = result)"
  using assms
  by (auto simp: rpc_finish_def Let_def filc_async_run_def store_reply_def active_push_def map_sum_def split: if_splits sum.splits)

lemma advance_send_frame:
  assumes "advance_send Io r w = Inr (rc, w')"
  shows "fst w' = fst w \<and> rr_done (requests (snd w') r) = rr_done (requests (snd w) r) \<and>
    rr_value (requests (snd w') r) = rr_value (requests (snd w) r)"
  using assms by (auto simp: advance_send_def Let_def split: if_splits)

lemma recv_loop_event: "recv_loop fuel Io fd reply n = Inr (what, reply', n') \<Longrightarrow> what \<noteq> Inl 0"
proof (induction fuel arbitrary: reply n)
  case 0
  then show ?case by (subst (asm) recv_loop.simps) (auto simp: POLLIN_def split: sum.splits prod.splits if_splits)
next
  case (Suc k)
  then show ?case by (subst (asm) recv_loop.simps) (auto simp: POLLIN_def split: sum.splits prod.splits if_splits)
qed

text \<open>A call completes with its reply stored: moving a request on either leaves the framework
  alone and names what to wait for, or completes the call's task once, with the result the
  request records, after storing that result where the caller asked for it.\<close>

theorem rpc_advance_completes:
  assumes "advance Io th task r w = Inr (what, w')"
  shows "if what = 0
    then rr_done (requests (snd w') r) \<and>
      filc_async_complete task (word_of_int (rr_result (requests (snd w') r))) (fst w) = Inr (fst w') \<and>
      (rr_value (requests (snd w) r) \<noteq> 0 \<longrightarrow>
         cells (snd w') (rr_value (requests (snd w) r)) = rr_result (requests (snd w') r))
    else fst w' = fst w \<and> rr_done (requests (snd w') r) = rr_done (requests (snd w) r)"
proof -
  obtain rc w1 where a: "advance_send Io r w = Inr (rc, w1)" using assms by (auto simp: advance_def)
  note f = advance_send_frame [OF a]
  consider "rc < 0" | "rc > 0" | "rc = 0" by linarith
  then show ?thesis
  proof cases
    case 1
    then have "rpc_finish Io th task r rc w1 = Inr w'" "what = 0"
      using assms a by (auto simp: advance_def map_sum_def split: sum.splits)
    with rpc_finish_spec [OF this(1)] f show ?thesis by simp
  next
    case 2
    then have "what = rc" "w' = w1" using assms a by (auto simp: advance_def)
    then show ?thesis using f 2 by simp
  next
    case 3
    let ?q = "requests (snd w1) r"
    obtain x reply n where l: "recv_loop (io_fuel Io) Io (rr_fd ?q) (rr_reply ?q) (net (snd w1)) = Inr (x, reply, n)"
      using assms a 3 by (auto simp: advance_def Let_def)
    let ?w2 = "set_net n (upd_request r (\<lambda>q. q\<lparr>rr_reply := reply\<rparr>) w1)"
    show ?thesis
    proof (cases x)
      case (Inl e)
      then have "what = e" "w' = ?w2" "e \<noteq> 0" using assms a 3 l recv_loop_event [OF l] by (auto simp: advance_def Let_def)
      then show ?thesis using f by simp
    next
      case (Inr res)
      then have "rpc_finish Io th task r res ?w2 = Inr w'" "what = 0"
        using assms a 3 l by (auto simp: advance_def Let_def map_sum_def split: sum.splits)
      with rpc_finish_spec [OF this(1)] f show ?thesis by simp
    qed
  qed
qed

section \<open>Witnesses\<close>

text \<open>A socket that is a pair of strings: what is still to be read and what was written.\<close>

definition demo_socket :: "(string \<times> string) socket" where
  "demo_socket = \<lparr>sk_recv = (\<lambda>k (i, o'). (Inr (take k i), (drop k i, o'))), sk_send = (\<lambda>d (i, o'). (Inr (length d), (i, o' @ d)))\<rparr>"

lemma demo_socket_ok: "recv_ok demo_socket fst snd" "send_ok demo_socket snd"
  by (auto simp: recv_ok_def send_ok_def demo_socket_def)

theorem rpc_put_roundtrip_witness:
  "\<exists>n' reply. serve demo_socket 7 (snprintf 32 (put_command 2) @ ''hi'', []) = Inr (7, n') \<and> snd n' = reply \<and>
    parse_reply reply = int (unat (fold fnv_byte ''hi'' FNV_BASIS))"
proof -
  have two: "length ''hi'' = 2" by simp
  from rpc_put_roundtrip [OF demo_socket_ok, of "''hi''" "(snprintf 32 (put_command 2) @ ''hi'', [])" "[]" 7]
  show ?thesis unfolding two by auto
qed

text \<open>A connection that takes three bytes at a time and answers with 8 before it ends.\<close>

definition demo_io :: "(string \<times> bool) rpc_io" where
  "demo_io = \<lparr>io_send = (\<lambda>_ d (n, b). (Inr (min 3 (length d)), (n @ take (min 3 (length d)) d, b))),
     io_recv = (\<lambda>_ _ (n, b). if b then (Inr [], (n, b)) else (Inr (reply_text 8), (n, True))),
     io_socket = (\<lambda>n. (Inr 4, n)), io_connect = (\<lambda>_ _ n. (0, n)), io_close = (\<lambda>_ n. n), io_poll = (\<lambda>_ _ n. n),
     io_lock = (\<lambda>_ w. w), io_fuel = 9, io_runtime = Linked 0x9000, io_body = (\<lambda>_. None)\<rparr>"

definition demo_rpc :: "(string \<times> bool) rpc" where
  "demo_rpc = \<lparr>requests = (\<lambda>_. request_zero\<lparr>rr_command := ''STEP'' @ [CHR 0x0A], rr_value := 0x6000\<rparr>), net = ([], False),
     cells = (\<lambda>_. 0), bytes = (\<lambda>_. CHR 0x00), request_answers = []\<rparr>"

lemma demo_send: "send_rest 9 demo_io 0 (''STEP'' @ [CHR 0x0A]) 0 ([], False) = Inr (0, 5, (''STEP'' @ [CHR 0x0A], False))"
  by (simp add: send_rest.simps demo_io_def eval_nat_numeral)

lemma demo_advance_send: "advance_send demo_io 1 (demo1, demo_rpc) =
    Inr (0, demo1, demo_rpc\<lparr>requests := (requests demo_rpc)(1 := (requests demo_rpc 1)\<lparr>rr_command_sent := 5\<rparr>),
      net := (''STEP'' @ [CHR 0x0A], False)\<rparr>)"
proof -
  have io: "io_fuel demo_io = 9" by (simp add: demo_io_def)
  have q: "rr_fd (requests demo_rpc 1) = 0" "rr_command (requests demo_rpc 1) = ''STEP'' @ [CHR 0x0A]"
    "rr_command_sent (requests demo_rpc 1) = 0" "net demo_rpc = ([], False)" "rr_payload_len (requests demo_rpc 1) = 0"
    by (simp_all add: demo_rpc_def request_zero_def)
  show ?thesis unfolding advance_send_def Let_def snd_conv fst_conv io q demo_send by simp
qed

theorem rpc_sends_once_witness:
  "\<exists>w'. advance_send demo_io 1 (demo1, demo_rpc) = Inr (0, w') \<and> fst (net (snd w')) = ''STEP'' @ [CHR 0x0A]"
proof -
  obtain w' where w': "advance_send demo_io 1 (demo1, demo_rpc) = Inr (0, w')" using demo_advance_send by blast
  have "wire_law demo_io (rr_fd (requests (snd (demo1, demo_rpc)) 1)) fst"
    by (auto simp: wire_law_def demo_io_def)
  from rpc_sends_once [OF this _ _ w', of "[]"] w' show ?thesis
    by (auto simp: wire_ok_def wire_def demo_rpc_def request_zero_def payload_text_def)
qed

lemma demo_recv: "recv_loop 9 demo_io fd [] (n, False) = Inr (Inr 8, reply_text 8, (n, True))"
proof -
  have p: "parse_reply (reply_text 8) = 8" by (rule parse_reply_text) (simp_all add: LONG_MAX_def)
  have ne: "reply_text 8 \<noteq> []" by (simp add: reply_text_full LONG_MAX_def)
  have k: "(9::nat) = Suc 8" by simp
  have "recv_loop 8 demo_io fd (reply_text 8) (n, True) = Inr (Inr 8, reply_text 8, (n, True))"
    by (subst recv_loop.simps) (simp add: demo_io_def p)
  then show ?thesis unfolding k by (subst recv_loop.simps) (simp add: demo_io_def ne)
qed

lemma demo_advance: "\<exists>w'. advance demo_io th 0x100 1 (demo1, demo_rpc) = Inr (0, w')"
  if "length (g_active th) < 32"
proof -
  have io: "io_fuel demo_io = 9" by (simp add: demo_io_def)
  have c: "filc_async_complete 0x100 8 demo1 = Inr demo2"
    using demo2_run by (simp add: demo1_tasks)
  show ?thesis
    unfolding advance_def demo_advance_send io using c that
    by (simp add: demo_recv demo_rpc_def request_zero_def rpc_finish_def filc_async_run_def active_push_def MAX_ACTIVE_def
        store_reply_def)
qed

theorem rpc_advance_completes_witness:
  "\<exists>w'. advance demo_io \<lparr>g_running_body = 0, g_active = []\<rparr> 0x100 1 (demo1, demo_rpc) = Inr (0, w') \<and>
    rr_done (requests (snd w') 1) \<and> cells (snd w') 0x6000 = rr_result (requests (snd w') 1)"
proof -
  obtain w' where w': "advance demo_io \<lparr>g_running_body = 0, g_active = []\<rparr> 0x100 1 (demo1, demo_rpc) = Inr (0, w')"
    using demo_advance [of "\<lparr>g_running_body = 0, g_active = []\<rparr>"] by auto
  from rpc_advance_completes [OF w'] w' show ?thesis by (auto simp: demo_rpc_def)
qed

end
