(* ===== verification/RpcContract.thy ===== *)
theory RpcContract
  imports UringContract RpcRuns
begin

text \<open>
  The rpc runtime meets the contract the framework's waits rest on.  Its poll may itself wait, for
  the payload another call still fills, with the runtimes of the calls it waits for: the
  environment of that inner wait is a parameter that keeps the contract, and \<open>rpc_tower\<close> is the
  runtime on top of itself, as deep as such waits nest.
\<close>

section \<open>Completing only what has been handed over\<close>

text \<open>\<open>P\<close> are the tasks being polled.\<close>

definition rpc_inv :: "runtime_ref \<Rightarrow> addr set \<Rightarrow> addr set \<Rightarrow> 'n rpc world \<Rightarrow> bool" where
  "rpc_inv R T P w \<longleftrightarrow> R \<noteq> Join_Runtime \<and>
     (\<forall>t. t_runtime (tasks (tk (fst w)) t) \<noteq> Join_Runtime \<and> task_runtime_data (fst w) t \<noteq> 0 \<longrightarrow>
        t_runtime (tasks (tk (fst w)) t) = R \<and> handed_over T (fst w) t) \<and>
     (\<forall>t\<in>P. handed_over T (fst w) t)"

text \<open>A step of the runtime for the task \<open>t\<close>: it completes the task or leaves the framework alone.\<close>

definition serves :: "addr \<Rightarrow> 'n rpc world \<Rightarrow> 'n rpc world \<Rightarrow> bool" where
  "serves t w w' \<longleftrightarrow> (completes_of {t})\<^sup>*\<^sup>* (fst w) (fst w')"

lemma serves_still: "fst w' = fst w \<Longrightarrow> serves t w w'"
  by (simp add: serves_def)

lemma serves_reaches:
  assumes inv: "rpc_inv R T P w" "fw_inv (fst w)" and t: "handed_over T (fst w) t" and s: "serves t w w'"
  shows "reaches shr B T (rpc_inv R T P) w w'" and "handed_over T (fst w') t" and "fw_inv (fst w')"
proof -
  have c: "(completes_of {t})\<^sup>*\<^sup>* (fst w) (fst w')" using s by (simp add: serves_def)
  have h: "(calm_step shr B T)\<^sup>*\<^sup>* (fst w) (fst w') \<and> fw_inv (fst w') \<and>
      (\<forall>u. handed_over T (fst w) u \<longrightarrow> handed_over T (fst w') u)"
    by (rule completes_of_calm [OF c inv(2)]) (use t in simp)
  have "rpc_inv R T P w'"
    using inv(1) h completes_frame [OF completes_of_all [OF c]] unfolding rpc_inv_def by metis
  then show "reaches shr B T (rpc_inv R T P) w w'" "handed_over T (fst w') t" "fw_inv (fst w')"
    using h t by (simp_all add: reaches_def)
qed

lemma rpc_finish_serves:
  assumes "rpc_finish Io th t r result w = Inr w'"
  shows "serves t w w'"
  using rpc_finish_spec [OF assms] by (auto simp: serves_def completes_of_def intro!: r_into_rtranclp)

lemma advance_serves:
  assumes "advance Io th t r w = Inr (what, w')"
  shows "serves t w w'"
  using rpc_advance_completes [OF assms]
  by (auto simp: serves_def completes_of_def intro!: r_into_rtranclp split: if_splits)

section \<open>The poll\<close>

lemma rpc_inv_less: "rpc_inv R T P w \<Longrightarrow> Q \<subseteq> P \<Longrightarrow> rpc_inv R T Q w"
  by (auto simp: rpc_inv_def)

lemma rpc_reaches_less: "reaches shr B T (rpc_inv R T P) w w' \<Longrightarrow> Q \<subseteq> P \<Longrightarrow> reaches shr B T (rpc_inv R T Q) w w'"
  using rpc_inv_less [of R T P w' Q] by (simp add: reaches_def)

lemma polled_advance:
  assumes inv: "rpc_inv R T (insert t P) w" "fw_inv (fst w)" and s: "serves t w w'"
  shows "reaches shr B T (rpc_inv R T (insert t P)) w w'" and "fw_inv (fst w')"
  using serves_reaches(1,3) [OF inv _ s] inv(1) by (simp_all add: rpc_inv_def)

lemma block_loop_reaches:
  assumes E: "runtime_contract shr B T (rpc_inv R T (insert t P)) E"
  shows "block_loop fuel Io E th t r what w = Inr w' \<Longrightarrow> rpc_inv R T (insert t P) w \<Longrightarrow> fw_inv (fst w) \<Longrightarrow>
    reaches shr B T (rpc_inv R T (insert t P)) w w'"
proof (induction fuel arbitrary: what w)
  case 0
  then show ?case by (subst (asm) block_loop.simps) (simp add: reaches_refl split: if_splits)
next
  case (Suc k)
  show ?case
  proof (cases "what = 0")
    case True
    then show ?thesis using Suc.prems by (subst (asm) block_loop.simps) (simp add: reaches_refl)
  next
    case False
    let ?p = "rr_payload (requests (snd w) r)"
    let ?m = "if what = WAIT_PAYLOAD then filc_async_wait_buffer k E th t ?p w
      else Inr (set_net (io_poll Io (rr_fd (requests (snd w) r)) what (net (snd w))) w)"
    have "res_bind ?m (\<lambda>w1. res_bind (advance Io th t r w1) (\<lambda>(what1, w2). block_loop k Io E th t r what1 w2)) = Inr w'"
      using Suc.prems(1) unfolding block_loop.simps [of "Suc k" Io E th t r what w] nat.case if_not_P [OF False] .
    then obtain w1 v where m: "?m = Inr w1" and v: "advance Io th t r w1 = Inr v" "(case v of (what1, w2) \<Rightarrow> block_loop k Io E th t r what1 w2) = Inr w'"
      unfolding res_bind_Inr by blast
    obtain what1 w2 where w2: "advance Io th t r w1 = Inr (what1, w2)" "block_loop k Io E th t r what1 w2 = Inr w'"
      using v by (cases v) simp
    have w1: "w1 = set_net (io_poll Io (rr_fd (requests (snd w) r)) what (net (snd w))) w \<or>
        filc_async_wait_buffer k E th t ?p w = Inr w1" using m by (cases "what = WAIT_PAYLOAD") simp_all
    have r1: "reaches shr B T (rpc_inv R T (insert t P)) w w1"
    proof (cases "filc_async_wait_buffer k E th t ?p w = Inr w1")
      case True
      show ?thesis by (rule wait_buffer_reaches [OF E Suc.prems(2,3) True])
    next
      case False
      then have "serves t w w1" using w1 by (intro serves_still) auto
      from polled_advance(1) [OF Suc.prems(2,3) this] show ?thesis .
    qed
    note i1 = reachesD(2) [OF r1] calm_inv [OF reachesD(1) [OF r1] Suc.prems(3)]
    note a = polled_advance [OF i1 advance_serves [OF w2(1)]]
    from Suc.IH [OF w2(2) reachesD(2) [OF a(1)] a(2)] show ?thesis using reaches_trans r1 a(1) by blast
  qed
qed

lemma rpc_inv_own:
  assumes inv: "rpc_inv R T P w" and o: "own_step T (fst w) s'"
  shows "rpc_inv R T P (s', snd w)"
proof -
  have keep: "handed_over T s' t" if "handed_over T (fst w) t" for t
    using o that unfolding own_step_def handed_over_def no_request_def by metis
  have data: "t_runtime (tasks (tk (fst w)) t) \<noteq> Join_Runtime \<and> tasks (tk s') t = tasks (tk (fst w)) t"
    if "t_runtime (tasks (tk s') t) \<noteq> Join_Runtime" "task_runtime_data s' t \<noteq> 0" for t
    using o that unfolding own_step_def task_runtime_data_def by metis
  have "t_runtime (tasks (tk s') t) = R \<and> handed_over T s' t"
    if "t_runtime (tasks (tk s') t) \<noteq> Join_Runtime" "task_runtime_data s' t \<noteq> 0" for t
    using inv data [OF that] that keep by (simp add: rpc_inv_def task_runtime_data_def)
  then show ?thesis using inv keep by (simp add: rpc_inv_def)
qed

locale rpc_linked =
  fixes shr :: bool and B :: "zptr set" and T :: "addr set" and R :: runtime_ref and Io :: "'n rpc_io"
    and E :: "'n rpc env" and th :: thread and others :: "'n rpc world \<Rightarrow> 'n rpc world"
  assumes inner: "runtime_contract shr B T (rpc_inv R T P) E"
    and lock_calm: "rpc_inv R T P w \<Longrightarrow> fw_inv (fst w) \<Longrightarrow> reaches shr B T (rpc_inv R T P) w (io_lock Io r w)"
    and others_calm: "rpc_inv R T P w \<Longrightarrow> fw_inv (fst w) \<Longrightarrow> reaches shr B T (rpc_inv R T P) w (others w)"
begin

lemma rpc_poll_calm:
  assumes inv: "rpc_inv R T P w" "fw_inv (fst w)" and t: "t_runtime (tasks (tk (fst w)) t) \<noteq> Join_Runtime"
    and p: "rpc_poll Io E th t mode w = Inr (d, w')"
  shows "reaches shr B T (rpc_inv R T P) w w'"
proof -
  let ?r = "task_runtime_data (fst w) t"
  let ?w0 = "if rr_locked (requests (snd w) ?r) then io_lock Io ?r w else w"
  have still: "reaches shr B T (rpc_inv R T P) w w" by (simp add: reaches_refl inv(1))
  show ?thesis
  proof (cases "?r = 0 \<or> mode \<noteq> POLL_BLOCK \<and> rr_locked (requests (snd w) ?r)")
    case True
    then have "w' = w" using p unfolding rpc_poll_def Let_def by (cases "?r = 0") simp_all
    then show ?thesis using still by simp
  next
    case False
    then have h: "rpc_inv R T (insert t P) w" using inv(1) t by (simp add: rpc_inv_def)
    have r0: "reaches shr B T (rpc_inv R T (insert t P)) w ?w0" using lock_calm [OF h inv(2)] h by (simp add: reaches_refl)
    note i0 = reachesD(2) [OF r0] calm_inv [OF reachesD(1) [OF r0] inv(2)]
    have f: "(?r = 0) = False" "(mode \<noteq> POLL_BLOCK \<and> rr_locked (requests (snd w) ?r)) = False" using False by auto
    let ?m = "if rr_done (requests (snd ?w0) ?r) \<or> mode = POLL_CHECK then Inr (0, ?w0) else advance Io th t ?r ?w0"
    have "res_bind ?m (\<lambda>(what, w1). res_bind (if mode = POLL_BLOCK then block_loop (io_fuel Io) Io E th t ?r what w1 else Inr w1)
        (\<lambda>w2. Inr (rr_done (requests (snd w2) ?r), w2))) = Inr (d, w')"
      using p unfolding rpc_poll_def Let_def f if_False .
    then obtain v where v: "?m = Inr v" "(case v of (what, w1) \<Rightarrow> res_bind (if mode = POLL_BLOCK
        then block_loop (io_fuel Io) Io E th t ?r what w1 else Inr w1) (\<lambda>w2. Inr (rr_done (requests (snd w2) ?r), w2))) = Inr (d, w')"
      unfolding res_bind_Inr by blast
    obtain what w1 where vw: "v = (what, w1)" by (rule prod.exhaust)
    have w1: "?m = Inr (what, w1)" using v(1) by (simp only: vw)
    obtain w2 where w2: "(if mode = POLL_BLOCK then block_loop (io_fuel Io) Io E th t ?r what w1 else Inr w1) = Inr w2" "w' = w2"
      using v(2) unfolding vw prod.case res_bind_Inr by blast
    have "serves t ?w0 w1" using w1 advance_serves [of Io th t ?r ?w0 what w1] by (auto simp: serves_still split: if_splits)
    note a = polled_advance [OF i0 this]
    have "reaches shr B T (rpc_inv R T (insert t P)) w1 w2"
      using w2(1) block_loop_reaches [OF inner _ reachesD(2) [OF a(1)] a(2)] reachesD(2) [OF a(1)]
      by (cases "mode = POLL_BLOCK") (simp_all add: reaches_refl)
    then have "reaches shr B T (rpc_inv R T (insert t P)) w w2" using reaches_trans r0 a(1) by blast
    then show ?thesis unfolding w2(2) by (rule rpc_reaches_less) blast
  qed
qed

end

text \<open>The runtime as the framework sees it, through the descriptor \<^verbatim>\<open>rpc_runtime.c\<close> ends with, in a program that
  links this runtime alone; the waits inside it see \<open>E\<close>.\<close>

definition rpc_env :: "'n rpc_io \<Rightarrow> 'n rpc env \<Rightarrow> thread \<Rightarrow> ('n rpc world \<Rightarrow> 'n rpc world) \<Rightarrow> 'n rpc env" where
  "rpc_env Io E th others =
    \<lparr>rt_poll = (\<lambda>rt t mode w. if rt = io_runtime Io then rpc_poll Io E th t mode w
                else Inl (Fatal ''call through a null pointer'')),
     rt_submit = (\<lambda>rt th1 t meta run staged_args nargs w.
       if rt = io_runtime Io then rpc_submit Io th1 t meta (io_body Io run) staged_args w
       else Inl (Fatal ''call through a null pointer'')),
     rt_changed = others\<rparr>"

sublocale rpc_linked \<subseteq> runtime_contract shr B T "rpc_inv R T P" "rpc_env Io E th others" for P
proof unfold_locales
  fix w :: "'n rpc world" and rt t mode d w'
  assume "rpc_inv R T P w" "fw_inv (fst w)" "t_runtime (tasks (tk (fst w)) t) = rt" "rt \<noteq> Join_Runtime"
    "rt_poll (rpc_env Io E th others) rt t mode w = Inr (d, w')"
  then show "reaches shr B T (rpc_inv R T P) w w'" using rpc_poll_calm [of P w t mode d w'] by (simp add: rpc_env_def split: if_splits)
next
  fix w :: "'n rpc world"
  assume "rpc_inv R T P w" "fw_inv (fst w)"
  then show "reaches shr B T (rpc_inv R T P) w (rt_changed (rpc_env Io E th others) w)"
    using others_calm by (simp add: rpc_env_def)
next
  fix w :: "'n rpc world" and s'
  assume "rpc_inv R T P w" "own_step T (fst w) s'"
  then show "rpc_inv R T P (s', snd w)" by (rule rpc_inv_own)
qed

context rpc_linked
begin

lemma contract: "runtime_contract shr B T (rpc_inv R T P) (rpc_env Io E th others)"
  by (rule runtime_contract_axioms)

end

text \<open>The runtime over itself: waits nest at most \<open>depth\<close> deep.\<close>

fun rpc_tower :: "'n rpc_io \<Rightarrow> thread \<Rightarrow> ('n rpc world \<Rightarrow> 'n rpc world) \<Rightarrow> nat \<Rightarrow> 'n rpc env" where
  "rpc_tower Io th others 0 = \<lparr>rt_poll = (\<lambda>_ _ _ _. Inl No_Return), rt_submit = (\<lambda>_ _ _ _ _ _ _ _. Inl No_Return),
     rt_changed = others\<rparr>"
| "rpc_tower Io th others (Suc depth) = rpc_env Io (rpc_tower Io th others depth) th others"

text \<open>What other threads do while this one sleeps or waits for a request's lock.\<close>

definition rpc_others_calm :: "bool \<Rightarrow> zptr set \<Rightarrow> addr set \<Rightarrow> runtime_ref \<Rightarrow> 'n rpc_io \<Rightarrow> ('n rpc world \<Rightarrow> 'n rpc world) \<Rightarrow> bool" where
  "rpc_others_calm shr B T R Io others \<longleftrightarrow> (\<forall>P w. rpc_inv R T P w \<and> fw_inv (fst w) \<longrightarrow>
     reaches shr B T (rpc_inv R T P) w (others w) \<and> (\<forall>r. reaches shr B T (rpc_inv R T P) w (io_lock Io r w)))"

lemma rpc_others_calmD:
  assumes "rpc_others_calm shr B T R Io others" and "rpc_inv R T P w" and "fw_inv (fst w)"
  shows "reaches shr B T (rpc_inv R T P) w (others w)" and "reaches shr B T (rpc_inv R T P) w (io_lock Io r w)"
  using assms unfolding rpc_others_calm_def by blast+

lemma rpc_tower_contract:
  assumes "rpc_others_calm shr B T R Io others"
  shows "runtime_contract shr B T (rpc_inv R T P) (rpc_tower Io th others depth)"
proof (induction depth arbitrary: P)
  case 0
  show ?case
    by unfold_locales (simp_all add: rpc_others_calmD(1) [OF assms] rpc_inv_own)
next
  case (Suc depth)
  have "rpc_linked shr B T R Io (rpc_tower Io th others depth) others"
    by (rule rpc_linked.intro) (rule Suc, (rule rpc_others_calmD [OF assms], assumption+)+)
  from rpc_linked.contract [OF this] show ?case by simp
qed

text \<open>Where no other thread runs, the law holds.\<close>

lemma alone_calm: "(\<And>r w. io_lock Io r w = w) \<Longrightarrow> rpc_others_calm shr B T R Io id"
  by (auto simp: rpc_others_calm_def reaches_refl)

lemma demo_io_lock: "io_lock demo_io r w = w"
  by (simp add: demo_io_def)

interpretation demo_tower: rpc_linked shr B T R demo_io "rpc_tower demo_io th id depth" th id for shr B T R th depth
  by (rule rpc_linked.intro)
    (rule rpc_tower_contract [OF alone_calm], rule demo_io_lock, (rule rpc_others_calmD [OF alone_calm], rule demo_io_lock, assumption+)+)

section \<open>The runtime's contract and its submissions\<close>

text \<open>C18. The rpc runtime implements the contract the framework's waits are verified against, however deep
  its waits for payloads nest: a poll changes the framework only by steps that leave the calling
  thread's own tasks running with their marks and lock requests, and a task being polled stays
  this runtime's own until the poll returns.\<close>

theorem rpc_meets_contract:
  assumes "rpc_others_calm shr B T R Io others"
  shows "runtime_contract shr B T (rpc_inv R T P) (rpc_tower Io th others depth)"
  by (rule rpc_tower_contract [OF assms])

text \<open>The world in which a submitted request starts: it is its task's runtime data.\<close>

definition rpc_started :: "addr \<Rightarrow> addr \<Rightarrow> addr list \<Rightarrow> rpc_request \<Rightarrow> int \<Rightarrow> 'n \<Rightarrow> 'n rpc world \<Rightarrow> 'n rpc world" where
  "rpc_started t r rest q fd n w0 = set_net n (upd_request r (\<lambda>q. q\<lparr>rr_fd := fd\<rparr>) (upd_fw (set_runtime_data t r)
     (upd_rpc (\<lambda>p. p\<lparr>request_answers := rest, requests := (requests p)(r := q)\<rparr>) w0)))"

lemma rpc_submit_cases:
  assumes "filc_async_run th t run args w = Inr (x, w0)" and "rpc_submit Io th t meta run args w = Inr w'"
  obtains r rest q fd n e what where "r \<noteq> 0" "\<not> rr_done q"
    "rpc_finish Io th t r e (rpc_started t r rest q fd n w0) = Inr w' \<or>
     advance Io th t r (rpc_started t r rest q fd n w0) = Inr (what, w')"
proof -
  obtain r rest where r: "request_answers (snd w0) = r # rest" "r \<noteq> 0"
    using assms(2) by (auto simp: rpc_submit_def assms(1) split: list.splits if_splits)
  note v_def = rpc_started_def
  let ?args = "staged (tk (fst w0)) args"
  define Q where "Q = (\<lambda>p1. case op_of (m_opts meta) of
       OP_STEP \<Rightarrow> Inr (request_zero\<lparr>rr_command := ''STEP'' @ [CHR 0x0A], rr_value := zaddr p1\<rparr>)
     | OP_GET \<Rightarrow> Inr (request_zero\<lparr>rr_command := ''GET'' @ [CHR 0x0A], rr_value := zaddr p1\<rparr>)
     | _ \<Rightarrow> res_bind (arg_word ?args 2) (\<lambda>len. Inr (request_zero\<lparr>rr_payload := p1, rr_payload_len := len,
           rr_command := snprintf 32 (put_command (unat len))\<rparr>) :: rpc_request outcome))"
  define K where "K = (\<lambda>q port. let w1 = upd_rpc (\<lambda>p. p\<lparr>request_answers := rest, requests := (requests p)(r := q)\<rparr>) w0;
         w2 = upd_fw (set_runtime_data t r) w1 in
     case io_socket Io (net (snd w2)) of
       (Inl e, n) \<Rightarrow> rpc_finish Io th t r (- e) (set_net n (upd_request r (\<lambda>q. q\<lparr>rr_fd := - 1\<rparr>) w2))
     | (Inr fd, n) \<Rightarrow>
         (case io_connect Io fd (ucast (port :: u64)) n of
            (e, n1) \<Rightarrow>
              let w3 = set_net n1 (upd_request r (\<lambda>q. q\<lparr>rr_fd := fd\<rparr>) w2) in
              if e \<noteq> 0 \<and> e \<noteq> EINPROGRESS then rpc_finish Io th t r (- e) w3
              else map_sum id snd (advance Io th t r w3)))"
  have "res_bind (arg_ptr ?args 1) (\<lambda>p1. res_bind (Q p1) (\<lambda>q. res_bind (arg_word ?args 0) (K q))) = Inr w'"
    using assms(2) unfolding rpc_submit_def assms(1) res_bind_simps prod.case r(1) list.case if_not_P [OF r(2)] Let_def Q_def K_def .
  then obtain p1 q port where q: "Q p1 = Inr q" and k: "K q port = Inr w'" unfolding res_bind_Inr by blast
  have nd: "\<not> rr_done q" using q by (cases "op_of (m_opts meta)") (auto simp: Q_def request_zero_def)
  have "\<exists>e fd n what. rpc_finish Io th t r e (rpc_started t r rest q fd n w0) = Inr w' \<or> advance Io th t r (rpc_started t r rest q fd n w0) = Inr (what, w')"
  proof (cases "io_socket Io (net (snd w0))")
    case (Pair x n)
    show ?thesis
    proof (cases x)
      case (Inl e)
      then have "rpc_finish Io th t r (- e) (rpc_started t r rest q (- 1) n w0) = Inr w'" using k by (simp add: K_def Let_def Pair v_def)
      then show ?thesis by blast
    next
      case (Inr fd)
      obtain e n1 where c: "io_connect Io fd (ucast port) n = (e, n1)" by (rule prod.exhaust)
      have "(if e \<noteq> 0 \<and> e \<noteq> EINPROGRESS then rpc_finish Io th t r (- e) (rpc_started t r rest q fd n1 w0)
          else map_sum id snd (advance Io th t r (rpc_started t r rest q fd n1 w0))) = Inr w'"
        using k by (simp add: K_def Let_def Pair Inr c v_def split del: if_split cong: if_cong)
      then have "rpc_finish Io th t r (- e) (rpc_started t r rest q fd n1 w0) = Inr w' \<or> (\<exists>what. advance Io th t r (rpc_started t r rest q fd n1 w0) = Inr (what, w'))"
        by (cases "advance Io th t r (rpc_started t r rest q fd n1 w0)") (auto split: if_splits)
      then show ?thesis by blast
    qed
  qed
  then show thesis using that [OF r(2) nd] by blast
qed

text \<open>A submission to the rpc runtime gives the task its request, keeps the invariant the waits rest on, and
  leaves the request done only when the task has been completed.\<close>

theorem rpc_submit_keeps:
  assumes "filc_async_run th t run args w = Inr (x, w0)" and "rpc_inv R T {} w0" and "fw_reach shr (fst w0)"
    and "t \<noteq> 0" and "t_runtime (tasks (tk (fst w0)) t) = R" and "handed_over T (fst w0) t"
    and "rpc_submit Io th t meta run args w = Inr w'"
  shows "fw_reach shr (fst w') \<and> rpc_inv R T {t} w' \<and> task_runtime_data (fst w') t \<noteq> 0 \<and>
    (rr_done (requests (snd w') (task_runtime_data (fst w') t)) \<longrightarrow> task_state (fst w') t \<noteq> 1)"
proof -
  obtain r rest q fd n e what where r: "r \<noteq> 0" and nd: "\<not> rr_done q"
    and e: "rpc_finish Io th t r e (rpc_started t r rest q fd n w0) = Inr w' \<or>
      advance Io th t r (rpc_started t r rest q fd n w0) = Inr (what, w')"
    by (rule rpc_submit_cases [OF assms(1,7)])
  let ?v = "rpc_started t r rest q fd n w0"
  have fv: "fst ?v = set_runtime_data t r (fst w0)" "\<not> rr_done (requests (snd ?v) r)" using nd by (simp_all add: rpc_started_def)
  have nj: "\<not> is_join (fst w0) t" using assms(2,5) by (simp add: rpc_inv_def is_join_def)
  have tk: "t_runtime (tasks (tk (fst ?v)) u) = t_runtime (tasks (tk (fst w0)) u)"
    "task_runtime_data (fst ?v) u = (if u = t then r else task_runtime_data (fst w0) u)"
    "handed_over T (fst ?v) u = handed_over T (fst w0) u" for u
    unfolding fv by (simp_all add: set_runtime_data_def task_runtime_data_def handed_over_def no_request_def)
  have inv: "rpc_inv R T {t} ?v" using assms(2,5,6) by (simp add: rpc_inv_def tk)
  have s0: "(fw_step shr)\<^sup>*\<^sup>* (fst w0) (fst ?v)" unfolding fv by (intro r_into_rtranclp fw_step.set_data nj)
  have sv: "serves t ?v w'" using e rpc_finish_serves advance_serves by blast
  note a = polled_advance [OF inv fw_reach_inv [OF fw_steps_reach [OF s0 assms(3)]] sv]
  have "fw_reach shr (fst w')"
    using fw_steps_reach [OF rtranclp_trans [OF s0 calm_steps [OF reachesD(1) [OF a(1)]]] assms(3)] .
  moreover have d: "task_runtime_data (fst w') t = r"
    using completes_frame [OF completes_of_all [OF sv [unfolded serves_def]], of t] by (simp add: tk)
  moreover have "rr_done (requests (snd w') r) \<longrightarrow> task_state (fst w') t \<noteq> 1"
    using e
  proof
    assume "rpc_finish Io th t r e ?v = Inr w'"
    from rpc_finish_spec [OF this] show ?thesis using complete_frame(1) assms(4) by blast
  next
    assume "advance Io th t r ?v = Inr (what, w')"
    from rpc_advance_completes [OF this] show ?thesis using complete_frame(1) assms(4) fv(2) by (cases "what = 0") auto
  qed
  ultimately show ?thesis using reachesD(2) [OF a(1)] r by simp
qed

section \<open>Witness\<close>

theorem rpc_meets_contract_witness:
  "runtime_contract True {demo_buf} {} (rpc_inv (Linked 0x9000) {} {0x100}) (rpc_tower demo_io demo_thread id 2)"
  by (rule rpc_meets_contract [OF alone_calm]) (rule demo_io_lock)

end
