(* ===== verification/Annotations.thy ===== *)
theory Annotations
  imports PassRuns UringRuns Rpc
begin

text \<open>
  The annotation macros (\<^verbatim>\<open>filc_async_annotate.h\<close>) and the annotated functions of the demos
  (\<^verbatim>\<open>pragma_io.hh\<close>, \<^verbatim>\<open>rpc_upload.hh\<close>, \<^verbatim>\<open>demo_rpc_counter.c\<close>, \<^verbatim>\<open>demo_pragma_hello.c\<close>,
  \<^verbatim>\<open>demo_pragma_wait-all.c\<close>): what the pass reads from what the macros write, and that every one
  of these functions is registered by its runtime at startup.
\<close>

section \<open>The macros\<close>

text \<open>The option macros, each with the names it is given; \<open>#name\<close> is the name's own string.\<close>

datatype filc_option =
    FILC_OP string
  | FILC_BIN string
  | FILC_BOUT string
  | FILC_BUF string
  | FILC_R_DEP string string
  | FILC_W_DEP string string
  | FILC_OPTION string string

fun option_text :: "filc_option \<Rightarrow> string" where
  "option_text (FILC_OP op) = ''op='' @ op"
| "option_text (FILC_BIN p) = ''bin='' @ p"
| "option_text (FILC_BOUT p) = ''bout='' @ p"
| "option_text (FILC_BUF p) = ''buf='' @ p"
| "option_text (FILC_R_DEP p ns) = ''r_dep='' @ p @ '':'' @ ns"
| "option_text (FILC_W_DEP p ns) = ''w_dep='' @ p @ '':'' @ ns"
| "option_text (FILC_OPTION key val) = key @ ''='' @ val"

text \<open>The arguments of the annotation \<open>filc_async\<close>.\<close>

definition FILC_ASYNC :: "string \<Rightarrow> filc_option list \<Rightarrow> string list" where
  "FILC_ASYNC runtime options = (''runtime='' @ runtime) # map option_text options"

section \<open>What the pass reads back\<close>

definition reserved_keys :: "string list" where
  "reserved_keys = [''runtime'', ''op'', ''fd'', ''bin'', ''bout'', ''buf'', ''r_dep'', ''w_dep'', ''read_dep'', ''write_dep'']"

text \<open>The arguments of a macro are C names; a key of \<open>FILC_OPTION\<close> is none the pass or a runtime reads
  itself.\<close>

fun option_wf :: "filc_option \<Rightarrow> bool" where
  "option_wf (FILC_OP op) = c_identifier op"
| "option_wf (FILC_BIN p) = c_identifier p"
| "option_wf (FILC_BOUT p) = c_identifier p"
| "option_wf (FILC_BUF p) = c_identifier p"
| "option_wf (FILC_R_DEP p ns) = (c_identifier p \<and> c_identifier ns)"
| "option_wf (FILC_W_DEP p ns) = (c_identifier p \<and> c_identifier ns)"
| "option_wf (FILC_OPTION key val) = (c_identifier key \<and> key \<notin> set reserved_keys)"

fun option_meaning :: "filc_option \<Rightarrow> option_token" where
  "option_meaning (FILC_OP op) = Other_Token"
| "option_meaning (FILC_BIN p) = Kind_Token ARG_BUFFER_IN p"
| "option_meaning (FILC_BOUT p) = Kind_Token ARG_BUFFER_OUT p"
| "option_meaning (FILC_BUF p) = Kind_Token ARG_PENDING p"
| "option_meaning (FILC_R_DEP p ns) = Dep_Token DEP_READ (p @ '':'' @ ns)"
| "option_meaning (FILC_W_DEP p ns) = Dep_Token DEP_WRITE (p @ '':'' @ ns)"
| "option_meaning (FILC_OPTION key val) = Other_Token"

lemma identifier_chars: "c_identifier n \<Longrightarrow> c \<in> set n \<Longrightarrow> isAlnum c \<or> c = CHR ''_''"
  by (auto simp: c_identifier_def list_all_iff)

lemma identifier_no_punct: "c_identifier n \<Longrightarrow> CHR '':'' \<notin> set n \<and> CHR ''='' \<notin> set n"
proof -
  assume n: "c_identifier n"
  have "\<not> (isAlnum c \<or> c = CHR ''_'')" if "c = CHR '':'' \<or> c = CHR ''=''" for c
    using that by (elim disjE) (simp_all add: isAlnum_def isDigit_def of_char_def)
  then show ?thesis using identifier_chars [OF n] by blast
qed

lemma identifier_nonempty: "c_identifier n \<Longrightarrow> n \<noteq> []"
  by (simp add: c_identifier_def)

text \<open>A key followed by \<open>=\<close> starts with another such key only if they are the same.\<close>

lemma starts_with_key:
  assumes "CHR ''='' \<notin> set key" and "CHR ''='' \<notin> set k"
  shows "starts_with (k @ ''='') (key @ ''='' @ val) = (key = k)"
proof
  assume "starts_with (k @ ''='') (key @ ''='' @ val)"
  then obtain rest where e: "key @ ''='' @ val = k @ ''='' @ rest"
    unfolding starts_with_def by (metis append.assoc append_take_drop_id)
  then have "takeWhile (\<lambda>c. c \<noteq> CHR ''='') (key @ ''='' @ val) = takeWhile (\<lambda>c. c \<noteq> CHR ''='') (k @ ''='' @ rest)" by simp
  moreover have "takeWhile (\<lambda>c. c \<noteq> CHR ''='') (n @ ''='' @ v) = n" if "CHR ''='' \<notin> set n" for n v
    using that by (induction n) auto
  ultimately show "key = k" using assms by simp
qed (simp add: starts_with_def)

lemma arg_token_key:
  assumes "CHR ''='' \<notin> set key" and "key \<notin> set reserved_keys"
  shows "arg_token (key @ ''='' @ val) = Other_Token"
proof -
  note k = starts_with_key [OF assms(1)]
  show ?thesis
    using k [of "''fd''" val] k [of "''bin''" val] k [of "''bout''" val] k [of "''buf''" val] k [of "''r_dep''" val]
      k [of "''w_dep''" val] k [of "''read_dep''" val] k [of "''write_dep''" val] assms(2)
    by (simp add: arg_token_def reserved_keys_def)
qed

lemma option_text_token: "option_wf a \<Longrightarrow> arg_token (option_text a) = option_meaning a"
proof (induction a)
  case (FILC_OPTION key val)
  then show ?case using arg_token_key [of key val] identifier_no_punct by simp
qed (simp_all add: arg_token_def starts_with_def)


lemma key_prefix: "starts_with ''runtime='' (option_text a) \<Longrightarrow> option_wf a \<Longrightarrow> False"
proof (cases a)
  case (FILC_OPTION key val)
  assume "starts_with ''runtime='' (option_text a)" "option_wf a"
  then show False using starts_with_key [of key "''runtime''" val] identifier_no_punct [of key]
    by (auto simp: FILC_OPTION reserved_keys_def)
qed (simp_all add: starts_with_def)

lemma macro_runtime:
  assumes "c_identifier rt" and "list_all option_wf as"
  shows "parse_runtime (FILC_ASYNC rt as) = Inr rt"
proof -
  have "runtime_options (map option_text as) name = (if name = [] then Inl No_Runtime_Option else Inr name)" for name
    using assms(2)
  proof (induction as arbitrary: name)
    case (Cons a as)
    then have "\<not> starts_with ''runtime='' (option_text a)" using key_prefix by auto
    then show ?case using Cons by simp
  qed simp
  then show ?thesis
    using assms(1) identifier_nonempty [OF assms(1)]
    by (simp add: parse_runtime_def FILC_ASYNC_def starts_with_def)
qed

fun first_op :: "filc_option list \<Rightarrow> string option" where
  "first_op [] = None"
| "first_op (FILC_OP op # as) = Some op"
| "first_op (_ # as) = first_op as"

lemma op_key: "option_wf a \<Longrightarrow> take 3 (option_text a) = ''op='' \<longleftrightarrow> (\<exists>op. a = FILC_OP op)"
proof (cases a)
  case (FILC_OPTION key val)
  assume "option_wf a"
  then have "\<not> starts_with (''op'' @ ''='') (option_text a)"
    using starts_with_key [of key "''op''" val] identifier_no_punct [of key] by (auto simp: FILC_OPTION reserved_keys_def)
  moreover have "length (''op'' @ ''='') = 3" by simp
  ultimately have "take 3 (option_text a) \<noteq> ''op=''" unfolding starts_with_def by (simp add: numeral_3_eq_3)
  then show ?thesis by (simp add: FILC_OPTION)
qed simp_all

lemma macro_op:
  assumes "list_all option_wf as"
  shows "op_from (FILC_ASYNC rt as) = (case first_op as of Some op \<Rightarrow> op_value op | None \<Rightarrow> URING_OP_UNKNOWN)"
proof -
  have "op_from (map option_text as) = (case first_op as of Some op \<Rightarrow> op_value op | None \<Rightarrow> URING_OP_UNKNOWN)"
    using assms
  proof (induction as)
    case (Cons a as)
    then have wf: "option_wf a" by simp
    show ?case
    proof (cases "\<exists>op. a = FILC_OP op")
      case False
      then have "take 3 (option_text a) \<noteq> ''op=''" using op_key [OF wf] by blast
      then show ?thesis using Cons False by (cases a) auto
    qed auto
  qed simp
  then show ?thesis by (simp add: FILC_ASYNC_def)
qed

text \<open>A dependency's parameter ends at the colon the macro writes.\<close>

lemma macro_dep:
  assumes "c_identifier p" and "c_identifier ns"
  shows "dep_param opt (p @ '':'' @ ns) = Inr p"
proof -
  have "takeWhile (\<lambda>c. c \<noteq> CHR '':'') (p @ '':'' @ ns) = p" "drop 1 (dropWhile (\<lambda>c. c \<noteq> CHR '':'') (p @ '':'' @ ns)) = ns"
    using identifier_no_punct [OF assms(1)] by (induction p) auto
  then show ?thesis using identifier_nonempty [OF assms(2)] by (simp add: dep_param_def)
qed

text \<open>What the annotation macros write, the compiler and the runtimes read back: the pass finds
  the runtime the annotation names, each buffer option its parameter and direction, each
  dependency its parameter, namespace and mode, and an operation or an option meant for the
  runtime is no argument option; the io_uring runtime finds the operation.\<close>

theorem macros_read_back:
  assumes "c_identifier rt" and "list_all option_wf as"
  shows "parse_runtime (FILC_ASYNC rt as) = Inr rt \<and>
    map arg_token (FILC_ASYNC rt as) = Other_Token # map option_meaning as \<and>
    (\<forall>p ns. FILC_R_DEP p ns \<in> set as \<or> FILC_W_DEP p ns \<in> set as \<longrightarrow> (\<forall>opt. dep_param opt (p @ '':'' @ ns) = Inr p)) \<and>
    op_from (FILC_ASYNC rt as) = (case first_op as of Some op \<Rightarrow> op_value op | None \<Rightarrow> URING_OP_UNKNOWN)"
proof -
  have t: "arg_token (''runtime='' @ rt) = Other_Token" by (simp add: arg_token_def starts_with_def)
  have m: "map (arg_token \<circ> option_text) as = map option_meaning as"
    using assms(2) option_text_token by (auto simp: list_all_iff)
  have "map arg_token (FILC_ASYNC rt as) = Other_Token # map option_meaning as"
    unfolding FILC_ASYNC_def list.map t list.map_comp m ..
  moreover have "dep_param opt (p @ '':'' @ ns) = Inr p"
    if "FILC_R_DEP p ns \<in> set as \<or> FILC_W_DEP p ns \<in> set as" for p ns opt
  proof -
    have "c_identifier p \<and> c_identifier ns" using assms(2) that by (auto simp: list_all_iff)
    then show ?thesis using macro_dep by blast
  qed
  ultimately show ?thesis using macro_runtime [OF assms] macro_op [OF assms(2)] by blast
qed

section \<open>The annotated functions of the demos\<close>

text \<open>An annotated C function: its name and type, its parameters with their names, types and whether
  they point to \<open>const\<close>, and the annotation.\<close>

record annotated =
  an_name :: string
  an_ret :: ir_type
  an_params :: "(string \<times> ir_type \<times> bool) list"
  an_opts :: "string list"

text \<open>The function as the patched compiler hands it to the pass.\<close>

definition an_func :: "annotated \<Rightarrow> ir_func" where
  "an_func a = \<lparr>f_type = \<lparr>ft_ret = an_ret a, ft_params = map (\<lambda>(_, ty, _). ty) (an_params a), ft_vararg = False\<rparr>,
     f_arg_names = map (\<lambda>_. []) (an_params a),
     f_params_md = Some (map (\<lambda>(n, _, _). Some n) (an_params a)),
     f_const_md = Some (map (\<lambda>(_, _, c). Some (if c then 1 else 0)) (an_params a)),
     f_declaration = False, f_linkage = External_Linkage, f_visibility = 0\<rparr>"

definition an_meta :: "(string \<Rightarrow> addr) \<Rightarrow> annotated \<Rightarrow> pass_error + filc_async_meta" where
  "an_meta link a = pass_bind (parse_kinds (an_func a) (an_opts a)) (emit_meta link (an_func a) (an_name a) (an_opts a))"

definition async_openat :: annotated where
  "async_openat = \<lparr>an_name = ''async_openat'', an_ret = Ptr_Ty,
     an_params = [(''dirfd'', Int_Ty 32, False), (''path'', Ptr_Ty, True), (''flags'', Int_Ty 32, False), (''mode'', Int_Ty 32, False)],
     an_opts = FILC_ASYNC ''io_uring'' [FILC_OP ''openat'']\<rparr>"

definition async_pread :: annotated where
  "async_pread = \<lparr>an_name = ''async_pread'', an_ret = Ptr_Ty,
     an_params = [(''fd'', Int_Ty 32, False), (''buf'', Ptr_Ty, False), (''len'', Int_Ty 64, False), (''offset'', Int_Ty 64, False)],
     an_opts = FILC_ASYNC ''io_uring'' [FILC_OP ''pread'', FILC_R_DEP ''fd'' ''file'', FILC_W_DEP ''buf'' ''mem'']\<rparr>"

definition async_pwrite :: annotated where
  "async_pwrite = \<lparr>an_name = ''async_pwrite'', an_ret = Ptr_Ty,
     an_params = [(''fd'', Int_Ty 32, False), (''buf'', Ptr_Ty, True), (''len'', Int_Ty 64, False), (''offset'', Int_Ty 64, False)],
     an_opts = FILC_ASYNC ''io_uring'' [FILC_OP ''pwrite'', FILC_W_DEP ''fd'' ''file'']\<rparr>"

definition async_fsync :: annotated where
  "async_fsync = \<lparr>an_name = ''async_fsync'', an_ret = Ptr_Ty, an_params = [(''fd'', Int_Ty 32, False)],
     an_opts = FILC_ASYNC ''io_uring'' [FILC_OP ''fsync'', FILC_W_DEP ''fd'' ''file'']\<rparr>"

definition async_close :: annotated where
  "async_close = \<lparr>an_name = ''async_close'', an_ret = Ptr_Ty, an_params = [(''fd'', Int_Ty 32, False)],
     an_opts = FILC_ASYNC ''io_uring'' [FILC_OP ''close'', FILC_W_DEP ''fd'' ''file'']\<rparr>"

definition read_block :: annotated where
  "read_block = \<lparr>an_name = ''read_block'', an_ret = Ptr_Ty,
     an_params = [(''fd'', Int_Ty 32, False), (''buf'', Ptr_Ty, False), (''len'', Int_Ty 64, False), (''offset'', Int_Ty 64, False)],
     an_opts = FILC_ASYNC ''io_uring'' [FILC_OP ''pread'']\<rparr>"

definition read_byte :: annotated where
  "read_byte = \<lparr>an_name = ''read_byte'', an_ret = Ptr_Ty,
     an_params = [(''fd'', Int_Ty 32, False), (''buf'', Ptr_Ty, False), (''len'', Int_Ty 64, False), (''offset'', Int_Ty 64, False)],
     an_opts = FILC_ASYNC ''io_uring'' [FILC_OP ''pread'']\<rparr>"

text \<open>\<open>prov_tag\<close> is a pointer type.\<close>

definition write_byte :: annotated where
  "write_byte = \<lparr>an_name = ''write_byte'', an_ret = Ptr_Ty,
     an_params = [(''fd'', Int_Ty 32, False), (''buf'', Ptr_Ty, True), (''len'', Int_Ty 64, False), (''offset'', Int_Ty 64, False),
       (''after'', Ptr_Ty, False)],
     an_opts = FILC_ASYNC ''io_uring'' [FILC_OP ''pwrite'']\<rparr>"

definition upload :: annotated where
  "upload = \<lparr>an_name = ''upload'', an_ret = Ptr_Ty,
     an_params = [(''port'', Int_Ty 32, False), (''data'', Ptr_Ty, True), (''len'', Int_Ty 64, False)],
     an_opts = FILC_ASYNC ''rpc'' [FILC_OP ''put'']\<rparr>"

definition step_call :: annotated where
  "step_call = \<lparr>an_name = ''step'', an_ret = Void_Ty,
     an_params = [(''port'', Int_Ty 32, False), (''value'', Ptr_Ty, False)],
     an_opts = FILC_ASYNC ''rpc'' [FILC_OP ''step'', FILC_W_DEP ''port'' ''counter'']\<rparr>"

definition get_call :: annotated where
  "get_call = \<lparr>an_name = ''get'', an_ret = Void_Ty,
     an_params = [(''port'', Int_Ty 32, False), (''value'', Ptr_Ty, False)],
     an_opts = FILC_ASYNC ''rpc'' [FILC_OP ''get'', FILC_R_DEP ''port'' ''counter'']\<rparr>"

lemmas annotated_defs = async_openat_def async_pread_def async_pwrite_def async_fsync_def async_close_def
  read_block_def read_byte_def write_byte_def upload_def step_call_def get_call_def

definition demo_calls :: "annotated list" where
  "demo_calls = [async_openat, async_pread, async_pwrite, async_fsync, async_close, read_block, read_byte, write_byte,
     upload, step_call, get_call]"

lemmas an_eval = an_func_def parse_kinds_def parse_option_def parse_dep_def find_param_def
  param_names_def const_params_def vec_resize_def default_kind_def dep_type_ok_def arg_consts FILC_ASYNC_def
  dep_param_def arg_token_def starts_with_def DEP_NONE_def

section \<open>What the rpc runtime registers\<close>

definition rpc_shape :: "rpc_op \<Rightarrow> u32 list \<Rightarrow> bool" where
  "rpc_shape op ks =
    (case op of
       OP_NONE \<Rightarrow> False
     | OP_PUT \<Rightarrow> ks = [0, 2, 0]
     | _ \<Rightarrow> ks = [0, 3] \<or> ks = [0, 5])"

lemma rpc_validate_shape:
  assumes "meta_wf m"
  shows "rpc_validate m = rpc_shape (op_of (m_opts m)) (map a_kind (m_args m))"
proof -
  let ?as = "m_args m"
  have len: "unat (m_nargs m) = length ?as" using assms by (simp add: meta_wf_def)
  have n: "(m_nargs m = 3) = (length ?as = 3)" "(m_nargs m = 2) = (length ?as = 2)"
    unfolding word_unat_eq_iff len by simp_all
  show ?thesis
    by (cases "op_of (m_opts m)") (auto simp: rpc_validate_def rpc_shape_def n len arg_kinds length_Suc_conv numeral_2_eq_2 numeral_3_eq_3)
qed

section \<open>Registration\<close>

text \<open>What startup asks the runtimes of a program that links both of them.\<close>

definition demo_validate :: "(string \<Rightarrow> addr) \<Rightarrow> runtime_ref \<Rightarrow> validator" where
  "demo_validate link r m =
    (if r = Linked (link ''filc_async_runtime_io_uring'') then uring_validate (Some m)
     else if r = Linked (link ''filc_async_runtime_rpc'') then rpc_validate m
     else False)"

lemma an_registered:
  assumes n: "length (an_params a) < 2 ^ 32"
    and p: "parse_kinds (an_func a) (an_opts a) = Inr P" "p_noped P = 0"
    and r: "parse_runtime (an_opts a) = Inr rt"
    and s: "rt = ''io_uring'' \<and> op_shape (op_from (an_opts a)) (p_kinds P) \<or>
      rt = ''rpc'' \<and> rpc_shape (op_of (an_opts a)) (p_kinds P) \<and>
      link ''filc_async_runtime_io_uring'' \<noteq> link ''filc_async_runtime_rpc''"
  shows "\<exists>m. an_meta link a = Inr m \<and> meta_wf m \<and> meta_ok None (demo_validate link) m"
proof -
  have wf: "func_wf (an_func a)" by (simp add: func_wf_def an_func_def)
  have n': "f_nargs (an_func a) < 2 ^ 32" using n by (simp add: an_func_def)
  obtain m where m: "emit_meta link (an_func a) (an_name a) (an_opts a) P = Inr m"
    and f: "m_opts m = an_opts a" "m_noped_args m = 0" "m_runtime m = Linked (link (''filc_async_runtime_'' @ rt))"
    by (simp add: emit_meta_def r p(2))
  note e = emit_meta_parsed [OF wf p(1) m n']
  have "demo_validate link (m_runtime m) m"
    using s uring_validate_shape [OF e(1)] rpc_validate_shape [OF e(1)]
    by (auto simp: demo_validate_def f e(3))
  then have "meta_ok None (demo_validate link) m" using e(2) f by (simp add: meta_ok_def)
  then show ?thesis using p(1) m e(1) by (auto simp: an_meta_def)
qed

lemma table_registered:
  assumes "\<forall>a\<in>set as. \<exists>m. an_meta link a = Inr m \<and> meta_wf m \<and> meta_ok None V m"
  shows "\<exists>metas. map (an_meta link) as = map Inr metas \<and> filc_async_validate_table None V metas = Inr ()"
proof -
  obtain f where f: "\<And>a. a \<in> set as \<Longrightarrow> an_meta link a = Inr (f a) \<and> meta_wf (f a) \<and> meta_ok None V (f a)"
    using assms by metis
  have "map (an_meta link) as = map Inr (map f as)" using f by simp
  moreover have "filc_async_validate_table None V (map f as) = Inr ()"
    using f by (simp add: validate_table_cases)
  ultimately show ?thesis by blast
qed

definition parsed_as :: "annotated \<Rightarrow> string \<Rightarrow> u32 list \<Rightarrow> bool" where
  "parsed_as a rt ks \<longleftrightarrow> parse_runtime (an_opts a) = Inr rt \<and> length (an_params a) < 2 ^ 32 \<and>
     (\<exists>P. parse_kinds (an_func a) (an_opts a) = Inr P \<and> p_noped P = 0 \<and> p_kinds P = ks)"

lemma demo_runtime:
  "c_identifier ''io_uring''" "c_identifier ''rpc''"
  by (simp_all add: c_identifier_def isAlnum_def isDigit_def of_char_def)

lemma demo_parsed:
  "parsed_as async_openat ''io_uring'' [0, 2, 0, 0]" "parsed_as async_pread ''io_uring'' [0, 5, 0, 0]"
  "parsed_as async_pwrite ''io_uring'' [0, 2, 0, 0]" "parsed_as async_fsync ''io_uring'' [0]"
  "parsed_as async_close ''io_uring'' [0]" "parsed_as read_block ''io_uring'' [0, 5, 0, 0]"
  "parsed_as read_byte ''io_uring'' [0, 5, 0, 0]" "parsed_as write_byte ''io_uring'' [0, 2, 0, 0, 5]"
  "parsed_as upload ''rpc'' [0, 2, 0]" "parsed_as step_call ''rpc'' [0, 5]" "parsed_as get_call ''rpc'' [0, 5]"
  by (simp_all add: parsed_as_def an_eval annotated_defs parse_runtime_def demo_runtime)

lemma demo_ops_read:
  "op_from (an_opts async_openat) = URING_OP_OPENAT" "op_from (an_opts async_pread) = URING_OP_READ"
  "op_from (an_opts async_pwrite) = URING_OP_WRITE" "op_from (an_opts async_fsync) = URING_OP_FSYNC"
  "op_from (an_opts async_close) = URING_OP_CLOSE" "op_from (an_opts read_block) = URING_OP_READ"
  "op_from (an_opts read_byte) = URING_OP_READ" "op_from (an_opts write_byte) = URING_OP_WRITE"
  "op_of (an_opts upload) = OP_PUT" "op_of (an_opts step_call) = OP_STEP" "op_of (an_opts get_call) = OP_GET"
  by (simp_all add: annotated_defs FILC_ASYNC_def op_value_def streq_def)

lemma parsed_registered:
  assumes "parsed_as a rt ks"
    and "rt = ''io_uring'' \<and> op_shape (op_from (an_opts a)) ks \<or>
      rt = ''rpc'' \<and> rpc_shape (op_of (an_opts a)) ks \<and> link ''filc_async_runtime_io_uring'' \<noteq> link ''filc_async_runtime_rpc''"
  shows "\<exists>m. an_meta link a = Inr m \<and> meta_wf m \<and> meta_ok None (demo_validate link) m"
  using assms an_registered unfolding parsed_as_def by blast

text \<open>C38. Every annotated function of the demos is accepted from end to end: the pass reads its
  annotation, its descriptor passes the startup check, and the runtime it names, io_uring or
  rpc, registers it, in a program that links both.\<close>

theorem demo_calls_registered:
  assumes "link ''filc_async_runtime_io_uring'' \<noteq> link ''filc_async_runtime_rpc''"
  shows "\<exists>metas. map (an_meta link) demo_calls = map Inr metas \<and>
    filc_async_validate_table None (demo_validate link) metas = Inr ()"
proof (rule table_registered, rule ballI)
  fix a assume a: "a \<in> set demo_calls"
  note k = is_output_kind_def is_input_kind_def arg_kinds
  show "\<exists>m. an_meta link a = Inr m \<and> meta_wf m \<and> meta_ok None (demo_validate link) m"
    using a assms demo_parsed [THEN parsed_registered, of link] unfolding demo_calls_def
    by (auto simp: demo_ops_read rpc_shape_def k)
qed

section \<open>Witnesses\<close>

lemma c_identifiers [simp]:
  "c_identifier ''buf''" "c_identifier ''fd''" "c_identifier ''file''" "c_identifier ''prio''" "c_identifier ''pread''"
  by (simp_all add: c_identifier_def isAlnum_def isDigit_def of_char_def)

theorem macros_read_back_witness:
  "parse_runtime (FILC_ASYNC ''io_uring'' [FILC_BOUT ''buf'', FILC_OPTION ''prio'' ''3'', FILC_OP ''pread'', FILC_R_DEP ''fd'' ''file'']) =
     Inr ''io_uring'' \<and>
   op_from (FILC_ASYNC ''io_uring'' [FILC_BOUT ''buf'', FILC_OPTION ''prio'' ''3'', FILC_OP ''pread'', FILC_R_DEP ''fd'' ''file'']) =
     URING_OP_READ"
proof -
  have "list_all option_wf [FILC_BOUT ''buf'', FILC_OPTION ''prio'' ''3'', FILC_OP ''pread'', FILC_R_DEP ''fd'' ''file'']"
    by (simp add: reserved_keys_def)
  from macros_read_back [OF demo_runtime(1) this] show ?thesis by (simp add: op_value_def streq_def)
qed

theorem demo_calls_registered_witness:
  "\<exists>metas. map (an_meta (\<lambda>s. of_nat (length s))) demo_calls = map Inr metas \<and>
    filc_async_validate_table None (demo_validate (\<lambda>s. of_nat (length s))) metas = Inr ()"
  by (rule demo_calls_registered) simp

end
