(* ===== verification/DepRuns.thy ===== *)
theory DepRuns
  imports Deps
begin

text \<open>
  What the dependency layer of \<^verbatim>\<open>fasync_dep.c\<close> guarantees: which operations conflict, that the
  edges of a batch decode to its conflicts, that the scheduler starts an operation only after
  everything it depends on has been collected, and that it finishes every batch.
\<close>

section \<open>Which accesses meet\<close>

definition accesses_touch :: "fasync_access \<Rightarrow> fasync_access \<Rightarrow> bool" where
  "accesses_touch a b \<longleftrightarrow>
     (if zaddr (fa_buf a) = 0 \<and> zaddr (fa_buf b) = 0 then fa_resource a = fa_resource b
      else zaddr (fa_buf a) \<noteq> 0 \<and> zaddr (fa_buf b) \<noteq> 0 \<and>
        \<not> fasync_ranges_disjoint (fasync_capability_range (fa_buf a) (fa_len a))
             (fasync_capability_range (fa_buf b) (fa_len b)))"

lemma edge_kind_declared: "(edge_kind ka kb \<noteq> 0) = declared_conflict ka kb"
  by (auto simp: edge_kind_def declared_conflict_def)

lemma access_conflict_iff:
  "(fst (fasync_access_conflict a b) \<noteq> 0) = (accesses_touch a b \<and> declared_conflict (fa_kind a) (fa_kind b))"
  by (auto simp: fasync_access_conflict_def accesses_touch_def edge_kind_declared [symmetric])

lemma scan_fold:
  "(strongest (fold scan_pair ps s) \<noteq> 0) =
     (strongest s \<noteq> 0 \<or> (\<exists>(x, y)\<in>set ps. fst (fasync_access_conflict x y) \<noteq> 0))"
  "any_dissolved (fold scan_pair ps s) =
     (any_dissolved s \<or> (\<exists>(x, y)\<in>set ps. declared_conflict (fa_kind x) (fa_kind y) \<and> fst (fasync_access_conflict x y) = 0))"
  "any_declared_conflict (fold scan_pair ps s) =
     (any_declared_conflict s \<or> (\<exists>(x, y)\<in>set ps. declared_conflict (fa_kind x) (fa_kind y) \<and> fst (fasync_access_conflict x y) \<noteq> 0))"
  by (induction ps arbitrary: s) (auto simp: scan_pair_def Let_def split: prod.splits)

lemma touch_sym: "accesses_touch a b = accesses_touch b a"
  by (auto simp: accesses_touch_def fasync_ranges_disjoint_def)

lemma declared_sym: "declared_conflict a b = declared_conflict b a"
  by (auto simp: declared_conflict_def)

definition ops_ordered :: "fasync_op \<Rightarrow> fasync_op \<Rightarrow> bool" where
  "ops_ordered a b \<longleftrightarrow> (\<exists>x\<in>set (op_accesses a). \<exists>y\<in>set (op_accesses b).
     accesses_touch x y \<and> declared_conflict (fa_kind x) (fa_kind y))"

lemma ops_conflict_fst: "fst (fasync_ops_conflict a b) = ops_ordered a b"
  unfolding fasync_ops_conflict_def Let_def fst_conv scan_fold(1) access_conflict_iff
  by (auto simp: access_pairs_def ops_ordered_def)

lemma ops_conflict_snd:
  "snd (fasync_ops_conflict a b) = (\<not> ops_ordered a b \<and>
     (\<exists>x\<in>set (op_accesses a). \<exists>y\<in>set (op_accesses b). declared_conflict (fa_kind x) (fa_kind y)))"
proof -
  have "snd (fasync_ops_conflict a b) =
    ((\<exists>(x, y)\<in>set (access_pairs a b). declared_conflict (fa_kind x) (fa_kind y) \<and> fst (fasync_access_conflict x y) = 0) \<and>
     \<not> (\<exists>(x, y)\<in>set (access_pairs a b). declared_conflict (fa_kind x) (fa_kind y) \<and> fst (fasync_access_conflict x y) \<noteq> 0))"
    by (simp add: fasync_ops_conflict_def Let_def scan_fold)
  also have "\<dots> = (\<not> ops_ordered a b \<and>
     (\<exists>x\<in>set (op_accesses a). \<exists>y\<in>set (op_accesses b). declared_conflict (fa_kind x) (fa_kind y)))"
    unfolding access_conflict_iff ops_ordered_def access_pairs_def using access_conflict_iff by fastforce
  finally show ?thesis .
qed

section \<open>Edges\<close>

lemma op_pairs_bounds: "(i, j) \<in> set (op_pairs n) \<Longrightarrow> i < j \<and> j < n"
  by (auto simp: op_pairs_def)

lemma edge_decode:
  assumes "i < j" "j < n" "n * n \<le> 2 ^ 32"
  shows "edge_from n (edge_code n (i, j)) = i" "edge_to n (edge_code n (i, j)) = j"
proof -
  have "i * n + j < n * n"
  proof -
    have "Suc i * n \<le> n * n" using assms(1,2) by (intro mult_le_mono1) simp
    then show ?thesis using assms(2) by simp
  qed
  then have lt: "i * n + j < 2 ^ 32" using assms(3) by simp
  have "n * 2 \<le> n * n" using assms(1,2) by (intro mult_le_mono2) simp
  moreover have "n * n \<le> 4294967296" using assms(3) by simp
  ultimately have "n < 4294967296" using assms(2) by linarith
  then have n: "n < 2 ^ 32" by simp
  have c: "unat (edge_code n (i, j)) = i * n + j"
  proof -
    have "edge_code n (i, j) = of_nat (i * n + j)" by (simp add: edge_code_def)
    then show ?thesis using lt by (simp add: unat_of_nat take_bit_nat_eq_self del: of_nat_add of_nat_mult)
  qed
  have w: "unat (of_nat n :: u32) = n" using n by (simp add: unat_of_nat take_bit_nat_eq_self)
  show "edge_from n (edge_code n (i, j)) = i"
    using assms(2) by (simp add: edge_from_def unat_div c w)
  show "edge_to n (edge_code n (i, j)) = j"
    using assms(2) by (simp add: edge_to_def unat_mod c w)
qed

lemma dag_loop_edges:
  "fst (dag_loop ops m ps es st) =
     (if length es + length (filter (\<lambda>(i, j). ops_ordered (ops ! i) (ops ! j)) ps) \<le> m
      then length es + length (filter (\<lambda>(i, j). ops_ordered (ops ! i) (ops ! j)) ps) else 0)"
  "length es + length (filter (\<lambda>(i, j). ops_ordered (ops ! i) (ops ! j)) ps) \<le> m \<Longrightarrow>
   fst (snd (dag_loop ops m ps es st)) =
     es @ map (edge_code (length ops)) (filter (\<lambda>(i, j). ops_ordered (ops ! i) (ops ! j)) ps)"
  if "length es \<le> m"
  using that
proof (induction ps arbitrary: es st)
  case (Cons p ps)
  obtain i j where p: "p = (i, j)" by force
  obtain c a where ca: "fasync_ops_conflict (ops ! i) (ops ! j) = (c, a)" by force
  have c: "c = ops_ordered (ops ! i) (ops ! j)" using ops_conflict_fst [of "ops ! i" "ops ! j"] ca by simp
  { case 1 then show ?case using Cons.IH(1) by (auto simp: p ca c Let_def not_less_eq_eq) }
  { case 2 then show ?case using Cons.IH(2) by (auto simp: p ca c Let_def not_less_eq_eq split: if_splits) }
qed simp_all

text \<open>Two operations are ordered exactly when one writes what the other reads or writes: some
  access of the one and some access of the other touch the same resource or overlapping
  object ranges and not both only read; the relation is symmetric, and a pair is reported
  dissolved exactly when it conflicts by declaration but not in fact.\<close>

theorem ops_conflict_exact:
  "fst (fasync_ops_conflict a b) = ops_ordered a b \<and> ops_ordered a b = ops_ordered b a \<and>
   snd (fasync_ops_conflict a b) = (\<not> ops_ordered a b \<and>
     (\<exists>x\<in>set (op_accesses a). \<exists>y\<in>set (op_accesses b). declared_conflict (fa_kind x) (fa_kind y)))"
proof -
  have "ops_ordered a b = ops_ordered b a"
    unfolding ops_ordered_def using touch_sym declared_sym by metis
  then show ?thesis by (simp add: ops_conflict_fst ops_conflict_snd)
qed

text \<open>C21. The edges of a batch decode to its conflicts: when they fit the caller's array and the
  batch is small enough for the 32-bit edge numbers, dividing an edge by the batch size and
  taking the remainder gives back exactly the conflicting pairs, in order, every edge going
  from an earlier operation to a later one.\<close>

theorem build_dag_decodes:
  assumes "length ops * length ops \<le> 2 ^ 32"
    and "length (filter (\<lambda>(i, j). ops_ordered (ops ! i) (ops ! j)) (op_pairs (length ops))) \<le> max_edges"
    and "fasync_build_dag ops max_edges = (n, edges, st)"
  shows "n = length edges \<and>
    map (\<lambda>e. (edge_from (length ops) e, edge_to (length ops) e)) edges =
      filter (\<lambda>(i, j). ops_ordered (ops ! i) (ops ! j)) (op_pairs (length ops)) \<and>
    (\<forall>e\<in>set edges. edge_from (length ops) e < edge_to (length ops) e \<and> edge_to (length ops) e < length ops)"
proof -
  let ?ps = "filter (\<lambda>(i, j). ops_ordered (ops ! i) (ops ! j)) (op_pairs (length ops))"
  have e: "n = length ?ps" "edges = map (edge_code (length ops)) ?ps"
    using dag_loop_edges [where es = "[]" and m = max_edges and ops = ops and ps = "op_pairs (length ops)"] assms(2)
      arg_cong [OF assms(3), of fst] arg_cong [OF assms(3), of "\<lambda>x. fst (snd x)"]
    unfolding fasync_build_dag_def by simp_all
  have dec: "(edge_from (length ops) (edge_code (length ops) p), edge_to (length ops) (edge_code (length ops) p)) = p"
    if p: "p \<in> set ?ps" for p
  proof -
    obtain i j where ij: "p = (i, j)" by force
    then have "(i, j) \<in> set (op_pairs (length ops))" using p by simp
    from op_pairs_bounds [OF this] show ?thesis using edge_decode [OF _ _ assms(1), of i j] by (simp add: ij)
  qed
  have "map (\<lambda>e. (edge_from (length ops) e, edge_to (length ops) e)) edges = ?ps"
    unfolding e map_map comp_def by (rule map_idI) (rule dec)
  moreover have "edge_from (length ops) e < edge_to (length ops) e \<and> edge_to (length ops) e < length ops" if "e \<in> set edges" for e
  proof -
    obtain p where p: "p \<in> set ?ps" "e = edge_code (length ops) p" using \<open>e \<in> set edges\<close> unfolding e by auto
    then have "fst p < snd p \<and> snd p < length ops" using op_pairs_bounds [of "fst p" "snd p"] by auto
    then show ?thesis using arg_cong [OF dec [OF p(1)], of fst] arg_cong [OF dec [OF p(1)], of snd] p(2) by simp
  qed
  ultimately show ?thesis by (simp add: e)
qed

section \<open>The scheduler's invariant\<close>

definition edges_left :: "nat \<Rightarrow> u32 list \<Rightarrow> (nat \<Rightarrow> bool) \<Rightarrow> nat \<Rightarrow> nat" where
  "edges_left n edges dn j = length (filter (\<lambda>e. edge_to n e = j \<and> \<not> dn (edge_from n e)) edges)"

definition log_ok :: "nat \<Rightarrow> u32 list \<Rightarrow> dag_event list \<Rightarrow> bool" where
  "log_ok n edges log \<longleftrightarrow> (\<forall>xs j ys. log = xs @ Start j # ys \<longrightarrow>
     (\<forall>e\<in>set edges. edge_to n e = j \<longrightarrow> Done (edge_from n e) \<in> set xs))"

definition dag_inv :: "nat \<Rightarrow> u32 list \<Rightarrow> 's dag \<Rightarrow> bool" where
  "dag_inv n edges D \<longleftrightarrow>
     (\<forall>j. in_degree D j = of_nat (edges_left n edges (is_done D) j)) \<and>
     (\<forall>i. is_done D i \<longrightarrow> started D i) \<and> (\<forall>i. started D i \<longrightarrow> i < n) \<and>
     set (dag_log D) = Start ` {i. started D i} \<union> Done ` {i. is_done D i} \<and> distinct (dag_log D) \<and>
     log_ok n edges (dag_log D) \<and>
     finished D = of_nat (card {i. is_done D i}) \<and>
     in_flight D = of_nat (card {i. started D i \<and> \<not> is_done D i})"

lemma dag_invD:
  assumes "dag_inv n edges D"
  shows "\<And>j. in_degree D j = of_nat (edges_left n edges (is_done D) j)" "\<And>i. is_done D i \<Longrightarrow> started D i"
    "\<And>i. started D i \<Longrightarrow> i < n" "set (dag_log D) = Start ` {i. started D i} \<union> Done ` {i. is_done D i}"
    "distinct (dag_log D)" "log_ok n edges (dag_log D)" "finished D = of_nat (card {i. is_done D i})"
    "in_flight D = of_nat (card {i. started D i \<and> \<not> is_done D i})"
  using assms unfolding dag_inv_def by blast+

lemma dag_invI:
  assumes "\<And>j. in_degree D j = of_nat (edges_left n edges (is_done D) j)" "\<And>i. is_done D i \<Longrightarrow> started D i"
    "\<And>i. started D i \<Longrightarrow> i < n" "set (dag_log D) = Start ` {i. started D i} \<union> Done ` {i. is_done D i}"
    "distinct (dag_log D)" "log_ok n edges (dag_log D)" "finished D = of_nat (card {i. is_done D i})"
    "in_flight D = of_nat (card {i. started D i \<and> \<not> is_done D i})"
  shows "dag_inv n edges D"
  using assms unfolding dag_inv_def by blast

lemma log_ok_Done: "log_ok n edges log \<Longrightarrow> log_ok n edges (log @ [Done i])"
  unfolding log_ok_def
proof (intro allI impI)
  fix xs j ys assume a: "\<forall>xs j ys. log = xs @ Start j # ys \<longrightarrow> (\<forall>e\<in>set edges. edge_to n e = j \<longrightarrow> Done (edge_from n e) \<in> set xs)"
    and e: "log @ [Done i] = xs @ Start j # ys"
  then show "\<forall>e\<in>set edges. edge_to n e = j \<longrightarrow> Done (edge_from n e) \<in> set xs"
    by (cases ys rule: rev_cases) auto
qed

lemma log_ok_Start:
  "log_ok n edges log \<Longrightarrow> (\<And>e. e \<in> set edges \<Longrightarrow> edge_to n e = i \<Longrightarrow> Done (edge_from n e) \<in> set log) \<Longrightarrow>
   log_ok n edges (log @ [Start i])"
  unfolding log_ok_def
proof (intro allI impI ballI)
  fix xs j ys e
  assume a: "\<forall>xs j ys. log = xs @ Start j # ys \<longrightarrow> (\<forall>e\<in>set edges. edge_to n e = j \<longrightarrow> Done (edge_from n e) \<in> set xs)"
    and b: "\<And>e. e \<in> set edges \<Longrightarrow> edge_to n e = i \<Longrightarrow> Done (edge_from n e) \<in> set log"
    and e: "log @ [Start i] = xs @ Start j # ys" "e \<in> set edges" "edge_to n e = j"
  show "Done (edge_from n e) \<in> set xs"
  proof (cases ys rule: rev_cases)
    case Nil
    then show ?thesis using b [OF e(2)] e by auto
  next
    case (snoc zs z)
    then have "log = xs @ Start j # zs" using e(1) by auto
    then show ?thesis using a e(2,3) by blast
  qed
qed

lemma finite_started: "dag_inv n edges D \<Longrightarrow> finite {i. started D i}"
  by (rule finite_subset [of _ "{..<n}"]) (auto simp: dag_inv_def)

lemma finite_done: "dag_inv n edges D \<Longrightarrow> finite {i. is_done D i}"
  by (rule finite_subset [of _ "{..<n}"]) (auto simp: dag_inv_def)

lemma dag_inv_frame:
  "dag_inv n edges (D\<lparr>dag_state := s\<rparr>) = dag_inv n edges D"
  "dag_inv n edges (D\<lparr>dag_run := r\<rparr>) = dag_inv n edges D"
  by (simp_all add: dag_inv_def)

lemma dag_start_inv: "dag_inv n edges (dag_start n edges s)"
proof -
  have "fold (\<lambda>e d. d(edge_to n e := d (edge_to n e) + 1)) es d j =
      d j + of_nat (length (filter (\<lambda>e. edge_to n e = j) es))" for es j and d :: "nat \<Rightarrow> u32"
    by (induction es arbitrary: d) (auto simp: add.assoc)
  then show ?thesis by (simp add: dag_inv_def dag_start_def edges_left_def log_ok_def)
qed

lemma edges_left_zero:
  assumes "length edges < 2 ^ 32" and "(of_nat (edges_left n edges dn j) :: u32) = 0"
    and "e \<in> set edges" and "edge_to n e = j"
  shows "dn (edge_from n e)"
proof -
  have "edges_left n edges dn j < 2 ^ 32"
    using assms(1) length_filter_le [of _ edges] unfolding edges_left_def by (rule le_less_trans [rotated])
  then have "edges_left n edges dn j = 0" using assms(2) of_nat_word_eq_0 [where 'a = 32] by simp
  then show ?thesis using assms(3,4) by (auto simp: edges_left_def filter_empty_conv)
qed

lemma start_one_inv:
  assumes len: "length edges < 2 ^ 32" and i: "i < n" and inv: "dag_inv n edges D"
    and s: "start_one L ops i (any, D) = (any', D')"
  shows "dag_inv n edges D'" "is_done D' = is_done D" "finished D' = finished D"
    "in_degree D' = in_degree D" "\<And>j. started D j \<Longrightarrow> started D' j" "any \<Longrightarrow> any'"
proof -
  have "dag_inv n edges D' \<and> is_done D' = is_done D \<and> finished D' = finished D \<and> in_degree D' = in_degree D \<and>
    (\<forall>j. started D j \<longrightarrow> started D' j) \<and> (any \<longrightarrow> any')"
  proof (cases "started D i \<or> in_degree D i \<noteq> 0")
    case True
    then show ?thesis using s inv by (auto simp: start_one_def)
  next
    case False
    obtain h st where sub: "rl_submit_op L (ops ! i) (dag_state D) = (h, st)" by force
    show ?thesis
    proof (cases "h = 0")
      case True
      then show ?thesis using False s sub inv by (auto simp: start_one_def dag_inv_frame)
    next
      case h: False
      have nd: "\<not> is_done D i" using inv False by (auto simp: dag_inv_def)
      have preds: "Done (edge_from n e) \<in> set (dag_log D)" if "e \<in> set edges" "edge_to n e = i" for e
      proof -
        have "(of_nat (edges_left n edges (is_done D) i) :: u32) = 0" using inv False by (simp add: dag_inv_def)
        then have "is_done D (edge_from n e)" using edges_left_zero [OF len _ that] by blast
        then show ?thesis using inv by (auto simp: dag_inv_def)
      qed
      have ni: "Start i \<notin> set (dag_log D)" using inv False by (auto simp: dag_inv_def)
      have D': "started D' = (started D)(i := True)" "is_done D' = is_done D" "in_degree D' = in_degree D"
        "finished D' = finished D" "in_flight D' = in_flight D + 1" "dag_log D' = dag_log D @ [Start i]" "any'"
        using s False h sub by (auto simp: start_one_def Let_def)
      have set1: "{j. started D' j \<and> \<not> is_done D' j} = insert i {j. started D j \<and> \<not> is_done D j}"
        using nd by (auto simp: D')
      have "finite {j. started D j \<and> \<not> is_done D j}"
        by (rule finite_subset [OF _ finite_started [OF inv]]) auto
      then have c: "card {j. started D' j \<and> \<not> is_done D' j} = Suc (card {j. started D j \<and> \<not> is_done D j})"
        unfolding set1 using False by simp
      have "log_ok n edges (dag_log D')"
        unfolding D' by (rule log_ok_Start) (use inv preds in \<open>auto simp: dag_inv_def\<close>)
      moreover have "set (dag_log D') = Start ` {i. started D' i} \<union> Done ` {i. is_done D' i}"
        using inv by (auto simp: D' dag_inv_def)
      moreover have "in_flight D' = of_nat (card {j. started D' j \<and> \<not> is_done D' j})"
        unfolding c using inv by (simp add: D' dag_inv_def)
      moreover have "distinct (dag_log D')" using inv ni by (simp add: D' dag_inv_def)
      ultimately have "dag_inv n edges D'"
        using dag_invD [OF inv] i by (intro dag_invI) (auto simp: D' split: if_splits)
      then show ?thesis by (simp add: D')
    qed
  qed
  then show "dag_inv n edges D'" "is_done D' = is_done D" "finished D' = finished D"
    "in_degree D' = in_degree D" "\<And>j. started D j \<Longrightarrow> started D' j" "any \<Longrightarrow> any'" by blast+
qed

lemma start_all_inv:
  assumes len: "length edges < 2 ^ 32" and "\<forall>i\<in>set is. i < n" and "dag_inv n edges D"
    and "fold (start_one L ops) is (any, D) = (any', D')"
  shows "dag_inv n edges D' \<and> is_done D' = is_done D \<and> finished D' = finished D \<and> in_degree D' = in_degree D \<and>
    (\<forall>j. started D j \<longrightarrow> started D' j) \<and> (any \<longrightarrow> any')"
  using assms(2-4)
proof (induction "is" arbitrary: any D)
  case (Cons i rest)
  obtain a1 D1 where s: "start_one L ops i (any, D) = (a1, D1)" by force
  note o = start_one_inv [OF len _ Cons.prems(2) s]
  have i: "i < n" using Cons.prems(1) by simp
  show ?case using Cons.IH [OF _ o(1) [OF i], of a1] Cons.prems o(2-6) [OF i] s by auto
qed auto

lemma release_fold:
  assumes "\<forall>j. length (filter (\<lambda>e. edge_from n e = i \<and> edge_to n e = j) es) \<le> unat (d j)"
  shows "fold (release_edge n i) es d j =
    d j - of_nat (length (filter (\<lambda>e. edge_from n e = i \<and> edge_to n e = j) es))"
  using assms
proof (induction es arbitrary: d)
  case (Cons e es)
  show ?case
  proof (cases "edge_from n e = i")
    case True
    have "1 \<le> unat (d (edge_to n e))" using Cons.prems [rule_format, of "edge_to n e"] True by simp
    then have nz: "d (edge_to n e) \<noteq> 0" by auto
    let ?d = "d(edge_to n e := d (edge_to n e) - 1)"
    have u: "unat (d (edge_to n e) - 1) = unat (d (edge_to n e)) - 1" using nz by (rule unat_minus_one)
    have ok: "\<forall>j. length (filter (\<lambda>e. edge_from n e = i \<and> edge_to n e = j) es) \<le> unat (?d j)"
    proof
      fix k show "length (filter (\<lambda>e. edge_from n e = i \<and> edge_to n e = k) es) \<le> unat (?d k)"
        using Cons.prems [rule_format, of k] True u by (cases "k = edge_to n e") auto
    qed
    have "fold (release_edge n i) (e # es) d j =
        ?d j - of_nat (length (filter (\<lambda>e. edge_from n e = i \<and> edge_to n e = j) es))"
    proof -
      have "release_edge n i e d = ?d" using True nz by (simp add: release_edge_def)
      then have "fold (release_edge n i) (e # es) d = fold (release_edge n i) es ?d" by simp
      then show ?thesis using Cons.IH [OF ok] by (simp only:)
    qed
    then show ?thesis using True by (cases "j = edge_to n e") simp_all
  next
    case False
    then show ?thesis using Cons by (simp add: release_edge_def)
  qed
qed simp

lemma edges_left_done:
  assumes "\<not> dn i"
  shows "edges_left n edges dn j = edges_left n edges (dn(i := True)) j +
    length (filter (\<lambda>e. edge_from n e = i \<and> edge_to n e = j) edges)"
  using assms by (induction edges) (auto simp: edges_left_def)

lemma collect_keeps:
  assumes len: "length edges < 2 ^ 32" and "dag_inv n edges D"
  shows "dag_inv n edges (collect L n edges is D) \<and>
    (\<exists>i. \<not> is_done D i \<and> is_done (collect L n edges is D) = (is_done D)(i := True) \<or>
       is_done (collect L n edges is D) = is_done D)"
  using assms(2)
proof (induction "is" arbitrary: D)
  case (Cons i rest)
  obtain ok s where rd: "rl_ready L (handles D i) (dag_state D) = (ok, s)" by force
  obtain r s1 where rs: "rl_result L (handles D i) s = (r, s1)" by force
  consider "\<not> started D i \<or> is_done D i" | "started D i" "\<not> is_done D i" "\<not> ok" | "started D i" "\<not> is_done D i" ok by blast
  then show ?case
  proof cases
    case 1
    then show ?thesis using Cons by simp
  next
    case 2
    then show ?thesis using Cons.IH [of "D\<lparr>dag_state := s\<rparr>"] Cons.prems rd by (simp add: dag_inv_frame)
  next
    case 3
    define D' where "D' = collect L n edges (i # rest) D"
    have D': "is_done D' = (is_done D)(i := True)" "started D' = started D" "in_flight D' = in_flight D - 1"
      "finished D' = finished D + 1" "in_degree D' = fold (release_edge n i) edges (in_degree D)"
      "dag_log D' = dag_log D @ [Done i]"
      using 3 rd rs by (simp_all add: D'_def Let_def)
    note inv = Cons.prems
    have lt: "edges_left n edges (is_done D) j < 2 ^ 32" for j
      using len length_filter_le [of _ edges] unfolding edges_left_def by (rule le_less_trans [rotated])
    have u: "unat (in_degree D j) = edges_left n edges (is_done D) j" for j
      using inv lt [of j] by (simp add: dag_inv_def unat_of_nat take_bit_nat_eq_self)
    have p1: "in_degree D' j = of_nat (edges_left n edges (is_done D') j)" for j
    proof -
      have "\<forall>j. length (filter (\<lambda>e. edge_from n e = i \<and> edge_to n e = j) edges) \<le> unat (in_degree D j)"
        unfolding u using edges_left_done [where dn = "is_done D", OF 3(2), of n edges] by simp
      from release_fold [OF this, of j]
      have "in_degree D' j = in_degree D j - of_nat (length (filter (\<lambda>e. edge_from n e = i \<and> edge_to n e = j) edges))"
        by (simp only: D'(5))
      then show ?thesis
        using edges_left_done [where dn = "is_done D", OF 3(2), of n edges j] dag_invD(1) [OF inv, of j] by (simp add: D'(1))
    qed
    have p2: "set (dag_log D') = Start ` {i. started D' i} \<union> Done ` {i. is_done D' i}"
      using inv by (auto simp: D' dag_inv_def)
    have p3: "distinct (dag_log D')" using inv 3(2) by (auto simp: D' dag_inv_def)
    have p4: "log_ok n edges (dag_log D')" unfolding D' by (rule log_ok_Done) (use inv in \<open>simp add: dag_inv_def\<close>)
    have c1: "card {j. is_done D' j} = Suc (card {j. is_done D j})"
    proof -
      have "{j. is_done D' j} = insert i {j. is_done D j}" by (auto simp: D')
      then show ?thesis using finite_done [OF inv] 3(2) by simp
    qed
    have c2: "card {j. started D j \<and> \<not> is_done D j} = Suc (card {j. started D' j \<and> \<not> is_done D' j})"
    proof -
      have "{j. started D j \<and> \<not> is_done D j} = insert i {j. started D' j \<and> \<not> is_done D' j}" using 3 by (auto simp: D')
      moreover have "finite {j. started D' j \<and> \<not> is_done D' j}"
        by (rule finite_subset [OF _ finite_started [OF inv]]) (auto simp: D')
      ultimately show ?thesis by (simp add: D')
    qed
    have p5: "started D' j" if "is_done D' j" for j
      using that dag_invD(2) [OF inv, of j] 3(1) unfolding D'(1,2) by (cases "j = i") simp_all
    have p6: "j < n" if "started D' j" for j
      using that dag_invD(3) [OF inv, of j] unfolding D'(2) by blast
    have p7: "finished D' = of_nat (card {j. is_done D' j})" unfolding c1 D'(4) dag_invD(7) [OF inv] by simp
    have p8: "in_flight D' = of_nat (card {j. started D' j \<and> \<not> is_done D' j})"
      unfolding D'(3) dag_invD(8) [OF inv] c2 by simp
    have "dag_inv n edges D'" by (rule dag_invI [OF p1 p5 p6 p2 p3 p4 p7 p8])
    then show ?thesis using 3(2) D'(1) unfolding D'_def by blast
  qed
qed auto

lemma rounds_inv:
  assumes len: "length edges < 2 ^ 32"
  shows "dag_inv (length ops) edges D \<Longrightarrow> dag_rounds fuel L ops edges D = Inr (rc, D') \<Longrightarrow>
    dag_inv (length ops) edges D' \<and> (rc = 0 \<longrightarrow> finished D' = of_nat (length ops))"
proof (induction fuel arbitrary: D)
  case (0 D)
  note step = 0(2) [unfolded dag_rounds.simps [where fuel = 0] Let_def]
  show ?case
  proof (cases "finished D < of_nat (length ops)")
    case True
    obtain any D1 where f: "fold (start_one L ops) [0..<length ops] (False, D) = (any, D1)" by force
    have i1: "dag_inv (length ops) edges D1" using start_all_inv [OF len _ 0(1) f] by auto
    show ?thesis
      using step True i1 by (auto simp: f dag_inv_frame split: if_splits prod.splits)
  next
    case False
    then show ?thesis using step 0(1) by (auto split: if_splits)
  qed
next
  case (Suc k D)
  note step = Suc.prems(2) [unfolded dag_rounds.simps [where fuel = "Suc k"] Let_def]
  show ?case
  proof (cases "finished D < of_nat (length ops)")
    case True
    obtain any D1 where f: "fold (start_one L ops) [0..<length ops] (False, D) = (any, D1)" by force
    have i1: "dag_inv (length ops) edges D1" using start_all_inv [OF len _ Suc.prems(1) f] by auto
    obtain r s where r: "rl_submit L (dag_state D1) = (r, s)" by force
    define D2 where "D2 = (if any then D1\<lparr>dag_run := (dag_run D1)\<lparr>dr_waves := dr_waves (dag_run D1) + 1\<rparr>, dag_state := s\<rparr> else D1)"
    have i2: "dag_inv (length ops) edges D2" using i1 by (simp add: D2_def dag_inv_frame)
    have i3: "dag_inv (length ops) edges (if in_flight D2 = 0 then D2 else collect L (length ops) edges [0..<length ops] D2)"
      using collect_keeps [OF len i2] i2 by simp
    have fl: "in_flight D2 = in_flight D1" "finished D2 = finished D1" by (simp_all add: D2_def)
    have "(any \<and> r < 0 \<and> rc = - 1 \<and> D' = D2) \<or> (rc = (if finished D2 = of_nat (length ops) then 0 else - 1) \<and> D' = D2) \<or>
       dag_rounds k L ops edges (if in_flight D2 = 0 then D2 else collect L (length ops) edges [0..<length ops] D2) = Inr (rc, D')"
      using step True by (cases any) (simp_all add: f r fl D2_def split: if_splits)
    then show ?thesis using Suc.IH [OF i3] i2 by (auto split: if_splits)
  next
    case False
    then show ?thesis using step Suc.prems(1) by (auto split: if_splits)
  qed
qed

lemma card_done_le: "dag_inv n edges D \<Longrightarrow> card {i. is_done D i} \<le> n" "dag_inv n edges D \<Longrightarrow> card {i. started D i} \<le> n"
proof -
  assume inv: "dag_inv n edges D"
  have "{i. is_done D i} \<subseteq> {..<n}" "{i. started D i} \<subseteq> {..<n}" using dag_invD(2,3) [OF inv] by auto
  from card_mono [OF _ this(1)] card_mono [OF _ this(2)]
  show "card {i. is_done D i} \<le> n" "card {i. started D i} \<le> n" by simp_all
qed

lemma finished_all:
  assumes inv: "dag_inv n edges D" and n: "n < 2 ^ 32"
  shows "(finished D = of_nat n) = (\<forall>i<n. is_done D i)" "(finished D < of_nat n) = (\<exists>i<n. \<not> is_done D i)"
proof -
  have sub: "{i. is_done D i} \<subseteq> {..<n}" using dag_invD(2,3) [OF inv] by auto
  have le: "card {i. is_done D i} \<le> n" by (rule card_done_le [OF inv])
  have u: "unat (finished D) = card {i. is_done D i}"
    using le n unfolding dag_invD(7) [OF inv] by (simp add: unat_of_nat take_bit_nat_eq_self)
  have un: "unat (of_nat n :: u32) = n" using n by (simp add: unat_of_nat take_bit_nat_eq_self)
  have all: "(card {i. is_done D i} = n) = (\<forall>i<n. is_done D i)"
  proof
    assume "card {i. is_done D i} = n"
    then have "{i. is_done D i} = {..<n}" using card_subset_eq [OF _ sub] by simp
    then show "\<forall>i<n. is_done D i" by auto
  next
    assume "\<forall>i<n. is_done D i"
    then have "{i. is_done D i} = {..<n}" using sub by auto
    then show "card {i. is_done D i} = n" by simp
  qed
  show eq: "(finished D = of_nat n) = (\<forall>i<n. is_done D i)" unfolding all [symmetric] word_unat_eq_iff u un by simp
  show "(finished D < of_nat n) = (\<exists>i<n. \<not> is_done D i)"
    using le all unfolding word_less_nat_alt u un by auto
qed

section \<open>Progress\<close>

definition dag_measure :: "nat \<Rightarrow> nat \<Rightarrow> ('s \<Rightarrow> nat) \<Rightarrow> 's dag \<Rightarrow> nat" where
  "dag_measure n B lag D =
    ((n - card {i. is_done D i}) + (n - card {i. started D i})) * (B + 2) + lag (dag_state D)"

lemma measure_less:
  assumes "dag_inv n edges D" "dag_inv n edges D'" "\<And>i. is_done D i \<Longrightarrow> is_done D' i" "\<And>i. started D i \<Longrightarrow> started D' i"
    and strict: "(\<exists>i. \<not> is_done D i \<and> is_done D' i) \<or> (\<exists>i. \<not> started D i \<and> started D' i)"
    and lag: "lag (dag_state D') \<le> B"
  shows "dag_measure n B lag D' < dag_measure n B lag D"
proof -
  let ?c = "\<lambda>P. card {i. P i}"
  have mono: "?c (is_done D) \<le> ?c (is_done D')" "?c (started D) \<le> ?c (started D')"
    using assms(3,4) by (auto intro!: card_mono finite_done [OF assms(2)] finite_started [OF assms(2)])
  have "?c (is_done D) < ?c (is_done D') \<or> ?c (started D) < ?c (started D')"
  proof -
    have "{i. is_done D i} \<subset> {i. is_done D' i} \<or> {i. started D i} \<subset> {i. started D' i}" using assms(3,4) strict by blast
    then show ?thesis
      using psubset_card_mono [OF finite_done [OF assms(2)]] psubset_card_mono [OF finite_started [OF assms(2)]] by blast
  qed
  then have "Suc ((n - ?c (is_done D')) + (n - ?c (started D'))) \<le> (n - ?c (is_done D)) + (n - ?c (started D))"
    using mono card_done_le [OF assms(2)] by linarith
  from mult_le_mono1 [OF this, of "B + 2"] show ?thesis unfolding dag_measure_def using lag by simp
qed

lemma start_all_live:
  assumes live: "\<forall>op s. fst (rl_submit_op L op s) \<noteq> 0"
  shows "fold (start_one L ops) is (any, D) = (any', D') \<Longrightarrow>
    (\<forall>j\<in>set is. in_degree D j = 0 \<longrightarrow> started D' j) \<and> (\<forall>j. started D j \<longrightarrow> started D' j) \<and>
    (any' \<and> \<not> any \<longrightarrow> (\<exists>j. \<not> started D j \<and> started D' j)) \<and> (\<not> any' \<longrightarrow> D' = D) \<and> (any \<longrightarrow> any')"
proof (induction "is" arbitrary: any D)
  case (Cons i rest)
  obtain a1 D1 where s: "start_one L ops i (any, D) = (a1, D1)" by force
  obtain h st where h: "rl_submit_op L (ops ! i) (dag_state D) = (h, st)" by force
  have h0: "h \<noteq> 0" using live h by (metis fst_conv)
  have D1: "in_degree D1 = in_degree D \<and> (\<forall>j. started D j \<longrightarrow> started D1 j) \<and> (in_degree D i = 0 \<longrightarrow> started D1 i) \<and>
      (a1 \<and> \<not> any \<longrightarrow> \<not> started D i \<and> started D1 i) \<and> (\<not> a1 \<longrightarrow> D1 = D \<and> \<not> any) \<and> (any \<longrightarrow> a1)"
    using s h h0 by (auto simp: start_one_def Let_def split: if_splits)
  have "fold (start_one L ops) rest (a1, D1) = (any', D')" using Cons.prems s by simp
  from Cons.IH [OF this] D1 show ?case by (cases a1; cases any) auto
qed auto

definition one_more :: "(nat \<Rightarrow> bool) \<Rightarrow> (nat \<Rightarrow> bool) \<Rightarrow> bool" where
  "one_more P Q \<longleftrightarrow> (\<exists>i. \<not> P i \<and> Q = P(i := True))"

lemma one_moreI: "\<not> P i \<Longrightarrow> one_more P (P(i := True))"
  unfolding one_more_def by blast

lemma one_moreD: "one_more P Q \<Longrightarrow> (\<exists>i. \<not> P i \<and> Q i) \<and> (\<forall>i. P i \<longrightarrow> Q i)"
  by (auto simp: one_more_def)

lemma collect_progress:
  assumes lag: "\<forall>h s s'. rl_ready L h s = (False, s') \<longrightarrow> lag s' < (lag s :: nat)"
  shows "\<exists>i\<in>set is. started D i \<and> \<not> is_done D i \<Longrightarrow>
    started (collect L n edges is D) = started D \<and>
    (one_more (is_done D) (is_done (collect L n edges is D)) \<or>
     is_done (collect L n edges is D) = is_done D \<and> lag (dag_state (collect L n edges is D)) < lag (dag_state D))"
proof (induction "is" arbitrary: D)
  case (Cons i rest)
  obtain ok s where rd: "rl_ready L (handles D i) (dag_state D) = (ok, s)" by force
  obtain r s1 where rs: "rl_result L (handles D i) s = (r, s1)" by force
  consider "\<not> started D i \<or> is_done D i" | "started D i" "\<not> is_done D i" "\<not> ok" | "started D i" "\<not> is_done D i" ok by blast
  then show ?case
  proof cases
    case 1
    then show ?thesis using Cons by auto
  next
    case 2
    then have less: "lag s < lag (dag_state D)" using lag rd by simp
    have c: "collect L n edges (i # rest) D = collect L n edges rest (D\<lparr>dag_state := s\<rparr>)" using 2 rd by simp
    show ?thesis
    proof (cases "\<exists>j\<in>set rest. started D j \<and> \<not> is_done D j")
      case True
      then show ?thesis using Cons.IH [of "D\<lparr>dag_state := s\<rparr>"] less unfolding c by auto
    next
      case False
      then have "\<forall>j\<in>set rest. \<not> started (D\<lparr>dag_state := s\<rparr>) j \<or> is_done (D\<lparr>dag_state := s\<rparr>) j" by simp
      then have "collect L n edges rest (D\<lparr>dag_state := s\<rparr>) = D\<lparr>dag_state := s\<rparr>" by (induction rest) auto
      then show ?thesis unfolding c using less by simp
    qed
  next
    case 3
    have d: "is_done (collect L n edges (i # rest) D) = (is_done D)(i := True)" "started (collect L n edges (i # rest) D) = started D"
      using 3 rd rs by (simp_all add: Let_def)
    show ?thesis unfolding d using one_moreI [where P = "is_done D", OF 3(2)] by blast
  qed
qed simp

lemma in_flight_nonzero:
  assumes inv: "dag_inv n edges D" and n: "n < 2 ^ 32" and i: "started D i" "\<not> is_done D i"
  shows "in_flight D \<noteq> 0"
proof -
  let ?S = "{j. started D j \<and> \<not> is_done D j}"
  have fin: "finite ?S" by (rule finite_subset [OF _ finite_started [OF inv]]) auto
  have "card ?S \<le> card {j. started D j}" by (rule card_mono [OF finite_started [OF inv]]) auto
  then have "card ?S < 2 ^ 32" using card_done_le(2) [OF inv] n by linarith
  moreover have "card ?S \<noteq> 0" using fin i by auto
  ultimately show ?thesis unfolding dag_invD(8) [OF inv] using of_nat_word_eq_0 [where 'a = 32 and n = "card ?S"] by simp
qed

lemma next_ready:
  assumes inv: "dag_inv n edges D" and fwd: "\<forall>e\<in>set edges. edge_from n e < edge_to n e"
    and "\<exists>i<n. \<not> is_done D i"
  shows "\<exists>i<n. \<not> is_done D i \<and> in_degree D i = 0"
proof -
  define i where "i = (LEAST i. i < n \<and> \<not> is_done D i)"
  have i: "i < n \<and> \<not> is_done D i" using assms(3) LeastI_ex [of "\<lambda>i. i < n \<and> \<not> is_done D i"] unfolding i_def by blast
  have least: "is_done D j" if "j < i" for j
    using not_less_Least [of j "\<lambda>i. i < n \<and> \<not> is_done D i"] that i unfolding i_def by auto
  have "edges_left n edges (is_done D) i = 0"
    unfolding edges_left_def using fwd least by (auto simp: filter_empty_conv)
  then show ?thesis using i dag_invD(1) [OF inv, of i] by auto
qed

lemma round_progress:
  assumes len: "length edges < 2 ^ 32" and n: "n < 2 ^ 32" "n = length ops"
    and fwd: "\<forall>e\<in>set edges. edge_from n e < edge_to n e"
    and live: "\<forall>op s. fst (rl_submit_op L op s) \<noteq> 0"
    and lag: "\<forall>h s s'. rl_ready L h s = (False, s') \<longrightarrow> lag s' < (lag s :: nat)" "\<forall>s. lag s \<le> B"
    and inv: "dag_inv n edges D" and more: "finished D < of_nat n"
    and f: "fold (start_one L ops) [0..<n] (False, D) = (any, D1)"
    and D2: "D2 = D1 \<and> \<not> any \<or> any \<and> (\<exists>r s. D2 = D1\<lparr>dag_run := r, dag_state := s\<rparr>)"
  shows "in_flight D2 \<noteq> 0 \<and> dag_inv n edges (collect L n edges [0..<n] D2) \<and>
    dag_measure n B lag (collect L n edges [0..<n] D2) < dag_measure n B lag D"
proof -
  let ?D3 = "collect L n edges [0..<n] D2"
  have s1: "dag_inv n edges D1" "is_done D1 = is_done D" "in_degree D1 = in_degree D"
    using start_all_inv [OF len _ inv f] by auto
  note s2 = start_all_live [OF live f]
  have eq: "is_done D2 = is_done D" "in_flight D2 = in_flight D1" "started D2 = started D1" using D2 s1(2) by auto
  have i2: "dag_inv n edges D2" using D2 s1(1) by (auto simp: dag_inv_frame)
  obtain i where i: "i < n" "\<not> is_done D i" "in_degree D i = 0"
    using next_ready [OF inv fwd] more unfolding finished_all(2) [OF inv n(1)] by blast
  have st: "started D2 i" using s2 i by (simp add: eq)
  have fl: "in_flight D2 \<noteq> 0" by (rule in_flight_nonzero [OF i2 n(1) st]) (simp add: eq i)
  have "\<exists>j\<in>set [0..<n]. started D2 j \<and> \<not> is_done D2 j" using i st by (auto simp: eq)
  note c = collect_progress [where n = n and edges = edges, OF lag(1) this]
  have i3: "dag_inv n edges ?D3" using collect_keeps [OF len i2] by blast
  have mono: "is_done D j \<Longrightarrow> is_done ?D3 j" "started D j \<Longrightarrow> started ?D3 j" for j
    using c s2 by (auto simp: eq dest!: one_moreD)
  have "dag_measure n B lag ?D3 < dag_measure n B lag D"
  proof (cases "any \<or> one_more (is_done D) (is_done ?D3)")
    case True
    then have "(\<exists>j. \<not> is_done D j \<and> is_done ?D3 j) \<or> (\<exists>j. \<not> started D j \<and> started ?D3 j)"
      using s2 c by (auto simp: eq dest!: one_moreD)
    from measure_less [OF inv i3 mono this] lag(2) show ?thesis by blast
  next
    case False
    then have "D2 = D" using D2 s2 by blast
    then show ?thesis using c False unfolding dag_measure_def by simp
  qed
  then show ?thesis using fl i3 by blast
qed

lemma rounds_complete:
  assumes len: "length edges < 2 ^ 32" and n: "length ops < 2 ^ 32"
    and fwd: "\<forall>e\<in>set edges. edge_from (length ops) e < edge_to (length ops) e"
    and live: "\<forall>op s. fst (rl_submit_op L op s) \<noteq> 0" "\<forall>s. 0 \<le> fst (rl_submit L s)"
    and lag: "\<forall>h s s'. rl_ready L h s = (False, s') \<longrightarrow> lag s' < (lag s :: nat)" "\<forall>s. lag s \<le> B"
  shows "dag_inv (length ops) edges D \<Longrightarrow> dag_measure (length ops) B lag D \<le> fuel \<Longrightarrow>
    \<exists>D'. dag_rounds fuel L ops edges D = Inr (0, D')"
proof (induction fuel arbitrary: D rule: less_induct)
  case (less fuel)
  let ?n = "length ops"
  show ?case
  proof (cases "finished D < of_nat ?n")
    case False
    then have "finished D = of_nat ?n" using finished_all [OF less.prems(1) n] by blast
    then show ?thesis by (subst dag_rounds.simps) simp
  next
    case True
    obtain any D1 where f: "fold (start_one L ops) [0..<?n] (False, D) = (any, D1)" by force
    obtain r s where r: "rl_submit L (dag_state D1) = (r, s)" by force
    have r0: "\<not> r < 0" using live(2) r by (metis fst_conv not_less)
    define D2 where "D2 = (if any then D1\<lparr>dag_run := (dag_run D1)\<lparr>dr_waves := dr_waves (dag_run D1) + 1\<rparr>, dag_state := s\<rparr> else D1)"
    have D2: "D2 = D1 \<and> \<not> any \<or> any \<and> (\<exists>r s. D2 = D1\<lparr>dag_run := r, dag_state := s\<rparr>)" by (auto simp: D2_def)
    note p = round_progress [OF len n refl fwd live(1) lag less.prems(1) True f D2]
    obtain k where k: "fuel = Suc k" using p less.prems(2) by (cases fuel) auto
    let ?D3 = "collect L ?n edges [0..<?n] D2"
    have fl: "in_flight D2 = in_flight D1" by (simp add: D2_def)
    have "dag_rounds fuel L ops edges D = dag_rounds k L ops edges ?D3"
      using True p r0 unfolding k fl by (subst dag_rounds.simps) (cases any; simp add: f r D2_def Let_def)
    moreover have "dag_measure ?n B lag ?D3 \<le> k" using p less.prems(2) k by linarith
    ultimately show ?thesis using less.IH [of k ?D3] p k by simp
  qed
qed

text \<open>C19. The scheduler never starts an operation before every operation it depends on has been
  collected: in the log of a run that returns, each start is preceded by the collection of the
  source of each edge into it, no operation is started or collected twice, and a run that
  returns 0 has collected every operation of the batch.\<close>

theorem run_dag_ordered:
  assumes "length edges < 2 ^ 32" and "length ops < 2 ^ 32"
    and "fasync_run_dag fuel memory L ops edges s = Inr (rc, D)"
  shows "log_ok (length ops) edges (dag_log D) \<and> distinct (dag_log D) \<and>
    (rc = 0 \<longrightarrow> (\<forall>i<length ops. Done i \<in> set (dag_log D)))"
proof -
  have "dag_inv (length ops) edges D \<and> (rc = 0 \<longrightarrow> finished D = of_nat (length ops))"
  proof (cases "ops = [] \<or> \<not> memory")
    case True
    then show ?thesis using assms(3) dag_start_inv [of "length ops" edges s]
      by (auto simp: fasync_run_dag_def dag_start_def split: if_splits)
  next
    case False
    then show ?thesis using assms(3) rounds_inv [OF assms(1) dag_start_inv] by (simp add: fasync_run_dag_def)
  qed
  then have inv: "dag_inv (length ops) edges D" and fin: "rc = 0 \<Longrightarrow> finished D = of_nat (length ops)" by blast+
  have "\<forall>i<length ops. Done i \<in> set (dag_log D)" if "rc = 0"
    using fin [OF that] unfolding finished_all(1) [OF inv assms(2)] dag_invD(4) [OF inv] by auto
  then show ?thesis using dag_invD(5,6) [OF inv] by blast
qed

text \<open>C20. The scheduler finishes every batch: when the edges go forward, the request layer accepts
  what it is given and no request is polled unready more than \<open>B\<close> times in a row, then
  enough rounds return 0 with every operation collected.\<close>

theorem run_dag_finishes:
  assumes "length edges < 2 ^ 32" and "length ops < 2 ^ 32"
    and "\<forall>e\<in>set edges. edge_from (length ops) e < edge_to (length ops) e"
    and "\<forall>op s. fst (rl_submit_op L op s) \<noteq> 0" and "\<forall>s. 0 \<le> fst (rl_submit L s)"
    and "\<forall>h s s'. rl_ready L h s = (False, s') \<longrightarrow> lag s' < (lag s :: nat)" and "\<forall>s. lag s \<le> B"
    and "2 * length ops * (B + 2) + B \<le> fuel"
  shows "\<exists>D. fasync_run_dag fuel True L ops edges s = Inr (0, D) \<and>
    (\<forall>i<length ops. Done i \<in> set (dag_log D))"
proof (cases "ops = []")
  case True
  then show ?thesis by (simp add: fasync_run_dag_def)
next
  case False
  have l: "lag s \<le> B" using assms(7) by blast
  have "dag_measure (length ops) B lag (dag_start (length ops) edges s) \<le> fuel"
    using assms(8) l by (simp add: dag_measure_def dag_start_def algebra_simps)
  from rounds_complete [OF assms(1-7) dag_start_inv this]
  obtain D where D: "dag_rounds fuel L ops edges (dag_start (length ops) edges s) = Inr (0, D)" by blast
  from rounds_inv [OF assms(1) dag_start_inv D]
  have inv: "dag_inv (length ops) edges D" and fin: "finished D = of_nat (length ops)" by simp_all
  have "\<forall>i<length ops. Done i \<in> set (dag_log D)"
    using fin unfolding finished_all(1) [OF inv assms(2)] dag_invD(4) [OF inv] by auto
  then show ?thesis using D False by (simp add: fasync_run_dag_def)
qed

text \<open>A write of resource 7 followed by a read of it, on a layer that always has the answer.\<close>

definition batch_ops :: "fasync_op list" where
  "batch_ops = [\<lparr>op_name = ''put'', op_accesses = [fasync_tracker_access (Some \<lparr>tr_resource = 7, tr_q = []\<rparr>) FASYNC_OUT]\<rparr>,
               \<lparr>op_name = ''get'', op_accesses = [fasync_tracker_access (Some \<lparr>tr_resource = 7, tr_q = []\<rparr>) FASYNC_IN]\<rparr>]"

definition batch_layer :: "nat request_layer" where
  "batch_layer = \<lparr>rl_submit_op = (\<lambda>_ s. (1, s)), rl_submit = (\<lambda>s. (0, s)), rl_ready = (\<lambda>_ s. (True, s)), rl_result = (\<lambda>_ s. (0, s))\<rparr>"

lemmas batch_defs = batch_ops_def fasync_tracker_access_def kind_consts null_ptr_def

lemma batch_facts: "length batch_ops = 2" "ops_ordered (batch_ops ! 0) (batch_ops ! Suc 0)" "op_pairs 2 = [(0, 1)]"
  by (simp_all add: batch_defs ops_ordered_def accesses_touch_def declared_conflict_def fasync_kind_writes_def fasync_kind_reads_def
      op_pairs_def upt_rec numeral_2_eq_2)

theorem build_dag_decodes_witness:
  "\<exists>n edges st. fasync_build_dag batch_ops 8 = (n, edges, st) \<and> n = length edges \<and>
    map (\<lambda>e. (edge_from 2 e, edge_to 2 e)) edges = [(0, 1)]"
proof -
  obtain n edges st where b: "fasync_build_dag batch_ops 8 = (n, edges, st)" using prod_cases3 by blast
  have "n = length edges \<and> map (\<lambda>e. (edge_from (length batch_ops) e, edge_to (length batch_ops) e)) edges =
      filter (\<lambda>(i, j). ops_ordered (batch_ops ! i) (batch_ops ! j)) (op_pairs (length batch_ops))"
    using build_dag_decodes [OF _ _ b] by (simp add: batch_facts)
  then show ?thesis using b by (simp add: batch_facts)
qed

lemma batch_edge: "edge_from 2 1 = 0" "edge_to 2 1 = 1"
  by (simp_all add: edge_from_def edge_to_def unat_div unat_mod)

lemma batch_run: "\<exists>D. fasync_run_dag 9 True batch_layer batch_ops [1] 0 = Inr (0, D)"
proof -
  have "\<exists>D. dag_rounds 9 batch_layer batch_ops [1] (dag_start (length batch_ops) [1] 0) = Inr (0, D)"
    by (rule rounds_complete [where lag = "\<lambda>_. 0" and B = 0, OF _ _ _ _ _ _ _ dag_start_inv])
       (simp_all add: batch_facts batch_edge batch_layer_def dag_measure_def dag_start_def)
  then show ?thesis using batch_facts(1) by (auto simp: fasync_run_dag_def)
qed

theorem run_dag_ordered_witness:
  "\<exists>D. fasync_run_dag 9 True batch_layer batch_ops [1] 0 = Inr (0, D) \<and> log_ok 2 [1] (dag_log D) \<and>
    Done 0 \<in> set (dag_log D) \<and> Done 1 \<in> set (dag_log D)"
proof -
  obtain D where D: "fasync_run_dag 9 True batch_layer batch_ops [1] 0 = Inr (0, D)" using batch_run by blast
  from run_dag_ordered [OF _ _ D] show ?thesis using D by (auto simp: batch_facts)
qed

theorem run_dag_finishes_witness:
  "\<exists>D. fasync_run_dag 8 True batch_layer batch_ops [1] 0 = Inr (0, D) \<and>
    Done 0 \<in> set (dag_log D) \<and> Done 1 \<in> set (dag_log D)"
proof -
  have "\<exists>D. fasync_run_dag 8 True batch_layer batch_ops [1] 0 = Inr (0, D) \<and>
      (\<forall>i<length batch_ops. Done i \<in> set (dag_log D))"
    by (rule run_dag_finishes [where lag = "\<lambda>_. 0" and B = 0])
       (simp_all add: batch_facts batch_edge batch_layer_def)
  then show ?thesis by (auto simp: batch_facts)
qed

text \<open>The edge numbers of a batch of more than 65536 operations do not fit 32 bits: the last pair of
  a batch of 65537 is numbered like the pair of operations 0 and 65535.\<close>

lemma edge_code_wraps:
  "edge_code 65537 (65535, 65536) = edge_code 65537 (0, 65535)"
  by (simp add: edge_code_def)

end
