(* ===== verification/DemoCalls.thy ===== *)
theory DemoCalls
  imports Annotations DepRuns WaitRuns Uring
begin

text \<open>
  The helpers around the annotated calls (\<^verbatim>\<open>pragma_io.hh\<close>): waiting for one call, the counters of
  both layers, and the dependency scenario of \<^verbatim>\<open>demo_async_io.hh\<close>.
\<close>

section \<open>The dependency scenario\<close>

definition FASYNC_ACCESS_RANGE :: "zptr \<Rightarrow> u64 \<Rightarrow> u32 \<Rightarrow> fasync_access" where
  "FASYNC_ACCESS_RANGE ptr len k = \<lparr>fa_buf = ptr, fa_len = len, fa_kind = k, fa_resource = 0\<rparr>"

definition scenario_ops :: "zptr \<Rightarrow> zptr \<Rightarrow> zptr \<Rightarrow> fasync_op list" where
  "scenario_ops a b c =
    [\<lparr>op_name = ''write(a)'', op_accesses = [FASYNC_ACCESS_RANGE a 1024 FASYNC_OUT]\<rparr>,
     \<lparr>op_name = ''write(b)'', op_accesses = [FASYNC_ACCESS_RANGE b 1024 FASYNC_OUT]\<rparr>,
     \<lparr>op_name = ''copy(a,c)'', op_accesses = [FASYNC_ACCESS_RANGE a 1024 FASYNC_IN, FASYNC_ACCESS_RANGE c 1024 FASYNC_OUT]\<rparr>,
     \<lparr>op_name = ''read(c)'', op_accesses = [FASYNC_ACCESS_RANGE c 1024 FASYNC_IN]\<rparr>]"

text \<open>The edges found, by the names of the two operations, and the pairs proven disjoint; \<open>None\<close> when an
  allocation failed.\<close>

definition scenario_dependencies :: "zptr \<Rightarrow> zptr \<Rightarrow> zptr \<Rightarrow> (nat \<times> u32 \<times> (string \<times> string) list) option" where
  "scenario_dependencies a b c =
    (if zaddr a = 0 \<or> zaddr b = 0 \<or> zaddr c = 0 then None
     else let ops = scenario_ops a b c in
       case fasync_build_dag ops 16 of (n, edges, st) \<Rightarrow>
       Some (n, ds_auto_disjoint_pairs st,
         map (\<lambda>e. (op_name (ops ! (unat e div 4)), op_name (ops ! (unat e mod 4)))) (take n edges)))"

text \<open>What \<open>malloc(4096)\<close> answers: an object of its own.\<close>

definition allocated :: "zptr \<Rightarrow> bool" where
  "allocated p \<longleftrightarrow> zaddr p \<noteq> 0 \<and> zlower p = zaddr p \<and> zupper p = zaddr p + 4096 \<and> unat (zaddr p) + 4096 < 2 ^ 64"

lemma allocated_range:
  assumes "allocated p"
  shows "fasync_capability_range p 1024 = \<lparr>rg_lo = zlower p, rg_hi = zupper p\<rparr>" and "zlower p < zupper p"
proof -
  have u: "unat (zaddr p + x) = unat (zaddr p) + unat x" if "unat x \<le> 4096" for x :: u64
    using assms that by (intro unat_add_lem [THEN iffD1]) (simp add: allocated_def)
  have "unat (zaddr p + 1024) = unat (zaddr p) + 1024" "unat (zaddr p + 4096) = unat (zaddr p) + 4096"
    using u [of 1024] u [of 4096] by simp_all
  then show "fasync_capability_range p 1024 = \<lparr>rg_lo = zlower p, rg_hi = zupper p\<rparr>" "zlower p < zupper p"
    using assms by (simp_all add: fasync_capability_range_def allocated_def Let_def word_less_nat_alt)
qed

definition apart :: "zptr \<Rightarrow> zptr \<Rightarrow> bool" where
  "apart p q \<longleftrightarrow> zupper p \<le> zlower q \<or> zupper q \<le> zlower p"

lemma range_conflict:
  assumes "allocated p" and "allocated q"
  shows "apart p q \<Longrightarrow> fst (fasync_access_conflict (FASYNC_ACCESS_RANGE p 1024 k) (FASYNC_ACCESS_RANGE q 1024 l)) = 0"
    and "fst (fasync_access_conflict (FASYNC_ACCESS_RANGE p 1024 k) (FASYNC_ACCESS_RANGE p 1024 l)) = edge_kind k l"
  using assms allocated_range [OF assms(1)] allocated_range [OF assms(2)]
  by (auto simp: fasync_access_conflict_def FASYNC_ACCESS_RANGE_def allocated_def fasync_ranges_disjoint_def apart_def
      dest: leD)

lemma scenario_fields:
  "fa_kind (FASYNC_ACCESS_RANGE p n k) = k"
  by (simp add: FASYNC_ACCESS_RANGE_def)

text \<open>The dependency demo prints what it should: for three allocated objects that lie apart, the only
  edges are from the write of \<open>a\<close> to the copy that reads it and from the copy to the read of
  \<open>c\<close>, and the four other pairs are the ones proven disjoint.\<close>

theorem scenario_edges:
  assumes "allocated a" and "allocated b" and "allocated c" and "apart a b" and "apart a c" and "apart b c"
  shows "scenario_dependencies a b c =
    Some (2, 4, [(''write(a)'', ''copy(a,c)''), (''copy(a,c)'', ''read(c)'')])"
proof -
  let ?R = "\<lambda>p k. FASYNC_ACCESS_RANGE p 1024 k" and ?ops = "scenario_ops a b c"
  have ab: "apart b a" "apart c a" "apart c b" using assms by (auto simp: apart_def)
  have z: "fst (fasync_access_conflict (?R a k) (?R b l)) = 0" "fst (fasync_access_conflict (?R a k) (?R c l)) = 0"
    "fst (fasync_access_conflict (?R b k) (?R a l)) = 0" "fst (fasync_access_conflict (?R b k) (?R c l)) = 0" for k l
    using range_conflict(1) assms ab by blast+
  have e: "fst (fasync_access_conflict (?R a FASYNC_OUT) (?R a FASYNC_IN)) = 1"
    "fst (fasync_access_conflict (?R c FASYNC_OUT) (?R c FASYNC_IN)) = 1"
    using range_conflict(2) [OF assms(1,1)] range_conflict(2) [OF assms(3,3)]
    by (simp_all add: edge_kind_def fasync_kind_writes_def fasync_kind_reads_def kind_consts)
  have d: "declared_conflict FASYNC_OUT FASYNC_OUT" "declared_conflict FASYNC_OUT FASYNC_IN"
    "\<not> declared_conflict FASYNC_IN FASYNC_IN"
    by (simp_all add: declared_conflict_def fasync_kind_writes_def fasync_kind_reads_def kind_consts)
  note pr = scenario_ops_def fasync_ops_conflict_def access_pairs_def scan_pair_def scenario_fields z e d
  have c: "fasync_ops_conflict (?ops ! 0) (?ops ! 1) = (False, True)" "fasync_ops_conflict (?ops ! 0) (?ops ! 2) = (True, False)"
    "fasync_ops_conflict (?ops ! 0) (?ops ! 3) = (False, True)" "fasync_ops_conflict (?ops ! 1) (?ops ! 2) = (False, True)"
    "fasync_ops_conflict (?ops ! 1) (?ops ! 3) = (False, True)" "fasync_ops_conflict (?ops ! 2) (?ops ! 3) = (True, False)"
    by (simp_all add: pr)
  have k: "first_kind (?ops ! 0) (?ops ! 2) = 1" "first_kind (?ops ! 2) (?ops ! 3) = 1"
    by (simp_all add: first_kind_def scenario_ops_def access_pairs_def z e)
  have l: "length ?ops = 4" by (simp add: scenario_ops_def)
  have "op_pairs 4 = [(0, 1), (0, 2), (0, 3), (1, 2), (1, 3), (2, 3)]" by (simp add: op_pairs_def upt_rec)
  then have "\<exists>st. fasync_build_dag ?ops 16 = (2, [2, 11], st) \<and> ds_auto_disjoint_pairs st = 4"
    unfolding fasync_build_dag_def l by (simp only: dag_loop.simps c k l) (simp add: edge_code_def count_edge_def)
  moreover have "zaddr a \<noteq> 0" "zaddr b \<noteq> 0" "zaddr c \<noteq> 0" using assms(1-3) by (simp_all add: allocated_def)
  ultimately show ?thesis by (auto simp: scenario_dependencies_def scenario_ops_def)
qed

section \<open>Waiting for one call\<close>

text \<open>The result struct is zeroed, and a word result is read as a \<open>long\<close>.\<close>

definition pragma_wait :: "nat \<Rightarrow> 'r env \<Rightarrow> addr \<Rightarrow> 'r world \<Rightarrow> (int \<times> 'r world) outcome" where
  "pragma_wait n E task w =
     res_bind (filc_async_wait n E (Some \<lparr>r_pending = task, r_result = 0, r_state = 0\<rparr>) w)
       (\<lambda>(out, w1). Inr (case out of Some r \<Rightarrow> sint (r_result r) | None \<Rightarrow> 0, w1))"

text \<open>\<open>pragma_wait\<close> on a call's handle returns the call's result once the call has completed, and it
  does so once: the handle is forgotten, and waiting for the same call again returns 0 at once,
  whatever the result was.\<close>

theorem pragma_wait_once:
  assumes "runtime_contract shr B T I E" and "I w" and "fw_reach shr (fst w)" and "task \<noteq> 0"
    and "find_task (tk (fst w)) task = Some t" and "pragma_wait n E task w = Inr (x, w')"
  shows "task_state (fst w') t \<noteq> 1 \<and> x = sint (t_result (tasks (tk (fst w')) t)) \<and>
    pragma_wait k E task w' = Inr (0, w')"
proof -
  let ?r = "\<lparr>r_pending = task, r_result = 0, r_state = 0\<rparr>"
  obtain out where o: "filc_async_wait n E (Some ?r) w = Inr (out, w')" "x = (case out of Some r \<Rightarrow> sint (r_result r) | None \<Rightarrow> 0)"
    using assms(6) by (auto simp: pragma_wait_def simp del: split_paired_Ex)
  obtain r' where r: "out = Some r'" "r_pending r' = task" "r_state r' \<noteq> 1" "r_state r' = task_state (fst w') t"
    "r_result r' = t_result (tasks (tk (fst w')) t)" and none: "find_task (tk (fst w')) task = None"
    using wait_delivers [OF assms(1-3) _ _ o(1)] assms(4,5) by auto
  have "pragma_wait k E task w' = Inr (0, w')"
    using assms(4) none by (simp add: pragma_wait_def filc_async_wait_def)
  then show ?thesis using r o(2) by simp
qed

section \<open>Counters\<close>

text \<open>\<open>nvcsw\<close> is the thread's voluntary context switches, which the kernel counts.\<close>

record pragma_snap =
  sn_calls :: u64
  sn_completed :: u64
  sn_failed :: u64
  sn_sqes :: u64
  sn_submits :: u64
  sn_waits :: u64
  sn_hook_resolves :: u64
  sn_sleeps :: u64

definition pragma_snap_take :: "nat \<Rightarrow> rt env \<Rightarrow> (rt world \<Rightarrow> u64) \<Rightarrow> rt world \<Rightarrow> (pragma_snap \<times> rt world) outcome" where
  "pragma_snap_take n E nvcsw w =
     res_bind (filc_async_get_stats n E (Some \<lparr>st_submitted = 0, st_completed = 0, st_failed = 0, st_pending_resolves = 0,
         st_lock_waits = 0, st_hook_resolves = 0\<rparr>) w)
       (\<lambda>(a, w1). case (a, fasync_get_stats (Some stats_zero) (ur_of w1)) of
          (Some a, Some f) \<Rightarrow> Inr (\<lparr>sn_calls = st_submitted a, sn_completed = st_completed a, sn_failed = st_failed a,
            sn_sqes = sqes_queued f, sn_submits = kernel_submit_entries f, sn_waits = kernel_wait_entries f,
            sn_hook_resolves = st_hook_resolves a, sn_sleeps = nvcsw w1\<rparr>, w1)
        | _ \<Rightarrow> Inl (Fatal ''no counters''))"

definition pragma_since :: "nat \<Rightarrow> rt env \<Rightarrow> (rt world \<Rightarrow> u64) \<Rightarrow> pragma_snap \<Rightarrow> rt world \<Rightarrow> (pragma_snap \<times> rt world) outcome" where
  "pragma_since n E nvcsw t w =
     res_bind (pragma_snap_take n E nvcsw w) (\<lambda>(now, w1).
       Inr (\<lparr>sn_calls = sn_calls now - sn_calls t, sn_completed = sn_completed now - sn_completed t,
             sn_failed = sn_failed now - sn_failed t, sn_sqes = sn_sqes now - sn_sqes t,
             sn_submits = sn_submits now - sn_submits t, sn_waits = sn_waits now - sn_waits t,
             sn_hook_resolves = sn_hook_resolves now - sn_hook_resolves t, sn_sleeps = sn_sleeps now - sn_sleeps t\<rparr>, w1))"

text \<open>The check that every body ran once: \<open>bodies\<close> is the \<open>int\<close> the bodies count themselves in.\<close>

definition pragma_check_bodies :: "nat \<Rightarrow> rt env \<Rightarrow> (rt world \<Rightarrow> u64) \<Rightarrow> int \<Rightarrow> rt world \<Rightarrow> (bool \<times> rt world) outcome" where
  "pragma_check_bodies n E nvcsw body_calls w =
     res_bind (pragma_snap_take n E nvcsw w) (\<lambda>(s, w1). Inr (word_of_int body_calls = sn_calls s, w1))"

text \<open>A snapshot is of the state after the walk over the running calls, and the counters' differences are
  right even across a wrap of the counter: adding them to the earlier ones gives the later ones.\<close>

lemma pragma_since_exact:
  assumes "pragma_since n E nvcsw t w = Inr (d, w')"
  shows "sn_calls t + sn_calls d = g_submitted (tk (fst w')) \<and> sn_completed t + sn_completed d = g_completed (tk (fst w')) \<and>
    sn_sqes t + sn_sqes d = sqes_queued (g_stats (ur_of w')) \<and>
    sn_submits t + sn_submits d = kernel_submit_entries (g_stats (ur_of w'))"
  using assms by (auto simp: pragma_since_def pragma_snap_take_def filc_async_get_stats_def fasync_get_stats_def Let_def)

section \<open>Witnesses\<close>

definition demo_object :: "addr \<Rightarrow> zptr" where
  "demo_object p = \<lparr>zaddr = p, zlower = p, zupper = p + 4096\<rparr>"

theorem scenario_edges_witness:
  "scenario_dependencies (demo_object 0x10000) (demo_object 0x20000) (demo_object 0x30000) =
    Some (2, 4, [(''write(a)'', ''copy(a,c)''), (''copy(a,c)'', ''read(c)'')])"
  by (rule scenario_edges) (simp_all add: allocated_def apart_def demo_object_def)

theorem pragma_wait_once_witness:
  "\<exists>w'. pragma_wait 0 (demo_env {}) 0x100 (demo2, ()) = Inr (8, w') \<and> pragma_wait 0 (demo_env {}) 0x100 w' = Inr (0, w')"
proof -
  have st: "task_state demo2 0x100 \<noteq> 1" "t_result (tasks (tk demo2) 0x100) = 8"
    using demo2_tasks by (auto simp: settled_def task_state_def is_running_def)
  obtain w' where c: "pragma_wait 0 (demo_env {}) 0x100 (demo2, ()) = Inr (8, w')"
    using st by (simp add: pragma_wait_def filc_async_wait_def demo2_handle wait_for.simps result_fill_def)
  show ?thesis
    using pragma_wait_once [OF demo_env_ok [of False "{}" "{}"] TrueI _ _ _ c, of "0x100" 0] c demo2_handle
      fw_steps_reach [OF fw_run_steps [OF demo2_run] demo1_reach [of False]] by simp
qed

end
