(* ===== verification/Demos.thy ===== *)
theory Demos
  imports Rpc "HOL-Library.Signed_Division"
begin

text \<open>
  What the demos share and compute: words (\<^verbatim>\<open>demos/common/utils.hh\<close>), the hash
  (\<^verbatim>\<open>demo_pragma_overlap.c\<close>), the chain of records (\<^verbatim>\<open>pragma_report.hh\<close>,
  \<^verbatim>\<open>demo_pragma_slowdown.c\<close>) and the checks (\<^verbatim>\<open>demo_checks.hh\<close>).  A byte is a
  \<open>char\<close>; a buffer or a file is the list of its bytes.  Sizes and offsets are natural numbers: the
  demos' stay far below the limits of \<open>size_t\<close> and \<open>off_t\<close>.
\<close>

section \<open>Pseudo-random numbers and words\<close>

definition demo_rand :: "u32 \<Rightarrow> u32 \<times> u32" where
  "demo_rand state = (let s = state * 1103515245 + 12345 in (drop_bit 16 s, s))"

definition demo_words :: "string list" where
  "demo_words = [''alpha'', ''beta'', ''gamma'', ''delta'', ''epsilon'']"

definition SPACE :: char where "SPACE = CHR '' ''"
definition NEWLINE :: char where "NEWLINE = CHR 0x0A"

lemma demo_word_index: "unat (r mod 5 :: u32) < 5"
proof -
  have "r mod 5 < (5 :: u32)" by (rule word_mod_less_divisor) simp
  then show ?thesis by (simp add: word_less_nat_alt)
qed

lemma demo_word_mem: "demo_words ! unat (r mod 5 :: u32) \<in> set demo_words"
  using demo_word_index [of r] by (intro nth_mem) (simp add: demo_words_def)

lemma demo_word_pos: "0 < length (demo_words ! unat (r mod 5 :: u32))"
proof -
  have "\<forall>w\<in>set demo_words. 0 < length w" by (simp add: demo_words_def)
  then show ?thesis using demo_word_mem [of r] by blast
qed

text \<open>The loop of \<open>demo_fill_words\<close>, with the bytes written so far.\<close>

function fill_words_loop :: "nat \<Rightarrow> string \<Rightarrow> nat \<Rightarrow> u32 \<Rightarrow> string \<times> nat \<times> u32" where
  "fill_words_loop cap p words state =
    (if length p < cap then
       let (r, s1) = demo_rand state; w = demo_words ! unat (r mod 5) in
       if length p + length w + (if words \<noteq> 0 then 1 else 0) > cap then (p, words, s1)
       else if words \<noteq> 0 then
         let (q, s2) = demo_rand s1 in
         fill_words_loop cap (p @ [if q AND 8 \<noteq> 0 then NEWLINE else SPACE] @ w) (words + 1) s2
       else fill_words_loop cap (p @ w) (words + 1) s1
     else (p, words, state))"
  by pat_completeness auto

termination fill_words_loop
proof (relation "measure (\<lambda>(cap, p, _, _). cap - length p)")
  fix cap :: nat and p :: string and words :: nat and state x r s1 w y q s2
  assume "length p < cap" "x = demo_rand state" "(r, s1) = x" "w = demo_words ! unat (r mod 5)"
  then have "0 < length w" using demo_word_pos [of r] by simp
  then obtain c v where "w = c # v" by (cases w) simp_all
  then show "((cap, p @ [if q AND 8 \<noteq> 0 then NEWLINE else SPACE] @ w, words + 1, s2), cap, p, words, state)
      \<in> measure (\<lambda>(cap, p, _, _). cap - length p)"
    "((cap, p @ w, words + 1, s1), cap, p, words, state) \<in> measure (\<lambda>(cap, p, _, _). cap - length p)"
    using \<open>length p < cap\<close> by simp_all
qed simp

declare fill_words_loop.simps [simp del]

definition demo_fill_words :: "nat \<Rightarrow> u32 \<Rightarrow> string \<times> nat \<times> u32" where
  "demo_fill_words cap state =
    (case fill_words_loop cap [] 0 state of
       (p, words, s) \<Rightarrow> (p @ replicate (cap - length p) SPACE, words, s))"

definition separator :: "char \<Rightarrow> bool" where
  "separator c \<longleftrightarrow> c = SPACE \<or> c = NEWLINE"

fun wordcount_loop :: "string \<Rightarrow> bool \<Rightarrow> nat \<Rightarrow> nat" where
  "wordcount_loop [] in_word words = words"
| "wordcount_loop (c # p) in_word words =
    wordcount_loop p (\<not> separator c) (if \<not> separator c \<and> \<not> in_word then words + 1 else words)"

text \<open>The bytes counted are the first \<open>demo_bytes\<close> of the buffer.\<close>

definition wordcount :: "nat \<Rightarrow> string \<Rightarrow> nat" where
  "wordcount demo_bytes p = wordcount_loop (take demo_bytes p) False 0"

section \<open>What was written is what is counted\<close>

text \<open>A word starts at a byte that is no separator and follows none but a separator.\<close>

definition word_starts :: "string \<Rightarrow> nat set" where
  "word_starts p = {i. i < length p \<and> \<not> separator (p ! i) \<and> (i = 0 \<or> separator (p ! (i - 1)))}"

lemma wordcount_loop_append:
  "wordcount_loop (p @ q) b n = wordcount_loop q (if p = [] then b else \<not> separator (last p)) (wordcount_loop p b n)"
  by (induction p b n rule: wordcount_loop.induct) auto

lemma wordcount_loop_starts:
  "wordcount_loop p False 0 = card (word_starts p)"
proof (induction p rule: rev_induct)
  case (snoc c p)
  have fin: "finite (word_starts p)" by (rule finite_subset [of _ "{..<length p}"]) (auto simp: word_starts_def)
  have "i \<in> word_starts (p @ [c]) \<longleftrightarrow>
      i \<in> word_starts p \<or> i = length p \<and> \<not> separator c \<and> (p = [] \<or> separator (last p))" for i
  proof (cases "i < length p")
    case False
    then show ?thesis by (cases "p = []"; cases "i = length p") (auto simp: word_starts_def nth_append last_conv_nth)
  qed (auto simp: word_starts_def nth_append)
  then have "word_starts (p @ [c]) = word_starts p \<union>
      (if \<not> separator c \<and> (p = [] \<or> separator (last p)) then {length p} else {})" by auto
  moreover have "length p \<notin> word_starts p" by (simp add: word_starts_def)
  ultimately have "card (word_starts (p @ [c])) =
      card (word_starts p) + (if \<not> separator c \<and> (p = [] \<or> separator (last p)) then 1 else 0)"
    using fin by simp
  then show ?case using snoc by (auto simp: wordcount_loop_append)
qed (simp add: word_starts_def)

lemma wordcount_word:
  assumes "w \<noteq> []" and "list_all (\<lambda>c. \<not> separator c) w"
  shows "wordcount_loop w False n = n + 1"
proof -
  have "wordcount_loop v True m = m" if "list_all (\<lambda>c. \<not> separator c) v" for v m
    using that by (induction v) auto
  then show ?thesis using assms by (cases w) auto
qed

lemma demo_words_letters: "w \<in> set demo_words \<Longrightarrow> w \<noteq> [] \<and> list_all (\<lambda>c. \<not> separator c) w"
  by (auto simp: demo_words_def separator_def SPACE_def NEWLINE_def)

lemma fill_words_loop_spec:
  assumes "fill_words_loop cap p words state = (p', words', s')"
    and "length p \<le> cap" and "wordcount_loop p False 0 = words" and "p = [] \<longleftrightarrow> words = 0"
    and "p = [] \<or> \<not> separator (last p)"
  shows "length p' \<le> cap \<and> wordcount_loop p' False 0 = words'"
  using assms
proof (induction cap p words state rule: fill_words_loop.induct)
  case (1 cap p words state)
  obtain r s1 where r: "demo_rand state = (r, s1)" by force
  obtain q s2 where q: "demo_rand s1 = (q, s2)" by force
  let ?w = "demo_words ! unat (r mod 5)" and ?c = "if q AND 8 \<noteq> 0 then NEWLINE else SPACE"
  have w: "?w \<noteq> []" "list_all (\<lambda>c. \<not> separator c) ?w"
    using demo_words_letters [OF demo_word_mem [of r]] by simp_all
  have last: "\<not> separator (last ?w)" using w by (simp add: list_all_iff)
  have sep: "separator ?c" by (simp add: separator_def)
  show ?case
  proof (cases "length p < cap \<and> length p + length ?w + (if words \<noteq> 0 then 1 else 0) \<le> cap")
    case False
    then have "p' = p \<and> words' = words"
      using "1.prems"(1) by (subst (asm) fill_words_loop.simps) (auto simp: r q Let_def split: if_splits)
    then show ?thesis using "1.prems"(2,3) by simp
  next
    case go: True
    show ?thesis
    proof (cases "words = 0")
      case True
      have run: "fill_words_loop cap (p @ ?w) (words + 1) s1 = (p', words', s')"
        using "1.prems"(1) go True by (subst (asm) fill_words_loop.simps) (simp add: r Let_def)
      show ?thesis
        by (rule "1.IH"(2) [OF _ r [symmetric] refl refl _ _ run])
          (use go True w last "1.prems" in \<open>simp_all add: wordcount_loop_append wordcount_word\<close>)
    next
      case False
      have run: "fill_words_loop cap (p @ [?c] @ ?w) (words + 1) s2 = (p', words', s')"
        using "1.prems"(1) go False by (subst (asm) fill_words_loop.simps) (simp add: r q Let_def)
      have count: "wordcount_loop (p @ [?c] @ ?w) False 0 = words + 1"
        using "1.prems"(3) w sep by (simp add: wordcount_loop_append wordcount_word)
      show ?thesis
        by (rule "1.IH"(1) [OF _ r [symmetric] refl refl _ _ q [symmetric] refl run _ count])
          (use go False w last in simp_all)
    qed
  qed
qed

lemma separators_uncounted: "list_all separator q \<Longrightarrow> wordcount_loop q b n = n"
  by (induction q arbitrary: b) auto

lemma fill_words_count:
  assumes "demo_fill_words cap state = (p, words, s')"
  shows "length p = cap \<and> wordcount cap p = words"
proof -
  obtain q where q: "fill_words_loop cap [] 0 state = (q, words, s')" "p = q @ replicate (cap - length q) SPACE"
    using assms by (auto simp: demo_fill_words_def split: prod.splits)
  have "length q \<le> cap \<and> wordcount_loop q False 0 = words" by (rule fill_words_loop_spec [OF q(1)]) simp_all
  moreover have "list_all separator (replicate n SPACE)" for n by (simp add: separator_def list_all_iff)
  ultimately show ?thesis
    using separators_uncounted by (simp add: q(2) wordcount_def wordcount_loop_append)
qed

section \<open>Integers in memory\<close>

text \<open>\<open>long\<close> as its eight bytes, the lowest first.\<close>

fun le_bytes :: "nat \<Rightarrow> nat \<Rightarrow> string" where
  "le_bytes 0 n = []"
| "le_bytes (Suc k) n = char_of (n mod 256) # le_bytes k (n div 256)"

fun le_value :: "string \<Rightarrow> nat" where
  "le_value [] = 0"
| "le_value (c # cs) = of_char c + 256 * le_value cs"

definition long_bytes :: "int \<Rightarrow> string" where
  "long_bytes x = le_bytes 8 (unat (word_of_int x :: u64))"

definition long_value :: "string \<Rightarrow> int" where
  "long_value bs = sint (of_nat (le_value bs) :: u64)"

lemma length_le_bytes [simp]: "length (le_bytes k n) = k"
  by (induction k arbitrary: n) simp_all

lemma le_value_bytes: "n < 256 ^ k \<Longrightarrow> le_value (le_bytes k n) = n"
proof (induction k arbitrary: n)
  case (Suc k)
  then have "n div 256 < 256 ^ k" by (simp add: less_mult_imp_div_less mult.commute)
  then show ?case using Suc.IH by simp
qed simp

lemma length_long_bytes [simp]: "length (long_bytes x) = 8"
  by (simp add: long_bytes_def)

lemma long_round: "- (2 ^ 63) \<le> x \<Longrightarrow> x < 2 ^ 63 \<Longrightarrow> long_value (long_bytes x) = x"
proof -
  assume x: "- (2 ^ 63) \<le> x" "x < 2 ^ 63"
  have "unat (word_of_int x :: u64) < 256 ^ 8"
    using unsigned_less [of "word_of_int x :: u64"] by simp
  then have "long_value (long_bytes x) = sint (word_of_int x :: u64)"
    by (simp add: long_value_def long_bytes_def le_value_bytes)
  also have "\<dots> = x" using x by (simp add: sint_sbintrunc' signed_take_bit_int_eq_self)
  finally show ?thesis .
qed

section \<open>Files\<close>

text \<open>\<open>pwrite\<close> of a whole block, which fills a gap with zeros, and \<open>pread\<close>, which stops at the end.\<close>

definition file_write :: "nat \<Rightarrow> string \<Rightarrow> string \<Rightarrow> string" where
  "file_write off bs f =
     take off f @ replicate (off - length f) (CHR 0x00) @ bs @ drop (off + length bs) f"

definition file_read :: "nat \<Rightarrow> nat \<Rightarrow> string \<Rightarrow> string" where
  "file_read off len f = take len (drop off f)"

lemma read_written: "length bs = len \<Longrightarrow> file_read off len (file_write off bs f) = bs"
  by (simp add: file_read_def file_write_def)

lemma length_file_write: "length (file_write off bs f) = max (length f) (off + length bs)"
  by (auto simp: file_write_def)

lemma read_other:
  assumes "off + len \<le> off' \<or> off' + length bs \<le> off" and "off + len \<le> length f"
  shows "file_read off len (file_write off' bs f) = file_read off len f"
proof (rule nth_equalityI)
  show "length (file_read off len (file_write off' bs f)) = length (file_read off len f)"
    using assms by (auto simp: file_read_def length_file_write)
  fix i assume "i < length (file_read off len (file_write off' bs f))"
  then have i: "off + i < length f" "i < len" using assms by (auto simp: file_read_def length_file_write)
  have "file_write off' bs f ! (off + i) = f ! (off + i)"
    using assms i by (auto simp: file_write_def nth_append)
  then show "file_read off len (file_write off' bs f) ! i = file_read off len f ! i"
    using i assms by (simp add: file_read_def length_file_write nth_append)
qed

section \<open>The chain of records\<close>

definition CHAIN_RECORD :: nat where "CHAIN_RECORD = 4096"
definition CHAIN_MAX_RECORDS :: nat where "CHAIN_MAX_RECORDS = 1024"

text \<open>The shuffle of \<open>chain_setup\<close>, from the last index down to 1.\<close>

fun shuffle_loop :: "nat \<Rightarrow> nat list \<Rightarrow> u32 \<Rightarrow> nat list \<times> u32" where
  "shuffle_loop 0 order state = (order, state)"
| "shuffle_loop (Suc i) order state =
    (let (r, s) = demo_rand state; j = unat r mod (Suc i + 1) in
     shuffle_loop i (order[Suc i := order ! j, j := order ! Suc i]) s)"

definition chain_order :: "nat \<Rightarrow> nat list" where
  "chain_order n = fst (shuffle_loop (n - 1) [0..<n] 11)"

definition chain_offset :: "nat \<Rightarrow> nat list" where
  "chain_offset n = map (\<lambda>k. k * CHAIN_RECORD) (chain_order n)"

definition chain_record :: "int \<Rightarrow> nat \<Rightarrow> string" where
  "chain_record next i = long_bytes next @ replicate (CHAIN_RECORD - 8) (char_of (97 + i mod 26))"

text \<open>What the system answers: whether the file could be opened (and the buffer allocated), what each
  \<open>pwrite\<close> of \<open>chain_setup\<close> returns, whether the data was synced, and what each \<open>pread\<close> of a
  pass returns.\<close>

record chain_io =
  ch_open :: bool
  ch_pwrite :: "nat \<Rightarrow> int"
  ch_fsync :: bool
  ch_pread :: "nat \<Rightarrow> int"

text \<open>The file and the sum \<open>chain_setup\<close> expects of the \<open>next\<close> fields; \<open>None\<close> is an \<open>exit\<close>, with 2
  for a number of records it does not take and 1 for a call that failed.\<close>

fun chain_writes :: "chain_io \<Rightarrow> nat list \<Rightarrow> nat list \<Rightarrow> string \<times> int \<Rightarrow> (string \<times> int) option" where
  "chain_writes io offs [] st = Some st"
| "chain_writes io offs (i # ks) (f, expect) =
    (let next = int (offs ! ((i + 1) mod length offs)) in
     if ch_pwrite io i \<noteq> int CHAIN_RECORD then None
     else chain_writes io offs ks (file_write (offs ! i) (chain_record next i) f, expect + next))"

definition chain_setup :: "chain_io \<Rightarrow> nat \<Rightarrow> (string \<times> int) option" where
  "chain_setup io n =
    (if n < 2 \<or> CHAIN_MAX_RECORDS < n then None
     else if \<not> ch_open io then None
     else Option.bind (chain_writes io (chain_offset n) [0..<n] ([], 0))
       (\<lambda>st. if ch_fsync io then Some st else None))"

text \<open>The \<open>i\<close>-th \<open>pread\<close> of a pass into a buffer: what it does not fill keeps what was there, and
  nothing looks at its result.  A negative offset is refused.\<close>

definition read_record :: "chain_io \<Rightarrow> nat \<Rightarrow> int \<Rightarrow> string \<Rightarrow> string \<Rightarrow> string" where
  "read_record io i at f buf =
    (if at < 0 \<or> ch_pread io i < 0 then buf
     else let bs = take (nat (ch_pread io i)) (file_read (nat at) CHAIN_RECORD f)
       in bs @ drop (length bs) buf)"

definition record_next :: "string \<Rightarrow> int" where
  "record_next rec = long_value (take 8 rec)"

text \<open>The loop of \<open>chain_blocking\<close>, with the offsets it passes to \<open>pread\<close> in order.\<close>

fun chain_loop :: "nat \<Rightarrow> chain_io \<Rightarrow> nat \<Rightarrow> string \<Rightarrow> int \<Rightarrow> int \<Rightarrow> string list \<Rightarrow> int list \<times> string list \<times> int" where
  "chain_loop 0 io i f at acc records = ([], records, acc)"
| "chain_loop (Suc m) io i f at acc records =
    (let rec = read_record io i at f (records ! i); next = record_next rec;
         (reads, records', acc') = chain_loop m io (Suc i) f next (acc + next) (records[i := rec])
     in (at # reads, records', acc'))"

definition chain_blocking :: "nat \<Rightarrow> chain_io \<Rightarrow> nat list \<Rightarrow> string \<Rightarrow> string list \<Rightarrow> int list \<times> string list \<times> int" where
  "chain_blocking n io offs f records = chain_loop n io 0 f (int (offs ! 0)) 0 records"

lemma shuffle_loop_mset: "i < length order \<Longrightarrow> mset (fst (shuffle_loop i order s)) = mset order"
proof (induction i order s rule: shuffle_loop.induct)
  case (2 i order s)
  obtain r s1 where r: "demo_rand s = (r, s1)" by force
  let ?j = "unat r mod (Suc i + 1)"
  have j: "?j < length order" using "2.prems" mod_less_divisor [of "Suc i + 1" "unat r"] by linarith
  show ?case using "2.IH" [OF r [symmetric] refl] "2.prems" mset_swap [OF j "2.prems"] by (simp add: r Let_def)
qed simp

lemma chain_order_mset: "mset (chain_order n) = mset [0..<n]"
  by (cases n) (simp_all add: chain_order_def shuffle_loop_mset del: upt_Suc)

lemma chain_order_props:
  "length (chain_order n) = n" "distinct (chain_order n)" "set (chain_order n) = {..<n}"
proof -
  note m = chain_order_mset [of n]
  show "length (chain_order n) = n" using arg_cong [OF m, of size] by simp
  show "distinct (chain_order n)" using m by (metis distinct_upt mset_eq_imp_distinct_iff)
  show "set (chain_order n) = {..<n}" using m by (metis atLeast_upt mset_eq_setD)
qed

lemma length_chain_offset [simp]: "length (chain_offset n) = n"
  by (simp add: chain_offset_def chain_order_props)

lemma chain_offsets:
  assumes "i < n"
  shows "chain_offset n ! i < n * CHAIN_RECORD"
    and "j < n \<Longrightarrow> j \<noteq> i \<Longrightarrow> chain_offset n ! i + CHAIN_RECORD \<le> chain_offset n ! j \<or>
           chain_offset n ! j + CHAIN_RECORD \<le> chain_offset n ! i"
proof -
  note c = chain_order_props [of n]
  have o: "chain_offset n ! k = (chain_order n ! k) * CHAIN_RECORD" if "k < n" for k
    using that c(1) by (simp add: chain_offset_def)
  have "chain_order n ! i \<in> {..<n}" using assms c by (metis nth_mem)
  then show "chain_offset n ! i < n * CHAIN_RECORD" by (simp add: o assms CHAIN_RECORD_def)
  assume j: "j < n" "j \<noteq> i"
  then have "chain_order n ! i \<noteq> chain_order n ! j" using assms c by (simp add: nth_eq_iff_index_eq)
  then have "chain_order n ! i + 1 \<le> chain_order n ! j \<or> chain_order n ! j + 1 \<le> chain_order n ! i" by linarith
  then have "(chain_order n ! i + 1) * CHAIN_RECORD \<le> chain_order n ! j * CHAIN_RECORD \<or>
      (chain_order n ! j + 1) * CHAIN_RECORD \<le> chain_order n ! i * CHAIN_RECORD"
    by (meson mult_le_mono1)
  then show "chain_offset n ! i + CHAIN_RECORD \<le> chain_offset n ! j \<or>
      chain_offset n ! j + CHAIN_RECORD \<le> chain_offset n ! i"
    using assms j by (simp add: o add.commute)
qed

lemma length_chain_record [simp]: "length (chain_record x i) = CHAIN_RECORD"
  by (simp add: chain_record_def CHAIN_RECORD_def)

definition chain_next :: "nat \<Rightarrow> nat \<Rightarrow> int" where
  "chain_next n i = int (chain_offset n ! ((i + 1) mod n))"

text \<open>Writing the records \<open>j\<close> to \<open>n\<close> after the first \<open>j\<close> are in the file.\<close>

lemma chain_writes_spec:
  assumes "chain_writes io (chain_offset n) [j..<n] (f0, e0) = Some (f, e)" and "j \<le> n"
    and "\<forall>i<j. chain_offset n ! i + CHAIN_RECORD \<le> length f0 \<and>
       file_read (chain_offset n ! i) CHAIN_RECORD f0 = chain_record (chain_next n i) i"
    and "e0 = (\<Sum>i<j. chain_next n i)"
  shows "e = (\<Sum>i<n. chain_next n i) \<and>
    (\<forall>i<n. file_read (chain_offset n ! i) CHAIN_RECORD f = chain_record (chain_next n i) i)"
  using assms
proof (induction "n - j" arbitrary: j f0 e0)
  case 0
  then show ?case by simp
next
  case (Suc k)
  then have j: "j < n" by simp
  let ?o = "\<lambda>i. chain_offset n ! i" and ?r = "chain_record (chain_next n j) j"
  have w: "chain_writes io (chain_offset n) [Suc j..<n] (file_write (?o j) ?r f0, e0 + chain_next n j) = Some (f, e)"
    using Suc.prems(1) j by (simp add: upt_conv_Cons Let_def chain_next_def split: if_splits)
  have "?o i + CHAIN_RECORD \<le> length (file_write (?o j) ?r f0) \<and>
      file_read (?o i) CHAIN_RECORD (file_write (?o j) ?r f0) = chain_record (chain_next n i) i" if "i < Suc j" for i
  proof (cases "i = j")
    case True
    then show ?thesis by (simp add: read_written length_file_write)
  next
    case False
    then have i: "i < j" using that by simp
    then have "?o i + CHAIN_RECORD \<le> ?o j \<or> ?o j + CHAIN_RECORD \<le> ?o i"
      using chain_offsets(2) [of i n j] j by simp
    then show ?thesis using Suc.prems(3) i by (simp add: read_other length_file_write le_max_iff_disj)
  qed
  then show ?case using Suc.hyps(1) [OF _ w] Suc.hyps(2) Suc.prems(4) j by simp
qed

lemma chain_setup_spec:
  assumes "chain_setup io n = Some (f, e)"
  shows "2 \<le> n \<and> n \<le> 1024" and "e = (\<Sum>i<n. chain_next n i)"
    and "i < n \<Longrightarrow> file_read (chain_offset n ! i) CHAIN_RECORD f = chain_record (chain_next n i) i"
proof -
  have w: "chain_writes io (chain_offset n) [0..<n] ([], 0) = Some (f, e)"
    using assms by (auto simp: chain_setup_def bind_eq_Some_conv split: if_splits)
  show "2 \<le> n \<and> n \<le> 1024"
    using assms by (auto simp: chain_setup_def CHAIN_MAX_RECORDS_def split: if_splits)
  show "e = (\<Sum>i<n. chain_next n i)"
    and "i < n \<Longrightarrow> file_read (chain_offset n ! i) CHAIN_RECORD f = chain_record (chain_next n i) i"
    using chain_writes_spec [OF w] by simp_all
qed

lemma read_chain_record:
  assumes "chain_setup io n = Some (f, e)" and "ch_pread io i = int CHAIN_RECORD" and "length buf = CHAIN_RECORD"
    and "i < n"
  shows "read_record io i (int (chain_offset n ! i)) f buf = chain_record (chain_next n i) i"
    and "record_next (chain_record (chain_next n i) i) = chain_next n i"
proof -
  show "read_record io i (int (chain_offset n ! i)) f buf = chain_record (chain_next n i) i"
    using chain_setup_spec(3) [OF assms(1,4)] assms(2,3) by (simp add: read_record_def)
  have "chain_offset n ! ((i + 1) mod n) < n * CHAIN_RECORD" using chain_offsets(1) [of "(i + 1) mod n" n] assms(4) by simp
  then have "chain_next n i < 2 ^ 63" using chain_setup_spec(1) [OF assms(1)] by (simp add: chain_next_def CHAIN_RECORD_def)
  then have "long_value (long_bytes (chain_next n i)) = chain_next n i" by (intro long_round) (simp_all add: chain_next_def)
  then show "record_next (chain_record (chain_next n i) i) = chain_next n i"
    by (simp add: record_next_def chain_record_def)
qed

lemma chain_loop_reads:
  assumes "chain_setup io n = Some (f, e)" and "\<forall>i<n. ch_pread io i = int CHAIN_RECORD"
    and "i + m = n" and "0 < m" and "length records = n" and "\<forall>r\<in>set records. length r = CHAIN_RECORD"
  shows "chain_loop m io i f (int (chain_offset n ! i)) acc records =
    (map (\<lambda>k. int (chain_offset n ! k)) [i..<n],
     take i records @ map (\<lambda>k. chain_record (chain_next n k) k) [i..<n], acc + (\<Sum>k\<in>{i..<n}. chain_next n k))"
  using assms(3-6)
proof (induction m arbitrary: i acc records)
  case (Suc m)
  let ?rec = "chain_record (chain_next n i) i"
  have i: "i < n" using Suc.prems(1) by simp
  have r: "read_record io i (int (chain_offset n ! i)) f (records ! i) = ?rec" "record_next ?rec = chain_next n i"
    using read_chain_record [OF assms(1) _ _ i, of "records ! i"] assms(2) i Suc.prems(3,4) by simp_all
  note step = chain_loop.simps(2) [of m io i f "int (chain_offset n ! i)" acc records, unfolded Let_def r]
  show ?case
  proof (cases "m = 0")
    case True
    then have n: "n = Suc i" using Suc.prems(1) by simp
    have "records[i := ?rec] = take i records @ [?rec]"
      using Suc.prems(3) by (simp add: n upd_conv_take_nth_drop)
    then show ?thesis unfolding step by (simp add: True n)
  next
    case False
    have nx: "chain_next n i = int (chain_offset n ! Suc i)" using Suc.prems(1) False by (simp add: chain_next_def)
    have l: "length (records[i := ?rec]) = n" "\<forall>r\<in>set (records[i := ?rec]). length r = CHAIN_RECORD"
      using Suc.prems(3,4) by (auto dest!: subsetD [OF set_update_subset_insert])
    have "take (Suc i) (records[i := ?rec]) = take i records @ [?rec]"
      using Suc.prems(3) i by (simp add: take_Suc_conv_app_nth)
    then show ?thesis
      unfolding step nx using Suc.IH [of "Suc i" "records[i := ?rec]" "acc + int (chain_offset n ! Suc i)"] Suc.prems(1) False l i
      by (simp add: upt_conv_Cons sum.atLeast_Suc_lessThan nx)
  qed
qed simp

lemma chain_next_sum: "(\<Sum>i<n. chain_next n i) = int (CHAIN_RECORD * (n * (n - 1) div 2))"
proof -
  have "map (\<lambda>i. chain_offset n ! ((i + 1) mod n)) [0..<n] = rotate1 (chain_offset n)"
    by (rule nth_equalityI) (auto simp: nth_rotate1)
  then have "(\<Sum>i<n. chain_offset n ! ((i + 1) mod n)) = sum_list (rotate1 (chain_offset n))"
    by (metis atLeast_upt sum_set_upt_conv_sum_list_nat)
  also have "\<dots> = sum_mset (mset (chain_offset n))" by (cases "chain_offset n") (simp_all flip: sum_mset_sum_list)
  also have "\<dots> = (\<Sum>k\<leftarrow>[0..<n]. k * CHAIN_RECORD)"
    by (simp add: chain_offset_def chain_order_mset flip: sum_mset_sum_list)
  also have "\<dots> = CHAIN_RECORD * (n * (n - 1) div 2)"
    by (simp add: sum_list_mult_const interv_sum_list_conv_sum_set_nat Sum_Ico_nat mult.commute)
  finally show ?thesis by (simp add: chain_next_def flip: of_nat_sum)
qed

end
