(* ===== verification/DemoRuns.thy ===== *)
theory DemoRuns
  imports Demos
begin

text \<open>
  What the demos' computations give: the words written are the words counted, the shuffled chain
  is read whole, and the hash never overflows; with the checks every demo reports.
\<close>

section \<open>The hash\<close>

text \<open>A signed value of \<open>bits + 1\<close> bits; a result outside is an overflow.\<close>

definition fits :: "nat \<Rightarrow> int \<Rightarrow> int option" where
  "fits bits x = (if - (2 ^ bits) \<le> x \<and> x < 2 ^ bits then Some x else None)"

definition hash_step :: "nat \<Rightarrow> int \<Rightarrow> int \<Rightarrow> int \<Rightarrow> int option" where
  "hash_step bits w r h =
    Option.bind (fits bits (h * 31)) (\<lambda>a.
    Option.bind (fits bits (a + w smod 1000003)) (\<lambda>b.
    Option.bind (fits bits (b + r)) (\<lambda>c. Some (c smod 1000000007))))"

fun hash_mix :: "nat \<Rightarrow> int \<Rightarrow> nat list \<Rightarrow> int \<Rightarrow> int option" where
  "hash_mix bits w [] h = Some h"
| "hash_mix bits w (r # rs) h = Option.bind (hash_step bits w (int r) h) (hash_mix bits w rs)"

fun hash_words :: "nat \<Rightarrow> nat \<Rightarrow> int list \<Rightarrow> int \<Rightarrow> int option" where
  "hash_words bits rounds [] h = Some h"
| "hash_words bits rounds (w # ws) h = Option.bind (hash_mix bits w [0..<rounds] h) (hash_words bits rounds ws)"

text \<open>\<open>hash_file\<close> over the words of the buffer \<open>p\<close>, computed with integers of \<open>bits + 1\<close> bits: 64 in the
  program.\<close>

definition hash_file :: "nat \<Rightarrow> nat \<Rightarrow> nat \<Rightarrow> string \<Rightarrow> int option" where
  "hash_file bits demo_bytes hash_rounds p =
     hash_words bits hash_rounds (map (\<lambda>i. long_value (take 8 (drop (8 * i) p))) [0..<demo_bytes div 8]) 0"

lemma smod_bound: "0 < m \<Longrightarrow> \<bar>x smod m\<bar> < (m :: int)"
  using smod_int_range [of m x] by auto

lemma hash_step_ok:
  assumes "\<bar>h\<bar> < 1000000007" and "0 \<le> r" and "r < 2 ^ 31" and "35 \<le> bits"
  shows "\<exists>h'. hash_step bits w r h = Some h' \<and> hash_step 35 w r h = Some h' \<and> \<bar>h'\<bar> < 1000000007"
proof -
  have w: "\<bar>w smod 1000003\<bar> < 1000003" by (rule smod_bound) simp
  have p: "(2::int) ^ 35 \<le> 2 ^ bits" by (rule power_increasing [OF assms(4)]) simp
  have f: "fits b x = Some x" if "\<bar>x\<bar> < 2 ^ 35" "b = 35 \<or> b = bits" for x b
    using that p by (auto simp: fits_def)
  have "\<bar>h * 31\<bar> < 2 ^ 35" "\<bar>h * 31 + w smod 1000003\<bar> < 2 ^ 35" "\<bar>h * 31 + w smod 1000003 + r\<bar> < 2 ^ 35"
    using w assms(1-3) by auto
  with f have "hash_step b w r h = Some ((h * 31 + w smod 1000003 + r) smod 1000000007)" if "b = 35 \<or> b = bits" for b
    using that by (simp add: hash_step_def)
  then show ?thesis using smod_bound [of 1000000007] by simp
qed

lemma hash_mix_ok:
  assumes "35 \<le> bits" and "\<And>r. r \<in> set rs \<Longrightarrow> r < 2 ^ 31"
  shows "\<bar>h\<bar> < 1000000007 \<Longrightarrow>
    \<exists>h'. hash_mix bits w rs h = Some h' \<and> hash_mix 35 w rs h = Some h' \<and> \<bar>h'\<bar> < 1000000007"
  using assms(2)
proof (induction rs arbitrary: h)
  case (Cons r rs)
  have "int r < 2 ^ 31" using Cons.prems(2) [of r] by simp
  then obtain h1 where "hash_step bits w (int r) h = Some h1" "hash_step 35 w (int r) h = Some h1" "\<bar>h1\<bar> < 1000000007"
    using hash_step_ok [OF Cons.prems(1) _ _ assms(1), of "int r"] by auto
  then show ?case using Cons.IH [of h1] Cons.prems(2) by simp
qed simp

lemma hash_words_ok:
  assumes "35 \<le> bits" and "rounds \<le> 2 ^ 31"
  shows "\<bar>h\<bar> < 1000000007 \<Longrightarrow>
    \<exists>h'. hash_words bits rounds ws h = Some h' \<and> hash_words 35 rounds ws h = Some h' \<and> \<bar>h'\<bar> < 1000000007"
proof (induction ws arbitrary: h)
  case (Cons w ws)
  have "r < 2 ^ 31" if "r \<in> set [0..<rounds]" for r using that assms(2) by simp
  from hash_mix_ok [OF assms(1) this Cons.prems] obtain h1 where
    "hash_mix bits w [0..<rounds] h = Some h1" "hash_mix 35 w [0..<rounds] h = Some h1" "\<bar>h1\<bar> < 1000000007" by blast
  then show ?case using Cons.IH [of h1] by simp
qed simp

section \<open>The checks\<close>

definition PRAGMA_MAX_CHECKS :: nat where "PRAGMA_MAX_CHECKS = 32"

record checks =
  pragma_recorded :: "(string \<times> bool) list"
  pragma_failures :: nat

definition pragma_check :: "string \<Rightarrow> bool \<Rightarrow> checks \<Rightarrow> checks" where
  "pragma_check what ok c =
    c\<lparr>pragma_recorded := (if length (pragma_recorded c) < PRAGMA_MAX_CHECKS then pragma_recorded c @ [(what, ok)]
                         else pragma_recorded c),
      pragma_failures := (if ok then pragma_failures c else pragma_failures c + 1)\<rparr>"

definition pragma_title :: "string \<Rightarrow> string option \<Rightarrow> string" where
  "pragma_title title subtitle =
     [NEWLINE] @ title @ [NEWLINE] @ replicate (length title) (CHR ''-'') @ [NEWLINE] @
     (case subtitle of None \<Rightarrow> [] | Some s \<Rightarrow> s @ [NEWLINE, NEWLINE])"

text \<open>The text printed and the exit status.\<close>

definition pragma_finish :: "checks \<Rightarrow> string \<times> int" where
  "pragma_finish c =
    (''  checks: '' @ show_long (int (length (pragma_recorded c)) - int (pragma_failures c)) @ ''/'' @
       show_long (int (length (pragma_recorded c))) @ '' passed'' @ [NEWLINE] @
     concat (map (\<lambda>(what, ok). if ok then [] else ''    FAILED: '' @ what @ [NEWLINE]) (pragma_recorded c)) @
     [NEWLINE] @ (if pragma_failures c \<noteq> 0 then ''DEMO FAILED'' else ''DEMO OK'') @ [NEWLINE],
     if pragma_failures c \<noteq> 0 then 1 else 0)"

definition no_checks :: checks where
  "no_checks = \<lparr>pragma_recorded = [], pragma_failures = 0\<rparr>"

definition run_checks :: "(string \<times> bool) list \<Rightarrow> checks" where
  "run_checks cs = fold (\<lambda>(what, ok). pragma_check what ok) cs no_checks"

lemma run_checks_exact:
  "pragma_recorded (run_checks cs) = take PRAGMA_MAX_CHECKS cs \<and>
   pragma_failures (run_checks cs) = length (filter (\<lambda>c. \<not> snd c) cs)"
proof (induction cs rule: rev_induct)
  case (snoc c cs)
  have r: "run_checks (cs @ [c]) = pragma_check (fst c) (snd c) (run_checks cs)"
    by (simp add: run_checks_def case_prod_beta)
  show ?case unfolding r using snoc by (auto simp: pragma_check_def PRAGMA_MAX_CHECKS_def)
qed (simp add: run_checks_def no_checks_def)

text \<open>A demo's verdict: it succeeds exactly when every check passed, however many there were, and when
  there is room for them all the count it prints is the number that passed.\<close>

theorem demo_verdict:
  shows "snd (pragma_finish (run_checks cs)) = (if list_all snd cs then 0 else 1)"
    and "length cs \<le> 32 \<Longrightarrow>
      int (length (pragma_recorded (run_checks cs))) - int (pragma_failures (run_checks cs)) =
      int (length (filter snd cs))"
proof -
  note c = run_checks_exact [of cs]
  show "snd (pragma_finish (run_checks cs)) = (if list_all snd cs then 0 else 1)"
    using c by (auto simp: pragma_finish_def list_all_iff filter_empty_conv)
  show "length cs \<le> 32 \<Longrightarrow>
      int (length (pragma_recorded (run_checks cs))) - int (pragma_failures (run_checks cs)) =
      int (length (filter snd cs))"
    using c sum_length_filter_compl [of snd cs] by (simp add: PRAGMA_MAX_CHECKS_def)
qed

section \<open>Properties\<close>

text \<open>Counting the words of a buffer the demos filled gives the number of words that were
  written, for any buffer size and any state of the generator, and the counter counts exactly
  the places where a word starts.\<close>

theorem words_counted:
  "case demo_fill_words cap state of (p, words, s') \<Rightarrow>
     length p = cap \<and> wordcount cap p = words \<and> wordcount cap p = card (word_starts p)"
proof -
  obtain p words s' where f: "demo_fill_words cap state = (p, words, s')" by (metis prod_cases3)
  then show ?thesis using fill_words_count [OF f] wordcount_loop_starts [of p] by (auto simp: wordcount_def)
qed

text \<open>C39. The slowdown demo reads its chain whole: with the records in the order its fixed seed
  shuffles them into, a set-up that succeeds (two to 1024 records, no call that fails) and reads
  that return whole records, following the chain from its first record calls \<open>pread\<close> at each
  record's offset once and at nothing else, in the order of the chain, leaves in the buffers
  the records that were written, and adds up to the sum the set-up expects, which is that of
  all the offsets in the file.\<close>

theorem chain_read_whole:
  assumes "chain_setup io n = Some (f, expect)"
    and "\<forall>i<n. ch_pread io i = int CHAIN_RECORD"
    and "length records = n" and "\<forall>r\<in>set records. length r = CHAIN_RECORD"
  shows "chain_blocking n io (chain_offset n) f records =
      (map int (chain_offset n), map (\<lambda>i. chain_record (int (chain_offset n ! ((i + 1) mod n))) i) [0..<n], expect) \<and>
    distinct (chain_offset n) \<and> set (chain_offset n) = (\<lambda>k. 4096 * k) ` {..<n} \<and>
    expect = int (4096 * (n * (n - 1) div 2))"
proof (intro conjI)
  note e = chain_setup_spec(2) [OF assms(1)]
  show "expect = int (4096 * (n * (n - 1) div 2))"
    unfolding e chain_next_sum by (simp add: CHAIN_RECORD_def)
  have "map (\<lambda>k. int (chain_offset n ! k)) [0..<n] = map int (chain_offset n)"
    by (rule nth_equalityI) simp_all
  then show "chain_blocking n io (chain_offset n) f records =
      (map int (chain_offset n), map (\<lambda>i. chain_record (int (chain_offset n ! ((i + 1) mod n))) i) [0..<n], expect)"
    using chain_loop_reads [OF assms(1,2), of 0 n records 0] assms(3,4) chain_setup_spec(1) [OF assms(1)]
    by (simp add: chain_blocking_def e atLeast0LessThan chain_next_def)
  note c = chain_order_props [of n]
  show "distinct (chain_offset n)"
    using c(2) by (auto simp: chain_offset_def distinct_map inj_on_def CHAIN_RECORD_def)
  show "set (chain_offset n) = (\<lambda>k. 4096 * k) ` {..<n}"
    using c(3) by (auto simp: chain_offset_def CHAIN_RECORD_def)
qed

text \<open>The overlap demo's hash never overflows: for any bytes and any number of rounds an \<open>int\<close>
  can hold, every intermediate value stays below two to the 35, so that computing in 64 bits
  gives what computing in 36 gives.\<close>

theorem hash_never_overflows:
  assumes "rounds < 2 ^ 31"
  shows "\<exists>h. hash_file 63 n rounds p = Some h \<and> hash_file 35 n rounds p = Some h \<and> \<bar>h\<bar> < 1000000007"
  unfolding hash_file_def by (rule hash_words_ok) (use assms in simp_all)

section \<open>Witnesses\<close>

text \<open>A system on which every call succeeds.\<close>

definition calm_io :: chain_io where
  "calm_io = \<lparr>ch_open = True, ch_pwrite = (\<lambda>_. int CHAIN_RECORD), ch_fsync = True, ch_pread = (\<lambda>_. int CHAIN_RECORD)\<rparr>"

lemma calm_writes: "\<exists>f e. chain_writes calm_io offs ks st = Some (f, e)"
  by (induction "calm_io" offs ks st rule: chain_writes.induct) (auto simp: calm_io_def Let_def)

theorem chain_read_whole_witness:
  "\<exists>f. chain_setup calm_io 5 = Some (f, 40960) \<and>
     snd (snd (chain_blocking 5 calm_io (chain_offset 5) f (replicate 5 (replicate CHAIN_RECORD (CHR 0x00))))) = 40960"
proof -
  obtain f e where s: "chain_setup calm_io 5 = Some (f, e)"
    using calm_writes [of "chain_offset 5" "[0..<5]" "([], 0)"] by (auto simp: chain_setup_def calm_io_def CHAIN_MAX_RECORDS_def)
  have "chain_blocking 5 calm_io (chain_offset 5) f (replicate 5 (replicate CHAIN_RECORD (CHR 0x00))) =
      (map int (chain_offset 5), map (\<lambda>i. chain_record (int (chain_offset 5 ! ((i + 1) mod 5))) i) [0..<5], e) \<and>
      e = 40960"
    using chain_read_whole [OF s, of "replicate 5 (replicate CHAIN_RECORD (CHR 0x00))"] by (simp add: calm_io_def)
  then show ?thesis using s by simp
qed

theorem hash_never_overflows_witness:
  "\<exists>h. hash_file 63 16 1000 (long_bytes (- 5) @ long_bytes 1000002) = Some h \<and> \<bar>h\<bar> < 1000000007"
  using hash_never_overflows [of 1000 16 "long_bytes (- 5) @ long_bytes 1000002"] by auto

end
