(* ===== verification/DemoFiles.thy ===== *)
theory DemoFiles
  imports DemoRuns RpcRuns
begin

text \<open>
  The files the demos read (\<^verbatim>\<open>demos/common/utils.hh\<close>), the word count demo
  (\<^verbatim>\<open>demos/wordcount\<close>) and the pattern file of \<^verbatim>\<open>demo_async_io\<close>.  The system calls are a
  parameter: a record of what each answers on a state of any type; \<^verbatim>\<open>posix_ok\<close> is what the demos
  rely on of them.
\<close>

section \<open>System calls\<close>

text \<open>\<open>px_open\<close> is told whether to create and truncate; \<open>px_malloc\<close> answers whether there was memory.\<close>

record 'w posix =
  px_malloc :: "nat \<Rightarrow> 'w \<Rightarrow> bool \<times> 'w"
  px_open :: "string \<Rightarrow> bool \<Rightarrow> 'w \<Rightarrow> int \<times> 'w"
  px_pwrite :: "int \<Rightarrow> string \<Rightarrow> nat \<Rightarrow> 'w \<Rightarrow> int \<times> 'w"
  px_pread :: "int \<Rightarrow> nat \<Rightarrow> nat \<Rightarrow> 'w \<Rightarrow> (int \<times> string) \<times> 'w"
  px_fsync :: "int \<Rightarrow> 'w \<Rightarrow> int \<times> 'w"
  px_close :: "int \<Rightarrow> 'w \<Rightarrow> 'w"

text \<open>What a call promises, on the files' contents and the open descriptors of a state.\<close>

definition posix_ok :: "'w posix \<Rightarrow> ('w \<Rightarrow> string \<Rightarrow> string) \<Rightarrow> ('w \<Rightarrow> int \<Rightarrow> string option) \<Rightarrow> bool" where
  "posix_ok P data fds \<longleftrightarrow>
     (\<forall>n w m w'. px_malloc P n w = (m, w') \<longrightarrow> data w' = data w \<and> fds w' = fds w) \<and>
     (\<forall>path create w fd w'. px_open P path create w = (fd, w') \<longrightarrow>
        data w' = (if fd \<ge> 0 \<and> create then (data w)(path := []) else data w) \<and>
        fds w' = (if fd \<ge> 0 then (fds w)(fd \<mapsto> path) else fds w) \<and> (fd \<ge> 0 \<longrightarrow> fds w fd = None)) \<and>
     (\<forall>fd bs off w r w' path. px_pwrite P fd bs off w = (r, w') \<and> fds w fd = Some path \<longrightarrow>
        fds w' = fds w \<and> (\<forall>q. q \<noteq> path \<longrightarrow> data w' q = data w q) \<and>
        (r = int (length bs) \<longrightarrow> data w' path = file_write off bs (data w path))) \<and>
     (\<forall>fd len off w r bs w' path. px_pread P fd len off w = ((r, bs), w') \<and> fds w fd = Some path \<longrightarrow>
        data w' = data w \<and> fds w' = fds w \<and> (r = int len \<longrightarrow> bs = file_read off len (data w path))) \<and>
     (\<forall>fd w r w'. px_fsync P fd w = (r, w') \<longrightarrow> data w' = data w \<and> fds w' = fds w) \<and>
     (\<forall>fd w. data (px_close P fd w) = data w \<and> fds (px_close P fd w) = (fds w)(fd := None))"

lemma posix_okD:
  assumes "posix_ok P data fds"
  shows "px_malloc P n w = (m, w') \<Longrightarrow> data w' = data w \<and> fds w' = fds w"
    "px_open P path create w = (fd, w') \<Longrightarrow> fd \<ge> 0 \<Longrightarrow>
       data w' = (if create then (data w)(path := []) else data w) \<and> fds w' = (fds w)(fd \<mapsto> path) \<and> fds w fd = None"
    "px_pwrite P fd bs off w = (r, w') \<Longrightarrow> fds w fd = Some path \<Longrightarrow>
       fds w' = fds w \<and> (\<forall>q. q \<noteq> path \<longrightarrow> data w' q = data w q) \<and>
       (r = int (length bs) \<longrightarrow> data w' path = file_write off bs (data w path))"
    "px_pread P fd len off w = ((r, cs), w') \<Longrightarrow> fds w fd = Some path \<Longrightarrow>
       data w' = data w \<and> fds w' = fds w \<and> (r = int len \<longrightarrow> cs = file_read off len (data w path))"
    "px_fsync P fd w = (r, w') \<Longrightarrow> data w' = data w \<and> fds w' = fds w"
    "data (px_close P fd w) = data w" "fds (px_close P fd w) = (fds w)(fd := None)"
proof -
  note c = assms [unfolded posix_ok_def]
  show "px_malloc P n w = (m, w') \<Longrightarrow> data w' = data w \<and> fds w' = fds w" using c [THEN conjunct1] by blast
  note c = c [THEN conjunct2]
  show "px_open P path create w = (fd, w') \<Longrightarrow> fd \<ge> 0 \<Longrightarrow>
      data w' = (if create then (data w)(path := []) else data w) \<and> fds w' = (fds w)(fd \<mapsto> path) \<and> fds w fd = None"
    using c [THEN conjunct1, rule_format, of path create w fd w'] by simp
  note c = c [THEN conjunct2]
  show "px_pwrite P fd bs off w = (r, w') \<Longrightarrow> fds w fd = Some path \<Longrightarrow>
      fds w' = fds w \<and> (\<forall>q. q \<noteq> path \<longrightarrow> data w' q = data w q) \<and>
      (r = int (length bs) \<longrightarrow> data w' path = file_write off bs (data w path))"
    using c [THEN conjunct1] by blast
  note c = c [THEN conjunct2]
  show "px_pread P fd len off w = ((r, cs), w') \<Longrightarrow> fds w fd = Some path \<Longrightarrow>
      data w' = data w \<and> fds w' = fds w \<and> (r = int len \<longrightarrow> cs = file_read off len (data w path))"
    using c [THEN conjunct1] by blast
  note c = c [THEN conjunct2]
  show "px_fsync P fd w = (r, w') \<Longrightarrow> data w' = data w \<and> fds w' = fds w" using c [THEN conjunct1] by blast
  show "data (px_close P fd w) = data w" "fds (px_close P fd w) = (fds w)(fd := None)" using c [THEN conjunct2] by blast+
qed

section \<open>The demos' files\<close>

definition DEMO_PATH_MAX :: nat where "DEMO_PATH_MAX = 128"
definition DEMO_MAX_FILES :: nat where "DEMO_MAX_FILES = 2048"

record demo_set =
  demo_paths :: "nat \<Rightarrow> string"
  demo_fd :: "nat \<Rightarrow> int"
  demo_buffers :: "nat \<Rightarrow> string"
  demo_expect :: "nat \<Rightarrow> nat"
  demo_n :: nat
  demo_bytes :: nat

text \<open>\<open>"%s/demo_%04d.txt"\<close>, cut to the array.\<close>

definition show_04 :: "nat \<Rightarrow> string" where
  "show_04 i = replicate (4 - length (show_nat i)) (CHR ''0'') @ show_nat i"

definition demo_path :: "string \<Rightarrow> nat \<Rightarrow> string" where
  "demo_path dir i = snprintf DEMO_PATH_MAX (dir @ ''/demo_'' @ show_04 i @ ''.txt'')"

text \<open>The loop of \<open>demo_files\<close>, with \<open>k\<close> files left.\<close>

fun files_loop :: "nat \<Rightarrow> 'w posix \<Rightarrow> string \<Rightarrow> nat \<Rightarrow> u32 \<Rightarrow> demo_set \<Rightarrow> 'w \<Rightarrow> int \<times> demo_set \<times> 'w" where
  "files_loop 0 P dir i state D w = (0, D, w)"
| "files_loop (Suc k) P dir i state D w =
    (case demo_fill_words (demo_bytes D) state of (b, words, state1) \<Rightarrow>
     let path = demo_path dir i;
         D1 = D\<lparr>demo_expect := (demo_expect D)(i := words), demo_paths := (demo_paths D)(i := path)\<rparr> in
     case px_open P path True w of (fd, w1) \<Rightarrow>
     if fd < 0 then (- 1, D1, w1)
     else case px_pwrite P fd b 0 w1 of (r, w2) \<Rightarrow>
     if r \<noteq> int (demo_bytes D) then (- 1, D1, px_close P fd w2)
     else case px_fsync P fd w2 of (s, w3) \<Rightarrow>
     if s \<noteq> 0 then (- 1, D1, px_close P fd w3)
     else case px_malloc P (demo_bytes D) (px_close P fd w3) of (m, w4) \<Rightarrow>
     case px_open P path False w4 of (rd, w5) \<Rightarrow>
     let D2 = D1\<lparr>demo_buffers := (demo_buffers D1)(i := if m then replicate (demo_bytes D) (CHR 0x00) else []),
                 demo_fd := (demo_fd D1)(i := rd)\<rparr> in
     if \<not> m \<or> rd < 0 then (- 1, D2, w5) else files_loop k P dir (i + 1) state1 D2 w5)"

definition demo_files :: "'w posix \<Rightarrow> string \<Rightarrow> nat \<Rightarrow> nat \<Rightarrow> demo_set \<Rightarrow> 'w \<Rightarrow> int \<times> demo_set \<times> 'w" where
  "demo_files P dir n sz D w =
    (if n > DEMO_MAX_FILES then (- 1, D, w)
     else let D1 = D\<lparr>demo_n := n, demo_bytes := sz\<rparr> in
       case px_malloc P sz w of (m, w1) \<Rightarrow>
       if \<not> m then (- 1, D1, w1) else files_loop n P dir 0 7 D1 w1)"

text \<open>\<open>read_all_files\<close> as built without \<open>FASYNC_IMPLICIT\<close>, with the plain \<open>pread\<close>; a short read ends the
  program.\<close>

fun read_loop :: "nat \<Rightarrow> 'w posix \<Rightarrow> nat \<Rightarrow> demo_set \<Rightarrow> 'w \<Rightarrow> (demo_set \<times> 'w) option" where
  "read_loop 0 P i D w = Some (D, w)"
| "read_loop (Suc k) P i D w =
    (case px_pread P (demo_fd D i) (demo_bytes D) 0 w of ((r, bs), w1) \<Rightarrow>
     if r \<noteq> int (demo_bytes D) then None
     else read_loop k P (i + 1) (D\<lparr>demo_buffers := (demo_buffers D)(i := bs)\<rparr>) w1)"

definition read_all_files :: "'w posix \<Rightarrow> demo_set \<Rightarrow> 'w \<Rightarrow> (demo_set \<times> 'w) option" where
  "read_all_files P D w = read_loop (demo_n D) P 0 D w"

definition demo_wordcount :: "'w posix \<Rightarrow> demo_set \<Rightarrow> 'w \<Rightarrow> (nat \<times> demo_set \<times> 'w) option" where
  "demo_wordcount P D w =
    (case read_all_files P D w of
       None \<Rightarrow> None
     | Some (D1, w1) \<Rightarrow> Some (\<Sum>i\<leftarrow>[0..<demo_n D1]. wordcount (demo_bytes D1) (demo_buffers D1 i), D1, w1))"

text \<open>The exit status of \<open>demo_wordcount.c\<close>, for \<open>FILES\<close> files.\<close>

definition wordcount_main :: "nat \<Rightarrow> 'w posix \<Rightarrow> string \<Rightarrow> demo_set \<Rightarrow> 'w \<Rightarrow> int" where
  "wordcount_main FILES P dir D w =
    (case demo_files P dir FILES 4096 D w of (ok, D1, w1) \<Rightarrow>
     if ok < 0 then 1
     else case demo_wordcount P D1 w1 of
         None \<Rightarrow> 1
       | Some (words, _, _) \<Rightarrow> if words \<noteq> (\<Sum>i\<leftarrow>[0..<FILES]. demo_expect D1 i) then 1 else 0)"

section \<open>Reading back what was written\<close>

lemma show_04_inj:
  assumes "show_04 i = show_04 j"
  shows "i = j"
proof -
  have z: "read_nat (replicate k (CHR ''0'') @ s) = read_nat s" for k s
    by (induction k) (simp_all add: read_nat_def)
  have "read_nat (show_04 i) = read_nat (show_04 j)" using assms by simp
  then show ?thesis by (simp add: show_04_def z read_show)
qed

lemma length_show_04: "i < 10000 \<Longrightarrow> length (show_04 i) = 4"
  using show_nat_length [of i 4] by (simp add: show_04_def)

lemma demo_path_inj:
  assumes "length dir \<le> 113" and "i < 2048" and "j < 2048" and "demo_path dir i = demo_path dir j"
  shows "i = j"
proof -
  have "demo_path dir k = dir @ ''/demo_'' @ show_04 k @ ''.txt''" if "k < 2048" for k
    using assms(1) that by (simp add: demo_path_def snprintf_def DEMO_PATH_MAX_def length_show_04)
  then have "show_04 i = show_04 j" using assms(2-4) by simp
  then show ?thesis by (rule show_04_inj)
qed

definition file_ready :: "('w \<Rightarrow> string \<Rightarrow> string) \<Rightarrow> ('w \<Rightarrow> int \<Rightarrow> string option) \<Rightarrow> string \<Rightarrow> nat \<Rightarrow> demo_set \<Rightarrow> 'w \<Rightarrow> bool" where
  "file_ready data fds dir i D w \<longleftrightarrow> fds w (demo_fd D i) = Some (demo_path dir i) \<and>
     length (data w (demo_path dir i)) = demo_bytes D \<and>
     wordcount (demo_bytes D) (data w (demo_path dir i)) = demo_expect D i"

lemma files_loop_ready:
  assumes ok: "posix_ok P data fds" and dir: "length dir \<le> 113"
  shows "files_loop k P dir i state D w = (0, D', w') \<Longrightarrow> i + k \<le> 2048 \<Longrightarrow>
    \<forall>j<i. file_ready data fds dir j D w \<Longrightarrow>
    demo_n D' = demo_n D \<and> demo_bytes D' = demo_bytes D \<and> (\<forall>j<i + k. file_ready data fds dir j D' w')"
proof (induction k arbitrary: i state D w)
  case (Suc k)
  note o = posix_okD [OF ok]
  obtain b words state1 where b: "demo_fill_words (demo_bytes D) state = (b, words, state1)" by (metis prod_cases3)
  let ?p = "demo_path dir i"
  obtain fd w1 where p1: "px_open P ?p True w = (fd, w1)" by force
  obtain r w2 where p2: "px_pwrite P fd b 0 w1 = (r, w2)" by force
  obtain s w3 where p3: "px_fsync P fd w2 = (s, w3)" by force
  obtain m w4 where p4: "px_malloc P (demo_bytes D) (px_close P fd w3) = (m, w4)" by force
  obtain rd w5 where p5: "px_open P ?p False w4 = (rd, w5)" by force
  let ?D = "D\<lparr>demo_expect := (demo_expect D)(i := words), demo_paths := (demo_paths D)(i := ?p),
      demo_buffers := (demo_buffers D)(i := if m then replicate (demo_bytes D) (CHR 0x00) else []),
      demo_fd := (demo_fd D)(i := rd)\<rparr>"
  have c: "fd \<ge> 0" "r = int (demo_bytes D)" "s = 0" "m" "rd \<ge> 0"
    and rest: "files_loop k P dir (i + 1) state1 ?D w5 = (0, D', w')"
    using Suc.prems(1) by (auto simp: b p1 p2 p3 p4 p5 Let_def split: if_splits)
  note f = fill_words_count [OF b]
  note e1 = o(2) [OF p1 c(1)]
  have e2: "fds w2 = fds w1" "\<And>q. q \<noteq> ?p \<Longrightarrow> data w2 q = data w1 q" "data w2 ?p = b"
    using o(3) [OF p2, of ?p] e1 c(2) f by (simp_all add: file_write_def)
  have e4: "data w4 = data w2" "fds w4 = (fds w1)(fd := None)"
    using o(1) [OF p4] o(5) [OF p3] o(6,7) [of fd w3] e2(1) by simp_all
  note e5 = o(2) [OF p5 c(5)]
  have new: "file_ready data fds dir i ?D w5"
    using e5 e4 e2 f by (simp add: file_ready_def)
  have old: "file_ready data fds dir j ?D w5" if j: "j < i" for j
  proof -
    have rdy: "file_ready data fds dir j D w" using Suc.prems(3) j by blast
    have np: "demo_path dir j \<noteq> ?p" using demo_path_inj [OF dir, of j i] j Suc.prems(2) by auto
    have nfd: "demo_fd D j \<noteq> fd" "demo_fd D j \<noteq> rd"
      using rdy e1 e5 e4 by (auto simp: file_ready_def split: if_splits)
    have "data w5 (demo_path dir j) = data w (demo_path dir j)"
      using e5 e4 e2 np e1 by simp
    moreover have "fds w5 (demo_fd D j) = fds w (demo_fd D j)" using e5 e4 e1 nfd by simp
    ultimately show ?thesis using rdy j by (simp add: file_ready_def)
  qed
  have "\<forall>j<i + 1. file_ready data fds dir j ?D w5" using new old by (simp add: less_Suc_eq)
  from Suc.IH [OF rest _ this] Suc.prems(2) show ?case by simp
qed simp

lemma demo_files_ready:
  assumes ok: "posix_ok P data fds" and dir: "length dir \<le> 113" and d: "demo_files P dir n sz D w = (0, D', w')"
  shows "demo_n D' = n \<and> demo_bytes D' = sz \<and> (\<forall>j<n. file_ready data fds dir j D' w')"
proof -
  obtain m w1 where m: "px_malloc P sz w = (m, w1)" by force
  have "n \<le> 2048" "files_loop n P dir 0 7 (D\<lparr>demo_n := n, demo_bytes := sz\<rparr>) w1 = (0, D', w')"
    using d m by (auto simp: demo_files_def DEMO_MAX_FILES_def Let_def split: if_splits)
  with files_loop_ready [OF ok dir this(2)] show ?thesis by simp
qed

lemma read_loop_reads:
  assumes ok: "posix_ok P data fds"
  shows "read_loop k P i D w = Some (D', w') \<Longrightarrow> \<forall>j<i + k. file_ready data fds dir j D w \<Longrightarrow>
    (\<forall>j<i. demo_buffers D j = data w (demo_path dir j)) \<Longrightarrow>
    demo_n D' = demo_n D \<and> demo_bytes D' = demo_bytes D \<and> demo_expect D' = demo_expect D \<and>
    (\<forall>j<i + k. demo_buffers D' j = data w (demo_path dir j))"
proof (induction k arbitrary: i D w)
  case (Suc k)
  let ?p = "demo_path dir i"
  obtain r bs w1 where p: "px_pread P (demo_fd D i) (demo_bytes D) 0 w = ((r, bs), w1)" by (metis prod.exhaust)
  let ?D = "D\<lparr>demo_buffers := (demo_buffers D)(i := bs)\<rparr>"
  have r: "r = int (demo_bytes D)" "read_loop k P (i + 1) ?D w1 = Some (D', w')"
    using Suc.prems(1) by (auto simp: p split: if_splits)
  have rdy: "file_ready data fds dir i D w" using Suc.prems(2) by simp
  then have e: "data w1 = data w" "fds w1 = fds w" "bs = file_read 0 (demo_bytes D) (data w ?p)"
    using posix_okD(4) [OF ok p, of ?p] r(1) by (simp_all add: file_ready_def)
  have bs: "bs = data w ?p" using rdy e(3) by (simp add: file_ready_def file_read_def)
  have a: "\<forall>j<i + 1 + k. file_ready data fds dir j ?D w1"
    using Suc.prems(2) by (simp add: file_ready_def e)
  have b: "\<forall>j<i + 1. demo_buffers ?D j = data w1 (demo_path dir j)"
    using Suc.prems(3) by (simp add: e(1) bs less_Suc_eq)
  from Suc.IH [OF r(2) a b] show ?case by (simp add: e(1))
qed simp

lemma wordcount_sum:
  assumes ok: "posix_ok P data fds" and rdy: "\<forall>j<demo_n D. file_ready data fds dir j D w"
    and c: "demo_wordcount P D w = Some (words, D', w')"
  shows "words = (\<Sum>i\<leftarrow>[0..<demo_n D]. demo_expect D i)"
proof -
  have r: "read_loop (demo_n D) P 0 D w = Some (D', w')"
    and words: "words = (\<Sum>i\<leftarrow>[0..<demo_n D']. wordcount (demo_bytes D') (demo_buffers D' i))"
    using c by (auto simp: demo_wordcount_def read_all_files_def split: option.splits)
  have d: "demo_n D' = demo_n D \<and> demo_bytes D' = demo_bytes D \<and> demo_expect D' = demo_expect D \<and>
      (\<forall>j<demo_n D. demo_buffers D' j = data w (demo_path dir j))"
    using read_loop_reads [OF ok r, of dir] rdy by simp
  have "map (\<lambda>i. wordcount (demo_bytes D') (demo_buffers D' i)) [0..<demo_n D'] = map (demo_expect D) [0..<demo_n D]"
    using d rdy by (auto simp: file_ready_def)
  then show ?thesis by (simp add: words)
qed

section \<open>The pattern file\<close>

text \<open>\<open>demo_seed_file\<close>: block \<open>i\<close> is filled with the low byte of \<open>i + 1\<close>.\<close>

definition seed_byte :: "nat \<Rightarrow> char" where
  "seed_byte i = char_of ((i + 1) mod 256)"

fun seed_loop :: "nat \<Rightarrow> 'w posix \<Rightarrow> int \<Rightarrow> nat \<Rightarrow> nat \<Rightarrow> 'w \<Rightarrow> int \<times> 'w" where
  "seed_loop 0 P fd block_size i w = (0, px_close P fd w)"
| "seed_loop (Suc k) P fd block_size i w =
    (case px_pwrite P fd (replicate block_size (seed_byte i)) (i * block_size) w of (r, w1) \<Rightarrow>
     if r \<noteq> int block_size then (- 1, px_close P fd w1) else seed_loop k P fd block_size (i + 1) w1)"

definition demo_seed_file :: "'w posix \<Rightarrow> string \<Rightarrow> nat \<Rightarrow> nat \<Rightarrow> 'w \<Rightarrow> int \<times> 'w" where
  "demo_seed_file P path blocks block_size w =
    (case px_malloc P block_size w of (m, w1) \<Rightarrow>
     if \<not> m then (- 1, w1)
     else case px_open P path True w1 of (fd, w2) \<Rightarrow>
     if fd < 0 then (- 1, w2) else seed_loop blocks P fd block_size 0 w2)"

text \<open>\<open>demo_block_ok\<close> looks at every 512th byte; \<open>size_t\<close> steps from \<open>i\<close>.\<close>

definition demo_block_ok :: "string \<Rightarrow> nat \<Rightarrow> nat \<Rightarrow> bool" where
  "demo_block_ok buf block_size index =
     list_all (\<lambda>i. buf ! i = seed_byte index) (map (\<lambda>k. 512 * k) [0..<(block_size + 511) div 512])"

lemma seed_loop_writes:
  assumes ok: "posix_ok P data fds"
  shows "seed_loop k P fd sz i w = (0, w') \<Longrightarrow> fds w fd = Some path \<Longrightarrow>
    data w path = concat (map (\<lambda>j. replicate sz (seed_byte j)) [0..<i]) \<Longrightarrow>
    data w' path = concat (map (\<lambda>j. replicate sz (seed_byte j)) [0..<i + k])"
proof (induction k arbitrary: i w)
  case 0
  then show ?case using posix_okD(6) [OF ok] by auto
next
  case (Suc k)
  let ?b = "replicate sz (seed_byte i)"
  obtain r w1 where p: "px_pwrite P fd ?b (i * sz) w = (r, w1)" by force
  have r: "r = int sz" "seed_loop k P fd sz (i + 1) w1 = (0, w')"
    using Suc.prems(1) by (auto simp: p split: if_splits)
  have "length (concat (map (\<lambda>j. replicate sz (seed_byte j)) [0..<i])) = i * sz"
    by (simp add: length_concat comp_def sum_list_triv)
  then have "data w1 path = concat (map (\<lambda>j. replicate sz (seed_byte j)) [0..<i + 1])" "fds w1 fd = Some path"
    using posix_okD(3) [OF ok p Suc.prems(2)] r(1) Suc.prems(2,3) by (simp_all add: file_write_def)
  with Suc.IH [OF r(2)] show ?case by simp
qed

lemma seeded_block:
  "i < n \<Longrightarrow> file_read (i * sz) sz (concat (map (\<lambda>j. replicate sz (seed_byte j)) [0..<n])) = replicate sz (seed_byte i)"
proof -
  assume i: "i < n"
  have len: "length (concat (map (\<lambda>j. replicate sz (seed_byte j)) [0..<i])) = i * sz"
    by (simp add: length_concat comp_def sum_list_triv)
  have "[0..<n] = [0..<i] @ i # [Suc i..<n]" using i by (metis less_or_eq_imp_le upt_conv_Cons upt_add_eq_append le0 le_add_diff_inverse)
  then show ?thesis using len by (simp add: file_read_def)
qed

section \<open>Properties\<close>

lemma files_loop_result: "files_loop k P dir i state D w = (r, D', w') \<Longrightarrow> r = 0 \<or> r = - 1"
proof (induction k arbitrary: i state D w)
  case (Suc k)
  then show ?case by (auto simp: Let_def split: prod.splits if_splits)
qed simp

text \<open>C40. The word count demo, built with the plain \<open>pread\<close>, fails only when a system call does: for a
  directory whose path has at most 113 characters it exits with 0 exactly when its files are
  created and read in full, and then it counts the words it wrote, file by file.  The name of
  a file in a longer directory is cut, so that files may share one.\<close>

theorem wordcount_demo_passes:
  assumes "posix_ok P data fds" and "length dir \<le> 113"
  shows "wordcount_main n P dir D w =
    (case demo_files P dir n 4096 D w of (ok, D1, w1) \<Rightarrow>
       if ok = 0 \<and> demo_wordcount P D1 w1 \<noteq> None then 0 else 1)"
proof -
  obtain ok D1 w1 where f: "demo_files P dir n 4096 D w = (ok, D1, w1)" by (metis prod_cases3)
  have r: "ok = 0 \<or> ok = - 1"
    using f by (auto simp: demo_files_def Let_def split: prod.splits if_splits dest!: files_loop_result)
  show ?thesis
  proof (cases "ok = 0")
    case True
    note d = demo_files_ready [OF assms, of n 4096 D w D1 w1, OF f [unfolded True]]
    show ?thesis
    proof (cases "demo_wordcount P D1 w1")
      case (Some x)
      obtain words D2 w2 where x: "x = (words, D2, w2)" by (metis prod_cases3)
      have "words = (\<Sum>i\<leftarrow>[0..<demo_n D1]. demo_expect D1 i)"
        using wordcount_sum [OF assms(1), where dir = dir and D = D1, OF _ Some [unfolded x]] d by simp
      then show ?thesis using d True by (simp add: wordcount_main_def f Some x)
    qed (simp add: wordcount_main_def f)
  qed (use r in \<open>auto simp: wordcount_main_def f\<close>)
qed

lemma seed_byte_eq: "seed_byte i = seed_byte j \<longleftrightarrow> i mod 256 = j mod 256"
proof -
  have "seed_byte i = seed_byte j \<longleftrightarrow> (i + 1) mod 256 = (j + 1) mod 256"
  proof
    have c: "(of_char (seed_byte k) :: nat) = (k + 1) mod 256" for k by (simp add: seed_byte_def)
    assume "seed_byte i = seed_byte j"
    then show "(i + 1) mod 256 = (j + 1) mod 256" using c [of i] c [of j] by simp
  qed (simp add: seed_byte_def)
  moreover have "i mod 256 = j mod 256" if "(i + 1) mod 256 = (j + 1) mod 256"
  proof -
    have "((i + 1) mod 256 + 255) mod 256 = ((j + 1) mod 256 + 255) mod 256" using that by simp
    then show ?thesis by (simp add: mod_add_left_eq)
  qed
  moreover have "(i + 1) mod 256 = (j + 1) mod 256" if "i mod 256 = j mod 256"
    using that mod_add_cong by blast
  ultimately show ?thesis by blast
qed

text \<open>The pattern file holds in every block what the check of that block looks for, and the check
  tells the blocks apart as far as their pattern does: a block passes as another exactly when
  their numbers agree modulo 256.\<close>

theorem seeded_blocks_checked:
  assumes "posix_ok P data fds" and "demo_seed_file P path blocks sz w = (0, w')"
    and "0 < sz" and "i < blocks"
  shows "length (data w' path) = blocks * sz \<and>
    demo_block_ok (file_read (i * sz) sz (data w' path)) sz j = (i mod 256 = j mod 256)"
proof -
  obtain m w1 fd w2 where p: "px_malloc P sz w = (m, w1)" "px_open P path True w1 = (fd, w2)" by (metis surj_pair)
  have c: "m" "fd \<ge> 0" "seed_loop blocks P fd sz 0 w2 = (0, w')"
    using assms(2) by (auto simp: demo_seed_file_def p split: if_splits)
  have d: "data w' path = concat (map (\<lambda>j. replicate sz (seed_byte j)) [0..<blocks])"
    using seed_loop_writes [OF assms(1) c(3), of path] posix_okD(2) [OF assms(1) p(2) c(2)] by simp
  have blk: "file_read (i * sz) sz (data w' path) = replicate sz (seed_byte i)"
    unfolding d by (rule seeded_block [OF assms(4)])
  have in_range: "512 * k < sz" if "k < (sz + 511) div 512" for k
    using that by linarith
  have "0 < (sz + 511) div 512" using assms(3) by simp
  then have "demo_block_ok (file_read (i * sz) sz (data w' path)) sz j = (seed_byte i = seed_byte j)"
    unfolding blk demo_block_ok_def using in_range by (auto simp: list_all_iff)
  moreover have "length (data w' path) = blocks * sz"
    by (simp add: d length_concat comp_def sum_list_triv)
  ultimately show ?thesis by (simp add: seed_byte_eq)
qed

section \<open>Witnesses\<close>

text \<open>A file system that never fails: the files, the open descriptors, and the next descriptor.\<close>

type_synonym toy = "(string \<Rightarrow> string) \<times> (int \<Rightarrow> string option) \<times> nat"

definition toy_posix :: "toy posix" where
  "toy_posix = \<lparr>px_malloc = (\<lambda>_ w. (True, w)),
     px_open = (\<lambda>path create (f, o', n). (if o' (int n) = None
        then (int n, (if create then f(path := []) else f, o'(int n \<mapsto> path), n + 1)) else (- 1, (f, o', n)))),
     px_pwrite = (\<lambda>fd bs off (f, o', n). (int (length bs),
        (case o' fd of Some path \<Rightarrow> f(path := file_write off bs (f path)) | None \<Rightarrow> f, o', n))),
     px_pread = (\<lambda>fd len off (f, o', n). (case o' fd of
        Some path \<Rightarrow> ((int (length (file_read off len (f path))), file_read off len (f path)), (f, o', n))
      | None \<Rightarrow> ((- 1, []), (f, o', n)))),
     px_fsync = (\<lambda>_ w. (0, w)), px_close = (\<lambda>fd (f, o', n). (f, o'(fd := None), n))\<rparr>"

lemma toy_calls:
  "px_malloc toy_posix sz w = (True, w)" "px_fsync toy_posix fd w = (0, w)"
  "px_open toy_posix path create (f, o', n) = (if o' (int n) = None
     then (int n, (if create then f(path := []) else f, o'(int n \<mapsto> path), n + 1)) else (- 1, (f, o', n)))"
  "px_pwrite toy_posix fd bs off (f, o', n) = (int (length bs),
     (case o' fd of Some path \<Rightarrow> f(path := file_write off bs (f path)) | None \<Rightarrow> f, o', n))"
  "px_pread toy_posix fd len off (f, o', n) = (case o' fd of
     Some path \<Rightarrow> ((int (length (file_read off len (f path))), file_read off len (f path)), (f, o', n))
   | None \<Rightarrow> ((- 1, []), (f, o', n)))"
  "px_close toy_posix fd (f, o', n) = (f, o'(fd := None), n)"
  by (simp_all add: toy_posix_def)

definition toy_fds :: "toy \<Rightarrow> int \<Rightarrow> string option" where
  "toy_fds w = fst (snd w)"

lemma toy_posix_ok: "posix_ok toy_posix fst toy_fds"
  by (auto simp: toy_fds_def posix_ok_def toy_posix_def split: if_splits option.splits)

lemma toy_files:
  "\<forall>m\<ge>n. o' (int m) = None \<Longrightarrow> fst (files_loop k toy_posix dir i state D (f, o', n)) = 0"
proof (induction k arbitrary: i state D f o' n)
  case (Suc k)
  obtain b words s1 where b: "demo_fill_words (demo_bytes D) state = (b, words, s1)" by (metis prod_cases3)
  have len: "length b = demo_bytes D" using fill_words_count [OF b] by simp
  have fresh: "o' (int n) = None" "o' (int n + 1) = None"
    using spec [OF Suc.prems, of n] spec [OF Suc.prems, of "Suc n"] by (simp_all add: add.commute)
  have e: "o'(int n := None) = o'" using fresh(1) by (simp add: fun_upd_idem)
  have "\<forall>m\<ge>Suc (Suc n). (o'(1 + int n \<mapsto> demo_path dir i)) (int m) = None"
    using Suc.prems by auto
  note ih = Suc.IH [where o' = "o'(1 + int n \<mapsto> demo_path dir i)", OF this]
  show ?case using fresh len by (simp add: ih b toy_calls Let_def e add.commute)
qed simp

lemma toy_reads:
  "\<forall>j<i + k. file_ready fst toy_fds dir j D w \<Longrightarrow> read_loop k toy_posix i D w \<noteq> None"
proof (induction k arbitrary: i D)
  case (Suc k)
  obtain f o' n where w: "w = (f, o', n)" by (metis prod_cases3)
  have rdy: "file_ready fst toy_fds dir i D w" using Suc.prems by simp
  have "\<forall>j<i + 1 + k. file_ready fst toy_fds dir j (D\<lparr>demo_buffers := g\<rparr>) w" for g
    using Suc.prems by (simp add: file_ready_def)
  from Suc.IH [OF this] show ?case
    using rdy by (simp add: w toy_calls toy_fds_def file_ready_def file_read_def)
qed simp

definition toy_set :: demo_set where
  "toy_set = \<lparr>demo_paths = (\<lambda>_. []), demo_fd = (\<lambda>_. 0), demo_buffers = (\<lambda>_. []), demo_expect = (\<lambda>_. 0), demo_n = 0, demo_bytes = 0\<rparr>"

theorem wordcount_demo_passes_witness:
  "wordcount_main 512 toy_posix ''/tmp'' toy_set (\<lambda>_. [], Map.empty, 3) = 0"
proof -
  let ?w = "(\<lambda>_. [], Map.empty, 3) :: toy"
  obtain ok D1 w1 where f: "demo_files toy_posix ''/tmp'' 512 4096 toy_set ?w = (ok, D1, w1)" by (metis prod_cases3)
  have "ok = 0"
    using f toy_files [of 3 Map.empty 512 "''/tmp''" 0 7 "toy_set\<lparr>demo_n := 512, demo_bytes := 4096\<rparr>" "\<lambda>_. []"]
    by (simp add: demo_files_def DEMO_MAX_FILES_def toy_calls Let_def)
  note d = demo_files_ready [OF toy_posix_ok _ f [unfolded this]]
  have "read_loop (demo_n D1) toy_posix 0 D1 w1 \<noteq> None" by (rule toy_reads [of _ _ "''/tmp''"]) (use d in simp)
  then have "demo_wordcount toy_posix D1 w1 \<noteq> None"
    by (auto simp: demo_wordcount_def read_all_files_def)
  then show ?thesis
    using wordcount_demo_passes [OF toy_posix_ok, of "''/tmp''" 512 toy_set ?w] \<open>ok = 0\<close> by (simp add: f)
qed

lemma toy_seed: "o' fd = Some path \<Longrightarrow> fst (seed_loop k toy_posix fd sz i (f, o', n)) = 0"
  by (induction k arbitrary: i f) (simp_all add: toy_calls)

theorem seeded_blocks_checked_witness:
  "\<exists>w'. demo_seed_file toy_posix ''blocks'' 300 700 (\<lambda>_. [], Map.empty, 3) = (0, w') \<and>
    demo_block_ok (file_read (2 * 700) 700 (fst w' ''blocks'')) 700 2 \<and>
    \<not> demo_block_ok (file_read (2 * 700) 700 (fst w' ''blocks'')) 700 3 \<and>
    demo_block_ok (file_read (2 * 700) 700 (fst w' ''blocks'')) 700 258"
proof -
  let ?w = "(\<lambda>_. [], Map.empty, 3) :: toy"
  obtain r w' where s: "demo_seed_file toy_posix ''blocks'' 300 700 ?w = (r, w')" by (metis surj_pair)
  moreover have "r = 0"
    using s toy_seed [of "Map.empty(3 \<mapsto> ''blocks'')" 3 "''blocks''" 300 700 0 "(\<lambda>_. [])(''blocks'' := [])" 4]
    by (simp add: demo_seed_file_def toy_calls)
  ultimately show ?thesis
    using seeded_blocks_checked [OF toy_posix_ok, of "''blocks''" 300 700 ?w w' 2 2]
      seeded_blocks_checked [OF toy_posix_ok, of "''blocks''" 300 700 ?w w' 2 3]
      seeded_blocks_checked [OF toy_posix_ok, of "''blocks''" 300 700 ?w w' 2 258] by simp
qed

end
