(* ===== verification/Spec2Isabelle.thy ===== *)
theory Spec2Isabelle
  imports PassModuleRuns Arena Native UringSubmit UringReturns RpcContract DemoCalls DemoFiles
begin

text \<open>
  A verification library for async-a-sync: a compiler pass turns the calls of annotated C functions
  into asynchronous ones, and a runtime keeps the buffers of such a call pending until it completes.

  \<^bold>\<open>The program.\<close>  \<^verbatim>\<open>runtime/framework/filc_async.c\<close> is the framework.  A call starts a
  task, takes dependency locks for its arguments, marks the buffers it will fill or read, and
  is handed to a runtime.  A mark sets a flag in the object's header, and an access to a
  flagged object waits for the owners of its marks by polling their runtimes.  Completing a
  task records its result, removes its marks, releases its locks and takes it off the list of
  running tasks.  \<^verbatim>\<open>filc_async_wait_all\<close> makes a token whose join task runs until the
  write marks its inputs had have been resolved.  Two runtimes implement the calls: io_uring, on a request
  layer of its own with two rings shared with the kernel, and rpc, one TCP request per call.
  The pass \<^verbatim>\<open>compiler/pass/FilAsync.cpp\<close> reads the annotations of a module, emits a descriptor
  and a stub for every annotated function and sends the calls to the stubs; a stub stages the
  arguments and makes the framework calls above in their order.

  \<^bold>\<open>How it is modelled.\<close>  Pointers are 64-bit words, pointers with bounds are the record
  \<^verbatim>\<open>zptr\<close>, structs are records and globals the fields of a state record that every
  operation takes and returns.  Counters, ring indices, ids and edge numbers keep their width.
  An operation that can stop the process or wait forever returns a sum: \<^verbatim>\<open>Inl (Fatal msg)\<close>
  is \<^verbatim>\<open>filc_async_fatal\<close> or a trapped access, \<^verbatim>\<open>Inl No_Return\<close> a wait whose fuel ran out.
  What lies outside the sources is a parameter: the answers of the allocators and of the
  collector, the kernel (record \<^verbatim>\<open>kernel\<close> and the effect of a sleep), the sockets, the bounds
  checks of Fil-C, the body of an annotated function, other threads during a wait, the names
  LLVM gives when a name is taken.  One lock
  guards the framework and one the io_uring runtime; an operation that runs under a lock is
  one atomic step, and an operation that releases it is split where it does.

  \<^bold>\<open>The theories.\<close>
  \<^item> \<^verbatim>\<open>Prelude\<close>, \<^verbatim>\<open>Hashing\<close>, \<^verbatim>\<open>Dll\<close>: machine types, outcomes, the multiplicative hash, and the
    doubly linked list of running tasks and calls with its locale \<^verbatim>\<open>age_ordered_list\<close>.
  \<^item> \<^verbatim>\<open>Locks\<close>, \<^verbatim>\<open>LockRuns\<close>: \<^verbatim>\<open>lock_get\<close> to \<^verbatim>\<open>locks_release\<close>.  Invariant, exclusion, no overtaking,
    the counter fast path against the full walk, release without the fatal count check, and
    the locale \<^verbatim>\<open>lock_service\<close>.
  \<^item> \<^verbatim>\<open>Marks\<close>: \<^verbatim>\<open>mark_find\<close> to \<^verbatim>\<open>mark_remove\<close> with the header flag.
  \<^item> \<^verbatim>\<open>Tasks\<close>: the handle table, the running list, starting a task.
  \<^item> \<^verbatim>\<open>Framework\<close>, \<^verbatim>\<open>FrameworkInv\<close>, \<^verbatim>\<open>Steps\<close>, \<^verbatim>\<open>FrameworkRuns\<close>: the state under \<^verbatim>\<open>g_lock\<close>, its atomic
    entry points, one step per entry point, and what holds in every reachable state: the
    pending flag is exact, a completed task owns nothing, results are stable, an object has
    one producer, a join outlives every write mark it saw.
  \<^item> \<^verbatim>\<open>Waits\<close>, \<^verbatim>\<open>WaitInv\<close>, \<^verbatim>\<open>WaitRuns\<close>: the loops that wait.  What other threads may do meanwhile is
    \<^verbatim>\<open>runtime_contract\<close>; a loop over the owners returns, with fuel above the number of marks, when
    the owners' runtime is \<^verbatim>\<open>prompt\<close>, which \<^verbatim>\<open>UringReturns\<close> shows of io_uring; a delivered result is delivered once.
  \<^item> \<^verbatim>\<open>Startup\<close>: the descriptor table of \<^verbatim>\<open>filc_async_validate_table\<close> and the rest of the file.
  \<^item> \<^verbatim>\<open>Arena\<close>: \<^verbatim>\<open>filc_async_arena.c\<close>, interpreting the locale \<^verbatim>\<open>allocator\<close>, the contract of
    \<^verbatim>\<open>filc_async_alloc.h\<close>; also the request size at which the size sum wraps.
  \<^item> \<^verbatim>\<open>Native\<close>: \<^verbatim>\<open>filc_async_native.c\<close>.  The word in memory is written by other threads between the
    loads and the compare-and-swaps; the loop makes one atomic update after all those writes, which
    refines the abstract flag update.
  \<^item> \<^verbatim>\<open>Requests\<close>, \<^verbatim>\<open>RequestInv\<close>, \<^verbatim>\<open>RequestRuns\<close>: \<^verbatim>\<open>fasync.c\<close> and the drain of \<^verbatim>\<open>fasync_native.c\<close>.  The
    table, its bitmap, free list and generations agree; ids go stale; submission and drain
    move exactly the right entries across the wrap of the indices; \<^verbatim>\<open>fasync_wait_all\<close> ends.
  \<^item> \<^verbatim>\<open>Deps\<close>, \<^verbatim>\<open>DepRuns\<close>: \<^verbatim>\<open>fasync_dep.c\<close>.  Conflicts, edges that decode to them, and the scheduler:
    it starts nothing before what it depends on and finishes every batch.
  \<^item> \<^verbatim>\<open>Uring\<close>, \<^verbatim>\<open>Tokens\<close>, \<^verbatim>\<open>UringRuns\<close>: \<^verbatim>\<open>fasync_syscalls.c\<close>, \<^verbatim>\<open>filc_async_uring.c\<close>, \<^verbatim>\<open>fasync_token.c\<close>.
    Handles of pending opens, which functions are registered, tagged calls, and the runtime's
    contract with the framework: it changes it only by completing tasks.
  \<^item> \<^verbatim>\<open>UringContract\<close>: the io_uring runtime under the waits of the framework.  The locale
    \<^verbatim>\<open>uring_linked\<close> is a sublocale of \<^verbatim>\<open>runtime_contract\<close>, so what \<^verbatim>\<open>WaitRuns\<close> shows of any runtime
    holds of this one: an access waits for the io_uring calls that fill the buffer.
  \<^item> \<^verbatim>\<open>UringSubmit\<close>: \<^verbatim>\<open>uring_submit\<close> and \<^verbatim>\<open>queue\<close> keep the same invariant and lose no call: its task has
    been completed or the call is in flight when the submission returns.  The environment
    \<^verbatim>\<open>uring_env\<close> submits through it, so the same holds of a submission made by the framework.
  \<^item> \<^verbatim>\<open>UringReturns\<close>: a blocking poll ends with its task completed when the kernel makes progress
    (\<^verbatim>\<open>kernel_serves\<close>), so the io_uring runtime is prompt and an access to its buffers returns.
  \<^item> \<^verbatim>\<open>Rpc\<close>, \<^verbatim>\<open>RpcRuns\<close>: \<^verbatim>\<open>rpc_runtime.c\<close> and \<^verbatim>\<open>demos/rpc/rpc_server.c\<close>.  The text protocol round trip,
    every byte sent once and in order, completion with the reply stored.
  \<^item> \<^verbatim>\<open>RpcContract\<close>: the rpc runtime under the same \<^verbatim>\<open>runtime_contract\<close>, with the waits of its own polls
    nested to any depth, and what its submissions leave behind.
  \<^item> \<^verbatim>\<open>Pass\<close>, \<^verbatim>\<open>PassRuns\<close>: \<^verbatim>\<open>parseKinds\<close>, \<^verbatim>\<open>parseRuntime\<close> and the contents of a descriptor.  The option
    parser agrees with a declarative reading of the options, and the descriptor it gives passes
    the startup check exactly when the count of buffer options fits.
  \<^item> \<^verbatim>\<open>Stub\<close>, \<^verbatim>\<open>StubRuns\<close>: the code of a stub and of its run thunk, executed over the framework of
    \<^verbatim>\<open>Waits\<close>.  When a stub submits, its task owns every lock and mark its descriptor names; the
    thunk loads back the arguments the stub stored.
  \<^item> \<^verbatim>\<open>PassModule\<close>: LLVM modules as data and the pass over them.  A global has an identity, a constant
    is its structure, and \<^verbatim>\<open>pool\<close> lists the constants that exist.
  \<^item> \<^verbatim>\<open>ModuleInv\<close>, \<^verbatim>\<open>SampleModule\<close>, \<^verbatim>\<open>TeardownRuns\<close>, \<^verbatim>\<open>CallSites\<close>, \<^verbatim>\<open>Emission\<close>, \<^verbatim>\<open>PassModuleRuns\<close>: the invariant
    \<^verbatim>\<open>module_ok\<close> (no dangling reference, unique names) and that every operation keeps it; the
    teardown ends and keeps the other consumers' entries; which calls are redirected; what is
    emitted for a function; the whole pass, whose descriptors outlive the teardown.
  \<^item> \<^verbatim>\<open>Annotations\<close>: the macros of \<^verbatim>\<open>filc_async_annotate.h\<close> and the annotated functions of the demos.
    What the macros write is what the pass and the runtime read, and every one of the functions
    is registered at startup.
  \<^item> \<^verbatim>\<open>Demos\<close>, \<^verbatim>\<open>DemoRuns\<close>, \<^verbatim>\<open>DemoFiles\<close>, \<^verbatim>\<open>DemoCalls\<close>: what the programs under \<^verbatim>\<open>demos/\<close> compute.  The
    words written are the words counted, through files and system calls that may fail; the
    chain of records is read whole, each record once, in the order the set-up shuffles; the hash does not
    overflow; \<^verbatim>\<open>pragma_wait\<close> delivers a result once; the dependency scenario finds its two edges.
    System calls are a record of functions with the laws \<^verbatim>\<open>posix_ok\<close>.

  \<^bold>\<open>Fuel.\<close>  Loops that end by themselves are total functions.  The waits take fuel: one round per
  mark of the object (\<^verbatim>\<open>uring_access_returns\<close>), one per request slot (\<^verbatim>\<open>req_wait_returns\<close> and
  \<^verbatim>\<open>wait_all_succeeds\<close>, whose bound is the source's own), one per unfinished operation and unready
  poll of a batch (\<^verbatim>\<open>run_dag_finishes\<close>), one per byte of a payload (\<^verbatim>\<open>put\<close>).  A poll of the rpc
  runtime that waits for a payload polls other calls; \<^verbatim>\<open>rpc_tower\<close> is that nesting to a given depth,
  and what is shown of it holds for every depth; that such a poll returns is not shown, since a peer
  may never answer.  The walk over the
  annotation graph is a partial function, and \<^verbatim>\<open>walk_spec\<close> shows that it ends.

  \<^bold>\<open>Not modelled.\<close>  Of the pass, what it prints and its registration with \<^verbatim>\<open>opt\<close>; a function is its
  type, metadata, linkage and the constants and calls of its instructions.  Of the demos, what
  measures and prints: clocks, page-cache control, medians and ratios in double arithmetic, the
  tables of \<^verbatim>\<open>pragma_report.hh\<close> and the rpc reports, the branch of \<^verbatim>\<open>read_all_files\<close> for the build with implicit
  calls (the build with plain \<^verbatim>\<open>pread\<close> is modelled), and the main functions that issue calls in
  order to time them.  Of the server, \<^verbatim>\<open>main\<close> only opens a socket and starts a thread for each
  connection.  Build files, scripts and the patches to the external compiler are text for other
  programs.  Data races inside an operation are outside the model, since its lock is held;
  where a source reads shared state without the lock (\<^verbatim>\<open>fasync_token.c\<close>) the model is of the
  sequential behaviour.
\<close>

end
